(* ===== verification/NgxPrelude.thy ===== *)
theory NgxPrelude
  imports Main "HOL-Library.Word" "HOL-Library.Monad_Syntax"
begin

text \<open>
  The vocabulary shared by all the theories: the machine types of the code (a build for 64-bit
  Linux; the copies of \<^verbatim>\<open>objs/ngx_auto_config.h\<close> in the repository are of a 32-bit build), reads from byte buffers, the return codes of
  \<^verbatim>\<open>src/core/ngx_core.h\<close>, the case-folding macros and the libc functions the code calls.

  A C pointer into a buffer is either an index into the buffer (when the code moves it both
  ways or keeps it) or the list of the bytes from the pointer to the end of the object (when the
  code only moves it forward).  A read outside the object is undefined behaviour in C; here it
  is the value \<open>None\<close>, so that "the function never reads out of bounds" is a theorem to prove
  and not an assumption of the model.
\<close>

unbundle bit_operations_syntax

section \<open>Machine types\<close>

type_synonym u8 = "8 word"
type_synonym u32 = "32 word"
type_synonym u64 = "64 word"
type_synonym bytes = "8 word list"

abbreviation LF :: u8 where "LF \<equiv> 10"
abbreviation CR :: u8 where "CR \<equiv> 13"

datatype ngx_rc = NGX_OK | NGX_ERROR | NGX_AGAIN | NGX_BUSY | NGX_DONE | NGX_DECLINED | NGX_ABORT

definition str :: "string \<Rightarrow> bytes" where
  "str s = map of_char s"

named_theorems mem_simps \<open>facts about reads from buffers\<close>
named_theorems byte_simps \<open>facts about single bytes and the macros on them\<close>

section \<open>Reading a buffer\<close>

definition rd :: "'a list \<Rightarrow> nat \<Rightarrow> 'a option" where
  "rd b i = (if i < length b then Some (b ! i) else None)"

lemma rd_in [mem_simps, simp]: "i < length b \<Longrightarrow> rd b i = Some (b ! i)"
  by (simp add: rd_def)

lemma rd_out [mem_simps]: "length b \<le> i \<Longrightarrow> rd b i = None"
  by (simp add: rd_def)

lemma rd_eq_Some [mem_simps]: "rd b i = Some x \<longleftrightarrow> i < length b \<and> b ! i = x"
  by (auto simp: rd_def)

lemma rd_eq_None [mem_simps]: "rd b i = None \<longleftrightarrow> length b \<le> i"
  by (auto simp: rd_def)

lemma rd_append [mem_simps]: "i < length b \<Longrightarrow> rd (b @ c) i = rd b i"
  by (simp add: rd_def nth_append)

lemma rd_take [mem_simps]: "i < n \<Longrightarrow> rd (take n b) i = rd b i"
  by (simp add: rd_def)

lemma rd_drop: "rd (drop e m) j = rd m (e + j)"
  by (auto simp: rd_def add.commute)

lemma drop_ConsD:
  assumes "drop p m = c # cs"
  shows "p < length m" "m ! p = c" "drop (Suc p) m = cs" "rd m p = Some c"
proof -
  show p: "p < length m" using assms by (metis drop_eq_Nil2 leI list.discI)
  show m: "m ! p = c" and "drop (Suc p) m = cs"
    using assms p by (metis Cons_nth_drop_Suc list.inject)+
  show "rd m p = Some c" using p m by simp
qed

lemma drop_appendD: "drop p m = xs @ ys \<Longrightarrow> drop (p + length xs) m = ys"
  by (metis add.commute append_eq_conv_conj drop_drop)

section \<open>Case folding and character classes\<close>

definition ngx_tolower :: "u8 \<Rightarrow> u8" where
  "ngx_tolower c = (if 0x41 \<le> c \<and> c \<le> 0x5a then c OR 0x20 else c)"

definition ngx_toupper :: "u8 \<Rightarrow> u8" where
  "ngx_toupper c = (if 0x61 \<le> c \<and> c \<le> 0x7a then c AND NOT 0x20 else c)"

definition is_digit :: "u8 \<Rightarrow> bool" where
  "is_digit c \<longleftrightarrow> 0x30 \<le> c \<and> c \<le> 0x39"

text \<open>Every byte value, to decide by evaluation a fact that ranges over one byte.\<close>

lemma u8_in_upt: "unat (c :: u8) < n \<Longrightarrow> c \<in> set (map word_of_nat [0..<n])"
proof -
  assume "unat c < n"
  moreover have "c = word_of_nat (unat c)"
    by simp
  ultimately show ?thesis
    by (metis atLeastLessThan_iff image_eqI set_map set_upt zero_le)
qed

lemma all_bytes: "(\<forall>c \<in> set (map word_of_nat [0..<256]). P c) \<Longrightarrow> P (c :: u8)"
  using u8_in_upt [of c 256] unsigned_less [of c] by auto

lemma unat_u8_less: "unat (c :: u8) < 256"
  using unsigned_less [of c, where 'a = nat] by simp

lemma is_digit_unat: "is_digit c \<longleftrightarrow> 48 \<le> unat c \<and> unat c \<le> 57"
  by (simp add: is_digit_def word_le_nat_alt)

lemma ngx_tolower_eq_0 [byte_simps, simp]: "ngx_tolower c = 0 \<longleftrightarrow> c = 0"
proof -
  have "bit (c OR 0x20) 5" for c :: u8
    by (simp add: bit_or_iff)
  then have "c OR 0x20 \<noteq> 0" for c :: u8
    by (metis bit_0_eq bot_apply bot_bool_def)
  then show ?thesis
    by (auto simp: ngx_tolower_def)
qed

lemma uint_eq_iff_u8 [byte_simps, simp]: "uint (a :: u8) = uint b \<longleftrightarrow> a = b"
  by (simp add: word_uint_eq_iff)

lemma ngx_tolower_zero_cong: "ngx_tolower a = ngx_tolower b \<Longrightarrow> b \<noteq> 0 \<Longrightarrow> a \<noteq> 0"
  by (metis ngx_tolower_eq_0)

lemma u8_bit_out: "8 \<le> n \<Longrightarrow> \<not> bit (x :: u8) n"
  by (simp add: impossible_bit)

lemma u8_bit_eqI:
  assumes "\<And>n. n \<in> {0, 1, 2, 3, 4, 5, 6, 7} \<Longrightarrow> bit a n = bit b n"
  shows "a = (b :: u8)"
proof (rule bit_word_eqI)
  fix n :: nat
  assume "n < LENGTH(8)"
  then have "n \<in> {0, 1, 2, 3, 4, 5, 6, 7}" by auto
  then show "bit a n = bit b n" by (rule assms)
qed

lemma word_of_unat: "unat (x :: 'a::len word) = n \<Longrightarrow> x = word_of_nat n"
  by auto

section \<open>256-bit tables and hexadecimal digits\<close>

text \<open>\<^verbatim>\<open>table[ch >> 5] & (1 << (ch & 0x1f))\<close>, the membership test of the escape and \<^verbatim>\<open>usual\<close> tables.\<close>

definition in_bitmap :: "u32 list \<Rightarrow> u8 \<Rightarrow> bool" where
  "in_bitmap t c \<longleftrightarrow> t ! unat (drop_bit 5 c) AND push_bit (unat (c AND 0x1f)) 1 \<noteq> 0"

text \<open>The digits \<^verbatim>\<open>hex[c >> 4]\<close> and \<^verbatim>\<open>hex[c & 0xf]\<close> that the printers write.\<close>

definition hex_tab :: bytes where
  "hex_tab = [0x30, 0x31, 0x32, 0x33, 0x34, 0x35, 0x36, 0x37, 0x38, 0x39, 0x61, 0x62, 0x63, 0x64, 0x65, 0x66]"

definition hex_hi :: "u8 \<Rightarrow> u8" where
  "hex_hi c = hex_tab ! unat (drop_bit 4 c)"

definition hex_lo :: "u8 \<Rightarrow> u8" where
  "hex_lo c = hex_tab ! unat (c AND 0xf)"

lemma hex_tab_cases:
  assumes "unat v < 16"
  shows "if is_digit (hex_tab ! unat v) then hex_tab ! unat v = v + 0x30
         else 0x61 \<le> hex_tab ! unat v OR 0x20 \<and> hex_tab ! unat v OR 0x20 \<le> 0x66 \<and>
              hex_tab ! unat v OR 0x20 = v + 0x57"
proof -
  have "\<forall>v \<in> set (map word_of_nat [0..<16]).
     if is_digit (hex_tab ! unat v) then hex_tab ! unat v = v + 0x30
     else 0x61 \<le> hex_tab ! unat v OR 0x20 \<and> hex_tab ! unat v OR 0x20 \<le> 0x66 \<and>
          hex_tab ! unat v OR 0x20 = v + 0x57"
    by (simp add: upt_rec hex_tab_def is_digit_def)
  then show ?thesis
    using u8_in_upt [OF assms] by blast
qed

lemma nibble_less: "unat (drop_bit 4 (c :: u8)) < 16" "unat ((c :: u8) AND 0xf) < 16"
proof -
  have "unat c < 256" using unsigned_less [of c] by simp
  then show "unat (drop_bit 4 c) < 16"
    unfolding unat_drop_bit_eq by (simp add: drop_bit_eq_div)
  have "c AND 0xf \<le> 0xf" by (rule word_and_le1)
  then show "unat (c AND 0xf) < 16"
    by (simp add: word_le_nat_alt)
qed

lemma nibbles_join: "push_bit 4 (drop_bit 4 (c :: u8)) + (c AND 0xf) = c"
proof -
  have "push_bit 4 (drop_bit 4 c) + (c AND 0xf) = push_bit 4 (drop_bit 4 c) OR (c AND 0xf)"
  proof (rule disjunctive_add)
    fix n :: nat
    show "\<not> bit (push_bit 4 (drop_bit 4 c)) n \<or> \<not> bit (c AND 0xf) n"
    proof (cases "n < 4")
      case True
      then show ?thesis by (simp add: bit_push_bit_iff)
    next
      case False
      have "(0xf :: u8) = mask 4" by (simp add: mask_eq_exp_minus_1)
      show ?thesis
        unfolding \<open>0xf = mask 4\<close> using False by (simp add: bit_and_iff bit_mask_iff)
    qed
  qed
  also have "\<dots> = c"
    by (rule u8_bit_eqI) (auto simp: bit_simps simp flip: numeral_2_eq_2 numeral_3_eq_3)
  finally show ?thesis .
qed

section \<open>The libc functions the code calls\<close>

text \<open>\<^verbatim>\<open>strlen\<close>: the number of bytes before the terminating zero.\<close>

fun c_strlen :: "bytes \<Rightarrow> nat option" where
  "c_strlen [] = None"
| "c_strlen (c # cs) = (if c = 0 then Some 0 else map_option Suc (c_strlen cs))"

text \<open>\<^verbatim>\<open>strncmp\<close>: at most \<open>n\<close> bytes, stopping at a zero; the sign of the result is that of the
  difference of the first bytes that differ.\<close>

fun c_strncmp :: "bytes \<Rightarrow> bytes \<Rightarrow> nat \<Rightarrow> int option" where
  "c_strncmp _ _ 0 = Some 0"
| "c_strncmp (a # s1) (b # s2) (Suc n) =
     (if a \<noteq> b then Some (uint a - uint b)
      else if a = 0 then Some 0
      else c_strncmp s1 s2 n)"
| "c_strncmp _ _ (Suc n) = None"

text \<open>\<^verbatim>\<open>memcmp\<close>: exactly \<open>n\<close> bytes.\<close>

fun c_memcmp :: "bytes \<Rightarrow> bytes \<Rightarrow> nat \<Rightarrow> int option" where
  "c_memcmp _ _ 0 = Some 0"
| "c_memcmp (a # s1) (b # s2) (Suc n) =
     (if a \<noteq> b then Some (uint a - uint b) else c_memcmp s1 s2 n)"
| "c_memcmp _ _ (Suc n) = None"

lemma c_strlen_Some: "c_strlen s = Some n \<Longrightarrow> n < length s \<and> s ! n = 0 \<and> 0 \<notin> set (take n s)"
  by (induction s arbitrary: n) (auto split: if_splits)

lemma c_strlen_append_0: "0 \<notin> set s \<Longrightarrow> c_strlen (s @ 0 # r) = Some (length s)"
  by (induction s) auto

lemma c_memcmp_Some:
  "n \<le> length s1 \<Longrightarrow> n \<le> length s2 \<Longrightarrow>
   \<exists>r. c_memcmp s1 s2 n = Some r \<and> (r = 0 \<longleftrightarrow> take n s1 = take n s2)"
  by (induction s1 s2 n rule: c_memcmp.induct) auto

lemma c_strncmp_no_zero:
  "0 \<notin> set (take n s2) \<Longrightarrow> n \<le> length s2 \<Longrightarrow> c_strncmp s1 s2 n = Some 0 \<Longrightarrow> take n s1 = take n s2"
  by (induction s1 s2 n rule: c_strncmp.induct) (auto split: if_splits)

lemma c_strncmp_refl_take:
  "n \<le> length s1 \<Longrightarrow> take n s1 = take n s2 \<Longrightarrow> n \<le> length s2 \<Longrightarrow> c_strncmp s1 s2 n = Some 0"
  by (induction s1 s2 n rule: c_strncmp.induct) auto

section \<open>The contract of a codec\<close>

text \<open>
  An encoder on the inputs \<open>ok\<close> and a decoder that inverts it.  The text codecs of the library
  promise this; what follows from it is proved here once.
\<close>

locale codec =
  fixes ok :: "'a \<Rightarrow> bool"
    and enc :: "'a \<Rightarrow> 'b"
    and dec :: "'b \<Rightarrow> 'a option"
  assumes dec_enc: "ok x \<Longrightarrow> dec (enc x) = Some x"
begin

lemma enc_inject: "ok x \<Longrightarrow> ok y \<Longrightarrow> enc x = enc y \<longleftrightarrow> x = y"
  by (metis dec_enc option.inject)

lemma dec_None: "ok x \<Longrightarrow> dec y = None \<Longrightarrow> enc x \<noteq> y"
  using dec_enc by auto

end

end
