(* ===== verification/NgxCString.thy ===== *)
theory NgxCString
  imports NgxPrelude
begin

text \<open>
  The C-string half of \<^verbatim>\<open>src/core/ngx_string.c\<close>: copying, case-insensitive comparison,
  substring search.  A source string is the list of the bytes from the pointer to the end of
  its object, the terminating zero included; \<open>None\<close> is a read past that end.  A function that
  writes returns the bytes it writes, in order.  A function that returns a pointer into its
  argument returns the offset, \<open>None\<close> inside for \<^verbatim>\<open>NULL\<close>.
\<close>

section \<open>Copying\<close>

fun ngx_strlow :: "bytes \<Rightarrow> nat \<Rightarrow> bytes option" where
  "ngx_strlow src 0 = Some []"
| "ngx_strlow (c # src) (Suc n) = map_option ((#) (ngx_tolower c)) (ngx_strlow src n)"
| "ngx_strlow [] (Suc n) = None"

text \<open>
  \<^verbatim>\<open>while (--n)\<close>: the loop runs with the decremented count.  The result is what is written
  from \<^verbatim>\<open>dst\<close> on and the offset of the returned pointer.
\<close>

fun cpystrn_loop :: "bytes \<Rightarrow> nat \<Rightarrow> (bytes \<times> nat) option" where
  "cpystrn_loop src 0 = Some ([0], 0)"
| "cpystrn_loop (c # src) (Suc n) =
     (if c = 0 then Some ([0], 0)
      else map_option (\<lambda>(ws, k). (c # ws, Suc k)) (cpystrn_loop src n))"
| "cpystrn_loop [] (Suc n) = None"

definition ngx_cpystrn :: "bytes \<Rightarrow> nat \<Rightarrow> (bytes \<times> nat) option" where
  "ngx_cpystrn src n = (if n = 0 then Some ([], 0) else cpystrn_loop src (n - 1))"

text \<open>\<^verbatim>\<open>ngx_strlchr\<close> of \<^verbatim>\<open>ngx_string.h\<close>: the first \<open>c\<close> between \<open>p\<close> and \<open>last\<close>.\<close>

fun ngx_strlchr :: "bytes \<Rightarrow> nat \<Rightarrow> u8 \<Rightarrow> nat option option" where
  "ngx_strlchr p 0 c = Some None"
| "ngx_strlchr (x # p) (Suc n) c =
     (if x = c then Some (Some 0) else map_option (map_option Suc) (ngx_strlchr p n c))"
| "ngx_strlchr [] (Suc n) c = None"

section \<open>Comparison\<close>

fun ngx_strcasecmp :: "bytes \<Rightarrow> bytes \<Rightarrow> int option" where
  "ngx_strcasecmp (a # s1) (b # s2) =
     (let c1 = ngx_tolower a; c2 = ngx_tolower b in
      if c1 = c2 then (if c1 \<noteq> 0 then ngx_strcasecmp s1 s2 else Some 0)
      else Some (uint c1 - uint c2))"
| "ngx_strcasecmp _ _ = None"

fun ngx_strncasecmp :: "bytes \<Rightarrow> bytes \<Rightarrow> nat \<Rightarrow> int option" where
  "ngx_strncasecmp _ _ 0 = Some 0"
| "ngx_strncasecmp (a # s1) (b # s2) (Suc n) =
     (let c1 = ngx_tolower a; c2 = ngx_tolower b in
      if c1 = c2 then (if c1 \<noteq> 0 then ngx_strncasecmp s1 s2 n else Some 0)
      else Some (uint c1 - uint c2))"
| "ngx_strncasecmp _ _ (Suc n) = None"

text \<open>The two comparisons that run from index \<open>n - 1\<close> down to 0.\<close>

fun ngx_rstrncmp :: "bytes \<Rightarrow> bytes \<Rightarrow> nat \<Rightarrow> int option" where
  "ngx_rstrncmp s1 s2 0 = Some 0"
| "ngx_rstrncmp s1 s2 (Suc n) = do {
     a \<leftarrow> rd s1 n;
     b \<leftarrow> rd s2 n;
     if a \<noteq> b then Some (uint a - uint b) else ngx_rstrncmp s1 s2 n }"

definition upcase_byte :: "u8 \<Rightarrow> u8" where
  "upcase_byte c = (if 0x61 \<le> c \<and> c \<le> 0x7a then c - (0x61 - 0x41) else c)"

fun ngx_rstrncasecmp :: "bytes \<Rightarrow> bytes \<Rightarrow> nat \<Rightarrow> int option" where
  "ngx_rstrncasecmp s1 s2 0 = Some 0"
| "ngx_rstrncasecmp s1 s2 (Suc n) = do {
     a \<leftarrow> rd s1 n;
     b \<leftarrow> rd s2 n;
     if upcase_byte a \<noteq> upcase_byte b then Some (uint (upcase_byte a) - uint (upcase_byte b))
     else ngx_rstrncasecmp s1 s2 n }"

definition ngx_memn2cmp :: "bytes \<Rightarrow> bytes \<Rightarrow> nat \<Rightarrow> nat \<Rightarrow> int option" where
  "ngx_memn2cmp s1 s2 n1 n2 =
     (let (n, z) = (if n1 \<le> n2 then (n1, -1) else (n2, 1)) in do {
        m \<leftarrow> c_memcmp s1 s2 n;
        if m \<noteq> 0 \<or> n1 = n2 then Some m else Some z })"

text \<open>In ASCII a dot is above a hyphen, but the DNS order has the dot lowest.\<close>

definition dns_key :: "u8 \<Rightarrow> u8" where
  "dns_key c = (if c = 0x2e then 0x20 else c)"

fun ngx_dns_strcmp :: "bytes \<Rightarrow> bytes \<Rightarrow> int option" where
  "ngx_dns_strcmp (a # s1) (b # s2) =
     (let c1 = ngx_tolower a; c2 = ngx_tolower b in
      if c1 = c2 then (if c1 \<noteq> 0 then ngx_dns_strcmp s1 s2 else Some 0)
      else Some (uint (dns_key c1) - uint (dns_key c2)))"
| "ngx_dns_strcmp _ _ = None"

section \<open>Substring search\<close>

text \<open>
  In the four searches \<open>c2\<close> is the first byte of the pattern, \<open>s2\<close> the rest of it, \<open>n\<close> the
  number of bytes of the rest to compare; \<open>pos\<close> is the offset of \<open>s1\<close> from where the search began.
\<close>

fun strnstr_loop :: "u8 \<Rightarrow> bytes \<Rightarrow> nat \<Rightarrow> nat \<Rightarrow> bytes \<Rightarrow> nat \<Rightarrow> nat option option" where
  "strnstr_loop c2 s2 n pos s1 0 = Some None"
| "strnstr_loop c2 s2 n pos [] (Suc len) = None"
| "strnstr_loop c2 s2 n pos (c1 # s1) (Suc len) =
     (if c1 = 0 then Some None
      else if c1 \<noteq> c2 then strnstr_loop c2 s2 n (Suc pos) s1 len
      else if n > len then Some None
      else do {
        r \<leftarrow> c_strncmp s1 s2 n;
        if r \<noteq> 0 then strnstr_loop c2 s2 n (Suc pos) s1 len else Some (Some pos) })"

definition ngx_strnstr :: "bytes \<Rightarrow> bytes \<Rightarrow> nat \<Rightarrow> nat option option" where
  "ngx_strnstr s1 s2 len = do {
     c2 \<leftarrow> rd s2 0;
     n \<leftarrow> c_strlen (drop 1 s2);
     strnstr_loop c2 (drop 1 s2) n 0 s1 len }"

fun strstrn_loop :: "u8 \<Rightarrow> bytes \<Rightarrow> nat \<Rightarrow> nat \<Rightarrow> bytes \<Rightarrow> nat option option" where
  "strstrn_loop c2 s2 n pos [] = None"
| "strstrn_loop c2 s2 n pos (c1 # s1) =
     (if c1 = 0 then Some None
      else if c1 \<noteq> c2 then strstrn_loop c2 s2 n (Suc pos) s1
      else do {
        r \<leftarrow> c_strncmp s1 s2 n;
        if r \<noteq> 0 then strstrn_loop c2 s2 n (Suc pos) s1 else Some (Some pos) })"

definition ngx_strstrn :: "bytes \<Rightarrow> bytes \<Rightarrow> nat \<Rightarrow> nat option option" where
  "ngx_strstrn s1 s2 n = do {
     c2 \<leftarrow> rd s2 0;
     strstrn_loop c2 (drop 1 s2) n 0 s1 }"

fun strcasestrn_loop :: "u8 \<Rightarrow> bytes \<Rightarrow> nat \<Rightarrow> nat \<Rightarrow> bytes \<Rightarrow> nat option option" where
  "strcasestrn_loop c2 s2 n pos [] = None"
| "strcasestrn_loop c2 s2 n pos (c1 # s1) =
     (if c1 = 0 then Some None
      else if ngx_tolower c1 \<noteq> c2 then strcasestrn_loop c2 s2 n (Suc pos) s1
      else do {
        r \<leftarrow> ngx_strncasecmp s1 s2 n;
        if r \<noteq> 0 then strcasestrn_loop c2 s2 n (Suc pos) s1 else Some (Some pos) })"

definition ngx_strcasestrn :: "bytes \<Rightarrow> bytes \<Rightarrow> nat \<Rightarrow> nat option option" where
  "ngx_strcasestrn s1 s2 n = do {
     c2 \<leftarrow> rd s2 0;
     strcasestrn_loop (ngx_tolower c2) (drop 1 s2) n 0 s1 }"

text \<open>
  \<^verbatim>\<open>ngx_strlcasestrn\<close> searches between \<open>s1\<close> and \<^verbatim>\<open>last\<close>; \<open>m\<close> is the signed distance from \<open>s1\<close> to
  the shortened \<^verbatim>\<open>last - n\<close> of the code, so \<^verbatim>\<open>s1 >= last\<close> is \<open>m \<le> 0\<close>.
\<close>

fun strlcasestrn_loop :: "u8 \<Rightarrow> bytes \<Rightarrow> nat \<Rightarrow> nat \<Rightarrow> bytes \<Rightarrow> int \<Rightarrow> nat option option" where
  "strlcasestrn_loop c2 s2 n pos [] m = (if m \<le> 0 then Some None else None)"
| "strlcasestrn_loop c2 s2 n pos (c1 # s1) m =
     (if m \<le> 0 then Some None
      else if ngx_tolower c1 \<noteq> c2 then strlcasestrn_loop c2 s2 n (Suc pos) s1 (m - 1)
      else do {
        r \<leftarrow> ngx_strncasecmp s1 s2 n;
        if r \<noteq> 0 then strlcasestrn_loop c2 s2 n (Suc pos) s1 (m - 1) else Some (Some pos) })"

definition ngx_strlcasestrn :: "bytes \<Rightarrow> nat \<Rightarrow> bytes \<Rightarrow> nat \<Rightarrow> nat option option" where
  "ngx_strlcasestrn s1 lst s2 n = do {
     c2 \<leftarrow> rd s2 0;
     strlcasestrn_loop (ngx_tolower c2) (drop 1 s2) n 0 s1 (int lst - int n) }"

section \<open>Copying: bounded and always terminated\<close>

lemma ngx_strlow_eq: "n \<le> length src \<Longrightarrow> ngx_strlow src n = Some (map ngx_tolower (take n src))"
  by (induction src n rule: ngx_strlow.induct) auto

lemma cpystrn_loop_eq:
  "0 \<notin> set s \<Longrightarrow> cpystrn_loop (s @ 0 # r) n = Some (take n s @ [0], min n (length s))"
proof (induction s arbitrary: n)
  case Nil
  then show ?case by (cases n) auto
next
  case (Cons c s)
  then show ?case by (cases n) auto
qed

text \<open>\<^verbatim>\<open>ngx_cpystrn\<close> with room for \<open>n > 0\<close> bytes writes the longest prefix of the string that
  leaves room for the zero, then the zero, never more than \<open>n\<close> bytes, returns the address of that
  zero, and reads nothing beyond the terminator of the source.\<close>

theorem ngx_cpystrn_correct:
  assumes "0 < n" and "0 \<notin> set s"
  shows "ngx_cpystrn (s @ 0 # r) n = Some (take (n - 1) s @ [0], min (n - 1) (length s))
       \<and> length (take (n - 1) s @ [0]) \<le> n"
  using assms by (auto simp: ngx_cpystrn_def cpystrn_loop_eq min_def)

theorem ngx_cpystrn_correct_witness:
  "ngx_cpystrn ([0x61, 0x62, 0x63] @ 0 # []) 3 = Some ([0x61, 0x62, 0], 2)"
  using ngx_cpystrn_correct [of 3 "[0x61, 0x62, 0x63]" "[]"] by simp

section \<open>Case-insensitive comparison\<close>

lemma ngx_strncasecmp_Some:
  assumes "n \<le> length s1" "n \<le> length s2" "0 \<notin> set (take n s2)"
  shows "\<exists>r. ngx_strncasecmp s1 s2 n = Some r \<and>
             (r = 0 \<longleftrightarrow> map ngx_tolower (take n s1) = map ngx_tolower (take n s2))"
  using assms
proof (induction s1 s2 n rule: ngx_strncasecmp.induct)
  case (2 a s1 b s2 n)
  then show ?case
  proof (cases "ngx_tolower a = ngx_tolower b")
    case True
    then have "a \<noteq> 0" using "2.prems"(3) ngx_tolower_zero_cong by auto
    then show ?thesis using True "2" by (simp add: Let_def)
  qed (simp add: Let_def)
qed auto

section \<open>Substring search: the first occurrence, and no read past the window\<close>

definition ci_match :: "bytes \<Rightarrow> bytes \<Rightarrow> nat \<Rightarrow> bool" where
  "ci_match pat s i \<longleftrightarrow> map ngx_tolower (take (length pat) (drop i s)) = map ngx_tolower pat"

lemma ci_match_Cons_Suc: "ci_match pat (c # s) (Suc i) = ci_match pat s i"
  by (simp add: ci_match_def)

lemma ci_match_Cons_0:
  "ci_match (b # pat) (a # s) 0 \<longleftrightarrow>
     ngx_tolower a = ngx_tolower b \<and> map ngx_tolower (take (length pat) s) = map ngx_tolower pat"
  by (simp add: ci_match_def)

lemma strlcasestrn_loop_correct:
  assumes "0 \<notin> set pat" and "length pat \<le> length ps" and "take (length pat) ps = pat"
    and "m + int (length pat) \<le> int (length s)"
  shows "\<exists>r. strlcasestrn_loop (ngx_tolower b) ps (length pat) pos s m = Some r \<and>
     (case r of
        Some k \<Rightarrow> pos \<le> k \<and> int (k - pos) < m \<and> ci_match (b # pat) s (k - pos) \<and>
                  (\<forall>j < k - pos. \<not> ci_match (b # pat) s j)
      | None \<Rightarrow> \<forall>j. int j < m \<longrightarrow> \<not> ci_match (b # pat) s j)"
  using assms(4)
proof (induction s arbitrary: pos m)
  case Nil
  then show ?case using assms(1) by auto
next
  case (Cons a s)
  show ?case
  proof (cases "m \<le> 0")
    case True
    then show ?thesis by simp
  next
    case False
    have len: "length pat \<le> length s"
      using Cons.prems False by simp
    obtain r where r: "ngx_strncasecmp s ps (length pat) = Some r"
        "r = 0 \<longleftrightarrow> map ngx_tolower (take (length pat) s) = map ngx_tolower pat"
      using ngx_strncasecmp_Some [of "length pat" s ps] assms len by auto
    have hit: "ci_match (b # pat) (a # s) 0 \<longleftrightarrow> ngx_tolower a = ngx_tolower b \<and> r = 0"
      using r(2) by (simp add: ci_match_Cons_0)
    show ?thesis
    proof (cases "ngx_tolower a = ngx_tolower b \<and> r = 0")
      case True
      then show ?thesis using False r(1) hit by simp
    next
      case miss: False
      have step: "strlcasestrn_loop (ngx_tolower b) ps (length pat) pos (a # s) m =
          strlcasestrn_loop (ngx_tolower b) ps (length pat) (Suc pos) s (m - 1)"
        using False r(1) miss by auto
      have "m - 1 + int (length pat) \<le> int (length s)"
        using Cons.prems by simp
      from Cons.IH [OF this, of "Suc pos"] obtain q where
        q: "strlcasestrn_loop (ngx_tolower b) ps (length pat) (Suc pos) s (m - 1) = Some q"
          "case q of
             Some k \<Rightarrow> Suc pos \<le> k \<and> int (k - Suc pos) < m - 1 \<and> ci_match (b # pat) s (k - Suc pos) \<and>
                  (\<forall>j < k - Suc pos. \<not> ci_match (b # pat) s j)
           | None \<Rightarrow> \<forall>j. int j < m - 1 \<longrightarrow> \<not> ci_match (b # pat) s j"
        by blast
      have no0: "\<not> ci_match (b # pat) (a # s) 0"
        using miss hit by simp
      have shift: "(\<forall>j < Suc x. \<not> ci_match (b # pat) (a # s) j) \<longleftrightarrow> (\<forall>j < x. \<not> ci_match (b # pat) s j)" for x
        using no0 by (auto simp: ci_match_Cons_Suc less_Suc_eq_0_disj)
      show ?thesis
      proof (cases q)
        case None
        then have "\<not> ci_match (b # pat) (a # s) j" if "int j < m" for j
          using that q(2) no0 by (cases j) (auto simp: ci_match_Cons_Suc)
        then show ?thesis using step q(1) None by simp
      next
        case (Some k)
        then have k: "Suc pos \<le> k" "int (k - Suc pos) < m - 1" "ci_match (b # pat) s (k - Suc pos)"
            "\<forall>j < k - Suc pos. \<not> ci_match (b # pat) s j"
          using q(2) by auto
        moreover have "k - pos = Suc (k - Suc pos)"
          using k(1) by simp
        ultimately show ?thesis
          using step q(1) Some shift [of "k - Suc pos"] by (auto simp: ci_match_Cons_Suc)
      qed
    qed
  qed
qed

lemma strlcasestrn_window:
  assumes "0 \<notin> set pat" and "lst \<le> length s"
  shows "\<exists>r. ngx_strlcasestrn s lst (b # pat @ rest) (length pat) = Some r \<and>
     (case r of
        Some k \<Rightarrow> k + length (b # pat) \<le> lst \<and> ci_match (b # pat) s k \<and>
                  (\<forall>j < k. \<not> ci_match (b # pat) s j)
      | None \<Rightarrow> \<forall>j. j + length (b # pat) \<le> lst \<longrightarrow> \<not> ci_match (b # pat) s j)"
proof -
  have "int lst - int (length pat) + int (length pat) \<le> int (length s)"
    using assms(2) by simp
  from strlcasestrn_loop_correct [OF assms(1) _ _ this, of "pat @ rest" b 0]
  show ?thesis
    unfolding ngx_strlcasestrn_def by (fastforce split: option.splits)
qed

text \<open>For a pattern without zero bytes, \<^verbatim>\<open>ngx_strlcasestrn\<close> never reads outside the window
  \<^verbatim>\<open>[s1, last)\<close>; it returns the first case-insensitive occurrence that lies wholly in the window,
  and \<^verbatim>\<open>NULL\<close> exactly when there is none.\<close>

theorem ngx_strlcasestrn_correct:
  assumes "0 \<notin> set pat" and "lst \<le> length s"
  shows "\<exists>r. ngx_strlcasestrn s lst (b # pat @ rest) (length pat) = Some r \<and>
     (case r of
        Some k \<Rightarrow> k + length (b # pat) \<le> lst \<and> ci_match (b # pat) s k \<and>
                  (\<forall>j < k. \<not> ci_match (b # pat) s j)
      | None \<Rightarrow> \<forall>j. j + length (b # pat) \<le> lst \<longrightarrow> \<not> ci_match (b # pat) s j)"
  using assms by (rule strlcasestrn_window)

theorem ngx_strlcasestrn_correct_witness:
  "\<exists>r. ngx_strlcasestrn [0x78, 0x46, 0x4f, 0x3d] 4 (0x66 # [0x6f] @ [0x3d]) (length [0x6f :: u8]) = Some r
     \<and> r \<noteq> None"
proof -
  have "\<exists>r. ngx_strlcasestrn [0x78, 0x46, 0x4f, 0x3d] 4 (0x66 # [0x6f] @ [0x3d]) (length [0x6f :: u8]) = Some r"
    using ngx_strlcasestrn_correct [where pat = "[0x6f]" and lst = 4 and s = "[0x78, 0x46, 0x4f, 0x3d]" and b = "0x66"
        and rest = "[0x3d]"] by auto
  moreover have "ngx_strlcasestrn [0x78, 0x46, 0x4f, 0x3d] 4 (0x66 # [0x6f] @ [0x3d]) (length [0x6f :: u8])
      = Some (Some 1)"
    by (simp add: ngx_strlcasestrn_def ngx_tolower_def)
  ultimately show ?thesis by auto
qed

end
