(* ===== verification/NgxNumber.thy ===== *)
theory NgxNumber
  imports NgxPrelude
begin

text \<open>
  The number parsers of \<^verbatim>\<open>src/core/ngx_string.c\<close> (\<^verbatim>\<open>ngx_atoi\<close> to \<^verbatim>\<open>ngx_hextoi\<close>) and
  \<^verbatim>\<open>src/core/ngx_parse.c\<close> (sizes, offsets and times with units), and the digit printer
  \<^verbatim>\<open>ngx_sprintf_num\<close>.  Values are 64-bit words: the signed \<open>value\<close> of the code wraps around
  in two's complement as compiled code does, and \<open>sint\<close> reads it.  The result is the signed value
  the C function returns (\<open>-1\<close> is \<^verbatim>\<open>NGX_ERROR\<close>), or \<open>None\<close> for a read past the bytes given.
\<close>

section \<open>Decimal and hexadecimal parsers\<close>

definition digit_val :: "u8 \<Rightarrow> u64" where
  "digit_val c = ucast c - 0x30"

text \<open>The loop that \<^verbatim>\<open>ngx_atoi\<close>, \<^verbatim>\<open>ngx_atosz\<close>, \<^verbatim>\<open>ngx_atoof\<close> and \<^verbatim>\<open>ngx_atotm\<close> share.\<close>

fun ato_loop :: "u64 \<Rightarrow> bytes \<Rightarrow> nat \<Rightarrow> int option" where
  "ato_loop value line 0 = (if sint value < 0 then Some (-1) else Some (sint value))"
| "ato_loop value (c # line) (Suc n) =
     (if c < 0x30 \<or> c > 0x39 then Some (-1) else ato_loop (value * 10 + digit_val c) line n)"
| "ato_loop value [] (Suc n) = None"

definition ngx_atoi :: "bytes \<Rightarrow> nat \<Rightarrow> int option" where
  "ngx_atoi line n = (if n = 0 then Some (-1) else ato_loop 0 line n)"

definition ngx_atosz :: "bytes \<Rightarrow> nat \<Rightarrow> int option" where
  "ngx_atosz line n = (if n = 0 then Some (-1) else ato_loop 0 line n)"

definition ngx_atoof :: "bytes \<Rightarrow> nat \<Rightarrow> int option" where
  "ngx_atoof line n = (if n = 0 then Some (-1) else ato_loop 0 line n)"

definition ngx_atotm :: "bytes \<Rightarrow> nat \<Rightarrow> int option" where
  "ngx_atotm line n = (if n = 0 then Some (-1) else ato_loop 0 line n)"

text \<open>
  \<^verbatim>\<open>ngx_atofp\<close> reads a fixed-point number.  \<open>dot\<close> is 0 or 1; \<^verbatim>\<open>point -= dot\<close> counts the digits after
  the dot.
\<close>

fun atofp_loop :: "u64 \<Rightarrow> bool \<Rightarrow> nat \<Rightarrow> bytes \<Rightarrow> nat \<Rightarrow> int option" where
  "atofp_loop value dot point line 0 =
     (let v = value * 10 ^ point in if sint v < 0 then Some (-1) else Some (sint v))"
| "atofp_loop value dot point (c # line) (Suc n) =
     (if point = 0 then Some (-1)
      else if c = 0x2e then (if dot then Some (-1) else atofp_loop value True point line n)
      else if c < 0x30 \<or> c > 0x39 then Some (-1)
      else atofp_loop (value * 10 + digit_val c) dot (if dot then point - 1 else point) line n)"
| "atofp_loop value dot point [] (Suc n) = (if point = 0 then Some (-1) else None)"

definition ngx_atofp :: "bytes \<Rightarrow> nat \<Rightarrow> nat \<Rightarrow> int option" where
  "ngx_atofp line n point = (if n = 0 then Some (-1) else atofp_loop 0 False point line n)"

fun hextoi_loop :: "u64 \<Rightarrow> bytes \<Rightarrow> nat \<Rightarrow> int option" where
  "hextoi_loop value line 0 = (if sint value < 0 then Some (-1) else Some (sint value))"
| "hextoi_loop value (ch # line) (Suc n) =
     (if 0x30 \<le> ch \<and> ch \<le> 0x39 then hextoi_loop (value * 16 + digit_val ch) line n
      else let c = ch OR 0x20 in
        if 0x61 \<le> c \<and> c \<le> 0x66 then hextoi_loop (value * 16 + (ucast c - 0x61 + 10)) line n
        else Some (-1))"
| "hextoi_loop value [] (Suc n) = None"

definition ngx_hextoi :: "bytes \<Rightarrow> nat \<Rightarrow> int option" where
  "ngx_hextoi line n = (if n = 0 then Some (-1) else hextoi_loop 0 line n)"

section \<open>Sizes and offsets with a unit (ngx_parse.c)\<close>

text \<open>
  \<^verbatim>\<open>line->data[len - 1]\<close> with \<^verbatim>\<open>len\<close> 0 reads before the object: \<open>None\<close>.  The product with the
  scale wraps around on 64 bits.
\<close>

definition mul_s64 :: "int \<Rightarrow> int \<Rightarrow> int" where
  "mul_s64 a b = sint (word_of_int (a * b) :: u64)"

definition ngx_parse_size :: "bytes \<Rightarrow> int option" where
  "ngx_parse_size line =
     (let len = length line in
      if len = 0 then None
      else do {
        unit \<leftarrow> rd line (len - 1);
        let (len, scale) =
          (if unit = 0x4b \<or> unit = 0x6b then (len - 1, 1024)
           else if unit = 0x4d \<or> unit = 0x6d then (len - 1, 1024 * 1024)
           else (len, 1));
        size \<leftarrow> ngx_atosz line len;
        if size = -1 then Some (-1) else Some (mul_s64 size scale) })"

definition ngx_parse_offset :: "bytes \<Rightarrow> int option" where
  "ngx_parse_offset line =
     (let len = length line in
      if len = 0 then None
      else do {
        unit \<leftarrow> rd line (len - 1);
        let (len, scale) =
          (if unit = 0x4b \<or> unit = 0x6b then (len - 1, 1024)
           else if unit = 0x4d \<or> unit = 0x6d then (len - 1, 1024 * 1024)
           else if unit = 0x47 \<or> unit = 0x67 then (len - 1, 1024 * 1024 * 1024)
           else (len, 1));
        off \<leftarrow> ngx_atoof line len;
        if off = -1 then Some (-1) else Some (mul_s64 off scale) })"

section \<open>Times (ngx_parse.c)\<close>

text \<open>The steps of \<^verbatim>\<open>ngx_parse_time\<close> are numbered as in the code: from \<^verbatim>\<open>st_start\<close>, 0, over years, months, weeks,
  days, hours, minutes and seconds to \<^verbatim>\<open>st_msec\<close>, 8, and \<^verbatim>\<open>st_last\<close>, 9.\<close>

abbreviation st_msec :: nat where "st_msec \<equiv> 8"

definition NGX_MAX_INT32_VALUE :: u64 where
  "NGX_MAX_INT32_VALUE = 0x7fffffff"

text \<open>The unit \<open>c\<close>, with \<open>p\<close> behind it: the position, the step, the largest value and the scale, or the inner
  \<open>None\<close> for an error.  Behind an \<open>m\<close> the next byte is read even at the end of the text.\<close>

definition time_unit :: "bool \<Rightarrow> bytes \<Rightarrow> nat \<Rightarrow> u8 \<Rightarrow> nat \<Rightarrow> (nat \<times> nat \<times> u64 \<times> u64) option option" where
  "time_unit is_sec m p c step =
     (if c = 0x79 then Some (if step > 0 then None
        else Some (p, 1, NGX_MAX_INT32_VALUE div (60 * 60 * 24 * 365), 60 * 60 * 24 * 365))
      else if c = 0x4d then Some (if step \<ge> 2 then None
        else Some (p, 2, NGX_MAX_INT32_VALUE div (60 * 60 * 24 * 30), 60 * 60 * 24 * 30))
      else if c = 0x77 then Some (if step \<ge> 3 then None
        else Some (p, 3, NGX_MAX_INT32_VALUE div (60 * 60 * 24 * 7), 60 * 60 * 24 * 7))
      else if c = 0x64 then Some (if step \<ge> 4 then None
        else Some (p, 4, NGX_MAX_INT32_VALUE div (60 * 60 * 24), 60 * 60 * 24))
      else if c = 0x68 then Some (if step \<ge> 5 then None
        else Some (p, 5, NGX_MAX_INT32_VALUE div (60 * 60), 60 * 60))
      else if c = 0x6d then do {
        b \<leftarrow> rd m p;
        if b = 0x73 then Some (if is_sec \<or> step \<ge> st_msec then None else Some (p + 1, st_msec, NGX_MAX_INT32_VALUE, 1))
        else Some (if step \<ge> 6 then None else Some (p, 6, NGX_MAX_INT32_VALUE div 60, 60)) }
      else if c = 0x73 then Some (if step \<ge> 7 then None else Some (p, 7, NGX_MAX_INT32_VALUE, 1))
      else if c = 0x20 then Some (if step \<ge> 7 then None else Some (p, 9, NGX_MAX_INT32_VALUE, 1))
      else Some None)"

fun time_spaces :: "bytes \<Rightarrow> nat \<Rightarrow> nat \<Rightarrow> nat option" where
  "time_spaces m p 0 = Some p"
| "time_spaces m p (Suc n) = do { b \<leftarrow> rd m p; if b = 0x20 then time_spaces m (Suc p) n else Some p }"

text \<open>The value times its scale is added to the total, unless one of them is too large.\<close>

definition time_add :: "bool \<Rightarrow> u64 \<Rightarrow> u64 \<Rightarrow> nat \<Rightarrow> u64 \<Rightarrow> u64 \<Rightarrow> u64 option" where
  "time_add is_sec value acc step mx scale =
     (let thousand = (if step \<noteq> st_msec \<and> \<not> is_sec then 1000 else 1) in
      if value > mx div thousand then None
      else let t = acc + value * (scale * thousand) in
        if t > NGX_MAX_INT32_VALUE then None else Some t)"

lemma time_spaces_ge: "time_spaces m p n = Some q \<Longrightarrow> p \<le> q"
  by (induction m p n rule: time_spaces.induct) (auto simp: bind_eq_Some_conv split: if_splits)

lemma time_unit_ge: "time_unit is_sec m p c step = Some (Some (q, x)) \<Longrightarrow> p \<le> q"
  by (auto simp: time_unit_def bind_eq_Some_conv split: if_splits)

text \<open>The loop; the scale at its head is always that of a value without a unit.\<close>

function time_loop :: "bool \<Rightarrow> bytes \<Rightarrow> nat \<Rightarrow> nat \<Rightarrow> u64 \<Rightarrow> u64 \<Rightarrow> nat \<Rightarrow> bool \<Rightarrow> int option" where
  "time_loop is_sec m lst p value acc step valid =
     (if p < lst then
        (case rd m p of
           None \<Rightarrow> None
         | Some c \<Rightarrow>
             if 0x30 \<le> c \<and> c \<le> 0x39 then time_loop is_sec m lst (p + 1) (value * 10 + digit_val c) acc step True
             else
               (case time_unit is_sec m (p + 1) c step of
                  None \<Rightarrow> None
                | Some None \<Rightarrow> Some (-1)
                | Some (Some (q, step', mx, scale)) \<Rightarrow>
                    (case time_add is_sec value acc step' mx scale of
                       None \<Rightarrow> Some (-1)
                     | Some acc' \<Rightarrow>
                         (case time_spaces m q (lst - q) of
                            None \<Rightarrow> None
                          | Some q' \<Rightarrow> time_loop is_sec m lst q' 0 acc' step' valid))))
      else Some (if valid then sint (acc + value * (if is_sec then 1 else 1000)) else -1))"
  by pat_completeness auto

termination
  by (relation "measure (\<lambda>(is_sec, m, lst, p, _). lst - p)") (auto dest!: time_spaces_ge time_unit_ge)

declare time_loop.simps [simp del]

definition ngx_parse_time :: "bytes \<Rightarrow> nat \<Rightarrow> bool \<Rightarrow> int option" where
  "ngx_parse_time m len is_sec = time_loop is_sec m len 0 0 0 (if is_sec then 0 else 2) False"

text \<open>One byte behind the text is all that is ever read past it.\<close>

lemma time_spaces_reads: "p + n \<le> length m \<Longrightarrow> \<exists>q. time_spaces m p n = Some q \<and> q \<le> p + n"
  by (induction m p n rule: time_spaces.induct) auto

lemma time_loop_reads: "lst < length m \<Longrightarrow> time_loop is_sec m lst p v acc step valid \<noteq> None"
proof (induction is_sec m lst p v acc step valid rule: time_loop.induct)
  case (1 is_sec m lst p v acc step valid)
  show ?case
  proof (cases "p < lst")
    case True
    then obtain c where c: "rd m p = Some c" using 1(3) by (cases "rd m p") auto
    have "rd m (p + 1) \<noteq> None" using True 1(3) by simp
    then have u: "time_unit is_sec m (p + 1) c step \<noteq> None" by (auto simp: time_unit_def)
    have "\<exists>q'. time_spaces m q (lst - q) = Some q'" for q
      using time_spaces_reads [of q "lst - q" m] 1(3) by (cases "q \<le> lst") auto
    then obtain g where "\<And>q. time_spaces m q (lst - q) = Some (g q)" by metis
    then show ?thesis
      using 1 True c u by (subst time_loop.simps) (auto split: option.splits)
  qed (simp add: time_loop.simps)
qed

lemma ngx_parse_time_reads: "n < length m \<Longrightarrow> ngx_parse_time m n is_sec \<noteq> None"
  unfolding ngx_parse_time_def by (rule time_loop_reads)

text \<open>Times in one unit after another; and a value without a unit, which is not compared with anything: it is
  returned however large it is, and wraps around.\<close>

lemma parse_time_units:
  "ngx_parse_time (str ''1h 30m'' @ [0]) 6 True = Some 5400"
  "ngx_parse_time (str ''1h30m15s20ms'' @ [0]) 12 False = Some 5415020"
  "ngx_parse_time (str ''30m 1h'' @ [0]) 6 True = Some (-1)"
  "ngx_parse_time (str ''69y'' @ [0]) 3 True = Some (-1)"
  by code_simp+

lemma parse_time_unchecked:
  "ngx_parse_time (str ''2147483648s'' @ [0]) 11 True = Some (-1)"
  "ngx_parse_time (str ''2147483648'' @ [0]) 10 True = Some 2147483648"
  "ngx_parse_time (str ''18446744073709551617'' @ [0]) 20 True = Some 1"
  by code_simp+

section \<open>Printing digits: ngx_sprintf_num\<close>

text \<open>
  The digits are produced right to left into \<^verbatim>\<open>temp\<close>; here the list that grows at its head.
  The 32-bit branch of the code computes the same digits on a narrower word.
\<close>

lemma unat_div10_lt32: "(x :: u32) div 10 \<noteq> 0 \<Longrightarrow> unat (x div 10) < unat x"
proof -
  assume "x div 10 \<noteq> 0"
  then have "x \<noteq> 0" by auto
  then have "0 < unat x" by (simp add: unat_gt_0)
  then show ?thesis by (simp add: unat_div)
qed

lemma unat_div10_lt64: "(x :: u64) div 10 \<noteq> 0 \<Longrightarrow> unat (x div 10) < unat x"
proof -
  assume "x div 10 \<noteq> 0"
  then have "x \<noteq> 0" by auto
  then have "0 < unat x" by (simp add: unat_gt_0)
  then show ?thesis by (simp add: unat_div)
qed

lemma unat_drop_bit4: "unat (drop_bit 4 (x :: u64)) = unat x div 16"
  unfolding unat_drop_bit_eq by (simp add: drop_bit_eq_div)

lemma unat_drop_bit4_lt: "drop_bit 4 (x :: u64) \<noteq> 0 \<Longrightarrow> unat (drop_bit 4 x) < unat x"
proof -
  assume "drop_bit 4 x \<noteq> 0"
  then have "x \<noteq> 0" by auto
  then have "0 < unat x" by (simp add: unat_gt_0)
  then show ?thesis by (simp add: unat_drop_bit4)
qed

function dec_digits32 :: "u32 \<Rightarrow> bytes \<Rightarrow> bytes" where
  "dec_digits32 ui32 p =
     (let p' = ucast (ui32 mod 10 + 0x30) # p; q = ui32 div 10 in
      if q \<noteq> 0 then dec_digits32 q p' else p')"
  by pat_completeness auto
termination
  by (relation "measure (\<lambda>(x, p). unat x)") (simp_all add: unat_div10_lt32)

function dec_digits64 :: "u64 \<Rightarrow> bytes \<Rightarrow> bytes" where
  "dec_digits64 ui64 p =
     (let p' = ucast (ui64 mod 10 + 0x30) # p; q = ui64 div 10 in
      if q \<noteq> 0 then dec_digits64 q p' else p')"
  by pat_completeness auto
termination
  by (relation "measure (\<lambda>(x, p). unat x)") (simp_all add: unat_div10_lt64)

function hex_digits :: "bytes \<Rightarrow> u64 \<Rightarrow> bytes \<Rightarrow> bytes" where
  "hex_digits hex ui64 p =
     (let p' = hex ! unat (ui64 AND 0xf) # p; q = drop_bit 4 ui64 in
      if q \<noteq> 0 then hex_digits hex q p' else p')"
  by pat_completeness auto
termination
  by (relation "measure (\<lambda>(h, x, p). unat x)") (simp_all add: unat_drop_bit4_lt)

declare dec_digits32.simps [simp del] dec_digits64.simps [simp del] hex_digits.simps [simp del]

text \<open>\<^verbatim>\<open>while (len++ < width && buf < last) *buf++ = zero\<close>; \<open>room\<close> is \<^verbatim>\<open>last - buf\<close>.\<close>

fun spf_pad :: "nat \<Rightarrow> nat \<Rightarrow> nat \<Rightarrow> u8 \<Rightarrow> bytes" where
  "spf_pad len width 0 zero = []"
| "spf_pad len width (Suc room) zero =
     (if len < width then zero # spf_pad (Suc len) width room zero else [])"

definition hex_lower :: bytes where
  "hex_lower = str ''0123456789abcdef''"

definition hex_upper :: bytes where
  "hex_upper = str ''0123456789ABCDEF''"

text \<open>The bytes \<^verbatim>\<open>ngx_sprintf_num\<close> writes when \<open>room\<close> bytes are left before \<^verbatim>\<open>last\<close>.\<close>

definition ngx_sprintf_num :: "nat \<Rightarrow> u64 \<Rightarrow> u8 \<Rightarrow> nat \<Rightarrow> nat \<Rightarrow> bytes" where
  "ngx_sprintf_num room ui64 zero hexadecimal width =
     (let p = (if hexadecimal = 0 then
                 (if ui64 \<le> 0xffffffff then dec_digits32 (ucast ui64) [] else dec_digits64 ui64 [])
               else if hexadecimal = 1 then hex_digits hex_lower ui64 []
               else hex_digits hex_upper ui64 []);
          pad = spf_pad (length p) width room zero;
          left = room - length pad;
          len = (if length p > left then left else length p)
      in pad @ take len p)"

section \<open>The value of a digit string\<close>

definition all_digits :: "bytes \<Rightarrow> bool" where
  "all_digits ds \<longleftrightarrow> (\<forall>c \<in> set ds. is_digit c)"

definition dec_val :: "nat \<Rightarrow> bytes \<Rightarrow> nat" where
  "dec_val v ds = foldl (\<lambda>v c. v * 10 + (unat c - 48)) v ds"

lemma dec_val_Nil [simp]: "dec_val v [] = v"
  and dec_val_Cons [simp]: "dec_val v (c # ds) = dec_val (v * 10 + (unat c - 48)) ds"
  and dec_val_append: "dec_val v (xs @ ys) = dec_val (dec_val v xs) ys"
  by (simp_all add: dec_val_def)

lemma all_digits_simps [simp]:
  "all_digits []"
  "all_digits (c # ds) \<longleftrightarrow> is_digit c \<and> all_digits ds"
  "all_digits (xs @ ys) \<longleftrightarrow> all_digits xs \<and> all_digits ys"
  by (auto simp: all_digits_def)

lemma digit_val_of_nat: "is_digit c \<Longrightarrow> digit_val c = word_of_nat (unat c - 48)"
proof -
  assume "is_digit c"
  then have "48 \<le> unat c"
    by (simp add: is_digit_unat)
  moreover have "ucast c = (word_of_nat (unat c) :: u64)"
    by (simp add: unsigned_ucast_eq)
  ultimately show ?thesis
    by (simp add: digit_val_def of_nat_diff)
qed

text \<open>What the code makes of a value: it is kept modulo \<open>2 ^ 64\<close> and refused when its sign bit is set.\<close>

definition ato_result :: "nat \<Rightarrow> int" where
  "ato_result v = (let w = v mod 2 ^ 64 in if w < 2 ^ 63 then int w else -1)"

lemma sint_of_nat64: "sint (word_of_nat v :: u64) =
    (if v mod 2 ^ 64 < 2 ^ 63 then int (v mod 2 ^ 64) else int (v mod 2 ^ 64) - 2 ^ 64)"
proof -
  have "sint (word_of_nat v :: u64) = signed_take_bit 63 (int v)"
    by (simp add: signed_of_nat)
  also have "\<dots> = signed_take_bit 63 (int (v mod 2 ^ 64))"
    by (simp add: zmod_int signed_take_bit_eq_iff_take_bit_eq take_bit_eq_mod)
  also have "\<dots> = (int (v mod 2 ^ 64) + 2 ^ 63) mod 2 ^ 64 - 2 ^ 63"
    by (simp add: signed_take_bit_eq_take_bit_shift take_bit_eq_mod)
  finally have *: "sint (word_of_nat v :: u64) = (int (v mod 2 ^ 64) + 2 ^ 63) mod 2 ^ 64 - 2 ^ 63" .
  show ?thesis
  proof (cases "v mod 2 ^ 64 < 2 ^ 63")
    case True
    then have "(int (v mod 2 ^ 64) + 2 ^ 63) mod 2 ^ 64 = int (v mod 2 ^ 64) + 2 ^ 63"
      by (intro mod_pos_pos_trivial) auto
    then show ?thesis using * True by simp
  next
    case False
    have "(int (v mod 2 ^ 64) + 2 ^ 63) mod 2 ^ 64 = (int (v mod 2 ^ 64) - 2 ^ 63) mod 2 ^ 64"
      by (simp add: mod_eq_dvd_iff)
    also have "\<dots> = int (v mod 2 ^ 64) - 2 ^ 63"
    proof (rule mod_pos_pos_trivial)
      show "0 \<le> int (v mod 2 ^ 64) - 2 ^ 63" using False of_nat_mono [of "2 ^ 63" "v mod 2 ^ 64", where 'a = int] by simp
      have "int (v mod 2 ^ 64) < 2 ^ 64" by (simp add: zmod_int)
      then show "int (v mod 2 ^ 64) - 2 ^ 63 < 2 ^ 64" by simp
    qed
    finally show ?thesis using * False by simp
  qed
qed

lemma ato_loop_eq:
  "n \<le> length line \<Longrightarrow>
   ato_loop (word_of_nat v) line n =
     Some (if all_digits (take n line) then ato_result (dec_val v (take n line)) else -1)"
proof (induction n arbitrary: v line)
  case 0
  then show ?case
    by (auto simp: sint_of_nat64 ato_result_def Let_def)
next
  case (Suc n)
  then obtain c l where l: "line = c # l" "n \<le> length l"
    by (cases line) auto
  show ?case
  proof (cases "is_digit c")
    case True
    have "ato_loop (word_of_nat v) line (Suc n) = ato_loop (word_of_nat (v * 10 + (unat c - 48))) l n"
      using True by (auto simp: l digit_val_of_nat is_digit_def not_less)
    then show ?thesis
      using Suc.IH [OF l(2), of "v * 10 + (unat c - 48)"] True by (simp add: l del: ato_loop.simps)
  next
    case False
    then show ?thesis
      by (auto simp: l is_digit_def)
  qed
qed

text \<open>\<^verbatim>\<open>ngx_atoi\<close> reads exactly the \<open>n\<close> bytes it is given.  On a string of digits it returns the
  decimal value when that is below \<open>2 ^ 63\<close>; a longer number is not always refused, since the only
  overflow check is the sign of the wrapped result; anything but digits, or an empty string, is
  \<^verbatim>\<open>NGX_ERROR\<close>.\<close>

theorem ngx_atoi_correct:
  assumes "n \<le> length line"
  shows "ngx_atoi line n =
     Some (if n \<noteq> 0 \<and> all_digits (take n line) then
             (if dec_val 0 (take n line) < 2 ^ 63 then int (dec_val 0 (take n line))
              else ato_result (dec_val 0 (take n line)))
           else -1)"
  using ato_loop_eq [OF assms, of 0] by (auto simp: ngx_atoi_def ato_result_def Let_def)

theorem ngx_atoi_correct_witness:
  "ngx_atoi (str ''18446744073709551626'') 20 = Some 10"
  using ngx_atoi_correct [of 20 "str ''18446744073709551626''"]
  by (simp add: str_def ato_result_def is_digit_def)

section \<open>What the digit printer prints\<close>

text \<open>The digits of a number, on \<open>nat\<close>: what both decimal branches compute.\<close>

definition dec_byte :: "nat \<Rightarrow> u8" where
  "dec_byte n = word_of_nat (n mod 10 + 48)"

lemma unat_dec_byte [simp]: "unat (dec_byte n) = n mod 10 + 48"
proof -
  have "n mod 10 + 48 < 256" using mod_less_divisor [of 10 n] by simp
  then show ?thesis
    using unat_of_nat [of "n mod 10 + 48", where 'a = 8] by (simp add: dec_byte_def)
qed

fun nat_dec :: "nat \<Rightarrow> bytes \<Rightarrow> bytes" where
  "nat_dec n p =
     (let p' = dec_byte n # p in if n div 10 \<noteq> 0 then nat_dec (n div 10) p' else p')"

declare nat_dec.simps [simp del]

lemma digit_byte32: "ucast ((x :: u32) mod 10 + 0x30) = dec_byte (unat x)"
proof -
  have "unat (x mod 10 + 0x30) = unat x mod 10 + 48"
    by (simp add: unat_word_ariths unat_mod)
  then show ?thesis
    unfolding dec_byte_def by (metis of_nat_unat)
qed

lemma digit_byte64: "ucast ((x :: u64) mod 10 + 0x30) = dec_byte (unat x)"
proof -
  have "unat (x mod 10 + 0x30) = unat x mod 10 + 48"
    by (simp add: unat_word_ariths unat_mod)
  then show ?thesis
    unfolding dec_byte_def by (metis of_nat_unat)
qed

lemma dec_digits32_eq: "dec_digits32 x p = nat_dec (unat x) p"
proof (induction x p rule: dec_digits32.induct)
  case (1 x p)
  have "x div 10 = 0 \<longleftrightarrow> unat x div 10 = 0"
    by (simp add: word_eq_iff_unsigned [where 'a = nat] unat_div flip: unat_eq_0)
  then show ?case
    using 1 by (subst dec_digits32.simps, subst nat_dec.simps) (simp add: Let_def digit_byte32 unat_div)
qed

lemma dec_digits64_eq: "dec_digits64 x p = nat_dec (unat x) p"
proof (induction x p rule: dec_digits64.induct)
  case (1 x p)
  have "x div 10 = 0 \<longleftrightarrow> unat x div 10 = 0"
    by (simp add: word_eq_iff_unsigned [where 'a = nat] unat_div flip: unat_eq_0)
  then show ?case
    using 1 by (subst dec_digits64.simps, subst nat_dec.simps) (simp add: Let_def digit_byte64 unat_div)
qed

lemma nat_dec_append: "nat_dec n p = nat_dec n [] @ p"
proof (induction n arbitrary: p rule: less_induct)
  case (less n)
  show ?case
  proof (cases "n div 10 = 0")
    case True
    then show ?thesis by (simp add: nat_dec.simps [of n])
  next
    case False
    then have lt: "n div 10 < n" by simp
    have "nat_dec (n div 10) (d # p) = nat_dec (n div 10) [d] @ p" for d
      using less.IH [OF lt, of "d # p"] less.IH [OF lt, of "[d]"] by simp
    then show ?thesis
      using False by (simp add: nat_dec.simps [of n] Let_def)
  qed
qed

lemma nat_dec_rec:
  "nat_dec n [] = (if n div 10 = 0 then [] else nat_dec (n div 10) []) @ [dec_byte n]"
  using nat_dec_append [of "n div 10" "[dec_byte n]"]
  by (simp add: nat_dec.simps [of n] Let_def)

lemma nat_dec_digits: "all_digits (nat_dec n []) \<and> dec_val 0 (nat_dec n []) = n"
proof (induction n rule: less_induct)
  case (less n)
  show ?case
  proof (cases "n div 10 = 0")
    case True
    then show ?thesis
      by (subst (1 2) nat_dec_rec) (simp add: is_digit_unat)
  next
    case False
    then have "n div 10 < n" by simp
    from less.IH [OF this] False show ?thesis
      by (subst (1 2) nat_dec_rec) (simp add: is_digit_unat dec_val_append)
  qed
qed

lemma nat_dec_length: "n < 10 ^ Suc k \<Longrightarrow> length (nat_dec n []) \<le> Suc k"
proof (induction k arbitrary: n)
  case 0
  then show ?case by (subst nat_dec_rec) simp
next
  case (Suc k)
  then have "n div 10 < 10 ^ Suc k" by simp
  from Suc.IH [OF this] show ?case by (subst nat_dec_rec) simp
qed

lemma dec_digits_branches:
  "(if x \<le> 0xffffffff then dec_digits32 (ucast x) [] else dec_digits64 x []) = nat_dec (unat x) []"
proof -
  have "unat (ucast x :: u32) = unat x" if "x \<le> 0xffffffff"
    using that by (simp add: unsigned_ucast_eq word_le_nat_alt take_bit_nat_eq_self)
  then show ?thesis
    by (simp add: dec_digits32_eq dec_digits64_eq)
qed

text \<open>\<^verbatim>\<open>temp\<close> has room for \<^verbatim>\<open>NGX_INT64_LEN\<close> bytes; no 64-bit value has more digits.\<close>

lemma nat_dec_length_u64: "length (nat_dec (unat (x :: u64)) []) \<le> 20"
proof -
  have "unat x < 2 ^ 64" using unsigned_less [of x] by simp
  then have "unat x < 10 ^ Suc 19" by simp
  then show ?thesis using nat_dec_length by fastforce
qed

lemma hex_digits_length: "unat x < 16 ^ Suc k \<Longrightarrow> length (hex_digits h x p) \<le> Suc k + length p"
proof (induction k arbitrary: x p)
  case 0
  then have "drop_bit 4 x = 0"
    by (simp add: unat_eq_0 [symmetric] unat_drop_bit4 del: unat_eq_0)
  then show ?case by (subst hex_digits.simps) (simp add: Let_def)
next
  case (Suc k)
  then have "unat (drop_bit 4 x) < 16 ^ Suc k" by (simp add: unat_drop_bit4)
  have "length (hex_digits h (drop_bit 4 x) (d # p)) \<le> Suc k + Suc (length p)" for d
    using Suc.IH [OF \<open>unat (drop_bit 4 x) < 16 ^ Suc k\<close>, of "d # p"] by simp
  then show ?case by (subst hex_digits.simps) (simp add: Let_def)
qed

lemma spf_pad_eq: "spf_pad len width room zero = replicate (min (width - len) room) zero"
  by (induction len width room zero rule: spf_pad.induct) (auto simp: min_def Suc_diff_Suc simp flip: replicate_Suc)

lemma dec_val_zeros: "dec_val 0 (replicate k 0x30 @ ds) = dec_val 0 ds"
  by (induction k) auto

lemma all_digits_zeros: "all_digits (replicate k 0x30)"
  by (auto simp: all_digits_def is_digit_def)

lemma ngx_sprintf_num_bounds:
  "length (ngx_sprintf_num room x zero hex width) \<le> room \<and>
   length (ngx_sprintf_num room x zero hex width) \<le> max width 20"
proof -
  have "unat x < 16 ^ Suc 15" using unsigned_less [of x] by simp
  then have hx: "length (hex_digits h x []) \<le> 16" for h
    using hex_digits_length [of x 15 h "[]"] by simp
  define p where "p = (if hex = 0 then nat_dec (unat x) []
      else if hex = 1 then hex_digits hex_lower x [] else hex_digits hex_upper x [])"
  have "length p \<le> 20"
    using hx [of hex_lower] hx [of hex_upper] nat_dec_length_u64 [of x] by (simp add: p_def)
  moreover have "length (ngx_sprintf_num room x zero hex width) =
      min (width - length p) room + min (length p) (room - min (width - length p) room)"
    unfolding ngx_sprintf_num_def Let_def dec_digits_branches spf_pad_eq p_def [symmetric]
    by (simp add: min_def)
  ultimately show ?thesis by linarith
qed

lemma ngx_sprintf_num_bounds_room: "length (ngx_sprintf_num room x zero hex width) \<le> room"
  using ngx_sprintf_num_bounds by blast

text \<open>\<^verbatim>\<open>ngx_sprintf_num\<close> never writes more than the room it is given, whatever the number, the base and
  the width, and never more than the larger of the width and the 20 bytes of its local buffer.\<close>

lemma ngx_sprintf_num_bounded:
  "length (ngx_sprintf_num room x zero hex width) \<le> room \<and>
   length (ngx_sprintf_num room x zero hex width) \<le> max width 20"
  by (rule ngx_sprintf_num_bounds)

text \<open>Printed in decimal with \<open>'0'\<close> padding and enough room, a number below \<open>2 ^ 63\<close> is read back by
  \<^verbatim>\<open>ngx_atoi\<close>; the digits of the 32-bit and of the 64-bit branch agree with the value.\<close>

theorem ngx_sprintf_num_atoi:
  assumes "max width 20 \<le> room" and "unat x < 2 ^ 63"
  shows "let out = ngx_sprintf_num room x 0x30 0 width
         in ngx_atoi out (length out) = Some (int (unat x))"
proof -
  let ?ds = "nat_dec (unat x) []"
  have out: "ngx_sprintf_num room x 0x30 0 width = replicate (width - length ?ds) 0x30 @ ?ds"
    using assms(1) nat_dec_length_u64 [of x]
    by (auto simp: ngx_sprintf_num_def Let_def dec_digits_branches spf_pad_eq min_def)
  have "?ds \<noteq> []" by (subst nat_dec_rec) simp
  then show ?thesis
    using assms(2) nat_dec_digits [of "unat x"]
    by (simp add: ngx_atoi_correct out Let_def dec_val_zeros all_digits_zeros)
qed

theorem ngx_sprintf_num_atoi_witness:
  "ngx_atoi (ngx_sprintf_num 30 42 0x30 0 4) (length (ngx_sprintf_num 30 42 0x30 0 4)) = Some 42"
  using ngx_sprintf_num_atoi [of 4 30 42] by (simp add: Let_def)

end
