(* ===== verification/NgxSprintf.thy ===== *)
theory NgxSprintf
  imports NgxNumber
begin

text \<open>
  The formatted printer of \<^verbatim>\<open>src/core/ngx_string.c\<close>: \<^verbatim>\<open>ngx_vslprintf\<close> and its three callers.
  The format is the list of its bytes, the terminating zero included.  The variable arguments are a
  list of tagged values: on amd64 the integer types of the conversions are 64 or 32 bits wide, and
  an argument of the wrong kind is undefined behaviour (\<open>None\<close>), as is running past the format's
  terminator or past the end of a printed string.  The arithmetic on \<^verbatim>\<open>double\<close> that
  \<^verbatim>\<open>%f\<close> needs is the processor's; it is a parameter, the record \<open>fp_ops\<close>.
\<close>

datatype 'd va_arg =
    Va64 u64
  | Va32 u32
  | VaStr bytes      \<comment> \<open>\<^verbatim>\<open>ngx_str_t *\<close>\<close>
  | VaVar bytes      \<comment> \<open>\<^verbatim>\<open>ngx_variable_value_t *\<close>\<close>
  | VaCStr bytes     \<comment> \<open>\<^verbatim>\<open>u_char *\<close>\<close>
  | VaDbl 'd

record 'd fp_ops =
  fp_negative :: "'d \<Rightarrow> bool"                    \<comment> \<open>\<^verbatim>\<open>f < 0\<close>\<close>
  fp_minus :: "'d \<Rightarrow> 'd"                         \<comment> \<open>\<^verbatim>\<open>-f\<close>\<close>
  fp_trunc :: "'d \<Rightarrow> u64"                        \<comment> \<open>\<^verbatim>\<open>(int64_t) f\<close>\<close>
  fp_scaled :: "'d \<Rightarrow> u64 \<Rightarrow> nat \<Rightarrow> u64"         \<comment> \<open>\<^verbatim>\<open>(uint64_t) ((f - (int64_t) ui64) * 10^n + 0.5)\<close>\<close>

text \<open>The variables that one directive sets before its conversion character.\<close>

record spf =
  zero :: u8
  width :: nat
  sign :: bool
  hex :: nat
  max_width :: bool
  frac_width :: nat
  slen :: u64

section \<open>Width, flags, conversion\<close>

fun spf_num :: "nat \<Rightarrow> bytes \<Rightarrow> nat \<times> bytes" where
  "spf_num acc [] = (acc, [])"
| "spf_num acc (c # fmt) =
     (if 0x30 \<le> c \<and> c \<le> 0x39 then spf_num ((acc * 10 + (unat c - 0x30)) mod 2 ^ 64) fmt
      else (acc, c # fmt))"

fun spf_flags :: "spf \<Rightarrow> 'd va_arg list \<Rightarrow> bytes \<Rightarrow> (spf \<times> 'd va_arg list \<times> bytes) option" where
  "spf_flags sp args [] = None"
| "spf_flags sp args (c # fmt) =
     (if c = 0x75 then spf_flags (sp\<lparr>sign := False\<rparr>) args fmt
      else if c = 0x6d then spf_flags (sp\<lparr>max_width := True\<rparr>) args fmt
      else if c = 0x58 then spf_flags (sp\<lparr>hex := 2, sign := False\<rparr>) args fmt
      else if c = 0x78 then spf_flags (sp\<lparr>hex := 1, sign := False\<rparr>) args fmt
      else if c = 0x2e then
        (let (fw, fmt') = spf_num (frac_width sp) fmt in Some (sp\<lparr>frac_width := fw\<rparr>, args, fmt'))
      else if c = 0x2a then
        (case args of Va64 n # args' \<Rightarrow> spf_flags (sp\<lparr>slen := n\<rparr>) args' fmt | _ \<Rightarrow> None)
      else Some (sp, args, c # fmt))"

text \<open>The \<^verbatim>\<open>%s\<close> loop: the byte is read before the room is checked.\<close>

fun spf_cstr :: "bytes \<Rightarrow> nat \<Rightarrow> bytes option" where
  "spf_cstr [] room = None"
| "spf_cstr (c # p) room =
     (if c = 0 then Some []
      else case room of 0 \<Rightarrow> Some [] | Suc r \<Rightarrow> map_option ((#) c) (spf_cstr p r))"

text \<open>The end of a numeric directive: the sign, then the digits.\<close>

definition spf_number :: "nat \<Rightarrow> spf \<Rightarrow> u64 \<Rightarrow> u64 \<Rightarrow> bytes" where
  "spf_number room sp i64 ui64 =
     (if sign sp then
        (if sint i64 < 0
         then 0x2d # ngx_sprintf_num (room - 1) (- i64) (zero sp) (hex sp) (width sp)
         else ngx_sprintf_num room i64 (zero sp) (hex sp) (width sp))
      else ngx_sprintf_num room ui64 (zero sp) (hex sp) (width sp))"

definition spf_double :: "'d fp_ops \<Rightarrow> nat \<Rightarrow> spf \<Rightarrow> 'd \<Rightarrow> bytes" where
  "spf_double fp room sp f =
     (let (minus, f) = (if fp_negative fp f then ([0x2d], fp_minus fp f) else ([], f));
          ui64 = fp_trunc fp f;
          b1 = minus @ ngx_sprintf_num (room - length minus) ui64 (zero sp) 0 (width sp)
      in if frac_width sp = 0 then b1
         else let b2 = (if length b1 < room then b1 @ [0x2e] else b1)
              in b2 @ ngx_sprintf_num (room - length b2) (fp_scaled fp f ui64 (frac_width sp))
                        0x30 0 (frac_width sp))"

text \<open>
  One directive: what it writes with \<open>room\<close> bytes left (\<open>room > 0\<close>), and the arguments that remain.
  The 64-bit conversions are \<^verbatim>\<open>O T r z i l L A M p\<close>, the 32-bit ones \<^verbatim>\<open>P d D c\<close>.
\<close>

definition spf_int64 :: "spf \<Rightarrow> u8 \<Rightarrow> u64 \<Rightarrow> spf \<times> u64 \<times> u64" where
  "spf_int64 sp c v =
     (if c = 0x4f \<or> c = 0x54 \<or> c = 0x72 then (sp\<lparr>sign := True\<rparr>, v, 0)
      else if c = 0x4d then
        (if v = -1 then (sp\<lparr>sign := True\<rparr>, -1, 0) else (sp\<lparr>sign := False\<rparr>, 0, v))
      else if c = 0x70 then (sp\<lparr>hex := 2, sign := False, zero := 0x30, width := 16\<rparr>, 0, v)
      else let sp = (if (c = 0x69 \<or> c = 0x41) \<and> max_width sp then sp\<lparr>width := 20\<rparr> else sp)
           in if sign sp then (sp, v, 0) else (sp, 0, v))"

definition spf_int32 :: "spf \<Rightarrow> u8 \<Rightarrow> u32 \<Rightarrow> spf \<times> u64 \<times> u64" where
  "spf_int32 sp c v =
     (if c = 0x50 then (sp\<lparr>sign := True\<rparr>, scast v, 0)
      else if sign sp then (sp, scast v, 0) else (sp, 0, ucast v))"

definition spf_conv ::
  "'d fp_ops \<Rightarrow> nat \<Rightarrow> spf \<Rightarrow> 'd va_arg list \<Rightarrow> u8 \<Rightarrow> (bytes \<times> 'd va_arg list) option" where
  "spf_conv fp room sp args c =
     (if c = 0x56 then
        (case args of VaStr v # args' \<Rightarrow> Some (take (min room (length v)) v, args') | _ \<Rightarrow> None)
      else if c = 0x76 then
        (case args of VaVar v # args' \<Rightarrow> Some (take (min room (length v)) v, args') | _ \<Rightarrow> None)
      else if c = 0x73 then
        (case args of
           VaCStr p # args' \<Rightarrow>
             (if slen sp = -1 then map_option (\<lambda>b. (b, args')) (spf_cstr p room)
              else let len = min room (unat (slen sp))
                   in if len \<le> length p then Some (take len p, args') else None)
         | _ \<Rightarrow> None)
      else if c \<in> {0x4f, 0x54, 0x4d, 0x7a, 0x69, 0x6c, 0x4c, 0x41, 0x72, 0x70} then
        (case args of
           Va64 v # args' \<Rightarrow>
             (let (sp, i64, ui64) = spf_int64 sp c v in Some (spf_number room sp i64 ui64, args'))
         | _ \<Rightarrow> None)
      else if c \<in> {0x50, 0x64, 0x44} then
        (case args of
           Va32 v # args' \<Rightarrow>
             (let (sp, i64, ui64) = spf_int32 sp c v in Some (spf_number room sp i64 ui64, args'))
         | _ \<Rightarrow> None)
      else if c = 0x66 then
        (case args of VaDbl f # args' \<Rightarrow> Some (spf_double fp room sp f, args') | _ \<Rightarrow> None)
      else if c = 0x63 then
        (case args of Va32 d # args' \<Rightarrow> Some ([ucast (d AND 0xff)], args') | _ \<Rightarrow> None)
      else if c = 0x5a then Some ([0], args)
      else if c = 0x4e then Some ([LF], args)
      else if c = 0x25 then Some ([0x25], args)
      else Some ([c], args))"

section \<open>The main loop\<close>

text \<open>One \<^verbatim>\<open>%\<close> directive, from the character after the percent sign.\<close>

definition spf_directive ::
  "'d fp_ops \<Rightarrow> nat \<Rightarrow> bytes \<Rightarrow> 'd va_arg list \<Rightarrow> (bytes \<times> bytes \<times> 'd va_arg list) option" where
  "spf_directive fp room fmt args = do {
     z \<leftarrow> rd fmt 0;
     let (w, fmt1) = spf_num 0 fmt;
     let sp = \<lparr>zero = (if z = 0x30 then 0x30 else 0x20), width = w, sign = True, hex = 0,
               max_width = False, frac_width = 0, slen = -1\<rparr>;
     (sp, args1, fmt2) \<leftarrow> spf_flags sp args fmt1;
     c \<leftarrow> rd fmt2 0;
     (b, args2) \<leftarrow> spf_conv fp room sp args1 c;
     Some (b, drop 1 fmt2, args2) }"

lemma spf_num_length: "length (snd (spf_num acc fmt)) \<le> length fmt"
  by (induction acc fmt rule: spf_num.induct) auto

lemma spf_flags_length:
  "spf_flags sp args fmt = Some (sp', args', fmt') \<Longrightarrow> length fmt' \<le> length fmt"
proof (induction sp args fmt rule: spf_flags.induct)
  case (2 sp args c fmt)
  then show ?case
    using spf_num_length [of "frac_width sp" fmt]
    by (auto split: if_splits prod.splits list.splits va_arg.splits)
qed simp

lemma spf_directiveE:
  assumes "spf_directive fp room fmt args = Some (b, fmt', args')"
  obtains w fmt1 sp sp' args1 fmt2 c where
    "spf_num 0 fmt = (w, fmt1)" "spf_flags sp args fmt1 = Some (sp', args1, fmt2)"
    "rd fmt2 0 = Some c" "spf_conv fp room sp' args1 c = Some (b, args')" "fmt' = drop 1 fmt2"
proof -
  obtain w fmt1 where w: "spf_num 0 fmt = (w, fmt1)" by (cases "spf_num 0 fmt")
  show thesis
    using assms by (auto simp: spf_directive_def w bind_eq_Some_conv intro!: that [OF w])
qed

lemma spf_directive_length:
  assumes "spf_directive fp room fmt args = Some (b, fmt', args')"
  shows "length fmt' < length fmt"
  using assms
proof (rule spf_directiveE)
  fix w fmt1 sp sp' args1 fmt2 c
  assume *: "spf_num 0 fmt = (w, fmt1)" "spf_flags sp args fmt1 = Some (sp', args1, fmt2)"
    "rd fmt2 0 = Some c" "fmt' = drop 1 fmt2"
  have "length fmt1 \<le> length fmt"
    using spf_num_length [of 0 fmt] *(1) by simp
  then show "length fmt' < length fmt"
    using spf_flags_length [OF *(2)] *(3,4) by (cases fmt2) (auto simp: rd_def)
qed

text \<open>\<open>room\<close> is \<^verbatim>\<open>last - buf\<close>; the result is what is written from \<^verbatim>\<open>buf\<close> on.\<close>

function ngx_vslprintf :: "'d fp_ops \<Rightarrow> nat \<Rightarrow> bytes \<Rightarrow> 'd va_arg list \<Rightarrow> bytes option" where
  "ngx_vslprintf fp room [] args = None"
| "ngx_vslprintf fp room (c # fmt) args =
     (if c = 0 \<or> room = 0 then Some []
      else if c = 0x25 then
        (case spf_directive fp room fmt args of
           None \<Rightarrow> None
         | Some (b, fmt', args') \<Rightarrow> map_option ((@) b) (ngx_vslprintf fp (room - length b) fmt' args'))
      else map_option ((#) c) (ngx_vslprintf fp (room - 1) fmt args))"
  by pat_completeness auto
termination
  by (relation "measure (\<lambda>(fp, room, fmt, args). length fmt)")
     (auto dest!: spf_directive_length)

text \<open>
  \<^verbatim>\<open>ngx_snprintf\<close> gives \<open>max\<close> bytes of room, \<^verbatim>\<open>ngx_slprintf\<close> the distance to \<open>last\<close>, and
  \<^verbatim>\<open>ngx_sprintf\<close> the whole address space above \<open>buf\<close> (\<^verbatim>\<open>last\<close> is \<^verbatim>\<open>(void *) -1\<close>).
\<close>

definition ngx_snprintf :: "'d fp_ops \<Rightarrow> nat \<Rightarrow> bytes \<Rightarrow> 'd va_arg list \<Rightarrow> bytes option" where
  "ngx_snprintf fp mx fmt args = ngx_vslprintf fp mx fmt args"

definition ngx_slprintf :: "'d fp_ops \<Rightarrow> u64 \<Rightarrow> u64 \<Rightarrow> bytes \<Rightarrow> 'd va_arg list \<Rightarrow> bytes option" where
  "ngx_slprintf fp buf lst fmt args = ngx_vslprintf fp (unat lst - unat buf) fmt args"

definition ngx_sprintf :: "'d fp_ops \<Rightarrow> u64 \<Rightarrow> bytes \<Rightarrow> 'd va_arg list \<Rightarrow> bytes option" where
  "ngx_sprintf fp buf fmt args = ngx_vslprintf fp (unat (-1 :: u64) - unat buf) fmt args"

section \<open>The printer never writes past its limit\<close>

lemma spf_cstr_length: "spf_cstr p room = Some b \<Longrightarrow> length b \<le> room"
  by (induction p room arbitrary: b rule: spf_cstr.induct) (auto split: if_splits nat.splits)

lemma spf_number_length: "0 < room \<Longrightarrow> length (spf_number room sp i64 ui64) \<le> room"
  using ngx_sprintf_num_bounds_room [of "room - 1" "- i64" "zero sp" "hex sp" "width sp"]
    ngx_sprintf_num_bounds_room [of room i64 "zero sp" "hex sp" "width sp"]
    ngx_sprintf_num_bounds_room [of room ui64 "zero sp" "hex sp" "width sp"]
  by (auto simp: spf_number_def)

lemma spf_double_length: "0 < room \<Longrightarrow> length (spf_double fp room sp f) \<le> room"
proof -
  assume "0 < room"
  define minus where "minus = (if fp_negative fp f then [0x2d :: u8] else [])"
  define g where "g = (if fp_negative fp f then fp_minus fp f else f)"
  define b1 where "b1 = minus @ ngx_sprintf_num (room - length minus) (fp_trunc fp g) (zero sp) 0 (width sp)"
  define b2 where "b2 = (if length b1 < room then b1 @ [0x2e] else b1)"
  have eq: "spf_double fp room sp f = (if frac_width sp = 0 then b1
      else b2 @ ngx_sprintf_num (room - length b2) (fp_scaled fp g (fp_trunc fp g) (frac_width sp)) 0x30 0 (frac_width sp))"
    by (simp add: spf_double_def minus_def g_def b1_def b2_def Let_def)
  have "length b1 \<le> room"
    using \<open>0 < room\<close> ngx_sprintf_num_bounds_room [of "room - length minus" "fp_trunc fp g" "zero sp" 0 "width sp"]
    by (auto simp: b1_def minus_def)
  moreover have "length b2 \<le> room"
    using calculation by (auto simp: b2_def)
  moreover note ngx_sprintf_num_bounds_room [of "room - length b2" "fp_scaled fp g (fp_trunc fp g) (frac_width sp)"
      "0x30" 0 "frac_width sp"]
  ultimately show ?thesis
    by (auto simp: eq)
qed

lemma spf_conv_length:
  "0 < room \<Longrightarrow> spf_conv fp room sp args c = Some (b, args') \<Longrightarrow> length b \<le> room"
  unfolding spf_conv_def
  by (auto simp: spf_number_length spf_double_length Let_def
      dest: spf_cstr_length split: if_splits list.splits va_arg.splits prod.splits)

lemma spf_directive_room:
  "0 < room \<Longrightarrow> spf_directive fp room fmt args = Some (b, fmt', args') \<Longrightarrow> length b \<le> room"
  by (erule spf_directiveE) (blast dest: spf_conv_length)

text \<open>C36: whatever the format and the arguments, \<^verbatim>\<open>ngx_vslprintf\<close> writes at most \<open>last - buf\<close> bytes,
  although it checks \<^verbatim>\<open>buf < last\<close> only once per directive.\<close>

theorem ngx_vslprintf_bounded:
  "ngx_vslprintf fp room fmt args = Some out \<Longrightarrow> length out \<le> room"
proof (induction fp room fmt args arbitrary: out rule: ngx_vslprintf.induct)
  case (2 fp room c fmt args)
  show ?case
  proof (cases "c = 0 \<or> room = 0")
    case True
    then show ?thesis using "2.prems" by simp
  next
    case go: False
    show ?thesis
    proof (cases "c = 0x25")
      case True
      then obtain b fmt' args' o' where
        d: "spf_directive fp room fmt args = Some (b, fmt', args')"
           "ngx_vslprintf fp (room - length b) fmt' args' = Some o'" "out = b @ o'"
        using "2.prems" go by (auto split: option.splits prod.splits)
      have "length o' \<le> room - length b"
        using "2.IH"(1) [OF go True d(1) refl refl d(2)] by simp
      moreover have "length b \<le> room"
        using spf_directive_room [OF _ d(1)] go by simp
      ultimately show ?thesis using d(3) by simp
    next
      case False
      then obtain o' where o': "ngx_vslprintf fp (room - 1) fmt args = Some o'" "out = c # o'"
        using "2.prems" go by auto
      then have "length o' \<le> room - 1"
        using "2.IH"(2) [OF go False] by simp
      then show ?thesis using go o'(2) by (cases room) auto
    qed
  qed
qed simp

theorem ngx_vslprintf_bounded_witness:
  "length (the (ngx_vslprintf (undefined :: unit fp_ops) 5 (str ''%V-%04d'' @ [0]) [VaStr [0x61, 0x62], Va32 7])) \<le> 5
   \<and> ngx_vslprintf (undefined :: unit fp_ops) 5 (str ''%V-%04d'' @ [0]) [VaStr [0x61, 0x62], Va32 7]
     = Some (str ''ab-00'')"
proof -
  have *: "ngx_vslprintf (undefined :: unit fp_ops) 5 (str ''%V-%04d'' @ [0]) [VaStr [0x61, 0x62], Va32 7]
     = Some (str ''ab-00'')"
    by (simp add: str_def spf_directive_def spf_conv_def spf_int32_def spf_number_def ngx_sprintf_num_def
        dec_digits32_eq nat_dec_rec spf_pad_eq dec_byte_def Let_def rd_def,
        simp add: numeral_2_eq_2)
  from ngx_vslprintf_bounded [OF this] * show ?thesis by simp
qed

section \<open>Formats that print whatever the room is\<close>

text \<open>A format prints with its arguments: every argument is there and of the kind that its directive takes.\<close>

definition prints :: "'d fp_ops \<Rightarrow> bytes \<Rightarrow> 'd va_arg list \<Rightarrow> bool" where
  "prints fp fmt args \<longleftrightarrow> (\<forall>room. \<exists>s. ngx_vslprintf fp room fmt args = Some s)"

lemma prints_end: "prints fp (0 # fmt) args"
  by (simp add: prints_def)

lemma prints_byte: "c \<noteq> 0x25 \<Longrightarrow> prints fp fmt args \<Longrightarrow> prints fp (c # fmt) args"
  unfolding prints_def by (auto simp del: not_None_eq)

lemma prints_directive:
  assumes "\<And>room. \<exists>b. spf_directive fp room fmt args = Some (b, fmt', args')" and "prints fp fmt' args'"
  shows "prints fp (0x25 # fmt) args"
  unfolding prints_def
proof
  fix room
  obtain b where b: "spf_directive fp room fmt args = Some (b, fmt', args')" using assms(1) by blast
  obtain s where "ngx_vslprintf fp (room - length b) fmt' args' = Some s" using assms(2) unfolding prints_def by blast
  then show "\<exists>s. ngx_vslprintf fp room (0x25 # fmt) args = Some s" using b by simp
qed

lemma prints_literal:
  assumes "c \<noteq> 0x25" "c \<noteq> 0"
  shows "prints fp (c # fmt) args \<longleftrightarrow> prints fp fmt args"
proof
  assume *: "prints fp (c # fmt) args"
  show "prints fp fmt args"
    unfolding prints_def
  proof
    fix room
    show "\<exists>s. ngx_vslprintf fp room fmt args = Some s"
      using * [unfolded prints_def, rule_format, of "Suc room"] assms by auto
  qed
qed (use assms in \<open>simp add: prints_byte\<close>)

lemma sprintf_prints: "prints fp fmt args \<Longrightarrow> \<exists>b. ngx_sprintf fp at fmt args = Some b"
  by (simp add: prints_def ngx_sprintf_def)

end
