(* ===== verification/NgxBase64.thy ===== *)
theory NgxBase64
  imports NgxPrelude
begin

text \<open>
  The binary-to-text codecs of \<^verbatim>\<open>src/core/ngx_string.c\<close>: \<^verbatim>\<open>ngx_hex_dump\<close>,
  \<^verbatim>\<open>ngx_encode_base64\<close>, and the two decoders over \<^verbatim>\<open>ngx_decode_base64_internal\<close>.  A source
  \<^verbatim>\<open>ngx_str_t\<close> is the list of its \<^verbatim>\<open>len\<close> bytes; an encoder returns the bytes it writes at
  \<^verbatim>\<open>dst->data\<close>, whose number is the new \<^verbatim>\<open>dst->len\<close>.
\<close>

section \<open>Hexadecimal dump\<close>

fun ngx_hex_dump :: "bytes \<Rightarrow> nat \<Rightarrow> bytes option" where
  "ngx_hex_dump src 0 = Some []"
| "ngx_hex_dump (c # src) (Suc len) =
     map_option (\<lambda>d. hex_hi c # hex_lo c # d) (ngx_hex_dump src len)"
| "ngx_hex_dump [] (Suc len) = None"

section \<open>Base64\<close>

definition basis64 :: bytes where
  "basis64 = str ''ABCDEFGHIJKLMNOPQRSTUVWXYZabcdefghijklmnopqrstuvwxyz0123456789+/''"

definition enc64 :: "u8 \<Rightarrow> u8" where
  "enc64 i = basis64 ! unat i"

text \<open>The indices into the alphabet, six bits each; the last two are those of the padded tail.\<close>

definition sx0 :: "u8 \<Rightarrow> u8" where "sx0 s0 = drop_bit 2 s0 AND 0x3f"
definition sx1 :: "u8 \<Rightarrow> u8 \<Rightarrow> u8" where "sx1 s0 s1 = push_bit 4 (s0 AND 3) OR drop_bit 4 s1"
definition sx2 :: "u8 \<Rightarrow> u8 \<Rightarrow> u8" where "sx2 s1 s2 = push_bit 2 (s1 AND 0x0f) OR drop_bit 6 s2"
definition sx3 :: "u8 \<Rightarrow> u8" where "sx3 s2 = s2 AND 0x3f"
definition sx1_end :: "u8 \<Rightarrow> u8" where "sx1_end s0 = push_bit 4 (s0 AND 3)"
definition sx2_end :: "u8 \<Rightarrow> u8" where "sx2_end s1 = push_bit 2 (s1 AND 0x0f)"

fun ngx_encode_base64 :: "bytes \<Rightarrow> bytes" where
  "ngx_encode_base64 (s0 # s1 # s2 # s) =
     enc64 (sx0 s0) # enc64 (sx1 s0 s1) # enc64 (sx2 s1 s2) # enc64 (sx3 s2) # ngx_encode_base64 s"
| "ngx_encode_base64 [s0] = [enc64 (sx0 s0), enc64 (sx1_end s0), 0x3d, 0x3d]"
| "ngx_encode_base64 [s0, s1] = [enc64 (sx0 s0), enc64 (sx1 s0 s1), enc64 (sx2_end s1), 0x3d]"
| "ngx_encode_base64 [] = []"

lemmas sx_defs = sx0_def sx1_def sx2_def sx3_def sx1_end_def sx2_end_def

definition decode_basis64 :: bytes where
  "decode_basis64 =
    [77, 77, 77, 77, 77, 77, 77, 77, 77, 77, 77, 77, 77, 77, 77, 77,
     77, 77, 77, 77, 77, 77, 77, 77, 77, 77, 77, 77, 77, 77, 77, 77,
     77, 77, 77, 77, 77, 77, 77, 77, 77, 77, 77, 62, 77, 77, 77, 63,
     52, 53, 54, 55, 56, 57, 58, 59, 60, 61, 77, 77, 77, 77, 77, 77,
     77, 0, 1, 2, 3, 4, 5, 6, 7, 8, 9, 10, 11, 12, 13, 14,
     15, 16, 17, 18, 19, 20, 21, 22, 23, 24, 25, 77, 77, 77, 77, 77,
     77, 26, 27, 28, 29, 30, 31, 32, 33, 34, 35, 36, 37, 38, 39, 40,
     41, 42, 43, 44, 45, 46, 47, 48, 49, 50, 51, 77, 77, 77, 77, 77,
     77, 77, 77, 77, 77, 77, 77, 77, 77, 77, 77, 77, 77, 77, 77, 77,
     77, 77, 77, 77, 77, 77, 77, 77, 77, 77, 77, 77, 77, 77, 77, 77,
     77, 77, 77, 77, 77, 77, 77, 77, 77, 77, 77, 77, 77, 77, 77, 77,
     77, 77, 77, 77, 77, 77, 77, 77, 77, 77, 77, 77, 77, 77, 77, 77,
     77, 77, 77, 77, 77, 77, 77, 77, 77, 77, 77, 77, 77, 77, 77, 77,
     77, 77, 77, 77, 77, 77, 77, 77, 77, 77, 77, 77, 77, 77, 77, 77,
     77, 77, 77, 77, 77, 77, 77, 77, 77, 77, 77, 77, 77, 77, 77, 77,
     77, 77, 77, 77, 77, 77, 77, 77, 77, 77, 77, 77, 77, 77, 77, 77]"

definition decode_basis64url :: bytes where
  "decode_basis64url =
    [77, 77, 77, 77, 77, 77, 77, 77, 77, 77, 77, 77, 77, 77, 77, 77,
     77, 77, 77, 77, 77, 77, 77, 77, 77, 77, 77, 77, 77, 77, 77, 77,
     77, 77, 77, 77, 77, 77, 77, 77, 77, 77, 77, 77, 77, 62, 77, 77,
     52, 53, 54, 55, 56, 57, 58, 59, 60, 61, 77, 77, 77, 77, 77, 77,
     77, 0, 1, 2, 3, 4, 5, 6, 7, 8, 9, 10, 11, 12, 13, 14,
     15, 16, 17, 18, 19, 20, 21, 22, 23, 24, 25, 77, 77, 77, 77, 63,
     77, 26, 27, 28, 29, 30, 31, 32, 33, 34, 35, 36, 37, 38, 39, 40,
     41, 42, 43, 44, 45, 46, 47, 48, 49, 50, 51, 77, 77, 77, 77, 77,
     77, 77, 77, 77, 77, 77, 77, 77, 77, 77, 77, 77, 77, 77, 77, 77,
     77, 77, 77, 77, 77, 77, 77, 77, 77, 77, 77, 77, 77, 77, 77, 77,
     77, 77, 77, 77, 77, 77, 77, 77, 77, 77, 77, 77, 77, 77, 77, 77,
     77, 77, 77, 77, 77, 77, 77, 77, 77, 77, 77, 77, 77, 77, 77, 77,
     77, 77, 77, 77, 77, 77, 77, 77, 77, 77, 77, 77, 77, 77, 77, 77,
     77, 77, 77, 77, 77, 77, 77, 77, 77, 77, 77, 77, 77, 77, 77, 77,
     77, 77, 77, 77, 77, 77, 77, 77, 77, 77, 77, 77, 77, 77, 77, 77,
     77, 77, 77, 77, 77, 77, 77, 77, 77, 77, 77, 77, 77, 77, 77, 77]"

text \<open>
  The scan: the number of bytes before the first \<^verbatim>\<open>=\<close> or the end, or \<open>None\<close> at a byte outside
  the alphabet.  Then the loop over the scanned bytes; a \<^verbatim>\<open>u_char\<close> shift drops the high bits.
\<close>

fun decode64_scan :: "bytes \<Rightarrow> bytes \<Rightarrow> nat option" where
  "decode64_scan basis [] = Some 0"
| "decode64_scan basis (c # data) =
     (if c = 0x3d then Some 0
      else if basis ! unat c = 77 then None
      else map_option Suc (decode64_scan basis data))"

definition dec64 :: "bytes \<Rightarrow> u8 \<Rightarrow> u8" where
  "dec64 basis c = basis ! unat c"

fun decode64_loop :: "bytes \<Rightarrow> bytes \<Rightarrow> bytes" where
  "decode64_loop basis (s0 # s1 # s2 # s3 # s) =
     (push_bit 2 (dec64 basis s0) OR drop_bit 4 (dec64 basis s1))
     # (push_bit 4 (dec64 basis s1) OR drop_bit 2 (dec64 basis s2))
     # (push_bit 6 (dec64 basis s2) OR dec64 basis s3)
     # decode64_loop basis s"
| "decode64_loop basis s =
     (if length s > 1 then [push_bit 2 (dec64 basis (s ! 0)) OR drop_bit 4 (dec64 basis (s ! 1))] else [])
     @ (if length s > 2 then [push_bit 4 (dec64 basis (s ! 1)) OR drop_bit 2 (dec64 basis (s ! 2))] else [])"

definition ngx_decode_base64_internal :: "bytes \<Rightarrow> bytes \<Rightarrow> ngx_rc + bytes" where
  "ngx_decode_base64_internal src basis =
     (case decode64_scan basis src of
        None \<Rightarrow> Inl NGX_ERROR
      | Some len \<Rightarrow>
          if len mod 4 = 1 then Inl NGX_ERROR else Inr (decode64_loop basis (take len src)))"

definition ngx_decode_base64 :: "bytes \<Rightarrow> ngx_rc + bytes" where
  "ngx_decode_base64 src = ngx_decode_base64_internal src decode_basis64"

definition ngx_decode_base64url :: "bytes \<Rightarrow> ngx_rc + bytes" where
  "ngx_decode_base64url src = ngx_decode_base64_internal src decode_basis64url"

text \<open>The buffer sizes the callers allocate, from \<^verbatim>\<open>ngx_string.h\<close>.\<close>

definition ngx_base64_encoded_length :: "nat \<Rightarrow> nat" where
  "ngx_base64_encoded_length len = ((len + 2) div 3) * 4"

definition ngx_base64_decoded_length :: "nat \<Rightarrow> nat" where
  "ngx_base64_decoded_length len = ((len + 3) div 4) * 3"

section \<open>Six bits at a time\<close>

lemma sextets:
  "push_bit 2 (sx0 s0) OR drop_bit 4 (sx1 s0 s1) = s0"
  "push_bit 4 (sx1 s0 s1) OR drop_bit 2 (sx2 s1 s2) = s1"
  "push_bit 6 (sx2 s1 s2) OR sx3 s2 = s2"
  "push_bit 2 (sx0 s0) OR drop_bit 4 (sx1_end s0) = s0"
  "push_bit 4 (sx1 s0 s1) OR drop_bit 2 (sx2_end s1) = s1"
  unfolding sx_defs
  by (rule u8_bit_eqI; auto simp: bit_simps simp flip: numeral_2_eq_2 numeral_3_eq_3)+

text \<open>A byte whose two top bits are clear is one of 64 values, and the tables are inverse on them.\<close>

definition sextet :: "u8 \<Rightarrow> bool" where
  "sextet v \<longleftrightarrow> \<not> bit v 6 \<and> \<not> bit v 7"

lemma sextet_parts [simp]:
  "sextet (sx0 s0)" "sextet (sx1 s0 s1)" "sextet (sx2 s1 s2)" "sextet (sx3 s2)"
  "sextet (sx1_end s0)" "sextet (sx2_end s1)"
  by (auto simp: sextet_def sx_defs bit_simps u8_bit_out)

definition sextets :: bytes where
  "sextets = [0, 1, 2, 3, 4, 5, 6, 7, 8, 9, 10, 11, 12, 13, 14, 15, 16, 17, 18, 19, 20, 21, 22, 23, 24, 25, 26, 27, 28, 29, 30, 31, 32, 33, 34, 35, 36, 37, 38, 39, 40, 41, 42, 43, 44, 45, 46, 47, 48, 49, 50, 51, 52, 53, 54, 55, 56, 57, 58, 59, 60, 61, 62, 63]"

lemma sextets_nth: "map word_of_nat [0..<64] = sextets"
  by (simp add: sextets_def upt_rec)

lemma sextet_less: "sextet v \<Longrightarrow> unat v < 64"
proof -
  assume "sextet v"
  then have "v = v AND 0x3f"
    by (intro u8_bit_eqI) (auto simp: sextet_def bit_simps)
  then have "v \<le> 0x3f"
    by (metis word_and_le1)
  then show "unat v < 64"
    by (simp add: word_le_nat_alt)
qed

lemma tables_inverse: "map (\<lambda>i. decode_basis64 ! i) (map unat basis64) = sextets"
  by (simp add: basis64_def str_def decode_basis64_def sextets_def)

lemma basis64_props: "length basis64 = 64" "0x3d \<notin> set basis64"
  by (simp_all add: basis64_def str_def)

lemma dec_enc64 [simp]:
  assumes "sextet v"
  shows "dec64 decode_basis64 (enc64 v) = v" "enc64 v \<noteq> 0x3d" "decode_basis64 ! unat (enc64 v) \<noteq> 77"
proof -
  have lt: "unat v < 64" by (rule sextet_less [OF assms])
  have "sextets ! unat v = map word_of_nat [0..<64] ! unat v"
    by (simp only: sextets_nth)
  then have "sextets ! unat v = v" using lt by simp
  moreover have "map (\<lambda>i. decode_basis64 ! i) (map unat basis64) ! unat v = sextets ! unat v"
    by (simp only: tables_inverse)
  ultimately have inv: "decode_basis64 ! unat (basis64 ! unat v) = v"
    using lt by (simp add: basis64_props)
  then show "dec64 decode_basis64 (enc64 v) = v"
    by (simp add: dec64_def enc64_def)
  have "bit (77 :: u8) 6" by simp
  then have "v \<noteq> 77" using assms by (auto simp: sextet_def)
  then show "decode_basis64 ! unat (enc64 v) \<noteq> 77"
    by (simp add: enc64_def inv)
  show "enc64 v \<noteq> 0x3d"
    using basis64_props lt by (metis enc64_def nth_mem)
qed

section \<open>Decoding what was encoded\<close>

lemma div_steps:
  "(n + 5) div 3 = Suc ((n + 2) div 3)"
  by presburger

lemma encode_length: "length (ngx_encode_base64 src) = ngx_base64_encoded_length (length src)"
  by (induction src rule: ngx_encode_base64.induct) (simp_all add: ngx_base64_encoded_length_def add.commute div_steps)

text \<open>The scan stops at the padding, after the sextets; the loop gives the source back.\<close>

definition sx_count :: "nat \<Rightarrow> nat" where
  "sx_count n = (4 * n + 2) div 3"

lemma sx_count_simps [simp]:
  "sx_count 0 = 0" "sx_count (Suc 0) = 2" "sx_count (Suc (Suc 0)) = 3"
  "sx_count (Suc (Suc (Suc n))) = Suc (Suc (Suc (Suc (sx_count n))))"
  unfolding sx_count_def by presburger+

lemma sx_count_mod: "sx_count n mod 4 \<noteq> Suc 0"
  unfolding sx_count_def by presburger

lemma scan_encode:
  "decode64_scan decode_basis64 (ngx_encode_base64 src) = Some (sx_count (length src))"
  by (induction src rule: ngx_encode_base64.induct) simp_all

lemma loop_encode:
  "decode64_loop decode_basis64 (take (sx_count (length src)) (ngx_encode_base64 src)) = src"
  by (induction src rule: ngx_encode_base64.induct) (simp_all add: sextets)

lemma decode_encode: "ngx_decode_base64 (ngx_encode_base64 src) = Inr src"
  by (simp add: ngx_decode_base64_def ngx_decode_base64_internal_def scan_encode loop_encode sx_count_mod)

lemma decode64_loop_length: "length (decode64_loop basis s) \<le> length s * 3 div 4"
  by (induction basis s rule: decode64_loop.induct) auto

lemma decode64_scan_le: "decode64_scan basis s = Some n \<Longrightarrow> n \<le> length s"
  by (induction s arbitrary: n) (auto split: if_splits)

text \<open>the decoder, given any input and either alphabet, writes no more bytes than the macro
  \<^verbatim>\<open>ngx_base64_decoded_length\<close> makes its callers allocate; and it never reads past the scanned
  input, whose length is not 1 modulo 4.\<close>

lemma base64_decode_fits:
  assumes "ngx_decode_base64 src = Inr out \<or> ngx_decode_base64url src = Inr out"
  shows "length out \<le> ngx_base64_decoded_length (length src)"
proof -
  obtain basis n where n: "decode64_scan basis src = Some n" "out = decode64_loop basis (take n src)"
    using assms
    by (auto simp: ngx_decode_base64_def ngx_decode_base64url_def ngx_decode_base64_internal_def
        split: option.splits if_splits)
  have "length out \<le> min (length src) n * 3 div 4"
    using decode64_loop_length [of basis "take n src"] by (simp add: n(2) min.commute)
  also have "\<dots> \<le> length src * 3 div 4"
    by (intro div_le_mono mult_le_mono) auto
  also have "\<dots> \<le> ngx_base64_decoded_length (length src)"
    unfolding ngx_base64_decoded_length_def by presburger
  finally show ?thesis .
qed

lemma base64_decode_fits_witness:
  "length (projr (ngx_decode_base64url (str ''Zm9v''))) \<le> ngx_base64_decoded_length 4
   \<and> ngx_decode_base64url (str ''Zm9v'') = Inr (str ''foo'')"
proof -
  have *: "ngx_decode_base64url (str ''Zm9v'') = Inr (str ''foo'')"
    by (simp add: ngx_decode_base64url_def ngx_decode_base64_internal_def decode_basis64url_def
        dec64_def str_def)
  then show ?thesis
    using base64_decode_fits [of "str ''Zm9v''" "str ''foo''"] by (simp add: str_def numeral_eq_Suc)
qed

section \<open>Base64 as a codec\<close>

definition base64_dec :: "bytes \<Rightarrow> bytes option" where
  "base64_dec s = (case ngx_decode_base64 s of Inl _ \<Rightarrow> None | Inr b \<Rightarrow> Some b)"

interpretation b64: codec "\<lambda>_. True" ngx_encode_base64 base64_dec
  by unfold_locales (simp add: base64_dec_def decode_encode)

text \<open>C37: \<^verbatim>\<open>ngx_decode_base64\<close> gives back every byte string that \<^verbatim>\<open>ngx_encode_base64\<close> encoded;
  the encoder writes exactly \<^verbatim>\<open>ngx_base64_encoded_length\<close> bytes, and it maps distinct byte
  strings to distinct texts.\<close>

theorem base64_roundtrip:
  "ngx_decode_base64 (ngx_encode_base64 src) = Inr src \<and>
   length (ngx_encode_base64 src) = ngx_base64_encoded_length (length src) \<and>
   (ngx_encode_base64 src = ngx_encode_base64 src' \<longleftrightarrow> src = src')"
  using b64.enc_inject [of src src'] by (simp add: encode_length decode_encode)

end
