(* ===== verification/NgxEscape.thy ===== *)
theory NgxEscape
  imports NgxPrelude
begin

text \<open>
  URI and HTML escaping of \<^verbatim>\<open>src/core/ngx_string.c\<close>.  The escapers are called twice, with a null
  \<^verbatim>\<open>dst\<close> to count and with a buffer to write; both calls are modelled.  \<^verbatim>\<open>ngx_unescape_uri\<close> runs in
  place in most of its callers, so the number of bytes it has written is compared with the number
  it has read.
\<close>

section \<open>The escape tables\<close>

definition esc_uri :: "u32 list" where
  "esc_uri = [0xffffffff, 0x80000029, 0x00000000, 0x80000000, 0xffffffff, 0xffffffff, 0xffffffff, 0xffffffff]"

definition esc_args :: "u32 list" where
  "esc_args = [0xffffffff, 0x88000869, 0x00000000, 0x80000000, 0xffffffff, 0xffffffff, 0xffffffff, 0xffffffff]"

definition esc_uri_component :: "u32 list" where
  "esc_uri_component = [0xffffffff, 0xfc009fff, 0x78000001, 0xb8000001, 0xffffffff, 0xffffffff, 0xffffffff, 0xffffffff]"

definition esc_html :: "u32 list" where
  "esc_html = [0xffffffff, 0x000000ad, 0x00000000, 0x80000000, 0xffffffff, 0xffffffff, 0xffffffff, 0xffffffff]"

definition esc_refresh :: "u32 list" where
  "esc_refresh = [0xffffffff, 0x00000085, 0x00000000, 0x80000000, 0xffffffff, 0xffffffff, 0xffffffff, 0xffffffff]"

definition esc_memcached :: "u32 list" where
  "esc_memcached = [0xffffffff, 0x00000021, 0x00000000, 0x00000000, 0x00000000, 0x00000000, 0x00000000, 0x00000000]"

datatype escape_type =
  NGX_ESCAPE_URI | NGX_ESCAPE_ARGS | NGX_ESCAPE_URI_COMPONENT | NGX_ESCAPE_HTML
  | NGX_ESCAPE_REFRESH | NGX_ESCAPE_MEMCACHED | NGX_ESCAPE_MAIL_AUTH

fun escape_map :: "escape_type \<Rightarrow> u32 list" where
  "escape_map NGX_ESCAPE_URI = esc_uri"
| "escape_map NGX_ESCAPE_ARGS = esc_args"
| "escape_map NGX_ESCAPE_URI_COMPONENT = esc_uri_component"
| "escape_map NGX_ESCAPE_HTML = esc_html"
| "escape_map NGX_ESCAPE_REFRESH = esc_refresh"
| "escape_map NGX_ESCAPE_MEMCACHED = esc_memcached"
| "escape_map NGX_ESCAPE_MAIL_AUTH = esc_memcached"

section \<open>ngx_escape_uri\<close>

text \<open>With a null \<^verbatim>\<open>dst\<close>: the number of characters to be escaped.\<close>

fun escape_uri_count :: "escape_type \<Rightarrow> bytes \<Rightarrow> nat \<Rightarrow> nat option" where
  "escape_uri_count ty src 0 = Some 0"
| "escape_uri_count ty (c # src) (Suc sz) =
     map_option (\<lambda>n. if in_bitmap (escape_map ty) c then Suc n else n) (escape_uri_count ty src sz)"
| "escape_uri_count ty [] (Suc sz) = None"

text \<open>With a buffer: the bytes written.\<close>

fun ngx_escape_uri :: "escape_type \<Rightarrow> bytes \<Rightarrow> nat \<Rightarrow> bytes option" where
  "ngx_escape_uri ty src 0 = Some []"
| "ngx_escape_uri ty (c # src) (Suc sz) =
     map_option (\<lambda>d. if in_bitmap (escape_map ty) c then 0x25 # hex_hi c # hex_lo c # d else c # d)
       (ngx_escape_uri ty src sz)"
| "ngx_escape_uri ty [] (Suc sz) = None"

section \<open>ngx_unescape_uri\<close>

datatype unesc_state = sw_usual | sw_quoted | sw_quoted_second

text \<open>
  One turn of the loop on the byte \<open>ch\<close>; \<open>prev\<close> is the byte before it, \<^verbatim>\<open>*(s - 2)\<close> once \<^verbatim>\<open>s\<close> has moved
  past \<open>ch\<close>.  The result is the new state and \<open>decoded\<close>, the bytes written, and whether the code
  goes to \<^verbatim>\<open>done\<close>.  \<open>ty\<close> holds the flags \<^verbatim>\<open>NGX_UNESCAPE_URI\<close> (1) and \<^verbatim>\<open>NGX_UNESCAPE_REDIRECT\<close> (2).
\<close>

definition unesc_usual :: "u32 \<Rightarrow> u8 \<Rightarrow> u8 \<Rightarrow> unesc_state \<times> u8 \<times> bytes \<times> bool" where
  "unesc_usual ty decoded ch =
     (if ch = 0x3f \<and> ty AND (1 OR 2) \<noteq> 0 then (sw_usual, decoded, [ch], True)
      else if ch = 0x25 then (sw_quoted, decoded, [], False)
      else (sw_usual, decoded, [ch], False))"

definition unesc_quoted :: "u8 \<Rightarrow> u8 \<Rightarrow> unesc_state \<times> u8 \<times> bytes \<times> bool" where
  "unesc_quoted decoded ch =
     (if 0x30 \<le> ch \<and> ch \<le> 0x39 then (sw_quoted_second, ch - 0x30, [], False)
      else let c = ch OR 0x20 in
        if 0x61 \<le> c \<and> c \<le> 0x66 then (sw_quoted_second, c - 0x61 + 10, [], False)
        else (sw_usual, decoded, [ch], False))"

definition unesc_second :: "u32 \<Rightarrow> u8 \<Rightarrow> u8 \<Rightarrow> u8 \<Rightarrow> unesc_state \<times> u8 \<times> bytes \<times> bool" where
  "unesc_second ty decoded prev ch0 =
     (if 0x30 \<le> ch0 \<and> ch0 \<le> 0x39 then
        (let ch = push_bit 4 decoded + ch0 - 0x30 in
         if ty AND 2 \<noteq> 0 then
           (if ch > 0x25 \<and> ch < 0x7f then (sw_usual, decoded, [ch], False)
            else (sw_usual, decoded, [0x25, prev, ch0], False))
         else (sw_usual, decoded, [ch], False))
      else
        (let c = ch0 OR 0x20 in
         if 0x61 \<le> c \<and> c \<le> 0x66 then
           (let ch = push_bit 4 decoded + c - 0x61 + 10 in
            if ty AND 1 \<noteq> 0 then
              (if ch = 0x3f then (sw_usual, decoded, [ch], True) else (sw_usual, decoded, [ch], False))
            else if ty AND 2 \<noteq> 0 then
              (if ch = 0x3f then (sw_usual, decoded, [ch], True)
               else if ch > 0x25 \<and> ch < 0x7f then (sw_usual, decoded, [ch], False)
               else (sw_usual, decoded, [0x25, prev, ch0], False))
            else (sw_usual, decoded, [ch], False))
         else (sw_usual, decoded, [], False)))"

definition unesc_step :: "u32 \<Rightarrow> unesc_state \<Rightarrow> u8 \<Rightarrow> u8 \<Rightarrow> u8 \<Rightarrow> unesc_state \<times> u8 \<times> bytes \<times> bool" where
  "unesc_step ty st decoded prev ch =
     (case st of
        sw_usual \<Rightarrow> unesc_usual ty decoded ch
      | sw_quoted \<Rightarrow> unesc_quoted decoded ch
      | sw_quoted_second \<Rightarrow> unesc_second ty decoded prev ch)"

text \<open>The loop: the bytes written from \<^verbatim>\<open>*dst\<close> on, and how far \<^verbatim>\<open>*src\<close> moves.\<close>

fun unesc_loop :: "u32 \<Rightarrow> unesc_state \<Rightarrow> u8 \<Rightarrow> u8 \<Rightarrow> bytes \<Rightarrow> nat \<Rightarrow> (bytes \<times> nat) option" where
  "unesc_loop ty st decoded prev src 0 = Some ([], 0)"
| "unesc_loop ty st decoded prev (ch # src) (Suc sz) =
     (let (st', decoded', b, stop) = unesc_step ty st decoded prev ch in
      if stop then Some (b, 1)
      else map_option (\<lambda>(d, k). (b @ d, Suc k)) (unesc_loop ty st' decoded' ch src sz))"
| "unesc_loop ty st decoded prev [] (Suc sz) = None"

definition ngx_unescape_uri :: "bytes \<Rightarrow> nat \<Rightarrow> u32 \<Rightarrow> (bytes \<times> nat) option" where
  "ngx_unescape_uri src sz ty = unesc_loop ty sw_usual 0 0 src sz"

section \<open>ngx_escape_html\<close>

fun escape_html_count :: "bytes \<Rightarrow> nat \<Rightarrow> nat option" where
  "escape_html_count src 0 = Some 0"
| "escape_html_count (c # src) (Suc sz) =
     map_option (\<lambda>len. (if c = 0x3c then 3 else if c = 0x3e then 3 else if c = 0x26 then 4
                        else if c = 0x22 then 5 else 0) + len)
       (escape_html_count src sz)"
| "escape_html_count [] (Suc sz) = None"

definition html_entity :: "u8 \<Rightarrow> bytes" where
  "html_entity ch =
     (if ch = 0x3c then [0x26, 0x6c, 0x74, 0x3b]
      else if ch = 0x3e then [0x26, 0x67, 0x74, 0x3b]
      else if ch = 0x26 then [0x26, 0x61, 0x6d, 0x70, 0x3b]
      else if ch = 0x22 then [0x26, 0x71, 0x75, 0x6f, 0x74, 0x3b]
      else [ch])"

fun ngx_escape_html :: "bytes \<Rightarrow> nat \<Rightarrow> bytes option" where
  "ngx_escape_html src 0 = Some []"
| "ngx_escape_html (ch # src) (Suc sz) = map_option ((@) (html_entity ch)) (ngx_escape_html src sz)"
| "ngx_escape_html [] (Suc sz) = None"

section \<open>Length: the counting call sizes the writing call\<close>

text \<open>C38: the count that \<^verbatim>\<open>ngx_escape_uri\<close> returns for a null destination is exact: the writing call
  produces \<open>sz + 2 * count\<close> bytes, which is what the callers allocate; the HTML escaper's count is
  exact in the same way.  Both read exactly \<open>sz\<close> bytes.\<close>

theorem escape_counts_exact:
  assumes "sz \<le> length src"
  shows "(\<exists>n out. escape_uri_count ty src sz = Some n \<and> ngx_escape_uri ty src sz = Some out \<and>
            length out = sz + 2 * n) \<and>
         (\<exists>m out. escape_html_count src sz = Some m \<and> ngx_escape_html src sz = Some out \<and>
            length out = sz + m)"
proof
  show "\<exists>n out. escape_uri_count ty src sz = Some n \<and> ngx_escape_uri ty src sz = Some out \<and>
           length out = sz + 2 * n"
    using assms
  proof (induction ty src sz rule: ngx_escape_uri.induct)
    case (2 ty c src sz)
    then show ?case by (cases "in_bitmap (escape_map ty) c") auto
  qed auto
  show "\<exists>m out. escape_html_count src sz = Some m \<and> ngx_escape_html src sz = Some out \<and>
           length out = sz + m"
    using assms by (induction src sz rule: ngx_escape_html.induct) (auto simp: html_entity_def)
qed

theorem escape_counts_exact_witness:
  "\<exists>n out. escape_uri_count NGX_ESCAPE_URI [0x25, 0x41] 2 = Some n \<and>
     ngx_escape_uri NGX_ESCAPE_URI [0x25, 0x41] 2 = Some out \<and> length out = 2 + 2 * n"
  using escape_counts_exact [of 2 "[0x25, 0x41]" NGX_ESCAPE_URI] by simp

section \<open>Unescaping what was escaped\<close>

lemma unesc_quoted_hex:
  assumes "unat v < 16"
  shows "unesc_quoted d (hex_tab ! unat v) = (sw_quoted_second, v, [], False)"
  using hex_tab_cases [OF assms]
  by (auto simp: unesc_quoted_def is_digit_def Let_def split: if_splits)

lemma unesc_second_hex:
  assumes "unat v < 16"
  shows "unesc_second 0 d prev (hex_tab ! unat v) = (sw_usual, d, [push_bit 4 d + v], False)"
  using hex_tab_cases [OF assms]
  by (auto simp: unesc_second_def is_digit_def Let_def algebra_simps split: if_splits)

lemma unesc_escaped:
  "unesc_loop 0 sw_usual d prev (0x25 # hex_hi c # hex_lo c # src) (Suc (Suc (Suc sz))) =
     map_option (\<lambda>(b, k). (c # b, Suc (Suc (Suc k)))) (unesc_loop 0 sw_usual (drop_bit 4 c) (hex_lo c) src sz)"
proof -
  have 1: "unesc_quoted d (hex_hi c) = (sw_quoted_second, drop_bit 4 c, [], False)"
    unfolding hex_hi_def by (rule unesc_quoted_hex [OF nibble_less(1)])
  have 2: "unesc_second 0 (drop_bit 4 c) (hex_hi c) (hex_lo c) = (sw_usual, drop_bit 4 c, [c], False)"
    unfolding hex_lo_def using unesc_second_hex [OF nibble_less(2), of "drop_bit 4 c" "hex_hi c" c]
    by (simp add: nibbles_join)
  show ?thesis
    by (cases "unesc_loop 0 sw_usual (drop_bit 4 c) (hex_lo c) src sz")
       (auto simp: unesc_step_def unesc_usual_def 1 2)
qed

lemma unesc_plain:
  "c \<noteq> 0x25 \<Longrightarrow> unesc_loop 0 sw_usual d prev (c # src) (Suc sz) =
     map_option (\<lambda>(b, k). (c # b, Suc k)) (unesc_loop 0 sw_usual d c src sz)"
  by (simp add: unesc_step_def unesc_usual_def)

declare unesc_loop.simps(2) [simp del]

text \<open>Escaping the percent sign itself is what makes the text invertible.\<close>

lemma unesc_escape:
  assumes "in_bitmap (escape_map ty) 0x25" and "sz \<le> length src"
  shows "\<exists>out. ngx_escape_uri ty src sz = Some out \<and>
     unesc_loop 0 sw_usual d prev out (length out) = Some (take sz src, length out)"
  using assms
proof (induction ty src sz arbitrary: d prev rule: ngx_escape_uri.induct)
  case (2 ty c src sz)
  then have "sz \<le> length src" by simp
  note IH = "2.IH" [OF "2.prems"(1) this]
  show ?case
  proof (cases "in_bitmap (escape_map ty) c")
    case True
    then show ?thesis using IH [of "drop_bit 4 c" "hex_lo c"] by (auto simp: unesc_escaped)
  next
    case False
    then have "c \<noteq> 0x25" using "2.prems"(1) by auto
    then show ?thesis using IH [of d c] False by (auto simp: unesc_plain)
  qed
qed auto

lemma percent_escaped: "ty \<noteq> NGX_ESCAPE_REFRESH \<Longrightarrow> in_bitmap (escape_map ty) 0x25"
  by (cases ty) (simp_all add: in_bitmap_def esc_uri_def esc_args_def esc_uri_component_def esc_html_def
      esc_memcached_def)

text \<open>C39: for every escape type but \<^verbatim>\<open>NGX_ESCAPE_REFRESH\<close>, unescaping (with no flags) what
  \<^verbatim>\<open>ngx_escape_uri\<close> wrote gives the source back and consumes all of it.\<close>

theorem unescape_escape:
  assumes "ty \<noteq> NGX_ESCAPE_REFRESH" and "sz \<le> length src"
  shows "\<exists>out. ngx_escape_uri ty src sz = Some out \<and>
     ngx_unescape_uri out (length out) 0 = Some (take sz src, length out)"
  using unesc_escape [OF percent_escaped [OF assms(1)] assms(2)] by (simp add: ngx_unescape_uri_def)

theorem unescape_escape_witness:
  "\<exists>out. ngx_escape_uri NGX_ESCAPE_URI_COMPONENT [0x25, 0x41] 2 = Some out \<and>
     ngx_unescape_uri out (length out) 0 = Some ([0x25, 0x41], length out)"
  using unescape_escape [of NGX_ESCAPE_URI_COMPONENT 2 "[0x25, 0x41]"] by simp

text \<open>the \<^verbatim>\<open>refresh\<close> table does not contain the percent sign its comment lists, so two different
  URIs have the same text under \<^verbatim>\<open>NGX_ESCAPE_REFRESH\<close> and unescaping does not give the source back.\<close>

lemma refresh_percent_not_escaped:
  "\<not> in_bitmap (escape_map NGX_ESCAPE_REFRESH) 0x25 \<and>
   ngx_escape_uri NGX_ESCAPE_REFRESH [0x25, 0x32, 0x30] (length [0x25, 0x32, 0x30 :: u8])
     = ngx_escape_uri NGX_ESCAPE_REFRESH [0x20] (length [0x20 :: u8])"
  by (simp add: in_bitmap_def esc_refresh_def hex_hi_def hex_lo_def hex_tab_def)

section \<open>Unescaping in place\<close>

text \<open>What a state has read but not yet written.\<close>

fun unesc_pending :: "unesc_state \<Rightarrow> nat" where
  "unesc_pending sw_usual = 0"
| "unesc_pending sw_quoted = 1"
| "unesc_pending sw_quoted_second = 2"

lemma unesc_step_length:
  "unesc_step ty st d prev ch = (st', d', b, stop) \<Longrightarrow>
   length b + unesc_pending st' \<le> Suc (unesc_pending st)"
  by (cases st) (auto simp: unesc_step_def unesc_usual_def unesc_quoted_def unesc_second_def Let_def
      split: if_splits)

lemma unesc_loop_length:
  "unesc_loop ty st d prev src sz = Some (out, k) \<Longrightarrow>
   length out \<le> k + unesc_pending st \<and> k \<le> sz"
proof (induction ty st d prev src sz arbitrary: out k rule: unesc_loop.induct)
  case (2 ty st d prev ch src sz)
  obtain st' d' b stop where step: "unesc_step ty st d prev ch = (st', d', b, stop)"
    by (metis surj_pair)
  note len = unesc_step_length [OF step]
  show ?case
  proof (cases stop)
    case True
    then show ?thesis using "2.prems" step len by (auto simp: unesc_loop.simps(2))
  next
    case False
    then obtain o' k' where "unesc_loop ty st' d' ch src sz = Some (o', k')" "out = b @ o'" "k = Suc k'"
      using "2.prems" step by (auto simp: unesc_loop.simps(2))
    then show ?thesis using "2.IH" [OF step [symmetric] refl refl refl False] len by fastforce
  qed
qed auto

text \<open>\<^verbatim>\<open>ngx_unescape_uri\<close> reads exactly the bytes it is told to and never writes more bytes than
  it has read, for any flags: it may run in place, as its callers do.\<close>

theorem unescape_in_place:
  assumes "sz \<le> length src"
  shows "\<exists>out k. ngx_unescape_uri src sz ty = Some (out, k) \<and> length out \<le> k \<and> k \<le> sz"
proof -
  have "\<exists>r. unesc_loop ty st d prev src sz = Some r" for st d prev
    using assms
    by (induction ty st d prev src sz rule: unesc_loop.induct) (auto simp: unesc_loop.simps(2) Let_def split: prod.splits)
  then obtain out k where "unesc_loop ty sw_usual 0 0 src sz = Some (out, k)"
    by fastforce
  then show ?thesis
    using unesc_loop_length by (fastforce simp: ngx_unescape_uri_def)
qed

theorem unescape_in_place_witness:
  "\<exists>out k. ngx_unescape_uri (str ''a%3fb'') 5 2 = Some (out, k) \<and> length out \<le> k \<and> k \<le> 5"
  using unescape_in_place [of 5 "str ''a%3fb''" 2] by (simp add: str_def)

end
