(* ===== verification/NgxUtf8.thy ===== *)
theory NgxUtf8
  imports NgxPrelude
begin

text \<open>
  The UTF-8 routines of \<^verbatim>\<open>src/core/ngx_string.c\<close>.  A source is the list of the bytes from the
  pointer to the end of its object, so a read past the object is \<open>None\<close>; the length arguments are
  the \<^verbatim>\<open>size_t\<close> values of the code.  The specification is the encoding of a code point in two to
  four bytes.
\<close>

section \<open>ngx_utf8_decode\<close>

text \<open>The loop over the \<open>len\<close> continuation bytes; \<open>k\<close> is how far \<^verbatim>\<open>*p\<close> has moved.\<close>

fun utf8_rest :: "u32 \<Rightarrow> u32 \<Rightarrow> nat \<Rightarrow> bytes \<Rightarrow> nat \<Rightarrow> (u32 \<times> nat) option" where
  "utf8_rest valid u k p 0 = Some (if u > valid then u else 0xffffffff, k)"
| "utf8_rest valid u k (b # p) (Suc len) =
     (let i = ucast b in
      if i < 0x80 then Some (0xffffffff, Suc k)
      else utf8_rest valid (push_bit 6 u OR (i AND 0x3f)) (Suc k) p len)"
| "utf8_rest valid u k [] (Suc len) = None"

definition utf8_incomplete :: "u64 \<Rightarrow> nat \<Rightarrow> bool" where
  "utf8_incomplete n len \<longleftrightarrow> n - 1 < word_of_nat len"

definition ngx_utf8_decode :: "bytes \<Rightarrow> u64 \<Rightarrow> (u32 \<times> nat) option" where
  "ngx_utf8_decode p n = do {
     c \<leftarrow> rd p 0;
     let u = (ucast c :: u32);
     if u \<ge> 0xf0 then
       (if utf8_incomplete n 3 then Some (0xfffffffe, 0) else utf8_rest 0xffff (u AND 0x07) 1 (drop 1 p) 3)
     else if u \<ge> 0xe0 then
       (if utf8_incomplete n 2 then Some (0xfffffffe, 0) else utf8_rest 0x7ff (u AND 0x0f) 1 (drop 1 p) 2)
     else if u \<ge> 0xc2 then
       (if utf8_incomplete n 1 then Some (0xfffffffe, 0) else utf8_rest 0x7f (u AND 0x1f) 1 (drop 1 p) 1)
     else Some (0xffffffff, 1) }"

section \<open>ngx_utf8_length and ngx_utf8_cpystrn\<close>

lemma utf8_rest_pos: "utf8_rest valid u k p len = Some (r, k') \<Longrightarrow> k \<le> k'"
  by (induction valid u k p len rule: utf8_rest.induct) (auto simp: Let_def split: if_splits)

lemma ngx_utf8_decode_pos: "ngx_utf8_decode p n = Some (u, k) \<Longrightarrow> u \<le> 0x10ffff \<Longrightarrow> 0 < k"
  by (auto simp: ngx_utf8_decode_def Let_def bind_eq_Some_conv dest: utf8_rest_pos split: if_splits)

text \<open>
  \<open>left\<close> is \<^verbatim>\<open>last - p\<close>; the decoder is called with the whole length \<open>n\<close> at every character.
\<close>

function utf8_length_loop :: "bytes \<Rightarrow> nat \<Rightarrow> nat \<Rightarrow> nat \<Rightarrow> nat option" where
  "utf8_length_loop p left n len =
     (if left = 0 then Some len
      else case rd p 0 of
        None \<Rightarrow> None
      | Some c \<Rightarrow>
          if c < 0x80 then utf8_length_loop (drop 1 p) (left - 1) n (Suc len)
          else case ngx_utf8_decode p (word_of_nat n) of
            None \<Rightarrow> None
          | Some (u, k) \<Rightarrow>
              if u > 0x10ffff then Some n
              else utf8_length_loop (drop k p) (left - k) n (Suc len))"
  by pat_completeness auto
termination
  by (relation "measure (\<lambda>(p, left, n, len). left)")
     (auto simp: not_less dest: ngx_utf8_decode_pos)

declare utf8_length_loop.simps [simp del]

definition ngx_utf8_length :: "bytes \<Rightarrow> nat \<Rightarrow> nat option" where
  "ngx_utf8_length p n = utf8_length_loop p n n 0"

text \<open>
  \<^verbatim>\<open>ngx_utf8_cpystrn\<close> copies at most \<open>n - 1\<close> characters.  The result is what is written from
  \<^verbatim>\<open>dst\<close> on and the offset of the returned pointer, that of the final zero.
\<close>

fun utf8_cpystrn_loop :: "bytes \<Rightarrow> nat \<Rightarrow> u64 \<Rightarrow> (bytes \<times> nat) option" where
  "utf8_cpystrn_loop src 0 len = Some ([0], 0)"
| "utf8_cpystrn_loop src (Suc n) len =
     (case rd src 0 of
        None \<Rightarrow> None
      | Some c \<Rightarrow>
          if c < 0x80 then
            (if c \<noteq> 0 then map_option (\<lambda>(ws, k). (c # ws, Suc k)) (utf8_cpystrn_loop (drop 1 src) n (len - 1))
             else Some ([0], 0))
          else case ngx_utf8_decode src len of
            None \<Rightarrow> None
          | Some (u, k) \<Rightarrow>
              if u > 0x10ffff then Some ([0], 0)
              else map_option (\<lambda>(ws, j). (take k src @ ws, k + j))
                     (utf8_cpystrn_loop (drop k src) n (len - word_of_nat k)))"

definition ngx_utf8_cpystrn :: "bytes \<Rightarrow> nat \<Rightarrow> u64 \<Rightarrow> (bytes \<times> nat) option" where
  "ngx_utf8_cpystrn src n len = (if n = 0 then Some ([], 0) else utf8_cpystrn_loop src (n - 1) len)"

section \<open>The encoding the decoder inverts\<close>

definition utf8_lead :: "nat \<Rightarrow> nat \<Rightarrow> u8" where
  "utf8_lead tag q = word_of_nat (tag + q)"

definition utf8_cont :: "nat \<Rightarrow> u8" where
  "utf8_cont r = word_of_nat (0x80 + r)"

definition utf8_encode :: "nat \<Rightarrow> bytes" where
  "utf8_encode cp =
     (if cp < 0x80 then [utf8_lead 0 cp]
      else if cp < 0x800 then [utf8_lead 0xc0 (cp div 64), utf8_cont (cp mod 64)]
      else if cp < 0x10000 then
        [utf8_lead 0xe0 (cp div 64 div 64), utf8_cont (cp div 64 mod 64), utf8_cont (cp mod 64)]
      else
        [utf8_lead 0xf0 (cp div 64 div 64 div 64), utf8_cont (cp div 64 div 64 mod 64),
         utf8_cont (cp div 64 mod 64), utf8_cont (cp mod 64)])"

lemma unat_u8: "n < 256 \<Longrightarrow> unat (word_of_nat n :: u8) = n"
  using unat_of_nat [of n, where 'a = 8] by simp

lemma ucast_u8_u32: "n < 256 \<Longrightarrow> unat (ucast (word_of_nat n :: u8) :: u32) = n"
  by (simp add: unsigned_ucast_eq unat_u8 take_bit_nat_eq_self)

lemma mask_mod:
  "unat (x AND 0x07 :: u32) = unat x mod 8" "unat (x AND 0x0f :: u32) = unat x mod 16"
  "unat (x AND 0x1f :: u32) = unat x mod 32" "unat (x AND 0x3f :: u32) = unat x mod 64"
proof -
  have m: "(0x07 :: u32) = mask 3" "(0x0f :: u32) = mask 4" "(0x1f :: u32) = mask 5" "(0x3f :: u32) = mask 6"
    by (simp_all add: mask_eq_exp_minus_1)
  show "unat (x AND 0x07) = unat x mod 8" "unat (x AND 0x0f) = unat x mod 16"
    "unat (x AND 0x1f) = unat x mod 32" "unat (x AND 0x3f) = unat x mod 64"
    unfolding m
    by (simp_all add: unat_mod take_bit_eq_mod unsigned_take_bit_eq flip: take_bit_eq_mask)
qed

lemma utf8_shift:
  assumes "unat u < 2 ^ 26"
  shows "unat (push_bit 6 u OR (x AND 0x3f) :: u32) = unat u * 64 + unat x mod 64"
proof -
  have m: "(0x3f :: u32) = mask 6" by (simp add: mask_eq_exp_minus_1)
  have "push_bit 6 u OR (x AND 0x3f) = push_bit 6 u + (x AND 0x3f)"
    unfolding m
    by (rule disjunctive_add [symmetric]) (auto simp: bit_push_bit_iff bit_and_iff bit_mask_iff)
  moreover have "unat (push_bit 6 u) = unat u * 64"
    using assms unat_mult_lem [of u 64] by (simp add: push_bit_eq_mult)
  moreover have "unat u * 64 + unat x mod 64 < 2 ^ 32"
    using assms by simp
  ultimately show ?thesis
    using unat_add_lem [of "push_bit 6 u" "x AND 0x3f"] by (simp add: mask_mod)
qed

lemma utf8_rest_cont:
  assumes "m < 2 ^ 26" and "r < 64"
  shows "utf8_rest v (word_of_nat m) k (utf8_cont r # p) (Suc len)
       = utf8_rest v (word_of_nat (m * 64 + r)) (Suc k) p len"
proof -
  let ?i = "ucast (utf8_cont r) :: u32"
  have i: "unat ?i = 0x80 + r"
    unfolding utf8_cont_def using assms(2) by (intro ucast_u8_u32) simp
  then have "\<not> ?i < 0x80" by (simp add: word_less_nat_alt)
  have m: "unat (word_of_nat m :: u32) = m"
    using assms(1) unat_of_nat [of m, where 'a = 32] by simp
  have "(0x80 + r) mod 64 = r" using assms(2) by (subst mod_add_left_eq [symmetric]) simp
  then have "unat (push_bit 6 (word_of_nat m) OR (?i AND 0x3f) :: u32) = m * 64 + r"
    using utf8_shift [of "word_of_nat m" ?i] assms(1) by (simp only: m i)
  then have "push_bit 6 (word_of_nat m) OR (?i AND 0x3f) = (word_of_nat (m * 64 + r) :: u32)"
    by (rule word_of_unat)
  then show ?thesis
    using \<open>\<not> ?i < 0x80\<close> by (simp only: utf8_rest.simps Let_def if_False)
qed

lemma utf8_rest_done:
  "unat v < m \<Longrightarrow> m < 2 ^ 32 \<Longrightarrow> utf8_rest v (word_of_nat m) k p 0 = Some (word_of_nat m, k)"
  using unat_of_nat [of m, where 'a = 32] by (simp add: word_less_nat_alt del: unat_of_nat)

lemma unat_lead: "tag + q < 256 \<Longrightarrow> unat (ucast (utf8_lead tag q) :: u32) = tag + q"
  unfolding utf8_lead_def by (rule ucast_u8_u32)

lemma utf8_lead2:
  assumes "2 \<le> q" "q < 32"
  shows "\<not> 0xf0 \<le> (ucast (utf8_lead 0xc0 q) :: u32)" "\<not> 0xe0 \<le> (ucast (utf8_lead 0xc0 q) :: u32)"
    "0xc2 \<le> (ucast (utf8_lead 0xc0 q) :: u32)"
    "(ucast (utf8_lead 0xc0 q) AND 0x1f :: u32) = word_of_nat q"
proof -
  have u: "unat (ucast (utf8_lead 0xc0 q) :: u32) = 0xc0 + q" using assms by (intro unat_lead) simp
  show "\<not> 0xf0 \<le> (ucast (utf8_lead 0xc0 q) :: u32)" "\<not> 0xe0 \<le> (ucast (utf8_lead 0xc0 q) :: u32)"
    "0xc2 \<le> (ucast (utf8_lead 0xc0 q) :: u32)"
    using assms by (simp_all add: word_le_nat_alt u)
  have "(0xc0 + q) mod 32 = q" using assms by (subst mod_add_left_eq [symmetric]) simp
  then show "(ucast (utf8_lead 0xc0 q) AND 0x1f :: u32) = word_of_nat q"
    by (intro word_of_unat) (simp only: mask_mod u)
qed

lemma utf8_lead3:
  assumes "q < 16"
  shows "\<not> 0xf0 \<le> (ucast (utf8_lead 0xe0 q) :: u32)" "0xe0 \<le> (ucast (utf8_lead 0xe0 q) :: u32)"
    "(ucast (utf8_lead 0xe0 q) AND 0x0f :: u32) = word_of_nat q"
proof -
  have u: "unat (ucast (utf8_lead 0xe0 q) :: u32) = 0xe0 + q" using assms by (intro unat_lead) simp
  show "\<not> 0xf0 \<le> (ucast (utf8_lead 0xe0 q) :: u32)" "0xe0 \<le> (ucast (utf8_lead 0xe0 q) :: u32)"
    using assms by (simp_all add: word_le_nat_alt u)
  have "(0xe0 + q) mod 16 = q" using assms by (subst mod_add_left_eq [symmetric]) simp
  then show "(ucast (utf8_lead 0xe0 q) AND 0x0f :: u32) = word_of_nat q"
    by (intro word_of_unat) (simp only: mask_mod u)
qed

lemma utf8_lead4:
  assumes "q < 8"
  shows "0xf0 \<le> (ucast (utf8_lead 0xf0 q) :: u32)"
    "(ucast (utf8_lead 0xf0 q) AND 0x07 :: u32) = word_of_nat q"
proof -
  have u: "unat (ucast (utf8_lead 0xf0 q) :: u32) = 0xf0 + q" using assms by (intro unat_lead) simp
  show "0xf0 \<le> (ucast (utf8_lead 0xf0 q) :: u32)"
    using assms by (simp_all add: word_le_nat_alt u)
  have "(0xf0 + q) mod 8 = q" using assms by (subst mod_add_left_eq [symmetric]) simp
  then show "(ucast (utf8_lead 0xf0 q) AND 0x07 :: u32) = word_of_nat q"
    by (intro word_of_unat) (simp only: mask_mod u)
qed

lemma utf8_complete: "l < unat n \<Longrightarrow> l < 4 \<Longrightarrow> \<not> utf8_incomplete n l"
proof -
  assume l: "l < unat n" "l < 4"
  then have "n \<noteq> 0" by auto
  then have "unat (n - 1) = unat n - 1"
    by (rule unat_minus_one)
  moreover have "unat (word_of_nat l :: u64) = l"
    using l(2) unat_of_nat [of l, where 'a = 64] by simp
  ultimately show ?thesis
    using l(1) by (simp add: utf8_incomplete_def word_less_nat_alt)
qed

text \<open>C40: a code point from \<open>0x80\<close> to \<open>0x10ffff\<close>, encoded in UTF-8, is decoded by \<^verbatim>\<open>ngx_utf8_decode\<close>
  to itself whenever the length argument covers its bytes, and the pointer moves past exactly
  those bytes.\<close>

theorem utf8_decode_encode:
  assumes "0x80 \<le> cp" and "cp \<le> 0x10ffff" and "length (utf8_encode cp) \<le> unat n"
  shows "ngx_utf8_decode (utf8_encode cp @ rest) n = Some (word_of_nat cp, length (utf8_encode cp))"
proof -
  consider (two) "cp < 0x800" | (three) "0x800 \<le> cp" "cp < 0x10000" | (four) "0x10000 \<le> cp" by linarith
  then show ?thesis
  proof cases
    case two
    define q where "q = cp div 64"
    have q: "2 \<le> q" "q < 32" "q < 2 ^ 26"
      using div_le_mono [OF assms(1), of 64] two by (simp_all add: q_def div_less_iff_less_mult)
    have enc: "utf8_encode cp = [utf8_lead 0xc0 q, utf8_cont (cp mod 64)]"
      using two assms(1) by (simp add: utf8_encode_def q_def)
    have "utf8_rest 0x7f (word_of_nat q) 1 (utf8_cont (cp mod 64) # rest) (Suc 0) = Some (word_of_nat cp, 2)"
      using q two assms(1) by (simp only: utf8_rest_cont, subst utf8_rest_done) (simp_all add: q_def)
    moreover have "\<not> utf8_incomplete n 1"
      using assms(3) enc by (intro utf8_complete) simp_all
    ultimately show ?thesis
      using utf8_lead2 [OF q(1,2)] by (simp add: enc ngx_utf8_decode_def Let_def del: utf8_rest.simps)
  next
    case three
    define q where "q = cp div 64"
    have q: "q < 2 ^ 26" "q div 64 < 16" "q div 64 < 2 ^ 26"
      using three by (simp_all add: q_def div_less_iff_less_mult)
    have enc: "utf8_encode cp = [utf8_lead 0xe0 (q div 64), utf8_cont (q mod 64), utf8_cont (cp mod 64)]"
      using three assms(1) by (simp add: utf8_encode_def q_def)
    have "utf8_rest 0x7ff (word_of_nat (q div 64)) 1 (utf8_cont (q mod 64) # utf8_cont (cp mod 64) # rest) (Suc (Suc 0))
        = utf8_rest 0x7ff (word_of_nat q) (Suc 1) (utf8_cont (cp mod 64) # rest) (Suc 0)"
      using q by (subst utf8_rest_cont) (simp_all del: utf8_rest.simps One_nat_def)
    also have "\<dots> = Some (word_of_nat cp, 3)"
      using q three by (simp only: utf8_rest_cont, subst utf8_rest_done) (simp_all add: q_def)
    finally have "utf8_rest 0x7ff (word_of_nat (q div 64)) 1 (utf8_cont (q mod 64) # utf8_cont (cp mod 64) # rest) 2
        = Some (word_of_nat cp, 3)" by (simp only: numeral_2_eq_2)
    moreover have "\<not> utf8_incomplete n 2"
      using assms(3) enc by (intro utf8_complete) simp_all
    ultimately show ?thesis
      using utf8_lead3 [OF q(2)] by (simp add: enc ngx_utf8_decode_def Let_def del: utf8_rest.simps)
  next
    case four
    define q where "q = cp div 64"
    define t where "t = q div 64"
    have q: "q < 2 ^ 26" "t < 2 ^ 26" "t div 64 < 8" "t div 64 < 2 ^ 26"
      using four assms(2) by (simp_all add: q_def t_def div_less_iff_less_mult)
    have enc: "utf8_encode cp = [utf8_lead 0xf0 (t div 64), utf8_cont (t mod 64), utf8_cont (q mod 64), utf8_cont (cp mod 64)]"
      using four by (simp add: utf8_encode_def q_def t_def)
    have "utf8_rest 0xffff (word_of_nat (t div 64)) 1
          (utf8_cont (t mod 64) # utf8_cont (q mod 64) # utf8_cont (cp mod 64) # rest) (Suc (Suc (Suc 0)))
        = utf8_rest 0xffff (word_of_nat t) (Suc 1) (utf8_cont (q mod 64) # utf8_cont (cp mod 64) # rest) (Suc (Suc 0))"
      using q by (subst utf8_rest_cont) (simp_all add: t_def del: utf8_rest.simps One_nat_def)
    also have "\<dots> = utf8_rest 0xffff (word_of_nat q) (Suc (Suc 1)) (utf8_cont (cp mod 64) # rest) (Suc 0)"
      using q by (subst utf8_rest_cont) (simp_all add: t_def del: utf8_rest.simps One_nat_def)
    also have "\<dots> = Some (word_of_nat cp, 4)"
      using q four assms(2) by (simp only: utf8_rest_cont, subst utf8_rest_done) (simp_all add: q_def)
    finally have "utf8_rest 0xffff (word_of_nat (t div 64)) 1
          (utf8_cont (t mod 64) # utf8_cont (q mod 64) # utf8_cont (cp mod 64) # rest) 3
        = Some (word_of_nat cp, 4)" by (simp only: numeral_3_eq_3)
    moreover have "\<not> utf8_incomplete n 3"
      using assms(3) enc by (intro utf8_complete) simp_all
    ultimately show ?thesis
      using utf8_lead4 [OF q(3)] by (simp add: enc ngx_utf8_decode_def Let_def del: utf8_rest.simps)
  qed
qed


lemma utf8_decode_encode_witness:
  "ngx_utf8_decode (utf8_encode 0x20ac @ [0x21]) 3 = Some (word_of_nat 0x20ac, 3)"
  using utf8_decode_encode [of "0x20ac" 3 "[0x21]"] by (simp add: utf8_encode_def)

section \<open>Where the length argument is not the bytes left\<close>

text \<open>\<^verbatim>\<open>ngx_utf8_length\<close> passes the whole length \<^verbatim>\<open>n\<close> to the decoder at every character and not what
  is left, so a truncated character at the end makes it read past the buffer.\<close>

lemma utf8_length_overread: "ngx_utf8_length [0x61, 0x61, 0xe2] 3 = None"
  by code_simp

text \<open>The lead bytes from \<open>0xf8\<close> on, which no UTF-8 sequence has, are read as those of four bytes.\<close>

lemma utf8_decode_overlong_lead: "ngx_utf8_decode [0xf8, 0x90, 0x80, 0x80] 4 = Some (0x10000, 4)"
  by code_simp

end
