(* ===== verification/NgxScan.thy ===== *)
theory NgxScan
  imports NgxPrelude
begin

text \<open>
  The scanning loop that the incremental parsers of \<^verbatim>\<open>src/http\<close> share,
  \<^verbatim>\<open>for (p = b->pos; p < b->last; p++) { ch = *p; switch (state) ... }\<close>, and the contract of the
  switch inside it: what one turn does depends on the bytes up to the current one only.  From the
  contract it follows, once for all the parsers, that a parser that is called again each time more
  bytes have arrived gives what it would give on all the bytes at once, and that an invariant of
  the turn is an invariant of the parser.

  \<open>m\<close> is the whole memory of the buffer (up to \<^verbatim>\<open>b->end\<close>), positions are offsets from
  \<^verbatim>\<open>b->start\<close>, and a null pointer is \<open>None\<close>.
\<close>

section \<open>The loop\<close>

datatype ('s, 'o) turn = Cont 's | Stop 'o 's

datatype ('s, 'o) scanned = Again 's | Stopped nat 'o 's

fun scan ::
  "(bytes \<Rightarrow> nat \<Rightarrow> u8 \<Rightarrow> 's \<Rightarrow> ('s, 'o) turn option) \<Rightarrow> bytes \<Rightarrow> nat \<Rightarrow> nat \<Rightarrow> 's \<Rightarrow> ('s, 'o) scanned option"
where
  "scan step m p 0 s = Some (Again s)"
| "scan step m p (Suc n) s =
     (case rd m p of
        None \<Rightarrow> None
      | Some ch \<Rightarrow>
          (case step m p ch s of
             None \<Rightarrow> None
           | Some (Cont s') \<Rightarrow> scan step m (Suc p) n s'
           | Some (Stop e s') \<Rightarrow> Some (Stopped p e s')))"

text \<open>The return codes of the parsers and the labels they jump to.\<close>

datatype parse_rc =
    Rc ngx_rc
  | NGX_HTTP_PARSE_HEADER_DONE
  | NGX_HTTP_PARSE_INVALID_METHOD
  | NGX_HTTP_PARSE_INVALID_REQUEST
  | NGX_HTTP_PARSE_INVALID_09_METHOD
  | NGX_HTTP_PARSE_INVALID_HEADER

datatype parse_exit = Goto_done | Goto_header_done | Return parse_rc

text \<open>
  The whole function around the loop: the request is \<^verbatim>\<open>r->state\<close> and its other fields.  When the
  bytes run out, \<^verbatim>\<open>b->pos\<close> and \<^verbatim>\<open>r->state\<close> are saved and the code is \<^verbatim>\<open>NGX_AGAIN\<close>; a return out of the
  loop does not reach the code that saves \<^verbatim>\<open>b->pos\<close>, and \<open>leave\<close> gives the request it leaves, from that
  on entry and that of the loop (the local \<^verbatim>\<open>state\<close>, for one, is lost); \<open>fin\<close> is what follows the labels.
\<close>

definition incremental ::
  "(bytes \<Rightarrow> nat \<Rightarrow> u8 \<Rightarrow> 'st \<times> 'r \<Rightarrow> ('st \<times> 'r, parse_exit) turn option) \<Rightarrow>
   ('st \<times> 'r \<Rightarrow> 'st \<times> 'r \<Rightarrow> 'st \<times> 'r) \<Rightarrow>
   (nat \<Rightarrow> parse_exit \<Rightarrow> 'st \<times> 'r \<Rightarrow> 'st \<times> 'r \<Rightarrow> parse_rc \<times> ('st \<times> 'r) \<times> nat) \<Rightarrow>
   bytes \<Rightarrow> nat \<Rightarrow> nat \<Rightarrow> 'st \<times> 'r \<Rightarrow> (parse_rc \<times> ('st \<times> 'r) \<times> nat) option" where
  "incremental step leave fin m pos lst s =
     (case scan step m pos (lst - pos) s of
        None \<Rightarrow> None
      | Some (Again s') \<Rightarrow> Some (Rc NGX_AGAIN, s', max pos lst)
      | Some (Stopped p (Return rc) s') \<Rightarrow> Some (rc, leave s s', pos)
      | Some (Stopped p e s') \<Rightarrow> Some (fin p e s s'))"

text \<open>The codes that no return out of a loop gives.\<close>

definition success_codes :: "parse_rc set" where
  "success_codes = {Rc NGX_OK, Rc NGX_AGAIN, NGX_HTTP_PARSE_HEADER_DONE}"

section \<open>Resuming\<close>

lemma scan_add:
  "scan step m p (n + k) s =
     (case scan step m p n s of Some (Again s') \<Rightarrow> scan step m (p + n) k s' | x \<Rightarrow> x)"
proof (induction n arbitrary: p s)
  case (Suc n)
  have *: "p + Suc n = Suc p + n" by simp
  show ?case
    unfolding * by (simp add: Suc.IH split: option.splits turn.splits)
qed simp

lemma scan_SucE:
  assumes "scan step m p (Suc n) s = Some x"
  obtains (cont) s' where "p < length m" "step m p (m ! p) s = Some (Cont s')" "scan step m (Suc p) n s' = Some x"
  | (stop) e s' where "p < length m" "step m p (m ! p) s = Some (Stop e s')" "x = Stopped p e s'"
  using assms by (auto simp: rd_eq_Some split: option.splits turn.splits)

lemma scan_run:
  assumes "\<And>i. p \<le> i \<Longrightarrow> i < p + n \<Longrightarrow> i < length m \<and> step m i (m ! i) s = Some (Cont s)"
  shows "scan step m p (n + k) s = scan step m (p + n) k s"
  using assms
proof (induction n arbitrary: p)
  case (Suc n)
  have "scan step m p (Suc n + k) s = scan step m (Suc p) (n + k) s"
    using Suc.prems [of p] by simp
  also have "\<dots> = scan step m (Suc p + n) k s"
    using Suc.prems by (intro Suc.IH) simp
  finally show ?case by simp
qed simp

lemma scan_one:
  "p < length m \<Longrightarrow> step m p (m ! p) s = Some (Cont s') \<Longrightarrow> scan step m p (Suc k) s = scan step m (Suc p) k s'"
  by simp

lemma scan_stopped_less: "scan step m p n s = Some (Stopped q e s') \<Longrightarrow> p \<le> q \<and> q < p + n"
proof (induction n arbitrary: p s)
  case (Suc n)
  then show ?case
    by (fastforce split: option.splits turn.splits)
qed simp

locale step_parser =
  fixes step :: "bytes \<Rightarrow> nat \<Rightarrow> u8 \<Rightarrow> 's \<Rightarrow> ('s, 'o) turn option"
  assumes step_local:
    "length m = length m' \<Longrightarrow> take (Suc p) m = take (Suc p) m' \<Longrightarrow> p < length m \<Longrightarrow>
     step m p ch s = step m' p ch s"
begin

lemma scan_local:
  assumes "length m = length m'" and "take (p + n) m = take (p + n) m'"
  shows "scan step m p n s = scan step m' p n s"
  using assms
proof (induction n arbitrary: p s)
  case (Suc n)
  have t: "take (Suc p) m = take (Suc p) m'"
    using arg_cong [OF Suc.prems(2), of "take (Suc p)"] by (simp add: min_def)
  then have r: "rd m p = rd m' p"
    using Suc.prems(1) rd_take [of p "Suc p" m] rd_take [of p "Suc p" m'] t by simp
  have "p < length m \<Longrightarrow> step m p ch s = step m' p ch s" for ch
    using step_local [OF Suc.prems(1) t] by simp
  moreover have "scan step m (Suc p) n s' = scan step m' (Suc p) n s'" for s'
    using Suc.IH [of "Suc p" s'] Suc.prems by simp
  ultimately show ?case
    using r by (auto simp: rd_eq_Some split: option.splits turn.splits)
qed simp

text \<open>The first call sees the bytes up to \<open>l1\<close>; meanwhile the bytes after them may change.\<close>

lemma scan_resume:
  assumes "p \<le> l1" and "l1 \<le> l2" and "length m1 = length m" and "take l1 m1 = take l1 m"
  shows "scan step m p (l2 - p) s =
     (case scan step m1 p (l1 - p) s of Some (Again s') \<Rightarrow> scan step m l1 (l2 - l1) s' | x \<Rightarrow> x)"
proof -
  have "l2 - p = (l1 - p) + (l2 - l1)" and "p + (l1 - p) = l1"
    using assms by simp_all
  moreover have "scan step m p (l1 - p) s = scan step m1 p (l1 - p) s"
    using assms by (intro scan_local) simp_all
  ultimately show ?thesis
    by (simp only: scan_add)
qed

end

text \<open>
  A call that returns out of the loop leaves the position, the state and what else the function keeps in
  locals as it found them, so after a split they are those of the last call: \<open>again s pos\<close> puts those of
  the first call, \<open>s\<close> and \<open>pos\<close>, into a result.  Its laws say that this is all that a split can change.
\<close>

locale incremental_parser = step_parser step
  for step :: "bytes \<Rightarrow> nat \<Rightarrow> u8 \<Rightarrow> 'st \<times> 'r \<Rightarrow> ('st \<times> 'r, parse_exit) turn option" +
  fixes leave :: "'st \<times> 'r \<Rightarrow> 'st \<times> 'r \<Rightarrow> 'st \<times> 'r"
    and fin :: "nat \<Rightarrow> parse_exit \<Rightarrow> 'st \<times> 'r \<Rightarrow> 'st \<times> 'r \<Rightarrow> parse_rc \<times> ('st \<times> 'r) \<times> nat"
    and again :: "'st \<times> 'r \<Rightarrow> nat \<Rightarrow> parse_rc \<times> ('st \<times> 'r) \<times> nat \<Rightarrow> parse_rc \<times> ('st \<times> 'r) \<times> nat"
  assumes return_error: "step m p ch s = Some (Stop (Return rc) s') \<Longrightarrow> rc \<notin> success_codes"
  and return_again: "step m p ch s = Some (Stop (Return rc) s') \<Longrightarrow>
    again s1 pos (rc, leave s2 s', q) = (rc, leave s1 s', pos)"
  and fin_again: "again s1 pos (fin p e s2 s') = fin p e s1 s'"
  and keeps_again: "again s1 pos (Rc NGX_AGAIN, s', q) = (Rc NGX_AGAIN, s', q)"
  and fin_code: "fst (fin p e s s') \<noteq> Rc NGX_AGAIN"
begin

lemma scan_return:
  assumes "scan step m p n s = Some (Stopped q (Return rc) s')"
  obtains p' ch s'' where "step m p' ch s'' = Some (Stop (Return rc) s')"
  using assms
proof (induction n arbitrary: p s)
  case (Suc n)
  from Suc.prems(2) show ?case
    by (elim scan_SucE) (auto intro: Suc.prems(1) Suc.IH [OF Suc.prems(1)])
qed simp

lemma scan_return_error:
  "scan step m p n s = Some (Stopped q (Return rc) s') \<Longrightarrow> rc \<notin> success_codes"
  by (erule scan_return) (rule return_error)

lemma scan_return_again:
  "scan step m p n s = Some (Stopped q (Return rc) s') \<Longrightarrow>
   again s1 pos (rc, leave s2 s', q') = (rc, leave s1 s', pos)"
  by (erule scan_return) (rule return_again)

text \<open>What the call gives from a later entry, on the same bytes.\<close>

lemma incremental_again:
  assumes "scan step m pos (lst - pos) s = scan step m pos' (lst - pos') s'"
    and "max pos lst = max pos' lst"
  shows "incremental step leave fin m pos lst s
    = map_option (again s pos) (incremental step leave fin m pos' lst s')"
  unfolding incremental_def assms
  by (auto simp: fin_again keeps_again scan_return_again
      split: option.splits scanned.splits parse_exit.splits)

theorem resume:
  assumes "pos \<le> l1" and "l1 \<le> l2" and "length m1 = length m" and "take l1 m1 = take l1 m"
  shows "incremental step leave fin m pos l2 s =
     (case incremental step leave fin m1 pos l1 s of
        Some (Rc NGX_AGAIN, s', pos') \<Rightarrow> map_option (again s pos) (incremental step leave fin m pos' l2 s')
      | x \<Rightarrow> x)"
proof (cases "scan step m1 pos (l1 - pos) s")
  case None
  then show ?thesis
    using scan_resume [OF assms, of s] by (simp add: incremental_def)
next
  case (Some x)
  show ?thesis
  proof (cases x)
    case (Again s')
    then have r: "scan step m pos (l2 - pos) s = scan step m l1 (l2 - l1) s'"
      using scan_resume [OF assms, of s] Some by simp
    have "incremental step leave fin m pos l2 s = map_option (again s pos) (incremental step leave fin m l1 l2 s')"
      using r assms by (intro incremental_again) simp_all
    then show ?thesis
      using Some Again assms by (simp add: incremental_def)
  next
    case (Stopped p e s')
    then have r: "scan step m pos (l2 - pos) s = Some (Stopped p e s')"
      using scan_resume [OF assms, of s] Some by simp
    obtain rc t q where f: "fin p e s s' = (rc, t, q)" by (cases "fin p e s s'")
    then have "rc \<noteq> Rc NGX_AGAIN" using fin_code [of p e s s'] by simp
    then show ?thesis
      using Some Stopped r f scan_return_error [of m pos "l2 - pos" s p _ s']
      by (auto simp: incremental_def success_codes_def split: parse_exit.splits parse_rc.splits ngx_rc.splits)
  qed
qed

end

section \<open>Invariants\<close>

locale invariant_parser = step_parser step
  for step :: "bytes \<Rightarrow> nat \<Rightarrow> u8 \<Rightarrow> 's \<Rightarrow> ('s, 'o) turn option" +
  fixes inv :: "bytes \<Rightarrow> nat \<Rightarrow> 's \<Rightarrow> bool"
    and post :: "bytes \<Rightarrow> nat \<Rightarrow> 'o \<Rightarrow> 's \<Rightarrow> bool"
    and slack :: nat
  assumes inv_local:
    "take p m = take p m' \<Longrightarrow> inv m p s \<Longrightarrow> inv m' p s"
  and inv_step:
    "inv m p s \<Longrightarrow> p < length m \<Longrightarrow> step m p (m ! p) s = Some (Cont s') \<Longrightarrow> inv m (Suc p) s'"
  and post_step:
    "inv m p s \<Longrightarrow> p < length m \<Longrightarrow> step m p (m ! p) s = Some (Stop e s') \<Longrightarrow> post m p e s'"
  and no_fault:
    "inv m p s \<Longrightarrow> p + slack < length m \<Longrightarrow> step m p (m ! p) s \<noteq> None"
begin

lemma scan_inv:
  "inv m p s \<Longrightarrow> scan step m p n s = Some (Again s') \<Longrightarrow> inv m (p + n) s'"
proof (induction n arbitrary: p s)
  case (Suc n)
  from Suc.prems(2) show ?case
    using Suc.IH [OF inv_step [OF Suc.prems(1)]] by (elim scan_SucE) simp_all
qed simp

lemma scan_post:
  "inv m p s \<Longrightarrow> scan step m p n s = Some (Stopped q e s') \<Longrightarrow> post m q e s'"
proof (induction n arbitrary: p s)
  case (Suc n)
  from Suc.prems(2) show ?case
    using Suc.IH [OF inv_step [OF Suc.prems(1)]] post_step [OF Suc.prems(1)]
    by (elim scan_SucE) simp_all
qed simp

lemma scan_no_fault:
  "inv m p s \<Longrightarrow> p + n + slack \<le> length m \<Longrightarrow> scan step m p n s \<noteq> None"
proof (induction n arbitrary: p s)
  case (Suc n)
  have p: "p + slack < length m" "p < length m" using Suc.prems(2) by simp_all
  obtain t where t: "step m p (m ! p) s = Some t"
    using no_fault [OF Suc.prems(1) p(1)] by auto
  show ?case
  proof (cases t)
    case (Cont s')
    have "scan step m (Suc p) n s' \<noteq> None"
      using Suc.prems(2) inv_step [OF Suc.prems(1) p(2)] t Cont by (intro Suc.IH) simp_all
    then show ?thesis using p t Cont by simp
  next
    case (Stop e s')
    then show ?thesis using p t by simp
  qed
qed simp

end

end
