(* ===== verification/HttpRequestLine.thy ===== *)
theory HttpRequestLine
  imports NgxScan
begin

text \<open>
  \<^verbatim>\<open>ngx_http_parse_request_line\<close> of \<^verbatim>\<open>src/http/ngx_http_parse.c\<close>: one definition for each state of
  the switch, the comparison macros with their 32-bit loads, the loop and its two exits.  The
  record holds the fields of \<^verbatim>\<open>ngx_http_request_t\<close> that the function writes besides \<^verbatim>\<open>r->state\<close>; the version numbers
  are the 16-bit fields of the structure.
\<close>

section \<open>State\<close>

datatype rl_state =
    rl_start | rl_method | rl_spaces_before_uri | rl_schema | rl_schema_slash
  | rl_schema_slash_slash | rl_host | rl_port | rl_host_http_09 | rl_after_slash_in_uri
  | rl_check_uri | rl_check_uri_http_09 | rl_uri | rl_http_09 | rl_http_H | rl_http_HT
  | rl_http_HTT | rl_http_HTTP | rl_first_major_digit | rl_major_digit | rl_first_minor_digit
  | rl_minor_digit | rl_spaces_after_digit | rl_almost_done

datatype http_method =
    NGX_HTTP_UNKNOWN | NGX_HTTP_GET | NGX_HTTP_HEAD | NGX_HTTP_POST | NGX_HTTP_PUT
  | NGX_HTTP_DELETE | NGX_HTTP_MKCOL | NGX_HTTP_COPY | NGX_HTTP_MOVE | NGX_HTTP_OPTIONS
  | NGX_HTTP_PROPFIND | NGX_HTTP_PROPPATCH | NGX_HTTP_LOCK | NGX_HTTP_UNLOCK | NGX_HTTP_PATCH
  | NGX_HTTP_TRACE

record request_line =
  request_start :: "nat option"
  request_end :: "nat option"
  meth :: http_method
  method_end :: "nat option"
  schema_start :: "nat option"
  schema_end :: "nat option"
  host_start :: "nat option"
  host_end :: "nat option"
  port_end :: "nat option"
  uri_start :: "nat option"
  uri_end :: "nat option"
  uri_ext :: "nat option"
  args_start :: "nat option"
  http_protocol :: "nat option"
  http_major :: "16 word"
  http_minor :: "16 word"
  http_version :: u64
  complex_uri :: bool
  quoted_uri :: bool
  plus_in_uri :: bool
  space_in_uri :: bool

type_synonym rl_turn = "(rl_state \<times> request_line, parse_exit) turn"

definition usual :: "u32 list" where
  "usual = [0xffffdbfe, 0x7fff37d6, 0xffffffff, 0xffffffff, 0xffffffff, 0xffffffff, 0xffffffff, 0xffffffff]"

section \<open>The comparison macros\<close>

text \<open>A little-endian 32-bit load, and the constant it is compared with.\<close>

definition pack4 :: "u8 \<Rightarrow> u8 \<Rightarrow> u8 \<Rightarrow> u8 \<Rightarrow> u32" where
  "pack4 c0 c1 c2 c3 = push_bit 24 (ucast c3) OR push_bit 16 (ucast c2) OR push_bit 8 (ucast c1) OR ucast c0"

definition ld32 :: "bytes \<Rightarrow> nat \<Rightarrow> u32 option" where
  "ld32 m a = (if a + 3 < length m then Some (pack4 (m ! a) (m ! (a + 1)) (m ! (a + 2)) (m ! (a + 3))) else None)"

definition ngx_str4cmp :: "bytes \<Rightarrow> nat \<Rightarrow> u8 \<Rightarrow> u8 \<Rightarrow> u8 \<Rightarrow> u8 \<Rightarrow> bool option" where
  "ngx_str4cmp m a c0 c1 c2 c3 = map_option (\<lambda>w. w = pack4 c0 c1 c2 c3) (ld32 m a)"

definition ngx_str5cmp :: "bytes \<Rightarrow> nat \<Rightarrow> u8 \<Rightarrow> u8 \<Rightarrow> u8 \<Rightarrow> u8 \<Rightarrow> u8 \<Rightarrow> bool option" where
  "ngx_str5cmp m a c0 c1 c2 c3 c4 = do {
     e \<leftarrow> ngx_str4cmp m a c0 c1 c2 c3;
     if e then map_option (\<lambda>c. c = c4) (rd m (a + 4)) else Some False }"

definition ngx_str6cmp :: "bytes \<Rightarrow> nat \<Rightarrow> u8 \<Rightarrow> u8 \<Rightarrow> u8 \<Rightarrow> u8 \<Rightarrow> u8 \<Rightarrow> u8 \<Rightarrow> bool option" where
  "ngx_str6cmp m a c0 c1 c2 c3 c4 c5 = do {
     e \<leftarrow> ngx_str4cmp m a c0 c1 c2 c3;
     if e then map_option (\<lambda>w. w AND 0xffff = push_bit 8 (ucast c5) OR ucast c4) (ld32 m (a + 4))
     else Some False }"

definition ngx_str8cmp ::
  "bytes \<Rightarrow> nat \<Rightarrow> u8 \<Rightarrow> u8 \<Rightarrow> u8 \<Rightarrow> u8 \<Rightarrow> u8 \<Rightarrow> u8 \<Rightarrow> u8 \<Rightarrow> u8 \<Rightarrow> bool option" where
  "ngx_str8cmp m a c0 c1 c2 c3 c4 c5 c6 c7 = do {
     e \<leftarrow> ngx_str4cmp m a c0 c1 c2 c3;
     if e then ngx_str4cmp m (a + 4) c4 c5 c6 c7 else Some False }"

definition ngx_str9cmp ::
  "bytes \<Rightarrow> nat \<Rightarrow> u8 \<Rightarrow> u8 \<Rightarrow> u8 \<Rightarrow> u8 \<Rightarrow> u8 \<Rightarrow> u8 \<Rightarrow> u8 \<Rightarrow> u8 \<Rightarrow> u8 \<Rightarrow> bool option" where
  "ngx_str9cmp m a c0 c1 c2 c3 c4 c5 c6 c7 c8 = do {
     e \<leftarrow> ngx_str8cmp m a c0 c1 c2 c3 c4 c5 c6 c7;
     if e then map_option (\<lambda>c. c = c8) (rd m (a + 8)) else Some False }"

text \<open>
  The switch on the length of the method, one definition for each length; the methods are those
  whose names stand in the comments.
\<close>

definition method3 :: "bytes \<Rightarrow> nat \<Rightarrow> http_method \<Rightarrow> http_method option" where
  "method3 m a cur = do {
     e \<leftarrow> ngx_str4cmp m a 0x47 0x45 0x54 0x20;  \<comment> \<open>GET\<close>
     if e then Some NGX_HTTP_GET else do {
     e \<leftarrow> ngx_str4cmp m a 0x50 0x55 0x54 0x20;  \<comment> \<open>PUT\<close>
     if e then Some NGX_HTTP_PUT else Some cur }}"

definition method4 :: "bytes \<Rightarrow> nat \<Rightarrow> http_method \<Rightarrow> http_method option" where
  "method4 m a cur = do {
     c1 \<leftarrow> rd m (a + 1);
     if c1 = 0x4f then do {
       e \<leftarrow> ngx_str4cmp m a 0x50 0x4f 0x53 0x54;  \<comment> \<open>POST\<close>
       if e then Some NGX_HTTP_POST else do {
       e \<leftarrow> ngx_str4cmp m a 0x43 0x4f 0x50 0x59;  \<comment> \<open>COPY\<close>
       if e then Some NGX_HTTP_COPY else do {
       e \<leftarrow> ngx_str4cmp m a 0x4d 0x4f 0x56 0x45;  \<comment> \<open>MOVE\<close>
       if e then Some NGX_HTTP_MOVE else do {
       e \<leftarrow> ngx_str4cmp m a 0x4c 0x4f 0x43 0x4b;  \<comment> \<open>LOCK\<close>
       if e then Some NGX_HTTP_LOCK else Some cur }}}}
     else do {
       e \<leftarrow> ngx_str4cmp m a 0x48 0x45 0x41 0x44;  \<comment> \<open>HEAD\<close>
       if e then Some NGX_HTTP_HEAD else Some cur }}"

definition method5 :: "bytes \<Rightarrow> nat \<Rightarrow> http_method \<Rightarrow> http_method option" where
  "method5 m a cur = do {
     e1 \<leftarrow> ngx_str5cmp m a 0x4d 0x4b 0x43 0x4f 0x4c;  \<comment> \<open>MKCOL\<close>
     let cur = (if e1 then NGX_HTTP_MKCOL else cur);
     e2 \<leftarrow> ngx_str5cmp m a 0x50 0x41 0x54 0x43 0x48;  \<comment> \<open>PATCH\<close>
     let cur = (if e2 then NGX_HTTP_PATCH else cur);
     e3 \<leftarrow> ngx_str5cmp m a 0x54 0x52 0x41 0x43 0x45;  \<comment> \<open>TRACE\<close>
     Some (if e3 then NGX_HTTP_TRACE else cur) }"

definition method6 :: "bytes \<Rightarrow> nat \<Rightarrow> http_method \<Rightarrow> http_method option" where
  "method6 m a cur = do {
     e \<leftarrow> ngx_str6cmp m a 0x44 0x45 0x4c 0x45 0x54 0x45;  \<comment> \<open>DELETE\<close>
     if e then Some NGX_HTTP_DELETE else do {
     e \<leftarrow> ngx_str6cmp m a 0x55 0x4e 0x4c 0x4f 0x43 0x4b;  \<comment> \<open>UNLOCK\<close>
     if e then Some NGX_HTTP_UNLOCK else Some cur }}"

definition method7 :: "bytes \<Rightarrow> nat \<Rightarrow> http_method \<Rightarrow> http_method option" where
  "method7 m a cur = map_option (\<lambda>e. if e then NGX_HTTP_OPTIONS else cur)
     (ngx_str8cmp m a 0x4f 0x50 0x54 0x49 0x4f 0x4e 0x53 0x20)"

definition method8 :: "bytes \<Rightarrow> nat \<Rightarrow> http_method \<Rightarrow> http_method option" where
  "method8 m a cur = map_option (\<lambda>e. if e then NGX_HTTP_PROPFIND else cur)
     (ngx_str8cmp m a 0x50 0x52 0x4f 0x50 0x46 0x49 0x4e 0x44)"

definition method9 :: "bytes \<Rightarrow> nat \<Rightarrow> http_method \<Rightarrow> http_method option" where
  "method9 m a cur = map_option (\<lambda>e. if e then NGX_HTTP_PROPPATCH else cur)
     (ngx_str9cmp m a 0x50 0x52 0x4f 0x50 0x50 0x41 0x54 0x43 0x48)"

definition method_of_len :: "bytes \<Rightarrow> nat \<Rightarrow> nat \<Rightarrow> http_method \<Rightarrow> http_method option" where
  "method_of_len m a n cur =
     (if n = 3 then method3 m a cur
      else if n = 4 then method4 m a cur
      else if n = 5 then method5 m a cur
      else if n = 6 then method6 m a cur
      else if n = 7 then method7 m a cur
      else if n = 8 then method8 m a cur
      else if n = 9 then method9 m a cur
      else Some cur)"

section \<open>The states\<close>

text \<open>
  One definition for each \<^verbatim>\<open>case\<close>: \<open>p\<close> is the position of the byte \<open>ch\<close>.  \<open>Stop (Return rc)\<close> is a
  return out of the loop, \<open>Stop Goto_done\<close> the jump to \<^verbatim>\<open>done\<close>.
\<close>

abbreviation bad_request :: "rl_state \<Rightarrow> request_line \<Rightarrow> rl_turn" where
  "bad_request st r \<equiv> Stop (Return NGX_HTTP_PARSE_INVALID_REQUEST) (st, r)"

abbreviation lower_letter :: "u8 \<Rightarrow> bool" where
  "lower_letter ch \<equiv> 0x61 \<le> ch OR 0x20 \<and> ch OR 0x20 \<le> 0x7a"

definition on_start :: "nat \<Rightarrow> u8 \<Rightarrow> request_line \<Rightarrow> rl_turn" where
  "on_start p ch r =
     (let r = r\<lparr>request_start := Some p\<rparr> in
      if ch = CR \<or> ch = LF then Cont (rl_start, r)
      else if (ch < 0x41 \<or> ch > 0x5a) \<and> ch \<noteq> 0x5f then
        Stop (Return NGX_HTTP_PARSE_INVALID_METHOD) (rl_start, r)
      else Cont (rl_method, r))"

definition on_method :: "bytes \<Rightarrow> nat \<Rightarrow> u8 \<Rightarrow> request_line \<Rightarrow> rl_turn option" where
  "on_method m p ch r =
     (if ch = 0x20 then do {
        a \<leftarrow> request_start r;
        me \<leftarrow> method_of_len m a (p - a) (meth r);
        Some (Cont (rl_spaces_before_uri, r\<lparr>method_end := Some (p - 1), meth := me\<rparr>)) }
      else if (ch < 0x41 \<or> ch > 0x5a) \<and> ch \<noteq> 0x5f then
        Some (Stop (Return NGX_HTTP_PARSE_INVALID_METHOD) (rl_method, r))
      else Some (Cont (rl_method, r)))"

definition on_spaces_before_uri :: "nat \<Rightarrow> u8 \<Rightarrow> request_line \<Rightarrow> rl_turn" where
  "on_spaces_before_uri p ch r =
     (if ch = 0x2f then Cont (rl_after_slash_in_uri, r\<lparr>uri_start := Some p\<rparr>)
      else if lower_letter ch then Cont (rl_schema, r\<lparr>schema_start := Some p\<rparr>)
      else if ch = 0x20 then Cont (rl_spaces_before_uri, r)
      else bad_request rl_spaces_before_uri r)"

definition on_schema :: "nat \<Rightarrow> u8 \<Rightarrow> request_line \<Rightarrow> rl_turn" where
  "on_schema p ch r =
     (if lower_letter ch then Cont (rl_schema, r)
      else if ch = 0x3a then Cont (rl_schema_slash, r\<lparr>schema_end := Some p\<rparr>)
      else bad_request rl_schema r)"

definition on_schema_slash :: "u8 \<Rightarrow> request_line \<Rightarrow> rl_turn" where
  "on_schema_slash ch r =
     (if ch = 0x2f then Cont (rl_schema_slash_slash, r) else bad_request rl_schema_slash r)"

definition on_schema_slash_slash :: "nat \<Rightarrow> u8 \<Rightarrow> request_line \<Rightarrow> rl_turn" where
  "on_schema_slash_slash p ch r =
     (if ch = 0x2f then Cont (rl_host, r\<lparr>host_start := Some (p + 1)\<rparr>)
      else bad_request rl_schema_slash_slash r)"

text \<open>The URI of a request line \<^verbatim>\<open>GET http://host HTTP/1.0\<close> is the first slash after the schema.\<close>

definition slash_of_schema :: "request_line \<Rightarrow> request_line" where
  "slash_of_schema r = r\<lparr>uri_start := map_option (\<lambda>e. e + 1) (schema_end r),
                        uri_end := map_option (\<lambda>e. e + 2) (schema_end r)\<rparr>"

definition on_host :: "nat \<Rightarrow> u8 \<Rightarrow> request_line \<Rightarrow> rl_turn" where
  "on_host p ch r =
     (if lower_letter ch then Cont (rl_host, r)
      else if 0x30 \<le> ch \<and> ch \<le> 0x39 \<or> ch = 0x2e \<or> ch = 0x2d then Cont (rl_host, r)
      else
        let r = r\<lparr>host_end := Some p\<rparr> in
        if ch = 0x3a then Cont (rl_port, r)
        else if ch = 0x2f then Cont (rl_after_slash_in_uri, r\<lparr>uri_start := Some p\<rparr>)
        else if ch = 0x20 then Cont (rl_host_http_09, slash_of_schema r)
        else bad_request rl_host r)"

definition on_port :: "nat \<Rightarrow> u8 \<Rightarrow> request_line \<Rightarrow> rl_turn" where
  "on_port p ch r =
     (if 0x30 \<le> ch \<and> ch \<le> 0x39 then Cont (rl_port, r)
      else if ch = 0x2f then Cont (rl_after_slash_in_uri, r\<lparr>port_end := Some p, uri_start := Some p\<rparr>)
      else if ch = 0x20 then Cont (rl_host_http_09, slash_of_schema (r\<lparr>port_end := Some p\<rparr>))
      else bad_request rl_port r)"

definition on_host_http_09 :: "nat \<Rightarrow> u8 \<Rightarrow> request_line \<Rightarrow> rl_turn" where
  "on_host_http_09 p ch r =
     (if ch = 0x20 then Cont (rl_host_http_09, r)
      else if ch = CR then Cont (rl_almost_done, r\<lparr>http_minor := 9\<rparr>)
      else if ch = LF then Stop Goto_done (rl_host_http_09, r\<lparr>http_minor := 9\<rparr>)
      else if ch = 0x48 then Cont (rl_http_H, r\<lparr>http_protocol := Some p\<rparr>)
      else bad_request rl_host_http_09 r)"

definition on_after_slash :: "nat \<Rightarrow> u8 \<Rightarrow> request_line \<Rightarrow> rl_turn" where
  "on_after_slash p ch r =
     (if in_bitmap usual ch then Cont (rl_check_uri, r)
      else if ch = 0x20 then Cont (rl_check_uri_http_09, r\<lparr>uri_end := Some p\<rparr>)
      else if ch = CR then Cont (rl_almost_done, r\<lparr>uri_end := Some p, http_minor := 9\<rparr>)
      else if ch = LF then Stop Goto_done (rl_after_slash_in_uri, r\<lparr>uri_end := Some p, http_minor := 9\<rparr>)
      else if ch = 0x2e then Cont (rl_uri, r\<lparr>complex_uri := True\<rparr>)
      else if ch = 0x25 then Cont (rl_uri, r\<lparr>quoted_uri := True\<rparr>)
      else if ch = 0x2f then Cont (rl_uri, r\<lparr>complex_uri := True\<rparr>)
      else if ch = 0x3f then Cont (rl_uri, r\<lparr>args_start := Some (p + 1)\<rparr>)
      else if ch = 0x23 then Cont (rl_uri, r\<lparr>complex_uri := True\<rparr>)
      else if ch = 0x2b then Cont (rl_after_slash_in_uri, r\<lparr>plus_in_uri := True\<rparr>)
      else if ch = 0 then bad_request rl_after_slash_in_uri r
      else Cont (rl_check_uri, r))"

definition on_check_uri :: "nat \<Rightarrow> u8 \<Rightarrow> request_line \<Rightarrow> rl_turn" where
  "on_check_uri p ch r =
     (if in_bitmap usual ch then Cont (rl_check_uri, r)
      else if ch = 0x2f then Cont (rl_after_slash_in_uri, r\<lparr>uri_ext := None\<rparr>)
      else if ch = 0x2e then Cont (rl_check_uri, r\<lparr>uri_ext := Some (p + 1)\<rparr>)
      else if ch = 0x20 then Cont (rl_check_uri_http_09, r\<lparr>uri_end := Some p\<rparr>)
      else if ch = CR then Cont (rl_almost_done, r\<lparr>uri_end := Some p, http_minor := 9\<rparr>)
      else if ch = LF then Stop Goto_done (rl_check_uri, r\<lparr>uri_end := Some p, http_minor := 9\<rparr>)
      else if ch = 0x25 then Cont (rl_uri, r\<lparr>quoted_uri := True\<rparr>)
      else if ch = 0x3f then Cont (rl_uri, r\<lparr>args_start := Some (p + 1)\<rparr>)
      else if ch = 0x23 then Cont (rl_uri, r\<lparr>complex_uri := True\<rparr>)
      else if ch = 0x2b then Cont (rl_check_uri, r\<lparr>plus_in_uri := True\<rparr>)
      else if ch = 0 then bad_request rl_check_uri r
      else Cont (rl_check_uri, r))"

definition on_check_uri_http_09 :: "nat \<Rightarrow> u8 \<Rightarrow> request_line \<Rightarrow> rl_turn" where
  "on_check_uri_http_09 p ch r =
     (if ch = 0x20 then Cont (rl_check_uri_http_09, r)
      else if ch = CR then Cont (rl_almost_done, r\<lparr>http_minor := 9\<rparr>)
      else if ch = LF then Stop Goto_done (rl_check_uri_http_09, r\<lparr>http_minor := 9\<rparr>)
      else if ch = 0x48 then Cont (rl_http_H, r\<lparr>http_protocol := Some p\<rparr>)
      else Cont (rl_check_uri, r\<lparr>space_in_uri := True\<rparr>))"

definition on_uri :: "nat \<Rightarrow> u8 \<Rightarrow> request_line \<Rightarrow> rl_turn" where
  "on_uri p ch r =
     (if in_bitmap usual ch then Cont (rl_uri, r)
      else if ch = 0x20 then Cont (rl_http_09, r\<lparr>uri_end := Some p\<rparr>)
      else if ch = CR then Cont (rl_almost_done, r\<lparr>uri_end := Some p, http_minor := 9\<rparr>)
      else if ch = LF then Stop Goto_done (rl_uri, r\<lparr>uri_end := Some p, http_minor := 9\<rparr>)
      else if ch = 0x23 then Cont (rl_uri, r\<lparr>complex_uri := True\<rparr>)
      else if ch = 0 then bad_request rl_uri r
      else Cont (rl_uri, r))"

definition on_http_09 :: "nat \<Rightarrow> u8 \<Rightarrow> request_line \<Rightarrow> rl_turn" where
  "on_http_09 p ch r =
     (if ch = 0x20 then Cont (rl_http_09, r)
      else if ch = CR then Cont (rl_almost_done, r\<lparr>http_minor := 9\<rparr>)
      else if ch = LF then Stop Goto_done (rl_http_09, r\<lparr>http_minor := 9\<rparr>)
      else if ch = 0x48 then Cont (rl_http_H, r\<lparr>http_protocol := Some p\<rparr>)
      else Cont (rl_uri, r\<lparr>space_in_uri := True\<rparr>))"

text \<open>The letters of \<^verbatim>\<open>HTTP/\<close> after the first.\<close>

definition on_http_H :: "u8 \<Rightarrow> request_line \<Rightarrow> rl_turn" where
  "on_http_H ch r = (if ch = 0x54 then Cont (rl_http_HT, r) else bad_request rl_http_H r)"

definition on_http_HT :: "u8 \<Rightarrow> request_line \<Rightarrow> rl_turn" where
  "on_http_HT ch r = (if ch = 0x54 then Cont (rl_http_HTT, r) else bad_request rl_http_HT r)"

definition on_http_HTT :: "u8 \<Rightarrow> request_line \<Rightarrow> rl_turn" where
  "on_http_HTT ch r = (if ch = 0x50 then Cont (rl_http_HTTP, r) else bad_request rl_http_HTT r)"

definition on_http_HTTP :: "u8 \<Rightarrow> request_line \<Rightarrow> rl_turn" where
  "on_http_HTTP ch r = (if ch = 0x2f then Cont (rl_first_major_digit, r) else bad_request rl_http_HTTP r)"

definition on_first_major_digit :: "u8 \<Rightarrow> request_line \<Rightarrow> rl_turn" where
  "on_first_major_digit ch r =
     (if ch < 0x31 \<or> ch > 0x39 then bad_request rl_first_major_digit r
      else Cont (rl_major_digit, r\<lparr>http_major := ucast (ch - 0x30)\<rparr>))"

definition on_major_digit :: "u8 \<Rightarrow> request_line \<Rightarrow> rl_turn" where
  "on_major_digit ch r =
     (if ch = 0x2e then Cont (rl_first_minor_digit, r)
      else if ch < 0x30 \<or> ch > 0x39 then bad_request rl_major_digit r
      else Cont (rl_major_digit, r\<lparr>http_major := http_major r * 10 + ucast ch - 0x30\<rparr>))"

definition on_first_minor_digit :: "u8 \<Rightarrow> request_line \<Rightarrow> rl_turn" where
  "on_first_minor_digit ch r =
     (if ch < 0x30 \<or> ch > 0x39 then bad_request rl_first_minor_digit r
      else Cont (rl_minor_digit, r\<lparr>http_minor := ucast (ch - 0x30)\<rparr>))"

definition on_minor_digit :: "u8 \<Rightarrow> request_line \<Rightarrow> rl_turn" where
  "on_minor_digit ch r =
     (if ch = CR then Cont (rl_almost_done, r)
      else if ch = LF then Stop Goto_done (rl_minor_digit, r)
      else if ch = 0x20 then Cont (rl_spaces_after_digit, r)
      else if ch < 0x30 \<or> ch > 0x39 then bad_request rl_minor_digit r
      else Cont (rl_minor_digit, r\<lparr>http_minor := http_minor r * 10 + ucast ch - 0x30\<rparr>))"

definition on_spaces_after_digit :: "u8 \<Rightarrow> request_line \<Rightarrow> rl_turn" where
  "on_spaces_after_digit ch r =
     (if ch = 0x20 then Cont (rl_spaces_after_digit, r)
      else if ch = CR then Cont (rl_almost_done, r)
      else if ch = LF then Stop Goto_done (rl_spaces_after_digit, r)
      else bad_request rl_spaces_after_digit r)"

definition on_almost_done :: "nat \<Rightarrow> u8 \<Rightarrow> request_line \<Rightarrow> rl_turn" where
  "on_almost_done p ch r =
     (let r = r\<lparr>request_end := Some (p - 1)\<rparr> in
      if ch = LF then Stop Goto_done (rl_almost_done, r) else bad_request rl_almost_done r)"

section \<open>The function\<close>

fun rl_step :: "bytes \<Rightarrow> nat \<Rightarrow> u8 \<Rightarrow> rl_state \<times> request_line \<Rightarrow> rl_turn option" where
  "rl_step m p ch (rl_start, r) = Some (on_start p ch r)"
| "rl_step m p ch (rl_method, r) = on_method m p ch r"
| "rl_step m p ch (rl_spaces_before_uri, r) = Some (on_spaces_before_uri p ch r)"
| "rl_step m p ch (rl_schema, r) = Some (on_schema p ch r)"
| "rl_step m p ch (rl_schema_slash, r) = Some (on_schema_slash ch r)"
| "rl_step m p ch (rl_schema_slash_slash, r) = Some (on_schema_slash_slash p ch r)"
| "rl_step m p ch (rl_host, r) = Some (on_host p ch r)"
| "rl_step m p ch (rl_port, r) = Some (on_port p ch r)"
| "rl_step m p ch (rl_host_http_09, r) = Some (on_host_http_09 p ch r)"
| "rl_step m p ch (rl_after_slash_in_uri, r) = Some (on_after_slash p ch r)"
| "rl_step m p ch (rl_check_uri, r) = Some (on_check_uri p ch r)"
| "rl_step m p ch (rl_check_uri_http_09, r) = Some (on_check_uri_http_09 p ch r)"
| "rl_step m p ch (rl_uri, r) = Some (on_uri p ch r)"
| "rl_step m p ch (rl_http_09, r) = Some (on_http_09 p ch r)"
| "rl_step m p ch (rl_http_H, r) = Some (on_http_H ch r)"
| "rl_step m p ch (rl_http_HT, r) = Some (on_http_HT ch r)"
| "rl_step m p ch (rl_http_HTT, r) = Some (on_http_HTT ch r)"
| "rl_step m p ch (rl_http_HTTP, r) = Some (on_http_HTTP ch r)"
| "rl_step m p ch (rl_first_major_digit, r) = Some (on_first_major_digit ch r)"
| "rl_step m p ch (rl_major_digit, r) = Some (on_major_digit ch r)"
| "rl_step m p ch (rl_first_minor_digit, r) = Some (on_first_minor_digit ch r)"
| "rl_step m p ch (rl_minor_digit, r) = Some (on_minor_digit ch r)"
| "rl_step m p ch (rl_spaces_after_digit, r) = Some (on_spaces_after_digit ch r)"
| "rl_step m p ch (rl_almost_done, r) = Some (on_almost_done p ch r)"

text \<open>The label \<^verbatim>\<open>done\<close>, and a return out of the loop: \<^verbatim>\<open>r->state\<close> stays as it was on entry.\<close>

definition rl_left :: "rl_state \<times> request_line \<Rightarrow> rl_state \<times> request_line \<Rightarrow> rl_state \<times> request_line" where
  "rl_left s0 s = (fst s0, snd s)"

definition rl_done ::
  "nat \<Rightarrow> parse_exit \<Rightarrow> rl_state \<times> request_line \<Rightarrow> rl_state \<times> request_line \<Rightarrow> parse_rc \<times> (rl_state \<times> request_line) \<times> nat"
where
  "rl_done p e s0 s =
     (let r = snd s;
          r = (if request_end r = None then r\<lparr>request_end := Some p\<rparr> else r);
          r = r\<lparr>http_version := ucast (http_major r) * 1000 + ucast (http_minor r)\<rparr>
      in (if http_version r = 9 \<and> meth r \<noteq> NGX_HTTP_GET then NGX_HTTP_PARSE_INVALID_09_METHOD
          else Rc NGX_OK, (rl_start, r), p + 1))"

text \<open>
  The function on the bytes from \<open>pos\<close> to \<open>last\<close>: the return code, \<^verbatim>\<open>r->state\<close> and the request, and
  the new \<^verbatim>\<open>b->pos\<close>; \<open>None\<close> when it reads outside the memory \<open>m\<close> of the buffer.
\<close>

definition ngx_http_parse_request_line ::
  "bytes \<Rightarrow> nat \<Rightarrow> nat \<Rightarrow> rl_state \<times> request_line \<Rightarrow>
   (parse_rc \<times> (rl_state \<times> request_line) \<times> nat) option" where
  "ngx_http_parse_request_line m pos lst s = incremental rl_step rl_left rl_done m pos lst s"

text \<open>The request before the first byte, as \<^verbatim>\<open>ngx_http_init_request\<close> leaves it.\<close>

definition request_line_init :: request_line where
  "request_line_init =
     \<lparr>request_start = None, request_end = None, meth = NGX_HTTP_UNKNOWN,
      method_end = None, schema_start = None, schema_end = None, host_start = None, host_end = None,
      port_end = None, uri_start = None, uri_end = None, uri_ext = None, args_start = None,
      http_protocol = None, http_major = 0, http_minor = 0, http_version = 0, complex_uri = False,
      quoted_uri = False, plus_in_uri = False, space_in_uri = False\<rparr>"

section \<open>The comparisons byte by byte\<close>

lemmas rl_defs =
  on_start_def on_spaces_before_uri_def on_schema_def on_schema_slash_def
  on_schema_slash_slash_def on_host_def on_port_def on_host_http_09_def on_after_slash_def
  on_check_uri_def on_check_uri_http_09_def on_uri_def on_http_09_def on_http_H_def on_http_HT_def
  on_http_HTT_def on_http_HTTP_def on_first_major_digit_def on_major_digit_def
  on_first_minor_digit_def on_minor_digit_def on_spaces_after_digit_def on_almost_done_def

lemma bit_byte_at: "k \<le> 24 \<Longrightarrow> bit (push_bit k (ucast (c :: u8) :: u32)) n \<longleftrightarrow> k \<le> n \<and> bit c (n - k)"
  using u8_bit_out [of "n - k" c] by (cases "n < 32") (auto simp: bit_simps)

lemma bit_pack4:
  "bit (pack4 c0 c1 c2 c3) n \<longleftrightarrow>
     (if n < 8 then bit c0 n else if n < 16 then bit c1 (n - 8)
      else if n < 24 then bit c2 (n - 16) else bit c3 (n - 24))"
proof -
  have "bit (pack4 c0 c1 c2 c3) n \<longleftrightarrow>
      24 \<le> n \<and> bit c3 (n - 24) \<or> 16 \<le> n \<and> bit c2 (n - 16) \<or> 8 \<le> n \<and> bit c1 (n - 8) \<or> bit c0 n"
    using bit_byte_at [of 0 c0 n] by (simp add: pack4_def bit_or_iff bit_byte_at disj_assoc)
  moreover have "8 \<le> n \<Longrightarrow> \<not> bit c0 n" "16 \<le> n \<Longrightarrow> \<not> bit c1 (n - 8)" "24 \<le> n \<Longrightarrow> \<not> bit c2 (n - 16)"
    by (simp_all add: u8_bit_out)
  ultimately show ?thesis
    by (cases "n < 8"; cases "n < 16"; cases "n < 24") (simp_all add: not_less)
qed

lemma pack4_eq: "pack4 c0 c1 c2 c3 = pack4 d0 d1 d2 d3 \<longleftrightarrow> c0 = d0 \<and> c1 = d1 \<and> c2 = d2 \<and> c3 = d3"
proof
  assume e: "pack4 c0 c1 c2 c3 = pack4 d0 d1 d2 d3"
  have b: "bit (pack4 c0 c1 c2 c3) n = bit (pack4 d0 d1 d2 d3) n" for n
    by (simp only: e)
  have "bit c0 n = bit d0 n" "bit c1 n = bit d1 n" "bit c2 n = bit d2 n" "bit c3 n = bit d3 n" if "n < 8" for n
    using that b [of n] b [of "n + 8"] b [of "n + 16"] b [of "n + 24"] by (simp_all add: bit_pack4)
  then show "c0 = d0 \<and> c1 = d1 \<and> c2 = d2 \<and> c3 = d3"
    by (auto intro!: bit_word_eqI)
qed simp

lemma pack4_mask: "pack4 c0 c1 c2 c3 AND 0xffff = pack4 c0 c1 0 0"
proof (rule bit_word_eqI)
  fix n :: nat assume "n < LENGTH(32)"
  have m: "(0xffff :: u32) = mask 16" by (simp add: mask_eq_exp_minus_1)
  show "bit (pack4 c0 c1 c2 c3 AND 0xffff) n = bit (pack4 c0 c1 0 0) n"
    unfolding m bit_and_iff bit_mask_iff bit_pack4 using \<open>n < LENGTH(32)\<close> by auto
qed

lemma pack4_low: "push_bit 8 (ucast (c1 :: u8)) OR ucast c0 = pack4 c0 c1 0 0"
  by (simp add: pack4_def)

lemma str4cmp_eq:
  "ngx_str4cmp m a c0 c1 c2 c3 =
     (if a + 3 < length m
      then Some (m ! a = c0 \<and> m ! (a + 1) = c1 \<and> m ! (a + 2) = c2 \<and> m ! (a + 3) = c3) else None)"
  by (simp add: ngx_str4cmp_def ld32_def pack4_eq)

lemma str6cmp_eq:
  "ngx_str6cmp m a c0 c1 c2 c3 c4 c5 = do {
     e \<leftarrow> ngx_str4cmp m a c0 c1 c2 c3;
     if e then (if a + 7 < length m then Some (m ! (a + 4) = c4 \<and> m ! (a + 5) = c5) else None) else Some False }"
  by (simp add: ngx_str6cmp_def ld32_def pack4_low pack4_mask pack4_eq add.assoc cong: if_cong) (simp add: add.commute cong: if_cong)

lemmas method_defs =
  method3_def method4_def method5_def method6_def method7_def method8_def method9_def

lemma strcmp_local:
  assumes len: "length m = length m'" and eq: "\<And>i. i \<le> p \<Longrightarrow> m ! i = m' ! i"
  shows "i \<le> p \<Longrightarrow> rd m i = rd m' i"
    and "a + 3 \<le> p \<Longrightarrow> ngx_str4cmp m a c0 c1 c2 c3 = ngx_str4cmp m' a c0 c1 c2 c3"
    and "a + 4 \<le> p \<Longrightarrow> ngx_str5cmp m a c0 c1 c2 c3 c4 = ngx_str5cmp m' a c0 c1 c2 c3 c4"
    and "a + 5 \<le> p \<Longrightarrow> ngx_str6cmp m a c0 c1 c2 c3 c4 c5 = ngx_str6cmp m' a c0 c1 c2 c3 c4 c5"
    and "a + 7 \<le> p \<Longrightarrow> ngx_str8cmp m a c0 c1 c2 c3 c4 c5 c6 c7 = ngx_str8cmp m' a c0 c1 c2 c3 c4 c5 c6 c7"
    and "a + 8 \<le> p \<Longrightarrow> ngx_str9cmp m a c0 c1 c2 c3 c4 c5 c6 c7 c8 = ngx_str9cmp m' a c0 c1 c2 c3 c4 c5 c6 c7 c8"
proof -
  show r: "i \<le> p \<Longrightarrow> rd m i = rd m' i" for i
    by (simp add: rd_def len eq)
  have 4: "ngx_str4cmp m a c0 c1 c2 c3 = ngx_str4cmp m' a c0 c1 c2 c3" if "a + 3 \<le> p" for a c0 c1 c2 c3
    using that by (simp add: str4cmp_eq len eq)
  then show "a + 3 \<le> p \<Longrightarrow> ngx_str4cmp m a c0 c1 c2 c3 = ngx_str4cmp m' a c0 c1 c2 c3" .
  show "a + 4 \<le> p \<Longrightarrow> ngx_str5cmp m a c0 c1 c2 c3 c4 = ngx_str5cmp m' a c0 c1 c2 c3 c4"
    using 4 [of a] r [of "a + 4"] by (simp add: ngx_str5cmp_def cong: if_cong)
  show "a + 5 \<le> p \<Longrightarrow> ngx_str6cmp m a c0 c1 c2 c3 c4 c5 = ngx_str6cmp m' a c0 c1 c2 c3 c4 c5"
    using 4 [of a] eq [of "a + 4"] eq [of "a + 5"] by (simp add: str6cmp_eq len cong: if_cong)
  show 8: "ngx_str8cmp m a c0 c1 c2 c3 c4 c5 c6 c7 = ngx_str8cmp m' a c0 c1 c2 c3 c4 c5 c6 c7"
    if "a + 7 \<le> p" for a c0 c1 c2 c3 c4 c5 c6 c7
    using that 4 [of a] 4 [of "a + 4"] by (simp add: ngx_str8cmp_def cong: if_cong)
  show "a + 8 \<le> p \<Longrightarrow> ngx_str9cmp m a c0 c1 c2 c3 c4 c5 c6 c7 c8 = ngx_str9cmp m' a c0 c1 c2 c3 c4 c5 c6 c7 c8"
    using 8 [of a] r [of "a + 8"] by (simp add: ngx_str9cmp_def cong: if_cong)
qed

lemma method_of_len_local:
  assumes len: "length m = length m'" and eq: "\<And>i. i \<le> p \<Longrightarrow> m ! i = m' ! i" and n: "n = p - a"
  shows "method_of_len m a n cur = method_of_len m' a n cur"
proof -
  note l = strcmp_local [OF len eq]
  have a: "p = a + n" if "0 < n" using that n by simp
  have "n = 3 \<Longrightarrow> method3 m a cur = method3 m' a cur"
    using a by (simp add: method_defs l cong: if_cong)
  moreover have "n = 4 \<Longrightarrow> method4 m a cur = method4 m' a cur"
    using a by (simp add: method_defs l cong: if_cong)
  moreover have "n = 5 \<Longrightarrow> method5 m a cur = method5 m' a cur"
    using a by (simp add: method_defs l cong: if_cong)
  moreover have "n = 6 \<Longrightarrow> method6 m a cur = method6 m' a cur"
    using a by (simp add: method_defs l cong: if_cong)
  moreover have "n = 7 \<Longrightarrow> method7 m a cur = method7 m' a cur"
    using a by (simp add: method_defs l cong: if_cong)
  moreover have "n = 8 \<Longrightarrow> method8 m a cur = method8 m' a cur"
    using a by (simp add: method_defs l cong: if_cong)
  moreover have "n = 9 \<Longrightarrow> method9 m a cur = method9 m' a cur"
    using a by (simp add: method_defs l cong: if_cong)
  ultimately show ?thesis
    by (simp add: method_of_len_def)
qed

lemma strcmp_no_fault:
  "a + 3 < length m \<Longrightarrow> \<exists>e. ngx_str4cmp m a c0 c1 c2 c3 = Some e"
  "a + 4 < length m \<Longrightarrow> \<exists>e. ngx_str5cmp m a c0 c1 c2 c3 c4 = Some e"
  "a + 7 < length m \<Longrightarrow> \<exists>e. ngx_str6cmp m a c0 c1 c2 c3 c4 c5 = Some e"
  "a + 7 < length m \<Longrightarrow> \<exists>e. ngx_str8cmp m a c0 c1 c2 c3 c4 c5 c6 c7 = Some e"
  "a + 8 < length m \<Longrightarrow> \<exists>e. ngx_str9cmp m a c0 c1 c2 c3 c4 c5 c6 c7 c8 = Some e"
  by (simp_all add: str4cmp_eq ngx_str5cmp_def str6cmp_eq ngx_str8cmp_def ngx_str9cmp_def) blast+

lemma method_of_len_no_fault:
  assumes "a + n + 1 < length m"
  shows "method_of_len m a n cur \<noteq> None"
proof -
  have f: "\<exists>e. ngx_str4cmp m a c0 c1 c2 c3 = Some e" if "3 \<le> n" for c0 c1 c2 c3
    using that assms by (intro strcmp_no_fault) simp
  have f5: "\<exists>e. ngx_str5cmp m a c0 c1 c2 c3 c4 = Some e" if "4 \<le> n" for c0 c1 c2 c3 c4
    using that assms by (intro strcmp_no_fault) simp
  have f6: "\<exists>e. ngx_str6cmp m a c0 c1 c2 c3 c4 c5 = Some e" if "6 \<le> n" for c0 c1 c2 c3 c4 c5
    using that assms by (intro strcmp_no_fault) simp
  have f8: "\<exists>e. ngx_str8cmp m a c0 c1 c2 c3 c4 c5 c6 c7 = Some e" if "7 \<le> n" for c0 c1 c2 c3 c4 c5 c6 c7
    using that assms by (intro strcmp_no_fault) simp
  have f9: "\<exists>e. ngx_str9cmp m a c0 c1 c2 c3 c4 c5 c6 c7 c8 = Some e" if "8 \<le> n" for c0 c1 c2 c3 c4 c5 c6 c7 c8
    using that assms by (intro strcmp_no_fault) simp
  have "n = 3 \<Longrightarrow> \<exists>x. method3 m a cur = Some x"
    using f [of "0x47" "0x45" "0x54" "0x20"] f [of "0x50" "0x55" "0x54" "0x20"] by (auto simp: method_defs)
  moreover have "n = 4 \<Longrightarrow> \<exists>x. method4 m a cur = Some x"
    using f [of "0x50" "0x4f" "0x53" "0x54"] f [of "0x43" "0x4f" "0x50" "0x59"] f [of "0x4d" "0x4f" "0x56" "0x45"]
      f [of "0x4c" "0x4f" "0x43" "0x4b"] f [of "0x48" "0x45" "0x41" "0x44"] assms by (auto simp: method_defs)
  moreover have "n = 5 \<Longrightarrow> \<exists>x. method5 m a cur = Some x"
    using f5 [of "0x4d" "0x4b" "0x43" "0x4f" "0x4c"] f5 [of "0x50" "0x41" "0x54" "0x43" "0x48"] f5 [of "0x54" "0x52" "0x41" "0x43" "0x45"]
    by (auto simp: method_defs)
  moreover have "n = 6 \<Longrightarrow> \<exists>x. method6 m a cur = Some x"
    using f6 [of "0x44" "0x45" "0x4c" "0x45" "0x54" "0x45"] f6 [of "0x55" "0x4e" "0x4c" "0x4f" "0x43" "0x4b"]
    by (auto simp: method_defs)
  moreover have "n = 7 \<Longrightarrow> \<exists>x. method7 m a cur = Some x" "n = 8 \<Longrightarrow> \<exists>x. method8 m a cur = Some x"
    "n = 9 \<Longrightarrow> \<exists>x. method9 m a cur = Some x"
    using f8 f9 by (simp_all add: method_defs)
  ultimately show ?thesis
    by (auto simp: method_of_len_def)
qed

lemma nth_eq_of_take: "take n m = take n m' \<Longrightarrow> i < n \<Longrightarrow> m ! i = m' ! i"
  by (metis nth_take)

section \<open>Resuming\<close>

lemma rl_step_local:
  assumes "length m = length m'" and "take (Suc p) m = take (Suc p) m'"
  shows "rl_step m p ch s = rl_step m' p ch s"
proof -
  obtain st r where s: "s = (st, r)" by (cases s)
  have "method_of_len m a (p - a) cur = method_of_len m' a (p - a) cur" for a cur
    using assms by (intro method_of_len_local [where p = p]) (auto intro: nth_eq_of_take)
  then have "on_method m p ch r = on_method m' p ch r"
    by (simp add: on_method_def)
  then show ?thesis
    unfolding s by (cases st) simp_all
qed

lemma rl_step_return:
  "rl_step m p ch s = Some (Stop (Return rc) s') \<Longrightarrow>
   rc = NGX_HTTP_PARSE_INVALID_METHOD \<or> rc = NGX_HTTP_PARSE_INVALID_REQUEST"
  by (cases "(m, p, ch, s)" rule: rl_step.cases)
    (auto simp: rl_defs on_method_def bind_eq_Some_conv Let_def split: if_splits)

text \<open>A result with the state and the position that the call from \<open>s\<close> and \<open>pos\<close> would have left: only an
  invalid method or request leaves those of the entry.\<close>

definition rl_entered_at ::
  "rl_state \<times> request_line \<Rightarrow> nat \<Rightarrow> parse_rc \<times> (rl_state \<times> request_line) \<times> nat \<Rightarrow>
   parse_rc \<times> (rl_state \<times> request_line) \<times> nat" where
  "rl_entered_at s pos x =
     (if fst x = NGX_HTTP_PARSE_INVALID_METHOD \<or> fst x = NGX_HTTP_PARSE_INVALID_REQUEST
      then (fst x, (fst s, snd (fst (snd x))), pos) else x)"

interpretation rl: incremental_parser rl_step rl_left rl_done rl_entered_at
proof
  show "rl_step m p ch s = Some (Stop (Return rc) s') \<Longrightarrow> rc \<notin> success_codes" for m p ch s rc s'
    by (auto simp: success_codes_def dest: rl_step_return)
  show "rl_step m p ch s = Some (Stop (Return rc) s') \<Longrightarrow>
      rl_entered_at s1 pos (rc, rl_left s2 s', q) = (rc, rl_left s1 s', pos)" for m p ch s rc s' s1 s2 pos q
    by (auto simp: rl_entered_at_def rl_left_def dest: rl_step_return)
  show "rl_entered_at s1 pos (rl_done p e s2 s') = rl_done p e s1 s'" for s1 s2 s' pos p e
    by (simp add: rl_entered_at_def rl_done_def Let_def)
qed (auto simp: rl_entered_at_def rl_done_def Let_def intro: rl_step_local)

text \<open>C1: splitting the bytes of a request line between two reads at any place changes nothing that
  \<^verbatim>\<open>ngx_http_parse_request_line\<close> gives, whatever the bytes after the part were in the meantime: called
  first on a part and then, after \<^verbatim>\<open>NGX_AGAIN\<close>, on the rest, it returns the code and leaves the state, every field
  and the position of one call on all the bytes, exactly; with one exception: when the method or the
  request is invalid, the position and \<^verbatim>\<open>r->state\<close> stay as the failing call found them, so they are those of
  the second call and not of the one call (the code and all other fields are the same).\<close>

theorem request_line_resume:
  assumes "pos \<le> l1" and "l1 \<le> l2" and "length m1 = length m" and "take l1 m1 = take l1 m"
  shows "ngx_http_parse_request_line m pos l2 s =
     (case ngx_http_parse_request_line m1 pos l1 s of
        Some (Rc NGX_AGAIN, s', pos') \<Rightarrow>
          map_option (rl_entered_at s pos) (ngx_http_parse_request_line m pos' l2 s')
      | x \<Rightarrow> x)"
  unfolding ngx_http_parse_request_line_def using assms by (rule rl.resume)

section \<open>What an accepted request line promises\<close>

text \<open>
  \<^verbatim>\<open>ngx_http_process_request_line\<close> takes the bytes from \<^verbatim>\<open>uri_start\<close> to the arguments for the
  decoded path when neither \<^verbatim>\<open>complex_uri\<close> nor \<^verbatim>\<open>quoted_uri\<close> is set.  A path that needs no decoding
  has no zero byte, no \<open>#\<close> and \<open>%\<close>, and no dot or slash after a slash.
\<close>

definition plain_path :: "bytes \<Rightarrow> nat \<Rightarrow> nat \<Rightarrow> bool" where
  "plain_path m a b \<longleftrightarrow>
     (\<forall>i \<in> {a..<b}. m ! i \<notin> {0, 0x23, 0x25} \<and>
        (m ! i = 0x2f \<and> Suc i < b \<longrightarrow> m ! Suc i \<notin> {0x2e, 0x2f}))"

definition path_end :: "request_line \<Rightarrow> nat \<Rightarrow> nat" where
  "path_end r e = (case args_start r of None \<Rightarrow> e | Some q \<Rightarrow> q - 1)"

definition needs_no_decoding :: "request_line \<Rightarrow> bool" where
  "needs_no_decoding r \<longleftrightarrow> \<not> complex_uri r \<and> \<not> quoted_uri r \<and> \<not> space_in_uri r"

definition uri_found :: "bytes \<Rightarrow> nat \<Rightarrow> request_line \<Rightarrow> bool" where
  "uri_found m p r \<longleftrightarrow>
     (\<exists>a e. uri_start r = Some a \<and> uri_end r = Some e \<and> a < path_end r e \<and> path_end r e \<le> e \<and> e \<le> p \<and>
        (needs_no_decoding r \<longrightarrow> m ! a = 0x2f \<and> plain_path m a (path_end r e)))"

text \<open>The states before the URI, with what they know of the schema.\<close>

fun schema_inv :: "bytes \<Rightarrow> nat \<Rightarrow> rl_state \<Rightarrow> request_line \<Rightarrow> bool" where
  "schema_inv m p rl_schema_slash r \<longleftrightarrow> (\<exists>e. schema_end r = Some e \<and> p = e + 1)"
| "schema_inv m p rl_schema_slash_slash r \<longleftrightarrow> (\<exists>e. schema_end r = Some e \<and> p = e + 2 \<and> m ! (e + 1) = 0x2f)"
| "schema_inv m p rl_host r \<longleftrightarrow> (\<exists>e. schema_end r = Some e \<and> e + 2 \<le> p \<and> m ! (e + 1) = 0x2f)"
| "schema_inv m p rl_port r \<longleftrightarrow> (\<exists>e. schema_end r = Some e \<and> e + 2 \<le> p \<and> m ! (e + 1) = 0x2f)"
| "schema_inv m p _ r \<longleftrightarrow> True"

definition before_uri :: "rl_state \<Rightarrow> bool" where
  "before_uri st \<longleftrightarrow> st \<in> {rl_start, rl_method, rl_spaces_before_uri, rl_schema, rl_schema_slash,
     rl_schema_slash_slash, rl_host, rl_port}"

fun uri_inv :: "bytes \<Rightarrow> nat \<Rightarrow> rl_state \<Rightarrow> request_line \<Rightarrow> bool" where
  "uri_inv m p rl_after_slash_in_uri r \<longleftrightarrow>
     (\<exists>a. uri_start r = Some a \<and> a < p \<and> args_start r = None \<and>
        (needs_no_decoding r \<longrightarrow> m ! a = 0x2f \<and> plain_path m a p))"
| "uri_inv m p rl_check_uri r \<longleftrightarrow>
     (\<exists>a. uri_start r = Some a \<and> a < p \<and> args_start r = None \<and>
        (needs_no_decoding r \<longrightarrow> m ! a = 0x2f \<and> plain_path m a p \<and> m ! (p - 1) \<noteq> 0x2f))"
| "uri_inv m p rl_uri r \<longleftrightarrow>
     (\<exists>a. uri_start r = Some a \<and> a < path_end r p \<and> path_end r p \<le> p \<and>
        (needs_no_decoding r \<longrightarrow> args_start r \<noteq> None \<and> m ! a = 0x2f \<and> plain_path m a (path_end r p)))"
| "uri_inv m p rl_check_uri_http_09 r \<longleftrightarrow> uri_found m p r \<and> args_start r = None"
| "uri_inv m p st r \<longleftrightarrow> (if before_uri st then args_start r = None else uri_found m p r)"

definition rl_inv :: "bytes \<Rightarrow> nat \<Rightarrow> rl_state \<times> request_line \<Rightarrow> bool" where
  "rl_inv m p s \<longleftrightarrow>
     (fst s \<noteq> rl_start \<longrightarrow> (\<exists>a. request_start (snd s) = Some a \<and> a < p)) \<and>
     schema_inv m p (fst s) (snd s) \<and> uri_inv m p (fst s) (snd s)"

definition rl_post :: "bytes \<Rightarrow> nat \<Rightarrow> parse_exit \<Rightarrow> rl_state \<times> request_line \<Rightarrow> bool" where
  "rl_post m p e s \<longleftrightarrow> ((\<forall>rc. e \<noteq> Return rc) \<longrightarrow>
     (\<exists>a. request_start (snd s) = Some a \<and> a < p) \<and> uri_found m p (snd s))"

lemma usual_not_special: "in_bitmap usual c \<Longrightarrow> c \<notin> {0, 10, 13, 0x20, 0x23, 0x25, 0x2b, 0x2e, 0x2f, 0x3f}"
  by (auto simp: in_bitmap_def usual_def)

lemma plain_path_Suc:
  "a < p \<Longrightarrow> plain_path m a (Suc p) \<longleftrightarrow>
     plain_path m a p \<and> m ! p \<notin> {0, 0x23, 0x25} \<and> (m ! (p - 1) = 0x2f \<longrightarrow> m ! p \<notin> {0x2e, 0x2f})"
proof -
  assume a: "a < p"
  let ?bad = "{0, 0x23, 0x25} :: u8 set" and ?dot = "{0x2e, 0x2f} :: u8 set"
  have "plain_path m a (Suc p) \<longleftrightarrow>
      (\<forall>i \<in> {a..<p}. m ! i \<notin> ?bad \<and> (m ! i = 0x2f \<longrightarrow> m ! Suc i \<notin> ?dot)) \<and> m ! p \<notin> ?bad"
    using a unfolding plain_path_def by (simp add: atLeastLessThanSuc) (auto simp: less_Suc_eq)
  also have "(\<forall>i \<in> {a..<p}. m ! i \<notin> ?bad \<and> (m ! i = 0x2f \<longrightarrow> m ! Suc i \<notin> ?dot)) \<longleftrightarrow>
      plain_path m a p \<and> (m ! (p - 1) = 0x2f \<longrightarrow> m ! p \<notin> ?dot)"
  proof -
    have "Suc i < p \<or> i = p - 1" if "i < p" for i using that by linarith
    moreover have "p - 1 \<in> {a..<p}" and "Suc (p - 1) = p" using a by auto
    ultimately show ?thesis
      unfolding plain_path_def by (metis atLeastLessThan_iff)
  qed
  finally show ?thesis by blast
qed

lemma plain_path_single: "plain_path m a (Suc a) \<longleftrightarrow> m ! a \<notin> {0, 0x23, 0x25}"
  by (auto simp: plain_path_def)


lemma rl_inv_local:
  assumes "take p m = take p m'" and "rl_inv m p s"
  shows "rl_inv m' p s"
proof -
  obtain st r where s: "s = (st, r)" by (cases s)
  have nth: "i < p \<Longrightarrow> m ! i = m' ! i" for i
    using assms(1) by (rule nth_eq_of_take)
  have pp: "plain_path m a b \<Longrightarrow> plain_path m' a b" if "b \<le> p" for a b
    using that nth unfolding plain_path_def by auto
  have "schema_inv m' p st r"
    using assms(2) nth unfolding rl_inv_def s by (cases st) auto
  moreover have "uri_found m p r \<Longrightarrow> uri_found m' p r"
    unfolding uri_found_def using nth pp by fastforce
  then have "uri_inv m' p st r"
    using assms(2) nth pp unfolding rl_inv_def s by (cases st) auto
  ultimately show ?thesis
    using assms(2) by (simp add: rl_inv_def s)
qed


lemma path_end_simps [simp]:
  "args_start r = None \<Longrightarrow> path_end r e = e"
  "args_start r = Some q \<Longrightarrow> path_end r e = q - 1"
  by (simp_all add: path_end_def)

definition rl_ok :: "bytes \<Rightarrow> nat \<Rightarrow> rl_turn \<Rightarrow> bool" where
  "rl_ok m p t \<longleftrightarrow> (case t of Cont s' \<Rightarrow> rl_inv m (Suc p) s' | Stop e s' \<Rightarrow> rl_post m p e s')"

lemmas rl_ok_simps =
  rl_ok_def rl_inv_def rl_post_def uri_found_def path_end_def before_uri_def needs_no_decoding_def

lemma ok_rl_start: "rl_inv m p (rl_start, r) \<Longrightarrow> rl_ok m p (on_start p (m ! p) r)"
  by (auto simp: rl_ok_simps rl_defs plain_path_single plain_path_Suc slash_of_schema_def Let_def
      dest: usual_not_special split: if_splits)

lemma ok_rl_spaces_before_uri: "rl_inv m p (rl_spaces_before_uri, r) \<Longrightarrow> rl_ok m p (on_spaces_before_uri p (m ! p) r)"
  by (auto simp: rl_ok_simps rl_defs plain_path_single plain_path_Suc slash_of_schema_def Let_def
      dest: usual_not_special split: if_splits)

lemma ok_rl_schema: "rl_inv m p (rl_schema, r) \<Longrightarrow> rl_ok m p (on_schema p (m ! p) r)"
  by (auto simp: rl_ok_simps rl_defs plain_path_single plain_path_Suc slash_of_schema_def Let_def
      dest: usual_not_special split: if_splits)

lemma ok_rl_schema_slash: "rl_inv m p (rl_schema_slash, r) \<Longrightarrow> rl_ok m p (on_schema_slash (m ! p) r)"
  by (auto simp: rl_ok_simps rl_defs plain_path_single plain_path_Suc slash_of_schema_def Let_def
      dest: usual_not_special split: if_splits)

lemma ok_rl_schema_slash_slash: "rl_inv m p (rl_schema_slash_slash, r) \<Longrightarrow> rl_ok m p (on_schema_slash_slash p (m ! p) r)"
  by (auto simp: rl_ok_simps rl_defs plain_path_single plain_path_Suc slash_of_schema_def Let_def
      dest: usual_not_special split: if_splits)

lemma ok_rl_host: "rl_inv m p (rl_host, r) \<Longrightarrow> rl_ok m p (on_host p (m ! p) r)"
  by (auto simp: rl_ok_simps rl_defs plain_path_single plain_path_Suc slash_of_schema_def Let_def
      dest: usual_not_special split: if_splits)

lemma ok_rl_port: "rl_inv m p (rl_port, r) \<Longrightarrow> rl_ok m p (on_port p (m ! p) r)"
  by (auto simp: rl_ok_simps rl_defs plain_path_single plain_path_Suc slash_of_schema_def Let_def
      dest: usual_not_special split: if_splits)

lemma ok_rl_host_http_09: "rl_inv m p (rl_host_http_09, r) \<Longrightarrow> rl_ok m p (on_host_http_09 p (m ! p) r)"
  by (auto simp: rl_ok_simps rl_defs plain_path_single plain_path_Suc slash_of_schema_def Let_def
      dest: usual_not_special split: if_splits)

lemma ok_rl_after_slash_in_uri: "rl_inv m p (rl_after_slash_in_uri, r) \<Longrightarrow> rl_ok m p (on_after_slash p (m ! p) r)"
  by (auto simp: rl_ok_simps rl_defs plain_path_single plain_path_Suc slash_of_schema_def Let_def
      dest: usual_not_special split: if_splits)

lemma ok_rl_check_uri: "rl_inv m p (rl_check_uri, r) \<Longrightarrow> rl_ok m p (on_check_uri p (m ! p) r)"
  by (auto simp: rl_ok_simps rl_defs plain_path_single plain_path_Suc slash_of_schema_def Let_def
      dest: usual_not_special split: if_splits)

lemma ok_rl_check_uri_http_09: "rl_inv m p (rl_check_uri_http_09, r) \<Longrightarrow> rl_ok m p (on_check_uri_http_09 p (m ! p) r)"
  by (auto simp: rl_ok_simps rl_defs plain_path_single plain_path_Suc slash_of_schema_def Let_def
      dest: usual_not_special split: if_splits)

lemma ok_rl_uri: "rl_inv m p (rl_uri, r) \<Longrightarrow> rl_ok m p (on_uri p (m ! p) r)"
  by (auto simp: rl_ok_simps rl_defs plain_path_single plain_path_Suc slash_of_schema_def Let_def
      dest: usual_not_special split: if_splits option.splits)

lemma ok_rl_http_09: "rl_inv m p (rl_http_09, r) \<Longrightarrow> rl_ok m p (on_http_09 p (m ! p) r)"
  by (auto simp: rl_ok_simps rl_defs plain_path_single plain_path_Suc slash_of_schema_def Let_def
      dest: usual_not_special split: if_splits option.splits)

lemma ok_rl_method: "rl_inv m p (rl_method, r) \<Longrightarrow> on_method m p (m ! p) r = Some t \<Longrightarrow> rl_ok m p t"
  by (auto simp: rl_ok_simps on_method_def bind_eq_Some_conv split: if_splits)

lemma uri_found_Suc: "uri_found m p r \<Longrightarrow> uri_found m (Suc p) r"
  by (auto simp: uri_found_def)

lemma uri_found_cong:
  "uri_start r' = uri_start r \<Longrightarrow> uri_end r' = uri_end r \<Longrightarrow> args_start r' = args_start r \<Longrightarrow>
   needs_no_decoding r' = needs_no_decoding r \<Longrightarrow> uri_found m p r' = uri_found m p r"
  by (simp add: uri_found_def path_end_def)

lemma ok_version:
  assumes "rl_inv m p (st, r)"
  shows "st = rl_http_H \<Longrightarrow> rl_ok m p (on_http_H (m ! p) r)"
    and "st = rl_http_HT \<Longrightarrow> rl_ok m p (on_http_HT (m ! p) r)"
    and "st = rl_http_HTT \<Longrightarrow> rl_ok m p (on_http_HTT (m ! p) r)"
    and "st = rl_http_HTTP \<Longrightarrow> rl_ok m p (on_http_HTTP (m ! p) r)"
    and "st = rl_first_major_digit \<Longrightarrow> rl_ok m p (on_first_major_digit (m ! p) r)"
    and "st = rl_major_digit \<Longrightarrow> rl_ok m p (on_major_digit (m ! p) r)"
    and "st = rl_first_minor_digit \<Longrightarrow> rl_ok m p (on_first_minor_digit (m ! p) r)"
    and "st = rl_minor_digit \<Longrightarrow> rl_ok m p (on_minor_digit (m ! p) r)"
    and "st = rl_spaces_after_digit \<Longrightarrow> rl_ok m p (on_spaces_after_digit (m ! p) r)"
    and "st = rl_almost_done \<Longrightarrow> rl_ok m p (on_almost_done p (m ! p) r)"
  using assms
  by (auto simp: rl_ok_def rl_inv_def rl_post_def before_uri_def rl_defs Let_def uri_found_Suc
      needs_no_decoding_def cong: uri_found_cong split: if_splits)

lemma rl_step_ok:
  assumes "rl_inv m p s" and "rl_step m p (m ! p) s = Some t"
  shows "rl_ok m p t"
proof -
  obtain st r where s: "s = (st, r)" by (cases s)
  note ok = ok_rl_start ok_rl_spaces_before_uri ok_rl_schema ok_rl_schema_slash ok_rl_schema_slash_slash
    ok_rl_host ok_rl_port ok_rl_host_http_09 ok_rl_after_slash_in_uri ok_rl_check_uri
    ok_rl_check_uri_http_09 ok_rl_uri ok_rl_http_09 ok_version
  show ?thesis
    using assms unfolding s by (cases st) (auto intro: ok ok_rl_method)
qed

interpretation rl_inv: invariant_parser rl_step rl_inv rl_post 1
proof
  fix m m' :: bytes and p s s' e
  show "take p m = take p m' \<Longrightarrow> rl_inv m p s \<Longrightarrow> rl_inv m' p s"
    by (rule rl_inv_local)
  show "rl_inv m p s \<Longrightarrow> p < length m \<Longrightarrow> rl_step m p (m ! p) s = Some (Cont s') \<Longrightarrow> rl_inv m (Suc p) s'"
    by (drule (1) rl_step_ok) (simp add: rl_ok_def)
  show "rl_inv m p s \<Longrightarrow> p < length m \<Longrightarrow> rl_step m p (m ! p) s = Some (Stop e s') \<Longrightarrow> rl_post m p e s'"
    by (drule (1) rl_step_ok) (simp add: rl_ok_def)
  assume i: "rl_inv m p s" and p: "p + 1 < length m"
  obtain st r where s: "s = (st, r)" by (cases s)
  show "rl_step m p (m ! p) s \<noteq> None"
  proof (cases "st = rl_method")
    case True
    then obtain a where a: "request_start r = Some a" "a < p"
      using i by (auto simp: rl_inv_def s)
    have "method_of_len m a (p - a) (meth r) \<noteq> None"
      using a p by (intro method_of_len_no_fault) simp
    then show ?thesis
      using a by (auto simp: s True on_method_def)
  next
    case False
    then show ?thesis unfolding s by (cases st) simp_all
  qed
qed

lemma rl_inv_init: "rl_inv m p (rl_start, request_line_init)"
  by (simp add: rl_inv_def before_uri_def request_line_init_def)

lemma rl_parse_OK:
  assumes "ngx_http_parse_request_line m pos lst s = Some (Rc NGX_OK, s', pos')" and "rl_inv m pos s"
  obtains p e t where "p < lst" "\<And>rc. e \<noteq> Return rc" "rl_post m p e t"
    "rl_done p e s t = (Rc NGX_OK, s', pos')"
proof -
  obtain q e t where q: "scan rl_step m pos (lst - pos) s = Some (Stopped q e t)"
      "\<And>rc. e \<noteq> Return rc" "rl_done q e s t = (Rc NGX_OK, s', pos')"
    using assms(1) rl.scan_return_error [of m pos "lst - pos" s]
    by (auto simp: ngx_http_parse_request_line_def incremental_def success_codes_def
        split: option.splits scanned.splits parse_exit.splits)
  moreover have "rl_post m q e t"
    using rl_inv.scan_post [OF assms(2) q(1)] .
  moreover have "q < lst"
    using scan_stopped_less [OF q(1)] by linarith
  ultimately show thesis
    using that by blast
qed

text \<open>C2: when \<^verbatim>\<open>ngx_http_parse_request_line\<close> accepts a line, the path it points at is not empty and
  lies inside the bytes read; and when it sets none of \<^verbatim>\<open>complex_uri\<close>, \<^verbatim>\<open>quoted_uri\<close> and
  \<^verbatim>\<open>space_in_uri\<close>, the path, which is then used undecoded, starts with a slash and contains no zero
  byte, no \<open>#\<close> or \<open>%\<close>, and no slash or dot after a slash: no \<open>/../\<close> gets through.\<close>

theorem request_line_path_safe:
  assumes "ngx_http_parse_request_line m pos lst (rl_start, request_line_init) = Some (Rc NGX_OK, (st, r), pos')"
  shows "\<exists>a e. uri_start r = Some a \<and> uri_end r = Some e \<and> a < path_end r e \<and> path_end r e \<le> e \<and> e < pos' \<and>
     pos' \<le> lst \<and>
     (\<not> complex_uri r \<and> \<not> quoted_uri r \<and> \<not> space_in_uri r \<longrightarrow> m ! a = 0x2f \<and> plain_path m a (path_end r e))"
proof -
  obtain p e t where p: "p < lst" "\<And>rc. e \<noteq> Return rc" "rl_post m p e t"
      "rl_done p e (rl_start, request_line_init) t = (Rc NGX_OK, (st, r), pos')"
    using rl_parse_OK [OF assms rl_inv_init] by blast
  then have "uri_found m p (snd t)" "pos' = p + 1"
    by (auto simp: rl_post_def rl_done_def Let_def split: if_splits)
  moreover have "uri_found m p r = uri_found m p (snd t)"
    using p(4) by (intro uri_found_cong) (auto simp: rl_done_def Let_def needs_no_decoding_def split: if_splits)
  ultimately show ?thesis
    using p(1) by (auto simp: uri_found_def needs_no_decoding_def)
qed

text \<open>What a concrete call gives, for examples.\<close>

definition rl_view where
  "rl_view x = (case x of
     Some (rc, (st, r), pos) \<Rightarrow>
       Some (rc, (uri_start r, uri_end r, args_start r), (complex_uri r, quoted_uri r, space_in_uri r),
             (meth r, http_version r), pos)
   | None \<Rightarrow> None)"

lemma rl_viewD:
  assumes "rl_view x = Some (rc, (u1, u2, ar), (f1, f2, f3), (me, v), pos)"
  obtains st r where "x = Some (rc, (st, r), pos)" "uri_start r = u1" "uri_end r = u2" "args_start r = ar"
    "complex_uri r = f1" "quoted_uri r = f2" "space_in_uri r = f3" "meth r = me" "http_version r = v"
  using assms by (auto simp: rl_view_def split: option.splits prod.splits)

lemma request_line_path_safe_witness:
  "plain_path (str ''GET /ab/c?x HTTP/1.0'' @ [LF]) 4 9"
proof -
  let ?m = "str ''GET /ab/c?x HTTP/1.0'' @ [LF]"
  have "rl_view (ngx_http_parse_request_line ?m 0 21 (rl_start, request_line_init))
      = Some (Rc NGX_OK, (Some 4, Some 11, Some 10), (False, False, False), (NGX_HTTP_GET, 1000), 21)"
    by code_simp
  then obtain st r where s: "ngx_http_parse_request_line ?m 0 21 (rl_start, request_line_init) = Some (Rc NGX_OK, (st, r), 21)"
      and r: "uri_start r = Some 4" "uri_end r = Some 11" "args_start r = Some 10" "\<not> complex_uri r"
      "\<not> quoted_uri r" "\<not> space_in_uri r"
    by (rule rl_viewD) blast
  show ?thesis
    using request_line_path_safe [OF s] r by (auto simp: path_end_def)
qed

text \<open>C4: \<^verbatim>\<open>ngx_http_parse_request_line\<close> reads at most one byte beyond the bytes it is given: it stays in the
  buffer whenever \<^verbatim>\<open>b->last\<close> is below \<^verbatim>\<open>b->end\<close>.  The one byte is that of the 32-bit load of
  \<^verbatim>\<open>ngx_str6cmp\<close> for \<^verbatim>\<open>DELETE\<close> and \<^verbatim>\<open>UNLOCK\<close>: when such a method ends the buffer the load leaves it.\<close>

theorem request_line_reads_in_buffer:
  assumes "pos \<le> lst" and "lst < length m"
  shows "ngx_http_parse_request_line m pos lst (rl_start, request_line_init) \<noteq> None \<and>
    ngx_http_parse_request_line (str ''DELETE '') 0 7 (rl_start, request_line_init) = None"
proof
  show "ngx_http_parse_request_line m pos lst (rl_start, request_line_init) \<noteq> None"
    using assms rl_inv.scan_no_fault [OF rl_inv_init, of pos "lst - pos" m]
    by (auto simp: ngx_http_parse_request_line_def incremental_def rl_done_def Let_def
        split: scanned.splits parse_exit.splits)
  show "ngx_http_parse_request_line (str ''DELETE '') 0 7 (rl_start, request_line_init) = None"
    by code_simp
qed

lemma request_line_reads_in_buffer_witness:
  "ngx_http_parse_request_line (str ''DELETE '' @ [0]) 0 7 (rl_start, request_line_init) \<noteq> None"
  using request_line_reads_in_buffer [of 0 7 "str ''DELETE '' @ [0]"] by (simp add: str_def)

text \<open>The space that the parser lets into a URI makes it skip the check of the byte after the space:
  the path of this line keeps \<open>/../\<close>, and that of the second one a zero byte, with neither
  \<^verbatim>\<open>complex_uri\<close> nor \<^verbatim>\<open>quoted_uri\<close> set, so both are used undecoded.\<close>

theorem request_line_space_bypass:
  "rl_view (ngx_http_parse_request_line (str ''GET /a /../b HTTP/1.0'' @ [LF]) 0 22 (rl_start, request_line_init))
     = Some (Rc NGX_OK, (Some 4, Some 12, None), (False, False, True), (NGX_HTTP_GET, 1000), 22) \<and>
   rl_view (ngx_http_parse_request_line (str ''GET /a '' @ [0] @ str ''b HTTP/1.0'' @ [LF]) 0 19
       (rl_start, request_line_init))
     = Some (Rc NGX_OK, (Some 4, Some 9, None), (False, False, True), (NGX_HTTP_GET, 1000), 19)"
  by (rule conjI; code_simp)

text \<open>The version numbers are 16-bit fields: this line of version \<open>65536.9\<close> is taken for HTTP/0.9.\<close>

lemma request_line_version_wraps:
  "rl_view (ngx_http_parse_request_line (str ''PUT / HTTP/65536.9'' @ [LF]) 0 19 (rl_start, request_line_init))
     = Some (NGX_HTTP_PARSE_INVALID_09_METHOD, (Some 4, Some 5, None), (False, False, False), (NGX_HTTP_PUT, 9), 19)"
  by code_simp

section \<open>Well-formed lines\<close>

text \<open>The methods by name.\<close>

definition method_names :: "(bytes \<times> http_method) list" where
  "method_names =
     [(str ''GET'', NGX_HTTP_GET), (str ''PUT'', NGX_HTTP_PUT), (str ''POST'', NGX_HTTP_POST),
      (str ''COPY'', NGX_HTTP_COPY), (str ''MOVE'', NGX_HTTP_MOVE), (str ''LOCK'', NGX_HTTP_LOCK),
      (str ''HEAD'', NGX_HTTP_HEAD), (str ''MKCOL'', NGX_HTTP_MKCOL), (str ''PATCH'', NGX_HTTP_PATCH),
      (str ''TRACE'', NGX_HTTP_TRACE), (str ''DELETE'', NGX_HTTP_DELETE), (str ''UNLOCK'', NGX_HTTP_UNLOCK),
      (str ''OPTIONS'', NGX_HTTP_OPTIONS), (str ''PROPFIND'', NGX_HTTP_PROPFIND),
      (str ''PROPPATCH'', NGX_HTTP_PROPPATCH)]"

definition method_named :: "bytes \<Rightarrow> http_method" where
  "method_named s = (case map_of method_names s of Some x \<Rightarrow> x | None \<Rightarrow> NGX_HTTP_UNKNOWN)"

lemma method_named_len:
  assumes "length s \<notin> {3, 4, 5, 6, 7, 8, 9}"
  shows "method_named s = NGX_HTTP_UNKNOWN"
proof -
  have "\<forall>x \<in> set method_names. length (fst x) \<in> {3, 4, 5, 6, 7, 8, 9}"
    by (simp add: method_names_def str_def)
  then have "s \<notin> fst ` set method_names"
    using assms by blast
  then have "map_of method_names s = None"
    by (simp add: map_of_eq_None_iff)
  then show ?thesis
    by (simp add: method_named_def)
qed

lemma bytes_at:
  fixes m :: bytes
  shows
    "map (\<lambda>i. m ! (a + i)) [0..<3] = [m ! a, m ! (a + 1), m ! (a + 2)]"
    and "map (\<lambda>i. m ! (a + i)) [0..<4] = [m ! a, m ! (a + 1), m ! (a + 2), m ! (a + 3)]"
    and "map (\<lambda>i. m ! (a + i)) [0..<5] = [m ! a, m ! (a + 1), m ! (a + 2), m ! (a + 3), m ! (a + 4)]"
    and "map (\<lambda>i. m ! (a + i)) [0..<6] = [m ! a, m ! (a + 1), m ! (a + 2), m ! (a + 3), m ! (a + 4), m ! (a + 5)]"
    and "map (\<lambda>i. m ! (a + i)) [0..<7] = [m ! a, m ! (a + 1), m ! (a + 2), m ! (a + 3), m ! (a + 4), m ! (a + 5), m ! (a + 6)]"
    and "map (\<lambda>i. m ! (a + i)) [0..<8] = [m ! a, m ! (a + 1), m ! (a + 2), m ! (a + 3), m ! (a + 4), m ! (a + 5), m ! (a + 6), m ! (a + 7)]"
    and "map (\<lambda>i. m ! (a + i)) [0..<9] = [m ! a, m ! (a + 1), m ! (a + 2), m ! (a + 3), m ! (a + 4), m ! (a + 5), m ! (a + 6), m ! (a + 7), m ! (a + 8)]"
  by (simp_all add: upt_conv_Cons del: One_nat_def add_2_eq_Suc' upt_Suc)
    (intro conjI arg_cong [where f = "nth m"]; simp)+

lemma method_of_len_named:
  assumes len: "a + n + 1 < length m" and sp: "m ! (a + n) = 0x20"
  shows "method_of_len m a n NGX_HTTP_UNKNOWN = Some (method_named (map (\<lambda>i. m ! (a + i)) [0..<n]))"
proof -
  consider "n = 3" | "n = 4" | "n = 5" | "n = 6" | "n = 7" | "n = 8" | "n = 9" | "n \<notin> {3,4,5,6,7,8,9}" by blast
  then show ?thesis
  proof cases
  case 1
    then show ?thesis
      using len sp unfolding method_of_len_def method3_def str4cmp_eq
      by (simp add: bytes_at str_def method_named_def method_names_def add.assoc del: One_nat_def add_2_eq_Suc')
  next case 2
    then show ?thesis
      using len sp unfolding method_of_len_def method4_def str4cmp_eq
      by (simp add: bytes_at str_def method_named_def method_names_def add.assoc del: One_nat_def add_2_eq_Suc')
  next case 3
    then show ?thesis
      using len sp unfolding method_of_len_def method5_def ngx_str5cmp_def str4cmp_eq
      by (simp add: bytes_at str_def method_named_def method_names_def add.assoc del: One_nat_def add_2_eq_Suc')
  next case 4
    then show ?thesis
      using len sp unfolding method_of_len_def method6_def str6cmp_eq str4cmp_eq
      by (simp add: bytes_at str_def method_named_def method_names_def add.assoc del: One_nat_def add_2_eq_Suc')
  next case 5
    then show ?thesis
      using len sp unfolding method_of_len_def method7_def ngx_str8cmp_def str4cmp_eq
      by (simp add: bytes_at str_def method_named_def method_names_def add.assoc del: One_nat_def add_2_eq_Suc') blast?
  next case 6
    then show ?thesis
      using len sp unfolding method_of_len_def method8_def ngx_str8cmp_def str4cmp_eq
      by (simp add: bytes_at str_def method_named_def method_names_def add.assoc del: One_nat_def add_2_eq_Suc') blast?
  next case 7
    then show ?thesis
      using len sp unfolding method_of_len_def method9_def ngx_str9cmp_def ngx_str8cmp_def str4cmp_eq
      by (simp add: bytes_at str_def method_named_def method_names_def add.assoc del: One_nat_def add_2_eq_Suc') blast?
  next case 8
    then show ?thesis
      by (simp add: method_of_len_def method_named_len)
  qed
qed


text \<open>The end of the line, from the space after the URI on.\<close>

lemma scan_version:
  assumes d: "drop e m = 0x20 # str ''HTTP/1.'' @ (0x30 + v) # CR # LF # rest" and v: "v \<le> 9"
    and st: "st = rl_after_slash_in_uri \<or> st = rl_check_uri"
  shows "scan rl_step m e 11 (st, r) = Some (Stopped (e + 10) Goto_done
     (rl_almost_done, r\<lparr>uri_end := Some e, http_protocol := Some (e + 1), http_major := 1,
        http_minor := ucast v, request_end := Some (e + 9)\<rparr>))"
proof -
  have rds: "rd m (e + j) = rd (0x20 # str ''HTTP/1.'' @ (0x30 + v) # CR # LF # rest) j" for j
    by (simp only: d flip: rd_drop)
  have m: "rd m e = Some 0x20" "rd m (Suc e) = Some 0x48" "rd m (Suc (Suc e)) = Some 0x54"
    "rd m (Suc (Suc (Suc e))) = Some 0x54" "rd m (Suc (Suc (Suc (Suc e)))) = Some 0x50"
    "rd m (Suc (Suc (Suc (Suc (Suc e))))) = Some 0x2f" "rd m (Suc (Suc (Suc (Suc (Suc (Suc e)))))) = Some 0x31"
    "rd m (Suc (Suc (Suc (Suc (Suc (Suc (Suc e))))))) = Some 0x2e"
    "rd m (Suc (Suc (Suc (Suc (Suc (Suc (Suc (Suc e)))))))) = Some (0x30 + v)"
    "rd m (Suc (Suc (Suc (Suc (Suc (Suc (Suc (Suc (Suc e))))))))) = Some CR"
    "rd m (Suc (Suc (Suc (Suc (Suc (Suc (Suc (Suc (Suc (Suc e)))))))))) = Some LF"
    using rds [of 0] rds [of 1] rds [of 2] rds [of 3] rds [of 4] rds [of 5] rds [of 6] rds [of 7] rds [of 8]
      rds [of 9] rds [of 10]
    by (simp_all add: str_def rd_def numeral_eq_Suc)
  have "\<not> 0x30 + v < 0x30 \<and> \<not> 0x39 < 0x30 + v"
  proof -
    have "unat v \<le> 9" using v by (simp add: word_le_nat_alt)
    then have "unat (0x30 + v) = 48 + unat v" using unat_add_lem [of "0x30" v] by simp
    then show ?thesis using v by (simp add: word_less_nat_alt word_le_nat_alt)
  qed
  moreover have "\<not> in_bitmap usual 0x20"
    by (simp add: in_bitmap_def usual_def)
  moreover have eleven: "(11 :: nat) = Suc (Suc (Suc (Suc (Suc (Suc (Suc (Suc (Suc (Suc (Suc 0))))))))))"
    by simp
  ultimately show ?thesis
    using st unfolding eleven by (auto simp: m rl_defs)
qed


definition method_char :: "u8 \<Rightarrow> bool" where
  "method_char c \<longleftrightarrow> 0x41 \<le> c \<and> c \<le> 0x5a \<or> c = 0x5f"

definition http_line :: "bytes \<Rightarrow> bytes \<Rightarrow> u8 \<Rightarrow> bytes" where
  "http_line ms us v = ms @ 0x20 # 0x2f # us @ 0x20 # str ''HTTP/1.'' @ [0x30 + v, CR, LF]"

lemma method_char_not: "method_char c \<Longrightarrow> c \<noteq> CR \<and> c \<noteq> LF \<and> c \<noteq> 0x20 \<and> \<not> ((c < 0x41 \<or> c > 0x5a) \<and> c \<noteq> 0x5f)"
  by (auto simp: method_char_def)

lemma scan_method:
  assumes m: "m = ms @ 0x20 # tail" and ms: "ms \<noteq> []" "\<forall>c \<in> set ms. method_char c" and t: "tail \<noteq> []"
  shows "scan rl_step m 0 (Suc (length ms + k)) (rl_start, request_line_init)
    = scan rl_step m (Suc (length ms)) k (rl_spaces_before_uri,
        request_line_init\<lparr>request_start := Some 0, method_end := Some (length ms - 1), meth := method_named ms\<rparr>)"
proof -
  let ?r = "request_line_init\<lparr>request_start := Some 0\<rparr>"
  obtain n where n: "length ms = Suc n" using ms(1) by (cases ms) auto
  have c: "i < length ms \<Longrightarrow> method_char (m ! i)" for i
    using ms(2) by (simp add: m nth_append)
  have "scan rl_step m 0 (Suc (length ms + k)) (rl_start, request_line_init) = scan rl_step m 1 (n + Suc k) (rl_method, ?r)"
    using c [of 0] method_char_not [of "m ! 0"] n m by (subst scan_one) (auto simp: on_start_def Let_def)
  also have "\<dots> = scan rl_step m (1 + n) (Suc k) (rl_method, ?r)"
  proof (rule scan_run)
    fix i assume "1 \<le> i" "i < 1 + n"
    then show "i < length m \<and> rl_step m i (m ! i) (rl_method, ?r) = Some (Cont (rl_method, ?r))"
      using c [of i] method_char_not [of "m ! i"] n m by (auto simp: on_method_def)
  qed
  also have "\<dots> = scan rl_step m (length ms) (Suc k) (rl_method, ?r)" by (simp add: n)
  also have "\<dots> = scan rl_step m (Suc (length ms)) k (rl_spaces_before_uri,
        ?r\<lparr>method_end := Some (length ms - 1), meth := method_named ms\<rparr>)"
  proof (rule scan_one)
    show "length ms < length m" by (simp add: m)
    have "method_of_len m 0 (length ms) NGX_HTTP_UNKNOWN = Some (method_named (map (\<lambda>i. m ! (0 + i)) [0..<length ms]))"
      using t by (intro method_of_len_named) (simp_all add: m)
    also have "map (\<lambda>i. m ! (0 + i)) [0..<length ms] = ms"
      by (rule nth_equalityI) (simp_all add: m nth_append)
    finally show "rl_step m (length ms) (m ! length ms) (rl_method, ?r) = Some (Cont (rl_spaces_before_uri,
        ?r\<lparr>method_end := Some (length ms - 1), meth := method_named ms\<rparr>))"
      by (simp add: on_method_def m request_line_init_def)
  qed
  finally show ?thesis .
qed

lemma scan_uri:
  assumes "m = pre @ 0x2f # us @ tail" and "\<forall>c \<in> set us. in_bitmap usual c"
  shows "\<exists>st. (st = rl_after_slash_in_uri \<or> st = rl_check_uri) \<and>
    scan rl_step m (length pre) (Suc (length us + k)) (rl_spaces_before_uri, r)
    = scan rl_step m (length pre + 1 + length us) k (st, r\<lparr>uri_start := Some (length pre)\<rparr>)"
proof -
  let ?p = "length pre" and ?r = "r\<lparr>uri_start := Some (length pre)\<rparr>"
  have "scan rl_step m ?p (Suc (length us + k)) (rl_spaces_before_uri, r)
      = scan rl_step m (Suc ?p) (length us + k) (rl_after_slash_in_uri, ?r)"
    by (rule scan_one) (simp_all add: assms(1) on_spaces_before_uri_def)
  also have "\<exists>st. (st = rl_after_slash_in_uri \<or> st = rl_check_uri) \<and> \<dots> = scan rl_step m (?p + 1 + length us) k (st, ?r)"
  proof (cases us)
    case Nil
    then show ?thesis by auto
  next
    case (Cons c cs)
    have u: "i < length us \<Longrightarrow> in_bitmap usual (m ! (Suc ?p + i))" "i < length us \<Longrightarrow> Suc ?p + i < length m" for i
      using assms by (simp_all add: nth_append)
    have "scan rl_step m (Suc ?p) (length us + k) (rl_after_slash_in_uri, ?r)
        = scan rl_step m (Suc (Suc ?p)) (length cs + k) (rl_check_uri, ?r)"
      using u [of 0] Cons by (simp add: on_after_slash_def)
    also have "\<dots> = scan rl_step m (Suc (Suc ?p) + length cs) k (rl_check_uri, ?r)"
    proof (rule scan_run)
      fix i assume i: "Suc (Suc ?p) \<le> i" "i < Suc (Suc ?p) + length cs"
      then have "in_bitmap usual (m ! i)" "i < length m"
        using u [of "i - Suc ?p"] Cons by simp_all
      then show "i < length m \<and> rl_step m i (m ! i) (rl_check_uri, ?r) = Some (Cont (rl_check_uri, ?r))"
        by (simp add: on_check_uri_def)
    qed
    finally show ?thesis by (auto simp: Cons)
  qed
  finally show ?thesis .
qed

text \<open>C3: a request line made of a method of capital letters and underscores, one space, a path of ordinary
  characters and a version 1.0 to 1.9 is accepted: the method is recognised by its name, the path and
  the version are found where they are, nothing is flagged, and the position is after the line feed,
  whatever follows.\<close>

theorem request_line_well_formed:
  assumes "ms \<noteq> []" and "\<forall>c \<in> set ms. method_char c" and "\<forall>c \<in> set us. in_bitmap usual c" and "v \<le> 9"
  shows "rl_view (ngx_http_parse_request_line (http_line ms us v @ rest) 0 (length (http_line ms us v))
      (rl_start, request_line_init))
    = Some (Rc NGX_OK, (Some (length ms + 1), Some (length ms + 2 + length us), None), (False, False, False),
            (method_named ms, 1000 + ucast v), length (http_line ms us v))"
proof -
  define m where "m = http_line ms us v @ rest"
  let ?n = "length (http_line ms us v)" and ?e = "length ms + 2 + length us"
  let ?r = "request_line_init\<lparr>request_start := Some 0, method_end := Some (length ms - 1), meth := method_named ms\<rparr>"
  have n: "?n = Suc (length ms + Suc (length us + 11))" by (simp add: http_line_def str_def)
  have m1: "m = ms @ 0x20 # (0x2f # us @ 0x20 # str ''HTTP/1.'' @ (0x30 + v) # CR # LF # rest)"
    by (simp add: m_def http_line_def)
  have m2: "m = (ms @ [0x20]) @ 0x2f # us @ (0x20 # str ''HTTP/1.'' @ (0x30 + v) # CR # LF # rest)"
    by (simp add: m1)
  have m3: "drop ?e m = 0x20 # str ''HTTP/1.'' @ (0x30 + v) # CR # LF # rest"
    by (simp add: m1)
  have "scan rl_step m 0 ?n (rl_start, request_line_init)
      = scan rl_step m (Suc (length ms)) (Suc (length us + 11)) (rl_spaces_before_uri, ?r)"
    unfolding n by (rule scan_method [OF m1 assms(1,2)]) simp
  also obtain st where st: "st = rl_after_slash_in_uri \<or> st = rl_check_uri"
    "scan rl_step m (Suc (length ms)) (Suc (length us + 11)) (rl_spaces_before_uri, ?r)
      = scan rl_step m ?e 11 (st, ?r\<lparr>uri_start := Some (Suc (length ms))\<rparr>)"
    using scan_uri [OF m2 assms(3), of 11 ?r] by auto
  note st(2)
  also note scan_version [OF m3 assms(4) st(1), of "?r\<lparr>uri_start := Some (Suc (length ms))\<rparr>"]
  finally have "scan rl_step m 0 ?n (rl_start, request_line_init) = Some (Stopped (?e + 10) Goto_done
     (rl_almost_done, ?r\<lparr>uri_start := Some (Suc (length ms)), uri_end := Some ?e, http_protocol := Some (?e + 1),
        http_major := 1, http_minor := ucast v, request_end := Some (?e + 9)\<rparr>))" .
  moreover have "ucast (ucast v :: 16 word) = (ucast v :: u64)"
    by (rule bit_word_eqI) (auto simp: bit_simps dest: bit_imp_le_length)
  moreover have "(1000 + ucast v :: u64) \<noteq> 9"
  proof
    assume "(1000 + ucast v :: u64) = 9"
    from arg_cong [OF this, of unat] have "unat (1000 + ucast v :: u64) = 9" by simp
    moreover have v: "unat v \<le> 9" using assms(4) by (simp add: word_le_nat_alt)
    moreover have "unat (ucast v :: u64) = unat v"
      using v by (simp add: unsigned_ucast_eq take_bit_nat_eq_self)
    ultimately show False using unat_add_lem [of 1000 "ucast v :: u64"] by simp
  qed
  ultimately show ?thesis
    by (simp add: ngx_http_parse_request_line_def incremental_def rl_done_def rl_view_def Let_def n
        request_line_init_def flip: m_def)
qed

lemma request_line_well_formed_witness:
  "rl_view (ngx_http_parse_request_line (http_line (str ''PROPPATCH'') (str ''index'') 1 @ [0, 1]) 0 27
      (rl_start, request_line_init))
    = Some (Rc NGX_OK, (Some 10, Some 16, None), (False, False, False), (NGX_HTTP_PROPPATCH, 1001), 27)"
proof -
  have "length (http_line (str ''PROPPATCH'') (str ''index'') 1) = 27" by code_simp
  moreover have "length (str ''PROPPATCH'') = 9" "length (str ''index'') = 5"
    "method_named (str ''PROPPATCH'') = NGX_HTTP_PROPPATCH" by code_simp+
  moreover have p: "\<forall>c \<in> set (str ''PROPPATCH''). method_char c" "\<forall>c \<in> set (str ''index''). in_bitmap usual c"
    "str ''PROPPATCH'' \<noteq> []" by code_simp+
  ultimately show ?thesis
    using request_line_well_formed [OF p(3,1,2), of 1 "[0, 1]"] by simp
qed

text \<open>A line in two parts, accepted as in one call; and one with an invalid method, where the failing call
  leaves the position that it was given.\<close>

lemma request_line_resume_witness:
  "(\<exists>s. ngx_http_parse_request_line (str ''GET /aXXXXXXXXXXX'') 0 6 (rl_start, request_line_init) = Some (Rc NGX_AGAIN, s, 6) \<and>
     rl_view (ngx_http_parse_request_line (str ''GET /a HTTP/1.0'' @ [CR, LF]) 6 17 s)
       = Some (Rc NGX_OK, (Some 4, Some 6, None), (False, False, False), (NGX_HTTP_GET, 1000), 17)) \<and>
   (\<exists>s. ngx_http_parse_request_line (str ''GETx'') 0 3 (rl_start, request_line_init) = Some (Rc NGX_AGAIN, s, 3) \<and>
     map_option (\<lambda>x. (fst x, snd (snd x))) (ngx_http_parse_request_line (str ''GETx'') 3 4 s)
       = Some (NGX_HTTP_PARSE_INVALID_METHOD, 3) \<and>
     map_option (\<lambda>x. (fst x, snd (snd x))) (ngx_http_parse_request_line (str ''GETx'') 0 4 (rl_start, request_line_init))
       = Some (NGX_HTTP_PARSE_INVALID_METHOD, 0))"
proof -
  let ?f = ngx_http_parse_request_line and ?m = "str ''GET /a HTTP/1.0'' @ [CR, LF]"
    and ?s = "(rl_start, request_line_init)"
  have "rl_view (?f (str ''GET /aXXXXXXXXXXX'') 0 6 ?s)
      = Some (Rc NGX_AGAIN, (Some 4, None, None), (False, False, False), (NGX_HTTP_GET, 0), 6)"
    by code_simp
  then obtain st r where 1: "?f (str ''GET /aXXXXXXXXXXX'') 0 6 ?s = Some (Rc NGX_AGAIN, (st, r), 6)"
    by (rule rl_viewD)
  have p: "(0 :: nat) \<le> 6" "(6 :: nat) \<le> 17" "length (str ''GET /aXXXXXXXXXXX'') = length ?m"
    "take 6 (str ''GET /aXXXXXXXXXXX'') = take 6 ?m"
    by code_simp+
  have "rl_view (?f ?m 0 17 ?s) = Some (Rc NGX_OK, (Some 4, Some 6, None), (False, False, False), (NGX_HTTP_GET, 1000), 17)"
    by code_simp
  then have a: "rl_view (?f ?m 6 17 (st, r))
      = Some (Rc NGX_OK, (Some 4, Some 6, None), (False, False, False), (NGX_HTTP_GET, 1000), 17)"
    using request_line_resume [OF p, of ?s]
    by (auto simp: 1 rl_view_def rl_entered_at_def split: option.splits prod.splits if_splits)
  have "rl_view (?f (str ''GETx'') 0 3 ?s)
      = Some (Rc NGX_AGAIN, (None, None, None), (False, False, False), (NGX_HTTP_UNKNOWN, 0), 3)"
    by code_simp
  then obtain st' r' where 2: "?f (str ''GETx'') 0 3 ?s = Some (Rc NGX_AGAIN, (st', r'), 3)"
    by (rule rl_viewD)
  have v: "map_option (\<lambda>x. (fst x, snd (snd x))) (?f (str ''GETx'') 0 4 ?s) = Some (NGX_HTTP_PARSE_INVALID_METHOD, 0)"
    by code_simp
  have "case ?f (str ''GETx'') 0 3 ?s of Some (rc, s', q) \<Rightarrow>
      map_option (\<lambda>x. (fst x, snd (snd x))) (?f (str ''GETx'') q 4 s') = Some (NGX_HTTP_PARSE_INVALID_METHOD, 3)
    | None \<Rightarrow> False"
    by code_simp
  then show ?thesis using 1 2 a v by simp
qed

end
