(* ===== verification/HttpHeaderLine.thy ===== *)
theory HttpHeaderLine
  imports NgxScan
begin

text \<open>
  \<^verbatim>\<open>ngx_http_parse_header_line\<close> of \<^verbatim>\<open>src/http/ngx_http_parse.c\<close>, one definition for each state, and
  the hash functions of \<^verbatim>\<open>src/core/ngx_hash.c\<close> that its incremental hash must agree with.  In the
  loop the locals \<open>hash\<close> and \<open>i\<close> stand in the fields \<^verbatim>\<open>header_hash\<close> and \<^verbatim>\<open>lowcase_index\<close> that they are
  loaded from; at the exits that do not save them, a return out of the loop and \<^verbatim>\<open>header_done\<close>, the fields
  get back what they held on entry.  \<^verbatim>\<open>lowcase_header\<close> is an array of 32 bytes, and a store outside it
  is \<open>None\<close>.
\<close>

section \<open>State\<close>

datatype hl_state =
    hl_start | hl_name | hl_space_before_value | hl_value | hl_space_after_value | hl_ignore_line
  | hl_almost_done | hl_header_almost_done

record header_line =
  header_name_start :: "nat option"
  header_name_end :: "nat option"
  header_start :: "nat option"
  header_end :: "nat option"
  header_hash :: u64
  lowcase_index :: nat
  lowcase_header :: bytes
  invalid_header :: bool
  upstream :: bool    \<comment> \<open>\<^verbatim>\<open>r->upstream\<close> is not null: the line is that of an upstream's response\<close>

type_synonym hl_turn = "(hl_state \<times> header_line, parse_exit) turn"

definition lowcase :: bytes where
  "lowcase =
     (let letters = [0x61, 0x62, 0x63, 0x64, 0x65, 0x66, 0x67, 0x68, 0x69, 0x6a, 0x6b, 0x6c, 0x6d,
                     0x6e, 0x6f, 0x70, 0x71, 0x72, 0x73, 0x74, 0x75, 0x76, 0x77, 0x78, 0x79, 0x7a]
      in replicate 45 0 @ [0x2d, 0, 0] @
         [0x30, 0x31, 0x32, 0x33, 0x34, 0x35, 0x36, 0x37, 0x38, 0x39] @ replicate 6 0 @
         (0 # letters @ replicate 5 0) @ (0 # letters @ replicate 5 0) @ replicate 128 0)"

section \<open>Hashes\<close>

definition ngx_hash :: "u64 \<Rightarrow> u8 \<Rightarrow> u64" where
  "ngx_hash key c = key * 31 + ucast c"

fun hash_loop :: "u64 \<Rightarrow> bytes \<Rightarrow> nat \<Rightarrow> u64 option" where
  "hash_loop key _ 0 = Some key"
| "hash_loop key (c # s) (Suc n) = hash_loop (ngx_hash key c) s n"
| "hash_loop key [] (Suc n) = None"

definition ngx_hash_key :: "bytes \<Rightarrow> nat \<Rightarrow> u64 option" where
  "ngx_hash_key s n = hash_loop 0 s n"

fun hash_lc_loop :: "u64 \<Rightarrow> bytes \<Rightarrow> nat \<Rightarrow> u64 option" where
  "hash_lc_loop key _ 0 = Some key"
| "hash_lc_loop key (c # s) (Suc n) = hash_lc_loop (ngx_hash key (ngx_tolower c)) s n"
| "hash_lc_loop key [] (Suc n) = None"

definition ngx_hash_key_lc :: "bytes \<Rightarrow> nat \<Rightarrow> u64 option" where
  "ngx_hash_key_lc s n = hash_lc_loop 0 s n"

text \<open>\<^verbatim>\<open>ngx_hash_strlow\<close>: the bytes it writes and the key of them.\<close>

fun hash_strlow_loop :: "u64 \<Rightarrow> bytes \<Rightarrow> nat \<Rightarrow> (bytes \<times> u64) option" where
  "hash_strlow_loop key _ 0 = Some ([], key)"
| "hash_strlow_loop key (c # s) (Suc n) =
     map_option (\<lambda>(d, k). (ngx_tolower c # d, k)) (hash_strlow_loop (ngx_hash key (ngx_tolower c)) s n)"
| "hash_strlow_loop key [] (Suc n) = None"

definition ngx_hash_strlow :: "bytes \<Rightarrow> nat \<Rightarrow> (bytes \<times> u64) option" where
  "ngx_hash_strlow src n = hash_strlow_loop 0 src n"

section \<open>The states\<close>

abbreviation bad_header :: "hl_state \<Rightarrow> header_line \<Rightarrow> hl_turn" where
  "bad_header st r \<equiv> Stop (Return NGX_HTTP_PARSE_INVALID_HEADER) (st, r)"

text \<open>\<^verbatim>\<open>hash = ngx_hash(hash, c); r->lowcase_header[i++] = c; i &= (NGX_HTTP_LC_HEADER_LEN - 1)\<close>\<close>

definition put_lowcase :: "u8 \<Rightarrow> header_line \<Rightarrow> header_line option" where
  "put_lowcase c r =
     (if lowcase_index r < length (lowcase_header r) then
        Some (r\<lparr>header_hash := ngx_hash (header_hash r) c,
                lowcase_header := (lowcase_header r)[lowcase_index r := c],
                lowcase_index := (lowcase_index r + 1) mod 32\<rparr>)
      else None)"

definition on_hl_start :: "nat \<Rightarrow> u8 \<Rightarrow> header_line \<Rightarrow> hl_turn option" where
  "on_hl_start p ch r =
     (let r = r\<lparr>header_name_start := Some p, invalid_header := False\<rparr> in
      if ch = CR then Some (Cont (hl_header_almost_done, r\<lparr>header_end := Some p\<rparr>))
      else if ch = LF then Some (Stop Goto_header_done (hl_start, r\<lparr>header_end := Some p\<rparr>))
      else do {
        c \<leftarrow> rd lowcase (unat ch);
        if c \<noteq> 0 then
          (if 0 < length (lowcase_header r) then
             Some (Cont (hl_name, r\<lparr>header_hash := ngx_hash 0 c,
                     lowcase_header := (lowcase_header r)[0 := c], lowcase_index := 1\<rparr>))
           else None)
        else if ch = 0 then Some (bad_header hl_name r)
        else Some (Cont (hl_name, r\<lparr>invalid_header := True\<rparr>)) })"

definition on_hl_name :: "bool \<Rightarrow> bytes \<Rightarrow> nat \<Rightarrow> u8 \<Rightarrow> header_line \<Rightarrow> hl_turn option" where
  "on_hl_name allow_underscores m p ch r = do {
     c \<leftarrow> rd lowcase (unat ch);
     if c \<noteq> 0 then map_option (\<lambda>r. Cont (hl_name, r)) (put_lowcase c r)
     else if ch = 0x5f then
       (if allow_underscores then map_option (\<lambda>r. Cont (hl_name, r)) (put_lowcase ch r)
        else Some (Cont (hl_name, r\<lparr>invalid_header := True\<rparr>)))
     else if ch = 0x3a then Some (Cont (hl_space_before_value, r\<lparr>header_name_end := Some p\<rparr>))
     else if ch = CR then
       Some (Cont (hl_almost_done, r\<lparr>header_name_end := Some p, header_start := Some p, header_end := Some p\<rparr>))
     else if ch = LF then
       Some (Stop Goto_done (hl_name, r\<lparr>header_name_end := Some p, header_start := Some p, header_end := Some p\<rparr>))
     else do {
       http \<leftarrow> (if ch = 0x2f \<and> upstream r then do {
                  a \<leftarrow> header_name_start r;
                  if p - a = 4
                  then map_option (\<lambda>d. d = 0) (c_strncmp (drop a m) (str ''HTTP'' @ [0]) 4)
                  else Some False }
                else Some False);
       if http then Some (Cont (hl_ignore_line, r))
       else if ch = 0 then Some (bad_header hl_name r)
       else Some (Cont (hl_name, r\<lparr>invalid_header := True\<rparr>)) } }"

definition on_hl_space_before :: "nat \<Rightarrow> u8 \<Rightarrow> header_line \<Rightarrow> hl_turn" where
  "on_hl_space_before p ch r =
     (if ch = 0x20 then Cont (hl_space_before_value, r)
      else if ch = CR then Cont (hl_almost_done, r\<lparr>header_start := Some p, header_end := Some p\<rparr>)
      else if ch = LF then Stop Goto_done (hl_space_before_value, r\<lparr>header_start := Some p, header_end := Some p\<rparr>)
      else if ch = 0 then bad_header hl_space_before_value r
      else Cont (hl_value, r\<lparr>header_start := Some p\<rparr>))"

definition on_hl_value :: "nat \<Rightarrow> u8 \<Rightarrow> header_line \<Rightarrow> hl_turn" where
  "on_hl_value p ch r =
     (if ch = 0x20 then Cont (hl_space_after_value, r\<lparr>header_end := Some p\<rparr>)
      else if ch = CR then Cont (hl_almost_done, r\<lparr>header_end := Some p\<rparr>)
      else if ch = LF then Stop Goto_done (hl_value, r\<lparr>header_end := Some p\<rparr>)
      else if ch = 0 then bad_header hl_value r
      else Cont (hl_value, r))"

definition on_hl_space_after :: "u8 \<Rightarrow> header_line \<Rightarrow> hl_turn" where
  "on_hl_space_after ch r =
     (if ch = 0x20 then Cont (hl_space_after_value, r)
      else if ch = CR then Cont (hl_almost_done, r)
      else if ch = LF then Stop Goto_done (hl_space_after_value, r)
      else if ch = 0 then bad_header hl_space_after_value r
      else Cont (hl_value, r))"

definition on_hl_ignore :: "u8 \<Rightarrow> header_line \<Rightarrow> hl_turn" where
  "on_hl_ignore ch r = (if ch = LF then Cont (hl_start, r) else Cont (hl_ignore_line, r))"

definition on_hl_almost_done :: "u8 \<Rightarrow> header_line \<Rightarrow> hl_turn" where
  "on_hl_almost_done ch r =
     (if ch = LF then Stop Goto_done (hl_almost_done, r)
      else if ch = CR then Cont (hl_almost_done, r)
      else bad_header hl_almost_done r)"

definition on_hl_header_almost_done :: "u8 \<Rightarrow> header_line \<Rightarrow> hl_turn" where
  "on_hl_header_almost_done ch r =
     (if ch = LF then Stop Goto_header_done (hl_header_almost_done, r)
      else bad_header hl_header_almost_done r)"

section \<open>The function\<close>

fun hl_step :: "bool \<Rightarrow> bytes \<Rightarrow> nat \<Rightarrow> u8 \<Rightarrow> hl_state \<times> header_line \<Rightarrow> hl_turn option" where
  "hl_step us m p ch (hl_start, r) = on_hl_start p ch r"
| "hl_step us m p ch (hl_name, r) = on_hl_name us m p ch r"
| "hl_step us m p ch (hl_space_before_value, r) = Some (on_hl_space_before p ch r)"
| "hl_step us m p ch (hl_value, r) = Some (on_hl_value p ch r)"
| "hl_step us m p ch (hl_space_after_value, r) = Some (on_hl_space_after ch r)"
| "hl_step us m p ch (hl_ignore_line, r) = Some (on_hl_ignore ch r)"
| "hl_step us m p ch (hl_almost_done, r) = Some (on_hl_almost_done ch r)"
| "hl_step us m p ch (hl_header_almost_done, r) = Some (on_hl_header_almost_done ch r)"

text \<open>The locals that are not saved: the fields keep what they held in \<open>r0\<close>, on entry.\<close>

definition hl_unsaved :: "header_line \<Rightarrow> header_line \<Rightarrow> header_line" where
  "hl_unsaved r0 r = r\<lparr>header_hash := header_hash r0, lowcase_index := lowcase_index r0\<rparr>"

definition hl_left :: "hl_state \<times> header_line \<Rightarrow> hl_state \<times> header_line \<Rightarrow> hl_state \<times> header_line" where
  "hl_left s0 s = (fst s0, hl_unsaved (snd s0) (snd s))"

text \<open>The labels \<^verbatim>\<open>done\<close> and \<^verbatim>\<open>header_done\<close>.\<close>

definition hl_done ::
  "nat \<Rightarrow> parse_exit \<Rightarrow> hl_state \<times> header_line \<Rightarrow> hl_state \<times> header_line \<Rightarrow> parse_rc \<times> (hl_state \<times> header_line) \<times> nat"
where
  "hl_done p e s0 s =
     (if e = Goto_header_done then (NGX_HTTP_PARSE_HEADER_DONE, (hl_start, hl_unsaved (snd s0) (snd s)), p + 1)
      else (Rc NGX_OK, (hl_start, snd s), p + 1))"

definition ngx_http_parse_header_line ::
  "bool \<Rightarrow> bytes \<Rightarrow> nat \<Rightarrow> nat \<Rightarrow> hl_state \<times> header_line \<Rightarrow>
   (parse_rc \<times> (hl_state \<times> header_line) \<times> nat) option" where
  "ngx_http_parse_header_line allow_underscores m pos lst s =
     incremental (hl_step allow_underscores) hl_left hl_done m pos lst s"

definition header_line_init :: "bool \<Rightarrow> header_line" where
  "header_line_init up =
     \<lparr>header_name_start = None, header_name_end = None, header_start = None, header_end = None,
      header_hash = 0, lowcase_index = 0, lowcase_header = replicate 32 0, invalid_header = False,
      upstream = up\<rparr>"

section \<open>Resuming\<close>

lemmas hl_defs =
  on_hl_space_before_def on_hl_value_def on_hl_space_after_def on_hl_ignore_def on_hl_almost_done_def
  on_hl_header_almost_done_def

lemma c_strncmp_defined: "n \<le> length s \<Longrightarrow> n \<le> length t \<Longrightarrow> \<exists>d. c_strncmp s t n = Some d"
  by (induction s t n rule: c_strncmp.induct) auto

lemma c_strncmp_take: "n \<le> length s \<Longrightarrow> c_strncmp s t n = c_strncmp (take n s) t n"
  by (induction s t n rule: c_strncmp.induct) auto

lemma hl_step_local:
  assumes "length m = length m'" and "take (Suc p) m = take (Suc p) m'" and "p < length m"
  shows "hl_step us m p ch s = hl_step us m' p ch s"
proof -
  obtain st r where s: "s = (st, r)" by (cases s)
  have "c_strncmp (drop a m) t 4 = c_strncmp (drop a m') t 4" if "p - a = 4" for a t
  proof -
    have p: "p = a + 4" using that by simp
    have "take 4 (drop a m) = take 4 (drop a m')"
      using arg_cong [OF assms(2), of "\<lambda>x. take 4 (drop a x)"] by (simp add: take_drop p)
    then show ?thesis
      using assms p c_strncmp_take [of 4 "drop a m" t] c_strncmp_take [of 4 "drop a m'" t] by simp
  qed
  then have "on_hl_name us m p ch r = on_hl_name us m' p ch r"
    by (simp add: on_hl_name_def cong: if_cong)
  then show ?thesis
    unfolding s by (cases st) simp_all
qed

lemma hl_step_return:
  "hl_step us m p ch s = Some (Stop (Return rc) s') \<Longrightarrow> rc = NGX_HTTP_PARSE_INVALID_HEADER"
  by (cases "(us, m, p, ch, s)" rule: hl_step.cases)
    (auto simp: hl_defs on_hl_start_def on_hl_name_def bind_eq_Some_conv Let_def split: if_splits)

text \<open>A result with what the call from \<open>s\<close> and \<open>pos\<close> would have left of its entry: after an invalid header
  the state, the position, the hash and the index; after the last line the hash and the index.\<close>

definition hl_entered_at ::
  "hl_state \<times> header_line \<Rightarrow> nat \<Rightarrow> parse_rc \<times> (hl_state \<times> header_line) \<times> nat \<Rightarrow>
   parse_rc \<times> (hl_state \<times> header_line) \<times> nat" where
  "hl_entered_at s pos x =
     (case x of (rc, (st, r), q) \<Rightarrow>
        if rc = NGX_HTTP_PARSE_INVALID_HEADER then (rc, (fst s, hl_unsaved (snd s) r), pos)
        else if rc = NGX_HTTP_PARSE_HEADER_DONE then (rc, (st, hl_unsaved (snd s) r), q)
        else x)"

interpretation hl: incremental_parser "hl_step us" hl_left hl_done hl_entered_at for us
proof
  show "hl_step us m p ch s = Some (Stop (Return rc) s') \<Longrightarrow> rc \<notin> success_codes" for m p ch s rc s'
    by (auto simp: success_codes_def dest: hl_step_return)
  show "hl_step us m p ch s = Some (Stop (Return rc) s') \<Longrightarrow>
      hl_entered_at s1 pos (rc, hl_left s2 s', q) = (rc, hl_left s1 s', pos)" for m p ch s rc s' s1 s2 pos q
    by (auto simp: hl_entered_at_def hl_left_def hl_unsaved_def dest: hl_step_return)
  show "hl_entered_at s1 pos (hl_done p e s2 s') = hl_done p e s1 s'" for s1 s2 s' pos p e
    by (simp add: hl_entered_at_def hl_done_def hl_unsaved_def)
qed (auto simp: hl_entered_at_def hl_done_def intro: hl_step_local)

text \<open>C5: splitting the bytes of a header between two reads at any place changes nothing that
  \<^verbatim>\<open>ngx_http_parse_header_line\<close> gives: called first on a part and then, after \<^verbatim>\<open>NGX_AGAIN\<close>, on the rest, it
  returns the code and leaves the hash, the lower-case name, the pointers, the state and the position of one
  call on all the bytes, exactly, for a header line that is accepted and for one that is still not
  complete.  Where the function does not save its locals, they are those of the second call instead of
  the one call: \<^verbatim>\<open>header_hash\<close> and \<^verbatim>\<open>lowcase_index\<close> after the line that ends the headers, and these two, the
  position and \<^verbatim>\<open>r->state\<close> after an invalid header; the code and all other fields are the same there
  too.\<close>

theorem header_line_resume:
  assumes "pos \<le> l1" and "l1 \<le> l2" and "length m1 = length m" and "take l1 m1 = take l1 m"
  shows "ngx_http_parse_header_line us m pos l2 s =
     (case ngx_http_parse_header_line us m1 pos l1 s of
        Some (Rc NGX_AGAIN, s', pos') \<Rightarrow>
          map_option (hl_entered_at s pos) (ngx_http_parse_header_line us m pos' l2 s')
      | x \<Rightarrow> x)"
  unfolding ngx_http_parse_header_line_def using assms by (rule hl.resume)

section \<open>Invariant\<close>

text \<open>The pointers are in order, and the index of \<^verbatim>\<open>lowcase_header\<close> stays inside the array.\<close>

fun hl_pointers :: "nat \<Rightarrow> hl_state \<Rightarrow> header_line \<Rightarrow> bool" where
  "hl_pointers p hl_name r \<longleftrightarrow> (\<exists>a. header_name_start r = Some a \<and> a < p)"
| "hl_pointers p hl_space_before_value r \<longleftrightarrow>
     (\<exists>a e. header_name_start r = Some a \<and> header_name_end r = Some e \<and> a < e \<and> e < p)"
| "hl_pointers p hl_value r \<longleftrightarrow>
     (\<exists>a e s. header_name_start r = Some a \<and> header_name_end r = Some e \<and> header_start r = Some s \<and>
        a < e \<and> e \<le> s \<and> s < p)"
| "hl_pointers p hl_start r \<longleftrightarrow> True"
| "hl_pointers p hl_ignore_line r \<longleftrightarrow> True"
| "hl_pointers p hl_header_almost_done r \<longleftrightarrow> True"
| "hl_pointers p _ r \<longleftrightarrow>
     (\<exists>a e s h. header_name_start r = Some a \<and> header_name_end r = Some e \<and> header_start r = Some s \<and>
        header_end r = Some h \<and> a < e \<and> e \<le> s \<and> s \<le> h \<and> h < p)"

definition hl_inv :: "bytes \<Rightarrow> nat \<Rightarrow> hl_state \<times> header_line \<Rightarrow> bool" where
  "hl_inv m p s \<longleftrightarrow> length (lowcase_header (snd s)) = 32 \<and> lowcase_index (snd s) < 32 \<and>
     hl_pointers p (fst s) (snd s)"

definition hl_post :: "bytes \<Rightarrow> nat \<Rightarrow> parse_exit \<Rightarrow> hl_state \<times> header_line \<Rightarrow> bool" where
  "hl_post m p e s \<longleftrightarrow> length (lowcase_header (snd s)) = 32 \<and> lowcase_index (snd s) < 32 \<and>
     (e = Goto_done \<longrightarrow> hl_pointers (Suc p) hl_almost_done (snd s))"

lemma length_lowcase: "length lowcase = 256"
  by (simp add: lowcase_def Let_def)

lemma rd_lowcase: "rd lowcase (unat (c :: u8)) = Some (lowcase ! unat c)"
  by (simp add: length_lowcase unat_u8_less)

definition hl_ok :: "bytes \<Rightarrow> nat \<Rightarrow> hl_turn \<Rightarrow> bool" where
  "hl_ok m p t \<longleftrightarrow> (case t of Cont s' \<Rightarrow> hl_inv m (Suc p) s' | Stop e s' \<Rightarrow> hl_post m p e s')"

lemma hl_step_ok:
  assumes "hl_inv m p s" and "hl_step us m p ch s = Some t"
  shows "hl_ok m p t"
  using assms
  by (cases "(us, m, p, ch, s)" rule: hl_step.cases)
    (auto simp: hl_ok_def hl_inv_def hl_post_def hl_defs on_hl_start_def on_hl_name_def put_lowcase_def
      rd_lowcase bind_eq_Some_conv Let_def split: if_splits)

lemma hl_step_no_fault:
  assumes "hl_inv m p s" and "p < length m"
  shows "hl_step us m p ch s \<noteq> None"
proof -
  obtain st r where s: "s = (st, r)" by (cases s)
  have f: "\<exists>d. c_strncmp (drop a m) (str ''HTTP'' @ [0]) 4 = Some d" if "p - a = 4" for a
    using that assms(2) by (intro c_strncmp_defined) (simp_all add: str_def)
  show ?thesis
    using assms(1) unfolding s hl_inv_def
    by (cases st) (auto simp: on_hl_start_def on_hl_name_def put_lowcase_def rd_lowcase Let_def dest!: f)
qed

interpretation hl_inv: invariant_parser "hl_step us" hl_inv hl_post 0 for us
proof
  fix m m' :: bytes and p s s' e
  show "take p m = take p m' \<Longrightarrow> hl_inv m p s \<Longrightarrow> hl_inv m' p s"
    by (simp add: hl_inv_def)
  show "hl_inv m p s \<Longrightarrow> p < length m \<Longrightarrow> hl_step us m p (m ! p) s = Some (Cont s') \<Longrightarrow> hl_inv m (Suc p) s'"
    by (drule (1) hl_step_ok) (simp add: hl_ok_def)
  show "hl_inv m p s \<Longrightarrow> p < length m \<Longrightarrow> hl_step us m p (m ! p) s = Some (Stop e s') \<Longrightarrow> hl_post m p e s'"
    by (drule (1) hl_step_ok) (simp add: hl_ok_def)
  show "hl_inv m p s \<Longrightarrow> p + 0 < length m \<Longrightarrow> hl_step us m p (m ! p) s \<noteq> None"
    by (rule hl_step_no_fault) simp_all
qed

section \<open>Well-formed headers\<close>

text \<open>The name loop on valid characters.\<close>

fun put_name :: "bytes \<Rightarrow> header_line \<Rightarrow> header_line" where
  "put_name [] r = r"
| "put_name (c # cs) r = put_name cs
     (r\<lparr>header_hash := ngx_hash (header_hash r) (ngx_tolower c),
        lowcase_header := (lowcase_header r)[lowcase_index r := ngx_tolower c],
        lowcase_index := (lowcase_index r + 1) mod 32\<rparr>)"

definition field_char :: "u8 \<Rightarrow> bool" where
  "field_char c \<longleftrightarrow> lowcase ! unat c \<noteq> 0"

lemma lowcase_tolower: "field_char c \<Longrightarrow> lowcase ! unat c = ngx_tolower c"
proof -
  have "list_all2 (\<lambda>l c. l = 0 \<or> l = ngx_tolower c) lowcase (map word_of_nat [0..<256])"
    by code_simp
  from list_all2_nthD [OF this, of "unat c"] show "field_char c \<Longrightarrow> lowcase ! unat c = ngx_tolower c"
    by (simp add: length_lowcase unat_u8_less field_char_def)
qed

lemma lowcase_zeros: "lowcase ! 0 = 0" "lowcase ! 10 = 0" "lowcase ! 13 = 0" "lowcase ! 0x3a = 0" "lowcase ! 0x5f = 0"
  by code_simp+

lemma name_char_other: "field_char c \<Longrightarrow> c \<noteq> 0 \<and> c \<noteq> CR \<and> c \<noteq> LF \<and> c \<noteq> 0x3a \<and> c \<noteq> 0x5f"
  using lowcase_zeros by (auto simp: field_char_def)

lemma scan_name:
  assumes "drop p m = cs @ rest" and "\<forall>c \<in> set cs. field_char c"
    and "length (lowcase_header r) = 32" and "lowcase_index r < 32"
  shows "scan (hl_step us) m p (length cs + k) (hl_name, r)
       = scan (hl_step us) m (p + length cs) k (hl_name, put_name cs r)"
  using assms
proof (induction cs arbitrary: p r)
  case (Cons c cs)
  note d = drop_ConsD [OF Cons.prems(1) [unfolded append_Cons]]
  have "hl_step us m p c (hl_name, r) = Some (Cont (hl_name, put_name [c] r))"
    using Cons.prems lowcase_tolower [of c] name_char_other [of c]
    by (auto simp: on_hl_name_def rd_lowcase put_lowcase_def field_char_def)
  then show ?case
    using Cons.IH [OF d(3), of "put_name [c] r"] Cons.prems d(4) by simp
qed simp

lemma put_name_other:
  "header_name_start (put_name cs r) = header_name_start r"
  "header_name_end (put_name cs r) = header_name_end r"
  "header_start (put_name cs r) = header_start r"
  "header_end (put_name cs r) = header_end r"
  "invalid_header (put_name cs r) = invalid_header r"
  "upstream (put_name cs r) = upstream r"
  "length (lowcase_header (put_name cs r)) = length (lowcase_header r)"
  by (induction cs arbitrary: r) auto

lemma put_name_hash:
  "hash_lc_loop (header_hash r) cs (length cs) = Some (header_hash (put_name cs r))"
proof (induction cs arbitrary: r)
  case (Cons c cs)
  then show ?case using Cons.IH [of "put_name [c] r"] by simp
qed simp

lemma put_name_index: "lowcase_index r < 32 \<Longrightarrow> lowcase_index (put_name cs r) < 32"
  by (induction cs arbitrary: r) auto

lemma put_name_lowcase:
  assumes "lowcase_index r + length cs < 32" and "length (lowcase_header r) = 32"
  shows "lowcase_index (put_name cs r) = lowcase_index r + length cs \<and>
    take (lowcase_index r + length cs) (lowcase_header (put_name cs r))
      = take (lowcase_index r) (lowcase_header r) @ map ngx_tolower cs"
  using assms
proof (induction cs arbitrary: r)
  case (Cons c cs)
  then show ?case
    using Cons.IH [of "put_name [c] r"] by (simp add: take_Suc_conv_app_nth)
qed simp

text \<open>The value: spaces inside it are passed over, and the end is that of the last word.\<close>

lemma scan_value:
  assumes "drop p m = v @ rest" and "\<forall>c \<in> set v. c \<notin> {0, CR, LF}" and "v \<noteq> []" and "last v \<noteq> 0x20"
    and "st = hl_value \<or> st = hl_space_after_value"
  shows "\<exists>x. scan (hl_step us) m p (length v + k) (st, r)
       = scan (hl_step us) m (p + length v) k (hl_value, r\<lparr>header_end := x\<rparr>)"
  using assms
proof (induction v arbitrary: p r st)
  case (Cons c v)
  note d = drop_ConsD [OF Cons.prems(1) [unfolded append_Cons]]
  show ?case
  proof (cases "v = []")
    case True
    then have "hl_step us m p c (st, r) = Some (Cont (hl_value, r\<lparr>header_end := header_end r\<rparr>))"
      using Cons.prems by (auto simp: hl_defs)
    then show ?thesis using True d(4) by (intro exI [of _ "header_end r"]) simp
  next
    case False
    obtain st' x where s: "hl_step us m p c (st, r) = Some (Cont (st', r\<lparr>header_end := x\<rparr>))"
      and st': "st' = hl_value \<or> st' = hl_space_after_value"
    proof (cases "c = 0x20 \<and> st = hl_value")
      case True
      then show ?thesis using that [of hl_space_after_value "Some p"] by (simp add: hl_defs)
    next
      case no: False
      have c: "c \<noteq> 0" "c \<noteq> CR" "c \<noteq> LF" using Cons.prems(2) by simp_all
      show ?thesis
      proof (cases "c = 0x20")
        case True
        then have "st = hl_space_after_value" using no Cons.prems(5) by simp
        then show ?thesis
          using that [of hl_space_after_value "header_end r"] True by (simp add: hl_defs)
      next
        case False
        have "hl_step us m p c (st, r) = Some (Cont (hl_value, r))"
          using Cons.prems(5) c False by (elim disjE) (simp_all add: hl_defs)
        then show ?thesis
          using that [of hl_value "header_end r"] by simp
      qed
    qed
    have l: "\<forall>c \<in> set v. c \<notin> {0, CR, LF}" "last v \<noteq> 0x20"
      using Cons.prems(2,4) False by simp_all
    obtain y where "scan (hl_step us) m (Suc p) (length v + k) (st', r\<lparr>header_end := x\<rparr>)
        = scan (hl_step us) m (Suc p + length v) k (hl_value, r\<lparr>header_end := x, header_end := y\<rparr>)"
      using Cons.IH [OF d(3) l(1) False l(2) st', of "r\<lparr>header_end := x\<rparr>"] ..
    then show ?thesis
      using s d(4) by (intro exI [of _ y]) simp
  qed
qed simp

lemma scan_spaces:
  assumes "drop p m = replicate n 0x20 @ rest" and "\<And>q. hl_step us m q 0x20 s = Some (Cont s)"
  shows "scan (hl_step us) m p (n + k) s = scan (hl_step us) m (p + n) k s"
  using assms(1)
proof (induction n arbitrary: p)
  case (Suc n)
  note d = drop_ConsD [OF Suc.prems [unfolded replicate_Suc append_Cons]]
  show ?case
    using Suc.IH [OF d(3)] d(4) assms(2) by simp
qed simp


definition header_text :: "bytes \<Rightarrow> nat \<Rightarrow> bytes \<Rightarrow> nat \<Rightarrow> bytes" where
  "header_text name a v b = name @ 0x3a # replicate a 0x20 @ v @ replicate b 0x20 @ [CR, LF]"

lemma header_line_ok:
  assumes name: "name \<noteq> []" "\<forall>c \<in> set name. field_char c"
    and v: "v \<noteq> []" "hd v \<noteq> 0x20" "last v \<noteq> 0x20" "\<forall>c \<in> set v. c \<notin> {0, CR, LF}"
    and r: "length (lowcase_header r) = 32"
    and p: "drop p m = header_text name a v b @ rest"
    and q: "q = p + length name + 1 + a"
  shows "ngx_http_parse_header_line us m p (p + length (header_text name a v b)) (hl_start, r)
    = Some (Rc NGX_OK,
        (hl_start, (put_name name (r\<lparr>header_name_start := Some p, invalid_header := False,
                                   header_hash := 0, lowcase_index := 0\<rparr>))
           \<lparr>header_name_end := Some (p + length name), header_start := Some q, header_end := Some (q + length v)\<rparr>),
        p + length (header_text name a v b))"
proof -
  let ?r0 = "r\<lparr>header_name_start := Some p, invalid_header := False, header_hash := 0, lowcase_index := 0\<rparr>"
  let ?r1 = "(put_name name ?r0)\<lparr>header_name_end := Some (p + length name)\<rparr>"
  let ?r2 = "?r1\<lparr>header_start := Some q\<rparr>"
  let ?n = "length (header_text name a v b)"
  have n: "?n = length name + Suc (a + (length v + (b + 2)))" by (simp add: header_text_def)
  have d1: "drop p m = name @ 0x3a # replicate a 0x20 @ v @ replicate b 0x20 @ [CR, LF] @ rest"
    by (simp add: p header_text_def)
  have d2: "drop (p + length name) m = 0x3a # replicate a 0x20 @ v @ replicate b 0x20 @ [CR, LF] @ rest"
    by (rule drop_appendD [OF d1])
  note d2' = drop_ConsD [OF d2]
  have d3: "drop q m = v @ replicate b 0x20 @ [CR, LF] @ rest"
    using drop_appendD [OF d2'(3)] by (simp add: q)
  have d4: "drop (q + length v) m = replicate b 0x20 @ [CR, LF] @ rest"
    by (rule drop_appendD [OF d3])
  have d5: "drop (q + length v + b) m = [CR, LF] @ rest"
    using drop_appendD [OF d4] by simp
  have 1: "scan (hl_step us) m p (length name + k) (hl_start, r)
      = scan (hl_step us) m (p + length name) k (hl_name, put_name name ?r0)" for k
  proof -
    obtain c cs where c: "name = c # cs" using name(1) by (cases name) auto
    note d = drop_ConsD [OF d1 [unfolded c append_Cons]]
    have "hl_step us m p c (hl_start, r) = Some (Cont (hl_name, put_name [c] ?r0))"
      using name c r lowcase_tolower [of c] name_char_other [of c]
      by (auto simp: on_hl_start_def rd_lowcase field_char_def Let_def)
    then show ?thesis
      using scan_name [OF d(3), of "put_name [c] ?r0" us k] name(2) c r d(4) by simp
  qed
  have 2: "scan (hl_step us) m (p + length name) (Suc k) (hl_name, put_name name ?r0)
      = scan (hl_step us) m (Suc (p + length name)) k (hl_space_before_value, ?r1)" for k
    using d2'(4) rd_lowcase [of "0x3a"] by (simp add: on_hl_name_def lowcase_zeros)
  have 3: "scan (hl_step us) m (Suc (p + length name)) (a + k) (hl_space_before_value, ?r1)
      = scan (hl_step us) m q k (hl_space_before_value, ?r1)" for k
    using scan_spaces [OF d2'(3), of us "(hl_space_before_value, ?r1)" k] by (simp add: hl_defs q)
  obtain x where 4: "scan (hl_step us) m q (length v + (b + 2)) (hl_space_before_value, ?r1)
      = scan (hl_step us) m (q + length v) (b + 2) (hl_value, ?r2\<lparr>header_end := x\<rparr>)"
  proof -
    obtain c cs where c: "v = c # cs" using v(1) by (cases v) auto
    note d = drop_ConsD [OF d3 [unfolded c append_Cons]]
    have s: "hl_step us m q c (hl_space_before_value, ?r1) = Some (Cont (hl_value, ?r2))"
      using v c by (auto simp: hl_defs)
    show thesis
    proof (cases "cs = []")
      case True
      then show ?thesis using that [of "header_end ?r2"] s d(4) c by simp
    next
      case False
      have l: "\<forall>c \<in> set cs. c \<notin> {0, CR, LF}" "last cs \<noteq> 0x20" using v c False by auto
      show ?thesis
        using scan_value [OF d(3) l(1) False l(2), of hl_value us "b + 2" ?r2] that s d(4) c by auto
    qed
  qed
  have 5: "scan (hl_step us) m (q + length v) (b + 2) (hl_value, ?r2\<lparr>header_end := x\<rparr>)
      = Some (Stopped (q + length v + b + 1) Goto_done (hl_almost_done, ?r2\<lparr>header_end := Some (q + length v)\<rparr>))"
  proof -
    let ?r3 = "?r2\<lparr>header_end := Some (q + length v)\<rparr>" and ?e = "q + length v"
    note c = drop_ConsD [OF d5 [unfolded append_Cons]]
    note l = drop_ConsD [OF c(3)]
    have 6: "scan (hl_step us) m (?e + b) 2 (hl_space_after_value, ?r3) = Some (Stopped (?e + b + 1) Goto_done (hl_almost_done, ?r3))"
      using c(4) l(4) unfolding numeral_2_eq_2 by (simp add: hl_defs)
    show ?thesis
    proof (cases b)
      case 0
      then show ?thesis
        using c(4) l(4) unfolding numeral_2_eq_2 by (simp add: hl_defs)
    next
      case (Suc n)
      note d = drop_ConsD [OF d4 [unfolded Suc replicate_Suc append_Cons]]
      have "scan (hl_step us) m ?e (Suc (n + 2)) (hl_value, ?r2\<lparr>header_end := x\<rparr>)
          = scan (hl_step us) m (Suc ?e) (n + 2) (hl_space_after_value, ?r3)"
        using d(4) by (simp add: hl_defs)
      also have "\<dots> = scan (hl_step us) m (Suc ?e + n) 2 (hl_space_after_value, ?r3)"
        by (rule scan_spaces [OF d(3)]) (simp add: hl_defs)
      finally show ?thesis using 6 by (simp add: Suc)
    qed
  qed
  have "scan (hl_step us) m p (p + ?n - p) (hl_start, r)
      = Some (Stopped (q + length v + b + 1) Goto_done (hl_almost_done, ?r2\<lparr>header_end := Some (q + length v)\<rparr>))"
    by (simp only: n 1 2 3 4 5 diff_add_inverse)
  then show ?thesis
    by (simp add: ngx_http_parse_header_line_def incremental_def hl_done_def n q)
qed

text \<open>C6: a header \<open>Name:\<close>, spaces, a value, spaces and a line end, with a name of letters, digits and
  hyphens and a value that neither begins nor ends with a space, is accepted wherever it stands: the
  pointers delimit the name and the value without the spaces around it, the hash is that of
  \<^verbatim>\<open>ngx_hash_key_lc\<close> on the name, and for a name shorter than 32 the array holds it in lower case
  and \<^verbatim>\<open>lowcase_index\<close> is its length; for a longer one \<^verbatim>\<open>lowcase_index\<close> is not its length.\<close>

theorem header_line_well_formed:
  assumes name: "name \<noteq> []" "\<forall>c \<in> set name. field_char c"
    and v: "v \<noteq> []" "hd v \<noteq> 0x20" "last v \<noteq> 0x20" "\<forall>c \<in> set v. c \<notin> {0, CR, LF}"
    and r: "length (lowcase_header r) = 32"
    and p: "drop p m = header_text name a v b @ rest"
    and q: "q = p + length name + 1 + a"
  shows "\<exists>r'. ngx_http_parse_header_line us m p (p + length (header_text name a v b)) (hl_start, r)
      = Some (Rc NGX_OK, (hl_start, r'), p + length (header_text name a v b)) \<and>
    header_name_start r' = Some p \<and> header_name_end r' = Some (p + length name) \<and>
    header_start r' = Some q \<and> header_end r' = Some (q + length v) \<and> \<not> invalid_header r' \<and>
    ngx_hash_key_lc name (length name) = Some (header_hash r') \<and>
    (if length name < 32
     then lowcase_index r' = length name \<and> take (length name) (lowcase_header r') = map ngx_tolower name
     else lowcase_index r' \<noteq> length name)"
proof -
  let ?r0 = "r\<lparr>header_name_start := Some p, invalid_header := False, header_hash := 0, lowcase_index := 0\<rparr>"
  have "hash_lc_loop 0 name (length name) = Some (header_hash (put_name name ?r0))"
    using put_name_hash [of ?r0 name] by simp
  moreover have "lowcase_index (put_name name ?r0) < 32"
    by (rule put_name_index) simp
  moreover have "length name < 32 \<Longrightarrow> lowcase_index (put_name name ?r0) = length name \<and>
      take (length name) (lowcase_header (put_name name ?r0)) = map ngx_tolower name"
    using put_name_lowcase [of ?r0 name] r by simp
  ultimately show ?thesis
    using header_line_ok [OF assms] by (auto simp: put_name_other ngx_hash_key_lc_def)
qed

text \<open>What a concrete call gives, for examples.\<close>

definition hl_view where
  "hl_view x = (case x of
     Some (rc, (st, r), pos) \<Rightarrow>
       Some (rc, (header_name_start r, header_name_end r, header_start r, header_end r),
             (Some (header_hash r), take (lowcase_index r) (lowcase_header r), invalid_header r), pos)
   | None \<Rightarrow> None)"

lemma header_line_well_formed_witness:
  "\<exists>r'. ngx_http_parse_header_line False (header_text (str ''Host'') 1 (str ''a b'') 2) 0 13 (hl_start, header_line_init False)
      = Some (Rc NGX_OK, (hl_start, r'), 13) \<and> header_start r' = Some 6 \<and> header_end r' = Some 9 \<and>
    lowcase_index r' = 4"
proof -
  let ?t = "header_text (str ''Host'') 1 (str ''a b'') 2"
  have l: "length ?t = 13" "length (str ''Host'') = 4" "length (str ''a b'') = 3" by code_simp+
  have p: "str ''Host'' \<noteq> []" "\<forall>c \<in> set (str ''Host''). field_char c" "str ''a b'' \<noteq> []"
    "hd (str ''a b'') \<noteq> 0x20" "last (str ''a b'') \<noteq> 0x20" "\<forall>c \<in> set (str ''a b''). c \<notin> {0, CR, LF}"
    "length (lowcase_header (header_line_init False)) = 32" "drop 0 ?t = ?t @ []" "6 = 0 + length (str ''Host'') + 1 + (1::nat)"
    by code_simp+
  show ?thesis
    using header_line_well_formed [OF p, of False, unfolded l add_0] by auto
qed

text \<open>A header name that begins with an invalid character does not reset the hash and the lower-case
  name of the header before it: after \<open>h: 1\<close>, the name \<open>_ost\<close> leaves \<open>host\<close> in \<^verbatim>\<open>lowcase_header\<close>, its
  length in \<^verbatim>\<open>lowcase_index\<close> and the hash of \<open>host\<close> in \<^verbatim>\<open>header_hash\<close>, so that where invalid headers are
  not ignored it is looked up as \<open>Host\<close>.\<close>

theorem header_name_alias:
  "(case ngx_http_parse_header_line False (str ''h: 1'' @ LF # str ''_ost: x'' @ [LF]) 0 13
           (hl_start, header_line_init False) of
      Some (Rc NGX_OK, s, pos) \<Rightarrow>
        hl_view (ngx_http_parse_header_line False (str ''h: 1'' @ LF # str ''_ost: x'' @ [LF]) pos 13 s)
    | _ \<Rightarrow> None)
   = Some (Rc NGX_OK, (Some 5, Some 9, Some 11, Some 12),
           (ngx_hash_key_lc (str ''host'') 4, str ''host'', True), 13)"
  by code_simp

text \<open>C7: whatever the bytes, \<^verbatim>\<open>ngx_http_parse_header_line\<close> reads only the bytes it is given and never stores
  outside the 32 bytes of \<^verbatim>\<open>lowcase_header\<close>; and when it accepts a header its pointers are in order: a
  name that is not empty, then the value, then the line end.\<close>

theorem header_line_safe:
  assumes "length (lowcase_header r) = 32" and "lowcase_index r < 32" and "pos \<le> lst" and "lst \<le> length m"
  shows "\<exists>rc st r' pos'. ngx_http_parse_header_line us m pos lst (hl_start, r) = Some (rc, (st, r'), pos') \<and>
    (rc \<noteq> Rc NGX_OK \<or>
       (\<exists>a e s h. header_name_start r' = Some a \<and> header_name_end r' = Some e \<and> header_start r' = Some s \<and>
          header_end r' = Some h \<and> a < e \<and> e \<le> s \<and> s \<le> h \<and> h < pos' \<and> pos' \<le> lst))"
proof -
  have i: "hl_inv m pos (hl_start, r)" using assms by (simp add: hl_inv_def)
  obtain x where x: "scan (hl_step us) m pos (lst - pos) (hl_start, r) = Some x"
    using hl_inv.scan_no_fault [OF i, of "lst - pos" us] assms by auto
  show ?thesis
  proof (cases x)
    case (Again s')
    then show ?thesis using x by (cases s') (simp add: ngx_http_parse_header_line_def incremental_def)
  next
    case (Stopped p e s')
    have x': "scan (hl_step us) m pos (lst - pos) (hl_start, r) = Some (Stopped p e s')"
      using x Stopped by simp
    have "hl_post m p e s'" "p < lst"
      using hl_inv.scan_post [OF i x'] scan_stopped_less [OF x'] assms(3) by simp_all
    moreover have "e = Return rc \<Longrightarrow> rc \<noteq> Rc NGX_OK" for rc
      using hl.scan_return_error [of us m pos "lst - pos" "(hl_start, r)" p rc s'] x Stopped
      by (auto simp: success_codes_def)
    ultimately show ?thesis
      using x Stopped
      by (cases s'; cases e) (auto simp: ngx_http_parse_header_line_def incremental_def hl_done_def hl_post_def)
  qed
qed

lemma header_line_safe_witness:
  "\<exists>rc st r' pos'. ngx_http_parse_header_line True (str ''a'') 0 1 (hl_start, header_line_init True) = Some (rc, (st, r'), pos')"
  using header_line_safe [of "header_line_init True" 0 1 "str ''a''" True]
  by (auto simp: header_line_init_def str_def)

lemma hl_viewD:
  assumes "hl_view x = Some (rc, (a, e, s, h), (k, lc, bad), pos)"
  obtains st r where "x = Some (rc, (st, r), pos)"
  using assms by (auto simp: hl_view_def split: option.splits prod.splits)

text \<open>A header in two parts, accepted as in one call; and an upstream's status line before the last line,
  where one call leaves the hash of its entry and the second of two calls that of \<open>HT\<close>.\<close>

lemma header_line_resume_witness:
  "(\<exists>s. ngx_http_parse_header_line False (str ''Host: abXX'') 0 8 (hl_start, header_line_init False)
       = Some (Rc NGX_AGAIN, s, 8) \<and>
     hl_view (ngx_http_parse_header_line False (str ''Host: ab'' @ [CR, LF]) 8 10 s)
       = Some (Rc NGX_OK, (Some 0, Some 4, Some 6, Some 8), (ngx_hash_key_lc (str ''host'') 4, str ''host'', False), 10)) \<and>
   (\<exists>s. ngx_http_parse_header_line False (str ''HTTP/1.1'' @ [LF, LF]) 0 2 (hl_start, header_line_init True)
       = Some (Rc NGX_AGAIN, s, 2) \<and>
     hl_view (ngx_http_parse_header_line False (str ''HTTP/1.1'' @ [LF, LF]) 2 10 s)
       = Some (NGX_HTTP_PARSE_HEADER_DONE, (Some 9, None, None, Some 9),
               (ngx_hash_key_lc (str ''ht'') 2, str ''ht'', False), 10) \<and>
     hl_view (ngx_http_parse_header_line False (str ''HTTP/1.1'' @ [LF, LF]) 0 10 (hl_start, header_line_init True))
       = Some (NGX_HTTP_PARSE_HEADER_DONE, (Some 9, None, None, Some 9), (Some 0, [], False), 10))"
proof (rule conjI)
  let ?f = "ngx_http_parse_header_line False" and ?m = "str ''Host: ab'' @ [CR, LF]"
    and ?s = "(hl_start, header_line_init False)"
  have "hl_view (?f (str ''Host: abXX'') 0 8 ?s)
      = Some (Rc NGX_AGAIN, (Some 0, Some 4, Some 6, None), (ngx_hash_key_lc (str ''host'') 4, str ''host'', False), 8)"
    by code_simp
  then obtain st r where 1: "?f (str ''Host: abXX'') 0 8 ?s = Some (Rc NGX_AGAIN, (st, r), 8)"
    by (rule hl_viewD)
  have p: "(0 :: nat) \<le> 8" "(8 :: nat) \<le> 10" "length (str ''Host: abXX'') = length ?m"
    "take 8 (str ''Host: abXX'') = take 8 ?m"
    by code_simp+
  have "hl_view (?f ?m 0 10 ?s)
      = Some (Rc NGX_OK, (Some 0, Some 4, Some 6, Some 8), (ngx_hash_key_lc (str ''host'') 4, str ''host'', False), 10)"
    by code_simp
  then have "hl_view (?f ?m 8 10 (st, r))
      = Some (Rc NGX_OK, (Some 0, Some 4, Some 6, Some 8), (ngx_hash_key_lc (str ''host'') 4, str ''host'', False), 10)"
    using header_line_resume [OF p, of False ?s]
    by (auto simp: 1 hl_view_def hl_entered_at_def split: option.splits prod.splits if_splits)
  then show "\<exists>s. ?f (str ''Host: abXX'') 0 8 ?s = Some (Rc NGX_AGAIN, s, 8) \<and> hl_view (?f ?m 8 10 s)
      = Some (Rc NGX_OK, (Some 0, Some 4, Some 6, Some 8), (ngx_hash_key_lc (str ''host'') 4, str ''host'', False), 10)"
    using 1 by blast
next
  let ?f = "ngx_http_parse_header_line False (str ''HTTP/1.1'' @ [LF, LF])" and ?s = "(hl_start, header_line_init True)"
  have "hl_view (?f 0 2 ?s) = Some (Rc NGX_AGAIN, (Some 0, None, None, None), (ngx_hash_key_lc (str ''ht'') 2, str ''ht'', False), 2)"
    by code_simp
  then obtain st r where 2: "?f 0 2 ?s = Some (Rc NGX_AGAIN, (st, r), 2)"
    by (rule hl_viewD)
  moreover have "case ?f 0 2 ?s of Some (rc, s', q) \<Rightarrow> hl_view (?f q 10 s')
       = Some (NGX_HTTP_PARSE_HEADER_DONE, (Some 9, None, None, Some 9),
               (ngx_hash_key_lc (str ''ht'') 2, str ''ht'', False), 10) | None \<Rightarrow> False"
    by code_simp
  moreover have "hl_view (?f 0 10 ?s)
       = Some (NGX_HTTP_PARSE_HEADER_DONE, (Some 9, None, None, Some 9), (Some 0, [], False), 10)"
    by code_simp
  ultimately show "\<exists>s. ?f 0 2 ?s = Some (Rc NGX_AGAIN, s, 2) \<and> hl_view (?f 2 10 s)
       = Some (NGX_HTTP_PARSE_HEADER_DONE, (Some 9, None, None, Some 9),
               (ngx_hash_key_lc (str ''ht'') 2, str ''ht'', False), 10) \<and>
     hl_view (?f 0 10 ?s)
       = Some (NGX_HTTP_PARSE_HEADER_DONE, (Some 9, None, None, Some 9), (Some 0, [], False), 10)"
    by simp
qed

end
