(* ===== verification/HttpComplexUri.thy ===== *)
theory HttpComplexUri
  imports HttpRequestLine "HOL-Library.Sublist"
begin

text \<open>
  \<^verbatim>\<open>ngx_http_parse_complex_uri\<close> of \<^verbatim>\<open>src/http/ngx_http_parse.c\<close>: the decoder and normaliser of a request
  path.  \<open>src\<close> is the memory from \<^verbatim>\<open>r->uri_start\<close> on, so positions are offsets from it, and \<open>n\<close> is
  the offset of \<^verbatim>\<open>r->uri_end\<close>.  What lies between \<^verbatim>\<open>r->uri.data\<close> and \<open>u\<close> is the list \<open>cu_out\<close>: the code
  writes at \<open>u\<close>, moves \<open>u\<close> back, and reads only below it.
\<close>

section \<open>State\<close>

text \<open>\<^verbatim>\<open>quoted_state\<close> is always one of the four states outside an escape.\<close>

datatype cu_plain = cu_usual | cu_slash | cu_dot | cu_dot_dot

datatype cu_state = Unquoted cu_plain | cu_quoted | cu_quoted_second

record cu =
  cu_p :: nat               \<comment> \<open>\<^verbatim>\<open>p\<close>\<close>
  cu_ch :: u8               \<comment> \<open>\<^verbatim>\<open>ch\<close>\<close>
  cu_st :: cu_state         \<comment> \<open>\<^verbatim>\<open>state\<close>\<close>
  cu_qst :: cu_plain        \<comment> \<open>\<^verbatim>\<open>quoted_state\<close>\<close>
  cu_decoded :: u8
  cu_out :: bytes
  cu_exten :: "nat option"    \<comment> \<open>\<^verbatim>\<open>r->uri_ext\<close>, an offset into the output\<close>
  cu_args :: "nat option"   \<comment> \<open>\<^verbatim>\<open>r->args_start\<close>\<close>
  cu_plus :: bool           \<comment> \<open>\<^verbatim>\<open>r->plus_in_uri\<close>\<close>
  cu_quoted_uri :: bool     \<comment> \<open>\<^verbatim>\<open>r->quoted_uri\<close>\<close>

datatype cu_turn = Loop cu | To_done cu | To_args cu | Bad

text \<open>\<^verbatim>\<open>ch = *p++\<close> and \<^verbatim>\<open>*u++ = ch\<close>\<close>

definition next_ch :: "bytes \<Rightarrow> cu \<Rightarrow> cu_turn option" where
  "next_ch src c = map_option (\<lambda>ch. Loop (c\<lparr>cu_ch := ch, cu_p := cu_p c + 1\<rparr>)) (rd src (cu_p c))"

definition put_ch :: "u8 \<Rightarrow> cu \<Rightarrow> cu" where
  "put_ch ch c = c\<lparr>cu_out := cu_out c @ [ch]\<rparr>"

section \<open>The states\<close>

definition on_cu_usual :: "bytes \<Rightarrow> cu \<Rightarrow> cu_turn option" where
  "on_cu_usual src c =
     (let ch = cu_ch c in
      if in_bitmap usual ch then next_ch src (put_ch ch c)
      else if ch = 0x2f then next_ch src (put_ch ch (c\<lparr>cu_exten := None, cu_st := Unquoted cu_slash\<rparr>))
      else if ch = 0x25 then next_ch src (c\<lparr>cu_qst := cu_usual, cu_st := cu_quoted\<rparr>)
      else if ch = 0x3f then Some (To_args (c\<lparr>cu_args := Some (cu_p c)\<rparr>))
      else if ch = 0x23 then Some (To_done c)
      else if ch = 0x2e then next_ch src (put_ch ch (c\<lparr>cu_exten := Some (length (cu_out c) + 1)\<rparr>))
      else if ch = 0x2b then next_ch src (put_ch ch (c\<lparr>cu_plus := True\<rparr>))
      else next_ch src (put_ch ch c))"

definition on_cu_slash :: "bool \<Rightarrow> bytes \<Rightarrow> cu \<Rightarrow> cu_turn option" where
  "on_cu_slash merge_slashes src c =
     (let ch = cu_ch c in
      if in_bitmap usual ch then next_ch src (put_ch ch (c\<lparr>cu_st := Unquoted cu_usual\<rparr>))
      else if ch = 0x2f then next_ch src (if merge_slashes then c else put_ch ch c)
      else if ch = 0x2e then next_ch src (put_ch ch (c\<lparr>cu_st := Unquoted cu_dot\<rparr>))
      else if ch = 0x25 then next_ch src (c\<lparr>cu_qst := cu_slash, cu_st := cu_quoted\<rparr>)
      else if ch = 0x3f then Some (To_args (c\<lparr>cu_args := Some (cu_p c)\<rparr>))
      else if ch = 0x23 then Some (To_done c)
      else if ch = 0x2b then next_ch src (put_ch ch (c\<lparr>cu_plus := True, cu_st := Unquoted cu_usual\<rparr>))
      else next_ch src (put_ch ch (c\<lparr>cu_st := Unquoted cu_usual\<rparr>)))"

definition on_cu_dot :: "bytes \<Rightarrow> cu \<Rightarrow> cu_turn option" where
  "on_cu_dot src c =
     (let ch = cu_ch c in
      if in_bitmap usual ch then next_ch src (put_ch ch (c\<lparr>cu_st := Unquoted cu_usual\<rparr>))
      else if ch = 0x2f then next_ch src (c\<lparr>cu_st := Unquoted cu_slash, cu_out := butlast (cu_out c)\<rparr>)
      else if ch = 0x2e then next_ch src (put_ch ch (c\<lparr>cu_st := Unquoted cu_dot_dot\<rparr>))
      else if ch = 0x25 then next_ch src (c\<lparr>cu_qst := cu_dot, cu_st := cu_quoted\<rparr>)
      else if ch = 0x3f then Some (To_args (c\<lparr>cu_args := Some (cu_p c)\<rparr>))
      else if ch = 0x23 then Some (To_done c)
      else if ch = 0x2b then next_ch src (put_ch ch (c\<lparr>cu_plus := True, cu_st := Unquoted cu_usual\<rparr>))
      else next_ch src (put_ch ch (c\<lparr>cu_st := Unquoted cu_usual\<rparr>)))"

text \<open>
  The walk back over a directory: \<open>k\<close> is the offset of \<open>u\<close> plus one, 0 when \<open>u\<close> is below
  \<^verbatim>\<open>r->uri.data\<close>; the result is the output up to and including the slash found.
\<close>

fun back_to_slash :: "bytes \<Rightarrow> nat \<Rightarrow> bytes option" where
  "back_to_slash out 0 = None"
| "back_to_slash out (Suc k) =
     (if out ! k = 0x2f then Some (take (Suc k) out) else back_to_slash out k)"

definition on_cu_dot_dot :: "bytes \<Rightarrow> cu \<Rightarrow> cu_turn option" where
  "on_cu_dot_dot src c =
     (let ch = cu_ch c in
      if in_bitmap usual ch then next_ch src (put_ch ch (c\<lparr>cu_st := Unquoted cu_usual\<rparr>))
      else if ch = 0x2f then
        (case back_to_slash (cu_out c) (length (cu_out c) - 4) of
           None \<Rightarrow> Some Bad
         | Some out \<Rightarrow> next_ch src (c\<lparr>cu_st := Unquoted cu_slash, cu_out := out\<rparr>))
      else if ch = 0x25 then next_ch src (c\<lparr>cu_qst := cu_dot_dot, cu_st := cu_quoted\<rparr>)
      else if ch = 0x3f then Some (To_args (c\<lparr>cu_args := Some (cu_p c)\<rparr>))
      else if ch = 0x23 then Some (To_done c)
      else if ch = 0x2b then next_ch src (put_ch ch (c\<lparr>cu_plus := True, cu_st := Unquoted cu_usual\<rparr>))
      else next_ch src (put_ch ch (c\<lparr>cu_st := Unquoted cu_usual\<rparr>)))"

definition on_cu_quoted :: "bytes \<Rightarrow> cu \<Rightarrow> cu_turn option" where
  "on_cu_quoted src c0 =
     (let c = c0\<lparr>cu_quoted_uri := True\<rparr>; ch = cu_ch c in
      if 0x30 \<le> ch \<and> ch \<le> 0x39 then
        next_ch src (c\<lparr>cu_decoded := ch - 0x30, cu_st := cu_quoted_second\<rparr>)
      else if 0x61 \<le> ch OR 0x20 \<and> ch OR 0x20 \<le> 0x66 then
        next_ch src (c\<lparr>cu_decoded := (ch OR 0x20) - 0x61 + 10, cu_st := cu_quoted_second\<rparr>)
      else Some Bad)"

definition on_cu_quoted_second :: "bytes \<Rightarrow> cu \<Rightarrow> cu_turn option" where
  "on_cu_quoted_second src c =
     (if 0x30 \<le> cu_ch c \<and> cu_ch c \<le> 0x39 then
        (let ch = push_bit 4 (cu_decoded c) + cu_ch c - 0x30 in
         if ch = 0x25 \<or> ch = 0x23 then next_ch src (put_ch ch (c\<lparr>cu_st := Unquoted cu_usual\<rparr>))
         else if ch = 0 then Some Bad
         else Some (Loop (c\<lparr>cu_ch := ch, cu_st := Unquoted (cu_qst c)\<rparr>)))
      else if 0x61 \<le> cu_ch c OR 0x20 \<and> cu_ch c OR 0x20 \<le> 0x66 then
        (let ch = push_bit 4 (cu_decoded c) + (cu_ch c OR 0x20) - 0x61 + 10 in
         if ch = 0x3f then next_ch src (put_ch ch (c\<lparr>cu_st := Unquoted cu_usual\<rparr>))
         else Some (Loop (c\<lparr>cu_ch := ch, cu_st := Unquoted (cu_qst c), cu_plus := (cu_plus c \<or> ch = 0x2b)\<rparr>)))
      else Some Bad)"

definition cu_step :: "bool \<Rightarrow> bytes \<Rightarrow> cu \<Rightarrow> cu_turn option" where
  "cu_step merge_slashes src c =
     (case cu_st c of
        Unquoted cu_usual \<Rightarrow> on_cu_usual src c
      | Unquoted cu_slash \<Rightarrow> on_cu_slash merge_slashes src c
      | Unquoted cu_dot \<Rightarrow> on_cu_dot src c
      | Unquoted cu_dot_dot \<Rightarrow> on_cu_dot_dot src c
      | cu_quoted \<Rightarrow> on_cu_quoted src c
      | cu_quoted_second \<Rightarrow> on_cu_quoted_second src c)"

section \<open>The loop\<close>

text \<open>
  A turn consumes a byte, except that a decoded byte is first put back as \<open>ch\<close>, to be handled in the
  state before the escape.
\<close>

definition cu_measure :: "nat \<Rightarrow> cu \<Rightarrow> nat" where
  "cu_measure n c = 2 * (n + 1 - cu_p c) + (if cu_st c = cu_quoted_second then 1 else 0)"

lemmas cu_defs =
  on_cu_usual_def on_cu_slash_def on_cu_dot_def on_cu_dot_dot_def on_cu_quoted_def
  on_cu_quoted_second_def next_ch_def put_ch_def Let_def

lemma cu_step_Loop:
  assumes "cu_step mg src c = Some (Loop c')" and "cu_p c \<le> n"
  shows "cu_measure n c' < cu_measure n c"
  using assms unfolding cu_step_def
  by (auto simp: cu_defs cu_measure_def split: if_splits option.splits cu_state.splits cu_plain.splits)

datatype cu_exit = Exit_done cu | Exit_args cu | Exit_bad

function cu_loop :: "bool \<Rightarrow> bytes \<Rightarrow> nat \<Rightarrow> cu \<Rightarrow> cu_exit option" where
  "cu_loop mg src n c =
     (if \<not> cu_p c \<le> n then Some (Exit_done c)
      else case cu_step mg src c of
             None \<Rightarrow> None
           | Some (Loop c') \<Rightarrow> cu_loop mg src n c'
           | Some (To_done c') \<Rightarrow> Some (Exit_done c')
           | Some (To_args c') \<Rightarrow> Some (Exit_args c')
           | Some Bad \<Rightarrow> Some Exit_bad)"
  by pat_completeness auto
termination
  by (relation "measure (\<lambda>(mg, src, n, c). cu_measure n c)") (auto dest: cu_step_Loop)

declare cu_loop.simps [simp del]

section \<open>The function\<close>

record complex_result =
  res_uri :: bytes                      \<comment> \<open>\<^verbatim>\<open>r->uri\<close>\<close>
  res_exten :: "bytes option"           \<comment> \<open>\<^verbatim>\<open>r->exten\<close>, when it is set\<close>
  res_args :: "(nat \<times> nat) option"     \<comment> \<open>\<^verbatim>\<open>r->args\<close>, offset and length, when it is set\<close>
  res_args_start :: "nat option"
  res_plus :: bool
  res_quoted :: bool

text \<open>The label \<^verbatim>\<open>done\<close>, and the search for a fragment after the label \<^verbatim>\<open>args\<close>.\<close>

definition cu_finish :: "cu \<Rightarrow> complex_result" where
  "cu_finish c =
     \<lparr>res_uri = cu_out c, res_exten = map_option (\<lambda>e. drop e (cu_out c)) (cu_exten c), res_args = None,
      res_args_start = cu_args c, res_plus = cu_plus c, res_quoted = cu_quoted_uri c\<rparr>"

fun args_fragment :: "bytes \<Rightarrow> nat \<Rightarrow> nat \<Rightarrow> nat option option" where
  "args_fragment src p 0 = Some None"
| "args_fragment src p (Suc k) =
     (case rd src p of
        None \<Rightarrow> None
      | Some b \<Rightarrow> if b \<noteq> 0x23 then args_fragment src (p + 1) k else Some (Some (p + 1)))"

definition cu_finish_args :: "bytes \<Rightarrow> nat \<Rightarrow> cu \<Rightarrow> complex_result option" where
  "cu_finish_args src n c = do {
     a \<leftarrow> cu_args c;
     f \<leftarrow> args_fragment src (cu_p c) (n - cu_p c);
     Some (case f of
             None \<Rightarrow> cu_finish c
           | Some p \<Rightarrow> (cu_finish c)\<lparr>res_args := Some (a, p - 1 - a), res_args_start := None\<rparr>) }"

text \<open>\<open>Inl\<close> is the error code \<^verbatim>\<open>NGX_HTTP_PARSE_INVALID_REQUEST\<close>.\<close>

definition ngx_http_parse_complex_uri ::
  "bool \<Rightarrow> bytes \<Rightarrow> nat \<Rightarrow> bool \<Rightarrow> bool \<Rightarrow> (parse_rc + complex_result) option" where
  "ngx_http_parse_complex_uri merge_slashes src n plus0 quoted0 = do {
     ch \<leftarrow> rd src 0;
     x \<leftarrow> cu_loop merge_slashes src n
            \<lparr>cu_p = 1, cu_ch = ch, cu_st = Unquoted cu_usual, cu_qst = cu_usual, cu_decoded = 0,
             cu_out = [], cu_exten = None, cu_args = None, cu_plus = plus0, cu_quoted_uri = quoted0\<rparr>;
     case x of
       Exit_bad \<Rightarrow> Some (Inl NGX_HTTP_PARSE_INVALID_REQUEST)
     | Exit_done c \<Rightarrow> Some (Inr (cu_finish c))
     | Exit_args c \<Rightarrow> map_option Inr (cu_finish_args src n c) }"

definition cu_view where
  "cu_view x = (case x of
     Some (Inr r) \<Rightarrow> Some (Inr (res_uri r, res_exten r, res_args r, res_args_start r, res_quoted r))
   | Some (Inl e) \<Rightarrow> Some (Inl e)
   | None \<Rightarrow> None)"

section \<open>What the decoded path cannot contain\<close>

definition clean :: "bool \<Rightarrow> bytes \<Rightarrow> bool" where
  "clean mg out \<longleftrightarrow> \<not> sublist [0x2f, 0x2e, 0x2e, 0x2f] out \<and> \<not> sublist [0x2f, 0x2e, 0x2f] out \<and>
     (mg \<longrightarrow> \<not> sublist [0x2f, 0x2f] out)"

lemma sublist_snoc: "sublist xs (ys @ [y]) \<longleftrightarrow> sublist xs ys \<or> suffix xs (ys @ [y])"
proof
  assume "sublist xs (ys @ [y])"
  then obtain a b where e: "ys @ [y] = a @ xs @ b" by (auto simp: sublist_def)
  show "sublist xs ys \<or> suffix xs (ys @ [y])"
  proof (cases b rule: rev_cases)
    case Nil
    then show ?thesis using e by (auto simp: suffix_def)
  next
    case (snoc b' z)
    then have "ys = a @ xs @ b'" using e by (simp flip: append_assoc)
    then show ?thesis by (auto simp: sublist_def)
  qed
next
  assume "sublist xs ys \<or> suffix xs (ys @ [y])"
  then show "sublist xs (ys @ [y])"
    by (meson suffix_imp_sublist sublist_appendI prefix_imp_sublist prefixI sublist_order.order_trans)
qed

lemma suffix_snoc_list:
  "suffix [a, b, c, d] (ys @ [y]) \<longleftrightarrow> d = y \<and> suffix [a, b, c] ys"
  "suffix [a, b, c] (ys @ [y]) \<longleftrightarrow> c = y \<and> suffix [a, b] ys"
  "suffix [a, b] (ys @ [y]) \<longleftrightarrow> b = y \<and> suffix [a] ys"
  "suffix [a] (ys @ [y]) \<longleftrightarrow> a = y"
  using snoc_suffix_snoc [of "[a, b, c]" d ys y] snoc_suffix_snoc [of "[a, b]" c ys y]
    snoc_suffix_snoc [of "[a]" b ys y] snoc_suffix_snoc [of "[]" a ys y] by auto

lemma clean_Nil: "clean mg []"
  by (simp add: clean_def)

lemma clean_snoc:
  "clean mg (out @ [ch]) \<longleftrightarrow> clean mg out \<and>
     (ch = 0x2f \<longrightarrow> \<not> suffix [0x2f, 0x2e, 0x2e] out \<and> \<not> suffix [0x2f, 0x2e] out \<and> (mg \<longrightarrow> \<not> suffix [0x2f] out))"
  unfolding clean_def sublist_snoc suffix_snoc_list by auto

lemma clean_prefix: "clean mg (a @ b) \<Longrightarrow> clean mg a"
  unfolding clean_def by (meson prefix_imp_sublist prefixI sublist_order.order_trans)

lemma clean_take: "clean mg out \<Longrightarrow> clean mg (take k out)"
  by (metis append_take_drop_id clean_prefix)

text \<open>How the output ends in each state.\<close>

fun tail_ok :: "cu_plain \<Rightarrow> bytes \<Rightarrow> bool" where
  "tail_ok cu_usual out \<longleftrightarrow> \<not> suffix [0x2f] out \<and> \<not> suffix [0x2f, 0x2e] out \<and> \<not> suffix [0x2f, 0x2e, 0x2e] out"
| "tail_ok cu_slash out \<longleftrightarrow> suffix [0x2f] out"
| "tail_ok cu_dot out \<longleftrightarrow> suffix [0x2f, 0x2e] out"
| "tail_ok cu_dot_dot out \<longleftrightarrow> suffix [0x2f, 0x2e, 0x2e] out"

definition eff_state :: "cu \<Rightarrow> cu_plain" where
  "eff_state c = (case cu_st c of Unquoted s \<Rightarrow> s | _ \<Rightarrow> cu_qst c)"

definition cu_inv :: "bool \<Rightarrow> nat \<Rightarrow> cu \<Rightarrow> bool" where
  "cu_inv mg n c \<longleftrightarrow> cu_p c \<le> n + 1 \<and> length (cu_out c) < cu_p c \<and> clean mg (cu_out c) \<and>
     tail_ok (eff_state c) (cu_out c) \<and>
     (\<forall>e. cu_exten c = Some e \<longrightarrow> eff_state c = cu_usual \<and> e \<le> length (cu_out c))"

lemma suffix_butlast: "suffix [a, b] out \<Longrightarrow> suffix [a] (butlast out)"
  by (auto simp: suffix_def butlast_append)

lemma clean_butlast: "clean mg out \<Longrightarrow> clean mg (butlast out)"
  by (simp add: butlast_conv_take clean_take)

lemma suffix_lastD: "suffix [a, b] out \<Longrightarrow> suffix [b] out" "suffix [a, b, c] out \<Longrightarrow> suffix [b, c] out"
  by (auto simp: suffix_def)

lemma back_to_slash_Some:
  "back_to_slash out k = Some o' \<Longrightarrow> k \<le> length out \<Longrightarrow>
    \<exists>j < k. o' = take (Suc j) out \<and> out ! j = 0x2f"
  by (induction out k rule: back_to_slash.induct) (auto split: if_splits intro: less_SucI)

lemma back_to_slash_props:
  assumes "back_to_slash out (length out - 4) = Some o'" and "clean mg out"
  shows "clean mg o' \<and> suffix [0x2f] o' \<and> length o' \<le> length out"
proof -
  obtain j where j: "j < length out - 4" "o' = take (Suc j) out" "out ! j = 0x2f"
    using back_to_slash_Some [OF assms(1)] by auto
  then have "o' = take j out @ [0x2f]" by (simp add: take_Suc_conv_app_nth)
  then show ?thesis using j assms(2) clean_take [of mg out "Suc j"] by (simp add: suffix_def)
qed

lemma next_ch_Some: "next_ch src c = Some t \<longleftrightarrow> (\<exists>ch. rd src (cu_p c) = Some ch \<and> t = Loop (c\<lparr>cu_ch := ch, cu_p := cu_p c + 1\<rparr>))"
  by (auto simp: next_ch_def)

lemmas on_cu_defs = on_cu_usual_def on_cu_slash_def on_cu_dot_def on_cu_dot_dot_def on_cu_quoted_def
  on_cu_quoted_second_def

lemmas cu_inv_simps = next_ch_Some put_ch_def Let_def cu_inv_def eff_state_def clean_snoc suffix_snoc_list

lemma cu_inv_usual:
  "cu_inv mg n c \<Longrightarrow> cu_p c \<le> n \<Longrightarrow> cu_st c = Unquoted cu_usual \<Longrightarrow> on_cu_usual src c = Some (Loop c') \<Longrightarrow> cu_inv mg n c'"
  by (auto simp: on_cu_usual_def cu_inv_simps dest: usual_not_special suffix_lastD split: if_splits)

lemma slash_ends:
  "suffix [0x2f :: u8] out \<Longrightarrow> \<not> suffix [0x2f, 0x2e] out \<and> \<not> suffix [0x2f, 0x2e, 0x2e] out"
  by (auto simp: suffix_def)

lemma cu_inv_slash:
  "cu_inv mg n c \<Longrightarrow> cu_p c \<le> n \<Longrightarrow> cu_st c = Unquoted cu_slash \<Longrightarrow> on_cu_slash mg src c = Some (Loop c') \<Longrightarrow> cu_inv mg n c'"
  using slash_ends [of "cu_out c"]
  by (auto simp: on_cu_slash_def cu_inv_simps dest: usual_not_special suffix_lastD split: if_splits)

lemma cu_inv_dot:
  "cu_inv mg n c \<Longrightarrow> cu_p c \<le> n \<Longrightarrow> cu_st c = Unquoted cu_dot \<Longrightarrow> on_cu_dot src c = Some (Loop c') \<Longrightarrow> cu_inv mg n c'"
  by (auto simp: on_cu_dot_def cu_inv_simps dest: usual_not_special suffix_butlast suffix_lastD clean_butlast split: if_splits)

lemma cu_inv_quoted:
  "cu_inv mg n c \<Longrightarrow> cu_p c \<le> n \<Longrightarrow> cu_st c = cu_quoted \<Longrightarrow> on_cu_quoted src c = Some (Loop c') \<Longrightarrow> cu_inv mg n c'"
  by (auto simp: on_cu_quoted_def cu_inv_simps dest: usual_not_special  split: if_splits)

lemma cu_inv_quoted_second:
  "cu_inv mg n c \<Longrightarrow> cu_p c \<le> n \<Longrightarrow> cu_st c = cu_quoted_second \<Longrightarrow> on_cu_quoted_second src c = Some (Loop c') \<Longrightarrow> cu_inv mg n c'"
  by (auto simp: on_cu_quoted_second_def cu_inv_simps dest: usual_not_special  split: if_splits)

lemma dot_dot_ends:
  "suffix [0x2f, 0x2e, 0x2e :: u8] out \<Longrightarrow> \<not> suffix [0x2f] out \<and> \<not> suffix [0x2f, 0x2e] out"
  by (auto simp: suffix_def)

lemma cu_inv_dot_dot:
  assumes i: "cu_inv mg n c" and p: "cu_p c \<le> n" and "cu_st c = Unquoted cu_dot_dot"
    and "on_cu_dot_dot src c = Some (Loop c')"
  shows "cu_inv mg n c'"
  using assms dot_dot_ends [of "cu_out c"]
  by (auto simp: on_cu_dot_dot_def cu_inv_simps
      dest: usual_not_special dest!: back_to_slash_props
      split: if_splits option.splits)

lemma cu_inv_Loop:
  assumes "cu_inv mg n c" and "cu_p c \<le> n" and "cu_step mg src c = Some (Loop c')"
  shows "cu_inv mg n c'"
proof (cases "cu_st c")
  case (Unquoted s)
  note rules = cu_inv_usual [OF assms(1,2)] cu_inv_slash [OF assms(1,2)] cu_inv_dot [OF assms(1,2)]
    cu_inv_dot_dot [OF assms(1,2)]
  show ?thesis
    using assms(3) Unquoted by (cases s) (simp_all add: cu_step_def rules)
qed (use assms(3) in \<open>simp_all add: cu_step_def cu_inv_quoted [OF assms(1,2)] cu_inv_quoted_second [OF assms(1,2)]\<close>)

lemma cu_step_To_done: "cu_step mg src c = Some (To_done c') \<Longrightarrow> c' = c"
  unfolding cu_step_def
  by (auto simp: on_cu_defs next_ch_Some Let_def
      split: cu_state.splits cu_plain.splits if_splits option.splits)

lemma cu_step_To_args: "cu_step mg src c = Some (To_args c') \<Longrightarrow> c' = c\<lparr>cu_args := Some (cu_p c)\<rparr>"
  unfolding cu_step_def
  by (auto simp: on_cu_defs next_ch_Some Let_def
      split: cu_state.splits cu_plain.splits if_splits option.splits)

lemma next_ch_in:
  "cu_p c < length src \<Longrightarrow> next_ch src c = Some (Loop (c\<lparr>cu_ch := src ! cu_p c, cu_p := cu_p c + 1\<rparr>))"
  by (simp add: next_ch_def)

lemma cu_step_no_fault: "cu_p c \<le> n \<Longrightarrow> n < length src \<Longrightarrow> cu_step mg src c \<noteq> None"
  by (cases "cu_st c"; (cases "case cu_st c of Unquoted s \<Rightarrow> s")?)
    (simp_all add: cu_step_def on_cu_defs next_ch_in put_ch_def Let_def split: option.split)

text \<open>The exits: \<open>Exit_bad\<close>, or an output that fits and is clean.\<close>

definition exit_ok :: "bool \<Rightarrow> nat \<Rightarrow> cu_exit \<Rightarrow> bool" where
  "exit_ok mg n x \<longleftrightarrow> (case x of
      Exit_bad \<Rightarrow> True
    | Exit_done c \<Rightarrow> clean mg (cu_out c) \<and> length (cu_out c) \<le> n \<and>
        (\<forall>e. cu_exten c = Some e \<longrightarrow> e \<le> length (cu_out c))
    | Exit_args c \<Rightarrow> clean mg (cu_out c) \<and> length (cu_out c) \<le> n \<and>
        (\<forall>e. cu_exten c = Some e \<longrightarrow> e \<le> length (cu_out c)) \<and> cu_args c = Some (cu_p c) \<and> cu_p c \<le> n)"

lemma cu_loop_ok:
  assumes "cu_inv mg n c" and "n < length src"
  shows "\<exists>x. cu_loop mg src n c = Some x \<and> exit_ok mg n x"
  using assms
proof (induction mg src n c rule: cu_loop.induct)
  case (1 mg src n c)
  show ?case
  proof (cases "cu_p c \<le> n")
    case False
    then show ?thesis
      using 1(2) by (subst cu_loop.simps) (auto simp: exit_ok_def cu_inv_def)
  next
    case True
    obtain t where t: "cu_step mg src c = Some t"
      using cu_step_no_fault [OF True 1(3)] by auto
    show ?thesis
    proof (cases t)
      case (Loop c')
      then show ?thesis
        using 1(1) [OF _ t Loop] cu_inv_Loop [OF 1(2) True] 1(3) True t
        by (subst cu_loop.simps) simp
    next
      case (To_done c')
      then show ?thesis
        using True t 1(2) cu_step_To_done [of mg src c c']
        by (subst cu_loop.simps) (auto simp: exit_ok_def cu_inv_def)
    next
      case (To_args c')
      then show ?thesis
        using True t 1(2) cu_step_To_args [of mg src c c']
        by (subst cu_loop.simps) (auto simp: exit_ok_def cu_inv_def)
    next
      case Bad
      then show ?thesis
        using True t by (subst cu_loop.simps) (simp add: exit_ok_def)
    qed
  qed
qed

lemma args_fragment_in:
  "p + k \<le> length src \<Longrightarrow> \<exists>f. args_fragment src p k = Some f"
  by (induction src p k rule: args_fragment.induct) (auto split: option.splits simp: rd_eq_None)

text \<open>C8: whatever the bytes of the path, \<^verbatim>\<open>ngx_http_parse_complex_uri\<close> terminates, reads nothing beyond the
  byte after the URI, and either rejects the path or gives one that is no longer than the input (so it
  fits the buffer of that size), contains no \<open>/../\<close> and no \<open>/./\<close>, and no double slash when slashes are
  merged.\<close>

theorem complex_uri_normalised:
  assumes "n < length src"
  shows "\<exists>x. ngx_http_parse_complex_uri mg src n plus0 quoted0 = Some x \<and>
    (\<forall>r. x = Inr r \<longrightarrow> length (res_uri r) \<le> n \<and>
       \<not> sublist (str ''/../'') (res_uri r) \<and> \<not> sublist (str ''/./'') (res_uri r) \<and>
       (mg \<longrightarrow> \<not> sublist (str ''//'') (res_uri r)))"
proof -
  let ?c = "\<lparr>cu_p = 1, cu_ch = src ! 0, cu_st = Unquoted cu_usual, cu_qst = cu_usual, cu_decoded = 0,
             cu_out = [], cu_exten = None, cu_args = None, cu_plus = plus0, cu_quoted_uri = quoted0\<rparr>"
  have "cu_inv mg n ?c" by (simp add: cu_inv_def eff_state_def clean_Nil)
  then obtain x where x: "cu_loop mg src n ?c = Some x" "exit_ok mg n x"
    using cu_loop_ok [OF _ assms] by blast
  have ch: "rd src 0 = Some (src ! 0)" using assms by (cases src) auto
  have s: "str ''/../'' = [0x2f, 0x2e, 0x2e, 0x2f]" "str ''/./'' = [0x2f, 0x2e, 0x2f]" "str ''//'' = [0x2f, 0x2f]"
    by (simp_all add: str_def)
  have fin: "\<exists>r. cu_finish_args src n c = Some r \<and> res_uri r = cu_out c"
    if "x = Exit_args c" for c
    using x(2) that assms args_fragment_in [of "cu_p c" "n - cu_p c" src]
    by (auto simp: exit_ok_def cu_finish_args_def cu_finish_def split: option.splits)
  show ?thesis
    using x fin unfolding s
    by (cases x) (auto simp: ngx_http_parse_complex_uri_def ch exit_ok_def clean_def cu_finish_def)
qed

lemma complex_uri_normalised_witness:
  "\<exists>r. ngx_http_parse_complex_uri True (str ''/a/%2e%2e//b '') 12 False False = Some (Inr r) \<and> res_uri r = str ''/b'' \<and>
     \<not> sublist (str ''/../'') (res_uri r)"
proof -
  have "cu_view (ngx_http_parse_complex_uri True (str ''/a/%2e%2e//b '') 12 False False)
      = Some (Inr (str ''/b'', None, None, None, True))"
    by code_simp
  then obtain r where r: "ngx_http_parse_complex_uri True (str ''/a/%2e%2e//b '') 12 False False = Some (Inr r)"
      "res_uri r = str ''/b''"
    by (auto simp: cu_view_def split: option.splits sum.splits)
  have "12 < length (str ''/a/%2e%2e//b '')" by code_simp
  from complex_uri_normalised [OF this, of True False False] show ?thesis
    using r by auto
qed

section \<open>Agreement with the paths that need no decoding\<close>

definition path_state :: "bytes \<Rightarrow> nat \<Rightarrow> cu_plain" where
  "path_state src i = (if 0 < i \<and> src ! (i - 1) = 0x2f then cu_slash else cu_usual)"

lemma cu_step_plain:
  assumes "plain_path src 0 n" and "n < length src" and "0x3f \<notin> set (take n src)" and "i < n"
    and "cu_p c = Suc i" and "cu_ch c = src ! i" and "cu_st c = Unquoted (path_state src i)"
    and "cu_out c = take i src"
  shows "\<exists>c'. cu_step mg src c = Some (Loop c') \<and> cu_p c' = Suc (Suc i) \<and> cu_ch c' = src ! Suc i \<and>
    cu_st c' = Unquoted (path_state src (Suc i)) \<and> cu_out c' = take (Suc i) src \<and>
    cu_quoted_uri c' = cu_quoted_uri c"
proof -
  have ch: "src ! i \<notin> {0, 0x23, 0x25, 0x3f}"
    using assms(1-4) by (auto simp: plain_path_def in_set_conv_nth)
  have sl: "src ! i \<notin> {0x2e, 0x2f}" if "0 < i" "src ! (i - 1) = 0x2f"
  proof -
    have "Suc (i - 1) = i" using that by simp
    then show ?thesis using assms(1,4) that by (auto simp: plain_path_def dest!: bspec [of _ _ "i - 1"])
  qed
  have t: "take (Suc i) src = take i src @ [src ! i]"
    using assms(2,4) by (simp add: take_Suc_conv_app_nth)
  have nx: "next_ch src d = Some (Loop (d\<lparr>cu_ch := src ! Suc i, cu_p := Suc (Suc i)\<rparr>))" if "cu_p d = Suc i" for d
    using that assms(2,4) by (subst next_ch_in) simp_all
  show ?thesis
  proof (cases "0 < i \<and> src ! (i - 1) = 0x2f")
    case True
    then show ?thesis
      using assms(5-8) ch sl
      by (auto simp: cu_step_def path_state_def on_cu_slash_def put_ch_def Let_def nx t)
  next
    case False
    then show ?thesis
      using assms(5-8) ch usual_not_special [of "src ! i"]
      by (auto simp: cu_step_def path_state_def on_cu_usual_def put_ch_def Let_def nx t)
  qed
qed

lemma cu_loop_plain:
  assumes "plain_path src 0 n" and "n < length src" and "0x3f \<notin> set (take n src)" and "i \<le> n"
    and "cu_p c = Suc i" and "cu_ch c = src ! i" and "cu_st c = Unquoted (path_state src i)"
    and "cu_out c = take i src"
  shows "\<exists>c'. cu_loop mg src n c = Some (Exit_done c') \<and> cu_out c' = take n src \<and> cu_quoted_uri c' = cu_quoted_uri c"
  using assms(4-8)
proof (induction "n - i" arbitrary: i c)
  case 0
  then show ?case by (subst cu_loop.simps) simp
next
  case (Suc k)
  have i: "i < n" using Suc.hyps(2) by simp
  obtain c' where c': "cu_step mg src c = Some (Loop c')" "cu_p c' = Suc (Suc i)" "cu_ch c' = src ! Suc i"
    "cu_st c' = Unquoted (path_state src (Suc i))" "cu_out c' = take (Suc i) src"
    "cu_quoted_uri c' = cu_quoted_uri c"
    using cu_step_plain [OF assms(1-3) i Suc.prems(2-5), of mg] by blast
  show ?case
    using Suc.hyps(1) [of "Suc i" c'] c' Suc.hyps(2) Suc.prems(2) by (subst cu_loop.simps) auto
qed

text \<open>C9: on a path that \<^verbatim>\<open>ngx_http_parse_request_line\<close> would not flag (it starts with a slash and has no
  zero byte, \<open>#\<close>, \<open>%\<close> or \<open>?\<close> and no dot or slash after a slash) \<^verbatim>\<open>ngx_http_parse_complex_uri\<close> is the
  identity: the path used undecoded is the path the decoder would give.\<close>

theorem complex_uri_plain_identity:
  assumes "plain_path src 0 n" and "n < length src" and "0x3f \<notin> set (take n src)"
  shows "\<exists>r. ngx_http_parse_complex_uri mg src n plus0 quoted0 = Some (Inr r) \<and> res_uri r = take n src \<and>
     res_quoted r = quoted0"
proof -
  let ?c = "\<lparr>cu_p = 1, cu_ch = src ! 0, cu_st = Unquoted cu_usual, cu_qst = cu_usual, cu_decoded = 0,
             cu_out = [], cu_exten = None, cu_args = None, cu_plus = plus0, cu_quoted_uri = quoted0\<rparr>"
  have "\<exists>c'. cu_loop mg src n ?c = Some (Exit_done c') \<and> cu_out c' = take n src \<and> cu_quoted_uri c' = cu_quoted_uri ?c"
    by (rule cu_loop_plain [OF assms, of 0]) (simp_all add: path_state_def)
  moreover have "rd src 0 = Some (src ! 0)" using assms(2) by (cases src) auto
  ultimately show ?thesis
    by (auto simp: ngx_http_parse_complex_uri_def cu_finish_def)
qed

lemma complex_uri_plain_identity_witness:
  "\<exists>r. ngx_http_parse_complex_uri False (str ''/a.b/c '') 6 False False = Some (Inr r) \<and> res_uri r = str ''/a.b/c''"
proof -
  have p: "plain_path (str ''/a.b/c '') 0 6" "6 < length (str ''/a.b/c '')" "0x3f \<notin> set (take 6 (str ''/a.b/c ''))"
    "take 6 (str ''/a.b/c '') = str ''/a.b/c''"
    by code_simp+
  show ?thesis
    using complex_uri_plain_identity [OF p(1-3), of False False False] p(4) by auto
qed

text \<open>at the end of the path the normalisation is incomplete: \<open>/a/..\<close> keeps its dots, and an escape that
  the end cuts short is dropped without an error, so \<open>/a%4\<close> and \<open>/a%\<close> are accepted as \<open>/a\<close>.\<close>

lemma complex_uri_unfinished:
  "cu_view (ngx_http_parse_complex_uri True (str ''/a/.. '') 5 False False)
     = Some (Inr (str ''/a/..'', None, None, None, False)) \<and>
   cu_view (ngx_http_parse_complex_uri True (str ''/a%4 '') 4 False False)
     = Some (Inr (str ''/a'', None, None, None, True)) \<and>
   cu_view (ngx_http_parse_complex_uri True (str ''/a% '') 3 False False)
     = Some (Inr (str ''/a'', None, None, None, False))"
  by (intro conjI; code_simp)

end
