(* ===== verification/HttpStatusLine.thy ===== *)
theory HttpStatusLine
  imports NgxScan
begin

text \<open>
  \<^verbatim>\<open>ngx_http_parse_status_line\<close> of \<^verbatim>\<open>src/http/ngx_http_parse.c\<close>: the status line of an upstream's
  response.  The record is the \<^verbatim>\<open>ngx_http_status_t\<close> it fills in.
\<close>

section \<open>State\<close>

datatype sl_state =
    sl_start | sl_H | sl_HT | sl_HTT | sl_HTTP | sl_first_major_digit | sl_major_digit
  | sl_first_minor_digit | sl_minor_digit | sl_status | sl_space_after_status | sl_status_text
  | sl_almost_done

record status_line =
  code :: u64
  sl_count :: u64
  status_start :: "nat option"
  status_end :: "nat option"

type_synonym sl_turn = "(sl_state \<times> status_line, parse_exit) turn"

section \<open>The states\<close>

abbreviation sl_error :: "sl_state \<Rightarrow> status_line \<Rightarrow> sl_turn" where
  "sl_error st r \<equiv> Stop (Return (Rc NGX_ERROR)) (st, r)"

definition on_sl_start :: "u8 \<Rightarrow> status_line \<Rightarrow> sl_turn" where
  "on_sl_start ch r = (if ch = 0x48 then Cont (sl_H, r) else sl_error sl_start r)"

definition on_sl_H :: "u8 \<Rightarrow> status_line \<Rightarrow> sl_turn" where
  "on_sl_H ch r = (if ch = 0x54 then Cont (sl_HT, r) else sl_error sl_H r)"

definition on_sl_HT :: "u8 \<Rightarrow> status_line \<Rightarrow> sl_turn" where
  "on_sl_HT ch r = (if ch = 0x54 then Cont (sl_HTT, r) else sl_error sl_HT r)"

definition on_sl_HTT :: "u8 \<Rightarrow> status_line \<Rightarrow> sl_turn" where
  "on_sl_HTT ch r = (if ch = 0x50 then Cont (sl_HTTP, r) else sl_error sl_HTT r)"

definition on_sl_HTTP :: "u8 \<Rightarrow> status_line \<Rightarrow> sl_turn" where
  "on_sl_HTTP ch r = (if ch = 0x2f then Cont (sl_first_major_digit, r) else sl_error sl_HTTP r)"

definition on_sl_first_major :: "u8 \<Rightarrow> status_line \<Rightarrow> sl_turn" where
  "on_sl_first_major ch r =
     (if ch < 0x31 \<or> ch > 0x39 then sl_error sl_first_major_digit r else Cont (sl_major_digit, r))"

definition on_sl_major :: "u8 \<Rightarrow> status_line \<Rightarrow> sl_turn" where
  "on_sl_major ch r =
     (if ch = 0x2e then Cont (sl_first_minor_digit, r)
      else if ch < 0x30 \<or> ch > 0x39 then sl_error sl_major_digit r
      else Cont (sl_major_digit, r))"

definition on_sl_first_minor :: "u8 \<Rightarrow> status_line \<Rightarrow> sl_turn" where
  "on_sl_first_minor ch r =
     (if ch < 0x30 \<or> ch > 0x39 then sl_error sl_first_minor_digit r else Cont (sl_minor_digit, r))"

definition on_sl_minor :: "u8 \<Rightarrow> status_line \<Rightarrow> sl_turn" where
  "on_sl_minor ch r =
     (if ch = 0x20 then Cont (sl_status, r)
      else if ch < 0x30 \<or> ch > 0x39 then sl_error sl_minor_digit r
      else Cont (sl_minor_digit, r))"

definition on_sl_status :: "nat \<Rightarrow> u8 \<Rightarrow> status_line \<Rightarrow> sl_turn" where
  "on_sl_status p ch r =
     (if ch = 0x20 then Cont (sl_status, r)
      else if ch < 0x30 \<or> ch > 0x39 then sl_error sl_status r
      else
        let r = r\<lparr>code := code r * 10 + ucast ch - 0x30, sl_count := sl_count r + 1\<rparr> in
        if sl_count r = 3 then Cont (sl_space_after_status, r\<lparr>status_start := Some (p - 2)\<rparr>)
        else Cont (sl_status, r))"

definition on_sl_space :: "u8 \<Rightarrow> status_line \<Rightarrow> sl_turn" where
  "on_sl_space ch r =
     (if ch = 0x20 \<or> ch = 0x2e then Cont (sl_status_text, r)
      else if ch = CR then Cont (sl_almost_done, r)
      else if ch = LF then Stop Goto_done (sl_space_after_status, r)
      else sl_error sl_space_after_status r)"

definition on_sl_text :: "u8 \<Rightarrow> status_line \<Rightarrow> sl_turn" where
  "on_sl_text ch r =
     (if ch = CR then Cont (sl_almost_done, r)
      else if ch = LF then Stop Goto_done (sl_status_text, r)
      else Cont (sl_status_text, r))"

definition on_sl_almost_done :: "nat \<Rightarrow> u8 \<Rightarrow> status_line \<Rightarrow> sl_turn" where
  "on_sl_almost_done p ch r =
     (let r = r\<lparr>status_end := Some (p - 1)\<rparr> in
      if ch = LF then Stop Goto_done (sl_almost_done, r) else sl_error sl_almost_done r)"

section \<open>The function\<close>

fun sl_step :: "bytes \<Rightarrow> nat \<Rightarrow> u8 \<Rightarrow> sl_state \<times> status_line \<Rightarrow> sl_turn option" where
  "sl_step m p ch (sl_start, r) = Some (on_sl_start ch r)"
| "sl_step m p ch (sl_H, r) = Some (on_sl_H ch r)"
| "sl_step m p ch (sl_HT, r) = Some (on_sl_HT ch r)"
| "sl_step m p ch (sl_HTT, r) = Some (on_sl_HTT ch r)"
| "sl_step m p ch (sl_HTTP, r) = Some (on_sl_HTTP ch r)"
| "sl_step m p ch (sl_first_major_digit, r) = Some (on_sl_first_major ch r)"
| "sl_step m p ch (sl_major_digit, r) = Some (on_sl_major ch r)"
| "sl_step m p ch (sl_first_minor_digit, r) = Some (on_sl_first_minor ch r)"
| "sl_step m p ch (sl_minor_digit, r) = Some (on_sl_minor ch r)"
| "sl_step m p ch (sl_status, r) = Some (on_sl_status p ch r)"
| "sl_step m p ch (sl_space_after_status, r) = Some (on_sl_space ch r)"
| "sl_step m p ch (sl_status_text, r) = Some (on_sl_text ch r)"
| "sl_step m p ch (sl_almost_done, r) = Some (on_sl_almost_done p ch r)"

definition sl_left :: "sl_state \<times> status_line \<Rightarrow> sl_state \<times> status_line \<Rightarrow> sl_state \<times> status_line" where
  "sl_left s0 s = (fst s0, snd s)"

definition sl_done ::
  "nat \<Rightarrow> parse_exit \<Rightarrow> sl_state \<times> status_line \<Rightarrow> sl_state \<times> status_line \<Rightarrow> parse_rc \<times> (sl_state \<times> status_line) \<times> nat"
where
  "sl_done p e s0 s =
     (let r = snd s; r = (if status_end r = None then r\<lparr>status_end := Some p\<rparr> else r)
      in (Rc NGX_OK, (sl_start, r), p + 1))"

definition ngx_http_parse_status_line ::
  "bytes \<Rightarrow> nat \<Rightarrow> nat \<Rightarrow> sl_state \<times> status_line \<Rightarrow> (parse_rc \<times> (sl_state \<times> status_line) \<times> nat) option" where
  "ngx_http_parse_status_line m pos lst s = incremental sl_step sl_left sl_done m pos lst s"

definition status_line_init :: status_line where
  "status_line_init = \<lparr>code = 0, sl_count = 0, status_start = None, status_end = None\<rparr>"

lemmas sl_defs =
  on_sl_start_def on_sl_H_def on_sl_HT_def on_sl_HTT_def on_sl_HTTP_def on_sl_first_major_def
  on_sl_major_def on_sl_first_minor_def on_sl_minor_def on_sl_status_def on_sl_space_def on_sl_text_def
  on_sl_almost_done_def

section \<open>Resuming and the status code\<close>

lemma sl_step_return:
  "sl_step m p ch s = Some (Stop (Return rc) s') \<Longrightarrow> rc = Rc NGX_ERROR"
  by (cases "(m, p, ch, s)" rule: sl_step.cases)
    (auto simp: sl_defs Let_def split: if_splits)

text \<open>After an error the state and the position are those that the failing call found.\<close>

definition sl_entered_at ::
  "sl_state \<times> status_line \<Rightarrow> nat \<Rightarrow> parse_rc \<times> (sl_state \<times> status_line) \<times> nat \<Rightarrow>
   parse_rc \<times> (sl_state \<times> status_line) \<times> nat" where
  "sl_entered_at s pos x = (if fst x = Rc NGX_ERROR then (fst x, (fst s, snd (fst (snd x))), pos) else x)"

interpretation sl: incremental_parser sl_step sl_left sl_done sl_entered_at
proof
  fix m m' :: bytes and p ch s
  show "sl_step m p ch s = sl_step m' p ch s"
    by (cases "(m, p, ch, s)" rule: sl_step.cases) simp_all
next
  show "sl_step m p ch s = Some (Stop (Return rc) s') \<Longrightarrow> rc \<notin> success_codes" for m p ch s rc s'
    by (auto simp: success_codes_def dest: sl_step_return)
  show "sl_step m p ch s = Some (Stop (Return rc) s') \<Longrightarrow>
      sl_entered_at s1 pos (rc, sl_left s2 s', q) = (rc, sl_left s1 s', pos)" for m p ch s rc s' s1 s2 pos q
    by (auto simp: sl_entered_at_def sl_left_def dest: sl_step_return)
qed (simp_all add: sl_entered_at_def sl_done_def Let_def)

text \<open>The digits read so far: \<open>sl_count\<close> of them, below 3 until the status is complete.\<close>

fun sl_code_ok :: "sl_state \<Rightarrow> status_line \<Rightarrow> bool" where
  "sl_code_ok sl_status r \<longleftrightarrow> sl_count r = 0 \<and> code r = 0 \<or> sl_count r = 1 \<and> unat (code r) < 10 \<or>
     sl_count r = 2 \<and> unat (code r) < 100"
| "sl_code_ok st r \<longleftrightarrow>
     (if st \<in> {sl_space_after_status, sl_status_text, sl_almost_done}
      then sl_count r = 3 \<and> unat (code r) < 1000 else sl_count r = 0 \<and> code r = 0)"

definition sl_inv :: "bytes \<Rightarrow> nat \<Rightarrow> sl_state \<times> status_line \<Rightarrow> bool" where
  "sl_inv m p s \<longleftrightarrow> sl_code_ok (fst s) (snd s)"

definition sl_post :: "bytes \<Rightarrow> nat \<Rightarrow> parse_exit \<Rightarrow> sl_state \<times> status_line \<Rightarrow> bool" where
  "sl_post m p e s \<longleftrightarrow> ((\<forall>rc. e \<noteq> Return rc) \<longrightarrow> sl_count (snd s) = 3 \<and> unat (code (snd s)) < 1000)"

lemma add_digit:
  assumes "unat c < k" and "k \<le> 1000" and "\<not> ch < 0x30" and "\<not> ch > (0x39 :: u8)"
  shows "unat (c * 10 + ucast ch - 0x30 :: u64) = unat c * 10 + (unat ch - 48)" "unat ch - 48 < 10"
proof -
  have ch: "48 \<le> unat ch" "unat ch \<le> 57" using assms by (simp_all add: word_less_nat_alt not_less)
  then show "unat ch - 48 < 10" by simp
  have u: "unat (ucast ch :: u64) = unat ch"
    using unat_u8_less [of ch] by (simp add: unsigned_ucast_eq take_bit_nat_eq_self)
  have m: "unat (c * 10) = unat c * 10"
    using assms unat_mult_lem [of c 10] by simp
  have a: "unat (c * 10 + ucast ch) = unat c * 10 + unat ch"
    using assms ch u m unat_add_lem [of "c * 10" "ucast ch"] by simp
  have "(0x30 :: u64) \<le> c * 10 + ucast ch"
    using ch by (simp add: word_le_nat_alt a)
  then show "unat (c * 10 + ucast ch - 0x30 :: u64) = unat c * 10 + (unat ch - 48)"
    using ch by (simp add: unat_sub a)
qed

lemma sl_ok:
  assumes "sl_inv m p s" and "sl_step m p ch s = Some t"
  shows "case t of Cont s' \<Rightarrow> sl_inv m (Suc p) s' | Stop e s' \<Rightarrow> sl_post m p e s'"
proof (cases "fst s = sl_status")
  case False
  then show ?thesis
    using assms by (cases "(m, p, ch, s)" rule: sl_step.cases)
      (auto simp: sl_inv_def sl_post_def sl_defs Let_def split: if_splits)
next
  case True
  obtain r where s: "s = (sl_status, r)" using True by (cases s) auto
  show ?thesis
  proof (cases "ch = 0x20 \<or> ch < 0x30 \<or> ch > 0x39")
    case True
    then show ?thesis using assms by (auto simp: s sl_inv_def sl_post_def on_sl_status_def split: if_splits)
  next
    case False
    have d: "\<not> ch < 0x30" "\<not> ch > 0x39" using False by auto
    note a0 = add_digit [OF _ _ d, of "code r" 1] and a1 = add_digit [OF _ _ d, of "code r" 10]
      and a2 = add_digit [OF _ _ d, of "code r" 100]
    consider "sl_count r = 0" "code r = 0" | "sl_count r = 1" "unat (code r) < 10" | "sl_count r = 2" "unat (code r) < 100"
      using assms(1) by (auto simp: s sl_inv_def)
    then show ?thesis
      using assms(2) False a0 a1 a2
      by cases (auto simp: s sl_inv_def on_sl_status_def Let_def)
  qed
qed

interpretation sl_inv: invariant_parser sl_step sl_inv sl_post 0
proof
  fix m m' :: bytes and p s s' e
  show "sl_inv m p s \<Longrightarrow> sl_inv m' p s"
    by (simp add: sl_inv_def)
  show "sl_inv m p s \<Longrightarrow> p < length m \<Longrightarrow> sl_step m p (m ! p) s = Some (Cont s') \<Longrightarrow> sl_inv m (Suc p) s'"
    by (drule (1) sl_ok) simp
  show "sl_inv m p s \<Longrightarrow> p < length m \<Longrightarrow> sl_step m p (m ! p) s = Some (Stop e s') \<Longrightarrow> sl_post m p e s'"
    by (drule (1) sl_ok) simp
  show "sl_step m p (m ! p) s \<noteq> None"
    by (cases "(m, p, m ! p, s)" rule: sl_step.cases) simp_all
qed

text \<open>An upstream's status line that \<^verbatim>\<open>ngx_http_parse_status_line\<close> accepts, in one call or in two with the
  bytes split anywhere, has a status of exactly three digits, so a code below 1000; and the split does
  not change the result, but for the state and the position after an error.\<close>

theorem status_line_code:
  assumes "pos \<le> l1" and "l1 \<le> l2" and "length m1 = length m" and "take l1 m1 = take l1 m"
  shows "ngx_http_parse_status_line m pos l2 (sl_start, status_line_init) =
     (case ngx_http_parse_status_line m1 pos l1 (sl_start, status_line_init) of
        Some (Rc NGX_AGAIN, s', pos') \<Rightarrow>
          map_option (sl_entered_at (sl_start, status_line_init) pos) (ngx_http_parse_status_line m pos' l2 s')
      | x \<Rightarrow> x) \<and>
    (\<forall>st r pos'. ngx_http_parse_status_line m pos l2 (sl_start, status_line_init) = Some (Rc NGX_OK, (st, r), pos') \<longrightarrow>
       sl_count r = 3 \<and> unat (code r) < 1000)"
proof (rule conjI)
  show "ngx_http_parse_status_line m pos l2 (sl_start, status_line_init) =
     (case ngx_http_parse_status_line m1 pos l1 (sl_start, status_line_init) of
        Some (Rc NGX_AGAIN, s', pos') \<Rightarrow>
          map_option (sl_entered_at (sl_start, status_line_init) pos) (ngx_http_parse_status_line m pos' l2 s')
      | x \<Rightarrow> x)"
    unfolding ngx_http_parse_status_line_def using assms by (rule sl.resume)
next
  have "sl_count r = 3 \<and> unat (code r) < 1000"
    if "ngx_http_parse_status_line m pos l2 (sl_start, status_line_init) = Some (Rc NGX_OK, (st, r), pos')" for st r pos'
  proof -
  from that obtain q e t where q: "scan sl_step m pos (l2 - pos) (sl_start, status_line_init) = Some (Stopped q e t)"
      "\<And>rc. e \<noteq> Return rc" "sl_done q e (sl_start, status_line_init) t = (Rc NGX_OK, (st, r), pos')"
    using sl.scan_return_error [of m pos "l2 - pos" "(sl_start, status_line_init)"]
    by (auto simp: ngx_http_parse_status_line_def incremental_def success_codes_def
        split: option.splits scanned.splits parse_exit.splits)
  have "sl_inv m pos (sl_start, status_line_init)" by (simp add: sl_inv_def status_line_init_def)
  then have "sl_post m q e t" using sl_inv.scan_post q(1) by blast
  then show "sl_count r = 3 \<and> unat (code r) < 1000"
    using q(2,3) by (auto simp: sl_post_def sl_done_def Let_def split: if_splits)
  qed
  then show "\<forall>st r pos'. ngx_http_parse_status_line m pos l2 (sl_start, status_line_init) = Some (Rc NGX_OK, (st, r), pos') \<longrightarrow>
       sl_count r = 3 \<and> unat (code r) < 1000"
    by blast
qed

lemma status_line_code_witness:
  "\<exists>r. ngx_http_parse_status_line (str ''HTTP/1.1 404 x'' @ [LF]) 0 15 (sl_start, status_line_init)
       = Some (Rc NGX_OK, (sl_start, r), 15) \<and> code r = 404 \<and> sl_count r = 3"
proof -
  let ?m = "str ''HTTP/1.1 404 x'' @ [LF]"
  have "map_option (\<lambda>(rc, (st, r), pos). (rc, st, code r, pos))
      (ngx_http_parse_status_line ?m 0 15 (sl_start, status_line_init)) = Some (Rc NGX_OK, sl_start, 404, 15)"
    by code_simp
  then obtain r where r: "ngx_http_parse_status_line ?m 0 15 (sl_start, status_line_init)
       = Some (Rc NGX_OK, (sl_start, r), 15)" "code r = 404"
    by (auto split: prod.splits)
  have p: "(0 :: nat) \<le> 3" "(3 :: nat) \<le> 15" "length ?m = length ?m" "take 3 ?m = take 3 ?m" by simp_all
  show ?thesis using status_line_code [OF p] r by blast
qed

end
