(* ===== verification/HttpArgs.thy ===== *)
theory HttpArgs
  imports NgxCString HttpRequestLine "HOL-Library.Sublist"
begin

text \<open>
  The rest of \<^verbatim>\<open>src/http/ngx_http_parse.c\<close>: the check of URIs that come from responses and
  directives, the search for a parameter in header lines, and the arguments of a request.  A string
  is the memory from its \<^verbatim>\<open>data\<close> on with its length, so a read past the memory is \<open>None\<close>; positions
  are offsets from \<^verbatim>\<open>data\<close>.
\<close>

section \<open>ngx_http_parse_unsafe_uri\<close>

text \<open>
  \<open>Safe_args k\<close>: the URI is cut to its first \<open>k\<close> bytes, and the arguments begin after the question
  mark that follows them.  \<open>p\<close> is the position of the byte the loop reads, \<open>len\<close> what is left.
\<close>

datatype uri_check = Safe | Safe_args nat | Unsafe

fun unsafe_loop :: "bytes \<Rightarrow> nat \<Rightarrow> nat \<Rightarrow> uri_check option" where
  "unsafe_loop m p 0 = Some Safe"
| "unsafe_loop m p (Suc len) = do {
     ch \<leftarrow> rd m p;
     if in_bitmap usual ch then unsafe_loop m (p + 1) len
     else if ch = 0x3f then Some (Safe_args p)
     else if ch = 0 then Some Unsafe
     else do {
       dots \<leftarrow> (if ch = 0x2f \<and> Suc len > 2 then do {
                  c0 \<leftarrow> rd m (p + 1);
                  if c0 = 0x2e then do {
                    c1 \<leftarrow> rd m (p + 2);
                    if c1 = 0x2e then map_option (\<lambda>c2. c2 = 0x2f) (rd m (p + 3)) else Some False }
                  else Some False }
                else Some False);
       if dots then Some Unsafe else unsafe_loop m (p + 1) len } }"

definition ngx_http_parse_unsafe_uri :: "bytes \<Rightarrow> nat \<Rightarrow> uri_check option" where
  "ngx_http_parse_unsafe_uri m len =
     (if len = 0 then Some Unsafe
      else do {
        c0 \<leftarrow> rd m 0;
        if c0 = 0x3f then Some Unsafe
        else do {
          up \<leftarrow> (if c0 = 0x2e \<and> len = 3 then do {
                   c1 \<leftarrow> rd m 1;
                   if c1 = 0x2e then map_option (\<lambda>c2. c2 = 0x2f) (rd m 2) else Some False }
                 else Some False);
          if up then Some Unsafe else unsafe_loop m 0 len } })"

section \<open>ngx_http_parse_multi_header_lines\<close>

fun skip_spaces :: "bytes \<Rightarrow> nat \<Rightarrow> nat \<Rightarrow> nat option" where
  "skip_spaces m p 0 = Some p"
| "skip_spaces m p (Suc k) = do { c \<leftarrow> rd m p; if c = 0x20 then skip_spaces m (p + 1) k else Some p }"

text \<open>The label \<^verbatim>\<open>skip\<close>: to after the next separator, then over the spaces; \<open>k\<close> is \<^verbatim>\<open>end - start\<close>.\<close>

fun skip_to_sep :: "bytes \<Rightarrow> nat \<Rightarrow> nat \<Rightarrow> nat option" where
  "skip_to_sep m p 0 = Some p"
| "skip_to_sep m p (Suc k) = do {
     c \<leftarrow> rd m p;
     if c = 0x3b \<or> c = 0x2c then skip_spaces m (p + 1) k else skip_to_sep m (p + 1) k }"

fun value_end :: "bytes \<Rightarrow> nat \<Rightarrow> nat \<Rightarrow> nat option" where
  "value_end m p 0 = Some p"
| "value_end m p (Suc k) = do { c \<leftarrow> rd m p; if c \<noteq> 0x3b then value_end m (p + 1) k else Some p }"

text \<open>
  One turn of the loop over a header's value of length \<open>e\<close>: the value found, or where to go on.
  With \<open>want\<close> false the caller passed no place for a value.
\<close>

datatype multi_result = Found "(nat \<times> nat) option" | Skip nat

definition multi_turn :: "bytes \<Rightarrow> nat \<Rightarrow> bytes \<Rightarrow> nat \<Rightarrow> bool \<Rightarrow> nat \<Rightarrow> multi_result option" where
  "multi_turn m e name nlen want start = do {
     d \<leftarrow> ngx_strncasecmp (drop start m) name nlen;
     if d \<noteq> 0 then Some (Skip start)
     else do {
       s1 \<leftarrow> skip_spaces m (start + nlen) (e - (start + nlen));
       if \<not> want then
         (if s1 = e then Some (Found None)
          else do { c \<leftarrow> rd m s1; Some (if c = 0x2c then Found None else Skip s1) })
       else if s1 = e then Some (Skip s1)
       else do {
         c \<leftarrow> rd m s1;
         if c \<noteq> 0x3d then Some (Skip (s1 + 1))
         else do {
           s2 \<leftarrow> skip_spaces m (s1 + 1) (e - (s1 + 1));
           l \<leftarrow> value_end m s2 (e - s2);
           Some (Found (Some (s2, l - s2))) } } } }"

lemma skip_spaces_ge: "skip_spaces m p k = Some q \<Longrightarrow> p \<le> q \<and> q \<le> p + k"
  by (induction m p k rule: skip_spaces.induct) (fastforce simp: bind_eq_Some_conv split: if_splits)+

lemma skip_to_sep_ge: "skip_to_sep m p k = Some q \<Longrightarrow> p \<le> q \<and> (0 < k \<longrightarrow> p < q) \<and> q \<le> p + k"
  by (induction m p k rule: skip_to_sep.induct)
    (fastforce simp: bind_eq_Some_conv dest: skip_spaces_ge split: if_splits)+

lemma multi_turn_Skip: "multi_turn m e name nlen want start = Some (Skip s) \<Longrightarrow> start \<le> s"
  by (auto simp: multi_turn_def bind_eq_Some_conv split: if_splits dest: skip_spaces_ge)

function multi_line :: "bytes \<Rightarrow> nat \<Rightarrow> bytes \<Rightarrow> nat \<Rightarrow> bool \<Rightarrow> nat \<Rightarrow> (nat \<times> nat) option option option" where
  "multi_line m e name nlen want start =
     (if \<not> start < e then Some None
      else case multi_turn m e name nlen want start of
        None \<Rightarrow> None
      | Some (Found v) \<Rightarrow> Some (Some v)
      | Some (Skip s) \<Rightarrow>
          (case skip_to_sep m s (e - s) of
             None \<Rightarrow> None
           | Some s' \<Rightarrow> multi_line m e name nlen want s'))"
  by pat_completeness auto
termination
proof (relation "measure (\<lambda>(m, e, name, nlen, want, start). e - start)")
  fix m e name nlen want start x t s s'
  assume "\<not> \<not> start < e" "multi_turn m e name nlen want start = Some x" "x = Skip s"
    "skip_to_sep m s (e - s) = Some s'"
  then show "((m, e, name, nlen, want, s'), m, e, name, nlen, want, start)
      \<in> measure (\<lambda>(m, e, name, nlen, want, start). e - start)"
    using multi_turn_Skip [of m e name nlen want start s] skip_to_sep_ge [of m s "e - s" s']
    by (cases "s < e") auto
qed simp

text \<open>Over the header lines, each a value with its length: the index of the line and the value.\<close>

fun ngx_http_parse_multi_header_lines ::
  "(bytes \<times> nat) list \<Rightarrow> nat \<Rightarrow> bytes \<Rightarrow> nat \<Rightarrow> bool \<Rightarrow> (nat \<times> (nat \<times> nat) option) option option" where
  "ngx_http_parse_multi_header_lines [] i name nlen want = Some None"
| "ngx_http_parse_multi_header_lines ((m, e) # hs) i name nlen want =
     (if nlen > e then ngx_http_parse_multi_header_lines hs (i + 1) name nlen want
      else case multi_line m e name nlen want 0 of
        None \<Rightarrow> None
      | Some (Some v) \<Rightarrow> Some (Some (i, v))
      | Some None \<Rightarrow> ngx_http_parse_multi_header_lines hs (i + 1) name nlen want)"

section \<open>ngx_http_arg and ngx_http_split_args\<close>

text \<open>
  The loop of \<^verbatim>\<open>ngx_http_arg\<close> from position \<open>p\<close>: the offset and length of the value, \<open>None\<close> inside for
  \<^verbatim>\<open>NGX_DECLINED\<close>.  The name is not empty (for an empty one \<^verbatim>\<open>len - 1\<close> wraps to the largest size, and
  the search leaves the arguments: \<open>None\<close> in \<open>ngx_http_arg\<close>).
\<close>

function arg_loop :: "bytes \<Rightarrow> nat \<Rightarrow> bytes \<Rightarrow> nat \<Rightarrow> nat \<Rightarrow> (nat \<times> u64) option option" where
  "arg_loop m n name len p =
     (if \<not> p < n then Some None
      else case ngx_strlcasestrn (drop p m) (n - 1 - p) name (len - 1) of
        None \<Rightarrow> None
      | Some None \<Rightarrow> Some None
      | Some (Some k) \<Rightarrow> do {
          at_start \<leftarrow> (if p + k = 0 then Some True else map_option (\<lambda>c. c = 0x26) (rd m (p + k - 1)));
          hit \<leftarrow> (if at_start then map_option (\<lambda>c. c = 0x3d) (rd m (p + k + len)) else Some False);
          if hit then do {
            q \<leftarrow> ngx_strlchr (drop (p + k) m) (n - (p + k)) 0x26;
            let v = p + k + len + 1;
            Some (Some (v, word_of_nat (case q of None \<Rightarrow> n | Some j \<Rightarrow> p + k + j) - word_of_nat v)) }
          else arg_loop m n name len (p + k + 1) })"
  by pat_completeness auto
termination
  by (relation "measure (\<lambda>(m, n, name, len, p). n - p)") auto

definition ngx_http_arg :: "bytes \<Rightarrow> nat \<Rightarrow> bytes \<Rightarrow> nat \<Rightarrow> (nat \<times> u64) option option" where
  "ngx_http_arg m n name len =
     (if n = 0 then Some None else if len = 0 then None else arg_loop m n name len 0)"

text \<open>The lengths of the URI and of the arguments.\<close>

definition ngx_http_split_args :: "bytes \<Rightarrow> nat \<Rightarrow> (nat \<times> nat) option" where
  "ngx_http_split_args m n =
     map_option (\<lambda>q. case q of Some k \<Rightarrow> (k, n - (k + 1)) | None \<Rightarrow> (n, 0)) (ngx_strlchr m n 0x3f)"

declare multi_line.simps [simp del] arg_loop.simps [simp del]


section \<open>What passes the check\<close>

definition no_dot_dot :: "bytes \<Rightarrow> nat \<Rightarrow> nat \<Rightarrow> bool" where
  "no_dot_dot m a b \<longleftrightarrow>
     (\<forall>i \<in> {a..<b}. m ! i \<noteq> 0 \<and> m ! i \<noteq> 0x3f \<and>
        \<not> (i + 3 < b \<and> m ! i = 0x2f \<and> m ! (i + 1) = 0x2e \<and> m ! (i + 2) = 0x2e \<and> m ! (i + 3) = 0x2f))"

lemma no_dot_dot_Cons:
  assumes "no_dot_dot m (Suc p) b" and "m ! p \<noteq> 0" and "m ! p \<noteq> 0x3f"
    and "\<not> (p + 3 < b \<and> m ! p = 0x2f \<and> m ! (p + 1) = 0x2e \<and> m ! (p + 2) = 0x2e \<and> m ! (p + 3) = 0x2f)"
  shows "no_dot_dot m p b"
  unfolding no_dot_dot_def
proof
  fix i assume "i \<in> {p..<b}"
  then consider "i = p" | "i \<in> {Suc p..<b}" by fastforce
  then show "m ! i \<noteq> 0 \<and> m ! i \<noteq> 0x3f \<and>
        \<not> (i + 3 < b \<and> m ! i = 0x2f \<and> m ! (i + 1) = 0x2e \<and> m ! (i + 2) = 0x2e \<and> m ! (i + 3) = 0x2f)"
  proof cases
    case 1
    then show ?thesis using assms(2-4) by simp
  next
    case 2
    then show ?thesis using assms(1) unfolding no_dot_dot_def by blast
  qed
qed

definition checked_end :: "nat \<Rightarrow> uri_check \<Rightarrow> nat" where
  "checked_end e r = (case r of Safe_args k \<Rightarrow> k | _ \<Rightarrow> e)"

lemma unsafe_loop_sound:
  "unsafe_loop m p len = Some r \<Longrightarrow> r \<noteq> Unsafe \<Longrightarrow>
   p \<le> checked_end (p + len) r \<and> checked_end (p + len) r \<le> p + len \<and> no_dot_dot m p (checked_end (p + len) r)"
proof (induction len arbitrary: p)
  case 0
  then show ?case by (auto simp: checked_end_def no_dot_dot_def)
next
  case (Suc len)
  obtain ch where ch: "p < length m" "m ! p = ch" "rd m p = Some ch"
    using Suc.prems(1) by (auto simp: bind_eq_Some_conv rd_eq_Some)
  show ?case
  proof (cases "ch = 0x3f")
    case True
    moreover have "\<not> in_bitmap usual 0x3f" using usual_not_special [of "0x3f"] by blast
    ultimately have "r = Safe_args p"
      using Suc.prems(1) ch by simp
    then show ?thesis by (simp add: checked_end_def no_dot_dot_def)
  next
    case q: False
    have "ch \<noteq> 0 \<and> unsafe_loop m (Suc p) len = Some r \<and>
        \<not> (ch = 0x2f \<and> 2 \<le> len \<and> m ! (p + 1) = 0x2e \<and> m ! (p + 2) = 0x2e \<and> m ! (p + 3) = 0x2f)"
    proof (cases "in_bitmap usual ch")
      case True
      then show ?thesis using Suc.prems ch usual_not_special [OF True] by simp
    next
      case False
      define dots where "dots = (if ch = 0x2f \<and> 2 < Suc len then do {
                  c0 \<leftarrow> rd m (p + 1);
                  if c0 = 0x2e then do {
                    c1 \<leftarrow> rd m (p + 2);
                    if c1 = 0x2e then map_option (\<lambda>c2. c2 = 0x2f) (rd m (p + 3)) else Some False }
                  else Some False }
                else Some False)"
      have step: "Some r = (if ch = 0 then Some Unsafe
          else do { d \<leftarrow> dots; if d then Some Unsafe else unsafe_loop m (p + 1) len })"
        unfolding dots_def Suc.prems(1) [symmetric] unsafe_loop.simps ch(3) using False q
        by (simp only: bind.bind_lunit if_False)
      have z: "ch \<noteq> 0" using step Suc.prems(2) by (cases "ch = 0") simp_all
      have b: "dots = Some False"
        using step z Suc.prems(2) by (cases dots; cases "the dots") simp_all
      have rec: "unsafe_loop m (Suc p) len = Some r"
        using step z unfolding b by simp
      have "\<not> (ch = 0x2f \<and> 2 \<le> len \<and> m ! (p + 1) = 0x2e \<and> m ! (p + 2) = 0x2e \<and> m ! (p + 3) = 0x2f)"
      proof
        assume h: "ch = 0x2f \<and> 2 \<le> len \<and> m ! (p + 1) = 0x2e \<and> m ! (p + 2) = 0x2e \<and> m ! (p + 3) = 0x2f"
        show False
          using b h unfolding dots_def rd_def by (simp split: if_splits)
      qed
      then show ?thesis using z rec by blast
    qed
    then have z: "ch \<noteq> 0" and rec: "unsafe_loop m (Suc p) len = Some r"
      and d: "\<not> (ch = 0x2f \<and> 2 \<le> len \<and> m ! (p + 1) = 0x2e \<and> m ! (p + 2) = 0x2e \<and> m ! (p + 3) = 0x2f)"
      by blast+
    have e: "checked_end (Suc p + len) r = checked_end (p + Suc len) r" by simp
    note IH = Suc.IH [OF rec Suc.prems(2), unfolded e]
    have far: "2 \<le> len" if "p + 3 < checked_end (p + Suc len) r"
      using that IH by linarith
    have "no_dot_dot m p (checked_end (p + Suc len) r)"
    proof (rule no_dot_dot_Cons)
      show "no_dot_dot m (Suc p) (checked_end (p + Suc len) r)" using IH by blast
    qed (use ch(2) q z d far in blast)+
    then show ?thesis using IH by linarith
  qed
qed

text \<open>C10: a URI that \<^verbatim>\<open>ngx_http_parse_unsafe_uri\<close> lets through is not empty, and the part of it before the
  arguments contains no zero byte, no question mark, and no \<open>/../\<close>.\<close>

theorem unsafe_uri_sound:
  assumes "ngx_http_parse_unsafe_uri m len = Some r" and "r \<noteq> Unsafe"
  shows "0 < len \<and> m ! 0 \<noteq> 0x3f \<and> checked_end len r \<le> len \<and> no_dot_dot m 0 (checked_end len r)"
proof -
  have "unsafe_loop m 0 len = Some r" "0 < len" "m ! 0 \<noteq> 0x3f"
    using assms by (auto simp: ngx_http_parse_unsafe_uri_def bind_eq_Some_conv rd_eq_Some split: if_splits)
  then show ?thesis using unsafe_loop_sound [of m 0 len r] assms(2) by simp
qed

lemma unsafe_uri_sound_witness:
  "no_dot_dot (str ''/a/..b?x'') 0 6 \<and> ngx_http_parse_unsafe_uri (str ''/a/../b'') 7 = Some Unsafe"
proof -
  have "ngx_http_parse_unsafe_uri (str ''/a/..b?x'') 8 = Some (Safe_args 6)"
    "ngx_http_parse_unsafe_uri (str ''/a/../b'') 7 = Some Unsafe"
    by code_simp+
  then show ?thesis
    using unsafe_uri_sound [of "str ''/a/..b?x''" 8 "Safe_args 6"] by (simp add: checked_end_def)
qed

text \<open>the check has three gaps: a leading \<open>../\<close> is found only when it is the whole URI, a trailing
  \<open>/..\<close> is let through, and to look at it the code reads the byte after the end of the URI.\<close>

lemma unsafe_uri_gaps:
  "ngx_http_parse_unsafe_uri (str ''../'') 3 = Some Unsafe \<and>
   ngx_http_parse_unsafe_uri (str ''../etc'') 6 = Some Safe \<and>
   ngx_http_parse_unsafe_uri (str ''/a/.. '') 5 = Some Safe \<and>
   ngx_http_parse_unsafe_uri (str ''/a/..'') 5 = None"
  by (intro conjI; code_simp)

section \<open>The argument that is found\<close>

text \<open>An argument \<open>name=\<close> at position \<open>i\<close>: at the beginning or after an ampersand.\<close>

definition arg_at :: "bytes \<Rightarrow> nat \<Rightarrow> bytes \<Rightarrow> nat \<Rightarrow> bool" where
  "arg_at m n name i \<longleftrightarrow> i + length name < n \<and> ci_match name m i \<and> (i = 0 \<or> m ! (i - 1) = 0x26) \<and>
     m ! (i + length name) = 0x3d"

lemma strlchr_Some:
  "n \<le> length s \<Longrightarrow> \<exists>r. ngx_strlchr s n c = Some r \<and>
    (case r of Some k \<Rightarrow> k < n \<and> s ! k = c \<and> c \<notin> set (take k s) | None \<Rightarrow> c \<notin> set (take n s))"
proof (induction s n c rule: ngx_strlchr.induct)
  case (2 x p n c)
  show ?case
  proof (cases "x = c")
    case False
    then obtain r where r: "ngx_strlchr p n c = Some r"
      "case r of Some k \<Rightarrow> k < n \<and> p ! k = c \<and> c \<notin> set (take k p) | None \<Rightarrow> c \<notin> set (take n p)"
      using 2 by auto
    then show ?thesis
      using False by (intro exI [of _ "map_option Suc r"]) (auto split: option.splits)
  qed auto
qed auto

lemma ci_match_drop: "p \<le> length m \<Longrightarrow> ci_match pat (drop p m) k \<longleftrightarrow> ci_match pat m (p + k)"
  by (simp add: ci_match_def add.commute)

lemma ngx_tolower_amp: "ngx_tolower c = 0x26 \<longleftrightarrow> c = 0x26"
proof -
  have "c \<le> c OR 0x20" by (rule le_word_or2)
  then have "c OR 0x20 \<noteq> 0x26" if "0x41 \<le> c"
    using that order_trans [of "0x41" c "0x26"] by auto
  then show ?thesis by (auto simp: ngx_tolower_def)
qed

text \<open>What is returned for the argument at \<open>i\<close>: the text up to the next ampersand or the end.\<close>

definition arg_value :: "bytes \<Rightarrow> nat \<Rightarrow> nat \<Rightarrow> nat \<Rightarrow> u64 \<Rightarrow> bool" where
  "arg_value m n i v l \<longleftrightarrow> v + unat l \<le> n \<and> 0x26 \<notin> set (take (unat l) (drop v m)) \<and>
     (v + unat l = n \<or> m ! (v + unat l) = 0x26)"

lemma arg_value_found:
  assumes n: "n \<le> length m" "n < 2 ^ 64" and name: "0x26 \<notin> set name" and i: "arg_at m n name i"
    and q: "ngx_strlchr (drop i m) (n - i) 0x26 = Some q"
  shows "arg_value m n i (i + length name + 1)
    (word_of_nat (case q of None \<Rightarrow> n | Some j \<Rightarrow> i + j) - word_of_nat (i + length name + 1))"
proof -
  let ?v = "i + length name + 1"
  define e where "e = (case q of None \<Rightarrow> n | Some j \<Rightarrow> i + j)"
  have "m ! (i + j) \<noteq> 0x26" if "j < length name" for j
  proof -
    have "map ngx_tolower (take (length name) (drop i m)) ! j = map ngx_tolower name ! j"
      using i by (simp add: arg_at_def ci_match_def)
    moreover have "length (take (length name) (drop i m)) = length name" "i + j < length m"
      using that i n by (auto simp: arg_at_def)
    ultimately have "ngx_tolower (m ! (i + j)) = ngx_tolower (name ! j)"
      using that by (simp add: nth_map)
    moreover have "name ! j \<noteq> 0x26" using that name by (metis nth_mem)
    ultimately show ?thesis using ngx_tolower_amp by metis
  qed
  moreover have "m ! (i + length name) = 0x3d" using i by (simp add: arg_at_def)
  ultimately have in_name: "m ! (i + j) \<noteq> 0x26" if "j \<le> length name" for j
    using that by (cases "j = length name") auto
  obtain r where "ngx_strlchr (drop i m) (n - i) 0x26 = Some r"
    "case r of Some k \<Rightarrow> k < n - i \<and> drop i m ! k = 0x26 \<and> 0x26 \<notin> set (take k (drop i m))
     | None \<Rightarrow> 0x26 \<notin> set (take (n - i) (drop i m))"
    using strlchr_Some [of "n - i" "drop i m" "0x26"] n(1) diff_le_mono [of n "length m" i]
    unfolding length_drop by blast
  then have q': "case q of Some k \<Rightarrow> k < n - i \<and> m ! (i + k) = 0x26 \<and> 0x26 \<notin> set (take k (drop i m))
     | None \<Rightarrow> 0x26 \<notin> set (take (n - i) (drop i m))"
    using q i n by (auto simp: arg_at_def split: option.splits)
  have "length name < k" if "q = Some k" for k
    using q' in_name [of k] that by (cases "length name < k") auto
  then have e: "?v \<le> e" "e \<le> n" "0x26 \<notin> set (take (e - i) (drop i m))" "e = n \<or> m ! e = 0x26"
    using q' in_name i by (auto simp: e_def arg_at_def not_less_eq_eq split: option.splits) 
  have l: "unat (word_of_nat e - word_of_nat ?v :: u64) = e - ?v"
  proof -
    have "word_of_nat e - word_of_nat ?v = (word_of_nat (e - ?v) :: u64)"
      using e(1) by (rule of_nat_diff [symmetric])
    moreover have "e - ?v < 2 ^ 64" using e(2) n(2) by linarith
    ultimately show ?thesis by (simp add: unsigned_of_nat take_bit_nat_eq_self)
  qed
  have "take (e - ?v) (drop ?v m) = drop (?v - i) (take (e - i) (drop i m))"
    using e(1) by (simp add: drop_take add.commute)
  then have "0x26 \<notin> set (take (e - ?v) (drop ?v m))"
    using e(3) by (metis in_set_dropD)
  then show ?thesis
    using e l unfolding arg_value_def e_def [symmetric] by simp
qed


text \<open>The first argument of this name from \<open>p\<close> on, or that there is none.\<close>

definition first_arg :: "bytes \<Rightarrow> nat \<Rightarrow> bytes \<Rightarrow> nat \<Rightarrow> (nat \<times> u64) option \<Rightarrow> bool" where
  "first_arg m n name p r = (case r of
       None \<Rightarrow> \<forall>i \<ge> p. \<not> arg_at m n name i
     | Some (v, l) \<Rightarrow> \<exists>i \<ge> p. arg_at m n name i \<and> (\<forall>j. p \<le> j \<and> j < i \<longrightarrow> \<not> arg_at m n name j) \<and>
         v = i + length name + 1 \<and> arg_value m n i v l)"

lemma first_arg_earlier:
  assumes "first_arg m n name q r" and "p \<le> q" and none: "\<And>i. p \<le> i \<Longrightarrow> i < q \<Longrightarrow> \<not> arg_at m n name i"
  shows "first_arg m n name p r"
proof (cases r)
  case None
  then show ?thesis using assms(1) none by (fastforce simp: first_arg_def not_le)
next
  case (Some vl)
  obtain v l where vl: "vl = (v, l)" by fastforce
  obtain i where "q \<le> i" "arg_at m n name i" "\<And>j. q \<le> j \<Longrightarrow> j < i \<Longrightarrow> \<not> arg_at m n name j"
    "v = i + length name + 1" "arg_value m n i v l"
    using assms(1) by (auto simp: first_arg_def Some vl)
  moreover have "\<not> arg_at m n name j" if "p \<le> j" "j < i" for j
    using that none [of j] calculation(3) [of j] by (cases "j < q") auto
  ultimately show ?thesis
    using assms(2) by (auto simp: first_arg_def Some vl intro!: exI [of _ i])
qed

lemma arg_loop_correct:
  assumes n: "n \<le> length m" "n < 2 ^ 64" and name: "0x26 \<notin> set name" "0 \<notin> set name" "name \<noteq> []"
  shows "\<exists>r. arg_loop m n (name @ rest) (length name) p = Some r \<and> first_arg m n name p r"
proof (induction "n - p" arbitrary: p rule: less_induct)
  case less
  show ?case
  proof (cases "p < n")
    case False
    then show ?thesis by (subst arg_loop.simps) (auto simp: arg_at_def first_arg_def)
  next
    case True
    obtain b pat where bp: "name = b # pat" using name(3) by (cases name) auto
    obtain r where r: "ngx_strlcasestrn (drop p m) (n - 1 - p) (name @ rest) (length name - 1) = Some r"
      and rc: "case r of
        Some k \<Rightarrow> k + length name \<le> n - 1 - p \<and> ci_match name m (p + k) \<and> (\<forall>j < k. \<not> ci_match name m (p + j))
      | None \<Rightarrow> \<forall>j. j + length name \<le> n - 1 - p \<longrightarrow> \<not> ci_match name m (p + j)"
    proof -
      have "0 \<notin> set pat" "n - 1 - p \<le> length (drop p m)" using name(2) n(1) bp by auto
      from strlcasestrn_window [OF this, of b rest] obtain r where
        "ngx_strlcasestrn (drop p m) (n - 1 - p) (b # pat @ rest) (length pat) = Some r"
        "case r of
          Some k \<Rightarrow> k + length (b # pat) \<le> n - 1 - p \<and> ci_match (b # pat) (drop p m) k \<and>
            (\<forall>j < k. \<not> ci_match (b # pat) (drop p m) j)
        | None \<Rightarrow> \<forall>j. j + length (b # pat) \<le> n - 1 - p \<longrightarrow> \<not> ci_match (b # pat) (drop p m) j"
        by blast
      then show thesis
        using that [of r] True n(1) by (simp add: bp ci_match_drop split: option.splits)
    qed
    show ?thesis
    proof (cases r)
      case None
      have "\<not> arg_at m n name i" if "p \<le> i" for i
        using rc None that True by (auto simp: arg_at_def dest!: spec [of _ "i - p"])
      then show ?thesis
        using True r None by (subst arg_loop.simps) (simp add: first_arg_def)
    next
      case (Some k)
      have before: "\<not> arg_at m n name j" if "p \<le> j" "j < p + k" for j
        using rc Some that by (auto simp: arg_at_def dest!: spec [of _ "j - p"])
      have k: "p + k + length name < n" "ci_match name m (p + k)"
        using rc Some True by auto
      show ?thesis
      proof (cases "arg_at m n name (p + k)")
        case hit: True
        obtain q where q: "ngx_strlchr (drop (p + k) m) (n - (p + k)) 0x26 = Some q"
          using strlchr_Some [of "n - (p + k)" "drop (p + k) m" "0x26"] n(1)
            diff_le_mono [of n "length m" "p + k"] unfolding length_drop by blast
        have "arg_loop m n (name @ rest) (length name) p = Some (Some (p + k + length name + 1,
          word_of_nat (case q of None \<Rightarrow> n | Some j \<Rightarrow> p + k + j) - word_of_nat (p + k + length name + 1)))"
          using True r Some hit k q n(1)
          by (subst arg_loop.simps) (auto simp: arg_at_def rd_def Let_def)
        then show ?thesis
          using arg_value_found [OF n name(1) hit q] hit before
          by (auto simp: first_arg_def intro!: exI [of _ "p + k"])
      next
        case miss: False
        have "arg_loop m n (name @ rest) (length name) p
            = arg_loop m n (name @ rest) (length name) (p + k + 1)"
          using True r Some miss k n(1)
          by (subst arg_loop.simps) (auto simp: arg_at_def rd_def)
        moreover have "n - (p + k + 1) < n - p" using True by simp
        note less(1) [OF this]
        moreover have "\<not> arg_at m n name i" if "p \<le> i" "i < p + k + 1" for i
          using that before [of i] miss by (cases "i = p + k") auto
        ultimately show ?thesis
          using first_arg_earlier [of m n name "p + k + 1" _ p] by auto
      qed
    qed
  qed
qed

text \<open>C11: for a name without ampersands and zero bytes, \<^verbatim>\<open>ngx_http_arg\<close> finds the first place where
  the name, in any case of letters, begins the arguments or follows an ampersand and is followed by
  an equals sign; the value it returns is the text from there to the next ampersand or the end, in
  the bounds of the arguments; it declines exactly when there is no such place.\<close>

theorem http_arg_first:
  assumes "n \<le> length m" and "n < 2 ^ 64" and "0x26 \<notin> set name" and "0 \<notin> set name" and "name \<noteq> []"
  shows "\<exists>r. ngx_http_arg m n (name @ rest) (length name) = Some r \<and> first_arg m n name 0 r"
proof (cases "n = 0")
  case True
  then show ?thesis by (simp add: ngx_http_arg_def arg_at_def first_arg_def)
next
  case False
  then show ?thesis
    using arg_loop_correct [OF assms, of rest 0] assms(5) by (simp add: ngx_http_arg_def)
qed

theorem http_arg_first_witness:
  "ngx_http_arg (str ''xid=1&Id=ab&id=2'') 16 (str ''id'') 2 = Some (Some (9, 2)) \<and>
   first_arg (str ''xid=1&Id=ab&id=2'') 16 (str ''id'') 0 (Some (9, 2))"
proof -
  let ?m = "str ''xid=1&Id=ab&id=2''"
  have e: "ngx_http_arg ?m 16 (str ''id'') 2 = Some (Some (9, 2))"
    by code_simp
  have w: "(16 :: nat) < 2 ^ 64" by simp
  have "16 \<le> length ?m" "0x26 \<notin> set (str ''id'')" "0 \<notin> set (str ''id'')"
    "str ''id'' \<noteq> []" "length (str ''id'') = 2"
    by code_simp+
  note h = this
  have "\<exists>r. ngx_http_arg ?m 16 (str ''id'' @ []) 2 = Some r \<and> first_arg ?m 16 (str ''id'') 0 r"
    using http_arg_first [OF h(1) w h(2-4), of "[]"] unfolding h(5) .
  then show ?thesis using e by simp
qed

end
