(* ===== verification/NgxTimes.thy ===== *)
theory NgxTimes
  imports NgxSprintf "HOL-Library.Signed_Division"
begin

text \<open>
  \<^verbatim>\<open>src/core/ngx_times.c\<close>: the calendar, the time strings and the cached time.  \<^verbatim>\<open>time_t\<close>,
  \<^verbatim>\<open>ngx_uint_t\<close> and \<^verbatim>\<open>ngx_int_t\<close> are 64-bit words, the fields of \<^verbatim>\<open>struct tm\<close> 32-bit ones.
  \<^verbatim>\<open>localtime_r\<close> and the clock are the system's: the first is a parameter, the second an argument.
\<close>

section \<open>ngx_gmtime\<close>

record ngx_tm =
  tm_sec :: u32
  tm_min :: u32
  tm_hour :: u32
  tm_mday :: u32
  tm_mon :: u32
  tm_year :: u32
  tm_wday :: u32

text \<open>Division of an \<^verbatim>\<open>ngx_int_t\<close> by a constant, towards zero.\<close>

definition sdiv64 :: "u64 \<Rightarrow> int \<Rightarrow> u64" where
  "sdiv64 a k = word_of_int (sint a sdiv k)"

definition smod64 :: "u64 \<Rightarrow> int \<Rightarrow> u64" where
  "smod64 a k = word_of_int (sint a smod k)"

definition ngx_gmtime :: "u64 \<Rightarrow> ngx_tm" where
  "ngx_gmtime t =
     (let n = t;
          days = n div 86400;
          wday = (4 + days) mod 7;
          n = n mod 86400;
          hour = n div 3600;
          n = n mod 3600;
          min = n div 60;
          sec = n mod 60;
          days = days - (31 + 28) + 719527;
          year = (days + 2) * 400 div (365 * 400 + 100 - 4 + 1);
          yday = days - (365 * year + year div 4 - year div 100 + year div 400);
          (yday, year) =
            (if sint yday < 0 then
               (let leap = (if year mod 4 = 0 \<and> (year mod 100 \<noteq> 0 \<or> year mod 400 = 0) then 1 else 0)
                in (365 + leap + yday, year - 1))
             else (yday, year));
          mon = sdiv64 ((yday + 31) * 10) 306;
          mday = yday - (367 * mon div 12 - 30) + 1;
          (year, mon) = (if 306 \<le> sint yday then (year + 1, mon - 10) else (year, mon + 2))
      in \<lparr>tm_sec = ucast sec, tm_min = ucast min, tm_hour = ucast hour, tm_mday = ucast mday,
          tm_mon = ucast mon, tm_year = ucast year, tm_wday = ucast wday\<rparr>)"

section \<open>The time strings\<close>

definition week :: "bytes list" where
  "week = map str [''Sun'', ''Mon'', ''Tue'', ''Wed'', ''Thu'', ''Fri'', ''Sat'']"

definition months :: "bytes list" where
  "months = map str [''Jan'', ''Feb'', ''Mar'', ''Apr'', ''May'', ''Jun'',
                     ''Jul'', ''Aug'', ''Sep'', ''Oct'', ''Nov'', ''Dec'']"

text \<open>An element of these arrays as an argument for \<^verbatim>\<open>%s\<close>; outside the array the read is undefined.\<close>

definition name_arg :: "bytes list \<Rightarrow> u32 \<Rightarrow> 'd va_arg option" where
  "name_arg names i = map_option (\<lambda>s. VaCStr (s @ [0])) (if 0 \<le> sint i then rd names (unat i) else None)"

definition ngx_http_time :: "'d fp_ops \<Rightarrow> u64 \<Rightarrow> u64 \<Rightarrow> bytes option" where
  "ngx_http_time fp buf t =
     (let tm = ngx_gmtime t in do {
        w \<leftarrow> name_arg week (tm_wday tm);
        m \<leftarrow> name_arg months (tm_mon tm - 1);
        ngx_sprintf fp buf (str ''%s, %02d %s %4d %02d:%02d:%02d GMT'' @ [0])
          [w, Va32 (tm_mday tm), m, Va32 (tm_year tm), Va32 (tm_hour tm), Va32 (tm_min tm), Va32 (tm_sec tm)] })"

definition ngx_http_cookie_time :: "'d fp_ops \<Rightarrow> u64 \<Rightarrow> u64 \<Rightarrow> bytes option" where
  "ngx_http_cookie_time fp buf t =
     (let tm = ngx_gmtime t; late = 2037 < sint (tm_year tm) in do {
        w \<leftarrow> name_arg week (tm_wday tm);
        m \<leftarrow> name_arg months (tm_mon tm - 1);
        ngx_sprintf fp buf
          ((if late then str ''%s, %02d-%s-%d %02d:%02d:%02d GMT''
            else str ''%s, %02d-%s-%02d %02d:%02d:%02d GMT'') @ [0])
          [w, Va32 (tm_mday tm), m,
           Va32 (if late then tm_year tm else word_of_int (sint (tm_year tm) smod 100)),
           Va32 (tm_hour tm), Va32 (tm_min tm), Va32 (tm_sec tm)] })"

section \<open>The cached time\<close>

text \<open>
  The global variables.  The pointers into the arrays of slots are the slot's number; a string in a
  slot is its bytes.  \<open>strings_addr k i\<close>, in the operations, is the address of slot \<open>i\<close> of the \<open>k\<close>-th
  array of strings, which only bounds what \<^verbatim>\<open>ngx_sprintf\<close> may write.
\<close>

definition NGX_TIME_SLOTS :: nat where "NGX_TIME_SLOTS = 64"

record ngx_time =
  sec :: u64
  msec :: u64
  gmtoff :: u64

record times =
  slot :: nat
  time_lock :: bool
  current_msec :: u64
  cached_gmtoff :: u64
  cached_time :: "ngx_time list"
  cached_err_log_time :: "bytes list"
  cached_http_time :: "bytes list"
  cached_http_log_time :: "bytes list"
  cached_iso8601 :: "bytes list"
  ngx_cached_time :: nat
  ngx_cached_err_log_time :: nat
  ngx_cached_http_time :: nat
  ngx_cached_http_log_time :: nat
  ngx_cached_iso8601 :: nat

definition ngx_abs :: "u64 \<Rightarrow> u64" where
  "ngx_abs v = (if 0 \<le> sint v then v else - v)"

definition err_log_format :: "'d fp_ops \<Rightarrow> u64 \<Rightarrow> ngx_tm \<Rightarrow> bytes option" where
  "err_log_format fp buf tm = ngx_sprintf fp buf (str ''%4d/%02d/%02d %02d:%02d:%02d'' @ [0])
     [Va32 (tm_year tm), Va32 (tm_mon tm), Va32 (tm_mday tm), Va32 (tm_hour tm), Va32 (tm_min tm), Va32 (tm_sec tm)]"

definition log_format :: "'d fp_ops \<Rightarrow> u64 \<Rightarrow> ngx_tm \<Rightarrow> u64 \<Rightarrow> bytes option" where
  "log_format fp buf tm off = do {
     m \<leftarrow> name_arg months (tm_mon tm - 1);
     ngx_sprintf fp buf (str ''%02d/%s/%d:%02d:%02d:%02d %c%02d%02d'' @ [0])
       [Va32 (tm_mday tm), m, Va32 (tm_year tm), Va32 (tm_hour tm), Va32 (tm_min tm), Va32 (tm_sec tm),
        Va32 (if sint off < 0 then 0x2d else 0x2b),
        Va32 (ucast (ngx_abs (sdiv64 off 60))), Va32 (ucast (ngx_abs (smod64 off 60)))] }"

definition iso8601_format :: "'d fp_ops \<Rightarrow> u64 \<Rightarrow> ngx_tm \<Rightarrow> u64 \<Rightarrow> bytes option" where
  "iso8601_format fp buf tm off = ngx_sprintf fp buf (str ''%4d-%02d-%02dT%02d:%02d:%02d%c%02d:%02d'' @ [0])
     [Va32 (tm_year tm), Va32 (tm_mon tm), Va32 (tm_mday tm), Va32 (tm_hour tm), Va32 (tm_min tm), Va32 (tm_sec tm),
      Va32 (if sint off < 0 then 0x2d else 0x2b),
      Va32 (ucast (ngx_abs (sdiv64 off 60))), Va32 (ucast (ngx_abs (smod64 off 60)))]"

definition next_slot :: "nat \<Rightarrow> nat" where
  "next_slot i = (if i = NGX_TIME_SLOTS - 1 then 0 else i + 1)"

text \<open>\<open>localtime\<close> is \<^verbatim>\<open>ngx_localtime\<close>: the fields and \<^verbatim>\<open>tm_gmtoff\<close>, in seconds.\<close>

definition ngx_time_update ::
  "'d fp_ops \<Rightarrow> (nat \<Rightarrow> nat \<Rightarrow> u64) \<Rightarrow> (u64 \<Rightarrow> ngx_tm \<times> u64) \<Rightarrow> u64 \<Rightarrow> u64 \<Rightarrow> times \<Rightarrow> times option" where
  "ngx_time_update fp strings_addr localtime tv_sec tv_usec T =
     (if time_lock T then Some T
      else
        let ms = sdiv64 tv_usec 1000;
            T = T\<lparr>current_msec := tv_sec * 1000 + ms\<rparr> in
        if sec (cached_time T ! slot T) = tv_sec then
          Some (T\<lparr>cached_time := (cached_time T)[slot T := (cached_time T ! slot T)\<lparr>msec := ms\<rparr>]\<rparr>)
        else
          let s = next_slot (slot T);
              (tm, tm_gmtoff) = localtime tv_sec;
              off = sdiv64 tm_gmtoff 60 in
          do {
            p0 \<leftarrow> ngx_http_time fp (strings_addr 0 s) tv_sec;
            p1 \<leftarrow> err_log_format fp (strings_addr 1 s) tm;
            p2 \<leftarrow> log_format fp (strings_addr 2 s) tm off;
            p3 \<leftarrow> iso8601_format fp (strings_addr 3 s) tm off;
            Some (T\<lparr>slot := s, cached_gmtoff := off,
                    cached_time := (cached_time T)[s := \<lparr>sec = tv_sec, msec = ms, gmtoff = off\<rparr>],
                    cached_http_time := (cached_http_time T)[s := p0],
                    cached_err_log_time := (cached_err_log_time T)[s := p1],
                    cached_http_log_time := (cached_http_log_time T)[s := p2],
                    cached_iso8601 := (cached_iso8601 T)[s := p3],
                    ngx_cached_time := s, ngx_cached_http_time := s, ngx_cached_err_log_time := s,
                    ngx_cached_http_log_time := s, ngx_cached_iso8601 := s\<rparr>) })"

definition ngx_time_sigsafe_update ::
  "'d fp_ops \<Rightarrow> (nat \<Rightarrow> nat \<Rightarrow> u64) \<Rightarrow> u64 \<Rightarrow> times \<Rightarrow> times option" where
  "ngx_time_sigsafe_update fp strings_addr tv_sec T =
     (if time_lock T then Some T
      else if sec (cached_time T ! slot T) = tv_sec then Some T
      else
        let s = next_slot (slot T);
            tm = ngx_gmtime (tv_sec + cached_gmtoff T * 60) in
        do {
          p \<leftarrow> err_log_format fp (strings_addr 1 s) tm;
          Some (T\<lparr>slot := s, cached_err_log_time := (cached_err_log_time T)[s := p],
                  ngx_cached_err_log_time := s\<rparr>) })"

definition ngx_time_init ::
  "'d fp_ops \<Rightarrow> (nat \<Rightarrow> nat \<Rightarrow> u64) \<Rightarrow> (u64 \<Rightarrow> ngx_tm \<times> u64) \<Rightarrow> u64 \<Rightarrow> u64 \<Rightarrow> times \<Rightarrow> times option" where
  "ngx_time_init fp strings_addr localtime tv_sec tv_usec T =
     ngx_time_update fp strings_addr localtime tv_sec tv_usec (T\<lparr>ngx_cached_time := 0\<rparr>)"

text \<open>
  The next time of day \<open>wh\<close>, given in seconds after midnight.  \<open>libc_localtime\<close> and \<open>mktime\<close> are the
  system's; \<^verbatim>\<open>mktime\<close> also normalises its argument.
\<close>

definition ngx_next_time :: "(u64 \<Rightarrow> ngx_tm) \<Rightarrow> (ngx_tm \<Rightarrow> ngx_tm \<times> u64) \<Rightarrow> times \<Rightarrow> u64 \<Rightarrow> u64" where
  "ngx_next_time libc_localtime mktime T wh =
     (let now = sec (cached_time T ! ngx_cached_time T);
          tm = libc_localtime now;
          tm = tm\<lparr>tm_hour := ucast (sdiv64 wh 3600)\<rparr>;
          wh = smod64 wh 3600;
          tm = tm\<lparr>tm_min := ucast (sdiv64 wh 60), tm_sec := ucast (smod64 wh 60)\<rparr>;
          (tm, nxt) = mktime tm
      in if nxt = -1 then -1
         else if 0 < sint (nxt - now) then nxt
         else snd (mktime (tm\<lparr>tm_mday := tm_mday tm + 1\<rparr>)))"

end
