(* ===== verification/NgxCalendar.thy ===== *)
theory NgxCalendar
  imports NgxTimes
begin

text \<open>
  The Gregorian calendar, year by year and month by month, and the proof that the closed formulas of
  \<^verbatim>\<open>ngx_gmtime\<close> compute it.  \<open>gauss\<close> counts days from March 1 of the year 0, as the code does.
\<close>


section \<open>The calendar\<close>

definition leap_year :: "nat \<Rightarrow> bool" where
  "leap_year y \<longleftrightarrow> y mod 4 = 0 \<and> (y mod 100 \<noteq> 0 \<or> y mod 400 = 0)"

definition month_days :: "bool \<Rightarrow> nat \<Rightarrow> nat" where
  "month_days leap m = (if m = 2 then if leap then 29 else 28 else if m \<in> {4, 6, 9, 11} then 30 else 31)"

definition days_to_year :: "nat \<Rightarrow> nat" where
  "days_to_year y = (\<Sum>k \<leftarrow> [1970..<y]. if leap_year k then 366 else 365)"

definition days_to_month :: "bool \<Rightarrow> nat \<Rightarrow> nat" where
  "days_to_month leap m = (\<Sum>k \<leftarrow> [1..<m]. month_days leap k)"

text \<open>Days from March 1 of the year 0 to March 1 of the year \<open>y\<close>: Gauss' formula.\<close>

definition gauss :: "nat \<Rightarrow> nat" where
  "gauss y = 365 * y + y div 4 - y div 100 + y div 400"

lemma div_Suc_dvd: "Suc y div k = y div k + (if k dvd Suc y then 1 else 0)"
  by (simp add: div_Suc dvd_eq_mod_eq_0)

lemma gauss_Suc: "gauss (Suc y) = gauss y + 365 + (if leap_year (Suc y) then 1 else 0)"
proof -
  have c: "400 dvd Suc y \<Longrightarrow> 100 dvd Suc y" "100 dvd Suc y \<Longrightarrow> 4 dvd Suc y"
    by (rule dvd_trans [rotated], assumption, simp)+
  obtain A B C where abc: "y div 4 = A" "y div 100 = B" "y div 400 = C" by blast
  have le: "B \<le> A" unfolding abc [symmetric] by (simp add: div_le_mono2)
  have l: "leap_year (Suc y) \<longleftrightarrow> 4 dvd Suc y \<and> (\<not> 100 dvd Suc y \<or> 400 dvd Suc y)"
    by (simp add: leap_year_def dvd_eq_mod_eq_0)
  consider "400 dvd Suc y" "100 dvd Suc y" "4 dvd Suc y" | "\<not> 400 dvd Suc y" "100 dvd Suc y" "4 dvd Suc y"
    | "\<not> 400 dvd Suc y" "\<not> 100 dvd Suc y" "4 dvd Suc y" | "\<not> 400 dvd Suc y" "\<not> 100 dvd Suc y" "\<not> 4 dvd Suc y"
    using c by blast
  then show ?thesis
  proof cases
    case 1
    then show ?thesis unfolding gauss_def l div_Suc_dvd abc using le by simp
  next
    case 2
    then show ?thesis unfolding gauss_def l div_Suc_dvd abc using le by simp
  next
    case 3
    then show ?thesis unfolding gauss_def l div_Suc_dvd abc using le by simp
  next
    case 4
    then show ?thesis unfolding gauss_def l div_Suc_dvd abc using le by simp
  qed
qed

lemma days_to_year_gauss: "1970 \<le> y \<Longrightarrow> days_to_year y + 719468 = gauss (y - 1) + 306"
proof (induction y rule: nat_induct_at_least)
  case base
  then show ?case by (simp add: days_to_year_def gauss_def)
next
  case (Suc y)
  then have "days_to_year (Suc y) = days_to_year y + 365 + (if leap_year y then 1 else 0)"
    by (simp add: days_to_year_def)
  moreover have "gauss y = gauss (y - 1) + 365 + (if leap_year y then 1 else 0)"
    using gauss_Suc [of "y - 1"] Suc by simp
  ultimately show ?case using Suc by simp
qed

lemma gauss_mono: "a \<le> b \<Longrightarrow> gauss a \<le> gauss b"
  by (rule lift_Suc_mono_le [of gauss]) (simp_all add: gauss_Suc)

lemma gauss_ge: "365 * y \<le> gauss y"
  by (induction y) (simp_all add: gauss_Suc)

lemma gauss_400: "gauss (400 * q + a) = 146097 * q + gauss a"
proof -
  have "(400 * q + a) div 4 = 100 * q + a div 4" "(400 * q + a) div 100 = 4 * q + a div 100"
    "(400 * q + a) div 400 = q + a div 400"
    using div_mult_self1 [of 4 a "100 * q"] div_mult_self1 [of 100 a "4 * q"] div_mult_self1 [of 400 a q]
    by (simp_all add: ac_simps)
  moreover have "a div 100 \<le> a div 4" by (simp add: div_le_mono2)
  moreover have "b \<le> c \<Longrightarrow> 365 * (400 * q + a) + (100 * q + c) - (4 * q + b) + (q + d) = 146097 * q + (365 * a + c - b + d)"
    for b c d by (simp add: add_mult_distrib2)
  ultimately show ?thesis unfolding gauss_def by simp
qed

text \<open>The year of a day.\<close>

lemma gauss_year: "\<exists>y. gauss y \<le> n \<and> n < gauss (Suc y)"
proof -
  define P where "P k \<longleftrightarrow> n < gauss (Suc k)" for k
  have "P n" unfolding P_def using gauss_ge [of "Suc n"] by simp
  then obtain y where "P y" "\<forall>k < y. \<not> P k" using exists_least_iff [of P] by blast
  then show ?thesis unfolding P_def
    by (intro exI [of _ y], cases y) (auto simp: gauss_def not_less)
qed

lemma int_gauss: "int (gauss a) = 365 * int a + int a div 4 - int a div 100 + int a div 400"
proof -
  have "a div 100 \<le> 365 * a + a div 4" by (simp add: div_le_mono2 trans_le_add2)
  then show ?thesis unfolding gauss_def by (simp add: of_nat_diff zdiv_int)
qed

lemma year_estimate_cycle:
  assumes "a < 400"
  shows "a \<le> (gauss a + 2) * 400 div 146097" "(gauss (Suc a) + 1) * 400 div 146097 \<le> Suc a"
proof -
  have "list_all (\<lambda>a :: int.
      a \<le> (365 * a + a div 4 - a div 100 + a div 400 + 2) * 400 div 146097 \<and>
      (365 * (a + 1) + (a + 1) div 4 - (a + 1) div 100 + (a + 1) div 400 + 1) * 400 div 146097 \<le> a + 1) [0..399]"
    by code_simp
  then have "int a \<le> (int (gauss a) + 2) * 400 div 146097 \<and> (int (gauss (Suc a)) + 1) * 400 div 146097 \<le> int a + 1"
    using assms unfolding list_all_iff int_gauss by (auto simp: add.commute)
  moreover have "(int (gauss a) + 2) * 400 div 146097 = int ((gauss a + 2) * 400 div 146097)"
    "(int (gauss (Suc a)) + 1) * 400 div 146097 = int ((gauss (Suc a) + 1) * 400 div 146097)"
    by (simp_all add: zdiv_int)
  ultimately show "a \<le> (gauss a + 2) * 400 div 146097" "(gauss (Suc a) + 1) * 400 div 146097 \<le> Suc a"
    by linarith+
qed

lemma year_estimate:
  assumes "gauss y \<le> n" and "n < gauss (Suc y)"
  shows "(n + 2) * 400 div 146097 = y \<or> (n + 2) * 400 div 146097 = Suc y"
proof -
  define q a where "q = y div 400" and "a = y mod 400"
  have y: "y = 400 * q + a" and a: "a < 400" by (simp_all add: q_def a_def)
  have s: "gauss (Suc y) = 146097 * q + gauss (Suc a)" using gauss_400 [of q "Suc a"] y by simp
  define r where "r = n - 146097 * q"
  have n: "n = 146097 * q + r" and r: "gauss a \<le> r" "r < gauss (Suc a)"
    using assms s gauss_400 [of q a] y by (simp_all add: r_def)
  have "(n + 2) * 400 = 146097 * (400 * q) + (r + 2) * 400" using n by simp
  then have e: "(n + 2) * 400 div 146097 = 400 * q + (r + 2) * 400 div 146097" by simp
  have "(gauss a + 2) * 400 div 146097 \<le> (r + 2) * 400 div 146097" using r by (simp add: div_le_mono)
  moreover have "(r + 2) * 400 div 146097 \<le> (gauss (Suc a) + 1) * 400 div 146097"
    using r by (intro div_le_mono) simp
  ultimately show ?thesis
    using year_estimate_cycle [OF a] e y by linarith
qed

text \<open>Month and day: what the two formulas give for the \<open>yd\<close>-th day from March 1.\<close>

definition march_month :: "nat \<Rightarrow> nat" where "march_month yd = (yd + 31) * 10 div 306"

definition march_mday :: "nat \<Rightarrow> nat" where "march_mday yd = yd + 31 - 367 * march_month yd div 12"

lemma month_cases:
  assumes "1 \<le> (m :: nat)" and "m \<le> 12"
  obtains "m = 1" | "m = 2" | "m = 3" | "m = 4" | "m = 5" | "m = 6" | "m = 7" | "m = 8" | "m = 9"
    | "m = 10" | "m = 11" | "m = 12"
proof -
  have "m = 1 \<or> m = 2 \<or> m = 3 \<or> m = 4 \<or> m = 5 \<or> m = 6 \<or> m = 7 \<or> m = 8 \<or> m = 9 \<or> m = 10 \<or> m = 11 \<or> m = 12"
    using assms by arith
  then show thesis using that by blast
qed

lemma march_month_bounds:
  "306 * march_month yd \<le> 10 * yd + 310" "10 * yd + 310 < 306 * march_month yd + 306"
  unfolding march_month_def
  using times_div_less_eq_dividend [of 306 "(yd + 31) * 10"] dividend_less_times_div [of 306 "(yd + 31) * 10"]
  by (simp_all add: algebra_simps)

lemma days_to_month_simps [simp]:
  "days_to_month l (Suc 0) = 0" "days_to_month l 2 = 31" "days_to_month l 3 = (if l then 60 else 59)"
  "days_to_month l 4 = (if l then 91 else 90)" "days_to_month l 5 = (if l then 121 else 120)"
  "days_to_month l 6 = (if l then 152 else 151)" "days_to_month l 7 = (if l then 182 else 181)"
  "days_to_month l 8 = (if l then 213 else 212)" "days_to_month l 9 = (if l then 244 else 243)"
  "days_to_month l 10 = (if l then 274 else 273)" "days_to_month l 11 = (if l then 305 else 304)"
  "days_to_month l 12 = (if l then 335 else 334)"
  by (simp_all add: days_to_month_def month_days_def upt_conv_Cons_Cons upt_rec)

lemma march_table:
  assumes "yd < 366"
  shows "1 \<le> march_month yd" "march_month yd \<le> 12" "1 \<le> march_mday yd" "march_mday yd \<le> 31"
    "367 * march_month yd div 12 < yd + 31" "306 \<le> yd \<longleftrightarrow> 11 \<le> march_month yd"
    "yd < 306 \<Longrightarrow> yd + (if l then 60 else 59) + 1 = days_to_month l (march_month yd + 2) + march_mday yd"
    "yd < 306 \<Longrightarrow> march_mday yd \<le> month_days l (march_month yd + 2)"
    "306 \<le> yd \<Longrightarrow> yd + 1 = 306 + days_to_month l (march_month yd - 10) + march_mday yd"
    "306 \<le> yd \<Longrightarrow> yd \<le> 364 + (if l then 1 else 0) \<Longrightarrow> march_mday yd \<le> month_days l (march_month yd - 10)"
proof -
  note b = march_month_bounds [of yd]
  show m1: "1 \<le> march_month yd" using b assms by linarith
  show m2: "march_month yd \<le> 12" using b assms by linarith
  consider
      "march_month yd = 1" "yd < 31" "march_mday yd = yd + 1"
    | "march_month yd = 2" "31 \<le> yd" "yd < 61" "march_mday yd = yd - 30"
    | "march_month yd = 3" "61 \<le> yd" "yd < 92" "march_mday yd = yd - 60"
    | "march_month yd = 4" "92 \<le> yd" "yd < 122" "march_mday yd = yd - 91"
    | "march_month yd = 5" "122 \<le> yd" "yd < 153" "march_mday yd = yd - 121"
    | "march_month yd = 6" "153 \<le> yd" "yd < 184" "march_mday yd = yd - 152"
    | "march_month yd = 7" "184 \<le> yd" "yd < 214" "march_mday yd = yd - 183"
    | "march_month yd = 8" "214 \<le> yd" "yd < 245" "march_mday yd = yd - 213"
    | "march_month yd = 9" "245 \<le> yd" "yd < 275" "march_mday yd = yd - 244"
    | "march_month yd = 10" "275 \<le> yd" "yd < 306" "march_mday yd = yd - 274"
    | "march_month yd = 11" "306 \<le> yd" "yd < 337" "march_mday yd = yd - 305"
    | "march_month yd = 12" "337 \<le> yd" "march_mday yd = yd - 336"
  proof (cases rule: month_cases [OF m1 m2])
    case 1
    then show thesis using b by (intro that(1)) (simp_all add: march_mday_def)
  next
    case 2
    then show thesis using b by (intro that(2)) (simp_all add: march_mday_def)
  next
    case 3
    then show thesis using b by (intro that(3)) (simp_all add: march_mday_def)
  next
    case 4
    then show thesis using b by (intro that(4)) (simp_all add: march_mday_def)
  next
    case 5
    then show thesis using b by (intro that(5)) (simp_all add: march_mday_def)
  next
    case 6
    then show thesis using b by (intro that(6)) (simp_all add: march_mday_def)
  next
    case 7
    then show thesis using b by (intro that(7)) (simp_all add: march_mday_def)
  next
    case 8
    then show thesis using b by (intro that(8)) (simp_all add: march_mday_def)
  next
    case 9
    then show thesis using b by (intro that(9)) (simp_all add: march_mday_def)
  next
    case 10
    then show thesis using b by (intro that(10)) (simp_all add: march_mday_def)
  next
    case 11
    then show thesis using b by (intro that(11)) (simp_all add: march_mday_def)
  next
    case 12
    then show thesis using b by (intro that(12)) (simp_all add: march_mday_def)
  qed
  note months = this
  show "1 \<le> march_mday yd" by (rule months; simp)
  show "march_mday yd \<le> 31" using assms by - (rule months; simp)
  show "367 * march_month yd div 12 < yd + 31" by (rule months; simp)
  show "306 \<le> yd \<longleftrightarrow> 11 \<le> march_month yd" by (rule months; simp)
  show "yd + (if l then 60 else 59) + 1 = days_to_month l (march_month yd + 2) + march_mday yd" if "yd < 306"
    using that by - (rule months; cases l; simp flip: numeral_3_eq_3)
  show "march_mday yd \<le> month_days l (march_month yd + 2)" if "yd < 306"
    using that by - (rule months; simp add: month_days_def flip: numeral_3_eq_3)
  show "yd + 1 = 306 + days_to_month l (march_month yd - 10) + march_mday yd" if "306 \<le> yd"
    using that by - (rule months; simp)
  show "march_mday yd \<le> month_days l (march_month yd - 10)" if "306 \<le> yd" "yd \<le> 364 + (if l then 1 else 0)"
    using that by - (cases l; rule months; simp add: month_days_def)
qed


section \<open>The words\<close>

lemma word_of_nat_div:
  assumes "a < 2 ^ 64" and "b < 2 ^ 64"
  shows "(word_of_nat a :: u64) div word_of_nat b = word_of_nat (a div b)"
proof (rule unsigned_word_eqI [where 'a = nat])
  have "a div b < 2 ^ 64" using assms(1) div_le_dividend [of a b] by linarith
  then show "unat ((word_of_nat a :: u64) div word_of_nat b) = unat (word_of_nat (a div b) :: u64)"
    using assms by (simp add: unat_div unsigned_of_nat take_bit_nat_eq_self)
qed

lemma word_of_nat_mod:
  assumes "a < 2 ^ 64" and "b < 2 ^ 64"
  shows "(word_of_nat a :: u64) mod word_of_nat b = word_of_nat (a mod b)"
proof (rule unsigned_word_eqI [where 'a = nat])
  have "a mod b < 2 ^ 64" using assms(1) mod_less_eq_dividend [of a b] by linarith
  then show "unat ((word_of_nat a :: u64) mod word_of_nat b) = unat (word_of_nat (a mod b) :: u64)"
    using assms by (simp add: unat_mod unsigned_of_nat take_bit_nat_eq_self)
qed

lemma sint_small: "n < 2 ^ 63 \<Longrightarrow> sint (word_of_nat n :: u64) = int n"
  by (simp add: signed_of_nat signed_take_bit_int_eq_self)

lemma sdiv64_small:
  assumes "n < 2 ^ 63"
  shows "sdiv64 (word_of_nat n) (int k) = word_of_nat (n div k)"
proof -
  have "int n sdiv int k = int (n div k)"
    by (simp add: signed_divide_int_def zdiv_int sgn_if)
  then show ?thesis using assms by (simp add: sdiv64_def sint_small)
qed

lemma gauss_word:
  assumes "y < 2 ^ 50"
  shows "365 * word_of_nat y + word_of_nat y div 4 - word_of_nat y div 100 + word_of_nat y div 400 = (word_of_nat (gauss y) :: u64)"
proof -
  have "y div 100 \<le> 365 * y + y div 4" by (simp add: div_le_mono2 trans_le_add2)
  then show ?thesis
    using assms word_of_nat_div [of y 4] word_of_nat_div [of y 100] word_of_nat_div [of y 400]
    by (simp add: gauss_def)
qed

lemma march_words:
  assumes "yd < 366"
  shows "sdiv64 ((word_of_nat yd + 31) * 10) 306 = word_of_nat (march_month yd)"
    "word_of_nat yd - (367 * word_of_nat (march_month yd) div 12 - 30) + 1 = (word_of_nat (march_mday yd) :: u64)"
proof -
  have "(word_of_nat yd + 31) * 10 = (word_of_nat ((yd + 31) * 10) :: u64)" by simp
  then show "sdiv64 ((word_of_nat yd + 31) * 10) 306 = word_of_nat (march_month yd)"
    using assms sdiv64_small [of "(yd + 31) * 10" 306] by (simp add: march_month_def)
  have m: "march_month yd \<le> 12" using march_table(2) [OF assms] .
  have "367 * word_of_nat (march_month yd) = (word_of_nat (367 * march_month yd) :: u64)" by simp
  then have "367 * word_of_nat (march_month yd) div 12 = (word_of_nat (367 * march_month yd div 12) :: u64)"
    using m word_of_nat_div [of "367 * march_month yd" 12] by simp
  moreover have "367 * march_month yd div 12 \<le> yd + 31" using march_table(5) [OF assms] by simp
  ultimately show "word_of_nat yd - (367 * word_of_nat (march_month yd) div 12 - 30) + 1 = (word_of_nat (march_mday yd) :: u64)"
    by (simp add: march_mday_def)
qed


text \<open>The year and the day of the year that \<^verbatim>\<open>ngx_gmtime\<close> computes for day \<open>n\<close>.\<close>

lemma gmtime_year:
  assumes n: "n < 2 ^ 40" and Y: "gauss Y \<le> n" "n < gauss (Suc Y)"
  defines "year \<equiv> (word_of_nat n + 2) * 400 div (365 * 400 + 100 - 4 + 1) :: u64"
  defines "yday \<equiv> word_of_nat n - (365 * year + year div 4 - year div 100 + year div 400)"
  shows "(if sint yday < 0 then
           (let leap = (if year mod 4 = 0 \<and> (year mod 100 \<noteq> 0 \<or> year mod 400 = 0) then 1 else 0)
            in (365 + leap + yday, year - 1))
         else (yday, year)) = (word_of_nat (n - gauss Y), word_of_nat Y)"
proof -
  define y where "y = (n + 2) * 400 div 146097"
  have yb: "y < 2 ^ 50" unfolding y_def using n by (simp add: less_mult_imp_div_less)
  have "(word_of_nat n + 2) * 400 = (word_of_nat ((n + 2) * 400) :: u64)" by simp
  then have year: "year = word_of_nat y"
    unfolding year_def y_def using n word_of_nat_div [of "(n + 2) * 400" 146097] by (simp add: algebra_simps)
  have yday: "yday = word_of_nat n - word_of_nat (gauss y)"
    unfolding yday_def year gauss_word [OF yb] ..
  have gs: "gauss (Suc Y) = gauss Y + 365 + (if leap_year (Suc Y) then 1 else 0)" by (rule gauss_Suc)
  consider "y = Y" | "y = Suc Y" using year_estimate [OF Y] unfolding y_def by blast
  then show ?thesis
  proof cases
    case 1
    have "yday = word_of_nat (n - gauss Y)" using yday 1 Y by (simp add: of_nat_diff)
    moreover from this have "sint yday = int (n - gauss Y)"
      using n by (simp add: sint_small)
    ultimately show ?thesis using year 1 by simp
  next
    case 2
    define k where "k = gauss (Suc Y) - n"
    have k: "1 \<le> k" "k \<le> 366" using Y gs by (auto simp: k_def split: if_splits)
    have yk: "yday = - word_of_nat k"
      using yday 2 Y by (simp add: k_def of_nat_diff)
    have "sint yday = - int k"
    proof -
      have "yday = word_of_int (- int k)" unfolding yk by simp
      then have "sint yday = signed_take_bit 63 (- int k)" by (simp only: signed_of_int) simp
      then show ?thesis using k by (simp add: signed_take_bit_int_eq_self)
    qed
    then have neg: "sint yday < 0" using k by simp
    have m: "(word_of_nat y :: u64) mod word_of_nat c = 0 \<longleftrightarrow> y mod c = 0" if "c < 2 ^ 64" for c
    proof -
      have "y mod c < 2 ^ 64" using le_less_trans [OF mod_less_eq_dividend yb, of c] by simp
      then show ?thesis
        using that le_less_trans [OF less_imp_le [OF yb], of "2 ^ 64"]
        by (auto simp: word_of_nat_mod word_of_nat_eq_0_iff dest: dvd_imp_le)
    qed
    have l: "(year mod 4 = 0 \<and> (year mod 100 \<noteq> 0 \<or> year mod 400 = 0)) = leap_year (Suc Y)"
      unfolding year leap_year_def using m [of 4] m [of 100] m [of 400] 2 by simp
    have "365 + (if leap_year (Suc Y) then 1 else 0) - k = n - gauss Y" "k \<le> 365 + (if leap_year (Suc Y) then 1 else 0)"
      using gs Y by (auto simp: k_def)
    then have "(word_of_nat (365 + (if leap_year (Suc Y) then 1 else 0)) - word_of_nat k :: u64) = word_of_nat (n - gauss Y)"
      by (metis of_nat_diff)
    then have "365 + (if leap_year (Suc Y) then 1 else 0) + yday = word_of_nat (n - gauss Y)"
      unfolding yk by (simp split: if_splits)
    then show ?thesis using neg l year 2 by simp
  qed
qed


text \<open>The fields of \<^verbatim>\<open>ngx_gmtime\<close> for a second \<open>T\<close> on day \<open>n\<close>, of the year from March \<open>Y\<close>.\<close>

lemma ngx_gmtime_eq:
  assumes T: "T < 2 ^ 55" and n: "n = T div 86400 + 719468" and Y: "gauss Y \<le> n" "n < gauss (Suc Y)"
  defines "yd \<equiv> n - gauss Y" and "r \<equiv> T mod 86400"
  shows "ngx_gmtime (word_of_nat T) =
    \<lparr>tm_sec = word_of_nat (r mod 3600 mod 60), tm_min = word_of_nat (r mod 3600 div 60), tm_hour = word_of_nat (r div 3600),
     tm_mday = word_of_nat (march_mday yd),
     tm_mon = word_of_nat (if 306 \<le> yd then march_month yd - 10 else march_month yd + 2),
     tm_year = word_of_nat (if 306 \<le> yd then Y + 1 else Y), tm_wday = word_of_nat ((4 + T div 86400) mod 7)\<rparr>" (is "_ = ?tm")
proof -
  let ?W = "word_of_nat :: nat \<Rightarrow> u64"
  have nb: "n < 2 ^ 40" using T n by (simp add: less_mult_imp_div_less)
  have yd: "yd < 366" using Y gauss_Suc [of Y] by (auto simp: yd_def split: if_splits)
  have rb: "r < 86400" by (simp add: r_def)
  have days: "?W T div 86400 = ?W (T div 86400)" using T word_of_nat_div [of T 86400] by simp
  have rem: "?W T mod 86400 = ?W r" using T word_of_nat_mod [of T 86400] by (simp add: r_def)
  have hour: "?W r div 3600 = ?W (r div 3600)" using rb word_of_nat_div [of r 3600] by simp
  have rem2: "?W r mod 3600 = ?W (r mod 3600)" using rb word_of_nat_mod [of r 3600] by simp
  have r2: "r mod 3600 < 3600" by simp
  have min: "?W (r mod 3600) div 60 = ?W (r mod 3600 div 60)" using r2 word_of_nat_div [of "r mod 3600" 60] by simp
  have sec: "?W (r mod 3600) mod 60 = ?W (r mod 3600 mod 60)" using r2 word_of_nat_mod [of "r mod 3600" 60] by simp
  have "T div 86400 < 2 ^ 40" using nb n by linarith
  then have wday: "(4 + ?W (T div 86400)) mod 7 = ?W ((4 + T div 86400) mod 7)"
    using word_of_nat_mod [of "4 + T div 86400" 7] by simp
  have n': "?W (T div 86400) - (31 + 28) + 719527 = ?W n" unfolding n by simp
  have big: "(306 \<le> sint (?W yd)) = (306 \<le> yd)" using yd by (simp add: sint_small)
  have mon: "?W (march_month yd) - 10 = ?W (march_month yd - 10)" if "306 \<le> yd"
    using that march_table(6) [OF yd] by (simp add: of_nat_diff)
  have c: "ucast (?W k) = (word_of_nat k :: u32)" for k
    by transfer simp
  show ?thesis
    unfolding ngx_gmtime_def Let_def days rem hour rem2 min sec wday n'
    unfolding gmtime_year [OF nb Y, unfolded Let_def, folded yd_def] prod.case march_words [OF yd] big
    unfolding c
  proof (cases "306 \<le> yd")
    case True
    then show "(case if 306 \<le> yd then (?W Y + 1, ?W (march_month yd) - 10) else (?W Y, ?W (march_month yd) + 2) of
       (year, mon) \<Rightarrow> \<lparr>tm_sec = word_of_nat (r mod 3600 mod 60), tm_min = word_of_nat (r mod 3600 div 60),
          tm_hour = word_of_nat (r div 3600), tm_mday = word_of_nat (march_mday yd), tm_mon = ucast mon,
          tm_year = ucast year, tm_wday = word_of_nat ((4 + T div 86400) mod 7)\<rparr>) = ?tm"
      using mon c [of "Y + 1"] c [of "march_month yd - 10"] by (simp add: add.commute)
  next
    case False
    then show "(case if 306 \<le> yd then (?W Y + 1, ?W (march_month yd) - 10) else (?W Y, ?W (march_month yd) + 2) of
       (year, mon) \<Rightarrow> \<lparr>tm_sec = word_of_nat (r mod 3600 mod 60), tm_min = word_of_nat (r mod 3600 div 60),
          tm_hour = word_of_nat (r div 3600), tm_mday = word_of_nat (march_mday yd), tm_mon = ucast mon,
          tm_year = ucast year, tm_wday = word_of_nat ((4 + T div 86400) mod 7)\<rparr>) = ?tm"
      using c [of Y] c [of "march_month yd + 2"] by (simp add: add.commute)
  qed
qed


section \<open>What the calendar gives\<close>

text \<open>The seconds since 1970 of a date and time of day.\<close>

definition seconds_of :: "nat \<Rightarrow> nat \<Rightarrow> nat \<Rightarrow> nat \<Rightarrow> nat \<Rightarrow> nat \<Rightarrow> nat" where
  "seconds_of y mo d h mi s =
     (((days_to_year y + days_to_month (leap_year y) mo + (d - 1)) * 24 + h) * 60 + mi) * 60 + s"

definition valid_time :: "nat \<Rightarrow> nat \<Rightarrow> nat \<Rightarrow> nat \<Rightarrow> nat \<Rightarrow> nat \<Rightarrow> bool" where
  "valid_time y mo d h mi s \<longleftrightarrow> 1970 \<le> y \<and> 1 \<le> mo \<and> mo \<le> 12 \<and> 1 \<le> d \<and> d \<le> month_days (leap_year y) mo \<and>
     h < 24 \<and> mi < 60 \<and> s < 60"

lemma gmtime_cases:
  assumes "T < 2 ^ 55"
  obtains y mo d h mi s where "valid_time y mo d h mi s" "seconds_of y mo d h mi s = T" "y < 2 ^ 31"
    "ngx_gmtime (word_of_nat T) =
       \<lparr>tm_sec = word_of_nat s, tm_min = word_of_nat mi, tm_hour = word_of_nat h, tm_mday = word_of_nat d,
        tm_mon = word_of_nat mo, tm_year = word_of_nat y, tm_wday = word_of_nat ((4 + T div 86400) mod 7)\<rparr>"
proof -
  define n r where "n = T div 86400 + 719468" and "r = T mod 86400"
  obtain Y where Y: "gauss Y \<le> n" "n < gauss (Suc Y)" using gauss_year by blast
  define yd where "yd = n - gauss Y"
  have gs: "gauss (Suc Y) = gauss Y + 365 + (if leap_year (Suc Y) then 1 else 0)" by (rule gauss_Suc)
  have yd: "yd < 366" "yd \<le> 364 + (if leap_year (Suc Y) then 1 else 0)"
    using Y gs by (auto simp: yd_def split: if_splits)
  have g1969: "gauss 1969 = 719162" "gauss 1970 = 719527" by (simp_all add: gauss_def)
  have Ylow: "1969 \<le> Y"
  proof (rule ccontr)
    assume "\<not> 1969 \<le> Y"
    then have "gauss (Suc Y) \<le> gauss 1969" by (intro gauss_mono) simp
    then show False using Y g1969 by (simp add: n_def)
  qed
  have "365 * Y \<le> n" using gauss_ge [of Y] Y by linarith
  moreover have "n < 2 ^ 55 div 86400 + 719469" unfolding n_def using assms div_le_mono [of T "2 ^ 55" 86400] by simp
  ultimately have Yhigh: "Y < 2 ^ 31 - 1" by simp
  define y where "y = (if 306 \<le> yd then Y + 1 else Y)"
  define mo where "mo = (if 306 \<le> yd then march_month yd - 10 else march_month yd + 2)"
  define d where "d = march_mday yd"
  note mt = march_table [OF yd(1)]
  have y70: "1970 \<le> y"
  proof (cases "Y = 1969")
    case True
    then have "306 \<le> yd" using g1969 by (simp add: yd_def n_def)
    then show ?thesis using True by (simp add: y_def)
  qed (use Ylow in \<open>simp add: y_def\<close>)
  have ny: "T div 86400 + 719468 = gauss Y + yd" using Y by (simp add: yd_def n_def)
  have day: "days_to_year y + days_to_month (leap_year y) mo + (d - 1) = T div 86400"
  proof (cases "306 \<le> yd")
    case True
    have ySuc: "y = Suc Y" using True by (simp add: y_def)
    have "days_to_year y + 719468 = gauss Y + 306"
      using days_to_year_gauss [of "Suc Y"] y70 ySuc by simp
    moreover have "yd + 1 = 306 + days_to_month (leap_year y) mo + d"
      using mt(9) [OF True] True by (simp add: mo_def d_def)
    moreover have "1 \<le> d" using mt(3) by (simp add: d_def)
    ultimately show ?thesis using ny by linarith
  next
    case False
    have yY: "y = Y" using False by (simp add: y_def)
    have "days_to_year y + 719468 = gauss (Y - 1) + 306"
      using days_to_year_gauss [of Y] y70 yY by simp
    moreover have "gauss Y = gauss (Y - 1) + 365 + (if leap_year Y then 1 else 0)"
      using gauss_Suc [of "Y - 1"] Ylow by simp
    moreover have "yd + (if leap_year Y then 60 else 59) + 1 = days_to_month (leap_year y) mo + d"
      using mt(7) False by (simp add: mo_def d_def yY)
    moreover have "1 \<le> d" using mt(3) by (simp add: d_def)
    ultimately show ?thesis using ny by (simp split: if_splits)
  qed
  have "valid_time y mo d (r div 3600) (r mod 3600 div 60) (r mod 3600 mod 60)"
    using y70 mt(1,2,3,6,8,10) yd(2)
    by (auto simp: valid_time_def mo_def d_def y_def r_def less_mult_imp_div_less)
  moreover have "seconds_of y mo d (r div 3600) (r mod 3600 div 60) (r mod 3600 mod 60) = T"
  proof -
    have "r = (r div 3600 * 60 + r mod 3600 div 60) * 60 + r mod 3600 mod 60" by simp
    moreover have "T = T div 86400 * 86400 + r" by (simp add: r_def)
    moreover have "r = (a * 60 + b) * 60 + c \<Longrightarrow> T = k * 86400 + r \<Longrightarrow> ((k * 24 + a) * 60 + b) * 60 + c = T" for a b c k
      by (simp add: algebra_simps)
    ultimately show ?thesis unfolding seconds_of_def day by blast
  qed
  moreover have "y < 2 ^ 31" using Yhigh by (simp add: y_def)
  ultimately show thesis
    using that ngx_gmtime_eq [OF assms n_def Y, folded yd_def r_def] unfolding y_def mo_def d_def by blast
qed


lemma unat_small32: "n < 2 ^ 32 \<Longrightarrow> unat (word_of_nat n :: u32) = n"
  by (simp add: unsigned_of_nat take_bit_nat_eq_self)

lemma valid_time_bounds:
  assumes "valid_time y mo d h mi s"
  shows "d \<le> 31" "mo \<le> 12" "h < 24" "mi < 60" "s < 60"
  using assms by (auto simp: valid_time_def month_days_def split: if_splits)

text \<open>C13: for every time below \<open>2 ^ 55\<close> seconds \<^verbatim>\<open>ngx_gmtime\<close>, with Gauss' formula and the two month
  formulas, gives the date of the Gregorian calendar: a month from 1 to 12, a day of that month, a
  time of day, such that the seconds since the beginning of 1970, counted year by year and month by
  month, are the given ones; and the day of the week.\<close>

theorem gmtime_calendar:
  assumes "unat t < 2 ^ 55"
  shows "let tm = ngx_gmtime t; y = unat (tm_year tm); mo = unat (tm_mon tm); d = unat (tm_mday tm);
             h = unat (tm_hour tm); mi = unat (tm_min tm); s = unat (tm_sec tm)
         in valid_time y mo d h mi s \<and> seconds_of y mo d h mi s = unat t \<and>
            unat (tm_wday tm) = (4 + unat t div 86400) mod 7"
proof -
  obtain y mo d h mi s where v: "valid_time y mo d h mi s" "seconds_of y mo d h mi s = unat t" "y < 2 ^ 31"
    and e: "ngx_gmtime (word_of_nat (unat t)) =
       \<lparr>tm_sec = word_of_nat s, tm_min = word_of_nat mi, tm_hour = word_of_nat h, tm_mday = word_of_nat d,
        tm_mon = word_of_nat mo, tm_year = word_of_nat y, tm_wday = word_of_nat ((4 + unat t div 86400) mod 7)\<rparr>"
    using gmtime_cases [OF assms] .
  note b = valid_time_bounds [OF v(1)]
  have w: "(4 + unat t div 86400) mod 7 < 2 ^ 32"
    by (rule less_le_trans [OF mod_less_divisor]) simp_all
  show ?thesis
    using e b v w by (simp add: Let_def unat_small32)
qed

lemma gmtime_calendar_witness:
  "seconds_of 2012 2 29 12 0 1 = 1330516801 \<and> unat (tm_mday (ngx_gmtime 1330516801)) = 29"
proof -
  have e: "ngx_gmtime 1330516801 = \<lparr>tm_sec = 1, tm_min = 0, tm_hour = 12, tm_mday = 29, tm_mon = 2, tm_year = 2012, tm_wday = 3\<rparr>"
    by code_simp
  have "unat (1330516801 :: u64) < 2 ^ 55" by simp
  from gmtime_calendar [OF this] show ?thesis unfolding e by (simp add: Let_def)
qed

end
