(* ===== verification/HttpTime.thy ===== *)
theory HttpTime
  imports NgxCalendar
begin

text \<open>
  \<^verbatim>\<open>ngx_http_parse_time\<close> of \<^verbatim>\<open>src/http/ngx_http_parse_time.c\<close>: the three date formats of HTTP.
  \<open>v\<close> is the memory from \<^verbatim>\<open>value\<close> on, \<open>len\<close> the length, \<open>p\<close> a position.  The outer option of a part is
  a read outside the memory, the inner one a return of \<^verbatim>\<open>NGX_ERROR\<close>; the whole returns the
  \<^verbatim>\<open>time_t\<close>, in which \<^verbatim>\<open>NGX_ERROR\<close> is \<open>-1\<close>.
\<close>

datatype time_format = no_format | rfc822 | rfc850 | isoc

definition mday :: "u64 list" where
  "mday = [31, 28, 31, 30, 31, 30, 31, 31, 30, 31, 30, 31]"

section \<open>The parts\<close>

definition perhaps :: "'a option option \<Rightarrow> ('a \<Rightarrow> 'b option option) \<Rightarrow> 'b option option" where
  "perhaps x f = (case x of None \<Rightarrow> None | Some None \<Rightarrow> Some None | Some (Some a) \<Rightarrow> f a)"

lemma perhaps_simps [simp]:
  "perhaps (Some (Some a)) f = f a" "perhaps (Some None) f = Some None" "perhaps None f = None"
  by (simp_all add: perhaps_def)

text \<open>The first two loops; \<open>k\<close> is \<^verbatim>\<open>end - p\<close>.\<close>

fun find_format :: "bytes \<Rightarrow> nat \<Rightarrow> nat \<Rightarrow> (nat \<times> time_format) option" where
  "find_format v p 0 = Some (p, no_format)"
| "find_format v p (Suc k) = do {
     c \<leftarrow> rd v p;
     if c = 0x2c then Some (p, no_format)
     else if c = 0x20 then Some (p, isoc)
     else find_format v (p + 1) k }"

fun skip_blanks :: "bytes \<Rightarrow> nat \<Rightarrow> nat \<Rightarrow> nat option" where
  "skip_blanks v p 0 = Some p"
| "skip_blanks v p (Suc k) = do { c \<leftarrow> rd v p; if c \<noteq> 0x20 then Some p else skip_blanks v (p + 1) k }"

text \<open>A digit at \<open>p\<close>, then the number of \<open>n\<close> digits at \<open>p\<close>: tested left to right, then combined.\<close>

definition digit_at :: "bytes \<Rightarrow> nat \<Rightarrow> u64 option option" where
  "digit_at v p = map_option (\<lambda>c. if c < 0x30 \<or> c > 0x39 then None else Some (ucast c - 0x30)) (rd v p)"

definition two_digits :: "bytes \<Rightarrow> nat \<Rightarrow> u64 option option" where
  "two_digits v p = perhaps (digit_at v p) (\<lambda>a. perhaps (digit_at v (p + 1)) (\<lambda>b. Some (Some (a * 10 + b))))"

definition four_digits :: "bytes \<Rightarrow> nat \<Rightarrow> u64 option option" where
  "four_digits v p =
     perhaps (digit_at v p) (\<lambda>a. perhaps (digit_at v (p + 1)) (\<lambda>b.
     perhaps (digit_at v (p + 2)) (\<lambda>c. perhaps (digit_at v (p + 3)) (\<lambda>d.
       Some (Some (a * 1000 + b * 100 + c * 10 + d))))))"

definition this_byte :: "bytes \<Rightarrow> nat \<Rightarrow> u8 \<Rightarrow> unit option option" where
  "this_byte v p c = map_option (\<lambda>b. if b \<noteq> c then None else Some ()) (rd v p)"

text \<open>The day before the month, and the format it decides.\<close>

definition leading_day :: "bytes \<Rightarrow> nat \<Rightarrow> nat \<Rightarrow> (u64 \<times> nat \<times> time_format) option option" where
  "leading_day v len p =
     perhaps (two_digits v p) (\<lambda>day.
       case rd v (p + 2) of
         None \<Rightarrow> None
       | Some c \<Rightarrow>
           (if c = 0x20 then
              (if len < p + 2 + 18 then Some None else Some (Some (day, p + 3, rfc822)))
            else if c = 0x2d then Some (Some (day, p + 3, rfc850))
            else Some None))"

definition month_name :: "bytes \<Rightarrow> nat \<Rightarrow> u64 option option" where
  "month_name v p =
     (case rd v p of
        None \<Rightarrow> None
      | Some c \<Rightarrow>
          if c = 0x4a then do {
            c1 \<leftarrow> rd v (p + 1);
            if c1 = 0x61 then Some (Some 0)
            else do { c2 \<leftarrow> rd v (p + 2); Some (Some (if c2 = 0x6e then 5 else 6)) } }
          else if c = 0x46 then Some (Some 1)
          else if c = 0x4d then do { c2 \<leftarrow> rd v (p + 2); Some (Some (if c2 = 0x72 then 2 else 4)) }
          else if c = 0x41 then do { c1 \<leftarrow> rd v (p + 1); Some (Some (if c1 = 0x70 then 3 else 7)) }
          else if c = 0x53 then Some (Some 8)
          else if c = 0x4f then Some (Some 9)
          else if c = 0x4e then Some (Some 10)
          else if c = 0x44 then Some (Some 11)
          else Some None)"

text \<open>
  The year of the first two formats, or the day of the third; \<open>p\<close> is after the separator.  \<open>day\<close> and
  \<open>year\<close> keep the value they had.
\<close>

definition year_or_day :: "bytes \<Rightarrow> nat \<Rightarrow> nat \<Rightarrow> time_format \<Rightarrow> u64 \<Rightarrow> (u64 \<times> u64 \<times> nat) option option" where
  "year_or_day v len p fmt day =
     (if fmt = rfc822 then perhaps (four_digits v p) (\<lambda>year. Some (Some (day, year, p + 4)))
      else if fmt = rfc850 then
        perhaps (two_digits v p) (\<lambda>year. Some (Some (day, year + (if year < 70 then 2000 else 1900), p + 2)))
      else
        case rd v p of
          None \<Rightarrow> None
        | Some c \<Rightarrow>
            let p = (if c = 0x20 then p + 1 else p) in
            perhaps (digit_at v p) (\<lambda>day.
              case rd v (p + 1) of
                None \<Rightarrow> None
              | Some c \<Rightarrow>
                  perhaps (if c \<noteq> 0x20 then perhaps (digit_at v (p + 1)) (\<lambda>b. Some (Some (day * 10 + b, p + 2)))
                           else Some (Some (day, p + 1)))
                    (\<lambda>(day, p). if len < p + 14 then Some None else Some (Some (day, 0, p)))))"

text \<open>\<^verbatim>\<open>" hh:mm:ss"\<close> at \<open>p\<close>; the position that results is that of the seconds.\<close>

definition clock :: "bytes \<Rightarrow> nat \<Rightarrow> (u64 \<times> u64 \<times> u64 \<times> nat) option option" where
  "clock v p =
     perhaps (this_byte v p 0x20) (\<lambda>_. perhaps (two_digits v (p + 1)) (\<lambda>hour.
     perhaps (this_byte v (p + 3) 0x3a) (\<lambda>_. perhaps (two_digits v (p + 4)) (\<lambda>mi.
     perhaps (this_byte v (p + 6) 0x3a) (\<lambda>_. perhaps (two_digits v (p + 7)) (\<lambda>s.
       Some (Some (hour, mi, s, p + 7))))))))"

text \<open>The checks and the formula at the end; \<open>month\<close> counts from 0.\<close>

definition bad_day :: "u64 \<Rightarrow> u64 \<Rightarrow> u64 \<Rightarrow> bool" where
  "bad_day day month year =
     (if day = 29 \<and> month = 1 then year AND 3 \<noteq> 0 \<or> (year mod 100 = 0 \<and> year mod 400 \<noteq> 0)
      else mday ! unat month < day)"

definition time_of :: "u64 \<Rightarrow> u64 \<Rightarrow> u64 \<Rightarrow> u64 \<Rightarrow> u64 \<Rightarrow> u64 \<Rightarrow> u64" where
  "time_of day month year hour mi s =
     (let month = month - 1;
          (month, year) = (if sint month \<le> 0 then (month + 12, year - 1) else (month, year))
      in (365 * year + year div 4 - year div 100 + year div 400 + sdiv64 (367 * month) 12 - 30 + day - 1
            - 719527 + 31 + 28) * 86400 + hour * 3600 + mi * 60 + s)"

section \<open>ngx_http_parse_time\<close>

text \<open>From the seconds on, at \<open>p\<close>; then all that follows the day of the first two formats.\<close>

fun finish_time :: "bytes \<Rightarrow> time_format \<Rightarrow> u64 \<Rightarrow> u64 \<Rightarrow> u64 \<Rightarrow> u64 \<times> u64 \<times> u64 \<times> nat \<Rightarrow> u64 option option" where
  "finish_time v fmt day month year (hour, mi, s, p) =
     perhaps (if fmt = isoc then perhaps (this_byte v (p + 2) 0x20) (\<lambda>_. four_digits v (p + 3))
              else Some (Some year)) (\<lambda>year.
       if hour > 23 \<or> mi > 59 \<or> s > 59 \<or> bad_day day month year then Some None
       else Some (Some (time_of day month year hour mi s)))"

fun after_day :: "bytes \<Rightarrow> nat \<Rightarrow> u64 \<times> nat \<times> time_format \<Rightarrow> u64 option option" where
  "after_day v len (day, p, fmt) =
     perhaps (month_name v p) (\<lambda>month.
     perhaps (if fmt = rfc822 then this_byte v (p + 3) 0x20
              else if fmt = rfc850 then this_byte v (p + 3) 0x2d else Some (Some ())) (\<lambda>_.
     perhaps (year_or_day v len (p + 4) fmt day) (\<lambda>(day, year, p).
     perhaps (clock v p) (finish_time v fmt day month year))))"

definition parse_time :: "bytes \<Rightarrow> nat \<Rightarrow> u64 option option" where
  "parse_time v len =
     (case find_format v 0 len of None \<Rightarrow> None | Some (p0, fmt) \<Rightarrow>
      case skip_blanks v (p0 + 1) (len - (p0 + 1)) of None \<Rightarrow> None | Some p \<Rightarrow>
      if len < p + 18 then Some None
      else perhaps (if fmt \<noteq> isoc then leading_day v len p else Some (Some (0, p, isoc))) (after_day v len))"

definition ngx_http_parse_time :: "bytes \<Rightarrow> nat \<Rightarrow> u64 option" where
  "ngx_http_parse_time v len = map_option (\<lambda>r. case r of None \<Rightarrow> -1 | Some t \<Rightarrow> t) (parse_time v len)"


section \<open>Printing with two and four digits\<close>

lemma spf_number_small:
  assumes "v < 2 ^ 31" and "sign sp"
  shows "spf_number room sp (scast (word_of_nat v :: u32)) 0 = ngx_sprintf_num room (word_of_nat v) (zero sp) (hex sp) (width sp)"
proof -
  have "scast (word_of_nat v :: u32) = (word_of_nat v :: u64)"
    using assms by (simp add: signed_of_nat signed_take_bit_int_eq_self)
  moreover have "\<not> sint (word_of_nat v :: u64) < 0"
    using assms by (simp add: signed_of_nat signed_take_bit_int_eq_self)
  ultimately show ?thesis using assms(2) by (simp add: spf_number_def)
qed

lemma nat_dec_2: "v < 100 \<Longrightarrow> nat_dec v [] = (if v < 10 then [dec_byte v] else [dec_byte (v div 10), dec_byte v])"
  by (simp add: nat_dec_rec [of v] nat_dec_rec [of "v div 10"] div_eq_0_iff)

lemma nat_dec_4:
  assumes "1000 \<le> v" "v < 10000"
  shows "nat_dec v [] = [dec_byte (v div 1000), dec_byte (v div 100), dec_byte (v div 10), dec_byte v]"
proof -
  have "v div 10 div 10 = v div 100" "v div 10 div 10 div 10 = v div 1000" by (simp_all add: div_mult2_eq [symmetric])
  moreover have "v div 10 \<noteq> 0" "v div 100 \<noteq> 0" "v div 1000 \<noteq> 0" "v div 1000 div 10 = 0"
    using assms by auto
  ultimately show ?thesis
    by (simp add: nat_dec_rec [of v] nat_dec_rec [of "v div 10"] nat_dec_rec [of "v div 100"] nat_dec_rec [of "v div 1000"])
qed

lemma spf_num_digits:
  "spf_num 0 (0x30 # 0x32 # 0x64 # fmt) = (2, 0x64 # fmt)" "spf_num 0 (0x34 # 0x64 # fmt) = (4, 0x64 # fmt)"
  "spf_num 0 (0x73 # fmt) = (0, 0x73 # fmt)" "spf_num 0 (0x64 # fmt) = (0, 0x64 # fmt)"
  by simp_all

lemma directive_02d:
  assumes "v < 100" and "2 \<le> room"
  shows "spf_directive fp room (0x30 # 0x32 # 0x64 # fmt) (Va32 (word_of_nat v) # args)
    = Some ([dec_byte (v div 10), dec_byte v], fmt, args)"
proof -
  have z: "dec_byte 0 = 0x30" by (simp add: dec_byte_def)
  have u: "unat (word_of_nat v :: u64) = v" using assms by (simp add: unsigned_of_nat take_bit_nat_eq_self)
  have n: "ngx_sprintf_num room (word_of_nat v) 0x30 0 2 = [dec_byte (v div 10), dec_byte v]"
    using assms by (simp add: ngx_sprintf_num_def dec_digits_branches u nat_dec_2 spf_pad_eq z min_def)
  then show ?thesis
    using assms(1) spf_number_small [of v _ room]
    by (simp add: spf_directive_def spf_num_digits spf_conv_def spf_int32_def Let_def del: spf_num.simps)
qed

lemma directive_4d:
  assumes "1000 \<le> v" "v < 10000" and "4 \<le> room"
  shows "spf_directive fp room (0x34 # 0x64 # fmt) (Va32 (word_of_nat v) # args)
    = Some ([dec_byte (v div 1000), dec_byte (v div 100), dec_byte (v div 10), dec_byte v], fmt, args)"
proof -
  have u: "unat (word_of_nat v :: u64) = v" using assms by (simp add: unsigned_of_nat take_bit_nat_eq_self)
  have n: "ngx_sprintf_num room (word_of_nat v) 0x20 0 4 = [dec_byte (v div 1000), dec_byte (v div 100), dec_byte (v div 10), dec_byte v]"
    using assms by (simp add: ngx_sprintf_num_def dec_digits_branches u nat_dec_4 spf_pad_eq)
  show ?thesis
    using assms(2) spf_number_small [of v _ room] n
    by (simp add: spf_directive_def spf_num_digits spf_conv_def spf_int32_def Let_def del: spf_num.simps)
qed

lemma directive_s:
  assumes "0 \<notin> set s" and "length s \<le> room"
  shows "spf_directive fp room (0x73 # fmt) (VaCStr (s @ [0]) # args) = Some (s, fmt, args)"
proof -
  have "spf_cstr (s @ [0]) room = Some s"
    using assms by (induction s arbitrary: room) (auto split: nat.splits)
  then show ?thesis
    by (simp add: spf_directive_def spf_num_digits spf_conv_def Let_def del: spf_num.simps)
qed

definition d2 :: "nat \<Rightarrow> bytes" where "d2 v = [dec_byte (v div 10), dec_byte v]"

definition d4 :: "nat \<Rightarrow> bytes" where
  "d4 v = [dec_byte (v div 1000), dec_byte (v div 100), dec_byte (v div 10), dec_byte v]"

lemma sprintf_http_time:
  assumes "length w = 3" "0 \<notin> set w" "length m = 3" "0 \<notin> set m" "1000 \<le> y" "y < 10000"
    "d < 100" "h < 100" "mi < 100" "s < 100" "unat buf < 2 ^ 63"
  shows "ngx_sprintf fp buf (str ''%s, %02d %s %4d %02d:%02d:%02d GMT'' @ [0])
      [VaCStr (w @ [0]), Va32 (word_of_nat d), VaCStr (m @ [0]), Va32 (word_of_nat y),
       Va32 (word_of_nat h), Va32 (word_of_nat mi), Va32 (word_of_nat s)]
    = Some (w @ str '', '' @ d2 d @ str '' '' @ m @ str '' '' @ d4 y @ str '' '' @ d2 h @ str '':'' @ d2 mi @ str '':'' @
            d2 s @ str '' GMT'')"
proof -
  define room where "room = unat (-1 :: u64) - unat buf"
  have room: "29 \<le> room" using assms(11) by (simp add: room_def unsigned_minus_1_eq_mask mask_eq_exp_minus_1)
  have fmt: "str ''%s, %02d %s %4d %02d:%02d:%02d GMT'' @ [0] =
    [0x25, 0x73, 0x2c, 0x20, 0x25, 0x30, 0x32, 0x64, 0x20, 0x25, 0x73, 0x20, 0x25, 0x34, 0x64, 0x20,
     0x25, 0x30, 0x32, 0x64, 0x3a, 0x25, 0x30, 0x32, 0x64, 0x3a, 0x25, 0x30, 0x32, 0x64, 0x20, 0x47, 0x4d, 0x54, 0]"
    by (simp add: str_def)
  show ?thesis
    unfolding ngx_sprintf_def room_def [symmetric] fmt using assms room
    by (simp add: directive_s directive_02d directive_4d d2_def d4_def str_def)
qed


section \<open>The formula at the end of the parser\<close>

lemma word_and_3: "(x :: u64) AND 3 = x mod 4"
proof -
  have "take_bit 2 x = x AND mask 2" by (rule take_bit_eq_mask)
  then show ?thesis by (simp add: mask_eq_exp_minus_1 take_bit_eq_mod)
qed

lemma word_of_nat_eq_0: "n < 2 ^ 64 \<Longrightarrow> (word_of_nat n :: u64) = 0 \<longleftrightarrow> n = 0"
  by (auto simp: word_of_nat_eq_0_iff dest: dvd_imp_le)

lemma leap_word:
  assumes "y < 2 ^ 50"
  shows "(word_of_nat y AND 3 \<noteq> (0 :: u64) \<or> word_of_nat y mod 100 = (0 :: u64) \<and> word_of_nat y mod 400 \<noteq> (0 :: u64)) \<longleftrightarrow>
     \<not> leap_year y"
proof -
  have m: "(word_of_nat y :: u64) mod word_of_nat c = 0 \<longleftrightarrow> y mod c = 0" if "c < 2 ^ 64" for c
  proof -
    have "y mod c < 2 ^ 64" using le_less_trans [OF mod_less_eq_dividend assms, of c] by simp
    then show ?thesis using that assms by (simp add: word_of_nat_mod word_of_nat_eq_0)
  qed
  show ?thesis
    unfolding word_and_3 leap_year_def using m [of 4] m [of 100] m [of 400] by simp
qed

lemma not_bad_day:
  assumes "valid_time y mo d h mi s" and "y < 10000"
  shows "\<not> bad_day (word_of_nat d) (word_of_nat (mo - 1)) (word_of_nat y)"
proof -
  note b = valid_time_bounds [OF assms(1)]
  have mo: "1 \<le> mo" "mo \<le> 12" and d: "d \<le> month_days (leap_year y) mo" "d \<le> 31"
    using assms b by (auto simp: valid_time_def)
  have d29: "word_of_nat d = (29 :: u64) \<longleftrightarrow> d = 29"
    using word_of_nat_eq_iff [of d 29, where 'a = 64] d(2) by (simp add: take_bit_nat_eq_self)
  have lt: "word_of_nat k < (word_of_nat d :: u64) \<longleftrightarrow> k < d" if "k < 100" for k
    using that d(2) by (simp add: word_less_nat_alt unsigned_of_nat take_bit_nat_eq_self)
  note lts = lt [of 28] lt [of 30] lt [of 31]
  have y50: "y < 2 ^ 50" using assms(2) by simp
  have "unat (word_of_nat k :: u64) = k" if "k < 100" for k using that by (simp add: unsigned_of_nat take_bit_nat_eq_self)
  note small = this
  have u: "unat (word_of_nat (mo - 1) :: u64) = mo - 1" by (rule small) (use mo in simp)
  show ?thesis
  proof (cases "d = 29 \<and> mo = 2")
    case True
    then have "leap_year y" using d(1) by (simp add: month_days_def split: if_splits)
    then show ?thesis
      unfolding bad_day_def using True leap_word [OF y50] by simp
  next
    case False
    have "mday ! (mo - 1) = word_of_nat (month_days (mo = 2 \<and> False) mo)" "month_days False mo < 100"
      by (rule month_cases [OF mo]; simp add: mday_def month_days_def)+
    moreover have "d \<le> month_days False mo"
      using d(1) False by (auto simp: month_days_def split: if_splits)
    moreover have "word_of_nat (mo - 1) = (1 :: u64) \<longleftrightarrow> mo = 2"
      using word_of_nat_eq_iff [of "mo - 1" 1, where 'a = 64] mo by (auto simp: take_bit_nat_eq_self)
    ultimately show ?thesis
      unfolding bad_day_def u using False lt d29 by auto
  qed
qed

lemma sdiv64_month: "m \<le> 12 \<Longrightarrow> sdiv64 (367 * word_of_nat m) 12 = word_of_nat (367 * m div 12)"
  using sdiv64_small [of "367 * m" 12] by simp

lemma days_formula:
  assumes "1970 \<le> y" "1 \<le> mo" "mo \<le> 12"
  shows "gauss (if mo \<le> 2 then y - 1 else y) + 367 * (if mo \<le> 2 then mo + 10 else mo - 2) div 12 =
    days_to_year y + days_to_month (leap_year y) mo + 719498"
proof -
  have g: "gauss y = gauss (y - 1) + 365 + (if leap_year y then 1 else 0)"
    using gauss_Suc [of "y - 1"] assms by simp
  note a = days_to_year_gauss [OF assms(1)]
  show ?thesis
    by (rule month_cases [OF assms(2,3)]; use a g in simp)
qed

lemma time_of_valid:
  assumes v: "valid_time y mo d h mi s" and y: "y < 10000"
  shows "time_of (word_of_nat d) (word_of_nat (mo - 1)) (word_of_nat y) (word_of_nat h) (word_of_nat mi) (word_of_nat s)
    = word_of_nat (seconds_of y mo d h mi s)"
proof -
  let ?W = "word_of_nat :: nat \<Rightarrow> u64"
  have mo: "1 \<le> mo" "mo \<le> 12" "1970 \<le> y" "1 \<le> d" using v by (auto simp: valid_time_def)
  define Y M where "Y = (if mo \<le> 2 then y - 1 else y)" and "M = (if mo \<le> 2 then mo + 10 else mo - 2)"
  have s: "sint (?W (mo - 1) - 1) = int mo - 2"
  proof -
    have "?W (mo - 1) - 1 = word_of_int (int mo - 2)" using mo by (simp add: of_nat_diff)
    then have "sint (?W (mo - 1) - 1) = signed_take_bit 63 (int mo - 2)" by (simp only: signed_of_int) simp
    then show ?thesis using mo by (simp add: signed_take_bit_int_eq_self)
  qed
  have my: "(if sint (?W (mo - 1) - 1) \<le> 0 then (?W (mo - 1) - 1 + 12, ?W y - 1) else (?W (mo - 1) - 1, ?W y)) = (?W M, ?W Y)"
    unfolding s M_def Y_def using mo by (auto simp: of_nat_diff)
  have M: "M \<le> 12" using mo by (auto simp: M_def)
  have Y: "Y < 2 ^ 50" using y by (auto simp: Y_def)
  define D where "D = days_to_year y + days_to_month (leap_year y) mo + (d - 1)"
  have "?W (gauss Y) + ?W (367 * M div 12) = ?W (days_to_year y + days_to_month (leap_year y) mo + 719498)"
    using days_formula [OF mo(3,1,2)] unfolding Y_def M_def by (metis of_nat_add)
  then have "?W (gauss Y) + ?W (367 * M div 12) - 30 + ?W d - 1 - 719527 + 31 + 28 =
      ?W D"
    unfolding D_def using mo by (simp add: of_nat_diff algebra_simps)
  then show ?thesis
    unfolding time_of_def Let_def my prod.case gauss_word [OF Y] sdiv64_month [OF M] seconds_of_def D_def [symmetric]
    by (simp add: algebra_simps)
qed


section \<open>Reading what was printed\<close>

lemma dec_byte_digit: "\<not> dec_byte n < 0x30" "\<not> 0x39 < dec_byte n"
  using mod_less_divisor [of 10 n] by (simp_all add: word_less_nat_alt)

lemma dec_byte_value: "(ucast (dec_byte n) - 0x30 :: u64) = word_of_nat (n mod 10)"
proof -
  have "unat (ucast (dec_byte n) :: u64) = n mod 10 + 48"
    using unat_u8_less [of "dec_byte n"] by (simp add: unsigned_ucast_eq take_bit_nat_eq_self)
  then have "(ucast (dec_byte n) :: u64) = word_of_nat (n mod 10 + 48)" by (rule word_of_unat)
  then show ?thesis by simp
qed

lemma digit_at_dec: "rd v p = Some (dec_byte n) \<Longrightarrow> digit_at v p = Some (Some (word_of_nat (n mod 10)))"
  unfolding digit_at_def by (simp only: option.map dec_byte_digit dec_byte_value simp_thms if_False)

lemma two_digits_d2:
  assumes "rd v p = Some (dec_byte (n div 10))" "rd v (p + 1) = Some (dec_byte n)" "n < 100"
  shows "two_digits v p = Some (Some (word_of_nat n))"
proof -
  have "n div 10 mod 10 * 10 + n mod 10 = n" using assms(3) by simp
  then have "word_of_nat (n div 10 mod 10 * 10 + n mod 10) = (word_of_nat n :: u64)" by (rule arg_cong)
  then have "word_of_nat (n div 10 mod 10) * 10 + word_of_nat (n mod 10) = (word_of_nat n :: u64)"
    by (simp only: of_nat_add of_nat_mult of_nat_numeral)
  then show ?thesis
    by (simp only: two_digits_def digit_at_dec [OF assms(1)] digit_at_dec [OF assms(2)] perhaps_simps)
qed

lemma four_digits_d4:
  assumes "rd v p = Some (dec_byte (n div 1000))" "rd v (p + 1) = Some (dec_byte (n div 100))"
    "rd v (p + 2) = Some (dec_byte (n div 10))" "rd v (p + 3) = Some (dec_byte n)" "n < 10000"
  shows "four_digits v p = Some (Some (word_of_nat n))"
proof -
  have "n div 1000 mod 10 * 1000 + n div 100 mod 10 * 100 + n div 10 mod 10 * 10 + n mod 10 = n"
  proof -
    have dd: "n div 10 div 10 = n div 100" "n div 100 div 10 = n div 1000" by (simp_all add: div_mult2_eq [symmetric])
    have e: "n div 1000 mod 10 = n div 1000" by (rule mod_less) (use assms(5) in \<open>simp add: less_mult_imp_div_less\<close>)
    have "a * 10 + x = n \<Longrightarrow> b * 10 + y = a \<Longrightarrow> c * 10 + z = b \<Longrightarrow> c * 1000 + z * 100 + y * 10 + x = n" for a b c x y z
      by simp
    from this [OF div_mult_mod_eq div_mult_mod_eq [of "n div 10" 10, unfolded dd] div_mult_mod_eq [of "n div 100" 10, unfolded dd]]
    show ?thesis unfolding e .
  qed
  then have "word_of_nat (n div 1000 mod 10 * 1000 + n div 100 mod 10 * 100 + n div 10 mod 10 * 10 + n mod 10) = (word_of_nat n :: u64)"
    by (rule arg_cong)
  then have "word_of_nat (n div 1000 mod 10) * 1000 + word_of_nat (n div 100 mod 10) * 100 +
      word_of_nat (n div 10 mod 10) * 10 + word_of_nat (n mod 10) = (word_of_nat n :: u64)"
    by (simp only: of_nat_add of_nat_mult of_nat_numeral)
  then show ?thesis
    by (simp only: four_digits_def digit_at_dec [OF assms(1)] digit_at_dec [OF assms(2)] digit_at_dec [OF assms(3)]
        digit_at_dec [OF assms(4)] perhaps_simps)
qed

lemma month_name_months:
  assumes "1 \<le> mo" "mo \<le> 12" "rd v p = Some (months ! (mo - 1) ! 0)" "rd v (p + 1) = Some (months ! (mo - 1) ! 1)"
    "rd v (p + 2) = Some (months ! (mo - 1) ! 2)"
  shows "month_name v p = Some (Some (word_of_nat (mo - 1)))"
  by (rule month_cases [OF assms(1,2)]) (use assms(3-5) in \<open>simp_all add: month_name_def months_def str_def\<close>)

definition http_date :: "bytes \<Rightarrow> nat \<Rightarrow> bytes \<Rightarrow> nat \<Rightarrow> nat \<Rightarrow> nat \<Rightarrow> nat \<Rightarrow> bytes" where
  "http_date w d m y h mi s = w @ str '', '' @ d2 d @ str '' '' @ m @ str '' '' @ d4 y @ str '' '' @
     d2 h @ str '':'' @ d2 mi @ str '':'' @ d2 s @ str '' GMT''"

lemma month_bytes:
  assumes "1 \<le> mo" "mo \<le> 12"
  obtains a b c where "months ! (mo - 1) = [a, b, c]" "0 \<notin> {a, b, c}"
  by (rule month_cases [OF assms]) (use that in \<open>simp_all add: months_def str_def\<close>)

lemma week_bytes:
  assumes "i < 7"
  obtains a b c where "week ! i = [a, b, c]" "{a, b, c} \<inter> {0, 0x20, 0x2c} = {}"
proof -
  have "i = 0 \<or> i = 1 \<or> i = 2 \<or> i = 3 \<or> i = 4 \<or> i = 5 \<or> i = 6" using assms by arith
  then show thesis by (elim disjE) (use that in \<open>simp_all add: week_def str_def\<close>)
qed

lemma find_format_comma:
  assumes "rd v 0 = Some a" "rd v 1 = Some b" "rd v 2 = Some c" "rd v 3 = Some 0x2c"
    "{a, b, c} \<inter> {0, 0x20, 0x2c} = {}" "4 \<le> k"
  shows "find_format v 0 k = Some (3, no_format)"
proof -
  obtain j where "k = Suc (Suc (Suc (Suc j)))" 
    by (rule that [of "k - 4"]) (use assms(6) in simp)
  then show ?thesis using assms by (simp add: numeral_2_eq_2 numeral_3_eq_3)
qed

lemma skip_one_blank:
  assumes "rd v p = Some 0x20" "rd v (p + 1) = Some c" "c \<noteq> 0x20" "2 \<le> k"
  shows "skip_blanks v p k = Some (p + 1)"
proof -
  obtain j where "k = Suc (Suc j)" using assms(4) by (metis add_2_eq_Suc le_Suc_ex)
  then show ?thesis using assms by simp
qed

lemma parse_http_date:
  assumes v: "valid_time y mo d h mi s" and y: "y < 10000" and i: "i < 7"
  shows "ngx_http_parse_time (http_date (week ! i) d (months ! (mo - 1)) y h mi s) 29
    = Some (word_of_nat (seconds_of y mo d h mi s))"
proof -
  note b = valid_time_bounds [OF v]
  have mo: "1 \<le> mo" "mo \<le> 12" using v by (auto simp: valid_time_def)
  obtain m0 m1 m2 where m: "months ! (mo - 1) = [m0, m1, m2]" using month_bytes [OF mo] .
  obtain w0 w1 w2 where w: "week ! i = [w0, w1, w2]" "{w0, w1, w2} \<inter> {0, 0x20, 0x2c} = {}" using week_bytes [OF i] .
  define V where "V = http_date (week ! i) d (months ! (mo - 1)) y h mi s"
  have V: "V = [w0, w1, w2, 0x2c, 0x20, dec_byte (d div 10), dec_byte d, 0x20, m0, m1, m2, 0x20,
      dec_byte (y div 1000), dec_byte (y div 100), dec_byte (y div 10), dec_byte y, 0x20,
      dec_byte (h div 10), dec_byte h, 0x3a, dec_byte (mi div 10), dec_byte mi, 0x3a, dec_byte (s div 10), dec_byte s,
      0x20, 0x47, 0x4d, 0x54]"
    unfolding V_def http_date_def w m d2_def d4_def by (simp add: str_def)
  have [simp]: "length V = 29" by (simp add: V)
  have d: "\<not> dec_byte (d div 10) = 0x20" using dec_byte_digit(1) [of "d div 10"] by auto
  have "find_format V 0 29 = Some (3, no_format)"
    by (rule find_format_comma) (use w(2) in \<open>simp_all add: V\<close>)
  moreover have "skip_blanks V 4 25 = Some (4 + 1)"
    by (rule skip_one_blank) (use d in \<open>simp_all add: V\<close>)
  moreover have "two_digits V 5 = Some (Some (word_of_nat d))"
    by (rule two_digits_d2) (use b in \<open>simp_all add: V\<close>)
  then have "leading_day V 29 5 = Some (Some (word_of_nat d, 8, rfc822))"
    by (simp add: leading_day_def V)
  moreover have "month_name V 8 = Some (Some (word_of_nat (mo - 1)))"
    by (rule month_name_months [OF mo]) (simp_all add: V m [simplified])
  moreover have "this_byte V 11 0x20 = Some (Some ())" by (simp add: this_byte_def V)
  moreover have "four_digits V 12 = Some (Some (word_of_nat y))"
    by (rule four_digits_d4) (use y in \<open>simp_all add: V\<close>)
  then have "year_or_day V 29 12 rfc822 (word_of_nat d) = Some (Some (word_of_nat d, word_of_nat y, 16))"
    by (simp add: year_or_day_def)
  moreover have "clock V 16 = Some (Some (word_of_nat h, word_of_nat mi, word_of_nat s, 23))"
  proof -
    have "two_digits V 17 = Some (Some (word_of_nat h))" "two_digits V 20 = Some (Some (word_of_nat mi))"
      "two_digits V 23 = Some (Some (word_of_nat s))"
      by (rule two_digits_d2; use b in \<open>simp add: V\<close>)+
    then show ?thesis by (simp add: clock_def this_byte_def V)
  qed
  moreover have "\<not> 23 < (word_of_nat h :: u64)" "\<not> 59 < (word_of_nat mi :: u64)" "\<not> 59 < (word_of_nat s :: u64)"
    using b by (simp_all add: word_less_nat_alt unsigned_of_nat take_bit_nat_eq_self)
  ultimately have "parse_time V 29 = Some (Some (word_of_nat (seconds_of y mo d h mi s)))"
    using not_bad_day [OF v y] time_of_valid [OF v y] by (simp add: parse_time_def)
  then show ?thesis by (simp add: ngx_http_parse_time_def V_def)
qed


text \<open>C12: the date that \<^verbatim>\<open>ngx_http_time\<close> prints for any second of the years 1970 to 9999 is 29 bytes long, as
  \<^verbatim>\<open>ngx_cached_http_time\<close> assumes, and \<^verbatim>\<open>ngx_http_parse_time\<close> reads it back to that second.\<close>

theorem http_time_roundtrip:
  assumes "unat t < 253402300800" and "unat buf < 2 ^ 63"
  shows "\<exists>s. ngx_http_time fp buf t = Some s \<and> length s = 29 \<and> ngx_http_parse_time s 29 = Some t"
proof -
  have t: "unat t < 2 ^ 55" using assms(1) by simp
  obtain y mo d h mi s where v: "valid_time y mo d h mi s" "seconds_of y mo d h mi s = unat t" "y < 2 ^ 31"
    and e: "ngx_gmtime (word_of_nat (unat t)) =
       \<lparr>tm_sec = word_of_nat s, tm_min = word_of_nat mi, tm_hour = word_of_nat h, tm_mday = word_of_nat d,
        tm_mon = word_of_nat mo, tm_year = word_of_nat y, tm_wday = word_of_nat ((4 + unat t div 86400) mod 7)\<rparr>"
    using gmtime_cases [OF t] .
  define i where "i = (4 + unat t div 86400) mod 7"
  have i: "i < 7" by (simp add: i_def)
  note b = valid_time_bounds [OF v(1)]
  have y1: "1970 \<le> y" and mo: "1 \<le> mo" "mo \<le> 12" using v(1) by (auto simp: valid_time_def)
  have y: "y < 10000"
  proof (rule ccontr)
    assume "\<not> y < 10000"
    then have "gauss 9999 \<le> gauss (y - 1)" by (intro gauss_mono) simp
    moreover have "gauss 9999 = 3652059" by (simp add: gauss_def)
    ultimately have "2932897 \<le> days_to_year y" using days_to_year_gauss [OF y1] by simp
    then show False using v(2) assms(1) by (simp add: seconds_of_def)
  qed
  obtain m0 m1 m2 where m: "months ! (mo - 1) = [m0, m1, m2]" "0 \<notin> {m0, m1, m2}" using month_bytes [OF mo] .
  obtain w0 w1 w2 where w: "week ! i = [w0, w1, w2]" "{w0, w1, w2} \<inter> {0, 0x20, 0x2c} = {}" using week_bytes [OF i] .
  have wa: "name_arg week (word_of_nat i) = Some (VaCStr (week ! i @ [0]))"
    using i by (simp add: name_arg_def week_def signed_of_nat signed_take_bit_int_eq_self unat_small32)
  have ma: "name_arg months (word_of_nat mo - 1) = Some (VaCStr (months ! (mo - 1) @ [0]))"
  proof -
    have m1: "word_of_nat mo - 1 = (word_of_nat (mo - 1) :: u32)" using mo by (simp add: of_nat_diff)
    have "name_arg months (word_of_nat k) = Some (VaCStr (months ! k @ [0]))" if "k < 12" for k
      using that by (simp add: name_arg_def months_def signed_of_nat signed_take_bit_int_eq_self unat_small32)
    then show ?thesis unfolding m1 by this (use mo in simp)
  qed
  let ?s = "http_date (week ! i) d (months ! (mo - 1)) y h mi s"
  have "ngx_sprintf fp buf (str ''%s, %02d %s %4d %02d:%02d:%02d GMT'' @ [0])
      [VaCStr (week ! i @ [0]), Va32 (word_of_nat d), VaCStr (months ! (mo - 1) @ [0]), Va32 (word_of_nat y),
       Va32 (word_of_nat h), Va32 (word_of_nat mi), Va32 (word_of_nat s)] = Some ?s"
    unfolding http_date_def
  proof (rule sprintf_http_time)
    show "length (week ! i) = 3" "0 \<notin> set (week ! i)" using w by auto
    show "length (months ! (mo - 1)) = 3" "0 \<notin> set (months ! (mo - 1))" unfolding m(1) using m(2) by auto
  qed (use b y y1 assms(2) in simp_all)
  then have "ngx_http_time fp buf (word_of_nat (unat t)) = Some ?s"
    unfolding ngx_http_time_def e i_def [symmetric] by (simp add: wa ma)
  then have "ngx_http_time fp buf t = Some ?s" by simp
  moreover have "length ?s = 29" by (simp add: http_date_def m(1) w(1) d2_def d4_def str_def del: One_nat_def)
  moreover have "ngx_http_parse_time ?s 29 = Some t" using parse_http_date [OF v(1) y i] v(2) by simp
  ultimately show ?thesis by blast
qed

lemma http_time_roundtrip_witness:
  "ngx_http_time (undefined :: unit fp_ops) 0 1330516801 = Some (str ''Wed, 29 Feb 2012 12:00:01 GMT'') \<and>
   ngx_http_parse_time (str ''Wed, 29 Feb 2012 12:00:01 GMT'') 29 = Some 1330516801"
proof -
  have "unat (1330516801 :: u64) < 253402300800" "unat (0 :: u64) < 2 ^ 63" by simp_all
  from http_time_roundtrip [OF this, of "undefined :: unit fp_ops"] obtain s where
    s: "ngx_http_time (undefined :: unit fp_ops) 0 1330516801 = Some s" "ngx_http_parse_time s 29 = Some 1330516801" by blast
  moreover have g: "ngx_gmtime 1330516801 = \<lparr>tm_sec = 1, tm_min = 0, tm_hour = 12, tm_mday = 29, tm_mon = 2, tm_year = 2012, tm_wday = 3\<rparr>"
    by code_simp
  have "s = http_date (str ''Wed'') 29 (str ''Feb'') 2012 12 0 1"
    using s(1) sprintf_http_time [of "str ''Wed''" "str ''Feb''" 2012 29 12 0 1 0 "undefined :: unit fp_ops"]
    by (simp add: ngx_http_time_def g name_arg_def week_def months_def http_date_def str_def)
  moreover have "http_date (str ''Wed'') 29 (str ''Feb'') 2012 12 0 1 = str ''Wed, 29 Feb 2012 12:00:01 GMT''"
    by (simp add: http_date_def d2_def d4_def dec_byte_def str_def)
  ultimately show ?thesis by simp
qed


section \<open>The parser stays in the string\<close>

definition returns :: "'a option \<Rightarrow> bool" where
  "returns x \<longleftrightarrow> x \<noteq> None"

lemma returns_Some [simp]: "returns (Some x)"
  by (simp add: returns_def)

lemma returns_map [simp]: "returns (map_option f x) \<longleftrightarrow> returns x"
  by (cases x) (simp_all add: returns_def)

lemma returns_rd: "returns (rd v p) \<longleftrightarrow> p < length v"
  by (simp add: returns_def rd_def)

lemma returns_perhaps:
  assumes "returns x" and "\<And>a. x = Some (Some a) \<Longrightarrow> returns (f a)"
  shows "returns (perhaps x f)"
  using assms by (cases x; cases "the x") (auto simp: returns_def)

lemma returns_case:
  assumes "returns x" and "\<And>a. x = Some a \<Longrightarrow> returns (f a)"
  shows "returns (case x of None \<Rightarrow> None | Some a \<Rightarrow> f a)"
  using assms by (cases x) (auto simp: returns_def)

lemma perhaps_eq_Some [simp]: "perhaps x f = Some (Some b) \<longleftrightarrow> (\<exists>a. x = Some (Some a) \<and> f a = Some (Some b))"
  by (cases x; cases "the x") auto

lemma parts_return:
  "p < length v \<Longrightarrow> returns (digit_at v p)"
  "p + 2 \<le> length v \<Longrightarrow> returns (two_digits v p)"
  "p + 4 \<le> length v \<Longrightarrow> returns (four_digits v p)"
  "p < length v \<Longrightarrow> returns (this_byte v p c)"
  "p + 3 \<le> length v \<Longrightarrow> returns (month_name v p)"
proof -
  show d: "returns (digit_at v p)" if "p < length v" for p using that by (simp add: digit_at_def)
  show "p + 2 \<le> length v \<Longrightarrow> returns (two_digits v p)"
    unfolding two_digits_def by (intro returns_perhaps d) simp_all
  show "p + 4 \<le> length v \<Longrightarrow> returns (four_digits v p)"
    unfolding four_digits_def by (intro returns_perhaps d) simp_all
  show "p < length v \<Longrightarrow> returns (this_byte v p c)" by (simp add: this_byte_def)
  show "p + 3 \<le> length v \<Longrightarrow> returns (month_name v p)" by (simp add: month_name_def)
qed

lemma find_format_Some: "p + k \<le> length v \<Longrightarrow> \<exists>q fmt. find_format v p k = Some (q, fmt)"
  by (induction v p k rule: find_format.induct) (auto simp del: split_paired_Ex)

lemma skip_blanks_Some: "p + k \<le> length v \<Longrightarrow> \<exists>q. skip_blanks v p k = Some q"
  by (induction v p k rule: skip_blanks.induct) auto

lemma clock_returns: "p + 9 \<le> length v \<Longrightarrow> returns (clock v p)"
  unfolding clock_def by (intro returns_perhaps parts_return) simp_all

lemma clock_end: "clock v p = Some (Some (h, m, s, q)) \<Longrightarrow> q = p + 7"
  by (auto simp: clock_def)

lemma leading_day_returns: "p + 18 \<le> length v \<Longrightarrow> returns (leading_day v len p)"
  unfolding leading_day_def by (intro returns_perhaps parts_return returns_case) (simp_all add: returns_rd)

lemma leading_day_end:
  assumes "leading_day v len p = Some (Some (day, q, fmt))" "p + 18 \<le> len"
  shows "q = p + 3 \<and> (fmt = rfc822 \<and> p + 20 \<le> len \<or> fmt = rfc850)"
  using assms by (auto simp: leading_day_def split: option.splits if_splits)

lemma year_or_day_returns:
  assumes "fmt = rfc822 \<and> p + 4 \<le> length v \<or> fmt = rfc850 \<and> p + 2 \<le> length v \<or> fmt = isoc \<and> p + 3 \<le> length v"
  shows "returns (year_or_day v len p fmt day)"
proof -
  have i: "returns (year_or_day v len p isoc day)" if "p + 3 \<le> length v"
    using that unfolding year_or_day_def Let_def
    by (auto intro!: returns_perhaps parts_return returns_case simp: returns_rd)
  show ?thesis
    using assms i by (elim disjE) (auto simp: year_or_day_def intro!: returns_perhaps parts_return)
qed

lemma year_or_day_end:
  assumes "year_or_day v len p fmt day = Some (Some (day', year, q))"
  shows "if fmt = rfc822 then q = p + 4 else if fmt = rfc850 then q = p + 2 else q + 14 \<le> len"
  using assms unfolding year_or_day_def
  by (auto simp: Let_def split: if_splits option.splits prod.splits)

lemma finish_time_returns:
  assumes "clock v p = Some (Some x)" and "fmt = isoc \<Longrightarrow> p + 14 \<le> length v"
  shows "returns (finish_time v fmt day month year x)"
proof -
  obtain h mi s q where x: "x = (h, mi, s, q)" by (cases x)
  have "q = p + 7" using clock_end assms(1) x by blast
  then show ?thesis using assms(2) unfolding x by (auto intro!: returns_perhaps parts_return)
qed

lemma after_day_returns:
  assumes q: "q = p + 3 \<and> (fmt = rfc822 \<and> p + 20 \<le> len \<or> fmt = rfc850) \<or> q = p \<and> fmt = isoc"
    and l: "p + 18 \<le> len" "len \<le> length v"
  shows "returns (after_day v len (day, q, fmt))"
  unfolding after_day.simps
proof (intro returns_perhaps)
  show "returns (month_name v q)" using q l by (intro parts_return) auto
  show "returns (if fmt = rfc822 then this_byte v (q + 3) 0x20
           else if fmt = rfc850 then this_byte v (q + 3) 0x2d else Some (Some ()))"
    using q l by (auto intro!: parts_return)
  show "returns (year_or_day v len (q + 4) fmt day)"
    using q l by (intro year_or_day_returns) auto
  fix x month assume x: "year_or_day v len (q + 4) fmt day = Some (Some x)"
  obtain day' year r where x': "x = (day', year, r)" by (cases x)
  note r = year_or_day_end [OF x [unfolded x']]
  have "returns (clock v r)" using r q l by (intro clock_returns) (auto split: if_splits)
  moreover have "returns (finish_time v fmt day' month year y)" if "clock v r = Some (Some y)" for y
    using that r l by (intro finish_time_returns) auto
  ultimately show "returns (case x of (day, year, p) \<Rightarrow> perhaps (clock v p) (finish_time v fmt day month year))"
    unfolding x' prod.case by (rule returns_perhaps)
qed

text \<open>Whatever the string, \<^verbatim>\<open>ngx_http_parse_time\<close> reads only its bytes, although it checks the length at
  only three places.\<close>

theorem parse_time_in_bounds:
  assumes "len \<le> length v"
  shows "ngx_http_parse_time v len \<noteq> None"
proof -
  obtain p0 fmt0 where f: "find_format v 0 len = Some (p0, fmt0)" using find_format_Some [of 0 len v] assms by auto
  have "\<exists>q. skip_blanks v (p0 + 1) (len - (p0 + 1)) = Some q"
  proof (cases "p0 + 1 \<le> len")
    case True
    then show ?thesis using skip_blanks_Some [of "p0 + 1" "len - (p0 + 1)" v] assms by simp
  qed simp
  then obtain p where p: "skip_blanks v (p0 + 1) (len - (p0 + 1)) = Some p" by blast
  have "returns (parse_time v len)"
  proof (cases "len < p + 18")
    case True
    then show ?thesis using f p by (simp add: parse_time_def)
  next
    case False
    then have l: "p + 18 \<le> len" by simp
    let ?first = "if fmt0 \<noteq> isoc then leading_day v len p else Some (Some (0, p, isoc))"
    have "returns ?first" using leading_day_returns [of p v len] l assms by simp
    moreover have "returns (after_day v len x)" if "?first = Some (Some x)" for x
    proof -
      obtain day q fmt where x: "x = (day, q, fmt)" by (cases x)
      show ?thesis unfolding x
        using that leading_day_end [OF _ l, of v day q fmt]
        by (intro after_day_returns [OF _ l assms]) (auto simp: x split: if_splits)
    qed
    ultimately show ?thesis
      unfolding parse_time_def f p option.case prod.case if_not_P [OF False] by (rule returns_perhaps)
  qed
  then show ?thesis by (simp add: ngx_http_parse_time_def returns_def)
qed

theorem parse_time_in_bounds_witness:
  "ngx_http_parse_time (str ''Sunday, 06-Nov-94'') 17 = Some (-1) \<and>
   ngx_http_parse_time (str ''Sunday, 06-Nov-94'') 17 \<noteq> None"
  using parse_time_in_bounds [of 17 "str ''Sunday, 06-Nov-94''"]
  by (rule_tac conjI) (code_simp, simp add: str_def)

text \<open>Day 0 of a month is accepted, as the last day of the month before it.\<close>

lemma parse_time_day_0:
  "ngx_http_parse_time (str ''Sun, 00 Nov 1994 08:49:37 GMT'') 29 =
   ngx_http_parse_time (str ''Mon, 31 Oct 1994 08:49:37 GMT'') 29"
  by code_simp

end
