(* ===== verification/NgxTimeCache.thy ===== *)
theory NgxTimeCache
  imports HttpTime
begin

text \<open>
  The cached time of \<^verbatim>\<open>src/core/ngx_times.c\<close> as a transition system, and its invariant: what the readers
  of the published pointers see.
\<close>


section \<open>The cached time is consistent\<close>

text \<open>
  What can happen to the globals: an update in the main loop, one in a signal handler, and another
  thread of control that takes or releases the lock.
\<close>

inductive time_step :: "'d fp_ops \<Rightarrow> (nat \<Rightarrow> nat \<Rightarrow> u64) \<Rightarrow> (u64 \<Rightarrow> ngx_tm \<times> u64) \<Rightarrow> times \<Rightarrow> times \<Rightarrow> bool"
  for fp :: "'d fp_ops" and addr localtime where
  update: "ngx_time_update fp addr localtime s us T = Some T' \<Longrightarrow> time_step fp addr localtime T T'"
| sigsafe: "ngx_time_sigsafe_update fp addr s T = Some T' \<Longrightarrow> time_step fp addr localtime T T'"
| locking: "time_step fp addr localtime T (T\<lparr>time_lock := b\<rparr>)"

inductive_cases time_stepE: "time_step fp addr localtime T T'"

definition slots_ok :: "times \<Rightarrow> bool" where
  "slots_ok T \<longleftrightarrow> slot T < 64 \<and> length (cached_time T) = 64 \<and> length (cached_http_time T) = 64 \<and>
     length (cached_err_log_time T) = 64 \<and> length (cached_http_log_time T) = 64 \<and> length (cached_iso8601 T) = 64"

definition published :: "'d fp_ops \<Rightarrow> (nat \<Rightarrow> nat \<Rightarrow> u64) \<Rightarrow> (u64 \<Rightarrow> ngx_tm \<times> u64) \<Rightarrow> times \<Rightarrow> bool" where
  "published fp addr localtime T \<longleftrightarrow>
     (let k = ngx_cached_time T; now = sec (cached_time T ! k); off = gmtoff (cached_time T ! k); tm = fst (localtime now) in
      k < 64 \<and> ngx_cached_http_time T = k \<and> ngx_cached_http_log_time T = k \<and> ngx_cached_iso8601 T = k \<and>
      ngx_cached_err_log_time T < 64 \<and>
      ngx_http_time fp (addr 0 k) now = Some (cached_http_time T ! k) \<and>
      log_format fp (addr 2 k) tm off = Some (cached_http_log_time T ! k) \<and>
      iso8601_format fp (addr 3 k) tm off = Some (cached_iso8601 T ! k))"

lemma next_slot_less: "i < 64 \<Longrightarrow> next_slot i < 64"
  by (simp add: next_slot_def NGX_TIME_SLOTS_def)

lemma update_slots_ok:
  assumes "slots_ok T" and "ngx_time_update fp addr localtime s us T = Some T'"
  shows "slots_ok T'"
  using assms by (auto simp: ngx_time_update_def slots_ok_def Let_def bind_eq_Some_conv next_slot_less
      split: if_splits prod.splits)

lemma update_publishes:
  assumes ok: "slots_ok T" and u: "ngx_time_update fp addr localtime s us T = Some T'" and free: "\<not> time_lock T"
    and new: "sec (cached_time T ! slot T) \<noteq> s"
  shows "published fp addr localtime T'" "sec (cached_time T' ! ngx_cached_time T') = s"
proof -
  have n: "next_slot (slot T) < 64" using ok by (simp add: slots_ok_def next_slot_less)
  show "published fp addr localtime T'" "sec (cached_time T' ! ngx_cached_time T') = s"
    using u free new n ok
    by (auto simp: ngx_time_update_def published_def slots_ok_def Let_def bind_eq_Some_conv split: prod.splits)
qed

lemma update_keeps_published:
  assumes ok: "slots_ok T" and u: "ngx_time_update fp addr localtime s us T = Some T'" and p: "published fp addr localtime T"
  shows "published fp addr localtime T'"
proof (cases "time_lock T \<or> sec (cached_time T ! slot T) = s")
  case True
  show ?thesis
  proof (cases "time_lock T")
    case True
    then show ?thesis using u p by (simp add: ngx_time_update_def)
  next
    case False
    define ms where "ms = sdiv64 us 1000"
    define L where "L = (cached_time T)[slot T := (cached_time T ! slot T)\<lparr>msec := ms\<rparr>]"
    have T': "T' = T\<lparr>current_msec := s * 1000 + ms, cached_time := L\<rparr>"
      using u False True by (simp add: ngx_time_update_def L_def ms_def Let_def)
    have "sec (L ! k) = sec (cached_time T ! k)" "gmtoff (L ! k) = gmtoff (cached_time T ! k)" for k
      using ok by (cases "k = slot T"; simp add: L_def slots_ok_def)+
    then show ?thesis using p by (simp add: T' published_def)
  qed
qed (use update_publishes [OF ok u] in auto)

lemma sigsafe_keeps:
  assumes "slots_ok T" "published fp addr localtime T" "ngx_time_sigsafe_update fp addr s T = Some T'"
  shows "slots_ok T' \<and> published fp addr localtime T'"
  using assms by (auto simp: ngx_time_sigsafe_update_def slots_ok_def published_def Let_def bind_eq_Some_conv next_slot_less
      split: if_splits)

section \<open>The time formats print\<close>

lemma directives:
  "\<exists>b. spf_directive fp room (0x30 # 0x32 # 0x64 # fmt) (Va32 v # args) = Some (b, fmt, args)"
  "\<exists>b. spf_directive fp room (0x34 # 0x64 # fmt) (Va32 v # args) = Some (b, fmt, args)"
  "\<exists>b. spf_directive fp room (0x64 # fmt) (Va32 v # args) = Some (b, fmt, args)"
  "\<exists>b. spf_directive fp room (0x63 # fmt) (Va32 v # args) = Some (b, fmt, args)"
  by (simp_all add: spf_directive_def spf_num_digits spf_conv_def spf_int32_def Let_def del: spf_num.simps)
    (simp add: spf_directive_def spf_conv_def)

lemma directive_name: "\<exists>b. spf_directive fp room (0x73 # fmt) (VaCStr (s @ [0]) # args) = Some (b, fmt, args)"
proof -
  have "\<exists>b. spf_cstr (s @ [0]) room = Some b"
    by (induction s arbitrary: room) (auto split: nat.splits)
  then show ?thesis
    by (auto simp: spf_directive_def spf_num_digits spf_conv_def Let_def simp del: spf_num.simps)
qed

lemmas time_formats = prints_end prints_directive [OF directives(1)] prints_directive [OF directives(2)]
  prints_directive [OF directives(3)] prints_directive [OF directives(4)] prints_directive [OF directive_name] prints_byte

lemma err_log_format_returns: "\<exists>s. err_log_format fp buf tm = Some s"
proof -
  have "prints fp (str ''%4d/%02d/%02d %02d:%02d:%02d'' @ [0]) [Va32 a, Va32 b, Va32 c, Va32 d, Va32 e, Va32 f]" for a b c d e f
    unfolding str_def by simp (intro time_formats; simp)
  then show ?thesis unfolding err_log_format_def ngx_sprintf_def prints_def by blast
qed

lemma iso8601_format_returns: "\<exists>s. iso8601_format fp buf tm off = Some s"
proof -
  have "prints fp (str ''%4d-%02d-%02dT%02d:%02d:%02d%c%02d:%02d'' @ [0])
    [Va32 a, Va32 b, Va32 c, Va32 d, Va32 e, Va32 f, Va32 g, Va32 h, Va32 i]" for a b c d e f g h i
    unfolding str_def by simp (intro time_formats; simp)
  then show ?thesis unfolding iso8601_format_def ngx_sprintf_def prints_def by blast
qed

lemma name_arg_months:
  assumes "1 \<le> unat m" "unat m \<le> 12"
  shows "name_arg months (m - 1) = Some (VaCStr (months ! (unat m - 1) @ [0]))"
proof -
  have "m - 1 = word_of_nat (unat m - 1)" using assms by (simp add: of_nat_diff)
  moreover have "name_arg months (word_of_nat k) = Some (VaCStr (months ! k @ [0]))" if "k < 12" for k
    using that by (simp add: name_arg_def months_def signed_of_nat signed_take_bit_int_eq_self unat_small32)
  moreover have "unat m - 1 < 12" using assms by simp
  ultimately show ?thesis by metis
qed

lemma log_format_returns:
  assumes "1 \<le> unat (tm_mon tm)" "unat (tm_mon tm) \<le> 12"
  shows "\<exists>s. log_format fp buf tm off = Some s"
proof -
  have "prints fp (str ''%02d/%s/%d:%02d:%02d:%02d %c%02d%02d'' @ [0])
    [Va32 a, VaCStr (n @ [0]), Va32 c, Va32 d, Va32 e, Va32 f, Va32 g, Va32 h, Va32 i]" for a n c d e f g h i
    unfolding str_def by simp (intro time_formats; simp)
  then show ?thesis unfolding log_format_def ngx_sprintf_def prints_def name_arg_months [OF assms] by simp
qed

lemma http_time_returns:
  fixes fp :: "'d fp_ops"
  assumes "unat t < 2 ^ 55"
  shows "\<exists>s. ngx_http_time fp buf t = Some s"
proof -
  let ?tm = "ngx_gmtime t"
  obtain y mo d h mi s where v: "valid_time y mo d h mi s"
    and e: "ngx_gmtime (word_of_nat (unat t)) =
       \<lparr>tm_sec = word_of_nat s, tm_min = word_of_nat mi, tm_hour = word_of_nat h, tm_mday = word_of_nat d,
        tm_mon = word_of_nat mo, tm_year = word_of_nat y, tm_wday = word_of_nat ((4 + unat t div 86400) mod 7)\<rparr>"
    using gmtime_cases [OF assms] .
  have "1 \<le> mo" "mo \<le> 12" using v by (auto simp: valid_time_def)
  then have m: "1 \<le> unat (tm_mon ?tm)" "unat (tm_mon ?tm) \<le> 12" using e by (simp_all add: unat_small32)
  have "name_arg week (word_of_nat k) = Some (VaCStr (week ! k @ [0]) :: 'd va_arg)" if "k < 7" for k
    using that by (simp add: name_arg_def week_def signed_of_nat signed_take_bit_int_eq_self unat_small32)
  from this [of "(4 + unat t div 86400) mod 7"]
  have w: "\<exists>n. name_arg week (tm_wday ?tm) = Some (VaCStr (n @ [0]) :: 'd va_arg)" using e by simp
  have "prints fp (str ''%s, %02d %s %4d %02d:%02d:%02d GMT'' @ [0])
    [VaCStr (w @ [0]), Va32 a, VaCStr (n @ [0]), Va32 c, Va32 d, Va32 e, Va32 f]" for w a n c d e f
    unfolding str_def by simp (intro time_formats; simp)
  then show ?thesis
    using w unfolding ngx_http_time_def ngx_sprintf_def prints_def Let_def name_arg_months [OF m] by auto
qed

text \<open>C14: the initialisation returns, and from then on, whatever updates, signal handlers and lock holders
  come, the slots stay in their arrays and the published strings and the published time are of one second:
  the pointers of the time and of the HTTP, log and ISO 8601 strings name one slot, and the strings in it
  are those of its time.  (The error log's string may be newer, from a signal handler.)\<close>

theorem times_consistent:
  assumes "slots_ok T0" "\<not> time_lock T0" "sec (cached_time T0 ! slot T0) \<noteq> s" "unat s < 2 ^ 55"
    and "1 \<le> unat (tm_mon (fst (localtime s)))" "unat (tm_mon (fst (localtime s))) \<le> 12"
  shows "\<exists>T1. ngx_time_init fp addr localtime s us T0 = Some T1 \<and>
     {T. (time_step fp addr localtime)\<^sup>*\<^sup>* T1 T} \<subseteq> {T. slots_ok T \<and> published fp addr localtime T}"
proof -
  have ok0: "slots_ok (T0\<lparr>ngx_cached_time := 0\<rparr>)" using assms(1) by (simp add: slots_ok_def)
  obtain tm off where l: "localtime s = (tm, off)" by fastforce
  obtain T1 where T1: "ngx_time_init fp addr localtime s us T0 = Some T1"
    using assms(2,3) http_time_returns [OF assms(4), of fp "addr 0 (next_slot (slot T0))"]
      err_log_format_returns [of fp "addr 1 (next_slot (slot T0))" tm]
      log_format_returns [of tm fp "addr 2 (next_slot (slot T0))" "sdiv64 off 60"]
      iso8601_format_returns [of fp "addr 3 (next_slot (slot T0))" tm "sdiv64 off 60"] assms(5,6)
    by (auto simp: ngx_time_init_def ngx_time_update_def l Let_def)
  have "slots_ok T \<and> published fp addr localtime T" if "(time_step fp addr localtime)\<^sup>*\<^sup>* T1 T" for T
    using that
  proof (induction rule: rtranclp_induct)
    case base
    show ?case
      using update_slots_ok [OF ok0 T1 [unfolded ngx_time_init_def]]
        update_publishes(1) [OF ok0 T1 [unfolded ngx_time_init_def]] assms(2,3) by simp
  next
    case (step T T')
    from step.hyps(2) show ?case
    proof cases
      case (update s us)
      then show ?thesis using step.IH update_slots_ok update_keeps_published by blast
    next
      case (sigsafe s)
      then show ?thesis using step.IH sigsafe_keeps by blast
    next
      case (locking b)
      then show ?thesis using step.IH by (simp add: slots_ok_def published_def)
    qed
  qed
  then show ?thesis using T1 by blast
qed

definition times_zero :: times where
  "times_zero = \<lparr>slot = 0, time_lock = False, current_msec = 0, cached_gmtoff = 0,
     cached_time = replicate 64 \<lparr>sec = 0, msec = 0, gmtoff = 0\<rparr>, cached_err_log_time = replicate 64 [],
     cached_http_time = replicate 64 [], cached_http_log_time = replicate 64 [], cached_iso8601 = replicate 64 [],
     ngx_cached_time = 0, ngx_cached_err_log_time = 0, ngx_cached_http_time = 0, ngx_cached_http_log_time = 0,
     ngx_cached_iso8601 = 0\<rparr>"

lemma times_consistent_witness:
  "\<exists>T1. ngx_time_init (undefined :: unit fp_ops) (\<lambda>_ _. 0) (\<lambda>t. (ngx_gmtime t, 3600)) 1330516801 999999 times_zero = Some T1 \<and>
     published (undefined :: unit fp_ops) (\<lambda>_ _. 0) (\<lambda>t. (ngx_gmtime t, 3600)) T1"
proof -
  have "slots_ok times_zero" "\<not> time_lock times_zero" "sec (cached_time times_zero ! slot times_zero) \<noteq> 1330516801"
    by (simp_all add: slots_ok_def times_zero_def)
  moreover have "unat (1330516801 :: u64) < 2 ^ 55" by simp
  moreover have "tm_mon (ngx_gmtime 1330516801) = 2" by code_simp
  then have "1 \<le> unat (tm_mon (fst (ngx_gmtime 1330516801, 3600 :: u64)))" "unat (tm_mon (fst (ngx_gmtime 1330516801, 3600 :: u64))) \<le> 12"
    by simp_all
  ultimately show ?thesis
    using times_consistent [of times_zero 1330516801 "\<lambda>t. (ngx_gmtime t, 3600)"] by blast
qed

end
