(* ===== verification/NgxCrc.thy ===== *)
theory NgxCrc
  imports NgxPrelude
begin

text \<open>
  Checksums: \<^verbatim>\<open>src/core/ngx_crc32.c\<close>, \<^verbatim>\<open>ngx_crc32.h\<close>, \<^verbatim>\<open>ngx_crc.h\<close> and \<^verbatim>\<open>ngx_murmurhash.c\<close>.
  A function gets the bytes from its pointer on and a length; a read past them is \<open>None\<close>.
\<close>

section \<open>The tables\<close>

definition ngx_crc32_table16 :: "u32 list" where
  "ngx_crc32_table16 =
    [0x00000000, 0x1db71064, 0x3b6e20c8, 0x26d930ac, 0x76dc4190, 0x6b6b51f4,
     0x4db26158, 0x5005713c, 0xedb88320, 0xf00f9344, 0xd6d6a3e8, 0xcb61b38c,
     0x9b64c2b0, 0x86d3d2d4, 0xa00ae278, 0xbdbdf21c]"

definition ngx_crc32_table256 :: "u32 list" where
  "ngx_crc32_table256 =
    [0x00000000, 0x77073096, 0xee0e612c, 0x990951ba, 0x076dc419, 0x706af48f, 0xe963a535, 0x9e6495a3,
     0x0edb8832, 0x79dcb8a4, 0xe0d5e91e, 0x97d2d988, 0x09b64c2b, 0x7eb17cbd, 0xe7b82d07, 0x90bf1d91,
     0x1db71064, 0x6ab020f2, 0xf3b97148, 0x84be41de, 0x1adad47d, 0x6ddde4eb, 0xf4d4b551, 0x83d385c7,
     0x136c9856, 0x646ba8c0, 0xfd62f97a, 0x8a65c9ec, 0x14015c4f, 0x63066cd9, 0xfa0f3d63, 0x8d080df5,
     0x3b6e20c8, 0x4c69105e, 0xd56041e4, 0xa2677172, 0x3c03e4d1, 0x4b04d447, 0xd20d85fd, 0xa50ab56b,
     0x35b5a8fa, 0x42b2986c, 0xdbbbc9d6, 0xacbcf940, 0x32d86ce3, 0x45df5c75, 0xdcd60dcf, 0xabd13d59,
     0x26d930ac, 0x51de003a, 0xc8d75180, 0xbfd06116, 0x21b4f4b5, 0x56b3c423, 0xcfba9599, 0xb8bda50f,
     0x2802b89e, 0x5f058808, 0xc60cd9b2, 0xb10be924, 0x2f6f7c87, 0x58684c11, 0xc1611dab, 0xb6662d3d,
     0x76dc4190, 0x01db7106, 0x98d220bc, 0xefd5102a, 0x71b18589, 0x06b6b51f, 0x9fbfe4a5, 0xe8b8d433,
     0x7807c9a2, 0x0f00f934, 0x9609a88e, 0xe10e9818, 0x7f6a0dbb, 0x086d3d2d, 0x91646c97, 0xe6635c01,
     0x6b6b51f4, 0x1c6c6162, 0x856530d8, 0xf262004e, 0x6c0695ed, 0x1b01a57b, 0x8208f4c1, 0xf50fc457,
     0x65b0d9c6, 0x12b7e950, 0x8bbeb8ea, 0xfcb9887c, 0x62dd1ddf, 0x15da2d49, 0x8cd37cf3, 0xfbd44c65,
     0x4db26158, 0x3ab551ce, 0xa3bc0074, 0xd4bb30e2, 0x4adfa541, 0x3dd895d7, 0xa4d1c46d, 0xd3d6f4fb,
     0x4369e96a, 0x346ed9fc, 0xad678846, 0xda60b8d0, 0x44042d73, 0x33031de5, 0xaa0a4c5f, 0xdd0d7cc9,
     0x5005713c, 0x270241aa, 0xbe0b1010, 0xc90c2086, 0x5768b525, 0x206f85b3, 0xb966d409, 0xce61e49f,
     0x5edef90e, 0x29d9c998, 0xb0d09822, 0xc7d7a8b4, 0x59b33d17, 0x2eb40d81, 0xb7bd5c3b, 0xc0ba6cad,
     0xedb88320, 0x9abfb3b6, 0x03b6e20c, 0x74b1d29a, 0xead54739, 0x9dd277af, 0x04db2615, 0x73dc1683,
     0xe3630b12, 0x94643b84, 0x0d6d6a3e, 0x7a6a5aa8, 0xe40ecf0b, 0x9309ff9d, 0x0a00ae27, 0x7d079eb1,
     0xf00f9344, 0x8708a3d2, 0x1e01f268, 0x6906c2fe, 0xf762575d, 0x806567cb, 0x196c3671, 0x6e6b06e7,
     0xfed41b76, 0x89d32be0, 0x10da7a5a, 0x67dd4acc, 0xf9b9df6f, 0x8ebeeff9, 0x17b7be43, 0x60b08ed5,
     0xd6d6a3e8, 0xa1d1937e, 0x38d8c2c4, 0x4fdff252, 0xd1bb67f1, 0xa6bc5767, 0x3fb506dd, 0x48b2364b,
     0xd80d2bda, 0xaf0a1b4c, 0x36034af6, 0x41047a60, 0xdf60efc3, 0xa867df55, 0x316e8eef, 0x4669be79,
     0xcb61b38c, 0xbc66831a, 0x256fd2a0, 0x5268e236, 0xcc0c7795, 0xbb0b4703, 0x220216b9, 0x5505262f,
     0xc5ba3bbe, 0xb2bd0b28, 0x2bb45a92, 0x5cb36a04, 0xc2d7ffa7, 0xb5d0cf31, 0x2cd99e8b, 0x5bdeae1d,
     0x9b64c2b0, 0xec63f226, 0x756aa39c, 0x026d930a, 0x9c0906a9, 0xeb0e363f, 0x72076785, 0x05005713,
     0x95bf4a82, 0xe2b87a14, 0x7bb12bae, 0x0cb61b38, 0x92d28e9b, 0xe5d5be0d, 0x7cdcefb7, 0x0bdbdf21,
     0x86d3d2d4, 0xf1d4e242, 0x68ddb3f8, 0x1fda836e, 0x81be16cd, 0xf6b9265b, 0x6fb077e1, 0x18b74777,
     0x88085ae6, 0xff0f6a70, 0x66063bca, 0x11010b5c, 0x8f659eff, 0xf862ae69, 0x616bffd3, 0x166ccf45,
     0xa00ae278, 0xd70dd2ee, 0x4e048354, 0x3903b3c2, 0xa7672661, 0xd06016f7, 0x4969474d, 0x3e6e77db,
     0xaed16a4a, 0xd9d65adc, 0x40df0b66, 0x37d83bf0, 0xa9bcae53, 0xdebb9ec5, 0x47b2cf7f, 0x30b5ffe9,
     0xbdbdf21c, 0xcabac28a, 0x53b39330, 0x24b4a3a6, 0xbad03605, 0xcdd70693, 0x54de5729, 0x23d967bf,
     0xb3667a2e, 0xc4614ab8, 0x5d681b02, 0x2a6f2b94, 0xb40bbe37, 0xc30c8ea1, 0x5a05df1b, 0x2d02ef8d]"

section \<open>The loops\<close>

text \<open>\<open>table\<close> is \<^verbatim>\<open>ngx_crc32_table_short\<close>.\<close>

definition crc32_short_step :: "u32 list \<Rightarrow> u32 \<Rightarrow> u8 \<Rightarrow> u32 option" where
  "crc32_short_step table crc c = do {
     a \<leftarrow> rd table (unat ((crc XOR (ucast c AND 0xf)) AND 0xf));
     let crc = a XOR drop_bit 4 crc;
     b \<leftarrow> rd table (unat ((crc XOR drop_bit 4 (ucast c)) AND 0xf));
     Some (b XOR drop_bit 4 crc) }"

definition crc32_long_step :: "u32 \<Rightarrow> u8 \<Rightarrow> u32 option" where
  "crc32_long_step crc c = do {
     a \<leftarrow> rd ngx_crc32_table256 (unat ((crc XOR ucast c) AND 0xff));
     Some (a XOR drop_bit 8 crc) }"

fun crc_loop :: "(u32 \<Rightarrow> u8 \<Rightarrow> u32 option) \<Rightarrow> u32 \<Rightarrow> bytes \<Rightarrow> nat \<Rightarrow> u32 option" where
  "crc_loop f crc p 0 = Some crc"
| "crc_loop f crc [] (Suc len) = None"
| "crc_loop f crc (c # p) (Suc len) = do { crc \<leftarrow> f crc c; crc_loop f crc p len }"

definition ngx_crc32_short :: "u32 list \<Rightarrow> bytes \<Rightarrow> nat \<Rightarrow> u32 option" where
  "ngx_crc32_short table p len =
     map_option (\<lambda>crc. crc XOR 0xffffffff) (crc_loop (crc32_short_step table) 0xffffffff p len)"

definition ngx_crc32_long :: "bytes \<Rightarrow> nat \<Rightarrow> u32 option" where
  "ngx_crc32_long p len = map_option (\<lambda>crc. crc XOR 0xffffffff) (crc_loop crc32_long_step 0xffffffff p len)"

definition ngx_crc32_init :: u32 where "ngx_crc32_init = 0xffffffff"

definition ngx_crc32_update :: "u32 \<Rightarrow> bytes \<Rightarrow> nat \<Rightarrow> u32 option" where
  "ngx_crc32_update crc p len = crc_loop crc32_long_step crc p len"

definition ngx_crc32_final :: "u32 \<Rightarrow> u32" where "ngx_crc32_final crc = crc XOR 0xffffffff"

text \<open>
  \<^verbatim>\<open>ngx_crc32_table_init\<close>: the table is used where it is when its address is a multiple of the cache
  line, else a copy in memory from \<^verbatim>\<open>ngx_alloc\<close>, aligned.  The result is the code and the table.
\<close>

definition ngx_align_ptr :: "u64 \<Rightarrow> u64 \<Rightarrow> u64" where
  "ngx_align_ptr p a = (p + (a - 1)) AND NOT (a - 1)"

definition ngx_crc32_table_init :: "u64 \<Rightarrow> u64 \<Rightarrow> u64 option \<Rightarrow> ngx_rc \<times> u64 \<times> u32 list" where
  "ngx_crc32_table_init cacheline short_addr allocated =
     (if short_addr AND NOT (cacheline - 1) = short_addr then (NGX_OK, short_addr, ngx_crc32_table16)
      else case allocated of
        None \<Rightarrow> (NGX_ERROR, short_addr, ngx_crc32_table16)
      | Some p \<Rightarrow> (NGX_OK, ngx_align_ptr p cacheline, take 16 ngx_crc32_table16))"

fun crc_sum :: "u32 \<Rightarrow> bytes \<Rightarrow> nat \<Rightarrow> u32 option" where
  "crc_sum s p 0 = Some s"
| "crc_sum s [] (Suc len) = None"
| "crc_sum s (c # p) (Suc len) = crc_sum ((drop_bit 1 s OR push_bit 31 s) + ucast c) p len"

definition ngx_crc :: "bytes \<Rightarrow> nat \<Rightarrow> u32 option" where
  "ngx_crc p len = crc_sum 0 p len"

section \<open>ngx_murmur_hash2\<close>

definition murmur_k :: "u8 \<Rightarrow> u8 \<Rightarrow> u8 \<Rightarrow> u8 \<Rightarrow> u32" where
  "murmur_k a b c d =
     (let k = ucast a OR push_bit 8 (ucast b) OR push_bit 16 (ucast c) OR push_bit 24 (ucast d);
          k = k * 0x5bd1e995;
          k = k XOR drop_bit 24 k
      in k * 0x5bd1e995)"

text \<open>The cases of the switch fall through.\<close>

definition murmur_tail :: "u32 \<Rightarrow> bytes \<Rightarrow> nat \<Rightarrow> u32 option" where
  "murmur_tail h data len = do {
     h \<leftarrow> (if len = 3 then map_option (\<lambda>c. h XOR push_bit 16 (ucast c)) (rd data 2) else Some h);
     h \<leftarrow> (if len = 3 \<or> len = 2 then map_option (\<lambda>b. h XOR push_bit 8 (ucast b)) (rd data 1) else Some h);
     if len = 3 \<or> len = 2 \<or> len = 1 then map_option (\<lambda>a. (h XOR ucast a) * 0x5bd1e995) (rd data 0) else Some h }"

fun murmur_loop :: "u32 \<Rightarrow> bytes \<Rightarrow> nat \<Rightarrow> u32 option" where
  "murmur_loop h data len =
     (if len \<ge> 4 then
        (case data of
           a # b # c # d # data' \<Rightarrow> murmur_loop (h * 0x5bd1e995 XOR murmur_k a b c d) data' (len - 4)
         | _ \<Rightarrow> None)
      else murmur_tail h data len)"

definition ngx_murmur_hash2 :: "bytes \<Rightarrow> nat \<Rightarrow> u32 option" where
  "ngx_murmur_hash2 data len = do {
     h \<leftarrow> murmur_loop (0 XOR word_of_nat len) data len;
     let h = h XOR drop_bit 13 h;
     let h = h * 0x5bd1e995;
     Some (h XOR drop_bit 15 h) }"

declare murmur_loop.simps [simp del]


section \<open>The polynomial\<close>

text \<open>One bit of the division by the CRC-32 polynomial, reflected; and the checksum bit by bit.\<close>

definition crc_bit :: "u32 \<Rightarrow> u32" where
  "crc_bit x = (if bit x 0 then drop_bit 1 x XOR 0xedb88320 else drop_bit 1 x)"

fun crc32_bitwise :: "u32 \<Rightarrow> bytes \<Rightarrow> u32" where
  "crc32_bitwise crc [] = crc"
| "crc32_bitwise crc (c # p) = crc32_bitwise ((crc_bit ^^ 8) (crc XOR ucast c)) p"

lemma crc_bit_xor: "crc_bit (a XOR b) = crc_bit a XOR crc_bit b"
proof -
  have "bit (a XOR b) 0 \<longleftrightarrow> bit a 0 \<noteq> bit b 0" by (simp add: bit_xor_iff)
  then show ?thesis unfolding crc_bit_def by (simp add: drop_bit_xor ac_simps del: bit_0)
qed

lemma crc_bits_xor: "(crc_bit ^^ n) (a XOR b) = (crc_bit ^^ n) a XOR (crc_bit ^^ n) b"
  by (induction n arbitrary: a b) (simp_all add: crc_bit_xor)

text \<open>Bits above the lowest \<open>n\<close> are only shifted.\<close>

lemma crc_bits_push: "take_bit n x = 0 \<Longrightarrow> (crc_bit ^^ n) x = drop_bit n x"
proof (induction n arbitrary: x)
  case (Suc n)
  have b: "\<not> bit x i" if "i < Suc n" for i
    using that arg_cong [OF Suc.prems, of "\<lambda>w. bit w i"] by (simp add: bit_take_bit_iff)
  have "crc_bit x = drop_bit 1 x" using b [of 0] by (simp add: crc_bit_def del: bit_0)
  moreover have "take_bit n (drop_bit 1 x) = 0"
  proof (rule bit_eqI)
    fix i
    show "bit (take_bit n (drop_bit 1 x)) i = bit 0 i"
      using b by (auto simp: bit_simps)
  qed
  ultimately show ?case
    using Suc.IH [of "drop_bit 1 x"] by (simp add: funpow_swap1 drop_bit_drop_bit flip: drop_bit_Suc)
qed simp

lemma crc_bits_split: "(crc_bit ^^ n) x = (crc_bit ^^ n) (take_bit n x) XOR drop_bit n x"
proof -
  have x: "x = take_bit n x XOR (x AND NOT (mask n))"
    by (rule bit_eqI) (auto simp: bit_simps)
  have "take_bit n (x AND NOT (mask n)) = 0"
    by (rule bit_eqI) (auto simp: bit_simps)
  moreover have "drop_bit n (x AND NOT (mask n)) = drop_bit n x"
    by (rule bit_eqI) (auto simp: bit_simps dest: bit_imp_le_length)
  ultimately have "(crc_bit ^^ n) (x AND NOT (mask n)) = drop_bit n x"
    using crc_bits_push by simp
  then show ?thesis by (subst x) (simp only: crc_bits_xor)
qed

section \<open>The tables are the polynomial's\<close>

lemma table16: "ngx_crc32_table16 = map (\<lambda>i. (crc_bit ^^ 4) (word_of_nat i)) [0..<16]"
  by code_simp

text \<open>
  The large table is linear: its first row and its first column determine it; the first row is evaluated,
  the first column is the small table.
\<close>

definition row0 :: "u32 list" where
  "row0 =
    [0x00000000, 0x77073096, 0xee0e612c, 0x990951ba, 0x076dc419, 0x706af48f, 0xe963a535, 0x9e6495a3,
     0x0edb8832, 0x79dcb8a4, 0xe0d5e91e, 0x97d2d988, 0x09b64c2b, 0x7eb17cbd, 0xe7b82d07, 0x90bf1d91]"

lemma row0_eq: "row0 = map (\<lambda>i. (crc_bit ^^ 8) (word_of_nat i)) [0..<16]"
  by code_simp

lemma crc_bits_shifted:
  assumes "h < 16"
  shows "(crc_bit ^^ 8) (word_of_nat (16 * h)) = (crc_bit ^^ 4) (word_of_nat h)"
proof -
  have e: "(word_of_nat (16 * h) :: u32) = push_bit 4 (word_of_nat h)" by (simp add: push_bit_eq_mult)
  have "take_bit 4 (push_bit 4 (word_of_nat h :: u32)) = 0" by (rule bit_eqI) (auto simp: bit_simps)
  then have "(crc_bit ^^ 4) (word_of_nat (16 * h)) = drop_bit 4 (push_bit 4 (word_of_nat h))"
    unfolding e by (rule crc_bits_push)
  also have "(drop_bit 4 (push_bit 4 (word_of_nat h)) :: u32) = word_of_nat h"
  proof (rule bit_eqI)
    fix i
    have "\<not> bit (word_of_nat h :: u32) i" if "4 \<le> i"
    proof -
      have "(word_of_nat h :: u32) = take_bit 4 (word_of_nat h)"
        using assms by (simp add: take_bit_of_nat take_bit_nat_eq_self)
      then show ?thesis using that by (metis bit_take_bit_iff not_le)
    qed
    then show "bit (drop_bit 4 (push_bit 4 (word_of_nat h)) :: u32) i = bit (word_of_nat h :: u32) i"
      by (cases "4 \<le> i") (auto simp: bit_simps)
  qed
  finally show ?thesis using funpow_add [of 4 4 crc_bit] by simp
qed

lemma table256_rows: "ngx_crc32_table256 = concat (map (\<lambda>a. map (\<lambda>b. a XOR b) row0) ngx_crc32_table16)"
  by code_simp

lemma upt_rows: "[0..<256] = concat (map (\<lambda>h. map (\<lambda>l. 16 * h + l) [0..<16]) [0..<16 :: nat])"
  by (simp add: upt_rec)

lemma row_disjoint: "l < 16 \<Longrightarrow> (word_of_nat (16 * h + l) :: u32) = word_of_nat (16 * h) XOR word_of_nat l"
proof -
  assume l: "l < 16"
  have "(word_of_nat (16 * h) :: u32) = push_bit 4 (word_of_nat h)" by (simp add: push_bit_eq_mult)
  moreover have "(word_of_nat l :: u32) = take_bit 4 (word_of_nat l)"
    using l by (simp add: take_bit_of_nat take_bit_nat_eq_self)
  moreover have "push_bit 4 x AND take_bit 4 y = 0" for x y :: u32
    by (rule bit_eqI) (auto simp: bit_simps)
  ultimately have "(word_of_nat (16 * h) :: u32) AND word_of_nat l = 0" by metis
  then show ?thesis by (simp add: disjunctive_add_eq_xor)
qed

lemma table256: "ngx_crc32_table256 = map (\<lambda>i. (crc_bit ^^ 8) (word_of_nat i)) [0..<256]"
proof -
  have "map (\<lambda>i. (crc_bit ^^ 8) (word_of_nat i)) [0..<256] =
      concat (map (\<lambda>h. map (\<lambda>l. (crc_bit ^^ 8) (word_of_nat (16 * h + l))) [0..<16]) [0..<16])"
    unfolding upt_rows map_concat by (simp add: comp_def)
  also have "\<dots> = concat (map (\<lambda>h. map (\<lambda>l. (crc_bit ^^ 8) (word_of_nat (16 * h)) XOR (crc_bit ^^ 8) (word_of_nat l)) [0..<16]) [0..<16])"
    by (intro arg_cong [of _ _ concat] map_cong refl) (simp only: set_upt atLeastLessThan_iff row_disjoint crc_bits_xor)
  also have "\<dots> = concat (map (\<lambda>h. map (\<lambda>l. (crc_bit ^^ 4) (word_of_nat h) XOR (crc_bit ^^ 8) (word_of_nat l)) [0..<16]) [0..<16])"
    by (intro arg_cong [of _ _ concat] map_cong refl) (simp only: set_upt atLeastLessThan_iff crc_bits_shifted)
  also have "\<dots> = ngx_crc32_table256"
    unfolding table256_rows row0_eq table16 by (simp add: comp_def)
  finally show ?thesis by simp
qed

section \<open>The three computations agree\<close>

lemma unat_and_mask_less: "unat (x AND mask n :: u32) < 2 ^ n" if "n < 32"
proof -
  have "unat (take_bit n x) < 2 ^ n" by (simp add: unsigned_take_bit_eq take_bit_nat_less_exp)
  then show ?thesis by (simp add: take_bit_eq_mask)
qed

lemma masks: "(0xf :: u32) = mask 4" "(0xff :: u32) = mask 8"
  by (simp_all add: mask_eq_exp_minus_1)

lemma table16_at: "rd ngx_crc32_table16 (unat (x AND 0xf)) = Some ((crc_bit ^^ 4) (take_bit 4 x))"
proof -
  have "unat (x AND 0xf) < 16" unfolding masks using unat_and_mask_less [of 4 x] by simp
  then show ?thesis
    unfolding table16 by (simp add: take_bit_eq_mask masks)
qed

lemma table256_at: "rd ngx_crc32_table256 (unat (x AND 0xff)) = Some ((crc_bit ^^ 8) (take_bit 8 x))"
proof -
  have "unat (x AND 0xff) < 256" unfolding masks using unat_and_mask_less [of 8 x] by simp
  then show ?thesis
    unfolding table256 by (simp add: take_bit_eq_mask masks)
qed

lemma byte_high: "8 \<le> i \<Longrightarrow> \<not> bit (ucast (c :: u8) :: u32) i"
  by (simp add: bit_ucast_iff u8_bit_out)

lemma crc32_long_step_eq: "crc32_long_step crc c = Some ((crc_bit ^^ 8) (crc XOR ucast c))"
proof -
  have "drop_bit 8 (crc XOR ucast c) = drop_bit 8 crc"
    by (rule bit_eqI) (simp add: bit_simps u8_bit_out)
  then show ?thesis
    using crc_bits_split [of 8 "crc XOR ucast c"] by (simp add: crc32_long_step_def table256_at)
qed

lemma crc32_short_step_eq: "crc32_short_step ngx_crc32_table16 crc c = Some ((crc_bit ^^ 8) (crc XOR ucast c))"
proof -
  let ?x = "crc XOR ucast c" and ?y = "(crc_bit ^^ 4) (crc XOR (ucast c AND 0xf))"
  have 1: "(crc_bit ^^ 4) (take_bit 4 (crc XOR (ucast c AND 0xf))) XOR drop_bit 4 crc = ?y"
  proof -
    have "drop_bit 4 (crc XOR (ucast c AND 0xf)) = drop_bit 4 crc"
      unfolding masks by (rule bit_eqI) (auto simp: bit_simps)
    then show ?thesis using crc_bits_split [of 4 "crc XOR (ucast c AND 0xf)"] by simp
  qed
  have 2: "(crc_bit ^^ 4) (take_bit 4 (?y XOR drop_bit 4 (ucast c))) XOR drop_bit 4 ?y = (crc_bit ^^ 4) (?y XOR drop_bit 4 (ucast c))"
  proof -
    have "drop_bit 4 (?y XOR drop_bit 4 (ucast c)) = drop_bit 4 ?y"
      by (rule bit_eqI) (auto simp: bit_simps u8_bit_out)
    then show ?thesis using crc_bits_split [of 4 "?y XOR drop_bit 4 (ucast c)"] by simp
  qed
  have 3: "?y XOR drop_bit 4 (ucast c) = (crc_bit ^^ 4) ?x"
  proof -
    have "?x = (crc XOR (ucast c AND 0xf)) XOR (ucast c AND NOT 0xf)"
      unfolding masks by (rule bit_eqI) (auto simp: bit_simps)
    moreover have "(crc_bit ^^ 4) (ucast c AND NOT 0xf) = drop_bit 4 (ucast c)"
    proof -
      have "take_bit 4 (ucast c AND NOT 0xf :: u32) = 0" unfolding masks by (rule bit_eqI) (auto simp: bit_simps)
      then have "(crc_bit ^^ 4) (ucast c AND NOT 0xf) = drop_bit 4 (ucast c AND NOT 0xf)" by (rule crc_bits_push)
      also have "\<dots> = drop_bit 4 (ucast c)" unfolding masks by (rule bit_eqI) (auto simp: bit_simps u8_bit_out)
      finally show ?thesis .
    qed
    ultimately show ?thesis by (simp only: crc_bits_xor)
  qed
  have "(crc_bit ^^ 8) ?x = (crc_bit ^^ 4) ((crc_bit ^^ 4) ?x)"
    using funpow_add [of 4 4 crc_bit] by simp
  then show ?thesis
    unfolding crc32_short_step_def table16_at bind.bind_lunit Let_def 1 3 2 [unfolded 3] by simp
qed

lemma crc_loop_bitwise:
  assumes "\<And>crc c. f crc c = Some ((crc_bit ^^ 8) (crc XOR ucast c))" and "len \<le> length p"
  shows "crc_loop f crc p len = Some (crc32_bitwise crc (take len p))"
  using assms(2)
proof (induction len arbitrary: crc p)
  case (Suc len)
  then show ?case by (cases p) (simp_all add: assms(1))
qed simp

lemma crc32_bitwise_append: "crc32_bitwise crc (p @ q) = crc32_bitwise (crc32_bitwise crc p) q"
  by (induction crc p rule: crc32_bitwise.induct) simp_all

text \<open>C15: the two optimised CRC-32 routines, with the table of 16 and with the table of 256 entries, and the
  incremental one, over a text cut anywhere, all compute the division by the CRC-32 polynomial bit by bit,
  and read only the bytes given.\<close>

theorem crc32_equivalent:
  assumes "len \<le> length p" and "k \<le> len"
  shows "ngx_crc32_short ngx_crc32_table16 p len = Some (crc32_bitwise 0xffffffff (take len p) XOR 0xffffffff) \<and>
    ngx_crc32_long p len = Some (crc32_bitwise 0xffffffff (take len p) XOR 0xffffffff) \<and>
    do { crc \<leftarrow> ngx_crc32_update ngx_crc32_init p k; crc \<leftarrow> ngx_crc32_update crc (drop k p) (len - k); Some (ngx_crc32_final crc) }
      = Some (crc32_bitwise 0xffffffff (take len p) XOR 0xffffffff)"
proof -
  have "take len p = take k p @ take (len - k) (drop k p)" using take_add [of k "len - k" p] assms by simp
  then show ?thesis
    using assms crc_loop_bitwise [of crc32_long_step, OF crc32_long_step_eq]
      crc_loop_bitwise [of "crc32_short_step ngx_crc32_table16", OF crc32_short_step_eq]
    by (simp add: ngx_crc32_short_def ngx_crc32_long_def ngx_crc32_update_def ngx_crc32_init_def ngx_crc32_final_def
        crc32_bitwise_append)
qed

lemma crc32_equivalent_witness: "ngx_crc32_long (str ''123456789'') 9 = Some 0xcbf43926 \<and> ngx_crc32_short ngx_crc32_table16 (str ''123456789'') 9 = Some 0xcbf43926"
proof -
  have "9 \<le> length (str ''123456789'')" by (simp add: str_def)
  from crc32_equivalent [OF this, of 4] have
    "ngx_crc32_long (str ''123456789'') 9 = ngx_crc32_short ngx_crc32_table16 (str ''123456789'') 9" by simp
  moreover have "ngx_crc32_short ngx_crc32_table16 (str ''123456789'') 9 = Some 0xcbf43926"
    by code_simp
  ultimately show ?thesis by simp
qed

section \<open>The other two read their bytes only\<close>

lemma ngx_crc_in_bounds: "len \<le> length p \<Longrightarrow> ngx_crc p len = ngx_crc (take len p) len \<and> ngx_crc p len \<noteq> None"
proof -
  have "len \<le> length p \<Longrightarrow> \<exists>r. crc_sum s p len = Some r \<and> crc_sum s (take len p) len = Some r" for s
  proof (induction len arbitrary: s p)
    case (Suc len)
    then show ?case by (cases p) simp_all
  qed simp
  moreover assume "len \<le> length p"
  ultimately obtain r where "crc_sum 0 p len = Some r" "crc_sum 0 (take len p) len = Some r" by blast
  then show "ngx_crc p len = ngx_crc (take len p) len \<and> ngx_crc p len \<noteq> None" by (simp add: ngx_crc_def)
qed

lemma murmur_in_bounds: "len \<le> length data \<Longrightarrow> ngx_murmur_hash2 data len \<noteq> None"
proof -
  have "len \<le> length data \<Longrightarrow> \<exists>r. murmur_loop h data len = Some r" for h
  proof (induction h data len rule: murmur_loop.induct)
    case (1 h data len)
    show ?case
    proof (cases "4 \<le> len")
      case True
      then obtain a b c d data' where d: "data = a # b # c # d # data'"
      proof -
        have "Suc (Suc (Suc (Suc 0))) \<le> length data" using True 1(2) by simp
        then show thesis using that by (auto simp: Suc_le_length_iff)
      qed
      then show ?thesis using 1 True by (subst murmur_loop.simps) simp
    next
      case False
      then show ?thesis using 1(2) by (subst murmur_loop.simps) (auto simp: murmur_tail_def rd_def)
    qed
  qed
  moreover assume "len \<le> length data"
  ultimately obtain h where "murmur_loop (0 XOR word_of_nat len) data len = Some h" by blast
  then show "ngx_murmur_hash2 data len \<noteq> None" by (simp add: ngx_murmur_hash2_def Let_def)
qed

end
