(* ===== verification/NgxQueue.thy ===== *)
theory NgxQueue
  imports NgxPrelude "HOL-Library.Multiset"
begin

text \<open>
  The doubly linked queue of \<^verbatim>\<open>src/core/ngx_queue.h\<close> and \<^verbatim>\<open>ngx_queue.c\<close>, on an explicit store from
  addresses to nodes.  The macros assign fields in the order of the code; an access to an address
  without a node is \<open>None\<close>, and so is a loop that does not end.  (The two assignments of \<open>NULL\<close> that
  \<^verbatim>\<open>ngx_queue_remove\<close> has in debugging builds are not there.)
\<close>

section \<open>The store\<close>

record qnode =
  q_prev :: nat
  q_next :: nat

type_synonym qstore = "nat \<rightharpoonup> qnode"

definition ngx_queue_next :: "qstore \<Rightarrow> nat \<Rightarrow> nat option" where
  "ngx_queue_next s q = map_option q_next (s q)"

definition ngx_queue_prev :: "qstore \<Rightarrow> nat \<Rightarrow> nat option" where
  "ngx_queue_prev s q = map_option q_prev (s q)"

definition set_next :: "nat \<Rightarrow> nat \<Rightarrow> qstore \<Rightarrow> qstore option" where
  "set_next q v s = map_option (\<lambda>n. s(q \<mapsto> n\<lparr>q_next := v\<rparr>)) (s q)"

definition set_prev :: "nat \<Rightarrow> nat \<Rightarrow> qstore \<Rightarrow> qstore option" where
  "set_prev q v s = map_option (\<lambda>n. s(q \<mapsto> n\<lparr>q_prev := v\<rparr>)) (s q)"

definition ngx_queue_head :: "qstore \<Rightarrow> nat \<Rightarrow> nat option" where
  "ngx_queue_head s h = ngx_queue_next s h"

definition ngx_queue_last :: "qstore \<Rightarrow> nat \<Rightarrow> nat option" where
  "ngx_queue_last s h = ngx_queue_prev s h"

section \<open>The macros\<close>

definition ngx_queue_init :: "nat \<Rightarrow> qstore \<Rightarrow> qstore option" where
  "ngx_queue_init q s = do { s \<leftarrow> set_prev q q s; set_next q q s }"

definition ngx_queue_empty :: "qstore \<Rightarrow> nat \<Rightarrow> bool option" where
  "ngx_queue_empty s h = map_option (\<lambda>p. h = p) (ngx_queue_prev s h)"

definition ngx_queue_insert_head :: "nat \<Rightarrow> nat \<Rightarrow> qstore \<Rightarrow> qstore option" where
  "ngx_queue_insert_head h x s = do {
     n \<leftarrow> ngx_queue_next s h;
     s \<leftarrow> set_next x n s;
     n \<leftarrow> ngx_queue_next s x;
     s \<leftarrow> set_prev n x s;
     s \<leftarrow> set_prev x h s;
     set_next h x s }"

definition ngx_queue_insert_after :: "nat \<Rightarrow> nat \<Rightarrow> qstore \<Rightarrow> qstore option" where
  "ngx_queue_insert_after h x s = ngx_queue_insert_head h x s"

definition ngx_queue_insert_tail :: "nat \<Rightarrow> nat \<Rightarrow> qstore \<Rightarrow> qstore option" where
  "ngx_queue_insert_tail h x s = do {
     p \<leftarrow> ngx_queue_prev s h;
     s \<leftarrow> set_prev x p s;
     p \<leftarrow> ngx_queue_prev s x;
     s \<leftarrow> set_next p x s;
     s \<leftarrow> set_next x h s;
     set_prev h x s }"

definition ngx_queue_remove :: "nat \<Rightarrow> qstore \<Rightarrow> qstore option" where
  "ngx_queue_remove x s = do {
     n \<leftarrow> ngx_queue_next s x;
     p \<leftarrow> ngx_queue_prev s x;
     s \<leftarrow> set_prev n p s;
     p \<leftarrow> ngx_queue_prev s x;
     n \<leftarrow> ngx_queue_next s x;
     set_next p n s }"

definition ngx_queue_split :: "nat \<Rightarrow> nat \<Rightarrow> nat \<Rightarrow> qstore \<Rightarrow> qstore option" where
  "ngx_queue_split h q n s = do {
     l \<leftarrow> ngx_queue_prev s h;
     s \<leftarrow> set_prev n l s;
     l \<leftarrow> ngx_queue_prev s n;
     s \<leftarrow> set_next l n s;
     s \<leftarrow> set_next n q s;
     p \<leftarrow> ngx_queue_prev s q;
     s \<leftarrow> set_prev h p s;
     p \<leftarrow> ngx_queue_prev s h;
     s \<leftarrow> set_next p h s;
     set_prev q n s }"

definition ngx_queue_add :: "nat \<Rightarrow> nat \<Rightarrow> qstore \<Rightarrow> qstore option" where
  "ngx_queue_add h n s = do {
     l \<leftarrow> ngx_queue_prev s h;
     f \<leftarrow> ngx_queue_next s n;
     s \<leftarrow> set_next l f s;
     f \<leftarrow> ngx_queue_next s n;
     l \<leftarrow> ngx_queue_prev s h;
     s \<leftarrow> set_prev f l s;
     l \<leftarrow> ngx_queue_prev s n;
     s \<leftarrow> set_prev h l s;
     l \<leftarrow> ngx_queue_prev s h;
     set_next l h s }"

section \<open>ngx_queue_middle and ngx_queue_sort\<close>

partial_function (option) middle_loop :: "qstore \<Rightarrow> nat \<Rightarrow> nat \<Rightarrow> nat \<Rightarrow> nat option" where
  "middle_loop s queue middle nxt = do {
     middle \<leftarrow> ngx_queue_next s middle;
     nxt \<leftarrow> ngx_queue_next s nxt;
     l \<leftarrow> ngx_queue_last s queue;
     if nxt = l then Some middle
     else do {
       nxt \<leftarrow> ngx_queue_next s nxt;
       l \<leftarrow> ngx_queue_last s queue;
       if nxt = l then Some middle else middle_loop s queue middle nxt } }"

definition ngx_queue_middle :: "qstore \<Rightarrow> nat \<Rightarrow> nat option" where
  "ngx_queue_middle s queue = do {
     middle \<leftarrow> ngx_queue_head s queue;
     l \<leftarrow> ngx_queue_last s queue;
     if middle = l then Some middle
     else do { nxt \<leftarrow> ngx_queue_head s queue; middle_loop s queue middle nxt } }"

text \<open>The inner loop of the sort: the node after which \<open>q\<close> is inserted.\<close>

partial_function (option) sort_place :: "(nat \<Rightarrow> nat \<Rightarrow> int) \<Rightarrow> qstore \<Rightarrow> nat \<Rightarrow> nat \<Rightarrow> nat \<Rightarrow> nat option" where
  "sort_place cmp s queue q prev =
     (if cmp prev q \<le> 0 then Some prev
      else do {
        prev \<leftarrow> ngx_queue_prev s prev;
        if prev \<noteq> queue then sort_place cmp s queue q prev else Some prev })"

partial_function (option) sort_loop :: "(nat \<Rightarrow> nat \<Rightarrow> int) \<Rightarrow> nat \<Rightarrow> nat \<Rightarrow> qstore \<Rightarrow> qstore option" where
  "sort_loop cmp queue q s =
     (if q \<noteq> queue then do {
        prev \<leftarrow> ngx_queue_prev s q;
        nxt \<leftarrow> ngx_queue_next s q;
        s \<leftarrow> ngx_queue_remove q s;
        prev \<leftarrow> sort_place cmp s queue q prev;
        s \<leftarrow> ngx_queue_insert_after prev q s;
        sort_loop cmp queue nxt s }
      else Some s)"

definition ngx_queue_sort :: "(nat \<Rightarrow> nat \<Rightarrow> int) \<Rightarrow> nat \<Rightarrow> qstore \<Rightarrow> qstore option" where
  "ngx_queue_sort cmp queue s = do {
     q \<leftarrow> ngx_queue_head s queue;
     l \<leftarrow> ngx_queue_last s queue;
     if q = l then Some s
     else do { q \<leftarrow> ngx_queue_next s q; sort_loop cmp queue q s } }"

section \<open>What a queue represents\<close>

text \<open>\<open>linked s a xs b\<close>: from \<open>a\<close> through \<open>xs\<close> to \<open>b\<close> the links agree in both directions.\<close>

fun linked :: "qstore \<Rightarrow> nat \<Rightarrow> nat list \<Rightarrow> nat \<Rightarrow> bool" where
  "linked s a [] b \<longleftrightarrow> ngx_queue_next s a = Some b \<and> ngx_queue_prev s b = Some a"
| "linked s a (x # xs) b \<longleftrightarrow> ngx_queue_next s a = Some x \<and> ngx_queue_prev s x = Some a \<and> linked s x xs b"

definition is_queue :: "qstore \<Rightarrow> nat \<Rightarrow> nat list \<Rightarrow> bool" where
  "is_queue s h xs \<longleftrightarrow> distinct (h # xs) \<and> linked s h xs h"


text \<open>An assignment succeeds on a node and changes one link of it.\<close>

definition upd_next :: "nat \<Rightarrow> nat \<Rightarrow> qstore \<Rightarrow> qstore" where
  "upd_next q v s = s(q \<mapsto> (the (s q))\<lparr>q_next := v\<rparr>)"

definition upd_prev :: "nat \<Rightarrow> nat \<Rightarrow> qstore \<Rightarrow> qstore" where
  "upd_prev q v s = s(q \<mapsto> (the (s q))\<lparr>q_prev := v\<rparr>)"

named_theorems store_simps \<open>assignments to links\<close>

lemma set_upd [store_simps]:
  "q \<in> dom s \<Longrightarrow> set_next q v s = Some (upd_next q v s)" "q \<in> dom s \<Longrightarrow> set_prev q v s = Some (upd_prev q v s)"
  by (auto simp: set_next_def set_prev_def upd_next_def upd_prev_def)

lemma upd_links [store_simps]:
  "q \<in> dom s \<Longrightarrow> dom (upd_next q v s) = dom s" "q \<in> dom s \<Longrightarrow> dom (upd_prev q v s) = dom s"
  "ngx_queue_next (upd_next q v s) a = (if a = q then Some v else ngx_queue_next s a)"
  "ngx_queue_prev (upd_prev q v s) a = (if a = q then Some v else ngx_queue_prev s a)"
  "q \<in> dom s \<Longrightarrow> ngx_queue_prev (upd_next q v s) a = ngx_queue_prev s a"
  "q \<in> dom s \<Longrightarrow> ngx_queue_next (upd_prev q v s) a = ngx_queue_next s a"
  by (auto simp: upd_next_def upd_prev_def ngx_queue_next_def ngx_queue_prev_def)

lemma in_dom: "ngx_queue_next s a = Some b \<Longrightarrow> a \<in> dom s" "ngx_queue_prev s a = Some b \<Longrightarrow> a \<in> dom s"
  by (auto simp: ngx_queue_next_def ngx_queue_prev_def)

lemma linked_dom: "linked s a xs b \<Longrightarrow> a \<in> dom s \<and> set xs \<subseteq> dom s \<and> b \<in> dom s"
  by (induction s a xs b rule: linked.induct) (auto dest: in_dom)

lemma linked_append: "linked s a (xs @ y # ys) b \<longleftrightarrow> linked s a xs y \<and> linked s y ys b"
  by (induction xs arbitrary: a) auto

lemma linked_first: "linked s a xs b \<Longrightarrow> ngx_queue_next s a = Some (hd (xs @ [b]))"
  by (cases xs) auto

lemma linked_last: "linked s a xs b \<Longrightarrow> ngx_queue_prev s b = Some (last (a # xs))"
  by (induction s a xs b rule: linked.induct) auto

text \<open>Links that are not those of the path do not matter.\<close>

lemma linked_frame:
  assumes "linked s a xs b" and "\<And>q. q \<in> set (a # xs) \<Longrightarrow> ngx_queue_next s' q = ngx_queue_next s q"
    and "\<And>q. q \<in> set (xs @ [b]) \<Longrightarrow> ngx_queue_prev s' q = ngx_queue_prev s q"
  shows "linked s' a xs b"
  using assms by (induction s a xs b rule: linked.induct) auto

section \<open>Each macro does its operation\<close>

lemma init_ok: "q \<in> dom s \<Longrightarrow> \<exists>s'. ngx_queue_init q s = Some s' \<and> dom s' = dom s \<and> is_queue s' q []"
  by (simp add: ngx_queue_init_def is_queue_def store_simps)

lemma empty_ok: "is_queue s h xs \<Longrightarrow> ngx_queue_empty s h = Some (xs = [])"
  by (auto simp: is_queue_def ngx_queue_empty_def dest!: linked_last)

text \<open>The node \<open>x\<close> goes between \<open>a\<close> and \<open>b\<close>, or goes away from there.\<close>

definition inserted :: "nat \<Rightarrow> nat \<Rightarrow> nat \<Rightarrow> qstore \<Rightarrow> qstore \<Rightarrow> bool" where
  "inserted a x b s s' \<longleftrightarrow> dom s' = dom s \<and>
     (\<forall>y. ngx_queue_next s' y = (if y = a then Some x else if y = x then Some b else ngx_queue_next s y)) \<and>
     (\<forall>y. ngx_queue_prev s' y = (if y = b then Some x else if y = x then Some a else ngx_queue_prev s y))"

definition unlinked :: "nat \<Rightarrow> nat \<Rightarrow> qstore \<Rightarrow> qstore \<Rightarrow> bool" where
  "unlinked a b s s' \<longleftrightarrow> dom s' = dom s \<and>
     (\<forall>y. ngx_queue_next s' y = (if y = a then Some b else ngx_queue_next s y)) \<and>
     (\<forall>y. ngx_queue_prev s' y = (if y = b then Some a else ngx_queue_prev s y))"

lemma insert_head_links:
  assumes "ngx_queue_next s a = Some b" "b \<in> dom s" "x \<in> dom s" "x \<noteq> a" "x \<noteq> b"
  shows "\<exists>s'. ngx_queue_insert_head a x s = Some s' \<and> inserted a x b s s'"
  using assms in_dom(1) [OF assms(1)]
  by (simp add: ngx_queue_insert_head_def inserted_def store_simps)

lemma insert_tail_links:
  assumes "ngx_queue_prev s b = Some a" "a \<in> dom s" "x \<in> dom s" "x \<noteq> a" "x \<noteq> b"
  shows "\<exists>s'. ngx_queue_insert_tail b x s = Some s' \<and> inserted a x b s s'"
  using assms in_dom(2) [OF assms(1)]
  by (simp add: ngx_queue_insert_tail_def inserted_def store_simps)

lemma remove_links:
  assumes "ngx_queue_next s x = Some b" "ngx_queue_prev s x = Some a" "a \<in> dom s" "b \<in> dom s" "x \<noteq> a" "x \<noteq> b"
  shows "\<exists>s'. ngx_queue_remove x s = Some s' \<and> unlinked a b s s'"
  using assms in_dom [of s x]
  by (simp add: ngx_queue_remove_def unlinked_def store_simps)

lemma inserted_linked:
  assumes "linked s a (xs @ zs) b" "inserted (last (a # xs)) x (hd (zs @ [b])) s s'"
    and "distinct (x # xs @ zs)" "a \<notin> set (x # xs @ zs)" "b \<notin> set (x # xs @ zs)"
  shows "linked s' a (xs @ x # zs) b"
  using assms
proof (induction xs arbitrary: a)
  case Nil
  then show ?case
  proof (cases zs)
    case (Cons z zs')
    have "linked s' z zs' b"
      by (rule linked_frame [of s]) (use Nil Cons in \<open>auto simp: inserted_def\<close>)
    then show ?thesis using Nil Cons by (auto simp: inserted_def)
  qed (auto simp: inserted_def)
next
  case (Cons y ys)
  have "linked s' y (ys @ x # zs) b"
    by (rule Cons.IH) (use Cons.prems in auto)
  moreover have "y \<noteq> hd (zs @ [b])" using Cons.prems by (cases zs) auto
  ultimately show ?case using Cons.prems by (auto simp: inserted_def split: if_splits)
qed


lemma unlinked_linked:
  assumes "linked s a (xs @ x # zs) b" "unlinked (last (a # xs)) (hd (zs @ [b])) s s'"
    and "distinct (xs @ x # zs)" "a \<notin> set (xs @ x # zs)" "b \<notin> set (xs @ x # zs)"
  shows "linked s' a (xs @ zs) b"
  using assms
proof (induction xs arbitrary: a)
  case Nil
  then show ?case
  proof (cases zs)
    case (Cons z zs')
    have "linked s' z zs' b"
      by (rule linked_frame [of s]) (use Nil Cons in \<open>auto simp: unlinked_def\<close>)
    then show ?thesis using Nil Cons by (auto simp: unlinked_def)
  qed (auto simp: unlinked_def)
next
  case (Cons y ys)
  have "linked s' y (ys @ zs) b"
    by (rule Cons.IH) (use Cons.prems in auto)
  moreover have "y \<noteq> hd (zs @ [b])" using Cons.prems by (cases zs) auto
  ultimately show ?case using Cons.prems by (auto simp: unlinked_def split: if_splits)
qed

section \<open>The operations on queues\<close>

lemma queue_dom: "is_queue s h xs \<Longrightarrow> set (h # xs) \<subseteq> dom s"
  using linked_dom [of s h xs h] by (auto simp: is_queue_def)

lemma insert_between:
  assumes q: "is_queue s h (ys @ zs)" and x: "x \<in> dom s" "x \<notin> set (h # ys @ zs)"
    and i: "inserted (last (h # ys)) x (hd (zs @ [h])) s s'"
  shows "is_queue s' h (ys @ x # zs)"
  using inserted_linked [of s h ys zs h x s'] assms by (auto simp: is_queue_def)

lemma next_of: "is_queue s h (ys @ zs) \<Longrightarrow> ngx_queue_next s (last (h # ys)) = Some (hd (zs @ [h]))"
proof (cases ys rule: rev_cases)
  case (snoc ws w)
  assume "is_queue s h (ys @ zs)"
  then show ?thesis using snoc linked_first [of s w zs h] by (simp add: is_queue_def linked_append)
qed (use linked_first [of s h zs h] in \<open>simp add: is_queue_def\<close>)

lemma prev_of: "is_queue s h (ys @ zs) \<Longrightarrow> ngx_queue_prev s (hd (zs @ [h])) = Some (last (h # ys))"
proof (cases zs)
  case (Cons w ws)
  assume "is_queue s h (ys @ zs)"
  then show ?thesis using Cons linked_last [of s h ys w] by (simp add: is_queue_def linked_append)
qed (use linked_last [of s h ys h] in \<open>simp add: is_queue_def\<close>)

lemma ends_in: "last (h # ys) \<in> set (h # ys @ zs)" "hd (zs @ [h]) \<in> set (h # ys @ zs)"
  by (simp, cases zs) auto

text \<open>After any element of the queue or the sentinel.\<close>

lemma insert_after_ok:
  assumes q: "is_queue s h (ys @ zs)" and x: "x \<in> dom s" "x \<notin> set (h # ys @ zs)"
  shows "\<exists>s'. ngx_queue_insert_after (last (h # ys)) x s = Some s' \<and> dom s' = dom s \<and> is_queue s' h (ys @ x # zs)"
proof -
  obtain s' where s': "ngx_queue_insert_head (last (h # ys)) x s = Some s'" "inserted (last (h # ys)) x (hd (zs @ [h])) s s'"
    using insert_head_links [OF next_of [OF q]] queue_dom [OF q] ends_in [where h = h and ys = ys and zs = zs] x by blast
  then show ?thesis
    using insert_between [OF q x s'(2)] by (auto simp: ngx_queue_insert_after_def inserted_def)
qed

lemma insert_tail_ok:
  assumes q: "is_queue s h xs" and x: "x \<in> dom s" "x \<notin> set (h # xs)"
  shows "\<exists>s'. ngx_queue_insert_tail h x s = Some s' \<and> dom s' = dom s \<and> is_queue s' h (xs @ [x])"
proof -
  have q': "is_queue s h (xs @ [])" using q by simp
  have p: "ngx_queue_prev s h = Some (last (h # xs))" using prev_of [OF q'] by simp
  have "last (h # xs) \<in> dom s" "x \<noteq> last (h # xs)" "x \<noteq> h"
    using queue_dom [OF q] ends_in(1) [of h xs "[]"] x by auto
  then obtain s' where s': "ngx_queue_insert_tail h x s = Some s'" "inserted (last (h # xs)) x h s s'"
    using insert_tail_links [OF p] x(1) by blast
  then show ?thesis
    using insert_between [OF q', of x s'] x by (auto simp: inserted_def)
qed

lemma remove_ok:
  assumes q: "is_queue s h (ys @ x # zs)"
  shows "\<exists>s'. ngx_queue_remove x s = Some s' \<and> dom s' = dom s \<and> is_queue s' h (ys @ zs)"
proof -
  have "is_queue s h ((ys @ [x]) @ zs)" using q by simp
  from next_of [OF this] have n: "ngx_queue_next s x = Some (hd (zs @ [h]))" by simp
  from prev_of [OF q] have p: "ngx_queue_prev s x = Some (last (h # ys))" by simp
  have d: "distinct (h # ys @ x # zs)" using q by (simp add: is_queue_def)
  have "last (h # ys) \<noteq> x" "hd (zs @ [h]) \<noteq> x" "last (h # ys) \<in> dom s" "hd (zs @ [h]) \<in> dom s"
    using d queue_dom [OF q] ends_in(1) [of h ys "[]"] ends_in(2) [of zs h "[]"] by auto
  then obtain s' where "ngx_queue_remove x s = Some s'" "unlinked (last (h # ys)) (hd (zs @ [h])) s s'"
    using remove_links [OF n p] by blast
  then show ?thesis
    using unlinked_linked [of s h ys x zs h s'] q d by (auto simp: is_queue_def unlinked_def)
qed


section \<open>Cutting a queue in two and joining two\<close>

lemma last_in: "last (a # xs) \<in> set (a # xs)"
  using ends_in(1) [of a xs "[]"] by simp

text \<open>A path whose far end is another node now.\<close>

lemma linked_retarget:
  assumes "linked s a xs b" "last (a # xs) = m" "distinct (a # xs)"
    and "\<And>q. q \<in> set (a # xs) \<Longrightarrow> q \<noteq> m \<Longrightarrow> ngx_queue_next s' q = ngx_queue_next s q"
    and "\<And>q. q \<in> set xs \<Longrightarrow> ngx_queue_prev s' q = ngx_queue_prev s q"
    and "ngx_queue_next s' m = Some b'" "ngx_queue_prev s' b' = Some m"
  shows "linked s' a xs b'"
  using assms
proof (induction xs arbitrary: a)
  case (Cons x xs)
  have "linked s' x xs b'"
    by (rule Cons.IH) (use Cons.prems in auto)
  moreover have "a \<noteq> m" using Cons.prems(2,3) last_in [of x xs] by auto
  ultimately show ?case using Cons.prems(1,4,5) by simp
qed simp

lemma split_links:
  assumes "ngx_queue_prev s h = Some l" "ngx_queue_prev s x = Some m"
    "m \<noteq> n" "l \<noteq> n" "l \<noteq> h" "m \<noteq> x" "x \<noteq> h" "x \<noteq> n" "h \<noteq> n" "m \<noteq> l" "m \<in> dom s" "l \<in> dom s" "x \<in> dom s" "h \<in> dom s" "n \<in> dom s"
  shows "\<exists>s'. ngx_queue_split h x n s = Some s' \<and> dom s' = dom s \<and>
     (\<forall>y. ngx_queue_next s' y = (if y = m then Some h else if y = n then Some x else if y = l then Some n else ngx_queue_next s y)) \<and>
     (\<forall>y. ngx_queue_prev s' y = (if y = x then Some n else if y = h then Some m else if y = n then Some l else ngx_queue_prev s y))"
  using assms by (simp add: ngx_queue_split_def store_simps)

lemma split_ok:
  assumes q: "is_queue s h (ys @ x # zs)" and n: "n \<in> dom s" "n \<notin> set (h # ys @ x # zs)"
  shows "\<exists>s'. ngx_queue_split h x n s = Some s' \<and> dom s' = dom s \<and> is_queue s' h ys \<and> is_queue s' n (x # zs)"
proof -
  obtain l m where ld: "last (x # zs) = l" and md: "last (h # ys) = m" by blast
  have l: "ngx_queue_prev s h = Some l" using prev_of [of s h "ys @ x # zs" "[]"] q ld by simp
  have m: "ngx_queue_prev s x = Some m" using prev_of [OF q] md by simp
  have d: "distinct (h # ys @ x # zs)" using q by (simp add: is_queue_def)
  have s: "set (h # ys @ x # zs) \<subseteq> dom s" by (rule queue_dom [OF q])
  have ml: "m \<in> set (h # ys)" "l \<in> set (x # zs)" using last_in ld md by metis+
  have ne: "m \<noteq> n" "l \<noteq> n" "l \<noteq> h" "m \<noteq> x" "x \<noteq> h" "x \<noteq> n" "h \<noteq> n" "m \<noteq> l" "m \<in> dom s" "l \<in> dom s" "x \<in> dom s" "h \<in> dom s"
    using ml d n s by auto
  obtain s' where run: "ngx_queue_split h x n s = Some s'" and dm: "dom s' = dom s"
      and nx: "\<And>y. ngx_queue_next s' y = (if y = m then Some h else if y = n then Some x else if y = l then Some n else ngx_queue_next s y)"
      and pv: "\<And>y. ngx_queue_prev s' y = (if y = x then Some n else if y = h then Some m else if y = n then Some l else ngx_queue_prev s y)"
    using split_links [OF l m] ne n(1) by blast
  have ys: "linked s h ys x" and zs: "linked s x zs h" using q by (auto simp: is_queue_def linked_append)
  have fr: "q \<noteq> n \<and> q \<noteq> l \<and> q \<noteq> x" if "q \<in> set (h # ys)" for q using that d n(2) ml(2) by auto
  have bk: "q \<noteq> n \<and> q \<noteq> m \<and> q \<noteq> h" if "q \<in> set (x # zs)" for q using that d n(2) ml(1) by auto
  have "q \<noteq> h" if "q \<in> set ys" for q using that d by auto
  then have "linked s' h ys h"
    using fr d by (intro linked_retarget [OF ys md]) (simp_all add: nx pv del: last.simps)
  moreover have "q \<noteq> x" if "q \<in> set zs" for q using that d by auto
  then have "linked s' x zs n"
    using bk d ne(2,6-8) ne(8) [symmetric] ne(7) [symmetric] ne(6) [symmetric]
    by (intro linked_retarget [OF zs ld]) (simp_all add: nx pv del: last.simps)
  ultimately show ?thesis
    using run dm d n ne by (auto simp: is_queue_def nx pv simp del: last.simps)
qed


lemma add_ok:
  assumes q: "is_queue s h xs" and r: "is_queue s n ys" and d: "set (h # xs) \<inter> set (n # ys) = {}"
  shows "\<exists>s'. ngx_queue_add h n s = Some s' \<and> dom s' = dom s \<and> is_queue s' h (xs @ ys)"
proof -
  obtain l f k where ld: "last (h # xs) = l" and fd: "hd (ys @ [n]) = f" and kd: "last (n # ys) = k" by blast
  have l: "ngx_queue_prev s h = Some l" using prev_of [of s h xs "[]"] q ld by simp
  have f: "ngx_queue_next s n = Some f" using next_of [of s n "[]" ys] r fd by simp
  have k: "ngx_queue_prev s n = Some k" using prev_of [of s n ys "[]"] r kd by simp
  have l_in: "l \<in> set (h # xs)" and k_in: "k \<in> set (n # ys)" and f_in: "f \<in> set (n # ys)"
    using last_in [of h xs] last_in [of n ys] ld kd fd by (auto simp: hd_append)
  have dd: "distinct (h # xs)" "distinct (n # ys)" using q r by (auto simp: is_queue_def)
  have s: "set (h # xs) \<subseteq> dom s" "set (n # ys) \<subseteq> dom s" using queue_dom q r by blast+
  have ne: "l \<noteq> n" "l \<noteq> f" "l \<noteq> k" "f \<noteq> h" "k \<noteq> h" "h \<noteq> n"
      "l \<in> dom s" "k \<in> dom s" "f \<in> dom s" "h \<in> dom s" "n \<in> dom s"
    using l_in k_in f_in d s by auto
  show ?thesis
  proof (cases ys)
    case Nil
    define s' where "s' = upd_next l h (upd_prev h l (upd_prev n l (upd_next l n s)))"
    have run: "ngx_queue_add h n s = Some s'"
      using ne l f k fd Nil by (simp add: ngx_queue_add_def store_simps s'_def del: last.simps)
    have nx: "ngx_queue_next s' y = (if y = l then Some h else ngx_queue_next s y)"
      and pv: "ngx_queue_prev s' y = (if y = h then Some l else if y = n then Some l else ngx_queue_prev s y)"
      and dm: "dom s' = dom s" for y
      using ne by (simp_all add: s'_def store_simps del: last.simps)
    have "linked s h xs h" using q by (simp add: is_queue_def)
    then have "linked s' h xs h"
      by (rule linked_retarget [OF _ ld]) (use dd d in \<open>auto simp: nx pv simp del: last.simps\<close>)
    then show ?thesis using run dm dd Nil by (simp add: is_queue_def)
  next
    case (Cons y zs)
    define s' where "s' = upd_next k h (upd_prev h k (upd_prev y l (upd_next l y s)))"
    have run: "ngx_queue_add h n s = Some s'"
      using ne l f k fd dd Cons by (auto simp: ngx_queue_add_def store_simps s'_def simp del: last.simps)
    have nx: "ngx_queue_next s' w = (if w = k then Some h else if w = l then Some y else ngx_queue_next s w)"
      and pv: "ngx_queue_prev s' w = (if w = h then Some k else if w = y then Some l else ngx_queue_prev s w)"
      and dm: "dom s' = dom s" for w
      using ne fd Cons by (simp_all add: s'_def store_simps del: last.simps)
    have k': "last (y # zs) = k" using Cons kd by simp
    have xs: "linked s h xs h" and zs: "linked s y zs n" using q r Cons by (auto simp: is_queue_def)
    have "linked s' h xs y"
      by (rule linked_retarget [OF xs ld]) (use dd d ne Cons k_in l_in in \<open>auto simp: nx pv simp del: last.simps\<close>)
    moreover have "linked s' y zs h"
      by (rule linked_retarget [OF zs k']) (use dd d ne Cons l_in k' in \<open>auto simp: nx pv simp del: last.simps\<close>)
    ultimately show ?thesis using run dm dd d Cons by (auto simp: is_queue_def linked_append)
  qed
qed

lemma insert_head_ok:
  assumes q: "is_queue s h xs" and x: "x \<in> dom s" "x \<notin> set (h # xs)"
  shows "\<exists>s'. ngx_queue_insert_head h x s = Some s' \<and> dom s' = dom s \<and> is_queue s' h (x # xs)"
  using insert_after_ok [of s h "[]" xs x] assms by (simp add: ngx_queue_insert_after_def)

section \<open>The middle\<close>

lemma queue_last: "is_queue s h xs \<Longrightarrow> ngx_queue_last s h = Some (last (h # xs))"
  using prev_of [of s h xs "[]"] by (simp add: ngx_queue_last_def)

lemma queue_head: "is_queue s h xs \<Longrightarrow> ngx_queue_head s h = Some (hd (xs @ [h]))"
  using next_of [of s h "[]" xs] by (simp add: ngx_queue_head_def)

lemma nth_next: "is_queue s h xs \<Longrightarrow> Suc i < length xs \<Longrightarrow> ngx_queue_next s (xs ! i) = Some (xs ! Suc i)"
  using next_of [of s h "take (Suc i) xs" "drop (Suc i) xs"]
  by (simp add: take_Suc_conv_app_nth hd_drop_conv_nth hd_append id_take_nth_drop [symmetric])

lemma is_last: "is_queue s h xs \<Longrightarrow> i < length xs \<Longrightarrow> xs ! i = last (h # xs) \<longleftrightarrow> Suc i = length xs"
  by (cases xs rule: rev_cases) (auto simp: is_queue_def nth_append in_set_conv_nth)

lemma middle_loop_ok:
  assumes "is_queue s h xs" "2 * i + 1 < length xs"
  shows "middle_loop s h (xs ! i) (xs ! (2 * i)) = Some (xs ! (length xs div 2))"
  using assms
proof (induction "length xs - 2 * i" arbitrary: i rule: less_induct)
  case less
  note q = less.prems(1)
  have n: "ngx_queue_next s (xs ! i) = Some (xs ! Suc i)" "ngx_queue_next s (xs ! (2 * i)) = Some (xs ! Suc (2 * i))"
    using nth_next [OF q, of i] nth_next [OF q, of "2 * i"] less.prems(2) by auto
  consider "Suc (Suc (2 * i)) = length xs" | "Suc (Suc (Suc (2 * i))) = length xs" | "2 * Suc i + 1 < length xs"
    using less.prems(2) by fastforce
  then show ?case
  proof cases
    case 1
    then have "length xs div 2 = Suc i" by linarith
    then show ?thesis using n 1 is_last [OF q, of "Suc (2 * i)"] queue_last [OF q]
      by (subst middle_loop.simps) (simp del: last.simps)
  next
    case 2
    then have "length xs div 2 = Suc i" by linarith
    then show ?thesis
      using n 2 is_last [OF q, of "Suc (2 * i)"] is_last [OF q, of "Suc (Suc (2 * i))"] queue_last [OF q] nth_next [OF q, of "Suc (2 * i)"]
      by (subst middle_loop.simps) (simp del: last.simps)
  next
    case 3
    have "middle_loop s h (xs ! Suc i) (xs ! (2 * Suc i)) = Some (xs ! (length xs div 2))"
      by (rule less.hyps) (use 3 less.prems in auto)
    then show ?thesis
      using n 3 is_last [OF q, of "Suc (2 * i)"] is_last [OF q, of "Suc (Suc (2 * i))"] queue_last [OF q] nth_next [OF q, of "Suc (2 * i)"]
      by (subst middle_loop.simps) (simp del: last.simps)
  qed
qed

lemma middle_ok:
  assumes q: "is_queue s h xs" and ne: "xs \<noteq> []"
  shows "ngx_queue_middle s h = Some (xs ! (length xs div 2))"
proof (cases "length xs = 1")
  case True
  then obtain x where "xs = [x]" by (auto simp: length_Suc_conv)
  then show ?thesis using queue_head [OF q] queue_last [OF q] by (simp add: ngx_queue_middle_def)
next
  case False
  have "Suc 0 < length xs" using False ne by (cases xs) auto
  then show ?thesis
    using ne queue_head [OF q] queue_last [OF q] is_last [OF q, of 0] middle_loop_ok [OF q, of 0]
    by (simp add: ngx_queue_middle_def hd_conv_nth hd_append del: last.simps)
qed

section \<open>The sort\<close>

text \<open>Where the inner loop stops, in the elements \<open>ps\<close> before the node.\<close>

definition kept :: "('a \<Rightarrow> 'a \<Rightarrow> int) \<Rightarrow> 'a \<Rightarrow> 'a list \<Rightarrow> 'a list" where
  "kept cmp q ps = rev (dropWhile (\<lambda>p. 0 < cmp p q) (rev ps))"

definition passed :: "('a \<Rightarrow> 'a \<Rightarrow> int) \<Rightarrow> 'a \<Rightarrow> 'a list \<Rightarrow> 'a list" where
  "passed cmp q ps = rev (takeWhile (\<lambda>p. 0 < cmp p q) (rev ps))"

lemma kept_passed: "kept cmp q ps @ passed cmp q ps = ps"
  by (simp add: kept_def passed_def flip: rev_append)

lemma sort_place_ok:
  assumes "is_queue s h (ps @ zs)" "ps \<noteq> []"
  shows "sort_place cmp s h q (last ps) = Some (last (h # kept cmp q ps))"
  using assms
proof (induction ps arbitrary: zs rule: rev_induct)
  case (snoc p ps)
  have q: "is_queue s h (ps @ p # zs)" using snoc.prems by simp
  have p: "ngx_queue_prev s p = Some (last (h # ps))" using prev_of [OF q] by simp
  show ?case
  proof (cases "ps = []")
    case False
    then have "last ps \<noteq> h" using q last_in_set [of ps] by (auto simp: is_queue_def)
    then show ?thesis using False p snoc.IH [OF q False]
      by (subst sort_place.simps) (simp add: kept_def)
  qed (use p in \<open>subst sort_place.simps, simp add: kept_def\<close>)
qed simp

text \<open>Moving \<open>q\<close> back over the elements that it passes.\<close>

definition sort_step :: "('a \<Rightarrow> 'a \<Rightarrow> int) \<Rightarrow> 'a list \<Rightarrow> 'a \<Rightarrow> 'a list" where
  "sort_step cmp ps q = kept cmp q ps @ q # passed cmp q ps"

text \<open>What the sort does to the elements of a queue.\<close>

definition queue_sort :: "('a \<Rightarrow> 'a \<Rightarrow> int) \<Rightarrow> 'a list \<Rightarrow> 'a list" where
  "queue_sort cmp xs = foldl (sort_step cmp) (take 1 xs) (drop 1 xs)"

lemma set_sort_step: "set (sort_step cmp ps q) = insert q (set ps)"
  using arg_cong [OF kept_passed [of cmp q ps], of set] by (auto simp: sort_step_def)

lemma sort_loop_ok:
  assumes "is_queue s h (ps @ qs)" "ps \<noteq> []"
  shows "\<exists>s'. sort_loop cmp h (hd (qs @ [h])) s = Some s' \<and> dom s' = dom s \<and> is_queue s' h (foldl (sort_step cmp) ps qs)"
  using assms
proof (induction qs arbitrary: s ps)
  case Nil
  then show ?case by (subst sort_loop.simps) simp
next
  case (Cons q qs)
  note iq = Cons.prems(1)
  have d: "distinct (h # ps @ q # qs)" and dm: "q \<in> dom s" using iq queue_dom [OF iq] by (auto simp: is_queue_def)
  have n: "ngx_queue_next s q = Some (hd (qs @ [h]))" using next_of [of s h "ps @ [q]" qs] iq by simp
  have p: "ngx_queue_prev s q = Some (last ps)" using prev_of [OF iq] Cons.prems(2) by simp
  obtain s1 where s1: "ngx_queue_remove q s = Some s1" "dom s1 = dom s" "is_queue s1 h (ps @ qs)"
    using remove_ok [OF iq] by blast
  have pl: "sort_place cmp s1 h q (last ps) = Some (last (h # kept cmp q ps))"
    by (rule sort_place_ok [OF s1(3) Cons.prems(2)])
  have kp: "ps @ qs = kept cmp q ps @ passed cmp q ps @ qs"
    using kept_passed [of cmp q ps] by (metis append_assoc)
  have q1: "is_queue s1 h (kept cmp q ps @ passed cmp q ps @ qs)" using s1(3) kp by simp
  have "q \<notin> set (h # ps @ qs)" using d by auto
  then have q2: "q \<notin> set (h # kept cmp q ps @ passed cmp q ps @ qs)" unfolding kp .
  obtain s2 where s2: "ngx_queue_insert_after (last (h # kept cmp q ps)) q s1 = Some s2" "dom s2 = dom s1"
      "is_queue s2 h (sort_step cmp ps q @ qs)"
    using insert_after_ok [OF q1 _ q2] dm s1(2) by (auto simp: sort_step_def)
  have "is_queue s2 h (sort_step cmp ps q @ qs)" "sort_step cmp ps q \<noteq> []"
    using s2(3) by (auto simp: sort_step_def)
  from Cons.IH [OF this]
  obtain s' where s': "sort_loop cmp h (hd (qs @ [h])) s2 = Some s'" "dom s' = dom s2"
      "is_queue s' h (foldl (sort_step cmp) (sort_step cmp ps q) qs)"
    by blast
  show ?case
    using d n p s1 pl s2 s' by (subst sort_loop.simps) simp
qed

lemma sort_ok:
  assumes q: "is_queue s h xs"
  shows "\<exists>s'. ngx_queue_sort cmp h s = Some s' \<and> dom s' = dom s \<and> is_queue s' h (queue_sort cmp xs)"
proof (cases xs)
  case Nil
  then show ?thesis using queue_head [OF q] queue_last [OF q] q by (auto simp: ngx_queue_sort_def queue_sort_def)
next
  case (Cons x zs)
  note hl = queue_head [OF q] queue_last [OF q]
  show ?thesis
  proof (cases "zs = []")
    case True
    then show ?thesis using hl q Cons by (auto simp: ngx_queue_sort_def queue_sort_def)
  next
    case False
    have "x \<noteq> last zs" using q Cons False last_in_set [of zs] by (auto simp: is_queue_def)
    moreover have "ngx_queue_next s x = Some (hd (zs @ [h]))" using next_of [of s h "[x]" zs] q Cons by simp
    ultimately show ?thesis
      using hl Cons False sort_loop_ok [of s h "[x]" zs cmp] q by (auto simp: ngx_queue_sort_def queue_sort_def)
  qed
qed

subsection \<open>It is the stable sort of the library\<close>

lemma sorted_last_le: "sorted (map key (ps @ [p])) \<Longrightarrow> x \<in> set ps \<Longrightarrow> key x \<le> key p"
  by (auto simp: sorted_append)

lemma step_filters:
  fixes key :: "'a \<Rightarrow> 'k::linorder"
  assumes "\<And>a b. cmp a b \<le> 0 \<longleftrightarrow> key a \<le> key b" "sorted (map key ps)"
  shows "kept cmp q ps = filter (\<lambda>p. key p \<le> key q) ps" "passed cmp q ps = filter (\<lambda>p. key q < key p) ps"
proof -
  have c: "0 < cmp a b \<longleftrightarrow> key b < key a" for a b using assms(1) [of a b] by auto
  have "kept cmp q ps = filter (\<lambda>p. key p \<le> key q) ps \<and> passed cmp q ps = filter (\<lambda>p. key q < key p) ps"
    using assms(2)
  proof (induction ps rule: rev_induct)
    case (snoc p ps)
    show ?case
    proof (cases "key q < key p")
      case True
      then show ?thesis using snoc by (auto simp: kept_def passed_def c sorted_append)
    next
      case False
      then have "\<forall>x \<in> set ps. key x \<le> key q" using snoc.prems by (auto simp: sorted_append)
      then show ?thesis using False by (auto simp: kept_def passed_def c intro!: filter_True [symmetric] filter_False [symmetric])
    qed
  qed (simp add: kept_def passed_def)
  then show "kept cmp q ps = filter (\<lambda>p. key p \<le> key q) ps" "passed cmp q ps = filter (\<lambda>p. key q < key p) ps" by auto
qed

lemma step_stable:
  fixes key :: "'a \<Rightarrow> 'k::linorder"
  assumes c: "\<And>a b. cmp a b \<le> 0 \<longleftrightarrow> key a \<le> key b" and s: "sort_key key xs = ps"
  shows "sort_step cmp ps q = sort_key key (xs @ [q])"
proof -
  have srt: "sorted (map key ps)" using s by auto
  note f = step_filters [of cmp key, OF c srt]
  show ?thesis
  proof (rule properties_for_sort_key [symmetric])
    show "mset (sort_step cmp ps q) = mset (xs @ [q])"
      using arg_cong [OF kept_passed [of cmp q ps], of mset] s by (auto simp: sort_step_def ac_simps)
    show "filter (\<lambda>x. key k = key x) (sort_step cmp ps q) = filter (\<lambda>x. key k = key x) (xs @ [q])"
        if "k \<in> set (sort_step cmp ps q)" for k
    proof -
      let ?f = "filter (\<lambda>x. key k = key x)"
      have "?f (kept cmp q ps) @ ?f (passed cmp q ps) = ?f ps"
        by (simp add: kept_passed flip: filter_append)
      moreover have "?f ps = ?f xs" using s sort_key_stable [of key "key k" xs] by (auto simp: eq_commute)
      moreover have "?f (passed cmp q ps) = []" if "key k = key q" using that by (auto simp: f filter_empty_conv)
      ultimately show ?thesis by (auto simp: sort_step_def)
    qed
    show "sorted (map key (sort_step cmp ps q))"
      using srt by (auto simp: sort_step_def f sorted_append sorted_filter)
  qed
qed

lemma steps_sort:
  fixes key :: "'a \<Rightarrow> 'k::linorder"
  assumes "\<And>a b. cmp a b \<le> 0 \<longleftrightarrow> key a \<le> key b"
  shows "foldl (sort_step cmp) (sort_key key xs) ys = sort_key key (xs @ ys)"
  by (induction ys arbitrary: xs) (simp_all add: step_stable [OF assms])

lemma queue_sort_key:
  fixes key :: "'a \<Rightarrow> 'k::linorder"
  assumes "\<And>a b. cmp a b \<le> 0 \<longleftrightarrow> key a \<le> key b"
  shows "queue_sort cmp xs = sort_key key xs"
  using steps_sort [of cmp key "take 1 xs" "drop 1 xs", OF assms] by (cases xs) (simp_all add: queue_sort_def)

text \<open>C17: \<open>ngx_queue_sort\<close> always ends, and it is a stable sort: with a \<open>cmp\<close> that compares keys,
  the queue then holds the elements in the order of \<open>sort_key\<close>, equal keys in their old order, with
  the links of both directions in place.  Then \<open>ngx_queue_middle\<close> is the upper median.\<close>

theorem ngx_queue_sort_stable:
  fixes key :: "nat \<Rightarrow> 'k::linorder"
  assumes "is_queue s h xs" and "\<And>a b. cmp a b \<le> 0 \<longleftrightarrow> key a \<le> key b"
  shows "\<exists>s'. ngx_queue_sort cmp h s = Some s' \<and> is_queue s' h (sort_key key xs) \<and>
     (xs \<noteq> [] \<longrightarrow> ngx_queue_middle s' h = Some (sort_key key xs ! (length xs div 2)))"
proof -
  obtain s' where "ngx_queue_sort cmp h s = Some s'" "is_queue s' h (sort_key key xs)"
    using sort_ok [OF assms(1), of cmp] queue_sort_key [of cmp key, OF assms(2)] by auto
  moreover have "sort_key key xs \<noteq> []" if "xs \<noteq> []" using that by (metis set_empty set_sort)
  ultimately show ?thesis using middle_ok [of s' h "sort_key key xs"] by auto
qed

lemma ngx_queue_sort_stable_witness:
  "\<exists>s'. ngx_queue_sort (\<lambda>a b. int (a mod 3) - int (b mod 3)) 0
      [0 \<mapsto> \<lparr>q_prev = 4, q_next = 2\<rparr>, 2 \<mapsto> \<lparr>q_prev = 0, q_next = 1\<rparr>, 1 \<mapsto> \<lparr>q_prev = 2, q_next = 4\<rparr>, 4 \<mapsto> \<lparr>q_prev = 1, q_next = 0\<rparr>] = Some s' \<and>
    is_queue s' 0 [1, 4, 2]"
  using ngx_queue_sort_stable [of "[0 \<mapsto> \<lparr>q_prev = 4, q_next = 2\<rparr>, 2 \<mapsto> \<lparr>q_prev = 0, q_next = 1\<rparr>, 1 \<mapsto> \<lparr>q_prev = 2, q_next = 4\<rparr>, 4 \<mapsto> \<lparr>q_prev = 1, q_next = 0\<rparr>]"
      0 "[2, 1, 4]" "\<lambda>a b. int (a mod 3) - int (b mod 3)" "\<lambda>a. a mod 3"]
  by (auto simp: is_queue_def ngx_queue_next_def ngx_queue_prev_def)

section \<open>Any sequence of operations\<close>

datatype queue_op = Insert_head nat | Insert_tail nat | Insert_after nat nat | Remove nat

fun queue_exec :: "nat \<Rightarrow> queue_op \<Rightarrow> qstore \<Rightarrow> qstore option" where
  "queue_exec h (Insert_head x) s = ngx_queue_insert_head h x s"
| "queue_exec h (Insert_tail x) s = ngx_queue_insert_tail h x s"
| "queue_exec h (Insert_after a x) s = ngx_queue_insert_after a x s"
| "queue_exec h (Remove x) s = ngx_queue_remove x s"

fun queue_run :: "nat \<Rightarrow> queue_op list \<Rightarrow> qstore \<Rightarrow> qstore option" where
  "queue_run h [] s = Some s"
| "queue_run h (c # cs) s = do { s \<leftarrow> queue_exec h c s; queue_run h cs s }"

text \<open>The lists that the operations stand for, and when the code may call them: a node is put in
  only when it is in no queue, and an element that is named is there.\<close>

fun list_op :: "queue_op \<Rightarrow> nat list \<Rightarrow> nat list" where
  "list_op (Insert_head x) xs = x # xs"
| "list_op (Insert_tail x) xs = xs @ [x]"
| "list_op (Insert_after a x) xs = takeWhile (\<lambda>y. y \<noteq> a) xs @ a # x # tl (dropWhile (\<lambda>y. y \<noteq> a) xs)"
| "list_op (Remove x) xs = removeAll x xs"

fun op_legal :: "nat set \<Rightarrow> nat \<Rightarrow> queue_op \<Rightarrow> nat list \<Rightarrow> bool" where
  "op_legal D h (Insert_after a x) xs \<longleftrightarrow> a \<in> set xs \<and> x \<in> D \<and> x \<notin> set (h # xs)"
| "op_legal D h (Remove x) xs \<longleftrightarrow> x \<in> set xs"
| "op_legal D h (Insert_head x) xs \<longleftrightarrow> x \<in> D \<and> x \<notin> set (h # xs)"
| "op_legal D h (Insert_tail x) xs \<longleftrightarrow> x \<in> D \<and> x \<notin> set (h # xs)"

fun ops_legal :: "nat set \<Rightarrow> nat \<Rightarrow> queue_op list \<Rightarrow> nat list \<Rightarrow> bool" where
  "ops_legal D h [] xs \<longleftrightarrow> True"
| "ops_legal D h (c # cs) xs \<longleftrightarrow> op_legal D h c xs \<and> ops_legal D h cs (list_op c xs)"

lemma split_at: "a \<in> set xs \<Longrightarrow> xs = takeWhile (\<lambda>y. y \<noteq> a) xs @ a # tl (dropWhile (\<lambda>y. y \<noteq> a) xs)"
  by (induction xs) auto

lemma op_step:
  assumes q: "is_queue s h xs" and "op_legal (dom s) h c xs"
  shows "\<exists>s'. queue_exec h c s = Some s' \<and> dom s' = dom s \<and> is_queue s' h (list_op c xs)"
  using assms(2)
proof (cases c)
  case (Insert_after a x)
  let ?ys = "takeWhile (\<lambda>y. y \<noteq> a) xs @ [a]" and ?zs = "tl (dropWhile (\<lambda>y. y \<noteq> a) xs)"
  have xs: "xs = ?ys @ ?zs" using assms(2) Insert_after split_at [of a xs] by simp
  have "is_queue s h (?ys @ ?zs)" "x \<notin> set (h # ?ys @ ?zs)" "x \<in> dom s"
    using q assms(2) Insert_after xs by (simp_all del: set_append flip: xs)
  from insert_after_ok [OF this(1) this(3) this(2)] show ?thesis using Insert_after by simp
next
  case (Remove x)
  let ?ys = "takeWhile (\<lambda>y. y \<noteq> x) xs" and ?zs = "tl (dropWhile (\<lambda>y. y \<noteq> x) xs)"
  have xs: "xs = ?ys @ x # ?zs" using assms(2) Remove split_at [of x xs] by simp
  then have "distinct (?ys @ x # ?zs)" using q by (simp add: is_queue_def)
  then have "removeAll x (?ys @ x # ?zs) = ?ys @ ?zs" by (auto simp: removeAll_id)
  then have "list_op c xs = ?ys @ ?zs" using Remove xs by simp
  moreover have "is_queue s h (?ys @ x # ?zs)" using q xs by simp
  ultimately show ?thesis using remove_ok [of s h ?ys x ?zs] Remove by simp
qed (use q insert_head_ok insert_tail_ok in auto)

text \<open>C16: the queue refines the list.  Any sequence of insertions (at the head, at the tail, and with
  \<^verbatim>\<open>ngx_queue_insert_after\<close> behind an element, where the comment above that macro says in front of it) and
  removals that the code may do
  succeeds, never follows a pointer outside the store, and leaves a queue, well linked in both
  directions, of exactly the elements that the same operations on a list give, in their order.\<close>

theorem queue_refines_list:
  assumes "is_queue s h xs" and "ops_legal (dom s) h cs xs"
  shows "\<exists>s'. queue_run h cs s = Some s' \<and> dom s' = dom s \<and> is_queue s' h (foldl (\<lambda>ys c. list_op c ys) xs cs)"
  using assms
proof (induction cs arbitrary: s xs)
  case (Cons c cs)
  have "op_legal (dom s) h c xs" using Cons.prems(2) by simp
  from op_step [OF Cons.prems(1) this]
  obtain s1 where s1: "queue_exec h c s = Some s1" "dom s1 = dom s" "is_queue s1 h (list_op c xs)" by blast
  then have "ops_legal (dom s1) h cs (list_op c xs)" using Cons.prems(2) by simp
  from Cons.IH [OF s1(3) this] show ?case using s1 by simp
qed simp

lemma queue_refines_list_witness:
  "\<exists>s'. queue_run 0 [Insert_head 1, Insert_tail 2, Insert_after 1 3, Remove 1]
      (\<lambda>a. if a < 4 then Some \<lparr>q_prev = 0, q_next = 0\<rparr> else None) = Some s' \<and> is_queue s' 0 [3, 2]"
  using queue_refines_list [of "\<lambda>a. if a < 4 then Some \<lparr>q_prev = 0, q_next = 0\<rparr> else None" 0 "[]"
      "[Insert_head 1, Insert_tail 2, Insert_after 1 3, Remove 1]"]
  by (auto simp: is_queue_def ngx_queue_next_def ngx_queue_prev_def dom_def)

end
