(* ===== verification/NgxRadix.thy ===== *)
theory NgxRadix
  imports NgxPrelude
begin

unbundle bit_operations_syntax

text \<open>
  The 32-bit radix tree of \<^verbatim>\<open>src/core/ngx_radix_tree.c\<close>, which the geo module searches for the network
  of an address.  The nodes are records in a store from addresses to nodes, with \<open>0\<close> for \<open>NULL\<close>; an
  access through \<open>NULL\<close> or to an address without a node is \<open>None\<close>.  The list \<open>rt_pages\<close> holds what the
  calls of \<open>ngx_pmemalign\<close> are going to return, and \<open>rt_pagesize\<close> is \<open>ngx_pagesize\<close>.
\<close>

section \<open>The data\<close>

definition NGX_RADIX_NO_VALUE :: "64 word" where
  "NGX_RADIX_NO_VALUE = - 1"

record rnode =
  rn_right :: nat
  rn_left :: nat
  rn_parent :: nat
  rn_value :: "64 word"

record radix_tree =
  rt_root :: nat
  rt_free :: nat
  rt_start :: nat
  rt_size :: nat
  rt_nodes :: "nat \<rightharpoonup> rnode"
  rt_pages :: "nat list"
  rt_pagesize :: nat

definition deref :: "radix_tree \<Rightarrow> nat \<Rightarrow> rnode option" where
  "deref t a = (if a = 0 then None else rt_nodes t a)"

definition assign :: "nat \<Rightarrow> (rnode \<Rightarrow> rnode) \<Rightarrow> radix_tree \<Rightarrow> radix_tree option" where
  "assign a f t = map_option (\<lambda>n. t\<lparr>rt_nodes := (rt_nodes t)(a \<mapsto> f n)\<rparr>) (deref t a)"

definition sizeof_radix_node :: nat where
  "sizeof_radix_node = 32"

section \<open>Allocation of nodes\<close>

definition take_node :: "radix_tree \<Rightarrow> nat \<times> radix_tree" where
  "take_node t = (rt_start t, t\<lparr>rt_start := rt_start t + sizeof_radix_node, rt_size := rt_size t - sizeof_radix_node\<rparr>)"

definition ngx_radix_alloc :: "radix_tree \<Rightarrow> (nat \<times> radix_tree) option" where
  "ngx_radix_alloc t =
     (if rt_free t \<noteq> 0 then do {
        n \<leftarrow> deref t (rt_free t);
        Some (rt_free t, t\<lparr>rt_free := rn_right n\<rparr>) }
      else if rt_size t < sizeof_radix_node then
        (case rt_pages t of
           [] \<Rightarrow> Some (0, t\<lparr>rt_start := 0\<rparr>)
         | p # ps \<Rightarrow>
             if p = 0 then Some (0, t\<lparr>rt_start := 0, rt_pages := ps\<rparr>)
             else Some (take_node (t\<lparr>rt_start := p, rt_size := rt_pagesize t, rt_pages := ps\<rparr>)))
      else Some (take_node t))"

definition new_node :: "nat \<Rightarrow> nat \<Rightarrow> radix_tree \<Rightarrow> radix_tree" where
  "new_node a par t =
     t\<lparr>rt_nodes := (rt_nodes t)(a \<mapsto> \<lparr>rn_right = 0, rn_left = 0, rn_parent = par, rn_value = NGX_RADIX_NO_VALUE\<rparr>)\<rparr>"

section \<open>Insertion\<close>

definition side :: "32 word \<Rightarrow> 32 word \<Rightarrow> rnode \<Rightarrow> nat" where
  "side key bt n = (if key AND bt \<noteq> 0 then rn_right n else rn_left n)"

definition set_side :: "32 word \<Rightarrow> 32 word \<Rightarrow> nat \<Rightarrow> rnode \<Rightarrow> rnode" where
  "set_side key bt a n = (if key AND bt \<noteq> 0 then n\<lparr>rn_right := a\<rparr> else n\<lparr>rn_left := a\<rparr>)"

lemma halve_less: "bt AND msk \<noteq> (0::32 word) \<Longrightarrow> unat (drop_bit (Suc 0) bt) < unat bt"
  by (cases "bt = 0") (simp_all add: drop_bit_eq_div unat_div unat_gt_0)

function insert_walk :: "radix_tree \<Rightarrow> 32 word \<Rightarrow> 32 word \<Rightarrow> 32 word \<Rightarrow> nat \<Rightarrow> nat \<Rightarrow> (32 word \<times> nat \<times> nat) option" where
  "insert_walk t key msk bt node nxt =
     (if bt AND msk \<noteq> 0 then
        (case deref t node of
           None \<Rightarrow> None
         | Some n \<Rightarrow>
             let nxt = side key bt n in
             if nxt = 0 then Some (bt, node, nxt) else insert_walk t key msk (drop_bit 1 bt) nxt nxt)
      else Some (bt, node, nxt))"
  by pat_completeness auto
termination by (relation "measure (\<lambda>(t, key, mask, bt, node, nxt). unat bt)") (auto intro: halve_less)

function insert_grow :: "32 word \<Rightarrow> 32 word \<Rightarrow> 32 word \<Rightarrow> nat \<Rightarrow> radix_tree \<Rightarrow> (nat option \<times> radix_tree) option" where
  "insert_grow key msk bt node t =
     (if bt AND msk \<noteq> 0 then
        (case ngx_radix_alloc t of
           None \<Rightarrow> None
         | Some (nxt, t) \<Rightarrow>
             if nxt = 0 then Some (None, t)
             else (case assign node (set_side key bt nxt) (new_node nxt node t) of
                     None \<Rightarrow> None
                   | Some t \<Rightarrow> insert_grow key msk (drop_bit 1 bt) nxt t))
      else Some (Some node, t))"
  by pat_completeness auto
termination by (relation "measure (\<lambda>(key, mask, bt, node, t). unat bt)") (auto intro: halve_less)

declare insert_walk.simps [simp del] insert_grow.simps [simp del]

definition ngx_radix32tree_insert :: "32 word \<Rightarrow> 32 word \<Rightarrow> 64 word \<Rightarrow> radix_tree \<Rightarrow> (ngx_rc \<times> radix_tree) option" where
  "ngx_radix32tree_insert key msk v t = do {
     (bt, node, nxt) \<leftarrow> insert_walk t key msk 0x80000000 (rt_root t) (rt_root t);
     if nxt \<noteq> 0 then do {
       n \<leftarrow> deref t node;
       if rn_value n \<noteq> NGX_RADIX_NO_VALUE then Some (NGX_BUSY, t)
       else do { t \<leftarrow> assign node (rn_value_update (\<lambda>_. v)) t; Some (NGX_OK, t) } }
     else do {
       (res, t) \<leftarrow> insert_grow key msk bt node t;
       (case res of
          None \<Rightarrow> Some (NGX_ERROR, t)
        | Some node \<Rightarrow> do { t \<leftarrow> assign node (rn_value_update (\<lambda>_. v)) t; Some (NGX_OK, t) }) } }"

section \<open>Deletion\<close>

function delete_walk :: "radix_tree \<Rightarrow> 32 word \<Rightarrow> 32 word \<Rightarrow> 32 word \<Rightarrow> nat \<Rightarrow> nat option" where
  "delete_walk t key msk bt node =
     (if node \<noteq> 0 \<and> bt AND msk \<noteq> 0 then
        (case deref t node of
           None \<Rightarrow> None
         | Some n \<Rightarrow> delete_walk t key msk (drop_bit 1 bt) (side key bt n))
      else Some node)"
  by pat_completeness auto
termination by (relation "measure (\<lambda>(t, key, msk, bt, node). unat bt)") (auto intro: halve_less)

declare delete_walk.simps [simp del]

partial_function (option) prune :: "nat \<Rightarrow> radix_tree \<Rightarrow> radix_tree option" where
  "prune node t = do {
     n \<leftarrow> deref t node;
     p \<leftarrow> deref t (rn_parent n);
     t \<leftarrow> (if rn_right p = node then assign (rn_parent n) (rn_right_update (\<lambda>_. 0)) t
          else assign (rn_parent n) (rn_left_update (\<lambda>_. 0)) t);
     t \<leftarrow> assign node (rn_right_update (\<lambda>_. rt_free t)) t;
     let t = t\<lparr>rt_free := node\<rparr>;
     n \<leftarrow> deref t node;
     let node = rn_parent n;
     n \<leftarrow> deref t node;
     if rn_right n \<noteq> 0 \<or> rn_left n \<noteq> 0 then Some t
     else if rn_value n \<noteq> NGX_RADIX_NO_VALUE then Some t
     else if rn_parent n = 0 then Some t
     else prune node t }"

definition ngx_radix32tree_delete :: "32 word \<Rightarrow> 32 word \<Rightarrow> radix_tree \<Rightarrow> (ngx_rc \<times> radix_tree) option" where
  "ngx_radix32tree_delete key msk t = do {
     node \<leftarrow> delete_walk t key msk 0x80000000 (rt_root t);
     if node = 0 then Some (NGX_ERROR, t)
     else do {
       n \<leftarrow> deref t node;
       if rn_right n \<noteq> 0 \<or> rn_left n \<noteq> 0 then
         (if rn_value n \<noteq> NGX_RADIX_NO_VALUE then do {
            t \<leftarrow> assign node (rn_value_update (\<lambda>_. NGX_RADIX_NO_VALUE)) t;
            Some (NGX_OK, t) }
          else Some (NGX_ERROR, t))
       else do { t \<leftarrow> prune node t; Some (NGX_OK, t) } } }"

section \<open>Search\<close>

partial_function (option) find_loop :: "radix_tree \<Rightarrow> 32 word \<Rightarrow> 32 word \<Rightarrow> 64 word \<Rightarrow> nat \<Rightarrow> 64 word option" where
  "find_loop t key bt v node =
     (if node \<noteq> 0 then do {
        n \<leftarrow> deref t node;
        let v = (if rn_value n \<noteq> NGX_RADIX_NO_VALUE then rn_value n else v);
        find_loop t key (drop_bit 1 bt) v (side key bt n) }
      else Some v)"

definition ngx_radix32tree_find :: "radix_tree \<Rightarrow> 32 word \<Rightarrow> 64 word option" where
  "ngx_radix32tree_find t key = find_loop t key 0x80000000 NGX_RADIX_NO_VALUE (rt_root t)"

section \<open>Creation\<close>

definition sizeof_radix_tree :: nat where
  "sizeof_radix_tree = 40"

text \<open>\<open>Some None\<close> is the result \<open>NULL\<close>; \<open>allocated\<close> tells whether the pool had room for the tree itself.\<close>

partial_function (option) level_loop :: "32 word \<Rightarrow> 32 word \<Rightarrow> 32 word \<Rightarrow> radix_tree \<Rightarrow> radix_tree option option" where
  "level_loop key msk inc t = do {
     (rc, t) \<leftarrow> ngx_radix32tree_insert key msk NGX_RADIX_NO_VALUE t;
     if rc \<noteq> NGX_OK then Some None
     else let key = key + inc in if key \<noteq> 0 then level_loop key msk inc t else Some (Some t) }"

partial_function (option) prealloc_loop :: "int \<Rightarrow> 32 word \<Rightarrow> 32 word \<Rightarrow> radix_tree \<Rightarrow> radix_tree option option" where
  "prealloc_loop preallocate msk inc t =
     (if preallocate \<noteq> 0 then
        let msk = drop_bit 1 msk OR 0x80000000 in do {
          r \<leftarrow> level_loop 0 msk inc t;
          (case r of
             None \<Rightarrow> Some None
           | Some t \<Rightarrow> prealloc_loop (preallocate - 1) msk (drop_bit 1 inc) t) }
      else Some (Some t))"

definition preallocate_bits :: "nat \<Rightarrow> int \<Rightarrow> int" where
  "preallocate_bits pagesize preallocate =
     (if preallocate = - 1 then
        let pages = pagesize div sizeof_radix_tree in
        if pages = 128 then 6 else if pages = 256 then 7 else 8
      else preallocate)"

definition ngx_radix_tree_create :: "bool \<Rightarrow> int \<Rightarrow> radix_tree \<Rightarrow> radix_tree option option" where
  "ngx_radix_tree_create allocated preallocate t =
     (if \<not> allocated then Some None
      else do {
        (root, t) \<leftarrow> ngx_radix_alloc (t\<lparr>rt_free := 0, rt_start := 0, rt_size := 0\<rparr>);
        let t = t\<lparr>rt_root := root\<rparr>;
        if root = 0 then Some None
        else let t = new_node root 0 t in
             if preallocate = 0 then Some (Some t)
             else prealloc_loop (preallocate_bits (rt_pagesize t) preallocate) 0 0x80000000 t })"


section \<open>Keys as lists of bits\<close>

definition key_bits :: "32 word \<Rightarrow> bool list" where
  "key_bits key = map (\<lambda>i. bit key (31 - i)) [0..<32]"

definition mask_len :: "32 word \<Rightarrow> nat" where
  "mask_len msk = length (takeWhile id (key_bits msk))"

definition key_prefix :: "32 word \<Rightarrow> 32 word \<Rightarrow> bool list" where
  "key_prefix key msk = take (mask_len msk) (key_bits key)"

definition bit_at :: "nat \<Rightarrow> 32 word" where
  "bit_at i = drop_bit i 0x80000000"

lemma length_key_bits [simp]: "length (key_bits key) = 32"
  by (simp add: key_bits_def)

lemma bit_at_steps: "0x80000000 = bit_at 0" "drop_bit (Suc 0) (bit_at i) = bit_at (Suc i)"
  by (simp_all add: bit_at_def)

lemma drop_bit_power: "i \<le> m \<Longrightarrow> m < 32 \<Longrightarrow> drop_bit i (2 ^ m :: 32 word) = 2 ^ (m - i)"
  by (intro bit_word_eqI) (auto simp: bit_simps)

lemma bit_at_exp: "i < 32 \<Longrightarrow> bit_at i = 2 ^ (31 - i)"
  using drop_bit_power [of i 31] by (simp add: bit_at_def)

lemma bit_at_end: "32 \<le> i \<Longrightarrow> bit_at i = 0"
  unfolding bit_at_def by (intro bit_word_eqI) (auto simp: bit_drop_bit_eq dest: bit_imp_le_length)

lemma and_bit_at: "key AND bit_at i \<noteq> 0 \<longleftrightarrow> i < 32 \<and> key_bits key ! i"
  by (cases "i < 32") (auto simp: bit_at_end bit_at_exp and_exp_eq_0_iff_not_bit key_bits_def)

lemma mask_len_le: "mask_len msk \<le> 32"
  using length_takeWhile_le [of id "key_bits msk"] by (simp add: mask_len_def)

lemma mask_bit:
  assumes "i \<le> mask_len msk"
  shows "bit_at i AND msk \<noteq> 0 \<longleftrightarrow> i < mask_len msk"
proof -
  have "i < 32 \<and> key_bits msk ! i \<longleftrightarrow> i < mask_len msk"
  proof (cases "i < mask_len msk")
    case True
    then have "key_bits msk ! i" unfolding mask_len_def using takeWhile_nth set_takeWhileD nth_mem by (metis id_apply)
    then show ?thesis using True mask_len_le [of msk] by simp
  next
    case False
    then show ?thesis using assms nth_length_takeWhile [of id "key_bits msk"] by (auto simp: mask_len_def)
  qed
  then show ?thesis using and_bit_at [of msk i] by (simp add: and.commute)
qed

section \<open>The invariant\<close>

text \<open>\<open>A\<close> gives the address of the node of each path.\<close>

definition adr :: "(bool list \<rightharpoonup> nat) \<Rightarrow> bool list \<Rightarrow> nat" where
  "adr A p = (case A p of None \<Rightarrow> 0 | Some a \<Rightarrow> a)"

definition node_is :: "(bool list \<rightharpoonup> nat) \<Rightarrow> bool list \<Rightarrow> rnode \<Rightarrow> bool" where
  "node_is A p n \<longleftrightarrow> rn_right n = adr A (p @ [True]) \<and> rn_left n = adr A (p @ [False]) \<and>
     rn_parent n = (if p = [] then 0 else adr A (butlast p))"

definition shape_ok :: "nat \<Rightarrow> (bool list \<rightharpoonup> nat) \<Rightarrow> bool" where
  "shape_ok root A \<longleftrightarrow> A [] = Some root \<and> (\<forall>p b. A (p @ [b]) \<noteq> None \<longrightarrow> A p \<noteq> None) \<and>
     (\<forall>p a. A p = Some a \<longrightarrow> a \<noteq> 0 \<and> length p \<le> 32) \<and> (\<forall>p q a. A p = Some a \<and> A q = Some a \<longrightarrow> p = q)"

definition links_ok :: "radix_tree \<Rightarrow> (bool list \<rightharpoonup> nat) \<Rightarrow> bool" where
  "links_ok t A \<longleftrightarrow> shape_ok (rt_root t) A \<and> (\<forall>p a. A p = Some a \<longrightarrow> (\<exists>n. rt_nodes t a = Some n \<and> node_is A p n))"

definition val :: "radix_tree \<Rightarrow> (bool list \<rightharpoonup> nat) \<Rightarrow> bool list \<Rightarrow> 64 word" where
  "val t A p = (case A p of None \<Rightarrow> NGX_RADIX_NO_VALUE | Some a \<Rightarrow> rn_value (the (rt_nodes t a)))"

fun chain :: "(nat \<rightharpoonup> rnode) \<Rightarrow> nat \<Rightarrow> nat list \<Rightarrow> bool" where
  "chain s a [] \<longleftrightarrow> a = 0"
| "chain s a (x # xs) \<longleftrightarrow> a = x \<and> x \<noteq> 0 \<and> (\<exists>n. s x = Some n \<and> chain s (rn_right n) xs)"

definition cells :: "nat \<Rightarrow> nat \<Rightarrow> nat list" where
  "cells start n = map (\<lambda>i. start + sizeof_radix_node * i) [0..<n div sizeof_radix_node]"

fun page_cells :: "nat \<Rightarrow> nat list \<Rightarrow> nat list" where
  "page_cells n [] = []"
| "page_cells n (p # ps) = (if p = 0 then [] else cells p n) @ page_cells n ps"

definition avail :: "radix_tree \<Rightarrow> nat list" where
  "avail t = cells (rt_start t) (rt_size t) @ page_cells (rt_pagesize t) (rt_pages t)"

definition spare :: "radix_tree \<Rightarrow> nat list \<Rightarrow> bool" where
  "spare t xs \<longleftrightarrow> chain (rt_nodes t) (rt_free t) xs \<and> distinct (xs @ avail t) \<and> 0 \<notin> set (avail t) \<and>
     sizeof_radix_node \<le> rt_pagesize t"

definition radix_inv :: "radix_tree \<Rightarrow> (bool list \<rightharpoonup> nat) \<Rightarrow> nat list \<Rightarrow> bool" where
  "radix_inv t A xs \<longleftrightarrow> links_ok t A \<and> spare t xs \<and> (\<forall>p a. A p = Some a \<longrightarrow> a \<notin> set (xs @ avail t))"

lemma links_okD:
  assumes "links_ok t A"
  shows "A [] = Some (rt_root t)" "A (p @ [b]) = Some c \<Longrightarrow> \<exists>a. A p = Some a"
    "A p = Some a \<Longrightarrow> a \<noteq> 0" "A p = Some a \<Longrightarrow> length p \<le> 32" "A p = Some a \<Longrightarrow> A q = Some a \<Longrightarrow> p = q"
    "A p = Some a \<Longrightarrow> \<exists>n. deref t a = Some n \<and> rt_nodes t a = Some n \<and> node_is A p n \<and> val t A p = rn_value n"
proof -
  note l = assms [unfolded links_ok_def shape_ok_def]
  show "A [] = Some (rt_root t)" using l by blast
  show "A (p @ [b]) = Some c \<Longrightarrow> \<exists>a. A p = Some a" using l by (metis option.exhaust option.distinct(1))
  show nz: "A p = Some a \<Longrightarrow> a \<noteq> 0" using l by blast
  show "A p = Some a \<Longrightarrow> length p \<le> 32" using l by blast
  show "A p = Some a \<Longrightarrow> A q = Some a \<Longrightarrow> p = q" using l by blast
  assume p: "A p = Some a"
  then obtain n where "rt_nodes t a = Some n" "node_is A p n" using l by blast
  then show "\<exists>n. deref t a = Some n \<and> rt_nodes t a = Some n \<and> node_is A p n \<and> val t A p = rn_value n"
    using p nz [OF p] by (simp add: deref_def val_def)
qed

lemma chain_cong: "(\<And>x. x \<in> set xs \<Longrightarrow> s' x = s x) \<Longrightarrow> chain s' a xs \<longleftrightarrow> chain s a xs"
  by (induction xs arbitrary: a) auto

lemma cells_step: "sizeof_radix_node \<le> n \<Longrightarrow> cells a n = a # cells (a + sizeof_radix_node) (n - sizeof_radix_node)"
proof -
  assume "sizeof_radix_node \<le> n"
  then have "n div sizeof_radix_node = Suc ((n - sizeof_radix_node) div sizeof_radix_node)"
    by (simp add: sizeof_radix_node_def le_div_geq)
  then show ?thesis
    by (simp add: cells_def upt_conv_Cons map_Suc_upt [symmetric] algebra_simps comp_def del: upt_Suc)
qed

lemma alloc_ok:
  assumes "spare t xs"
  shows "\<exists>a t' xs'. ngx_radix_alloc t = Some (a, t') \<and> rt_nodes t' = rt_nodes t \<and> rt_root t' = rt_root t \<and> spare t' xs' \<and>
     set (xs' @ avail t') \<subseteq> set (xs @ avail t) \<and> (a \<noteq> 0 \<longrightarrow> a \<in> set (xs @ avail t) \<and> a \<notin> set (xs' @ avail t'))"
proof (cases xs)
  case (Cons x ys)
  then obtain n where "rt_nodes t x = Some n" "chain (rt_nodes t) (rn_right n) ys" "rt_free t = x" "x \<noteq> 0"
    using assms by (auto simp: spare_def)
  then show ?thesis using assms Cons
    by (intro exI [of _ x] exI [of _ "t\<lparr>rt_free := rn_right n\<rparr>"] exI [of _ ys])
      (auto simp: ngx_radix_alloc_def deref_def spare_def avail_def)
next
  case Nil
  then have f: "rt_free t = 0" using assms by (simp add: spare_def)
  note sp = assms [unfolded spare_def avail_def Nil]
  show ?thesis
  proof (cases "rt_size t < sizeof_radix_node")
    case False
    then show ?thesis using sp f Nil cells_step [of "rt_size t" "rt_start t"]
      by (intro exI [of _ "rt_start t"] exI [of _ "snd (take_node t)"] exI [of _ "[]"])
        (auto simp: ngx_radix_alloc_def take_node_def spare_def avail_def)
  next
    case True
    then have none: "cells (rt_start t) (rt_size t) = []" "\<And>a. cells a (rt_size t) = []" by (simp_all add: cells_def)
    show ?thesis
    proof (cases "rt_pages t")
      case Nil
      then show ?thesis using sp f True \<open>xs = []\<close> none
        by (intro exI [of _ 0] exI [of _ "t\<lparr>rt_start := 0\<rparr>"] exI [of _ "[]"])
          (auto simp: ngx_radix_alloc_def spare_def avail_def)
    next
      case (Cons p ps)
      show ?thesis
      proof (cases "p = 0")
        case True
        then show ?thesis using sp f \<open>rt_size t < _\<close> Cons \<open>xs = []\<close> none
          by (intro exI [of _ 0] exI [of _ "t\<lparr>rt_start := 0, rt_pages := ps\<rparr>"] exI [of _ "[]"])
            (auto simp: ngx_radix_alloc_def spare_def avail_def)
      next
        case False
        let ?t = "snd (take_node (t\<lparr>rt_start := p, rt_size := rt_pagesize t, rt_pages := ps\<rparr>))"
        show ?thesis using False sp f \<open>rt_size t < _\<close> Cons \<open>xs = []\<close> none cells_step [of "rt_pagesize t" p]
          by (intro exI [of _ p] exI [of _ ?t] exI [of _ "[]"])
            (auto simp: ngx_radix_alloc_def take_node_def spare_def avail_def)
      qed
    qed
  qed
qed


lemma adr_zero: "links_ok t A \<Longrightarrow> adr A p = 0 \<longleftrightarrow> A p = None"
  by (auto simp: adr_def dest: links_okD(3) split: option.splits)

lemma adr_Some [simp]: "A p = Some a \<Longrightarrow> adr A p = a"
  by (simp add: adr_def)

lemma side_adr: "node_is A p n \<Longrightarrow> side key bt n = adr A (p @ [key AND bt \<noteq> 0])"
  by (simp add: side_def node_is_def)

lemma spare_nodes:
  assumes "spare t xs" "\<And>x. x \<in> set xs \<Longrightarrow> s x = rt_nodes t x"
  shows "spare (t\<lparr>rt_nodes := s\<rparr>) xs"
  using assms chain_cong [of xs s "rt_nodes t"] by (simp add: spare_def avail_def)

section \<open>Changes of one node\<close>

text \<open>A new value.\<close>

lemma set_value_ok:
  assumes i: "radix_inv t A xs" and a: "A p = Some a"
  shows "\<exists>t'. assign a (rn_value_update (\<lambda>_. v)) t = Some t' \<and> radix_inv t' A xs \<and> val t' A = (val t A)(p := v)"
proof -
  note l = links_okD [OF i [unfolded radix_inv_def, THEN conjunct1]]
  obtain n where n: "deref t a = Some n" "node_is A p n" using l(6) [OF a] by blast
  define t' where "t' = t\<lparr>rt_nodes := (rt_nodes t)(a \<mapsto> n\<lparr>rn_value := v\<rparr>)\<rparr>"
  have "spare t' xs" unfolding t'_def
    using i a by (intro spare_nodes) (auto simp: radix_inv_def)
  moreover have "links_ok t' A"
    unfolding links_ok_def
  proof (intro conjI allI impI)
    show "shape_ok (rt_root t') A" using i by (simp add: radix_inv_def links_ok_def t'_def)
    show "\<exists>m. rt_nodes t' d = Some m \<and> node_is A q m" if "A q = Some d" for q d
    proof (cases "d = a")
      case True
      then have "q = p" using l(5) [OF a, of q] that by simp
      then show ?thesis using True n by (simp add: t'_def node_is_def)
    next
      case False
      then show ?thesis using l(6) [OF that] by (auto simp: t'_def)
    qed
  qed
  moreover have "val t' A q = ((val t A)(p := v)) q" for q
  proof (cases "q = p")
    case False
    then have "A q \<noteq> Some a" using l(5) [OF a, of q] by metis
    then show ?thesis using False by (cases "A q") (auto simp: val_def t'_def)
  qed (simp add: val_def t'_def a)
  then have "val t' A = (val t A)(p := v)" by blast
  moreover have "assign a (rn_value_update (\<lambda>_. v)) t = Some t'" using n by (simp add: assign_def t'_def)
  moreover have "avail t' = avail t" by (simp add: t'_def avail_def)
  ultimately show ?thesis using i by (auto simp: radix_inv_def)
qed

text \<open>A new child.\<close>

lemma attach_ok:
  assumes i: "radix_inv t A xs" and p: "A p = Some c" and none: "A (p @ [b]) = None" and len: "length p < 32"
    and a: "a \<noteq> 0" "a \<notin> set (xs @ avail t)" "\<And>q. A q \<noteq> Some a" and b: "b = (key AND bt \<noteq> 0)"
  shows "\<exists>t'. assign c (set_side key bt a) (new_node a c t) = Some t' \<and> radix_inv t' (A(p @ [b] \<mapsto> a)) xs \<and>
     val t' (A(p @ [b] \<mapsto> a)) = val t A"
proof -
  let ?A = "A(p @ [b] \<mapsto> a)"
  have lk: "links_ok t A" using i by (simp add: radix_inv_def)
  note l = links_okD [OF lk]
  obtain n where n: "rt_nodes t c = Some n" "node_is A p n" "val t A p = rn_value n" "c \<noteq> 0"
    using l(6) [OF p] l(3) [OF p] by (auto simp: deref_def)
  have ca: "c \<noteq> a" using a(3) p by blast
  define t' where "t' = t\<lparr>rt_nodes := (rt_nodes t)(a \<mapsto> \<lparr>rn_right = 0, rn_left = 0, rn_parent = c, rn_value = NGX_RADIX_NO_VALUE\<rparr>,
       c \<mapsto> set_side key bt a n)\<rparr>"
  have up: "A (p @ b # q) = None" for q
  proof (induction q rule: rev_induct)
    case (snoc x q)
    then show ?case using l(2) [of "p @ b # q" x] by (cases "A (p @ b # q @ [x])") auto
  qed (use none in simp)
  have at: "rt_nodes t' x = (if x = c then Some (set_side key bt a n)
      else if x = a then Some \<lparr>rn_right = 0, rn_left = 0, rn_parent = c, rn_value = NGX_RADIX_NO_VALUE\<rparr> else rt_nodes t x)" for x
    by (simp add: t'_def)
  have child: "adr ?A (q @ [x]) = (if q = p \<and> x = b then a else adr A (q @ [x]))" for q x
    by (auto simp: adr_def)
  have nodes: "\<exists>m. rt_nodes t' d = Some m \<and> node_is ?A q m \<and> rn_value m = val t A q" if q: "?A q = Some d" for q d
  proof -
    consider "q = p @ [b]" | "q = p" | "q \<noteq> p" "q \<noteq> p @ [b]" "A q = Some d" using q by (auto split: if_splits)
    then show ?thesis
    proof cases
      case 1
      then show ?thesis using q ca up [of "[True]"] up [of "[False]"] up [of "[]"] p
        by (auto simp: at node_is_def child val_def adr_def)
    next
      case 2
      then have "d = c" using q p by simp
      moreover have "adr ?A (butlast p) = adr A (butlast p)"
        by (cases p rule: rev_cases) (auto simp: adr_def)
      ultimately show ?thesis using n 2 b child [of p True] child [of p False]
        by (cases "key AND bt \<noteq> 0") (auto simp: at node_is_def set_side_def)
    next
      case 3
      have "butlast q \<noteq> p @ [b] \<or> q = []"
        using 3 none l(2) [of "butlast q" "last q" d] by (metis append_butlast_last_id option.distinct(1))
      moreover have "d \<noteq> c" "d \<noteq> a" using 3 l(5) [OF p] a(3) by blast+
      moreover obtain m where "rt_nodes t d = Some m" "node_is A q m" "val t A q = rn_value m"
        using l(6) [OF 3(3)] by blast
      ultimately show ?thesis using 3(1) child [of q True] child [of q False] by (auto simp: at node_is_def adr_def)
    qed
  qed
  have links: "links_ok t' ?A"
    unfolding links_ok_def shape_ok_def
  proof (intro conjI allI impI)
    show "?A [] = Some (rt_root t')" using l(1) by (simp add: t'_def)
    show "?A q \<noteq> None" if "?A (q @ [x]) \<noteq> None" for q x
      using that l(2) [of q x] p by (auto split: if_splits)
    show "d \<noteq> 0" "length q \<le> 32" if "?A q = Some d" for q d
      using that l(3,4) [of q d] a(1) len by (auto split: if_splits)
    show "q = r" if "?A q = Some d \<and> ?A r = Some d" for q r d
      using that l(5) [of q d r] a(3) by (auto split: if_splits)
    show "\<exists>m. rt_nodes t' d = Some m \<and> node_is ?A q m" if "?A q = Some d" for q d
      using nodes [OF that] by blast
  qed
  have "val t' ?A q = val t A q" for q
  proof (cases "?A q")
    case None
    then show ?thesis by (auto simp: val_def split: if_splits)
  next
    case (Some d)
    then show ?thesis using nodes [OF Some] by (auto simp: val_def)
  qed
  then have "val t' ?A = val t A" by blast
  moreover have "spare t' xs" unfolding t'_def
    using i p a by (intro spare_nodes) (auto simp: radix_inv_def)
  moreover have "avail t' = avail t" by (simp add: t'_def avail_def)
  moreover have "assign c (set_side key bt a) (new_node a c t) = Some t'"
    using n ca by (simp add: assign_def new_node_def deref_def t'_def)
  ultimately show ?thesis using i links a by (auto simp: radix_inv_def)
qed


text \<open>A leaf goes away: its parent forgets it and the free list gets it.\<close>

lemma unlink_ok:
  assumes i: "radix_inv t A xs" and p: "A (p @ [b]) = Some a" "A p = Some c" and leaf: "\<And>x. A (p @ [b, x]) = None"
  shows "\<exists>t1 t2. (if rn_right (the (rt_nodes t c)) = a then assign c (rn_right_update (\<lambda>_. 0)) t
          else assign c (rn_left_update (\<lambda>_. 0)) t) = Some t1 \<and>
     assign a (rn_right_update (\<lambda>_. rt_free t1)) t1 = Some t2 \<and>
     deref (t2\<lparr>rt_free := a\<rparr>) a \<noteq> None \<and> rn_parent (the (deref (t2\<lparr>rt_free := a\<rparr>) a)) = c \<and>
     radix_inv (t2\<lparr>rt_free := a\<rparr>) (A(p @ [b] := None)) (a # xs) \<and>
     val (t2\<lparr>rt_free := a\<rparr>) (A(p @ [b] := None)) = (val t A)(p @ [b] := NGX_RADIX_NO_VALUE)"
proof -
  let ?A = "A(p @ [b] := None)"
  have lk: "links_ok t A" and sp: "spare t xs" using i by (simp_all add: radix_inv_def)
  note l = links_okD [OF lk]
  obtain n where n: "deref t c = Some n" "rt_nodes t c = Some n" "node_is A p n" "val t A p = rn_value n"
    using l(6) [OF p(2)] by blast
  obtain m where m: "deref t a = Some m" "rt_nodes t a = Some m" "node_is A (p @ [b]) m"
    using l(6) [OF p(1)] by blast
  have ca: "c \<noteq> a" using l(5) [OF p(2), of "p @ [b]"] p(1) by auto
  have nz: "a \<noteq> 0" "c \<noteq> 0" using l(3) p by blast+
  have b: "rn_right n = a \<longleftrightarrow> b"
  proof (cases b)
    case False
    then have "adr A (p @ [True]) \<noteq> a" using l(5) [OF p(1), of "p @ [True]"] nz by (auto simp: adr_def split: option.splits)
    then show ?thesis using n False by (simp add: node_is_def)
  qed (use n p in \<open>simp add: node_is_def\<close>)
  define n' where "n' = (if b then n\<lparr>rn_right := 0\<rparr> else n\<lparr>rn_left := 0\<rparr>)"
  define t2 where "t2 = t\<lparr>rt_nodes := (rt_nodes t)(c \<mapsto> n', a \<mapsto> m\<lparr>rn_right := rt_free t\<rparr>), rt_free := a\<rparr>"
  have at: "rt_nodes t2 x = (if x = a then Some (m\<lparr>rn_right := rt_free t\<rparr>) else if x = c then Some n' else rt_nodes t x)" for x
    by (simp add: t2_def)
  have none: "adr ?A (q @ [x]) = (if q = p \<and> x = b then 0 else adr A (q @ [x]))" for q x
    by (auto simp: adr_def)
  have nodes: "\<exists>k. rt_nodes t2 d = Some k \<and> node_is ?A q k \<and> rn_value k = val t A q" if q: "?A q = Some d" for q d
  proof -
    have q': "q \<noteq> p @ [b]" "A q = Some d" using q by (auto split: if_splits)
    obtain k where k: "rt_nodes t d = Some k" "node_is A q k" "val t A q = rn_value k" using l(6) [OF q'(2)] by blast
    have "d \<noteq> a" using l(5) [OF p(1), of q] q' by metis
    have par: "q \<noteq> [] \<Longrightarrow> adr ?A (butlast q) = adr A (butlast q)"
      using leaf [of "last q"] q' append_butlast_last_id [of q] by (cases "butlast q = p @ [b]") (auto simp: adr_def)
    show ?thesis
    proof (cases "q = p")
      case True
      then have "d = c" using q' p by simp
      then show ?thesis using \<open>d \<noteq> a\<close> n True k par none [of p True] none [of p False]
        by (cases b) (auto simp: at node_is_def n'_def)
    next
      case False
      then have "d \<noteq> c" using l(5) [OF p(2), of q] q' by metis
      then show ?thesis using \<open>d \<noteq> a\<close> k par False none [of q True] none [of q False] by (auto simp: at node_is_def)
    qed
  qed
  have links: "links_ok t2 ?A"
    unfolding links_ok_def shape_ok_def
  proof (intro conjI allI impI)
    show "?A [] = Some (rt_root t2)" using l(1) by (simp add: t2_def)
    show "?A q \<noteq> None" if h: "?A (q @ [x]) \<noteq> None" for q x
      using h l(2) [of q x] leaf by (auto split: if_splits)
    show "d \<noteq> 0" "length q \<le> 32" if "?A q = Some d" for q d
      using that l(3,4) [of q d] by (auto split: if_splits)
    show "q = r" if "?A q = Some d \<and> ?A r = Some d" for q r d
      using that l(5) [of q d r] by (auto split: if_splits)
    show "\<exists>m. rt_nodes t2 d = Some m \<and> node_is ?A q m" if "?A q = Some d" for q d
      using nodes [OF that] by blast
  qed
  have "val t2 ?A q = ((val t A)(p @ [b] := NGX_RADIX_NO_VALUE)) q" for q
  proof (cases "?A q")
    case None
    then show ?thesis by (auto simp: val_def split: if_splits)
  next
    case (Some d)
    then have "q \<noteq> p @ [b]" by (auto split: if_splits)
    then show ?thesis using nodes [OF Some] Some by (auto simp: val_def)
  qed
  then have v: "val t2 ?A = (val t A)(p @ [b] := NGX_RADIX_NO_VALUE)" by blast
  have fresh: "a \<notin> set (xs @ avail t)" "c \<notin> set (xs @ avail t)" using i p by (auto simp: radix_inv_def)
  have "chain (rt_nodes t2) (rt_free t) xs \<longleftrightarrow> chain (rt_nodes t) (rt_free t) xs"
    by (rule chain_cong) (use fresh in \<open>auto simp: at\<close>)
  then have "chain (rt_nodes t2) (rt_free t) xs" using sp by (simp add: spare_def)
  then have "spare t2 (a # xs)" using sp fresh nz by (auto simp: spare_def at avail_def t2_def)
  moreover have "avail t2 = avail t" by (simp add: t2_def avail_def)
  ultimately have inv: "radix_inv t2 ?A (a # xs)"
    using i links l(5) [OF p(1)] by (auto simp: radix_inv_def split: if_splits)
  define t1 where "t1 = t\<lparr>rt_nodes := (rt_nodes t)(c \<mapsto> n')\<rparr>"
  have 1: "(if rn_right (the (rt_nodes t c)) = a then assign c (rn_right_update (\<lambda>_. 0)) t
          else assign c (rn_left_update (\<lambda>_. 0)) t) = Some t1"
    using n b by (auto simp: assign_def t1_def n'_def)
  define t2' where "t2' = t\<lparr>rt_nodes := (rt_nodes t)(c \<mapsto> n', a \<mapsto> m\<lparr>rn_right := rt_free t\<rparr>)\<rparr>"
  have 2: "assign a (rn_right_update (\<lambda>_. rt_free t1)) t1 = Some t2'"
    using m nz ca by (simp add: assign_def t1_def t2'_def deref_def)
  have 3: "t2'\<lparr>rt_free := a\<rparr> = t2" by (simp add: t2_def t2'_def)
  have 4: "deref t2 a \<noteq> None \<and> rn_parent (the (deref t2 a)) = c"
    using nz m p(2) by (simp add: deref_def at node_is_def)
  show ?thesis
    by (intro exI [of _ t1] exI [of _ t2']) (simp only: 1 2 3 4 inv v simp_thms)
qed

lemma prune_ok:
  assumes "radix_inv t A xs" "A p = Some a" "p \<noteq> []" "\<And>x. A (p @ [x]) = None"
  shows "\<exists>t' A' xs'. prune a t = Some t' \<and> radix_inv t' A' xs' \<and> val t' A' = (val t A)(p := NGX_RADIX_NO_VALUE)"
  using assms
proof (induction p arbitrary: t A xs a rule: rev_induct)
  case (snoc b p)
  have lk: "links_ok t A" using snoc.prems(1) by (simp add: radix_inv_def)
  note l = links_okD [OF lk]
  obtain c where c: "A p = Some c" using l(2) snoc.prems(2) by blast
  obtain n where n: "deref t a = Some n" "rn_parent n = c"
    using l(6) [OF snoc.prems(2)] c by (auto simp: node_is_def)
  obtain m where m: "deref t c = Some m" "rt_nodes t c = Some m" using l(6) [OF c] by blast
  let ?A = "A(p @ [b] := None)"
  obtain t1 t2 where t1: "(if rn_right m = a then assign c (rn_right_update (\<lambda>_. 0)) t
          else assign c (rn_left_update (\<lambda>_. 0)) t) = Some t1"
    and t2: "assign a (rn_right_update (\<lambda>_. rt_free t1)) t1 = Some t2"
    and d: "deref (t2\<lparr>rt_free := a\<rparr>) a \<noteq> None" "rn_parent (the (deref (t2\<lparr>rt_free := a\<rparr>) a)) = c"
    and inv: "radix_inv (t2\<lparr>rt_free := a\<rparr>) ?A (a # xs)"
    and v: "val (t2\<lparr>rt_free := a\<rparr>) ?A = (val t A)(p @ [b] := NGX_RADIX_NO_VALUE)"
    using unlink_ok [OF snoc.prems(1,2) c] snoc.prems(4) m(2) by auto
  let ?t = "t2\<lparr>rt_free := a\<rparr>"
  have lk': "links_ok ?t ?A" using inv by (simp add: radix_inv_def)
  have c': "?A p = Some c" using c by simp
  obtain k where k: "deref ?t c = Some k" "node_is ?A p k" "val ?t ?A p = rn_value k"
    using links_okD(6) [OF lk' c'] by blast
  have step: "prune a t = (if rn_right k \<noteq> 0 \<or> rn_left k \<noteq> 0 then Some ?t
     else if rn_value k \<noteq> NGX_RADIX_NO_VALUE then Some ?t else if rn_parent k = 0 then Some ?t else prune c ?t)"
    by (subst prune.simps) (use n m t1 t2 d k in auto)
  show ?case
  proof (cases "rn_right k = 0 \<and> rn_left k = 0 \<and> rn_value k = NGX_RADIX_NO_VALUE \<and> rn_parent k \<noteq> 0")
    case False
    then have "prune a t = Some ?t" using step by auto
    then show ?thesis using inv v by blast
  next
    case True
    then have "p \<noteq> []" "?A (p @ [x]) = None" for x
      using k(2) adr_zero [OF lk', of "p @ [x]"] by (cases x; auto simp: node_is_def)+
    from snoc.IH [OF inv c' this]
    obtain t' A' xs' where "prune c ?t = Some t'" "radix_inv t' A' xs'" "val t' A' = (val ?t ?A)(p := NGX_RADIX_NO_VALUE)"
      by blast
    moreover have "(val ?t ?A)(p := NGX_RADIX_NO_VALUE) = val ?t ?A" using True k(3) by auto
    moreover have "prune a t = prune c ?t" using step True by simp
    ultimately show ?thesis using v by (metis)
  qed
qed simp

section \<open>The walks\<close>

lemma take_next: "j < 32 \<Longrightarrow> take (Suc j) (key_bits key) = take j (key_bits key) @ [key AND bit_at j \<noteq> 0]"
  by (simp add: take_Suc_conv_app_nth and_bit_at)

lemma insert_walk_ok:
  assumes "links_ok t A" "A (take i (key_bits key)) = Some a" "i \<le> mask_len msk"
  shows "\<exists>j c nxt. insert_walk t key msk (bit_at i) a a = Some (bit_at j, c, nxt) \<and> j \<le> mask_len msk \<and>
     A (take j (key_bits key)) = Some c \<and>
     (if nxt = 0 then j < mask_len msk \<and> A (take (Suc j) (key_bits key)) = None else j = mask_len msk)"
  using assms
proof (induction "mask_len msk - i" arbitrary: i a)
  case 0
  then show ?case using mask_bit [of i msk] links_okD(3) [OF 0(2,3)]
    by (intro exI [of _ i] exI [of _ a]) (auto simp: insert_walk.simps [of t key msk "bit_at i"])
next
  case (Suc x)
  note lk = Suc.prems(1)
  have i: "i < mask_len msk" "i < 32" using Suc.hyps(2) mask_len_le [of msk] by auto
  have b: "bit_at i AND msk \<noteq> 0" using mask_bit [of i msk] i by simp
  obtain n where n: "deref t a = Some n" "node_is A (take i (key_bits key)) n"
    using links_okD(6) [OF lk Suc.prems(2)] by blast
  have sd: "side key (bit_at i) n = adr A (take (Suc i) (key_bits key))"
    using side_adr [OF n(2)] take_next [OF i(2)] by simp
  show ?case
  proof (cases "A (take (Suc i) (key_bits key))")
    case None
    then have "insert_walk t key msk (bit_at i) a a = Some (bit_at i, a, 0)"
      using b n sd by (subst insert_walk.simps) (simp add: adr_def)
    then show ?thesis using None i Suc.prems by auto
  next
    case (Some c)
    have "insert_walk t key msk (bit_at i) a a = insert_walk t key msk (bit_at (Suc i)) c c"
      using b n sd Some links_okD(3) [OF lk Some] by (subst insert_walk.simps) (simp add: bit_at_steps)
    then show ?thesis using Suc.hyps(1) [of "Suc i" c] Suc.hyps(2) lk Some i by auto
  qed
qed

lemma delete_walk_ok:
  assumes "links_ok t A" "i \<le> mask_len msk"
  shows "delete_walk t key msk (bit_at i) (adr A (take i (key_bits key))) = Some (adr A (take (mask_len msk) (key_bits key)))"
  using assms
proof (induction "mask_len msk - i" arbitrary: i)
  case 0
  then show ?case using mask_bit [of i msk] by (subst delete_walk.simps) auto
next
  case (Suc x)
  note lk = Suc.prems(1)
  have i: "i < mask_len msk" "i < 32" using Suc.hyps(2) mask_len_le [of msk] by auto
  have b: "bit_at i AND msk \<noteq> 0" using mask_bit [of i msk] i by simp
  have IH: "delete_walk t key msk (bit_at (Suc i)) (adr A (take (Suc i) (key_bits key))) = Some (adr A (take (mask_len msk) (key_bits key)))"
    using Suc.hyps(1) [of "Suc i"] Suc.hyps(2) lk i by simp
  show ?case
  proof (cases "A (take i (key_bits key))")
    case None
    have up: "A (take (i + k) (key_bits key)) = None" if "i + k \<le> 32" for k
      using that
    proof (induction k)
      case (Suc k)
      then show ?case using links_okD(2) [OF lk, of "take (i + k) (key_bits key)"] take_next [of "i + k" key]
        by (cases "A (take (Suc (i + k)) (key_bits key))") auto
    qed (simp add: None)
    have "A (take (mask_len msk) (key_bits key)) = None"
      using up [of "mask_len msk - i"] i mask_len_le [of msk] by simp
    then show ?thesis using None by (subst delete_walk.simps) (simp add: adr_def)
  next
    case (Some a)
    obtain n where n: "deref t a = Some n" "node_is A (take i (key_bits key)) n"
      using links_okD(6) [OF lk Some] by blast
    have "side key (bit_at i) n = adr A (take (Suc i) (key_bits key))"
      using side_adr [OF n(2)] take_next [OF i(2)] by simp
    then show ?thesis using IH b n Some links_okD(3) [OF lk Some]
      by (subst delete_walk.simps) (simp add: bit_at_steps)
  qed
qed

lemma insert_grow_ok:
  assumes "radix_inv t A xs" "A (take j (key_bits key)) = Some c" "j \<le> mask_len msk"
    and "j < mask_len msk \<Longrightarrow> A (take (Suc j) (key_bits key)) = None"
  shows "\<exists>r t' A' xs'. insert_grow key msk (bit_at j) c t = Some (r, t') \<and> radix_inv t' A' xs' \<and> val t' A' = val t A \<and>
     (\<forall>d. r = Some d \<longrightarrow> A' (take (mask_len msk) (key_bits key)) = Some d)"
  using assms
proof (induction "mask_len msk - j" arbitrary: j c t A xs)
  case 0
  have "insert_grow key msk (bit_at j) c t = Some (Some c, t)"
    using 0 mask_bit [of j msk] by (subst insert_grow.simps) simp
  moreover have "j = mask_len msk" using 0 by simp
  ultimately show ?case using 0 by auto
next
  case (Suc x)
  let ?p = "take j (key_bits key)"
  have j: "j < mask_len msk" "j < 32" using Suc.hyps(2) mask_len_le [of msk] by auto
  have b: "bit_at j AND msk \<noteq> 0" using mask_bit [of j msk] j by simp
  have sp: "spare t xs" using Suc.prems(1) by (simp add: radix_inv_def)
  obtain a t1 xs1 where al: "ngx_radix_alloc t = Some (a, t1)" "rt_nodes t1 = rt_nodes t" "rt_root t1 = rt_root t"
      "spare t1 xs1" "set (xs1 @ avail t1) \<subseteq> set (xs @ avail t)"
      "a \<noteq> 0 \<Longrightarrow> a \<in> set (xs @ avail t) \<and> a \<notin> set (xs1 @ avail t1)"
    using alloc_ok [OF sp] by blast
  have i1: "radix_inv t1 A xs1" "val t1 A = val t A"
    using Suc.prems(1) al by (auto simp: radix_inv_def links_ok_def val_def fun_eq_iff split: option.splits)
  show ?case
  proof (cases "a = 0")
    case True
    then have "insert_grow key msk (bit_at j) c t = Some (None, t1)" using b al by (subst insert_grow.simps) simp
    then show ?thesis using i1 by auto
  next
    case False
    then have fresh: "a \<notin> set (xs1 @ avail t1)" "\<And>q. A q \<noteq> Some a"
      using al(6) Suc.prems(1) by (auto simp: radix_inv_def)
    let ?b = "key AND bit_at j \<noteq> 0"
    have nx: "take (Suc j) (key_bits key) = ?p @ [?b]" by (rule take_next [OF j(2)])
    have none: "A (?p @ [?b]) = None" using Suc.prems(4) j nx by simp
    obtain t2 where t2: "assign c (set_side key (bit_at j) a) (new_node a c t1) = Some t2"
        "radix_inv t2 (A(?p @ [?b] \<mapsto> a)) xs1" "val t2 (A(?p @ [?b] \<mapsto> a)) = val t1 A"
      using attach_ok [OF i1(1) Suc.prems(2) none _ False fresh refl] j by auto
    have "(A(?p @ [?b] \<mapsto> a)) (take (Suc (Suc j)) (key_bits key)) = None" if "Suc j < mask_len msk"
    proof -
      have "Suc j < 32" using that mask_len_le [of msk] by simp
      then have e: "take (Suc (Suc j)) (key_bits key) = (?p @ [?b]) @ [key AND bit_at (Suc j) \<noteq> 0]"
        using take_next [of "Suc j" key] nx by simp
      have "links_ok t A" using Suc.prems(1) by (simp add: radix_inv_def)
      from links_okD(2) [OF this, of "?p @ [?b]"] none show ?thesis
        unfolding e by (cases "A ((?p @ [?b]) @ [key AND bit_at (Suc j) \<noteq> 0])") auto
    qed
    note deeper = this
    have x: "x = mask_len msk - Suc j" and jj: "Suc j \<le> mask_len msk" using Suc.hyps(2) j by auto
    have A2: "(A(?p @ [?b] \<mapsto> a)) (take (Suc j) (key_bits key)) = Some a" by (simp add: nx)
    from Suc.hyps(1) [OF x t2(2) A2 jj deeper]
    obtain r t' A' xs' where r: "insert_grow key msk (bit_at (Suc j)) a t2 = Some (r, t')" "radix_inv t' A' xs'"
        "val t' A' = val t2 (A(?p @ [?b] \<mapsto> a))" "\<forall>d. r = Some d \<longrightarrow> A' (take (mask_len msk) (key_bits key)) = Some d"
      by blast
    have "insert_grow key msk (bit_at j) c t = Some (r, t')"
      using r(1) b al False t2(1) by (subst insert_grow.simps) (simp add: bit_at_steps)
    then show ?thesis using r t2 i1 by metis
  qed
qed


section \<open>The routing table of a tree\<close>

text \<open>The table is read off the tree: the value of the node that a path leads to, if it has one.\<close>

definition child :: "radix_tree \<Rightarrow> nat \<Rightarrow> bool \<Rightarrow> nat" where
  "child t a b = (case deref t a of None \<Rightarrow> 0 | Some n \<Rightarrow> if b then rn_right n else rn_left n)"

definition node_at :: "radix_tree \<Rightarrow> bool list \<Rightarrow> nat" where
  "node_at t p = foldl (child t) (rt_root t) p"

definition opt_value :: "64 word \<Rightarrow> 64 word option" where
  "opt_value v = (if v = NGX_RADIX_NO_VALUE then None else Some v)"

definition table :: "radix_tree \<Rightarrow> bool list \<rightharpoonup> 64 word" where
  "table t p = (case deref t (node_at t p) of None \<Rightarrow> None | Some n \<Rightarrow> opt_value (rn_value n))"

definition radix_ok :: "radix_tree \<Rightarrow> bool" where
  "radix_ok t \<longleftrightarrow> (\<exists>A xs. radix_inv t A xs)"

definition longest_match :: "(bool list \<rightharpoonup> 64 word) \<Rightarrow> bool list \<Rightarrow> 64 word" where
  "longest_match m bs =
     (case filter (\<lambda>i. m (take i bs) \<noteq> None) (rev [0..<Suc (length bs)]) of
        [] \<Rightarrow> NGX_RADIX_NO_VALUE | i # _ \<Rightarrow> the (m (take i bs)))"

lemma node_at_ok:
  assumes "links_ok t A"
  shows "node_at t p = adr A p"
proof (induction p rule: rev_induct)
  case (snoc b p)
  show ?case
  proof (cases "A p")
    case None
    then have "A (p @ [b]) = None" using links_okD(2) [OF assms, of p b] by (cases "A (p @ [b])") auto
    then show ?thesis using snoc None by (simp add: node_at_def child_def deref_def adr_def)
  next
    case (Some a)
    obtain n where "deref t a = Some n" "node_is A p n" using links_okD(6) [OF assms Some] by blast
    then show ?thesis using snoc Some by (simp add: node_at_def child_def node_is_def)
  qed
qed (use links_okD(1) [OF assms] in \<open>simp add: node_at_def\<close>)

lemma table_ok: "links_ok t A \<Longrightarrow> table t p = opt_value (val t A p)"
  using links_okD(6) [of t A p]
  by (cases "A p") (auto simp: table_def node_at_ok adr_def val_def deref_def opt_value_def)

lemma val_none: "links_ok t A \<Longrightarrow> A p = None \<Longrightarrow> val t A p = NGX_RADIX_NO_VALUE"
  by (simp add: val_def)

section \<open>Each operation\<close>

lemma insert_ok:
  assumes "radix_ok t"
  shows "\<exists>rc t'. ngx_radix32tree_insert key msk v t = Some (rc, t') \<and> radix_ok t' \<and> rc \<in> {NGX_OK, NGX_BUSY, NGX_ERROR} \<and>
     (rc = NGX_BUSY \<longleftrightarrow> table t (key_prefix key msk) \<noteq> None) \<and>
     table t' = (if rc = NGX_OK then (table t)(key_prefix key msk := opt_value v) else table t)"
proof -
  obtain A xs where i: "radix_inv t A xs" using assms by (auto simp: radix_ok_def)
  then have lk: "links_ok t A" by (simp add: radix_inv_def)
  have tab: "table t = (\<lambda>p. opt_value (val t A p))" using table_ok [OF lk] by blast
  let ?p = "key_prefix key msk"
  have r: "A (take 0 (key_bits key)) = Some (rt_root t)" using links_okD(1) [OF lk] by simp
  obtain j c nxt where w: "insert_walk t key msk (bit_at 0) (rt_root t) (rt_root t) = Some (bit_at j, c, nxt)"
      "j \<le> mask_len msk" "A (take j (key_bits key)) = Some c"
      "if nxt = 0 then j < mask_len msk \<and> A (take (Suc j) (key_bits key)) = None else j = mask_len msk"
    using insert_walk_ok [OF lk r, of msk] by auto
  show ?thesis
  proof (cases "nxt = 0")
    case False
    then have c: "A ?p = Some c" using w by (simp add: key_prefix_def)
    obtain n where n: "deref t c = Some n" "val t A ?p = rn_value n" using links_okD(6) [OF lk c] by blast
    obtain t' where t': "assign c (rn_value_update (\<lambda>_. v)) t = Some t'" "radix_inv t' A xs" "val t' A = (val t A)(?p := v)"
      using set_value_ok [OF i c] by blast
    have lk': "links_ok t' A" using t' by (simp add: radix_inv_def)
    have tab': "table t' = (table t)(?p := opt_value v)"
      using table_ok [OF lk'] t'(3) tab by (auto simp: fun_eq_iff)
    show ?thesis
    proof (cases "rn_value n = NGX_RADIX_NO_VALUE")
      case True
      then have "ngx_radix32tree_insert key msk v t = Some (NGX_OK, t')"
        using w n t' False by (simp add: ngx_radix32tree_insert_def bit_at_steps(1))
      then show ?thesis using t'(2) tab' True n tab by (auto simp: radix_ok_def opt_value_def)
    next
      case busy: False
      then have "ngx_radix32tree_insert key msk v t = Some (NGX_BUSY, t)"
        using w n False by (simp add: ngx_radix32tree_insert_def bit_at_steps(1))
      then show ?thesis using assms busy n tab by (auto simp: opt_value_def)
    qed
  next
    case True
    then have j: "j < mask_len msk" "A (take (Suc j) (key_bits key)) = None" using w by auto
    obtain res t1 A1 xs1 where g: "insert_grow key msk (bit_at j) c t = Some (res, t1)" "radix_inv t1 A1 xs1" "val t1 A1 = val t A"
        "\<forall>d. res = Some d \<longrightarrow> A1 ?p = Some d"
      using insert_grow_ok [OF i w(3,2)] j by (auto simp: key_prefix_def)
    have lk1: "links_ok t1 A1" using g by (simp add: radix_inv_def)
    have t1: "table t1 = table t" using table_ok [OF lk1] g(3) tab by (simp add: fun_eq_iff)
    have "delete_walk t key msk (bit_at (Suc j)) (adr A (take (Suc j) (key_bits key))) = Some (adr A ?p)"
      using delete_walk_ok [OF lk, of "Suc j" msk key] j by (simp add: key_prefix_def)
    moreover have "adr A (take (Suc j) (key_bits key)) = 0" using j by (simp add: adr_def)
    ultimately have "adr A ?p = 0" by (subst (asm) delete_walk.simps) simp
    then have none: "table t ?p = None" using adr_zero [OF lk] val_none [OF lk] tab by (simp add: opt_value_def)
    show ?thesis
    proof (cases res)
      case None
      then have "ngx_radix32tree_insert key msk v t = Some (NGX_ERROR, t1)"
        using w True g by (simp add: ngx_radix32tree_insert_def bit_at_steps(1))
      then show ?thesis using g(2) t1 none by (auto simp: radix_ok_def)
    next
      case (Some d)
      then have d: "A1 ?p = Some d" using g by simp
      obtain t' where t': "assign d (rn_value_update (\<lambda>_. v)) t1 = Some t'" "radix_inv t' A1 xs1" "val t' A1 = (val t1 A1)(?p := v)"
        using set_value_ok [OF g(2) d] by blast
      have lk': "links_ok t' A1" using t' by (simp add: radix_inv_def)
      have tab': "table t' = (table t)(?p := opt_value v)"
        using table_ok [OF lk'] t'(3) g(3) tab by (auto simp: fun_eq_iff)
      have "ngx_radix32tree_insert key msk v t = Some (NGX_OK, t')"
        using w True g(1) Some t' by (simp add: ngx_radix32tree_insert_def bit_at_steps(1))
      then show ?thesis using t'(2) tab' none by (auto simp: radix_ok_def)
    qed
  qed
qed

text \<open>The root goes away only with \<open>NULL\<close> for a parent: it must keep a child.\<close>

definition deletable :: "radix_tree \<Rightarrow> bool list \<Rightarrow> bool" where
  "deletable t p \<longleftrightarrow> p \<noteq> [] \<or> child t (rt_root t) True \<noteq> 0 \<or> child t (rt_root t) False \<noteq> 0"

lemma delete_ok:
  assumes "radix_ok t" and del: "deletable t (key_prefix key msk)"
  shows "\<exists>rc t'. ngx_radix32tree_delete key msk t = Some (rc, t') \<and> radix_ok t' \<and> rc \<in> {NGX_OK, NGX_ERROR} \<and>
     (table t (key_prefix key msk) \<noteq> None \<longrightarrow> rc = NGX_OK) \<and> table t' = (table t)(key_prefix key msk := None)"
proof -
  obtain A xs where i: "radix_inv t A xs" using assms by (auto simp: radix_ok_def)
  then have lk: "links_ok t A" by (simp add: radix_inv_def)
  have tab: "table t = (\<lambda>p. opt_value (val t A p))" using table_ok [OF lk] by blast
  let ?p = "key_prefix key msk"
  have "adr A [] = rt_root t" using links_okD(1) [OF lk] by simp
  then have w: "delete_walk t key msk 0x80000000 (rt_root t) = Some (adr A ?p)"
    using delete_walk_ok [OF lk, of 0 msk key] by (simp add: key_prefix_def bit_at_steps(1))
  have gone: "table t = (table t)(?p := None)" if "val t A ?p = NGX_RADIX_NO_VALUE"
    using that tab by (auto simp: fun_eq_iff opt_value_def)
  show ?thesis
  proof (cases "A ?p")
    case None
    then have "ngx_radix32tree_delete key msk t = Some (NGX_ERROR, t)" using w by (simp add: ngx_radix32tree_delete_def adr_def)
    moreover have "val t A ?p = NGX_RADIX_NO_VALUE" using val_none [OF lk None] .
    ultimately show ?thesis using assms gone by (auto simp: tab opt_value_def)
  next
    case (Some a)
    obtain n where n: "deref t a = Some n" "node_is A ?p n" "val t A ?p = rn_value n" using links_okD(6) [OF lk Some] by blast
    note nz = links_okD(3) [OF lk Some]
    show ?thesis
    proof (cases "rn_right n \<noteq> 0 \<or> rn_left n \<noteq> 0")
      case inner: True
      show ?thesis
      proof (cases "rn_value n = NGX_RADIX_NO_VALUE")
        case True
        then have "ngx_radix32tree_delete key msk t = Some (NGX_ERROR, t)"
          using w n nz inner Some by (simp add: ngx_radix32tree_delete_def)
        then show ?thesis using assms(1) gone True n by (auto simp: tab opt_value_def)
      next
        case False
        obtain t' where t': "assign a (rn_value_update (\<lambda>_. NGX_RADIX_NO_VALUE)) t = Some t'" "radix_inv t' A xs"
            "val t' A = (val t A)(?p := NGX_RADIX_NO_VALUE)"
          using set_value_ok [OF i Some] by blast
        have "links_ok t' A" using t' by (simp add: radix_inv_def)
        then have "table t' = (table t)(?p := None)"
          using table_ok [of t' A] t'(3) tab by (auto simp: fun_eq_iff opt_value_def)
        moreover have "ngx_radix32tree_delete key msk t = Some (NGX_OK, t')"
          using w n nz inner False Some t' by (simp add: ngx_radix32tree_delete_def)
        ultimately show ?thesis using t'(2) by (auto simp: radix_ok_def)
      qed
    next
      case leaf: False
      then have "A (?p @ [x]) = None" for x
        using n(2) adr_zero [OF lk, of "?p @ [x]"] by (cases x) (auto simp: node_is_def)
      moreover have "?p \<noteq> []"
        using del leaf n Some links_okD(1) [OF lk] by (auto simp: deletable_def child_def)
      ultimately obtain t' A' xs' where t': "prune a t = Some t'" "radix_inv t' A' xs'" "val t' A' = (val t A)(?p := NGX_RADIX_NO_VALUE)"
        using prune_ok [OF i Some] by blast
      have "links_ok t' A'" using t' by (simp add: radix_inv_def)
      then have "table t' = (table t)(?p := None)"
        using table_ok [of t' A'] t'(3) tab by (auto simp: fun_eq_iff opt_value_def)
      moreover have "ngx_radix32tree_delete key msk t = Some (NGX_OK, t')"
        using w n nz leaf Some t' by (simp add: ngx_radix32tree_delete_def)
      ultimately show ?thesis using t'(2) by (auto simp: radix_ok_def)
    qed
  qed
qed


subsection \<open>The search\<close>

definition better :: "(bool list \<rightharpoonup> 64 word) \<Rightarrow> bool list \<Rightarrow> 64 word \<Rightarrow> nat \<Rightarrow> 64 word" where
  "better m bs v i = (case m (take i bs) of None \<Rightarrow> v | Some w \<Rightarrow> w)"

lemma better_longest: "foldl (better m bs) NGX_RADIX_NO_VALUE [0..<k] =
    (case filter (\<lambda>i. m (take i bs) \<noteq> None) (rev [0..<k]) of [] \<Rightarrow> NGX_RADIX_NO_VALUE | i # _ \<Rightarrow> the (m (take i bs)))"
  by (induction k) (auto simp: better_def split: option.splits)

lemma find_loop_ok:
  assumes lk: "links_ok t A" and "i \<le> 32"
  shows "find_loop t key (bit_at i) v (adr A (take i (key_bits key))) = Some (foldl (better (table t) (key_bits key)) v [i..<33])"
  using assms(2)
proof (induction "32 - i" arbitrary: i v)
  case outer: 0
  then have i: "i = 32" by simp
  show ?case
  proof (cases "A (key_bits key)")
    case None
    then show ?thesis using i val_none [OF lk None] table_ok [OF lk]
      by (subst find_loop.simps) (simp add: adr_def better_def opt_value_def upt_rec)
  next
    case (Some a)
    obtain n where n: "deref t a = Some n" "node_is A (key_bits key) n" "val t A (key_bits key) = rn_value n"
      using links_okD(6) [OF lk Some] by blast
    have "A (key_bits key @ [x]) = None" for x
      using links_okD(4) [OF lk, of "key_bits key @ [x]"] by (cases "A (key_bits key @ [x])") auto
    then have "side key (bit_at 32) n = 0" using side_adr [OF n(2), of key "bit_at 32"] by (simp add: adr_def)
    then show ?thesis using i n Some links_okD(3) [OF lk Some] table_ok [OF lk]
      by (subst find_loop.simps) (simp add: find_loop.simps [of _ _ _ _ 0] better_def opt_value_def upt_rec)
  qed
next
  case (Suc x)
  then have i: "i < 32" by simp
  then have up: "[i..<33] = i # [Suc i..<33]" by (simp add: upt_conv_Cons)
  show ?case
  proof (cases "A (take i (key_bits key))")
    case None
    have far: "A (take (i + k) (key_bits key)) = None" if "i + k \<le> 32" for k
      using that
    proof (induction k)
      case (Suc k)
      then show ?case using links_okD(2) [OF lk, of "take (i + k) (key_bits key)"] take_next [of "i + k" key]
        by (cases "A (take (Suc (i + k)) (key_bits key))") auto
    qed (simp add: None)
    have "table t (take l (key_bits key)) = None" if "l \<in> set [i..<33]" for l
      using far [of "l - i"] that val_none [OF lk] table_ok [OF lk] by (simp add: opt_value_def)
    then have "foldl (better (table t) (key_bits key)) v ls = v" if "set ls \<subseteq> set [i..<33]" for ls
      using that by (induction ls) (auto simp: better_def)
    then show ?thesis using None by (subst find_loop.simps) (simp add: adr_def)
  next
    case (Some a)
    obtain n where n: "deref t a = Some n" "node_is A (take i (key_bits key)) n" "val t A (take i (key_bits key)) = rn_value n"
      using links_okD(6) [OF lk Some] by blast
    have "side key (bit_at i) n = adr A (take (Suc i) (key_bits key))"
      using side_adr [OF n(2)] take_next [OF i] by simp
    moreover have "(if rn_value n \<noteq> NGX_RADIX_NO_VALUE then rn_value n else v) = better (table t) (key_bits key) v i"
      using n(3) table_ok [OF lk] by (simp add: better_def opt_value_def)
    ultimately show ?thesis
      using Suc.hyps(1) [of "Suc i" "better (table t) (key_bits key) v i"] Suc.hyps(2) i n Some links_okD(3) [OF lk Some] up
      by (subst find_loop.simps) (simp add: bit_at_steps)
  qed
qed

lemma find_ok:
  assumes "radix_ok t"
  shows "ngx_radix32tree_find t key = Some (longest_match (table t) (key_bits key))"
proof -
  obtain A xs where "radix_inv t A xs" using assms by (auto simp: radix_ok_def)
  then have lk: "links_ok t A" by (simp add: radix_inv_def)
  have "adr A (take 0 (key_bits key)) = rt_root t" using links_okD(1) [OF lk] by simp
  then show ?thesis using find_loop_ok [OF lk, of 0 key NGX_RADIX_NO_VALUE] better_longest [of "table t" "key_bits key" 33]
    by (simp add: ngx_radix32tree_find_def bit_at_steps(1) longest_match_def del: upt_Suc upt_rec_numeral)
qed

subsection \<open>Creation\<close>

text \<open>Memory from which a tree can be made: the pages to come do not overlap.\<close>

definition memory_ok :: "radix_tree \<Rightarrow> bool" where
  "memory_ok t \<longleftrightarrow> distinct (page_cells (rt_pagesize t) (rt_pages t)) \<and> 0 \<notin> set (page_cells (rt_pagesize t) (rt_pages t)) \<and>
     sizeof_radix_node \<le> rt_pagesize t"

lemma root_ok:
  assumes "memory_ok t"
  shows "\<exists>root t'. ngx_radix_alloc (t\<lparr>rt_free := 0, rt_start := 0, rt_size := 0\<rparr>) = Some (root, t') \<and>
     (root \<noteq> 0 \<longrightarrow> radix_ok (new_node root 0 (t'\<lparr>rt_root := root\<rparr>)) \<and> table (new_node root 0 (t'\<lparr>rt_root := root\<rparr>)) = Map.empty)"
proof -
  have "spare (t\<lparr>rt_free := 0, rt_start := 0, rt_size := 0\<rparr>) []"
    using assms by (auto simp: spare_def memory_ok_def avail_def cells_def)
  from alloc_ok [OF this]
  obtain a t' xs where a: "ngx_radix_alloc (t\<lparr>rt_free := 0, rt_start := 0, rt_size := 0\<rparr>) = Some (a, t')" "spare t' xs"
      "a \<noteq> 0 \<Longrightarrow> a \<notin> set (xs @ avail t')"
    by blast
  let ?t = "new_node a 0 (t'\<lparr>rt_root := a\<rparr>)" and ?A = "[[] \<mapsto> a] :: bool list \<rightharpoonup> nat"
  have "radix_ok ?t \<and> table ?t = Map.empty" if "a \<noteq> 0"
  proof -
    have lk: "links_ok ?t ?A" using that by (simp add: links_ok_def shape_ok_def new_node_def node_is_def adr_def)
    have "chain (rt_nodes ?t) (rt_free t') xs \<longleftrightarrow> chain (rt_nodes t') (rt_free t') xs"
      by (rule chain_cong) (use a(3) that in \<open>auto simp: new_node_def\<close>)
    then have "spare ?t xs" using a(2) by (simp add: spare_def avail_def new_node_def)
    moreover have "avail ?t = avail t'" by (simp add: avail_def new_node_def)
    ultimately have "radix_inv ?t ?A xs" using lk a(3) that by (auto simp: radix_inv_def split: if_splits)
    moreover have "table ?t p = None" for p
      using table_ok [OF lk, of p] by (simp add: val_def opt_value_def new_node_def)
    ultimately show ?thesis by (auto simp: radix_ok_def)
  qed
  then show ?thesis using a(1) by blast
qed

lemma level_loop_ok:
  assumes "radix_ok t" "table t = Map.empty" "unat inc * k = 2 ^ 32" "i < k" "0 < unat inc"
  shows "\<exists>r. level_loop (of_nat (i * unat inc)) msk inc t = Some r \<and> (\<forall>t'. r = Some t' \<longrightarrow> radix_ok t' \<and> table t' = Map.empty)"
  using assms
proof (induction "k - i" arbitrary: i t)
  case (Suc x)
  let ?key = "of_nat (i * unat inc) :: 32 word"
  obtain rc t' where t': "ngx_radix32tree_insert ?key msk NGX_RADIX_NO_VALUE t = Some (rc, t')" "radix_ok t'"
      "table t' = Map.empty"
    using insert_ok [OF Suc.prems(1), of ?key msk NGX_RADIX_NO_VALUE] Suc.prems(2) by (auto simp: opt_value_def fun_upd_idem)
  have key: "?key + inc = of_nat (Suc i * unat inc)" by (simp add: distrib_right)
  show ?case
  proof (cases "rc = NGX_OK \<and> ?key + inc \<noteq> 0")
    case False
    then show ?thesis using t' by (subst level_loop.simps) (auto simp: Let_def)
  next
    case True
    have "Suc i < k"
    proof (rule ccontr)
      assume "\<not> Suc i < k"
      then have "k = Suc i" using Suc.prems(4) by simp
      then have "Suc i * unat inc = 2 ^ 32" using Suc.prems(3) by (metis mult.commute)
      then have "?key + inc = of_nat (2 ^ 32)" using key by metis
      moreover have "of_nat (2 ^ 32) = (0 :: 32 word)" by simp
      ultimately show False using True by simp
    qed
    then have "\<exists>r. level_loop (of_nat (Suc i * unat inc)) msk inc t' = Some r \<and> (\<forall>t'. r = Some t' \<longrightarrow> radix_ok t' \<and> table t' = Map.empty)"
      using Suc.hyps(1) [of "Suc i" t'] Suc.hyps(2) t'(2,3) Suc.prems by simp
    then show ?thesis using t' True key by (subst level_loop.simps) (simp add: Let_def add.commute)
  qed
qed simp

lemma unat_power: "n < 32 \<Longrightarrow> unat (2 ^ n :: 32 word) = 2 ^ n"
proof -
  assume n: "n < 32"
  have "unat (word_of_nat (2 ^ n) :: 32 word) = take_bit 32 (2 ^ n)" by (subst unsigned_of_nat) simp
  then show ?thesis using n by (simp add: take_bit_of_exp)
qed

lemma prealloc_ok:
  assumes "radix_ok t" "table t = Map.empty" "i + n \<le> 32"
  shows "\<exists>r. prealloc_loop (int n) msk (bit_at i) t = Some r \<and> (\<forall>t'. r = Some t' \<longrightarrow> radix_ok t' \<and> table t' = Map.empty)"
  using assms
proof (induction n arbitrary: i msk t)
  case 0
  then show ?case by (subst prealloc_loop.simps) simp
next
  case (Suc n)
  have i: "i < 32" using Suc.prems by simp
  have u: "unat (bit_at i) = 2 ^ (31 - i)" using i unat_power [of "31 - i"] by (simp add: bit_at_exp)
  have "unat (bit_at i) * 2 ^ Suc i = 2 ^ 32" using i by (simp add: u flip: power_add)
  from level_loop_ok [OF Suc.prems(1,2) this, of 0] u
  obtain r where r: "level_loop 0 (drop_bit 1 msk OR 0x80000000) (bit_at i) t = Some r"
      "\<forall>t'. r = Some t' \<longrightarrow> radix_ok t' \<and> table t' = Map.empty"
    by auto
  show ?case
  proof (cases r)
    case None
    then show ?thesis using r by (subst prealloc_loop.simps) (simp add: Let_def)
  next
    case (Some t')
    then show ?thesis
      using r Suc.IH [of t' "Suc i" "drop_bit 1 msk OR 0x80000000"] Suc.prems(3)
      by (subst prealloc_loop.simps) (simp add: Let_def bit_at_steps)
  qed
qed

lemma create_ok:
  assumes "memory_ok t" "- 1 \<le> preallocate" "preallocate \<le> 32"
  shows "\<exists>r. ngx_radix_tree_create allocated preallocate t = Some r \<and> (\<forall>t'. r = Some t' \<longrightarrow> radix_ok t' \<and> table t' = Map.empty)"
proof -
  obtain root t1 where a: "ngx_radix_alloc (t\<lparr>rt_free := 0, rt_start := 0, rt_size := 0\<rparr>) = Some (root, t1)"
     "root \<noteq> 0 \<longrightarrow> radix_ok (new_node root 0 (t1\<lparr>rt_root := root\<rparr>)) \<and> table (new_node root 0 (t1\<lparr>rt_root := root\<rparr>)) = Map.empty"
    using root_ok [OF assms(1)] by blast
  let ?t = "new_node root 0 (t1\<lparr>rt_root := root\<rparr>)"
  obtain n where n: "preallocate_bits (rt_pagesize ?t) preallocate = int n" "n \<le> 32"
  proof -
    have "0 \<le> preallocate_bits (rt_pagesize ?t) preallocate" "preallocate_bits (rt_pagesize ?t) preallocate \<le> 32"
      using assms by (auto simp: preallocate_bits_def Let_def)
    then show thesis using that [of "nat (preallocate_bits (rt_pagesize ?t) preallocate)"] by simp
  qed
  have "\<exists>r. prealloc_loop (int n) 0 0x80000000 ?t = Some r \<and> (\<forall>t'. r = Some t' \<longrightarrow> radix_ok t' \<and> table t' = Map.empty)" if "root \<noteq> 0"
    using prealloc_ok [of ?t 0 n 0] a(2) that n(2) by (simp add: bit_at_steps(1))
  then show ?thesis using a n by (auto simp: ngx_radix_tree_create_def Let_def)
qed

section \<open>Any sequence of operations\<close>

datatype radix_op = Radix_insert "32 word" "32 word" "64 word" | Radix_delete "32 word" "32 word"

fun radix_exec :: "radix_op \<Rightarrow> radix_tree \<Rightarrow> (ngx_rc \<times> radix_tree) option" where
  "radix_exec (Radix_insert key msk v) t = ngx_radix32tree_insert key msk v t"
| "radix_exec (Radix_delete key msk) t = ngx_radix32tree_delete key msk t"

fun radix_run :: "radix_op list \<Rightarrow> radix_tree \<Rightarrow> (ngx_rc list \<times> radix_tree) option" where
  "radix_run [] t = Some ([], t)"
| "radix_run (c # cs) t = do {
     (rc, t) \<leftarrow> radix_exec c t;
     (rcs, t) \<leftarrow> radix_run cs t;
     Some (rc # rcs, t) }"

text \<open>The table with its answers: \<open>NGX_BUSY\<close> for a network that is there, \<open>NGX_ERROR\<close> when the memory is
  used up, and a deletion that succeeds when the network is there.\<close>

fun table_step :: "radix_op \<Rightarrow> ngx_rc \<Rightarrow> (bool list \<rightharpoonup> 64 word) \<Rightarrow> (bool list \<rightharpoonup> 64 word)" where
  "table_step (Radix_insert key msk v) rc m = (if rc = NGX_OK then m(key_prefix key msk := opt_value v) else m)"
| "table_step (Radix_delete key msk) rc m = m(key_prefix key msk := None)"

fun table_answer :: "radix_op \<Rightarrow> (bool list \<rightharpoonup> 64 word) \<Rightarrow> ngx_rc \<Rightarrow> bool" where
  "table_answer (Radix_insert key msk v) m rc \<longleftrightarrow>
     (if m (key_prefix key msk) = None then rc = NGX_OK \<or> rc = NGX_ERROR else rc = NGX_BUSY)"
| "table_answer (Radix_delete key msk) m rc \<longleftrightarrow>
     (if m (key_prefix key msk) = None then rc = NGX_OK \<or> rc = NGX_ERROR else rc = NGX_OK)"

fun table_run :: "radix_op list \<Rightarrow> ngx_rc list \<Rightarrow> (bool list \<rightharpoonup> 64 word) \<Rightarrow> (bool list \<rightharpoonup> 64 word) option" where
  "table_run [] [] m = Some m"
| "table_run (c # cs) (rc # rcs) m = (if table_answer c m rc then table_run cs rcs (table_step c rc m) else None)"
| "table_run _ _ m = None"

definition deletes_networks :: "radix_op list \<Rightarrow> bool" where
  "deletes_networks cs \<longleftrightarrow> list_all (\<lambda>c. case c of Radix_insert _ _ _ \<Rightarrow> True | Radix_delete _ msk \<Rightarrow> bit msk 31) cs"

lemma mask_len_nonzero: "bit msk 31 \<Longrightarrow> mask_len msk \<noteq> 0"
  by (simp add: mask_len_def key_bits_def upt_conv_Cons)

lemma radix_step:
  assumes "radix_ok t" "deletes_networks [c]"
  shows "\<exists>rc t'. radix_exec c t = Some (rc, t') \<and> radix_ok t' \<and> table_answer c (table t) rc \<and> table t' = table_step c rc (table t)"
proof (cases c)
  case (Radix_insert key msk v)
  then show ?thesis using insert_ok [OF assms(1), of key msk v] by (auto split: if_splits)
next
  case (Radix_delete key msk)
  then have "mask_len msk \<noteq> 0" using assms(2) mask_len_nonzero by (simp add: deletes_networks_def)
  then have "deletable t (key_prefix key msk)" by (simp add: deletable_def key_prefix_def flip: length_0_conv)
  from delete_ok [OF assms(1) this] show ?thesis using Radix_delete by auto
qed

text \<open>C18: the radix tree refines a routing table.  After a creation that succeeds, any sequence of
  insertions and deletions (of networks other than 0.0.0.0/0) follows only links between nodes of the
  tree and its free list, ends, answers what the table answers, and afterwards the search of any key
  ends and returns the value of the longest prefix of the key in the table.\<close>

theorem radix_refines_table:
  assumes "memory_ok t0" "ngx_radix_tree_create allocated preallocate t0 = Some (Some t)"
    and "- 1 \<le> preallocate" "preallocate \<le> 32" and "deletes_networks cs"
  shows "\<exists>rcs t' m. radix_run cs t = Some (rcs, t') \<and> table_run cs rcs Map.empty = Some m \<and>
     (\<forall>key. ngx_radix32tree_find t' key = Some (longest_match m (key_bits key)))"
proof -
  have run: "\<exists>rcs t' m. radix_run cs t = Some (rcs, t') \<and> table_run cs rcs (table t) = Some (table t') \<and> radix_ok t'"
    if "radix_ok t" for t
    using assms(5) that
  proof (induction cs arbitrary: t)
    case (Cons c cs)
    have "deletes_networks [c]" "deletes_networks cs" using Cons.prems by (simp_all add: deletes_networks_def)
    from radix_step [OF Cons.prems(2) this(1)] Cons.IH [OF this(2)] show ?case by fastforce
  qed simp
  have "radix_ok t" "table t = Map.empty" using create_ok [OF assms(1,3,4), of allocated] assms(2) by auto
  then show ?thesis using run [of t] find_ok by metis
qed

definition page_world :: radix_tree where
  "page_world = \<lparr>rt_root = 0, rt_free = 0, rt_start = 0, rt_size = 0, rt_nodes = Map.empty, rt_pages = [32, 128], rt_pagesize = 96\<rparr>"

lemma radix_refines_table_witness:
  "\<exists>t rcs t' m. ngx_radix_tree_create True 1 page_world = Some (Some t) \<and>
     radix_run [Radix_insert 0x80000000 0x80000000 7, Radix_insert 0xC0000000 0xC0000000 8, Radix_delete 0xC0000000 0xC0000000] t = Some (rcs, t') \<and>
     table_run [Radix_insert 0x80000000 0x80000000 7, Radix_insert 0xC0000000 0xC0000000 8, Radix_delete 0xC0000000 0xC0000000] rcs Map.empty = Some m \<and>
     (\<forall>key. ngx_radix32tree_find t' key = Some (longest_match m (key_bits key)))"
proof -
  have "\<exists>t. ngx_radix_tree_create True 1 page_world = Some (Some t)"
    by (simp add: ngx_radix_tree_create_def page_world_def ngx_radix_alloc_def take_node_def sizeof_radix_node_def preallocate_bits_def
      prealloc_loop.simps level_loop.simps ngx_radix32tree_insert_def insert_walk.simps insert_grow.simps new_node_def assign_def deref_def side_def set_side_def)
  then obtain t where t: "ngx_radix_tree_create True 1 page_world = Some (Some t)" by blast
  have "memory_ok page_world" by (simp add: memory_ok_def page_world_def cells_def sizeof_radix_node_def upt_rec)
  from radix_refines_table [OF this t, of "[Radix_insert 0x80000000 0x80000000 7, Radix_insert 0xC0000000 0xC0000000 8, Radix_delete 0xC0000000 0xC0000000]"]
  show ?thesis using t by (auto simp: deletes_networks_def)
qed

section \<open>Where the code is not what it means\<close>

text \<open>A deletion of 0.0.0.0/0 in a tree with no other network goes through the parent of the root.\<close>

lemma delete_root_crashes:
  assumes "radix_ok t" "\<not> deletable t []"
  shows "ngx_radix32tree_delete key 0 t = None"
proof -
  obtain A xs where "radix_inv t A xs" using assms by (auto simp: radix_ok_def)
  then have lk: "links_ok t A" by (simp add: radix_inv_def)
  note r = links_okD(1) [OF lk]
  obtain n where n: "deref t (rt_root t) = Some n" "node_is A [] n" using links_okD(6) [OF lk r] by blast
  then show ?thesis using links_okD(3) [OF lk r] assms(2)
    by (simp add: ngx_radix32tree_delete_def delete_walk.simps [of t key 0] deletable_def child_def node_is_def prune.simps [of "rt_root t" t])
      (simp add: deref_def)
qed

text \<open>The comment promises six bits on amd64 with pages of 4K; the division is by the size of the tree, not of a node.\<close>

lemma preallocate_amd64: "preallocate_bits 4096 (- 1) = 8"
  by (simp add: preallocate_bits_def sizeof_radix_tree_def)

end
