(* ===== verification/NgxInet.thy ===== *)
theory NgxInet
  imports NgxSprintf NgxCString NgxNumber
begin

unbundle bit_operations_syntax

text \<open>
  Addresses and networks as text, \<^verbatim>\<open>src/core/ngx_inet.c\<close>: IPv4 and IPv6 addresses, their printed
  forms and CIDR networks.  A text is the list of the bytes from its start to the end of the object it
  is in, with its length apart; a read past the object is \<open>None\<close>.  The 16 bytes of an IPv6 address are
  an array that is written by index.  (The names of hosts and the URLs of \<^verbatim>\<open>ngx_parse_url\<close> are not
  modelled.)
\<close>

section \<open>IPv4\<close>

definition INADDR_NONE :: u32 where
  "INADDR_NONE = 0xffffffff"

text \<open>\<^verbatim>\<open>htonl\<close> and \<^verbatim>\<open>ntohl\<close> of libc on a little-endian machine.\<close>

definition htonl :: "u32 \<Rightarrow> u32" where
  "htonl w = push_bit 24 w OR push_bit 8 (w AND 0xff00) OR (drop_bit 8 w AND 0xff00) OR drop_bit 24 w"

definition ntohl :: "u32 \<Rightarrow> u32" where
  "ntohl w = htonl w"

fun inet_loop :: "bytes \<Rightarrow> nat \<Rightarrow> u32 \<Rightarrow> u64 \<Rightarrow> u64 \<Rightarrow> u32 option" where
  "inet_loop p 0 addr octet n =
     Some (if n \<noteq> 3 then INADDR_NONE
           else if octet < 256 then htonl (push_bit 8 addr + ucast octet)
           else INADDR_NONE)"
| "inet_loop [] (Suc k) addr octet n = None"
| "inet_loop (c # p) (Suc k) addr octet n =
     (if 0x30 \<le> c \<and> c \<le> 0x39 then inet_loop p k addr (octet * 10 + ucast (c - 0x30)) n
      else if c = 0x2e \<and> octet < 256 then inet_loop p k (push_bit 8 addr + ucast octet) 0 (n + 1)
      else Some INADDR_NONE)"

definition ngx_inet_addr :: "bytes \<Rightarrow> nat \<Rightarrow> u32 option" where
  "ngx_inet_addr text len = inet_loop text len 0 0 0"

section \<open>IPv6\<close>

definition put :: "bytes \<Rightarrow> nat \<Rightarrow> u8 \<Rightarrow> bytes option" where
  "put a i b = (if i < length a then Some (a[i := b]) else None)"

text \<open>The variables of \<^verbatim>\<open>ngx_inet6_addr\<close>: the array and the index of \<open>addr\<close> in it, \<open>zero\<close> (an index, too),
  \<open>digit\<close> with \<open>len4\<close>, and the counters.\<close>

record v6 =
  v_buf :: bytes
  v_addr :: nat
  v_zero :: "nat option"
  v_digit :: "bytes option"
  v_len4 :: nat
  v_n :: nat
  v_nibbles :: nat
  v_word :: u64

definition put_word :: "v6 \<Rightarrow> u8 \<Rightarrow> u8 \<Rightarrow> v6 option" where
  "put_word v hi lo = do {
     b \<leftarrow> put (v_buf v) (v_addr v) hi;
     b \<leftarrow> put b (v_addr v + 1) lo;
     Some (v\<lparr>v_buf := b, v_addr := v_addr v + 2\<rparr>) }"

text \<open>The bytes of a word in the low 16 bits.\<close>

definition put_low :: "v6 \<Rightarrow> v6 option" where
  "put_low v = put_word v (ucast (drop_bit 8 (v_word v))) (ucast (v_word v AND 0xff))"

datatype inet6_exit = Inet6_error v6 | Inet6_end v6

fun inet6_loop :: "bytes \<Rightarrow> nat \<Rightarrow> v6 \<Rightarrow> inet6_exit option" where
  "inet6_loop p 0 v = Some (Inet6_end v)"
| "inet6_loop [] (Suc k) v = None"
| "inet6_loop (c # p) (Suc k) v =
     (if c = 0x3a then
        (if v_nibbles v \<noteq> 0 then
           (case put_low (v\<lparr>v_digit := Some p, v_len4 := Suc k\<rparr>) of
              None \<Rightarrow> None
            | Some v \<Rightarrow>
                if v_n v - 1 \<noteq> 0 then inet6_loop p k (v\<lparr>v_n := v_n v - 1, v_nibbles := 0, v_word := 0\<rparr>)
                else Some (Inet6_error v))
         else if v_zero v = None then
           inet6_loop p k (v\<lparr>v_digit := Some p, v_len4 := Suc k, v_zero := Some (v_addr v)\<rparr>)
         else Some (Inet6_error v))
      else if c = 0x2e \<and> v_nibbles v \<noteq> 0 then
        (case v_digit v of
           None \<Rightarrow> Some (Inet6_error v)
         | Some digit \<Rightarrow>
             if v_n v < 2 then Some (Inet6_error v)
             else (case ngx_inet_addr digit (v_len4 v - 1) of
                     None \<Rightarrow> None
                   | Some w \<Rightarrow>
                       if w = INADDR_NONE then Some (Inet6_error v)
                       else let word = ucast (ntohl w) :: u64 in
                         (case put_word v (ucast (drop_bit 24 word AND 0xff)) (ucast (drop_bit 16 word AND 0xff)) of
                            None \<Rightarrow> None
                          | Some v \<Rightarrow> Some (Inet6_end (v\<lparr>v_n := v_n v - 1, v_word := word\<rparr>)))))
      else if 4 < v_nibbles v + 1 then Some (Inet6_error v)
      else let v = v\<lparr>v_nibbles := v_nibbles v + 1\<rparr> in
        if 0x30 \<le> c \<and> c \<le> 0x39 then
          inet6_loop p k (v\<lparr>v_word := v_word v * 16 + ucast (c - 0x30)\<rparr>)
        else let c = c OR 0x20 in
          if 0x61 \<le> c \<and> c \<le> 0x66 then
            inet6_loop p k (v\<lparr>v_word := v_word v * 16 + ucast (c - 0x61) + 10\<rparr>)
          else Some (Inet6_error v))"

text \<open>The loop \<^verbatim>\<open>while (s >= zero) *d-- = *s--\<close>, of so many turns, and \<^verbatim>\<open>ngx_memzero\<close>.\<close>

fun shift_up :: "bytes \<Rightarrow> nat \<Rightarrow> nat \<Rightarrow> nat \<Rightarrow> bytes option" where
  "shift_up a d s 0 = Some a"
| "shift_up a d s (Suc k) = do {
     x \<leftarrow> rd a s;
     a \<leftarrow> put a d x;
     shift_up a (d - 1) (s - 1) k }"

fun memzero :: "bytes \<Rightarrow> nat \<Rightarrow> nat \<Rightarrow> bytes option" where
  "memzero a i 0 = Some a"
| "memzero a i (Suc k) = do { a \<leftarrow> put a i 0; memzero a (i + 1) k }"

definition inet6_finish :: "v6 \<Rightarrow> (ngx_rc \<times> bytes) option" where
  "inet6_finish v =
     (if v_nibbles v = 0 \<and> v_zero v = None then Some (NGX_ERROR, v_buf v)
      else do {
        v \<leftarrow> put_low v;
        let v = v\<lparr>v_n := v_n v - 1\<rparr>;
        if v_n v \<noteq> 0 then
          (case v_zero v of
             None \<Rightarrow> Some (NGX_ERROR, v_buf v)
           | Some z \<Rightarrow> do {
               let n = v_n v * 2;
               let s = v_addr v - 1;
               a \<leftarrow> shift_up (v_buf v) (s + n) s (s + 1 - z);
               a \<leftarrow> memzero a z n;
               Some (NGX_OK, a) })
        else if v_zero v = None then Some (NGX_OK, v_buf v)
        else Some (NGX_ERROR, v_buf v) })"

definition ngx_inet6_addr :: "bytes \<Rightarrow> nat \<Rightarrow> bytes \<Rightarrow> (ngx_rc \<times> bytes) option" where
  "ngx_inet6_addr p len addr =
     (if len = 0 then Some (NGX_ERROR, addr)
      else do {
        c \<leftarrow> rd p 0;
        let (p, len) = (if c = 0x3a then (drop 1 p, len - 1) else (p, len));
        r \<leftarrow> inet6_loop p len \<lparr>v_buf = addr, v_addr = 0, v_zero = None, v_digit = None, v_len4 = 0,
               v_n = 8, v_nibbles = 0, v_word = 0\<rparr>;
        (case r of
           Inet6_error v \<Rightarrow> Some (NGX_ERROR, v_buf v)
         | Inet6_end v \<Rightarrow> inet6_finish v) })"

section \<open>Printing\<close>

function ntop_scan :: "bytes \<Rightarrow> nat \<Rightarrow> int \<Rightarrow> int \<Rightarrow> nat \<Rightarrow> nat \<Rightarrow> (int \<times> nat) option" where
  "ntop_scan p i zr lst mx n =
     (if i < 16 then do {
        a \<leftarrow> rd p i;
        b \<leftarrow> rd p (i + 1);
        if a \<noteq> 0 \<or> b \<noteq> 0 then
          (if mx < n then ntop_scan p (i + 2) lst lst n 0 else ntop_scan p (i + 2) zr lst mx 0)
        else ntop_scan p (i + 2) zr (if n = 0 then int i else lst) mx (n + 1) }
      else Some (if mx < n then (lst, n) else (zr, mx)))"
  by pat_completeness auto
termination by (relation "measure (\<lambda>(p, i, zr, lst, mx, n). 16 - i)") auto

function ntop_words :: "'d fp_ops \<Rightarrow> u64 \<Rightarrow> bytes \<Rightarrow> int \<Rightarrow> nat \<Rightarrow> nat \<Rightarrow> nat \<Rightarrow> bytes \<Rightarrow> bytes option" where
  "ntop_words fp text p zr mx n i out =
     (if i < n then
        (if int i = zr then ntop_words fp text p zr mx n (i + (mx - 1) * 2 + 2) (out @ [0x3a])
         else do {
           a \<leftarrow> rd p i;
           b \<leftarrow> rd p (i + 1);
           w \<leftarrow> ngx_sprintf fp (text + of_nat (length out)) (str ''%uxi'' @ [0]) [Va64 (ucast a * 256 + ucast b)];
           ntop_words fp text p zr mx n (i + 2) (if i < 14 then out @ w @ [0x3a] else out @ w) })
      else Some out)"
  by pat_completeness auto
termination by (relation "measure (\<lambda>(fp, text, p, zr, mx, n, i, out). n - i)") auto

declare ntop_scan.simps [simp del] ntop_words.simps [simp del]

definition NGX_INET6_ADDRSTRLEN :: nat where
  "NGX_INET6_ADDRSTRLEN = 45"

definition ngx_inet6_ntop :: "'d fp_ops \<Rightarrow> bytes \<Rightarrow> u64 \<Rightarrow> nat \<Rightarrow> bytes option" where
  "ngx_inet6_ntop fp p text len =
     (if len < NGX_INET6_ADDRSTRLEN then Some []
      else do {
        (zr, mx) \<leftarrow> ntop_scan p 0 (-1) (-1) 1 0;
        p10 \<leftarrow> rd p 10; p11 \<leftarrow> rd p 11; p14 \<leftarrow> rd p 14; p15 \<leftarrow> rd p 15;
        let n = (if zr = 0 \<and> (mx = 5 \<and> p10 = 0xff \<and> p11 = 0xff \<or> mx = 6 \<or> mx = 7 \<and> p14 \<noteq> 0 \<and> p15 \<noteq> 1)
                 then 12 else 16);
        out \<leftarrow> ntop_words fp text p zr mx n 0 (if zr = 0 then [0x3a] else []);
        if n = 12 then do {
          p12 \<leftarrow> rd p 12; p13 \<leftarrow> rd p 13;
          w \<leftarrow> ngx_sprintf fp (text + of_nat (length out)) (str ''%ud.%ud.%ud.%ud'' @ [0])
                 [Va32 (ucast p12), Va32 (ucast p13), Va32 (ucast p14), Va32 (ucast p15)];
          Some (out @ w) }
        else Some out })"

definition inet4_text :: "'d fp_ops \<Rightarrow> bytes \<Rightarrow> nat \<Rightarrow> bytes option" where
  "inet4_text fp p len = do {
     p0 \<leftarrow> rd p 0; p1 \<leftarrow> rd p 1; p2 \<leftarrow> rd p 2; p3 \<leftarrow> rd p 3;
     ngx_snprintf fp len (str ''%ud.%ud.%ud.%ud'' @ [0]) [Va32 (ucast p0), Va32 (ucast p1), Va32 (ucast p2), Va32 (ucast p3)] }"

datatype af = AF_INET | AF_INET6 | AF_UNIX | AF_OTHER

definition ngx_inet_ntop :: "'d fp_ops \<Rightarrow> af \<Rightarrow> bytes \<Rightarrow> u64 \<Rightarrow> nat \<Rightarrow> bytes option" where
  "ngx_inet_ntop fp family addr text len =
     (case family of
        AF_INET \<Rightarrow> inet4_text fp addr len
      | AF_INET6 \<Rightarrow> ngx_inet6_ntop fp addr text len
      | _ \<Rightarrow> Some [])"

text \<open>A socket address: the family, the bytes of the address or the path, and the port in network order.\<close>

record sockaddr =
  sa_family :: af
  sa_addr :: bytes
  sa_port :: "16 word"

definition ntohs :: "16 word \<Rightarrow> 16 word" where
  "ntohs w = push_bit 8 w OR drop_bit 8 w"

text \<open>What is written, and the length that is returned.\<close>

definition ngx_sock_ntop :: "'d fp_ops \<Rightarrow> sockaddr \<Rightarrow> u64 \<Rightarrow> nat \<Rightarrow> bool \<Rightarrow> (bytes \<times> u64) option" where
  "ngx_sock_ntop fp sa text len port =
     (case sa_family sa of
        AF_INET \<Rightarrow> do {
          p0 \<leftarrow> rd (sa_addr sa) 0; p1 \<leftarrow> rd (sa_addr sa) 1; p2 \<leftarrow> rd (sa_addr sa) 2; p3 \<leftarrow> rd (sa_addr sa) 3;
          let bs = [Va32 (ucast p0), Va32 (ucast p1), Va32 (ucast p2), Va32 (ucast p3)];
          t \<leftarrow> (if port then ngx_snprintf fp len (str ''%ud.%ud.%ud.%ud:%d'' @ [0]) (bs @ [Va32 (ucast (ntohs (sa_port sa)))])
               else ngx_snprintf fp len (str ''%ud.%ud.%ud.%ud'' @ [0]) bs);
          Some (t, of_nat (length t)) }
      | AF_INET6 \<Rightarrow> do {
          let n = (if port then [0x5b] else []);
          t \<leftarrow> ngx_inet6_ntop fp (sa_addr sa) (text + of_nat (length n)) len;
          if port then do {
            w \<leftarrow> ngx_sprintf fp (text + 1 + of_nat (length t)) (str '']:%d'' @ [0]) [Va32 (ucast (ntohs (sa_port sa)))];
            Some (n @ t @ w, of_nat (1 + length t + length w)) }
          else Some (t, of_nat (length t)) }
      | AF_UNIX \<Rightarrow> do {
          t \<leftarrow> ngx_snprintf fp len (str ''unix:%s%Z'' @ [0]) [VaCStr (sa_addr sa)];
          Some (t, of_nat (length t) - 1) }
      | AF_OTHER \<Rightarrow> Some ([], 0))"

section \<open>Networks\<close>

datatype cidr = Cidr_in u32 u32 | Cidr_in6 bytes bytes

text \<open>The masking loop of an IPv6 network.\<close>

fun mask6_loop :: "int \<Rightarrow> bytes \<Rightarrow> ngx_rc \<Rightarrow> ngx_rc \<times> bytes \<times> bytes" where
  "mask6_loop shift [] rc = (rc, [], [])"
| "mask6_loop shift (a # addr) rc =
     (let s = (if 8 < shift then 8 else nat shift);
          m = (0 - push_bit (8 - s) 1 :: u8);
          (rc, as, ms) = mask6_loop (shift - int s) addr (if a \<noteq> a AND m then NGX_DONE else rc)
      in (rc, (if a \<noteq> a AND m then a AND m else a) # as, m # ms))"

text \<open>\<^verbatim>\<open>1 << (32 - shift)\<close> counts modulo 32, as the comment in the code says of x86.\<close>

definition mask4 :: "int \<Rightarrow> u32" where
  "mask4 shift = (if shift \<noteq> 0 then htonl (0 - push_bit (nat ((32 - shift) mod 32)) 1) else 0)"

definition ngx_ptocidr :: "bytes \<Rightarrow> nat \<Rightarrow> bytes \<Rightarrow> (ngx_rc \<times> cidr) option" where
  "ngx_ptocidr text len in6 = do {
     mask \<leftarrow> ngx_strlchr text len 0x2f;
     let alen = (case mask of None \<Rightarrow> len | Some m \<Rightarrow> m);
     a \<leftarrow> ngx_inet_addr text alen;
     (rc, a6) \<leftarrow> (if a \<noteq> INADDR_NONE then Some (NGX_OK, []) else ngx_inet6_addr text alen in6);
     if rc \<noteq> NGX_OK then Some (NGX_ERROR, Cidr_in a 0)
     else
       (case mask of
          None \<Rightarrow> Some (NGX_OK, if a \<noteq> INADDR_NONE then Cidr_in a 0xffffffff else Cidr_in6 a6 (replicate 16 0xff))
        | Some m \<Rightarrow> do {
            shift \<leftarrow> ngx_atoi (drop (m + 1) text) (len - (m + 1));
            if shift = -1 then Some (NGX_ERROR, if a \<noteq> INADDR_NONE then Cidr_in a 0 else Cidr_in6 a6 [])
            else if a \<noteq> INADDR_NONE then
              (let mk = mask4 shift in
               if a = a AND mk then Some (NGX_OK, Cidr_in a mk) else Some (NGX_DONE, Cidr_in (a AND mk) mk))
            else (let (rc, as, ms) = mask6_loop shift a6 NGX_OK in Some (rc, Cidr_in6 as ms)) }) }"


section \<open>Printed IPv4 addresses are parsed back\<close>

lemma ucast_u8_32_64: "ucast (ucast (b :: u8) :: u32) = (ucast b :: u64)"
  by (rule bit_word_eqI) (auto simp: bit_simps dest: bit_imp_le_length)

lemma ucast_u8: "ucast (b :: u8) = (word_of_nat (unat b) :: 'a::len word)"
  by simp

lemma directive_ud:
  fixes b :: u8
  assumes "3 \<le> room"
  shows "spf_directive fp room (0x75 # 0x64 # fmt) (Va32 (ucast b) # args) = Some (nat_dec (unat b) [], fmt, args)"
proof -
  have "length (nat_dec (unat b) []) \<le> Suc 2" by (rule nat_dec_length) (use unat_u8_less [of b] in simp)
  moreover have u: "unat (ucast (ucast b :: u32) :: u64) = unat b"
    by (simp only: ucast_u8_32_64) (use unat_u8_less [of b] in \<open>simp add: unsigned_ucast_eq take_bit_nat_eq_self\<close>)
  ultimately have "ngx_sprintf_num room (ucast (ucast b :: u32)) 0x20 0 0 = nat_dec (unat b) []"
    using assms by (simp add: ngx_sprintf_num_def dec_digits_branches u spf_pad_eq)
  then show ?thesis
    by (simp add: spf_directive_def spf_conv_def spf_int32_def spf_number_def Let_def)
qed

lemma inet_digits:
  assumes "all_digits ds" "dec_val m ds < 2 ^ 64"
  shows "inet_loop (ds @ p) (length ds + k) addr (word_of_nat m) n = inet_loop p k addr (word_of_nat (dec_val m ds)) n"
  using assms
proof (induction ds arbitrary: m)
  case (Cons d ds)
  have d: "0x30 \<le> d" "d \<le> 0x39" using Cons.prems(1) by (simp_all add: all_digits_def is_digit_def)
  have "unat (d - 0x30) = unat d - 48" using d by (simp add: unat_sub word_le_nat_alt)
  then have "ucast (d - 0x30) = (word_of_nat (unat d - 48) :: u64)" by (metis ucast_u8)
  then have step: "word_of_nat m * 10 + ucast (d - 0x30) = (word_of_nat (m * 10 + (unat d - 48)) :: u64)" by simp
  show ?case using Cons.IH [of "m * 10 + (unat d - 48)"] Cons.prems d step by simp
qed simp

text \<open>The address in network order is the little-endian load of its four bytes.\<close>

definition load32 :: "u8 \<Rightarrow> u8 \<Rightarrow> u8 \<Rightarrow> u8 \<Rightarrow> u32" where
  "load32 a b c d = ucast a OR push_bit 8 (ucast b) OR push_bit 16 (ucast c) OR push_bit 24 (ucast d)"

lemma push_plus: "push_bit 8 x + ucast (c :: u8) = (push_bit 8 x OR ucast c :: u32)"
  by (rule disjunctive_add) (auto simp: bit_simps dest: bit_imp_le_length)

lemma byte_out: "8 \<le> n \<Longrightarrow> \<not> bit (x :: u8) n"
  using bit_imp_le_length [of x n] by auto

lemma bit_ff00: "bit (w AND 0xff00 :: u32) n \<longleftrightarrow> 8 \<le> n \<and> n < 16 \<and> bit w n"
proof -
  have "(0xff00 :: u32) = push_bit 8 (mask 8)" by (simp add: mask_eq_exp_minus_1)
  moreover have "bit (push_bit 8 (mask 8) :: u32) n \<longleftrightarrow> 8 \<le> n \<and> n < 16" by (auto simp: bit_simps)
  ultimately show ?thesis by (auto simp: bit_and_iff)
qed

lemma htonl_load: "htonl (push_bit 8 (push_bit 8 (push_bit 8 (ucast a) + ucast b) + ucast c) + ucast d) = load32 a b c d"
proof -
  define w :: u32 where "w = push_bit 8 (push_bit 8 (push_bit 8 (ucast a) + ucast b) + ucast c) + ucast d"
  have w: "bit w n \<longleftrightarrow> n < 32 \<and> (if n < 8 then bit d n else if n < 16 then bit c (n - 8) else if n < 24 then bit b (n - 16) else bit a (n - 24))" for n
    unfolding w_def push_plus by (auto simp: bit_simps byte_out not_less dest: bit_imp_le_length)
  show ?thesis
    unfolding w_def [symmetric] htonl_def load32_def
    by (rule bit_word_eqI) (auto simp: bit_or_iff bit_ff00 bit_push_bit_iff bit_drop_bit_eq bit_ucast_iff w byte_out not_less simp del: push_bit_and dest: bit_imp_le_length)
qed

lemma inet_octet:
  fixes b :: u8
  shows "inet_loop (nat_dec (unat b) [] @ p) (length (nat_dec (unat b) [] @ p)) addr 0 n = inet_loop p (length p) addr (ucast b) n"
proof -
  have v: "all_digits (nat_dec (unat b) [])" "dec_val 0 (nat_dec (unat b) []) = unat b"
    using nat_dec_digits [of "unat b"] by simp_all
  then show ?thesis using inet_digits [OF v(1), of 0 p "length p" addr n] unat_u8_less [of b]
    unfolding v(2) by simp
qed

lemma inet_dot: "inet_loop ([0x2e] @ p) (length ([0x2e] @ p)) addr (ucast (b :: u8)) n = inet_loop p (length p) (push_bit 8 addr + ucast b) 0 (n + 1)"
proof -
  have "(ucast b :: u64) < 256" using unat_u8_less [of b] by (simp add: word_less_nat_alt unsigned_ucast_eq take_bit_nat_eq_self)
  moreover have "(ucast (ucast b :: u64) :: u32) = ucast b" by (rule bit_word_eqI) (auto simp: bit_simps dest: bit_imp_le_length)
  ultimately show ?thesis by simp
qed

definition dotted :: "u8 \<Rightarrow> u8 \<Rightarrow> u8 \<Rightarrow> u8 \<Rightarrow> bytes" where
  "dotted a b c d = nat_dec (unat a) [] @ [0x2e] @ nat_dec (unat b) [] @ [0x2e] @ nat_dec (unat c) [] @ [0x2e] @ nat_dec (unat d) []"

lemma inet_dotted: "ngx_inet_addr (dotted a b c d) (length (dotted a b c d)) = Some (load32 a b c d)"
proof -
  have e: "inet_loop [] 0 (push_bit 8 (push_bit 8 (push_bit 8 0 + ucast a) + ucast b) + ucast c) (ucast d) (0 + 1 + 1 + 1) = Some (load32 a b c d)"
  proof -
    have "(ucast d :: u64) < 256" using unat_u8_less [of d] by (simp add: word_less_nat_alt unsigned_ucast_eq take_bit_nat_eq_self)
    moreover have "(ucast (ucast d :: u64) :: u32) = ucast d" by (rule bit_word_eqI) (auto simp: bit_simps dest: bit_imp_le_length)
    ultimately show ?thesis using htonl_load [of a b c d] by simp
  qed
  have z: "inet_loop (nat_dec (unat d) []) (length (nat_dec (unat d) [])) addr 0 n = inet_loop [] 0 addr (ucast d) n" for addr n
    using inet_octet [of d "[]"] by simp
  show ?thesis
    unfolding ngx_inet_addr_def dotted_def by (simp only: inet_octet inet_dot z e)
qed

lemma print_dotted:
  assumes "15 \<le> len"
  shows "inet4_text fp [a, b, c, d] len = Some (dotted a b c d)"
proof -
  have l: "length (nat_dec (unat x) []) \<le> 3" for x :: u8
    using nat_dec_length [of "unat x" 2] unat_u8_less [of x] by simp
  have fmt: "str ''%ud.%ud.%ud.%ud'' @ [0] = [0x25, 0x75, 0x64, 0x2e, 0x25, 0x75, 0x64, 0x2e, 0x25, 0x75, 0x64, 0x2e, 0x25, 0x75, 0x64, 0]"
    by (simp add: str_def)
  show ?thesis
    using assms l [of a] l [of b] l [of c] l [of d]
    unfolding inet4_text_def ngx_snprintf_def fmt dotted_def
    by (simp add: directive_ud)
qed

text \<open>C19: an IPv4 address that \<open>ngx_inet_ntop\<close> prints through \<open>ngx_snprintf\<close>, in the 15 bytes of
  \<open>NGX_INET_ADDRSTRLEN\<close>, is parsed back by \<open>ngx_inet_addr\<close> to the same four bytes in network order.\<close>

theorem inet_roundtrip:
  assumes "15 \<le> len"
  shows "\<exists>t. ngx_inet_ntop fp AF_INET [a, b, c, d] text len = Some t \<and> length t \<le> 15 \<and>
     ngx_inet_addr t (length t) = Some (load32 a b c d)"
proof -
  have l: "length (nat_dec (unat x) []) \<le> 3" for x :: u8
    using nat_dec_length [of "unat x" 2] unat_u8_less [of x] by simp
  show ?thesis
  proof (intro exI conjI)
    show "ngx_inet_ntop fp AF_INET [a, b, c, d] text len = Some (dotted a b c d)"
      using print_dotted [OF assms] by (simp add: ngx_inet_ntop_def)
    show "length (dotted a b c d) \<le> 15" using l [of a] l [of b] l [of c] l [of d] by (simp add: dotted_def)
  qed (rule inet_dotted)
qed

lemma inet_roundtrip_witness:
  "\<exists>t. ngx_inet_ntop (undefined :: unit fp_ops) AF_INET [192, 0, 2, 1] 0 15 = Some t \<and> length t \<le> 15 \<and> ngx_inet_addr t (length t) = Some 0x010200c0"
  using inet_roundtrip [of 15 "undefined :: unit fp_ops" 192 0 2 1 0] by (simp add: load32_def)

section \<open>The parser of IPv6 addresses stays in its arrays\<close>

definition v6_ok :: "v6 \<Rightarrow> bool" where
  "v6_ok v \<longleftrightarrow> length (v_buf v) = 16 \<and> v_addr v + 2 * v_n v = 16 \<and> 1 \<le> v_n v \<and> v_n v \<le> 8 \<and>
     (\<forall>z. v_zero v = Some z \<longrightarrow> z \<le> v_addr v) \<and> (\<forall>d. v_digit v = Some d \<longrightarrow> v_len4 v - 1 \<le> length d)"

lemma inet_loop_total: "k \<le> length p \<Longrightarrow> \<exists>r. inet_loop p k addr octet n = Some r"
  by (induction p k addr octet n rule: inet_loop.induct) auto

lemma put_word_ok:
  assumes "v_addr v + 2 \<le> length (v_buf v)"
  shows "\<exists>b. put_word v x y = Some (v\<lparr>v_buf := b, v_addr := v_addr v + 2\<rparr>) \<and> length b = length (v_buf v)"
  using assms by (auto simp: put_word_def put_def)

definition exit_ok :: "inet6_exit \<Rightarrow> bool" where
  "exit_ok e = (case e of Inet6_error v \<Rightarrow> length (v_buf v) = 16 | Inet6_end v \<Rightarrow> v6_ok v)"

lemma inet6_loop_ok:
  assumes "v6_ok v" "k \<le> length p"
  shows "\<exists>e. inet6_loop p k v = Some e \<and> exit_ok e"
  using assms
proof (induction p k v rule: inet6_loop.induct)
  case (3 c p k v)
  note ok = "3.prems" [unfolded v6_ok_def]
  consider "c = 0x3a" "v_nibbles v \<noteq> 0" | "c = 0x3a" "v_nibbles v = 0" | "c = 0x2e" "v_nibbles v \<noteq> 0"
    | "c \<noteq> 0x3a" "\<not> (c = 0x2e \<and> v_nibbles v \<noteq> 0)" by blast
  then show ?case
  proof cases
    case 1
    let ?v = "v\<lparr>v_digit := Some p, v_len4 := Suc k\<rparr>"
    obtain b where b: "put_low ?v = Some (?v\<lparr>v_buf := b, v_addr := v_addr v + 2\<rparr>)" "length b = 16"
      using put_word_ok [of ?v] ok by (fastforce simp: put_low_def)
    let ?w = "?v\<lparr>v_buf := b, v_addr := v_addr v + 2\<rparr>"
    show ?thesis
    proof (cases "v_n v - 1 = 0")
      case True
      then show ?thesis using 1 b by (simp add: exit_ok_def)
    next
      case False
      have "v6_ok (?w\<lparr>v_n := v_n v - 1, v_nibbles := 0, v_word := 0\<rparr>)"
        using ok b False by (auto simp: v6_ok_def)
      moreover have "k \<le> length p" using "3.prems" by simp
      ultimately have "\<exists>e. inet6_loop p k (?w\<lparr>v_n := v_n v - 1, v_nibbles := 0, v_word := 0\<rparr>) = Some e \<and> exit_ok e"
        using "3.IH"(1) [OF 1 b(1)] False by simp
      then show ?thesis using 1 b False by simp
    qed
  next
    case 2
    have "v6_ok (v\<lparr>v_digit := Some p, v_len4 := Suc k, v_zero := Some (v_addr v)\<rparr>)"
      using ok by (auto simp: v6_ok_def)
    then show ?thesis using "3.IH"(2) 2 "3.prems" by (auto simp: exit_ok_def v6_ok_def)
  next
    case 3
    show ?thesis
    proof (cases "v_digit v")
      case None
      then show ?thesis using 3 ok by (simp add: exit_ok_def)
    next
      case (Some d)
      obtain w where w: "ngx_inet_addr d (v_len4 v - 1) = Some w"
        using inet_loop_total [of "v_len4 v - 1" d 0 0 0] ok Some by (auto simp: ngx_inet_addr_def)
      show ?thesis
      proof (cases "v_n v < 2 \<or> w = INADDR_NONE")
        case True
        then show ?thesis using 3 Some w ok by (auto simp: exit_ok_def)
      next
        case False
        obtain b where b: "put_word v (ucast (drop_bit 24 (ucast (ntohl w) :: u64) AND 0xff)) (ucast (drop_bit 16 (ucast (ntohl w) :: u64) AND 0xff)) =
            Some (v\<lparr>v_buf := b, v_addr := v_addr v + 2\<rparr>)" "length b = 16"
          using put_word_ok [of v] ok by fastforce
        then show ?thesis using 3 Some w False ok by (auto simp: exit_ok_def v6_ok_def Let_def)
      qed
    qed
  next
    case 4
    have "v6_ok (v\<lparr>v_nibbles := n, v_word := w\<rparr>)" for n w
      using ok by (simp add: v6_ok_def)
    then show ?thesis using "3.IH"(3,4) 4 "3.prems" ok by (auto simp: exit_ok_def Let_def)
  qed
qed (simp_all add: exit_ok_def)

lemma shift_up_ok:
  assumes "k \<le> Suc s" "s < length a" "d < length a" "k \<le> Suc d"
  shows "\<exists>a'. shift_up a d s k = Some a' \<and> length a' = length a"
  using assms
proof (induction k arbitrary: a d s)
  case (Suc k)
  show ?case
  proof (cases k)
    case 0
    then show ?thesis using Suc.prems by (simp add: put_def)
  next
    case (Suc j)
    then show ?thesis
      using Suc.IH [of "s - 1" "a[d := a ! s]" "d - 1"] Suc.prems by (auto simp: put_def)
  qed
qed simp

lemma memzero_ok: "i + k \<le> length a \<Longrightarrow> \<exists>a'. memzero a i k = Some a' \<and> length a' = length a"
proof (induction k arbitrary: a i)
  case (Suc k)
  then show ?case using Suc.IH [of "Suc i" "a[i := 0]"] by (auto simp: put_def)
qed simp

lemma inet6_finish_ok:
  assumes "v6_ok v"
  shows "\<exists>rc a. inet6_finish v = Some (rc, a) \<and> length a = 16"
proof (cases "v_nibbles v = 0 \<and> v_zero v = None")
  case False
  note ok = assms [unfolded v6_ok_def]
  obtain b where b: "put_low v = Some (v\<lparr>v_buf := b, v_addr := v_addr v + 2\<rparr>)" "length b = 16"
    using put_word_ok [of v] ok by (fastforce simp: put_low_def)
  show ?thesis
  proof (cases "v_n v - 1 = 0 \<or> v_zero v = None")
    case True
    then show ?thesis using False b by (auto simp: inet6_finish_def Let_def)
  next
    case go: False
    then obtain z where z: "v_zero v = Some z" "z \<le> v_addr v" using ok by auto
    obtain a where a: "shift_up b (v_addr v + 1 + (v_n v - 1) * 2) (v_addr v + 1) (v_addr v + 2 - z) = Some a" "length a = 16"
    proof -
      have "v_addr v + 1 + (v_n v - 1) * 2 = 15" using ok by (cases "v_n v") auto
      moreover have "v_addr v + 2 * v_n v = 16" "1 \<le> v_n v" using ok by auto
      then have "v_addr v + 2 - z \<le> 16" by linarith
      ultimately show thesis using shift_up_ok [of "v_addr v + 2 - z" "v_addr v + 1" b 15] ok go b z that by auto
    qed
    obtain a' where "memzero a z ((v_n v - 1) * 2) = Some a'" "length a' = 16"
    proof -
      have "v_addr v + 2 * v_n v = 16" "1 \<le> v_n v" using ok by auto
      then have "z + (v_n v - 1) * 2 \<le> 16" using z(2) by linarith
      then show thesis using memzero_ok [of z "(v_n v - 1) * 2" a] a(2) that by auto
    qed
    then show ?thesis using go False b z a by (auto simp: inet6_finish_def Let_def)
  qed
qed (use assms in \<open>simp add: inet6_finish_def v6_ok_def\<close>)

text \<open>Whatever the text, \<open>ngx_inet6_addr\<close> reads only its bytes and writes only the 16 bytes of the
  address, through the loop, the embedded IPv4 address and the shift that makes room for \<open>::\<close>.\<close>

theorem inet6_in_bounds:
  assumes "length addr = 16" "len \<le> length p"
  shows "\<exists>rc a. ngx_inet6_addr p len addr = Some (rc, a) \<and> length a = 16"
proof (cases "len = 0")
  case False
  let ?v = "\<lparr>v_buf = addr, v_addr = 0, v_zero = None, v_digit = None, v_len4 = 0, v_n = 8, v_nibbles = 0, v_word = 0\<rparr>"
  have "v6_ok ?v" using assms by (simp add: v6_ok_def)
  then obtain e where e: "inet6_loop (if p ! 0 = 0x3a then drop 1 p else p) (if p ! 0 = 0x3a then len - 1 else len) ?v = Some e" "exit_ok e"
  proof -
    have "len - 1 \<le> length (drop 1 p)" using assms(2) by simp
    then show thesis
      using inet6_loop_ok [OF \<open>v6_ok ?v\<close>, of len p] inet6_loop_ok [OF \<open>v6_ok ?v\<close>, of "len - 1" "drop 1 p"] assms(2) that
      by (cases "p ! 0 = 0x3a") auto
  qed
  have "0 < length p" using False assms(2) by (cases p) auto
  then have run: "ngx_inet6_addr p len addr = (case e of Inet6_error v \<Rightarrow> Some (NGX_ERROR, v_buf v) | Inet6_end v \<Rightarrow> inet6_finish v)"
    using False e(1) by (auto simp: ngx_inet6_addr_def split: if_splits)
  show ?thesis using e(2) inet6_finish_ok by (cases e) (auto simp: run exit_ok_def)
qed (use assms in \<open>simp add: ngx_inet6_addr_def\<close>)

lemma inet6_in_bounds_witness: "\<exists>rc a. ngx_inet6_addr (str ''2001:db8::192.0.2.1'') 19 (replicate 16 0xff) = Some (rc, a) \<and> length a = 16"
  using inet6_in_bounds [of "replicate 16 0xff" 19 "str ''2001:db8::192.0.2.1''"] by (simp add: str_def)

section \<open>CIDR networks\<close>

lemma bit_htonl: "bit (htonl x) n \<longleftrightarrow> (if n < 8 then bit x (n + 24) else if n < 16 then bit x (n + 8)
    else if n < 24 then bit x (n - 8) else n < 32 \<and> bit x (n - 24))"
  unfolding htonl_def
  by (auto simp: bit_or_iff bit_ff00 bit_push_bit_iff bit_drop_bit_eq not_less add.commute simp del: push_bit_and dest: bit_imp_le_length)

lemma ntohl_htonl: "ntohl (htonl w) = w"
  unfolding ntohl_def by (rule bit_word_eqI) (auto simp: bit_htonl)

lemma ntohl_and: "ntohl (a AND m) = ntohl a AND ntohl m"
  unfolding ntohl_def by (rule bit_word_eqI) (auto simp: bit_htonl bit_and_iff)

lemma mask4_bits:
  assumes "0 \<le> s" "s \<le> 32"
  shows "bit (ntohl (mask4 s)) n \<longleftrightarrow> 32 - nat s \<le> n \<and> n < 32"
proof (cases "s = 0")
  case False
  then have "(32 - s) mod 32 = 32 - s" using assms by (intro mod_pos_pos_trivial) auto
  then have "nat ((32 - s) mod 32) = 32 - nat s" using assms by simp
  then have "ntohl (mask4 s) = - (2 ^ (32 - nat s))" using False by (simp add: mask4_def ntohl_htonl push_bit_eq_mult)
  then show ?thesis by (auto simp: minus_exp_eq_not_mask bit_not_iff bit_mask_iff)
qed (auto simp: mask4_def ntohl_def htonl_def)

lemma strlchr_at: "c \<notin> set xs \<Longrightarrow> ngx_strlchr (xs @ c # p) (length xs + Suc k) c = Some (Some (length xs))"
  by (induction xs) auto

lemma inet_loop_take: "k \<le> length p \<Longrightarrow> inet_loop (p @ q) k addr octet n = inet_loop p k addr octet n"
  by (induction p k addr octet n rule: inet_loop.induct) auto

text \<open>The text of an IPv4 address, a slash and the digits of a number up to 32 is the network of
  the bits that are set in the mask, and those are the highest ones, as many as the number says; the
  answer is \<open>NGX_DONE\<close> exactly when the address had low bits, which are cleared.\<close>

lemma ptocidr_ipv4:
  assumes "ngx_inet_addr ip (length ip) = Some a" "a \<noteq> INADDR_NONE" "0x2f \<notin> set ip"
    and "all_digits ds" "ds \<noteq> []" "dec_val 0 ds \<le> 32"
  shows "\<exists>m. ngx_ptocidr (ip @ 0x2f # ds @ q) (length (ip @ 0x2f # ds)) in6 =
      Some (if a AND m = a then NGX_OK else NGX_DONE, Cidr_in (a AND m) m) \<and>
    (\<forall>n < 32. bit (ntohl m) n \<longleftrightarrow> 32 - dec_val 0 ds \<le> n)"
proof (intro exI conjI)
  let ?m = "mask4 (int (dec_val 0 ds))"
  have "ngx_inet_addr (ip @ 0x2f # ds @ q) (length ip) = Some a"
    using assms(1) by (simp add: ngx_inet_addr_def inet_loop_take)
  moreover have "ngx_strlchr (ip @ 0x2f # ds @ q) (length ip + Suc (length ds)) 0x2f = Some (Some (length ip))"
    by (rule strlchr_at [OF assms(3)])
  moreover have "ngx_atoi (ds @ q) (length ds) = Some (int (dec_val 0 ds))"
    using ato_loop_eq [of "length ds" "ds @ q" 0] assms(4-6) by (simp add: ngx_atoi_def Let_def ato_result_def)
  ultimately show "ngx_ptocidr (ip @ 0x2f # ds @ q) (length (ip @ 0x2f # ds)) in6 =
      Some (if a AND ?m = a then NGX_OK else NGX_DONE, Cidr_in (a AND ?m) ?m)"
    using assms(2) by (simp add: ngx_ptocidr_def Let_def eq_commute [of a])
  show "\<forall>n < 32. bit (ntohl ?m) n \<longleftrightarrow> 32 - dec_val 0 ds \<le> n"
    using mask4_bits [of "int (dec_val 0 ds)"] assms(6) by auto
qed

section \<open>Where the code is lax\<close>

text \<open>Octets may be empty, and their value is only compared after it may have wrapped around.\<close>

lemma inet_addr_lax:
  "ngx_inet_addr (str ''...'') (length ''...'') = Some 0"
  "ngx_inet_addr (str ''18446744073709551617.0.0.0'') (length ''18446744073709551617.0.0.0'') = Some 1"
  by (simp_all add: str_def ngx_inet_addr_def htonl_def)

text \<open>Nothing bounds the number after the slash: a network of 33 bits is one of a single bit.\<close>

lemma ptocidr_33: "ngx_ptocidr (str ''10.0.0.0/33'') (length ''10.0.0.0/33'') [] = Some (NGX_DONE, Cidr_in 0 0x80)"
  by (simp add: str_def ngx_ptocidr_def ngx_inet_addr_def htonl_def INADDR_NONE_def ngx_atoi_def digit_val_def mask4_def)

end
