(* ===== verification/HttpGeo.thy ===== *)
theory HttpGeo
  imports NgxInet NgxRadix
begin

unbundle bit_operations_syntax

text \<open>
  The geo module, \<^verbatim>\<open>src/http/modules/ngx_http_geo_module.c\<close>: the entries of a geo block put networks
  into a radix tree, or ranges of addresses into arrays, one for each value of the high 16 bits, and
  the variable looks an address up.  A value is the address of its \<^verbatim>\<open>ngx_http_variable_value_t\<close>, and
  \<open>vals\<close> is the memory it is read from: \<open>None\<close> where there is no value, which an access does not survive.
  \<open>geo_value\<close> stands for \<^verbatim>\<open>ngx_http_geo_value\<close> (0 is \<open>NULL\<close>).  The outcomes of the allocations to come
  are the list \<open>gc_mem\<close>, with the end of the list for memory that is used up.  Not modelled: the
  included files and the binary base.
\<close>

section \<open>The arrays of ranges\<close>

record geo_range =
  gr_value :: u64
  gr_start :: "16 word"
  gr_end :: "16 word"

text \<open>\<^verbatim>\<open>ngx_array_push\<close> leaves the bytes of the new element as they are; \<^verbatim>\<open>ngx_memmove\<close> is between elements.\<close>

definition array_push :: "geo_range list \<Rightarrow> geo_range list" where
  "array_push rs = rs @ [\<lparr>gr_value = 0, gr_start = 0, gr_end = 0\<rparr>]"

definition ngx_memmove :: "'a list \<Rightarrow> nat \<Rightarrow> nat \<Rightarrow> nat \<Rightarrow> 'a list" where
  "ngx_memmove a dst src n = take dst a @ take n (drop src a) @ drop (dst + n) a"

record geo_ctx =
  gc_low :: "nat \<rightharpoonup> geo_range list"
  gc_low_allocated :: bool
  gc_default :: u64
  gc_tree :: "radix_tree option"
  gc_pool :: radix_tree
  gc_mem :: "bool list"
  gc_entries :: nat
  gc_outside_entries :: bool
  gc_binary_include :: bool

definition geo_alloc :: "geo_ctx \<Rightarrow> bool \<times> geo_ctx" where
  "geo_alloc c = (case gc_mem c of [] \<Rightarrow> (False, c) | b # bs \<Rightarrow> (b, c\<lparr>gc_mem := bs\<rparr>))"

definition set_low :: "nat \<Rightarrow> geo_range list \<Rightarrow> geo_ctx \<Rightarrow> geo_ctx" where
  "set_low h rs c = c\<lparr>gc_low := (gc_low c)(h \<mapsto> rs)\<rparr>"

section \<open>Adding a range\<close>

text \<open>The search from the last range down, and the case it ends in.\<close>

datatype place = First | After nat | Same nat | Inside nat | Low nat | High nat | Overlap nat

fun geo_place :: "geo_range list \<Rightarrow> nat \<Rightarrow> nat \<Rightarrow> nat \<Rightarrow> place" where
  "geo_place rs 0 s e = First"
| "geo_place rs (Suc i) s e =
     (let r = rs ! i; lo = unat (gr_start r); hi = unat (gr_end r) in
      if e < lo then geo_place rs i s e
      else if hi < s then After i
      else if s = lo \<and> e = hi then Same i
      else if lo < s \<and> e < hi then Inside i
      else if s = lo \<and> e < hi then Low i
      else if lo < s \<and> e = hi then High i
      else Overlap i)"

text \<open>One more element for the block \<open>h\<close>, then the moves and assignments.\<close>

definition geo_push :: "nat \<Rightarrow> geo_ctx \<Rightarrow> (bool \<times> geo_ctx)" where
  "geo_push h c =
     (case geo_alloc c of
        (False, c) \<Rightarrow> (False, c)
      | (True, c) \<Rightarrow> (True, set_low h (array_push (the (gc_low c h))) c))"

definition put_range :: "nat \<Rightarrow> nat \<Rightarrow> nat \<Rightarrow> u64 \<Rightarrow> geo_range list \<Rightarrow> geo_range list" where
  "put_range i s e v rs = rs[i := \<lparr>gr_value = v, gr_start = of_nat s, gr_end = of_nat e\<rparr>]"

definition add_after :: "nat \<Rightarrow> nat \<Rightarrow> nat \<Rightarrow> u64 \<Rightarrow> geo_range list \<Rightarrow> geo_range list" where
  "add_after i s e v rs = put_range (i + 1) s e v (ngx_memmove rs (i + 2) (i + 1) (length rs - 2 - i))"

definition add_inside :: "nat \<Rightarrow> nat \<Rightarrow> nat \<Rightarrow> u64 \<Rightarrow> geo_range list \<Rightarrow> geo_range list" where
  "add_inside i s e v rs =
     (let rs = ngx_memmove rs (i + 3) (i + 1) (length rs - 3 - i);
          rs = rs[i + 2 := \<lparr>gr_value = gr_value (rs ! i), gr_start = of_nat (e + 1), gr_end = gr_end (rs ! i)\<rparr>];
          rs = put_range (i + 1) s e v rs
      in rs[i := (rs ! i)\<lparr>gr_end := of_nat s - 1\<rparr>])"

definition add_low :: "nat \<Rightarrow> nat \<Rightarrow> nat \<Rightarrow> u64 \<Rightarrow> geo_range list \<Rightarrow> geo_range list" where
  "add_low i s e v rs =
     (let rs = ngx_memmove rs (i + 1) i (length rs - 1 - i);
          rs = rs[i + 1 := (rs ! (i + 1))\<lparr>gr_start := of_nat (e + 1)\<rparr>]
      in put_range i s e v rs)"

definition add_high :: "nat \<Rightarrow> nat \<Rightarrow> nat \<Rightarrow> u64 \<Rightarrow> geo_range list \<Rightarrow> geo_range list" where
  "add_high i s e v rs =
     (let rs = ngx_memmove rs (i + 2) (i + 1) (length rs - 2 - i);
          rs = put_range (i + 1) s e v rs
      in rs[i := (rs ! i)\<lparr>gr_end := of_nat s - 1\<rparr>])"

definition on_pushed :: "nat \<Rightarrow> (geo_range list \<Rightarrow> geo_range list) \<Rightarrow> bool \<times> geo_ctx \<Rightarrow> bool \<times> geo_ctx" where
  "on_pushed h f r = (case r of (False, c) \<Rightarrow> (False, c) | (True, c) \<Rightarrow> (True, set_low h (f (the (gc_low c h))) c))"

text \<open>The array of block \<open>h\<close>, and the part of the range in it; \<open>False\<close> is \<^verbatim>\<open>NGX_CONF_ERROR\<close>.\<close>

definition block_array :: "nat \<Rightarrow> geo_ctx \<Rightarrow> bool \<times> geo_ctx" where
  "block_array h c =
     (if gc_low c h = None then
        (case geo_alloc c of (False, c) \<Rightarrow> (False, c) | (True, c) \<Rightarrow> (True, set_low h [] c))
      else (True, c))"

definition place_range :: "nat \<Rightarrow> nat \<Rightarrow> nat \<Rightarrow> u64 \<Rightarrow> geo_ctx \<Rightarrow> bool \<times> geo_ctx" where
  "place_range h s e v c =
     (let rs = the (gc_low c h) in
      (case geo_place rs (length rs) s e of
         After i \<Rightarrow> on_pushed h (add_after i s e v) (geo_push h c)
       | Same i \<Rightarrow> (True, set_low h (rs[i := (rs ! i)\<lparr>gr_value := v\<rparr>]) c)
       | Inside i \<Rightarrow>
           (case geo_push h c of
              (False, c) \<Rightarrow> (False, c)
            | (True, c) \<Rightarrow> on_pushed h (add_inside i s e v) (geo_push h c))
       | Low i \<Rightarrow> on_pushed h (add_low i s e v) (geo_push h c)
       | High i \<Rightarrow> on_pushed h (add_high i s e v) (geo_push h c)
       | Overlap i \<Rightarrow> (False, c)
       | First \<Rightarrow> on_pushed h (\<lambda>rs. put_range (length rs - 1) s e v rs) (geo_push h c)))"

definition geo_add_block :: "nat \<Rightarrow> nat \<Rightarrow> nat \<Rightarrow> u64 \<Rightarrow> geo_ctx \<Rightarrow> bool \<times> geo_ctx" where
  "geo_add_block h s e v c =
     (case block_array h c of (False, c) \<Rightarrow> (False, c) | (True, c) \<Rightarrow> place_range h s e v c)"

definition piece_start :: "u32 \<Rightarrow> u32 \<Rightarrow> nat" where
  "piece_start n start = (if n = start then unat (n AND 0xffff) else 0)"

definition piece_end :: "u32 \<Rightarrow> u32 \<Rightarrow> nat" where
  "piece_end n lst = (if n OR 0xffff > lst then unat (lst AND 0xffff) else 0xffff)"

partial_function (option) geo_add_loop :: "u32 \<Rightarrow> u32 \<Rightarrow> u32 \<Rightarrow> u64 \<Rightarrow> geo_ctx \<Rightarrow> (bool \<times> geo_ctx) option" where
  "geo_add_loop n start lst v c =
     (if n \<le> lst then
        let (ok, c) = geo_add_block (unat (drop_bit 16 n)) (piece_start n start) (piece_end n lst) v c
        in if ok then geo_add_loop ((n + 0x10000) AND 0xffff0000) start lst v c else Some (False, c)
      else Some (True, c))"

definition ngx_http_geo_add_range :: "u32 \<Rightarrow> u32 \<Rightarrow> u64 \<Rightarrow> geo_ctx \<Rightarrow> (bool \<times> geo_ctx) option" where
  "ngx_http_geo_add_range start lst v c = geo_add_loop start start lst v c"

section \<open>Deleting a range\<close>

text \<open>The inner loop: the rest of the array after it, and the warning.\<close>

fun delete_scan :: "nat \<Rightarrow> nat \<Rightarrow> bool \<Rightarrow> geo_range list \<Rightarrow> bool \<times> geo_range list" where
  "delete_scan s e warn [] = (warn, [])"
| "delete_scan s e warn (r # rs) =
     (if s = unat (gr_start r) \<and> e = unat (gr_end r) then (warn, rs)
      else if s \<noteq> unat (gr_start r) \<and> e \<noteq> unat (gr_end r) then
        (let (w, rs) = delete_scan s e warn rs in (w, r # rs))
      else (let (w, rs) = delete_scan s e True rs in (w, r # rs)))"

partial_function (option) geo_delete_loop :: "u32 \<Rightarrow> u32 \<Rightarrow> u32 \<Rightarrow> bool \<Rightarrow> geo_ctx \<Rightarrow> (bool \<times> geo_ctx) option" where
  "geo_delete_loop n start lst warn c =
     (if n \<le> lst then
        let h = unat (drop_bit 16 n) in
        (case gc_low c h of
           None \<Rightarrow> geo_delete_loop (n + 0x10000) start lst True c
         | Some rs \<Rightarrow>
             let (warn, rs) = delete_scan (piece_start n start) (piece_end n lst) warn rs
             in geo_delete_loop (n + 0x10000) start lst warn (set_low h rs c))
      else Some (warn, c))"

definition ngx_http_geo_delete_range :: "u32 \<Rightarrow> u32 \<Rightarrow> geo_ctx \<Rightarrow> (bool \<times> geo_ctx) option" where
  "ngx_http_geo_delete_range start lst c = geo_delete_loop start start lst False c"

section \<open>An entry of a block of ranges\<close>

text \<open>A token of the configuration, with the zero byte that ends it, against a literal.\<close>

definition token_is :: "bytes \<Rightarrow> string \<Rightarrow> bool" where
  "token_is t s \<longleftrightarrow> takeWhile (\<lambda>b. b \<noteq> 0) t = str s"

text \<open>The result of the entry: \<open>True\<close> for \<^verbatim>\<open>NGX_CONF_OK\<close>.  The zero byte is what \<open>net_token\<close> adds to a token.\<close>

definition net_token :: "bytes \<Rightarrow> bytes" where
  "net_token t = t @ [0]"

text \<open>The two ends of a range, in host order, or \<open>None\<close> for \<^verbatim>\<open>invalid\<close>.\<close>

definition range_ends :: "bytes \<Rightarrow> (u32 \<times> u32) option option" where
  "range_ends net = do {
     p \<leftarrow> ngx_strlchr (net_token net) (length net) 0x2d;
     (case p of
        None \<Rightarrow> Some None
      | Some p \<Rightarrow> do {
          start \<leftarrow> ngx_inet_addr (net_token net) p;
          if start = INADDR_NONE then Some None
          else do {
            lst \<leftarrow> ngx_inet_addr (drop (p + 1) (net_token net)) (length net - (p + 1));
            if lst = INADDR_NONE then Some None
            else if ntohl start > ntohl lst then Some None
            else Some (Some (ntohl start, ntohl lst)) } }) }"

definition ngx_http_geo_range :: "(bytes \<Rightarrow> u64) \<Rightarrow> bytes \<Rightarrow> bytes \<Rightarrow> geo_ctx \<Rightarrow> (bool \<times> geo_ctx) option" where
  "ngx_http_geo_range geo_value v0 v1 c =
     (if token_is v0 ''default'' then
        (let d = geo_value v1 in Some (d \<noteq> 0, c\<lparr>gc_default := d\<rparr>))
      else if gc_binary_include c then Some (False, c)
      else
        (case (if gc_low_allocated c then (True, c)
               else (case geo_alloc c of (False, c) \<Rightarrow> (False, c) | (True, c) \<Rightarrow> (True, c\<lparr>gc_low_allocated := True, gc_low := Map.empty\<rparr>))) of
           (False, c) \<Rightarrow> Some (False, c)
         | (True, c) \<Rightarrow>
             let c = c\<lparr>gc_entries := gc_entries c + 1, gc_outside_entries := True\<rparr>;
                 del = token_is v0 ''delete'';
                 net = (if del then v1 else v0) in
             (case range_ends net of
                None \<Rightarrow> None
              | Some None \<Rightarrow> Some (False, c)
              | Some (Some (start, lst)) \<Rightarrow>
                  if del then map_option (\<lambda>(warn, c). (True, c)) (ngx_http_geo_delete_range start lst c)
                  else if geo_value v1 = 0 then Some (False, c)
                  else ngx_http_geo_add_range start lst (geo_value v1) c)))"

section \<open>The end of the block, and the variable\<close>

text \<open>A slot is \<open>NULL\<close>, a copy of the ranges with a \<open>NULL\<close> after them, or still the \<^verbatim>\<open>ngx_array_t\<close>, in a pool
  that is destroyed.\<close>

datatype geo_slot = Slot_null | Slot_ranges "geo_range list" | Slot_array

record geo_high =
  gh_default :: u64
  gh_low :: "nat \<Rightarrow> geo_slot"

text \<open>What the variable is given, and the context: \<^verbatim>\<open>geo->u.high = ctx.high\<close> copies the default before the
  context gets that of a block without one, the address of \<^verbatim>\<open>ngx_http_variable_null_value\<close>.  (The copies of
  the ranges are taken to be allocated.)\<close>

definition geo_block_end :: "u64 \<Rightarrow> geo_ctx \<Rightarrow> geo_high \<times> geo_ctx" where
  "geo_block_end null_value c =
     (let low = (\<lambda>h. case gc_low c h of None \<Rightarrow> Slot_null | Some rs \<Rightarrow> if rs = [] then Slot_array else Slot_ranges rs);
          high = \<lparr>gh_default = gc_default c, gh_low = low\<rparr>
      in (high, if gc_default c = 0 then c\<lparr>gc_default := null_value\<rparr> else c))"

text \<open>\<^verbatim>\<open>do { ... } while ((++range)->value)\<close>: the first range is looked at in any case; behind the last one is
  the \<open>NULL\<close>.  \<open>d\<close> is what \<^verbatim>\<open>*v\<close> holds so far.\<close>

fun range_scan :: "(u64 \<rightharpoonup> 'v) \<Rightarrow> nat \<Rightarrow> 'v \<Rightarrow> geo_range list \<Rightarrow> 'v option" where
  "range_scan vals n d [] = Some d"
| "range_scan vals n d (r # rs) =
     (if unat (gr_start r) \<le> n \<and> n \<le> unat (gr_end r) then vals (gr_value r)
      else (case rs of
              [] \<Rightarrow> Some d
            | q # _ \<Rightarrow> if gr_value q = 0 then Some d else range_scan vals n d rs))"

text \<open>Reading the ranges out of a destroyed array is \<open>None\<close>.\<close>

definition ngx_http_geo_range_variable :: "(u64 \<rightharpoonup> 'v) \<Rightarrow> geo_high \<Rightarrow> u32 \<Rightarrow> 'v option" where
  "ngx_http_geo_range_variable vals high addr = do {
     v \<leftarrow> vals (gh_default high);
     (case gh_low high (unat (drop_bit 16 addr)) of
        Slot_null \<Rightarrow> Some v
      | Slot_ranges rs \<Rightarrow> range_scan vals (unat (addr AND 0xffff)) v rs
      | Slot_array \<Rightarrow> None) }"

section \<open>An entry of a block of networks\<close>

definition ngx_http_geo_cidr_value :: "bytes \<Rightarrow> (ngx_rc \<times> u32 \<times> u32) option" where
  "ngx_http_geo_cidr_value net =
     (if token_is net ''255.255.255.255'' then Some (NGX_OK, 0xffffffff, 0xffffffff)
      else do {
        (rc, cidr) \<leftarrow> ngx_ptocidr (net_token net) (length net) (replicate 16 0);
        if rc = NGX_ERROR then Some (NGX_ERROR, 0, 0)
        else (case cidr of
                Cidr_in6 _ _ \<Rightarrow> Some (NGX_ERROR, 0, 0)
              | Cidr_in a m \<Rightarrow> Some (NGX_OK, ntohl a, ntohl m)) })"

text \<open>\<^verbatim>\<open>for (i = 2; i; i--)\<close>, with the operations of the tree.\<close>

fun geo_put ::
  "(u32 \<Rightarrow> u32 \<Rightarrow> u64 \<Rightarrow> 't \<Rightarrow> (ngx_rc \<times> 't) option) \<Rightarrow> (u32 \<Rightarrow> u32 \<Rightarrow> 't \<Rightarrow> (ngx_rc \<times> 't) option) \<Rightarrow>
   ('t \<Rightarrow> u32 \<Rightarrow> u64 option) \<Rightarrow> nat \<Rightarrow> u32 \<Rightarrow> u32 \<Rightarrow> u64 \<Rightarrow> 't \<Rightarrow> (bool \<times> 't) option" where
  "geo_put ins del fnd 0 addr msk v t = Some (False, t)"
| "geo_put ins del fnd (Suc i) addr msk v t = do {
     (rc, t) \<leftarrow> ins addr msk v t;
     if rc = NGX_OK then Some (True, t)
     else if rc = NGX_ERROR then Some (False, t)
     else do {
       old \<leftarrow> fnd t (addr AND msk);
       (rc, t) \<leftarrow> del addr msk t;
       if rc = NGX_ERROR then Some (False, t) else geo_put ins del fnd i addr msk v t } }"

definition ngx_http_geo_cidr :: "bool \<Rightarrow> (bytes \<Rightarrow> u64) \<Rightarrow> bytes \<Rightarrow> bytes \<Rightarrow> geo_ctx \<Rightarrow> (bool \<times> geo_ctx) option" where
  "ngx_http_geo_cidr allocated geo_value v0 v1 c = do {
     t \<leftarrow> (case gc_tree c of Some t \<Rightarrow> Some (Some t) | None \<Rightarrow> ngx_radix_tree_create allocated (-1) (gc_pool c));
     (case t of
        None \<Rightarrow> Some (False, c)
      | Some t \<Rightarrow> do {
          let c = c\<lparr>gc_tree := Some t\<rparr>;
          (rc, addr, msk) \<leftarrow> (if token_is v0 ''default'' then Some (NGX_OK, 0, 0)
             else ngx_http_geo_cidr_value (if token_is v0 ''delete'' then v1 else v0));
          if rc \<noteq> NGX_OK then Some (False, c)
          else if token_is v0 ''delete'' then do {
            (rc, t) \<leftarrow> ngx_radix32tree_delete addr msk t;
            Some (True, c\<lparr>gc_tree := Some t\<rparr>) }
          else if geo_value v1 = 0 then Some (False, c)
          else do {
            (ok, t) \<leftarrow> geo_put ngx_radix32tree_insert ngx_radix32tree_delete ngx_radix32tree_find 2 addr msk (geo_value v1) t;
            Some (ok, c\<lparr>gc_tree := Some t\<rparr>) } }) }"

text \<open>The tree at the end of the block, with a value for every address, and the variable.\<close>

definition geo_tree_end :: "bool \<Rightarrow> u64 \<Rightarrow> geo_ctx \<Rightarrow> radix_tree option option" where
  "geo_tree_end allocated null_value c = do {
     t \<leftarrow> (case gc_tree c of Some t \<Rightarrow> Some (Some t) | None \<Rightarrow> ngx_radix_tree_create allocated (-1) (gc_pool c));
     (case t of
        None \<Rightarrow> Some None
      | Some t \<Rightarrow> do {
          v \<leftarrow> ngx_radix32tree_find t 0;
          if v \<noteq> NGX_RADIX_NO_VALUE then Some (Some t)
          else do {
            (rc, t) \<leftarrow> ngx_radix32tree_insert 0 0 null_value t;
            Some (if rc = NGX_ERROR then None else Some t) } }) }"

definition ngx_http_geo_cidr_variable :: "(u64 \<rightharpoonup> 'v) \<Rightarrow> radix_tree \<Rightarrow> u32 \<Rightarrow> 'v option" where
  "ngx_http_geo_cidr_variable vals t addr = do { vv \<leftarrow> ngx_radix32tree_find t addr; vals vv }"

section \<open>The address\<close>

text \<open>The scan of the X-Forwarded-For value from its end: the position after the last space or comma.\<close>

fun last_field :: "bytes \<Rightarrow> nat \<Rightarrow> nat option" where
  "last_field ip 0 = Some 0"
| "last_field ip (Suc p) = do {
     b \<leftarrow> rd ip (Suc p);
     if b = 0x20 \<or> b = 0x2c then Some (Suc (Suc p)) else last_field ip p }"

definition ngx_http_geo_addr :: "u32 \<Rightarrow> bytes option \<Rightarrow> (u32 \<times> u32) list option \<Rightarrow> u32 option" where
  "ngx_http_geo_addr addr xfwd proxies =
     (case (xfwd, proxies) of
        (Some ip, Some ps) \<Rightarrow>
          if list_ex (\<lambda>(a, m). addr AND m = a) ps then do {
            p \<leftarrow> last_field ip (length ip - 1);
            map_option ntohl (ngx_inet_addr (drop p ip) (length ip - p)) }
          else Some addr
      | _ \<Rightarrow> Some addr)"


section \<open>The moves within an array\<close>

definition range :: "nat \<Rightarrow> nat \<Rightarrow> u64 \<Rightarrow> geo_range" where
  "range s e v = \<lparr>gr_value = v, gr_start = of_nat s, gr_end = of_nat e\<rparr>"

named_theorems array_moves \<open>the arrays after the moves\<close>

lemma after_move [array_moves]:
  "add_after (length xs) s e v (array_push (xs @ r # ys)) = xs @ r # range s e v # ys"
  by (cases ys) (simp_all add: add_after_def put_range_def ngx_memmove_def array_push_def range_def list_update_append)

lemma low_move [array_moves]:
  "add_low (length xs) s e v (array_push (xs @ r # ys)) = xs @ range s e v # r\<lparr>gr_start := of_nat (e + 1)\<rparr> # ys"
  by (simp add: add_low_def put_range_def ngx_memmove_def array_push_def range_def list_update_append nth_append)

lemma high_move [array_moves]:
  "add_high (length xs) s e v (array_push (xs @ r # ys)) = xs @ r\<lparr>gr_end := of_nat s - 1\<rparr> # range s e v # ys"
  by (cases ys) (simp_all add: add_high_def put_range_def ngx_memmove_def array_push_def range_def list_update_append nth_append)

lemma inside_move [array_moves]:
  "add_inside (length xs) s e v (array_push (array_push (xs @ r # ys))) =
    xs @ r\<lparr>gr_end := of_nat s - 1\<rparr> # range s e v # \<lparr>gr_value = gr_value r, gr_start = of_nat (e + 1), gr_end = gr_end r\<rparr> # ys"
proof (cases ys)
  case (Cons y zs)
  then show ?thesis
    by (cases zs) (simp_all add: add_inside_def put_range_def ngx_memmove_def array_push_def range_def list_update_append nth_append Let_def)
qed (simp add: add_inside_def put_range_def ngx_memmove_def array_push_def range_def list_update_append nth_append Let_def)

section \<open>One block\<close>

definition covers :: "geo_range \<Rightarrow> nat \<Rightarrow> bool" where
  "covers r n \<longleftrightarrow> unat (gr_start r) \<le> n \<and> n \<le> unat (gr_end r)"

definition range_below :: "geo_range \<Rightarrow> geo_range \<Rightarrow> bool" where
  "range_below r q \<longleftrightarrow> unat (gr_end r) < unat (gr_start q)"

definition ranges_ok :: "geo_range list \<Rightarrow> bool" where
  "ranges_ok rs \<longleftrightarrow> sorted_wrt range_below rs \<and> (\<forall>r \<in> set rs. unat (gr_start r) \<le> unat (gr_end r)) \<and>
     (\<forall>r \<in> set rs. gr_value r \<noteq> 0)"

text \<open>The address of the value that the ranges give to \<open>n\<close>, with \<open>d\<close> for none.\<close>

fun value_at :: "nat \<Rightarrow> u64 \<Rightarrow> geo_range list \<Rightarrow> u64" where
  "value_at n d [] = d"
| "value_at n d (r # rs) = (if unat (gr_start r) \<le> n \<and> n \<le> unat (gr_end r) then gr_value r else value_at n d rs)"

lemma range_scan_value:
  assumes "\<forall>r \<in> set rs. gr_value r \<noteq> 0" and "vals d = Some dv"
  shows "range_scan vals n dv rs = vals (value_at n d rs)"
  using assms by (induction vals n dv rs rule: range_scan.induct) (auto split: list.splits)

lemma range_fields:
  "s < 65536 \<Longrightarrow> unat (gr_start (range s e v)) = s" "e < 65536 \<Longrightarrow> unat (gr_end (range s e v)) = e" "gr_value (range s e v) = v"
  by (simp_all add: range_def unsigned_of_nat take_bit_nat_eq_self)

lemma unat_16: "unat (w :: 16 word) < 65536"
  using unsigned_less [of w] by simp

lemma unat_16_pred: "0 < s \<Longrightarrow> s < 65536 \<Longrightarrow> unat (of_nat s - 1 :: 16 word) = s - 1"
proof -
  assume "0 < s" "s < 65536"
  then have "(of_nat s - 1 :: 16 word) = of_nat (s - 1)" by (simp add: of_nat_diff)
  then show ?thesis using \<open>s < 65536\<close> by (simp add: unsigned_of_nat take_bit_nat_eq_self)
qed

lemma unat_16_of: "s < 65536 \<Longrightarrow> unat (of_nat s :: 16 word) = s"
  by (simp add: unsigned_of_nat take_bit_nat_eq_self)

lemma scan_append: "value_at n d (xs @ ys) = value_at n (value_at n d ys) xs"
  by (induction xs) auto

lemma scan_none: "\<forall>r \<in> set xs. \<not> covers r n \<Longrightarrow> value_at n d xs = d"
  by (induction xs) (auto simp: covers_def)

lemma scan_Cons: "value_at n d (r # rs) = (if covers r n then gr_value r else value_at n d rs)"
  by (simp add: covers_def)

lemma place_ok:
  assumes "geo_place rs k s e = p" "k \<le> length rs"
  shows "case p of First \<Rightarrow> \<forall>j < k. e < unat (gr_start (rs ! j))
    | After i \<Rightarrow> i < k \<and> unat (gr_end (rs ! i)) < s \<and> (\<forall>j. i < j \<and> j < k \<longrightarrow> e < unat (gr_start (rs ! j)))
    | Same i \<Rightarrow> i < k \<and> s = unat (gr_start (rs ! i)) \<and> e = unat (gr_end (rs ! i))
    | Inside i \<Rightarrow> i < k \<and> unat (gr_start (rs ! i)) < s \<and> e < unat (gr_end (rs ! i))
    | Low i \<Rightarrow> i < k \<and> s = unat (gr_start (rs ! i)) \<and> e < unat (gr_end (rs ! i))
    | High i \<Rightarrow> i < k \<and> unat (gr_start (rs ! i)) < s \<and> e = unat (gr_end (rs ! i))
    | Overlap i \<Rightarrow> True"
  using assms
proof (induction k)
  case (Suc k)
  then show ?case
    by (auto simp: Let_def less_Suc_eq split: if_splits place.splits)
qed auto


definition new_ranges :: "nat \<Rightarrow> nat \<Rightarrow> u64 \<Rightarrow> geo_range list \<Rightarrow> geo_range list option" where
  "new_ranges s e v rs =
     (case geo_place rs (length rs) s e of
        After i \<Rightarrow> Some (add_after i s e v (array_push rs))
      | Same i \<Rightarrow> Some (rs[i := (rs ! i)\<lparr>gr_value := v\<rparr>])
      | Inside i \<Rightarrow> Some (add_inside i s e v (array_push (array_push rs)))
      | Low i \<Rightarrow> Some (add_low i s e v (array_push rs))
      | High i \<Rightarrow> Some (add_high i s e v (array_push rs))
      | Overlap i \<Rightarrow> None
      | First \<Rightarrow> Some (put_range (length rs) s e v (array_push rs)))"

lemma geo_alloc_low: "geo_alloc c = (b, c') \<Longrightarrow> gc_low c' = gc_low c \<and> gc_default c' = gc_default c"
  by (auto simp: geo_alloc_def split: list.splits)

lemma geo_push_low: "geo_push h c = (True, c') \<Longrightarrow>
    gc_low c' = (gc_low c)(h \<mapsto> array_push (the (gc_low c h))) \<and> gc_default c' = gc_default c"
  by (auto simp: geo_push_def set_low_def dest: geo_alloc_low split: prod.splits bool.splits)

lemma on_pushed_low:
  "on_pushed h f r = (True, c') \<Longrightarrow> \<exists>c. r = (True, c) \<and> gc_low c' = (gc_low c)(h \<mapsto> f (the (gc_low c h))) \<and>
    gc_default c' = gc_default c"
  by (auto simp: on_pushed_def set_low_def split: prod.splits bool.splits)

definition block :: "geo_ctx \<Rightarrow> nat \<Rightarrow> geo_range list" where
  "block c h = (case gc_low c h of None \<Rightarrow> [] | Some rs \<Rightarrow> rs)"

lemma block_array_low: "block_array h c = (True, c') \<Longrightarrow>
    gc_low c' = (gc_low c)(h \<mapsto> block c h) \<and> gc_default c' = gc_default c"
  by (auto simp: block_array_def block_def set_low_def fun_upd_triv dest: geo_alloc_low split: if_splits prod.splits bool.splits option.splits)

lemma place_range_low:
  assumes "place_range h s e v c = (True, c')" "gc_low c h = Some rs"
  shows "\<exists>rs'. new_ranges s e v rs = Some rs' \<and> gc_low c' = (gc_low c)(h \<mapsto> rs') \<and> gc_default c' = gc_default c"
  using assms unfolding place_range_def new_ranges_def
  by (cases "geo_place rs (length rs) s e")
    (auto simp: set_low_def array_push_def Let_def dest!: on_pushed_low geo_push_low split: prod.splits bool.splits)

lemma add_block_low:
  assumes "geo_add_block h s e v c = (True, c')"
  shows "\<exists>rs. new_ranges s e v (block c h) = Some rs \<and> gc_low c' = (gc_low c)(h \<mapsto> rs) \<and> gc_default c' = gc_default c"
proof -
  obtain c1 where c1: "block_array h c = (True, c1)" "place_range h s e v c1 = (True, c')"
    using assms by (auto simp: geo_add_block_def split: prod.splits bool.splits)
  note l = block_array_low [OF c1(1)]
  show ?thesis using place_range_low [OF c1(2), of "block c h"] l by auto
qed

lemma new_ranges_ok:
  assumes ok: "ranges_ok rs" and se: "s \<le> e" "e < 65536" and first: "rs = [] \<or> unat (gr_start (hd rs)) \<le> e"
    and v: "v \<noteq> 0" and new: "new_ranges s e v rs = Some rs'"
  shows "rs' \<noteq> [] \<and> ranges_ok rs' \<and> (\<forall>n d. value_at n d rs' = (if s \<le> n \<and> n \<le> e then v else value_at n d rs))"
proof (cases "rs = []")
  case True
  then show ?thesis
    using new se v by (auto simp: new_ranges_def put_range_def array_push_def ranges_ok_def unat_16_of)
next
  case False
  define p where "p = geo_place rs (length rs) s e"
  note pl = place_ok [OF p_def [symmetric] order_refl] and new' = new [unfolded new_ranges_def p_def [symmetric]]
  have "0 < length rs" using False by simp
  then have "p \<noteq> First" using pl first False by (cases p) (auto simp: hd_conv_nth simp del: length_greater_0_conv)
  moreover have "p \<noteq> Overlap i" for i using new' by auto
  ultimately obtain i where i: "p = After i \<or> p = Same i \<or> p = Inside i \<or> p = Low i \<or> p = High i" by (cases p) auto
  define xs r ys where d: "xs = take i rs" "r = rs ! i" "ys = drop (Suc i) rs"
  have il: "i < length rs" using pl i by (auto split: place.splits)
  then have rs: "rs = xs @ r # ys" and i_len: "i = length xs" by (simp_all add: d id_take_nth_drop)
  have s: "sorted_wrt range_below xs" "sorted_wrt range_below ys" "\<forall>x \<in> set xs. range_below x r" "\<forall>y \<in> set ys. range_below r y"
      "\<forall>x \<in> set xs. \<forall>y \<in> set ys. range_below x y" "unat (gr_start r) \<le> unat (gr_end r)"
      "\<forall>q \<in> set xs \<union> set ys. unat (gr_start q) \<le> unat (gr_end q)"
      "\<forall>q \<in> set xs \<union> set ys. gr_value q \<noteq> 0" "gr_value r \<noteq> 0"
    using ok by (auto simp: ranges_ok_def rs sorted_wrt_append)
  have re: "unat (gr_end r) < 65536" by (rule unat_16)
  note su = s(1-2) s(3-5) [unfolded range_below_def] s(6-7)
  have nc: "\<forall>x \<in> set xs. \<not> covers x n" if "unat (gr_start r) \<le> n" for n
    using su(3) that by (auto simp: covers_def)
  have sc: "value_at n d (xs @ zs) = value_at n d zs" if "unat (gr_start r) \<le> n" for n d zs
    using scan_none [OF nc [OF that]] by (simp add: scan_append)
  have local: "value_at n d (xs @ zs) = (if s \<le> n \<and> n \<le> e then v else value_at n d rs)"
    if "\<And>n d. value_at n d zs = (if s \<le> n \<and> n \<le> e then v else value_at n d (r # ys))" "unat (gr_start r) \<le> s" for zs n d
    using sc [of n d zs] that by (cases "s \<le> n \<and> n \<le> e") (auto simp: rs scan_append)
  from i show ?thesis
  proof (elim disjE)
    assume p: "p = After i"
    have a: "unat (gr_end r) < s" using pl p by (simp add: d)
    have b: "\<forall>y \<in> set ys. e < unat (gr_start y)"
    proof
      fix y assume "y \<in> set ys"
      then obtain j where "j < length ys" "y = ys ! j" by (auto simp: in_set_conv_nth)
      then have "y = rs ! (Suc i + j)" "Suc i + j < length rs" using il by (simp_all add: d)
      then show "e < unat (gr_start y)" using pl p by simp
    qed
    have rs': "rs' = xs @ r # range s e v # ys"
      using new' p by (simp add: array_moves i_len rs)
    have "ranges_ok rs'"
      using s a b se su v by (fastforce simp: ranges_ok_def rs' sorted_wrt_append range_below_def range_fields)
    moreover have "value_at n d (r # range s e v # ys) = (if s \<le> n \<and> n \<le> e then v else value_at n d (r # ys))" for n d
      using a se by (auto simp: scan_Cons covers_def range_fields)
    then have "value_at n d rs' = (if s \<le> n \<and> n \<le> e then v else value_at n d rs)" for n d
      using local [of "r # range s e v # ys"] a s(6) by (simp add: rs')
    ultimately show ?thesis by (simp add: rs')
  next
    assume p: "p = Same i"
    have a: "s = unat (gr_start r)" "e = unat (gr_end r)" using pl p by (simp_all add: d)
    have rs': "rs' = xs @ r\<lparr>gr_value := v\<rparr> # ys"
      using new' p by (simp add: i_len rs list_update_append)
    have "ranges_ok rs'"
      using s v by (auto simp: ranges_ok_def rs' sorted_wrt_append range_below_def)
    moreover have "value_at n d (r\<lparr>gr_value := v\<rparr> # ys) = (if s \<le> n \<and> n \<le> e then v else value_at n d (r # ys))" for n d
      using a by auto
    then have "value_at n d rs' = (if s \<le> n \<and> n \<le> e then v else value_at n d rs)" for n d
      using local [of "r\<lparr>gr_value := v\<rparr> # ys"] a by (simp add: rs')
    ultimately show ?thesis by (simp add: rs')
  next
    assume p: "p = Inside i"
    have a: "unat (gr_start r) < s" "e < unat (gr_end r)" using pl p by (simp_all add: d)
    let ?q = "\<lparr>gr_value = gr_value r, gr_start = of_nat (e + 1), gr_end = gr_end r\<rparr>"
    let ?l = "r\<lparr>gr_end := of_nat s - 1\<rparr>"
    have rs': "rs' = xs @ ?l # range s e v # ?q # ys"
      using new' p by (simp add: array_moves i_len rs)
    have f: "unat (gr_start ?q) = e + 1" "unat (gr_end ?l) = s - 1"
      using a se re unat_16_of [of "e + 1"] unat_16_pred [of s] by auto
    have "ranges_ok rs'"
      using s a se su f v by (fastforce simp: ranges_ok_def rs' sorted_wrt_append range_below_def range_fields)
    moreover have "value_at n d (?l # range s e v # ?q # ys) = (if s \<le> n \<and> n \<le> e then v else value_at n d (r # ys))" for n d
      using a se f s(6) by (auto simp: scan_Cons covers_def range_fields simp del: of_nat_add of_nat_Suc)
    then have "value_at n d rs' = (if s \<le> n \<and> n \<le> e then v else value_at n d rs)" for n d
      using local [of "?l # range s e v # ?q # ys"] a by (simp add: rs' del: of_nat_add of_nat_Suc)
    ultimately show ?thesis by (simp add: rs')
  next
    assume p: "p = Low i"
    have a: "s = unat (gr_start r)" "e < unat (gr_end r)" using pl p by (simp_all add: d)
    let ?q = "r\<lparr>gr_start := of_nat (e + 1)\<rparr>"
    have rs': "rs' = xs @ range s e v # ?q # ys"
      using new' p by (simp add: array_moves i_len rs)
    have f: "unat (gr_start ?q) = e + 1" using a se re unat_16_of [of "e + 1"] by auto
    have "ranges_ok rs'"
      using s a se su f v by (fastforce simp: ranges_ok_def rs' sorted_wrt_append range_below_def range_fields)
    moreover have "value_at n d (range s e v # ?q # ys) = (if s \<le> n \<and> n \<le> e then v else value_at n d (r # ys))" for n d
      using a se f s(6) by (auto simp: scan_Cons covers_def range_fields simp del: of_nat_add of_nat_Suc)
    then have "value_at n d rs' = (if s \<le> n \<and> n \<le> e then v else value_at n d rs)" for n d
      using local [of "range s e v # ?q # ys"] a by (simp add: rs' del: of_nat_add of_nat_Suc)
    ultimately show ?thesis by (simp add: rs')
  next
    assume p: "p = High i"
    have a: "unat (gr_start r) < s" "e = unat (gr_end r)" using pl p by (simp_all add: d)
    let ?l = "r\<lparr>gr_end := of_nat s - 1\<rparr>"
    have rs': "rs' = xs @ ?l # range s e v # ys"
      using new' p by (simp add: array_moves i_len rs)
    have f: "unat (gr_end ?l) = s - 1" using a se unat_16_pred [of s] by auto
    have "ranges_ok rs'"
      using s a se su f v by (fastforce simp: ranges_ok_def rs' sorted_wrt_append range_below_def range_fields)
    moreover have "value_at n d (?l # range s e v # ys) = (if s \<le> n \<and> n \<le> e then v else value_at n d (r # ys))" for n d
      using a se f s(6) by (auto simp: scan_Cons covers_def range_fields)
    then have "value_at n d rs' = (if s \<le> n \<and> n \<le> e then v else value_at n d rs)" for n d
      using local [of "?l # range s e v # ys"] a by (simp add: rs')
    ultimately show ?thesis by (simp add: rs')
  qed
qed


section \<open>The blocks of a range\<close>

definition block_of :: "u32 \<Rightarrow> nat" where "block_of a = unat a div 65536"
definition low_of :: "u32 \<Rightarrow> nat" where "low_of a = unat a mod 65536"

lemma unat_32: "unat (a :: u32) < 4294967296"
  using unsigned_less [of a] by simp

lemma block_low: "unat a = block_of a * 65536 + low_of a" "low_of a < 65536" "block_of a < 65536"
  using unat_32 [of a] by (simp_all add: block_of_def low_of_def)

lemma block_word: "unat (drop_bit 16 a) = block_of a" "unat (a AND 0xffff) = low_of a"
proof -
  show "unat (drop_bit 16 a) = block_of a" by (simp add: block_of_def drop_bit_eq_div unat_div)
  have "a AND 0xffff = take_bit 16 a" by (simp add: take_bit_eq_mask mask_eq_exp_minus_1)
  then show "unat (a AND 0xffff) = low_of a" by (simp add: low_of_def take_bit_eq_mod unat_mod)
qed

lemma unat_high: "unat (push_bit 16 (drop_bit 16 a)) = block_of a * 65536"
  using block_low [of a] by (simp add: push_bit_eq_mult unat_word_ariths block_word)

lemma unat_or_ffff: "unat (a OR 0xffff) = block_of a * 65536 + 65535"
proof -
  have "push_bit 16 (drop_bit 16 a) + mask 16 = push_bit 16 (drop_bit 16 a) OR mask 16"
    by (rule disjunctive_add) (auto simp: bit_simps)
  also have "\<dots> = a OR mask 16" by (rule bit_word_eqI) (auto simp: bit_simps)
  finally have "a OR 0xffff = push_bit 16 (drop_bit 16 a) + 0xffff" by (simp add: mask_eq_exp_minus_1)
  then show ?thesis using block_low [of a] unat_high [of a] by (simp add: unat_word_ariths)
qed

lemma unat_and_high: "unat (a AND 0xffff0000) = block_of a * 65536"
proof -
  have "a AND NOT (mask 16) = push_bit 16 (drop_bit 16 a)" by (rule bit_word_eqI) (auto simp: bit_simps)
  then have "a AND - 65536 = push_bit 16 (drop_bit 16 a)" by (simp add: mask_eq_exp_minus_1)
  moreover have "(- 65536 :: u32) = 0xffff0000" by simp
  ultimately show ?thesis using unat_high [of a] by (simp only:)
qed

lemma next_block:
  assumes "block_of a < 65535"
  shows "unat ((a + 0x10000) AND 0xffff0000) = (block_of a + 1) * 65536"
proof -
  have "unat (a + 0x10000) = unat a + 65536" using assms block_low [of a] by (simp add: unat_word_ariths)
  then have "block_of (a + 0x10000) = block_of a + 1" by (simp add: block_of_def)
  then show ?thesis by (simp only: unat_and_high)
qed

text \<open>What an address is mapped to, with the ranges that are there; the ranges of each block in order.\<close>

definition geo_at :: "geo_ctx \<Rightarrow> u64 \<Rightarrow> u32 \<Rightarrow> u64" where
  "geo_at c d addr = value_at (low_of addr) d (block c (block_of addr))"

definition geo_ok :: "geo_ctx \<Rightarrow> bool" where
  "geo_ok c \<longleftrightarrow> (\<forall>h rs. gc_low c h = Some rs \<longrightarrow> rs \<noteq> [] \<and> ranges_ok rs)"

text \<open>The entries come in growing order: the part of the range in a block is not below all the ranges there.\<close>

definition growing :: "geo_ctx \<Rightarrow> u32 \<Rightarrow> u32 \<Rightarrow> bool" where
  "growing c start lst \<longleftrightarrow> (\<forall>h rs. block_of start \<le> h \<and> h \<le> block_of lst \<and> gc_low c h = Some rs \<longrightarrow>
     unat (gr_start (hd rs)) \<le> (if h = block_of lst then low_of lst else 65535))"

lemma pieces:
  assumes "n \<le> lst" "n = start \<or> low_of n = 0 \<and> block_of start < block_of n"
  shows "piece_start n start = low_of n"
    and "piece_end n lst = (if block_of n = block_of lst then low_of lst else 65535)"
    and "piece_start n start \<le> piece_end n lst" "piece_end n lst < 65536"
proof -
  have le: "unat n \<le> unat lst" using assms(1) by (simp add: word_le_nat_alt)
  show s: "piece_start n start = low_of n" using assms(2) by (auto simp: piece_start_def block_word)
  have "n OR 0xffff > lst \<longleftrightarrow> unat lst < block_of n * 65536 + 65535"
    by (simp add: word_less_nat_alt unat_or_ffff)
  then show e: "piece_end n lst = (if block_of n = block_of lst then low_of lst else 65535)"
    using le block_low [of n] block_low [of lst] by (auto simp: piece_end_def block_word)
  show "piece_start n start \<le> piece_end n lst" "piece_end n lst < 65536"
    unfolding s e using le block_low [of n] block_low [of lst] by auto
qed

lemma add_loop_ok:
  assumes "geo_ok c" "growing c n lst" "block_of lst < 65535" "n = start \<or> low_of n = 0 \<and> block_of start < block_of n"
    and "block_of n \<le> block_of lst + 1" and v: "v \<noteq> 0"
  shows "\<exists>ok c'. geo_add_loop n start lst v c = Some (ok, c') \<and> (ok \<longrightarrow> geo_ok c' \<and> gc_default c' = gc_default c \<and>
     (\<forall>addr d. geo_at c' d addr = (if n \<le> addr \<and> addr \<le> lst then v else geo_at c d addr)))"
  using assms(1-5)
proof (induction "block_of lst + 1 - block_of n" arbitrary: n c rule: less_induct)
  case less
  show ?case
  proof (cases "n \<le> lst")
    case False
    then have "\<not> (n \<le> addr \<and> addr \<le> lst)" for addr by (meson order_trans)
    then show ?thesis using False less.prems by (subst geo_add_loop.simps) auto
  next
    case True
    have le: "unat n \<le> unat lst" using True by (simp add: word_le_nat_alt)
    let ?s = "piece_start n start" and ?e = "piece_end n lst" and ?h = "block_of n"
    note pc = pieces [OF True less.prems(4)]
    obtain ok c1 where b: "geo_add_block ?h ?s ?e v c = (ok, c1)" by (cases "geo_add_block ?h ?s ?e v c")
    have hl: "?h \<le> block_of lst" using le block_low [of n] block_low [of lst] by simp
    let ?n = "(n + 0x10000) AND 0xffff0000"
    show ?thesis
    proof (cases ok)
      case False
      then have "geo_add_loop n start lst v c = Some (False, c1)"
        using True b by (subst geo_add_loop.simps) (simp add: block_word)
      then show ?thesis by blast
    next
      case ok: True
      obtain rs where rs: "new_ranges ?s ?e v (block c ?h) = Some rs" "gc_low c1 = (gc_low c)(?h \<mapsto> rs)" "gc_default c1 = gc_default c"
        using add_block_low [of ?h ?s ?e v c c1] b ok by auto
      have "ranges_ok (block c ?h)" using less.prems(1) by (auto simp: geo_ok_def block_def ranges_ok_def split: option.splits)
      moreover have "block c ?h = [] \<or> unat (gr_start (hd (block c ?h))) \<le> ?e"
        using less.prems(2) [unfolded growing_def, rule_format, of ?h] hl
        by (cases "gc_low c ?h") (simp_all add: block_def pc(2))
      ultimately have new: "rs \<noteq> []" "ranges_ok rs"
          "\<And>x d. value_at x d rs = (if ?s \<le> x \<and> x \<le> ?e then v else value_at x d (block c ?h))"
        using new_ranges_ok [OF _ pc(3,4) _ v rs(1)] by blast+
      have ok1: "geo_ok c1" using less.prems(1) new(1,2) by (auto simp: geo_ok_def rs(2))
      have un: "unat ?n = (?h + 1) * 65536" using next_block [of n] hl less.prems(3) by simp
      then have bn: "block_of ?n = ?h + 1" "low_of ?n = 0" by (simp_all add: block_of_def low_of_def)
      have g1: "growing c1 ?n lst"
        unfolding growing_def
      proof (intro allI impI)
        fix h qs assume "block_of ?n \<le> h \<and> h \<le> block_of lst \<and> gc_low c1 h = Some qs"
        then have "block_of n \<le> h \<and> h \<le> block_of lst \<and> gc_low c h = Some qs" by (auto simp: rs(2) bn(1) split: if_splits)
        then show "unat (gr_start (hd qs)) \<le> (if h = block_of lst then low_of lst else 65535)"
          using less.prems(2) unfolding growing_def by blast
      qed
      have st: "block_of start \<le> ?h" using less.prems(4) by auto
      obtain ok2 c2 where r: "geo_add_loop ?n start lst v c1 = Some (ok2, c2)"
        "ok2 \<longrightarrow> geo_ok c2 \<and> gc_default c2 = gc_default c1 \<and> (\<forall>addr d. geo_at c2 d addr = (if ?n \<le> addr \<and> addr \<le> lst then v else geo_at c1 d addr))"
        using less.hyps [OF _ ok1 g1 less.prems(3)] bn hl st by fastforce
      have at: "(if ?n \<le> addr \<and> addr \<le> lst then v else geo_at c1 d addr) = (if n \<le> addr \<and> addr \<le> lst then v else geo_at c d addr)" for addr d
      proof (cases "block_of addr = ?h")
        case True
        have "\<not> ?n \<le> addr" using un True block_low [of addr] by (simp add: word_le_nat_alt)
        moreover have "n \<le> addr \<longleftrightarrow> low_of n \<le> low_of addr" using True block_low [of addr] block_low [of n] by (simp add: word_le_nat_alt)
        moreover have "addr \<le> lst \<longleftrightarrow> low_of addr \<le> ?e"
          unfolding pc(2) word_le_nat_alt using True hl block_low [of addr] block_low [of lst] by auto
        ultimately show ?thesis using True new(3) by (auto simp: geo_at_def block_def rs(2) pc(1))
      next
        case False
        have "?n \<le> addr \<longleftrightarrow> n \<le> addr" using un False block_low [of addr] block_low [of n] by (auto simp: word_le_nat_alt)
        then show ?thesis using False by (simp add: geo_at_def block_def rs(2))
      qed
      have "geo_add_loop n start lst v c = geo_add_loop ?n start lst v c1"
        using True b ok by (subst geo_add_loop.simps) (simp add: block_word)
      then show ?thesis using r at rs(3) by auto
    qed
  qed
qed

lemma geo_variable:
  assumes "geo_ok c"
  shows "ngx_http_geo_range_variable vals (fst (geo_block_end null c)) addr =
     (if vals (gc_default c) = None then None else vals (geo_at c (gc_default c) addr))"
  using assms
  by (auto simp: ngx_http_geo_range_variable_def geo_block_end_def geo_at_def block_def block_word geo_ok_def
      ranges_ok_def range_scan_value split: option.splits)

text \<open>C20: a range with a value (not \<open>NULL\<close>) that is added in growing order to a block whose ranges are in order,
  disjoint and not empty, as such entries leave them, and that does not reach 255.255.0.0, either is refused or afterwards gives its value to exactly its addresses: the variable,
  which looks at the arrays and the default that the end of the block leaves behind and reads the values
  through their pointers, sees the new value from the first to the last address, whether that needed new,
  split, shortened or replaced ranges in one block of addresses or in many, and for any other address what
  it would have seen before.  All this when the block has a \<open>default\<close>; without one the variable follows a
  null pointer for every address before and after (see \<open>no_default_crashes\<close>).\<close>

theorem geo_add_range_correct:
  assumes "geo_ok c" "growing c start lst" "start \<le> lst" "lst < 0xffff0000" "v \<noteq> 0"
  shows "\<exists>ok c'. ngx_http_geo_add_range start lst v c = Some (ok, c') \<and> (ok \<longrightarrow> geo_ok c' \<and>
     (\<forall>vals null addr. ngx_http_geo_range_variable vals (fst (geo_block_end null c')) addr =
        (if vals (gc_default c) = None then None
         else if start \<le> addr \<and> addr \<le> lst then vals v
         else ngx_http_geo_range_variable vals (fst (geo_block_end null c)) addr)))"
proof -
  have "block_of lst < 65535" using assms(4) block_low [of lst] by (simp add: word_less_nat_alt)
  moreover have "block_of start \<le> block_of lst + 1"
    using assms(3) by (simp add: word_le_nat_alt block_of_def div_le_mono le_SucI)
  ultimately obtain ok c' where "geo_add_loop start start lst v c = Some (ok, c')"
     "ok \<longrightarrow> geo_ok c' \<and> gc_default c' = gc_default c \<and>
     (\<forall>addr d. geo_at c' d addr = (if start \<le> addr \<and> addr \<le> lst then v else geo_at c d addr))"
    using add_loop_ok [OF assms(1,2) _ _ _ assms(5), of start] by blast
  then show ?thesis using assms(1) by (auto simp: ngx_http_geo_add_range_def geo_variable)
qed

definition some_geo :: geo_ctx where
  "some_geo = \<lparr>gc_low = [1 \<mapsto> [\<lparr>gr_value = 7, gr_start = 0, gr_end = 100\<rparr>]], gc_low_allocated = True, gc_default = 9, gc_tree = None,
     gc_pool = page_world, gc_mem = [True, True, True, True, True, True, True, True, True], gc_entries = 0, gc_outside_entries = False, gc_binary_include = False\<rparr>"

lemma geo_add_range_correct_witness:
  "\<exists>ok c'. ngx_http_geo_add_range 0x10005 0x20005 8 some_geo = Some (ok, c') \<and> (ok \<longrightarrow> geo_ok c' \<and>
     (\<forall>null addr. ngx_http_geo_range_variable (\<lambda>a. if a = 0 then None else Some a) (fst (geo_block_end null c')) addr =
        (if 0x10005 \<le> addr \<and> addr \<le> 0x20005 then Some 8
         else ngx_http_geo_range_variable (\<lambda>a. if a = 0 then None else Some a) (fst (geo_block_end null some_geo)) addr)))"
proof -
  have "geo_ok some_geo" by (simp add: geo_ok_def some_geo_def ranges_ok_def)
  moreover have "growing some_geo 0x10005 0x20005" by (simp add: growing_def some_geo_def)
  moreover have d: "gc_default some_geo = 9" by (simp add: some_geo_def)
  moreover have "(0x10005 :: u32) \<le> 0x20005" "(0x20005 :: u32) < 0xffff0000" "(8 :: u64) \<noteq> 0" by simp_all
  ultimately obtain ok c' where r: "ngx_http_geo_add_range 0x10005 0x20005 8 some_geo = Some (ok, c')"
    "ok \<longrightarrow> geo_ok c' \<and> (\<forall>(vals :: u64 \<rightharpoonup> u64) null addr. ngx_http_geo_range_variable vals (fst (geo_block_end null c')) addr =
        (if vals (gc_default some_geo) = None then None else if 0x10005 \<le> addr \<and> addr \<le> 0x20005 then vals 8
         else ngx_http_geo_range_variable vals (fst (geo_block_end null some_geo)) addr))"
    using geo_add_range_correct [where c = some_geo and start = "0x10005" and lst = "0x20005" and v = 8] by blast
  then show ?thesis using d by simp
qed

section \<open>Where the code is not what it means\<close>

text \<open>The range at the bottom is put at the end of the array, which is then out of order: a range within
  one that is there goes in unseen, and never shows.\<close>

definition empty_geo :: geo_ctx where
  "empty_geo = some_geo\<lparr>gc_low := Map.empty\<rparr>"

lemma one_block:
  assumes "start \<le> lst" "block_of start = block_of lst" "block_of lst < 65535"
  shows "ngx_http_geo_add_range start lst v c = Some (geo_add_block (block_of lst) (low_of start) (low_of lst) v c)"
proof -
  obtain ok c' where b: "geo_add_block (block_of lst) (low_of start) (low_of lst) v c = (ok, c')"
    by (cases "geo_add_block (block_of lst) (low_of start) (low_of lst) v c")
  have "unat ((start + 0x10000) AND 0xffff0000) = (block_of lst + 1) * 65536" using next_block [of start] assms by simp
  then have "\<not> (start + 0x10000) AND 0xffff0000 \<le> lst" using block_low [of lst] by (simp add: word_le_nat_alt)
  then show ?thesis
    using b assms pieces(1,2) [OF assms(1), of start] unfolding ngx_http_geo_add_range_def
    by (subst geo_add_loop.simps, cases ok) (simp_all add: block_word geo_add_loop.simps [of "(start + 0x10000) AND 0xffff0000"])
qed

lemmas add_evaluates = one_block block_of_def low_of_def empty_geo_def some_geo_def geo_add_block_def block_array_def
  geo_alloc_def set_low_def place_range_def geo_push_def on_pushed_def array_push_def put_range_def
  add_after_def ngx_memmove_def ngx_http_geo_range_variable_def geo_block_end_def Let_def

lemma first_out_of_order:
  "do { (_, c) \<leftarrow> ngx_http_geo_add_range 200 210 1 empty_geo;
        (_, c) \<leftarrow> ngx_http_geo_add_range 100 110 2 c;
        (ok, c) \<leftarrow> ngx_http_geo_add_range 205 206 3 c;
        v \<leftarrow> ngx_http_geo_range_variable Some (fst (geo_block_end 9 c)) 205;
        Some (ok, v) } = Some (True, 1)"
  by (simp add: add_evaluates)

text \<open>A block without a default: the variable has the null pointer that was copied before it was replaced.\<close>

lemma no_default_crashes:
  assumes "vals 0 = None"
  shows "do { (ok, c) \<leftarrow> ngx_http_geo_add_range 200 210 1 (empty_geo\<lparr>gc_default := 0\<rparr>);
       Some (ok, gc_default (snd (geo_block_end 9 c)), ngx_http_geo_range_variable vals (fst (geo_block_end 9 c)) addr) } =
     Some (True, 9, None)"
  using assms by (simp add: add_evaluates)

text \<open>A block whose ranges have all been deleted is left with its array, in a pool that is destroyed.\<close>

lemma deleted_dangles:
  assumes "gc_low c 0 = Some [\<lparr>gr_value = v, gr_start = 200, gr_end = 210\<rparr>]"
  shows "\<exists>c'. ngx_http_geo_delete_range 200 210 c = Some (False, c') \<and>
    ngx_http_geo_range_variable vals (fst (geo_block_end null c')) 205 = None"
  using assms
  by (simp add: ngx_http_geo_delete_range_def geo_delete_loop.simps [of 200] geo_delete_loop.simps [of 65736]
      piece_start_def piece_end_def set_low_def ngx_http_geo_range_variable_def geo_block_end_def Let_def
      split: option.splits)

text \<open>The deletion goes to the next block without clearing the low bits: the part of the range in its last
  block stays when it ends lower than it began.\<close>

lemma delete_skips:
  assumes "gc_low c 1 = Some [\<lparr>gr_value = v, gr_start = 0x8000, gr_end = 0xffff\<rparr>]" "gc_low c 2 = Some [\<lparr>gr_value = v, gr_start = 0, gr_end = 0x4000\<rparr>]"
  shows "\<exists>c'. ngx_http_geo_delete_range 0x18000 0x24000 c = Some (False, c') \<and> gc_low c' 2 = gc_low c 2"
  using assms
  by (simp add: ngx_http_geo_delete_range_def geo_delete_loop.simps [of "0x18000"] geo_delete_loop.simps [of "0x28000"]
      piece_start_def piece_end_def set_low_def)

text \<open>After the block 255.255 the loop goes on with 0.0.0.0: over ranges that are all there already it never ends.\<close>

definition full_geo :: "u64 \<Rightarrow> geo_ctx \<Rightarrow> bool" where
  "full_geo v c \<longleftrightarrow> (\<forall>h. gc_low c h = Some [\<lparr>gr_value = v, gr_start = 0, gr_end = (if h = 65535 then 0xfffe else 0xffff)\<rparr>])"

lemma add_block_full:
  assumes "full_geo v c" "e = (if h = 65535 then 0xfffe else 0xffff)"
  shows "geo_add_block h 0 e v c = (True, c)"
  using assms by (cases "h = 65535") (simp_all add: geo_add_block_def block_array_def place_range_def full_geo_def set_low_def fun_upd_idem)

lemma add_loop_forever:
  assumes "geo_add_loop n start lst v c = Some r" "start = 0xffff0000" "lst = 0xfffffffe" "low_of n = 0" "full_geo v c"
  shows False
  using assms
proof (induction n start lst v c r rule: geo_add_loop.raw_induct [rotated, consumes 1])
  case (1 f n start lst v c r)
  have n: "unat n = block_of n * 65536" using 1(5) block_low [of n] by simp
  then have le: "n \<le> lst" using block_low [of n] 1(4) by (simp add: word_le_nat_alt)
  have lst: "block_of lst = 65535" "low_of lst = 0xfffe" using 1(4) by (simp_all add: block_of_def low_of_def)
  have "piece_start n start = 0" using 1(5) 1(3) by (auto simp: piece_start_def block_word)
  moreover have "piece_end n lst = (if block_of n = 65535 then 0xfffe else 0xffff)"
    unfolding piece_end_def word_less_nat_alt unat_or_ffff using 1(4) lst block_low [of n] by (auto simp: block_word)
  ultimately have "geo_add_block (unat (drop_bit 16 n)) (piece_start n start) (piece_end n lst) v c = (True, c)"
    using add_block_full [OF 1(6)] by (simp add: block_word)
  moreover have "low_of ((n + 0x10000) AND 0xffff0000) = 0" by (simp add: low_of_def unat_and_high)
  ultimately show ?case using 1 le by simp
qed

lemma add_range_forever: "full_geo v c \<Longrightarrow> ngx_http_geo_add_range 0xffff0000 0xfffffffe v c = None"
  using add_loop_forever [of "0xffff0000" "0xffff0000" "0xfffffffe" v c]
  by (cases "geo_add_loop 0xffff0000 0xffff0000 0xfffffffe v c") (auto simp: ngx_http_geo_add_range_def low_of_def)


section \<open>Networks\<close>

text \<open>What the module relies on in a table of networks.\<close>

locale network_table =
  fixes ins :: "u32 \<Rightarrow> u32 \<Rightarrow> u64 \<Rightarrow> 't \<Rightarrow> (ngx_rc \<times> 't) option"
    and del :: "u32 \<Rightarrow> u32 \<Rightarrow> 't \<Rightarrow> (ngx_rc \<times> 't) option"
    and fnd :: "'t \<Rightarrow> u32 \<Rightarrow> u64 option"
    and tbl :: "'t \<Rightarrow> bool list \<rightharpoonup> u64" and ok :: "'t \<Rightarrow> bool" and can_delete :: "'t \<Rightarrow> bool list \<Rightarrow> bool"
  assumes ins_law: "ok t \<Longrightarrow> \<exists>rc t'. ins key msk v t = Some (rc, t') \<and> ok t' \<and> rc \<in> {NGX_OK, NGX_BUSY, NGX_ERROR} \<and>
      (rc = NGX_BUSY \<longleftrightarrow> tbl t (key_prefix key msk) \<noteq> None) \<and>
      tbl t' = (if rc = NGX_OK then (tbl t)(key_prefix key msk := opt_value v) else tbl t)"
    and busy_law: "ins key msk v t = Some (NGX_BUSY, t') \<Longrightarrow> t' = t"
    and del_law: "ok t \<Longrightarrow> can_delete t (key_prefix key msk) \<Longrightarrow> \<exists>rc t'. del key msk t = Some (rc, t') \<and> ok t' \<and>
      rc \<in> {NGX_OK, NGX_ERROR} \<and> (tbl t (key_prefix key msk) \<noteq> None \<longrightarrow> rc = NGX_OK) \<and> tbl t' = (tbl t)(key_prefix key msk := None)"
    and fnd_law: "ok t \<Longrightarrow> fnd t key = Some (longest_match (tbl t) (key_bits key))"
begin

text \<open>An entry replaces the value of its network; only memory can fail, and then the old value may be gone.\<close>

lemma put_replaces:
  assumes "ok t" "tbl t (key_prefix key msk) = None \<or> can_delete t (key_prefix key msk)"
  shows "\<exists>b t'. geo_put ins del fnd 2 key msk v t = Some (b, t') \<and> ok t' \<and>
     (b \<longrightarrow> tbl t' = (tbl t)(key_prefix key msk := opt_value v)) \<and>
     (\<not> b \<longrightarrow> tbl t' = tbl t \<or> tbl t' = (tbl t)(key_prefix key msk := None))"
proof -
  let ?p = "key_prefix key msk"
  obtain rc t1 where 1: "ins key msk v t = Some (rc, t1)" "ok t1" "rc \<in> {NGX_OK, NGX_BUSY, NGX_ERROR}"
      "rc = NGX_BUSY \<longleftrightarrow> tbl t ?p \<noteq> None" "tbl t1 = (if rc = NGX_OK then (tbl t)(?p := opt_value v) else tbl t)"
    using ins_law [OF assms(1)] by blast
  show ?thesis
  proof (cases "rc = NGX_BUSY")
    case False
    then show ?thesis using 1 by (auto simp: numeral_2_eq_2)
  next
    case busy: True
    then have t1: "t1 = t" using busy_law 1(1) by blast
    obtain rc2 t2 where 2: "del key msk t = Some (rc2, t2)" "ok t2" "rc2 = NGX_OK" "tbl t2 = (tbl t)(?p := None)"
      using del_law [OF assms(1)] assms(2) 1(4) busy by blast
    obtain rc3 t3 where 3: "ins key msk v t2 = Some (rc3, t3)" "ok t3" "rc3 = NGX_OK \<or> rc3 = NGX_ERROR"
        "tbl t3 = (if rc3 = NGX_OK then (tbl t2)(?p := opt_value v) else tbl t2)"
      using ins_law [OF 2(2), of key msk v] 2(4) by auto
    have "geo_put ins del fnd 2 key msk v t = Some (rc3 = NGX_OK, t3)"
      using 1(1) 2(1,3) 3(1,3) busy t1 fnd_law [OF assms(1)] by (auto simp: numeral_2_eq_2)
    then show ?thesis using 2 3 by auto
  qed
qed

end

lemma insert_busy: "ngx_radix32tree_insert key msk v t = Some (NGX_BUSY, t') \<Longrightarrow> t' = t"
  by (auto simp: ngx_radix32tree_insert_def bind_eq_Some_conv split: if_splits option.splits prod.splits)

interpretation radix: network_table ngx_radix32tree_insert ngx_radix32tree_delete ngx_radix32tree_find table radix_ok deletable
  by unfold_locales (rule insert_ok, assumption, erule insert_busy, rule delete_ok, assumption+, erule find_ok)

lemma takeWhile_ones: "takeWhile id (replicate s True @ replicate k False) = replicate s True"
  by (induction s) (cases k; simp)+

lemma mask_len_bits:
  assumes "\<forall>n < 32. bit (msk :: u32) n \<longleftrightarrow> 32 - s \<le> n" "s \<le> 32"
  shows "mask_len msk = s"
proof -
  have "key_bits msk = replicate s True @ replicate (32 - s) False"
    using assms by (intro nth_equalityI) (auto simp: key_bits_def nth_append)
  then show ?thesis by (simp add: mask_len_def takeWhile_ones)
qed

lemma masked_prefix: "key_prefix (a AND m) m = key_prefix a m"
proof (rule nth_equalityI)
  fix i assume "i < length (key_prefix (a AND m) m)"
  then have i: "i < mask_len m" "i < 32" using mask_len_le [of m] by (simp_all add: key_prefix_def)
  then have "bit m (31 - i)" using mask_bit [of i m] by (simp add: and_bit_at [of m i, simplified and.commute] key_bits_def and.commute)
  then show "key_prefix (a AND m) m ! i = key_prefix a m ! i"
    using i by (simp add: key_prefix_def key_bits_def bit_and_iff)
qed (simp add: key_prefix_def)

text \<open>The table of the networks entered so far: none before the first entry creates the tree.\<close>

definition geo_networks :: "geo_ctx \<Rightarrow> bool list \<rightharpoonup> u64" where
  "geo_networks c = (case gc_tree c of None \<Rightarrow> Map.empty | Some t \<Rightarrow> table t)"

definition geo_tree_ok :: "geo_ctx \<Rightarrow> bool" where
  "geo_tree_ok c \<longleftrightarrow> (case gc_tree c of None \<Rightarrow> memory_ok (gc_pool c) | Some t \<Rightarrow> radix_ok t)"

lemma geo_tree_created:
  assumes "geo_tree_ok c"
  obtains r where "(case gc_tree c of Some t \<Rightarrow> Some (Some t) | None \<Rightarrow> ngx_radix_tree_create al (-1) (gc_pool c)) = Some r"
    "\<forall>t. r = Some t \<longrightarrow> radix_ok t \<and> table t = geo_networks c"
  using assms create_ok [of "gc_pool c" "-1" al]
  by (cases "gc_tree c") (auto simp: geo_tree_ok_def geo_networks_def)

text \<open>C21: an entry \<open>address/bits value\<close> of a geo block, the first one, which creates the tree, or any other,
  never fails to return; when it succeeds it gives its value, in place of the one that was there, to the
  network of the first bits of the address, whatever the low bits are, and changes nothing else in the
  table of networks.  The variable then gives every address what stands at the pointer of the longest network of
  the table that it is in, and for an address in no network it follows \<^verbatim>\<open>NGX_RADIX_NO_VALUE\<close>.  The
  conditions: the tree, when there is one, is well-formed (every such entry leaves it so), the address is a dotted one that \<^verbatim>\<open>ngx_inet_addr\<close> reads, there are at most 32 bits, the value is
  not \<open>NULL\<close>, and an entry for 0.0.0.0/0 is the first for that network (a second one is deleted first, where
  the code can crash, see \<open>delete_root_crashes\<close>).\<close>

theorem geo_cidr_entry:
  assumes "geo_tree_ok c" "v \<noteq> 0" "geo_value v1 = v"
    and ip: "ngx_inet_addr ip (length ip) = Some a" "a \<noteq> INADDR_NONE" "0x2f \<notin> set ip" "0 \<notin> set ip"
    and bits: "all_digits ds" "ds \<noteq> []" "dec_val 0 ds \<le> 32" "dec_val 0 ds = 0 \<longrightarrow> geo_networks c [] = None"
  shows "\<exists>ok c'. ngx_http_geo_cidr al geo_value (ip @ 0x2f # ds) v1 c = Some (ok, c') \<and> geo_tree_ok c' \<and>
     (ok \<longrightarrow> geo_networks c' = (geo_networks c)(take (dec_val 0 ds) (key_bits (ntohl a)) := opt_value v)) \<and>
     (\<forall>t. gc_tree c' = Some t \<longrightarrow> (\<forall>vals addr.
        ngx_http_geo_cidr_variable vals t addr = vals (longest_match (geo_networks c') (key_bits addr))))"
proof -
  let ?n = "ip @ 0x2f # ds"
  obtain r where r: "(case gc_tree c of Some t \<Rightarrow> Some (Some t) | None \<Rightarrow> ngx_radix_tree_create al (-1) (gc_pool c)) = Some r"
      "\<forall>t. r = Some t \<longrightarrow> radix_ok t \<and> table t = geo_networks c"
    by (rule geo_tree_created [OF assms(1)])
  obtain m where m: "ngx_ptocidr (ip @ 0x2f # ds @ [0]) (length ?n) (replicate 16 0) = Some (if a AND m = a then NGX_OK else NGX_DONE, Cidr_in (a AND m) m)"
      "\<forall>n < 32. bit (ntohl m) n \<longleftrightarrow> 32 - dec_val 0 ds \<le> n"
    using ptocidr_ipv4 [OF ip(1-3) bits(1-3), of "[0]" "replicate 16 0"] by blast
  have "0 \<notin> set ds" using bits(1) by (auto simp: all_digits_def is_digit_def)
  then have tw: "takeWhile (\<lambda>b. b \<noteq> 0) ?n = ?n" using ip(4) by (auto simp: takeWhile_eq_all_conv)
  have "?n \<noteq> str s" if "0x2f \<notin> set (str s)" for s using that by (metis in_set_conv_decomp)
  then have "\<not> token_is ?n s" if "0x2f \<notin> set (str s)" for s using that tw by (metis token_is_def)
  then have tok: "\<not> token_is ?n ''default''" "\<not> token_is ?n ''delete''" "\<not> token_is ?n ''255.255.255.255''"
    by (simp_all add: str_def)
  have cv: "ngx_http_geo_cidr_value ?n = Some (NGX_OK, ntohl (a AND m), ntohl m)"
    using m(1) tok(3) by (simp add: ngx_http_geo_cidr_value_def net_token_def)
  have len: "mask_len (ntohl m) = dec_val 0 ds" by (rule mask_len_bits [OF m(2) bits(3)])
  have pre: "key_prefix (ntohl (a AND m)) (ntohl m) = take (dec_val 0 ds) (key_bits (ntohl a))"
    by (simp only: ntohl_and masked_prefix) (simp add: key_prefix_def len)
  show ?thesis
  proof (cases r)
    case None
    then have "gc_tree c = None" using r(1) by (auto split: option.splits)
    then have "ngx_http_geo_cidr al geo_value ?n v1 c = Some (False, c)"
      using r(1) None by (simp add: ngx_http_geo_cidr_def)
    then show ?thesis using assms(1) \<open>gc_tree c = None\<close> by (intro exI [of _ False] exI [of _ c]) simp
  next
    case (Some t)
    then have t: "radix_ok t" "table t = geo_networks c" using r(2) by simp_all
    have "table t (key_prefix (ntohl (a AND m)) (ntohl m)) = None \<or> deletable t (key_prefix (ntohl (a AND m)) (ntohl m))"
      using bits(4) unfolding pre deletable_def t(2) by (auto simp flip: length_0_conv)
    from radix.put_replaces [OF t(1) this, of v]
    obtain b t' where p: "geo_put ngx_radix32tree_insert ngx_radix32tree_delete ngx_radix32tree_find 2 (ntohl (a AND m)) (ntohl m) v t = Some (b, t')"
        "radix_ok t'" "b \<longrightarrow> table t' = (table t)(take (dec_val 0 ds) (key_bits (ntohl a)) := opt_value v)"
      unfolding pre by blast
    have "ngx_http_geo_cidr al geo_value ?n v1 c = Some (b, c\<lparr>gc_tree := Some t'\<rparr>)"
      using r(1) Some assms(2,3) tok(1,2) cv p(1) by (simp add: ngx_http_geo_cidr_def)
    then show ?thesis
      using p t(2) find_ok [OF p(2)] by (auto simp: ngx_http_geo_cidr_variable_def geo_tree_ok_def geo_networks_def)
  qed
qed

lemma geo_cidr_entry_witness:
  "\<exists>ok c'. ngx_http_geo_cidr True (\<lambda>_. 5) (str ''192.0.2.1/24'') [] some_geo = Some (ok, c') \<and> geo_tree_ok c' \<and>
     (ok \<longrightarrow> geo_networks c' = [take 24 (key_bits 0xc0000201) \<mapsto> 5])"
proof -
  have "memory_ok page_world" by (simp add: memory_ok_def page_world_def cells_def sizeof_radix_node_def upt_rec)
  then have ok: "geo_tree_ok some_geo" and e: "geo_networks some_geo = Map.empty"
    by (simp_all add: geo_tree_ok_def some_geo_def geo_networks_def)
  have s: "str ''192.0.2.1/24'' = str ''192.0.2.1'' @ 0x2f # str ''24''" by (simp add: str_def)
  have ip: "ngx_inet_addr (str ''192.0.2.1'') (length (str ''192.0.2.1'')) = Some 0x010200c0"
    by (simp add: str_def ngx_inet_addr_def htonl_def)
  have d: "dec_val 0 (str ''24'') = 24" by (simp add: str_def)
  have n: "ntohl 0x010200c0 = 0xc0000201" by (simp add: ntohl_def htonl_def)
  have "\<exists>ok c'. ngx_http_geo_cidr True (\<lambda>_. 5) (str ''192.0.2.1'' @ 0x2f # str ''24'') [] some_geo = Some (ok, c') \<and> geo_tree_ok c' \<and>
     (ok \<longrightarrow> geo_networks c' = (geo_networks some_geo)(take (dec_val 0 (str ''24'')) (key_bits (ntohl 0x010200c0)) := opt_value 5)) \<and>
     (\<forall>t. gc_tree c' = Some t \<longrightarrow> (\<forall>vals :: u64 \<rightharpoonup> u64. \<forall>addr.
        ngx_http_geo_cidr_variable vals t addr = vals (longest_match (geo_networks c') (key_bits addr))))"
    by (rule geo_cidr_entry [OF ok _ _ ip]) (simp_all add: str_def INADDR_NONE_def is_digit_def)
  then show ?thesis unfolding s d n e by (auto simp: opt_value_def NGX_RADIX_NO_VALUE_def)
qed

text \<open>The end of the block gives a value to every address only when 0.0.0.0 has none: with a network that
  holds 0.0.0.0, the addresses in no network are left without one, and the variable follows the value that
  says so.\<close>

lemma longest_match_none: "(\<And>i. i \<le> length bs \<Longrightarrow> m (take i bs) = None) \<Longrightarrow> longest_match m bs = NGX_RADIX_NO_VALUE"
  by (auto simp: longest_match_def filter_empty_conv simp del: upt_Suc split: list.splits dest!: arg_cong [of _ _ set])

lemma longest_match_some:
  assumes "i \<le> length bs" "m (take i bs) \<noteq> None"
  shows "\<exists>j \<le> length bs. m (take j bs) = Some (longest_match m bs)"
proof (cases "filter (\<lambda>i. m (take i bs) \<noteq> None) (rev [0..<Suc (length bs)])")
  case Nil
  then show ?thesis using assms by (auto simp: filter_empty_conv simp del: upt_Suc)
next
  case (Cons j js)
  then have "j \<in> set (filter (\<lambda>i. m (take i bs) \<noteq> None) (rev [0..<Suc (length bs)]))" by simp
  then show ?thesis using Cons by (intro exI [of _ j]) (auto simp: longest_match_def simp del: upt_Suc)
qed

lemma geo_hole:
  assumes "gc_tree c = Some t" "radix_ok t" "table t = [replicate 8 False \<mapsto> v]" "v \<noteq> NGX_RADIX_NO_VALUE"
    and "vals NGX_RADIX_NO_VALUE = None"
  shows "geo_tree_end al null c = Some (Some t) \<and> ngx_http_geo_cidr_variable vals t 0x0a000001 = None"
proof -
  have "take 8 (key_bits 0) = replicate 8 False" by (intro nth_equalityI) (simp_all add: key_bits_def)
  then have "longest_match (table t) (key_bits 0) = v"
    using longest_match_some [of 8 "key_bits 0" "table t"] assms(3) by (auto simp: key_bits_def split: if_splits)
  then have "ngx_radix32tree_find t 0 = Some v" using find_ok [OF assms(2), of 0] by simp
  moreover have "take i (key_bits 0x0a000001) \<noteq> replicate 8 False" for i
  proof
    assume "take i (key_bits 0x0a000001) = replicate 8 False"
    then have "take i (key_bits 0x0a000001) ! 4 = False" "4 < i" by (auto dest: arg_cong [of _ _ length])
    then show False by (simp add: key_bits_def)
  qed
  then have "longest_match (table t) (key_bits 0x0a000001) = NGX_RADIX_NO_VALUE"
    by (intro longest_match_none) (simp add: assms(3))
  ultimately show ?thesis
    using assms find_ok [OF assms(2), of "0x0a000001"] by (simp add: geo_tree_end_def ngx_http_geo_cidr_variable_def)
qed

end
