(* ===== verification/NgxSort.thy ===== *)
theory NgxSort
  imports NgxPrelude "HOL-Library.Multiset"
begin

text \<open>
  The array sort of \<^verbatim>\<open>src/core/ngx_string.c\<close> (\<^verbatim>\<open>ngx_sort\<close>): an insertion sort that moves
  elements of a C array one slot up while the element before the hole compares greater than
  the one in hand.  The comparison is an argument, as in the code.  The temporary element of
  the code is the value \<open>p\<close>; its allocation is taken to succeed (when it fails, the code
  returns and leaves the array unsorted without telling the caller).
\<close>

text \<open>The inner loop: \<open>p2\<close> is the index of the hole.\<close>

fun sort_shift :: "('a \<Rightarrow> 'a \<Rightarrow> int) \<Rightarrow> 'a \<Rightarrow> 'a list \<Rightarrow> nat \<Rightarrow> 'a list" where
  "sort_shift cmp p base 0 = base[0 := p]"
| "sort_shift cmp p base (Suc p2) =
     (if cmp (base ! p2) p > 0
      then sort_shift cmp p (base[Suc p2 := base ! p2]) p2
      else base[Suc p2 := p])"

text \<open>The outer loop: \<open>p1\<close> runs over the array from its second element.\<close>

definition ngx_sort :: "('a \<Rightarrow> 'a \<Rightarrow> int) \<Rightarrow> 'a list \<Rightarrow> 'a list" where
  "ngx_sort cmp base = foldl (\<lambda>b p1. sort_shift cmp (b ! p1) b p1) base [1..<length base]"

section \<open>The reference: stable insertion into a list\<close>

text \<open>\<open>shift_place\<close> puts an element after every element that does not compare greater, from the
  right; for a sorted list that is the position after the last such element.\<close>

fun shift_place :: "('a \<Rightarrow> 'a \<Rightarrow> int) \<Rightarrow> 'a \<Rightarrow> 'a list \<Rightarrow> 'a list" where
  "shift_place cmp p [] = [p]"
| "shift_place cmp p (x # rs) = (if cmp x p > 0 then x # shift_place cmp p rs else p # x # rs)"

lemma length_sort_shift [simp]: "length (sort_shift cmp p b i) = length b"
  by (induction cmp p b i rule: sort_shift.induct) auto

lemma mset_place: "mset (shift_place cmp p rs) = add_mset p (mset rs)"
  by (induction rs) auto

lemma set_place [simp]: "set (shift_place cmp p rs) = insert p (set rs)"
  by (induction rs) auto

lemma length_place [simp]: "length (shift_place cmp p rs) = Suc (length rs)"
  by (induction rs) auto

lemma sort_shift_place:
  "sort_shift cmp p (pre @ x # post) (length pre) = rev (shift_place cmp p (rev pre)) @ post"
proof (induction pre arbitrary: x post rule: rev_induct)
  case Nil
  show ?case by simp
next
  case (snoc y pre)
  have put: "(pre @ [y] @ x # post)[Suc (length pre) := z] = pre @ y # z # post" for z
    by (simp add: list_update_append)
  have y: "(pre @ [y] @ x # post) ! length pre = y" by simp
  show ?case
    using snoc.IH[of y "y # post"] put[of p] put[of y] y by simp
qed

text \<open>The order the comparison gives: \<open>x\<close> may stand before \<open>y\<close>.\<close>

definition in_order :: "('a \<Rightarrow> 'a \<Rightarrow> int) \<Rightarrow> 'a \<Rightarrow> 'a \<Rightarrow> bool" where
  "in_order cmp x y \<longleftrightarrow> \<not> cmp x y > 0"

text \<open>A comparison the sort works with: a strict weak order (\<open>in_order\<close> is total and
  transitive).\<close>

definition weak_order :: "('a \<Rightarrow> 'a \<Rightarrow> int) \<Rightarrow> bool" where
  "weak_order cmp \<longleftrightarrow>
     (\<forall>x y. in_order cmp x y \<or> in_order cmp y x) \<and>
     (\<forall>x y z. in_order cmp x y \<longrightarrow> in_order cmp y z \<longrightarrow> in_order cmp x z)"

text \<open>Two elements of one rank.\<close>

definition tied :: "('a \<Rightarrow> 'a \<Rightarrow> int) \<Rightarrow> 'a \<Rightarrow> 'a \<Rightarrow> bool" where
  "tied cmp x y \<longleftrightarrow> in_order cmp x y \<and> in_order cmp y x"

lemma weak_order_trans:
  "weak_order cmp \<Longrightarrow> in_order cmp x y \<Longrightarrow> in_order cmp y z \<Longrightarrow> in_order cmp x z"
  unfolding weak_order_def by blast

lemma greater_in_order: "weak_order cmp \<Longrightarrow> cmp x y > 0 \<Longrightarrow> in_order cmp y x"
  unfolding weak_order_def in_order_def by blast

lemma place_sorted:
  assumes "weak_order cmp" "sorted_wrt (\<lambda>x y. in_order cmp y x) rs"
  shows "sorted_wrt (\<lambda>x y. in_order cmp y x) (shift_place cmp p rs)"
  using assms(2)
proof (induction rs)
  case (Cons x rs)
  show ?case
  proof (cases "cmp x p > 0")
    case True
    then have "in_order cmp p x" by (rule greater_in_order[OF assms(1)])
    then show ?thesis using Cons True by auto
  next
    case False
    then have x: "in_order cmp x p" by (simp add: in_order_def)
    have "in_order cmp y p" if "y \<in> set rs" for y
      using that Cons.prems x assms(1) unfolding weak_order_def by (meson list.set_intros sorted_wrt.simps(2))
    then show ?thesis using Cons.prems x False by auto
  qed
qed simp

lemma place_stable:
  assumes "weak_order cmp"
  shows "filter (tied cmp k) (shift_place cmp p rs)
       = (if tied cmp k p then [p] else []) @ filter (tied cmp k) rs
       \<or> \<not> sorted_wrt (\<lambda>x y. in_order cmp y x) rs"
proof (induction rs)
  case (Cons x rs)
  show ?case
  proof (cases "cmp x p > 0")
    case True
    have "\<not> (tied cmp k p \<and> tied cmp k x)"
      using True weak_order_trans[OF assms, of x k p] by (auto simp: tied_def in_order_def)
    then show ?thesis using True Cons.IH by auto
  qed auto
qed auto

lemma ngx_sort_prefix:
  assumes "n \<le> length xs" "0 < n"
  shows "foldl (\<lambda>b p1. sort_shift cmp (b ! p1) b p1) xs [1..<n]
       = rev (foldl (\<lambda>rs p. shift_place cmp p rs) [] (take n xs)) @ drop n xs"
  using assms
proof (induction n)
  case (Suc n)
  show ?case
  proof (cases "n = 0")
    case True
    then show ?thesis using Suc.prems by (cases xs) auto
  next
    case False
    let ?pre = "rev (foldl (\<lambda>rs p. shift_place cmp p rs) [] (take n xs))"
    have len: "length (foldl (\<lambda>rs p. shift_place cmp p rs) rs ys) = length rs + length ys" for rs ys
      by (induction ys arbitrary: rs) auto
    have pre: "length ?pre = n" using Suc.prems by (simp add: len)
    have drop: "drop n xs = xs ! n # drop (Suc n) xs"
      using Suc.prems by (simp add: Cons_nth_drop_Suc)
    have step: "foldl (\<lambda>b p1. sort_shift cmp (b ! p1) b p1) xs [1..<n] = ?pre @ xs ! n # drop (Suc n) xs"
      using Suc.IH Suc.prems False drop by simp
    have hole: "(?pre @ xs ! n # drop (Suc n) xs) ! n = xs ! n"
      using pre by (metis nth_append_length)
    have "foldl (\<lambda>b p1. sort_shift cmp (b ! p1) b p1) xs [1..<Suc n]
        = sort_shift cmp (xs ! n) (?pre @ xs ! n # drop (Suc n) xs) n"
      using step False hole by (simp add: upt_Suc_append)
    also have "\<dots> = rev (shift_place cmp (xs ! n) (rev ?pre)) @ drop (Suc n) xs"
      using sort_shift_place[of cmp "xs ! n" ?pre "xs ! n" "drop (Suc n) xs"] pre by simp
    finally show ?thesis
      using Suc.prems by (simp add: take_Suc_conv_app_nth)
  qed
qed simp

lemma ngx_sort_place: "ngx_sort cmp xs = rev (foldl (\<lambda>rs p. shift_place cmp p rs) [] xs)"
  using ngx_sort_prefix[of "length xs" xs cmp] by (cases xs) (auto simp: ngx_sort_def)

lemma ngx_sort_spec:
  assumes "weak_order cmp"
  shows "mset (ngx_sort cmp xs) = mset xs"
    and "sorted_wrt (in_order cmp) (ngx_sort cmp xs)"
    and "filter (tied cmp k) (ngx_sort cmp xs) = filter (tied cmp k) xs"
proof -
  let ?f = "foldl (\<lambda>rs p. shift_place cmp p rs)"
  have "mset (?f rs xs) = mset rs + mset xs" for rs
    by (induction xs arbitrary: rs) (auto simp: mset_place)
  then show "mset (ngx_sort cmp xs) = mset xs" by (simp add: ngx_sort_place)
  let ?s = "sorted_wrt (\<lambda>x y. in_order cmp y x)"
  have s: "?s rs \<Longrightarrow> ?s (?f rs xs)" for rs
    by (induction xs arbitrary: rs) (auto intro: place_sorted[OF assms])
  then show "sorted_wrt (in_order cmp) (ngx_sort cmp xs)"
    using s[of "[]"] by (simp add: ngx_sort_place sorted_wrt_rev)
  have "?s rs \<Longrightarrow> filter (tied cmp k) (?f rs xs) = rev (filter (tied cmp k) xs) @ filter (tied cmp k) rs" for rs
  proof (induction xs arbitrary: rs)
    case (Cons p xs)
    then show ?case
      using place_stable[OF assms, of k p rs] place_sorted[OF assms Cons.prems] by auto
  qed simp
  from this[of "[]"] have "rev (filter (tied cmp k) (?f [] xs)) = filter (tied cmp k) xs" by simp
  then show "filter (tied cmp k) (ngx_sort cmp xs) = filter (tied cmp k) xs"
    by (simp only: ngx_sort_place rev_filter)
qed

lemma length_ngx_sort [simp]: "length (ngx_sort cmp xs) = length xs"
proof -
  have "length (foldl (\<lambda>b p1. sort_shift cmp (b ! p1) b p1) b is) = length b" for b :: "'a list" and "is"
    by (induction "is" arbitrary: b) auto
  then show ?thesis by (simp add: ngx_sort_def)
qed

end
