(* ===== verification/HttpRoundRobin.thy ===== *)
theory HttpRoundRobin
  imports NgxSort "HOL-Library.Signed_Division"
begin

text \<open>
  The weighted round robin balancer of \<^verbatim>\<open>src/http/ngx_http_upstream_round_robin.c\<close>: the peers
  built from the configuration, the choice of a peer for a request (\<open>get\<close>), the report of
  what became of it (\<open>free\<close>), and the switch to the backup group.

  A group of peers is an \<open>rr_peers\<close>; the chain of groups (\<open>peers->next\<close>) is a list, and the
  pointer \<open>rrp->peers\<close> of a request is the index of its group in the chain.  The bitmap
  \<open>tried\<close> is a list of 64-bit words; a read or a write outside it, a peer outside its group, a
  signed overflow or a division by zero is the value \<open>None\<close>.
\<close>

section \<open>Data\<close>

record rr_peer =
  sockaddr :: bytes
  peer_name :: bytes
  current_weight :: int
  weight :: int
  fails :: u64
  accessed :: int
  max_fails :: u64
  fail_timeout :: int
  down :: bool

record rr_peers =
  single :: bool
  cached_conns :: "nat list"
  last_cached :: nat
  group_name :: bytes
  peer :: "rr_peer list"

abbreviation number :: "rr_peers \<Rightarrow> nat" where "number ps \<equiv> length (peer ps)"

text \<open>\<open>ngx_http_upstream_rr_peer_data_t\<close>: the state of one request.\<close>

record rr_data =
  group :: nat
  current :: nat
  tried :: "u64 list"

text \<open>The fields of \<open>ngx_peer_connection_t\<close> the balancers use.\<close>

record peer_conn =
  tries :: u64
  is_cached :: bool
  connection :: "nat option"
  pc_sockaddr :: bytes
  pc_name :: bytes

text \<open>A \<open>server\<close> directive: \<open>ngx_http_upstream_server_t\<close>.\<close>

record upstream_server =
  srv_addrs :: "(bytes \<times> bytes) list"
  srv_weight :: int
  srv_max_fails :: u64
  srv_fail_timeout :: int
  srv_down :: bool
  srv_backup :: bool

definition int64_ok :: "int \<Rightarrow> bool" where
  "int64_ok x \<longleftrightarrow> - (2 ^ 63) \<le> x \<and> x < 2 ^ 63"

section \<open>Configuration\<close>

definition cmp_servers :: "rr_peer \<Rightarrow> rr_peer \<Rightarrow> int" where
  "cmp_servers first second = (if weight first < weight second then 1 else 0)"

text \<open>The peers of one \<open>server\<close>, in the primary group (the weight of a server marked \<open>down\<close>
  is 0) and in the backup group (the weight is kept).\<close>

definition primary_peer :: "upstream_server \<Rightarrow> bytes \<times> bytes \<Rightarrow> rr_peer" where
  "primary_peer s a =
     (let w = if srv_down s then 0 else srv_weight s
      in \<lparr>sockaddr = fst a, peer_name = snd a, current_weight = w, weight = w, fails = 0,
          accessed = 0, max_fails = srv_max_fails s, fail_timeout = srv_fail_timeout s,
          down = srv_down s\<rparr>)"

definition backup_peer :: "upstream_server \<Rightarrow> bytes \<times> bytes \<Rightarrow> rr_peer" where
  "backup_peer s a =
     \<lparr>sockaddr = fst a, peer_name = snd a, current_weight = srv_weight s,
      weight = srv_weight s, fails = 0, accessed = 0, max_fails = srv_max_fails s,
      fail_timeout = srv_fail_timeout s, down = srv_down s\<rparr>"

definition init_servers :: "bytes \<Rightarrow> upstream_server list \<Rightarrow> rr_peers list" where
  "init_servers host servers =
     (let prim = concat (map (\<lambda>s. map (primary_peer s) (srv_addrs s))
                          (filter (\<lambda>s. \<not> srv_backup s) servers));
          back = concat (map (\<lambda>s. map (backup_peer s) (srv_addrs s)) (filter srv_backup servers));
          g = \<lparr>single = (length prim = 1), cached_conns = [], last_cached = 0,
               group_name = host, peer = ngx_sort cmp_servers prim\<rparr>
      in if back = [] then [g]
         else [g\<lparr>single := False\<rparr>,
               \<lparr>single = False, cached_conns = [], last_cached = 0, group_name = host,
                peer = ngx_sort cmp_servers back\<rparr>])"

text \<open>An upstream defined implicitly by \<open>proxy_pass\<close>, from the addresses the resolver gave.\<close>

definition implicit_peer :: "bytes \<times> bytes \<Rightarrow> rr_peer" where
  "implicit_peer a =
     \<lparr>sockaddr = fst a, peer_name = snd a, current_weight = 1, weight = 1, fails = 0,
      accessed = 0, max_fails = 1, fail_timeout = 10, down = False\<rparr>"

definition init_implicit :: "bytes \<Rightarrow> (bytes \<times> bytes) list \<Rightarrow> rr_peers list" where
  "init_implicit host addrs =
     [\<lparr>single = (length addrs = 1), cached_conns = [], last_cached = 0, group_name = host,
       peer = map implicit_peer addrs\<rparr>]"

text \<open>\<open>ngx_http_upstream_init_round_robin\<close>: the port of an implicit upstream has to be known
  and its host has to resolve (\<open>resolve\<close> stands for \<open>ngx_inet_resolve_host\<close>, which asks the
  system).\<close>

definition init_round_robin ::
  "(bytes \<Rightarrow> nat \<Rightarrow> (bytes \<times> bytes) list option) \<Rightarrow> bytes \<Rightarrow> nat \<Rightarrow> nat
     \<Rightarrow> upstream_server list option \<Rightarrow> rr_peers list option" where
  "init_round_robin resolve host port default_port servers =
     (case servers of
        Some ss \<Rightarrow> Some (init_servers host ss)
      | None \<Rightarrow>
          if port = 0 \<and> default_port = 0 then None
          else (case resolve host (if port \<noteq> 0 then port else default_port) of
                  None \<Rightarrow> None
                | Some addrs \<Rightarrow> Some (init_implicit host addrs)))"

text \<open>\<open>ngx_http_upstream_init_round_robin_peer\<close>: a request starts in the first group with an
  empty bitmap, one word if that is enough for the larger of the first two groups.\<close>

definition tried_words :: "nat \<Rightarrow> nat" where
  "tried_words n = (if n \<le> 64 then 1 else (n + 63) div 64)"

definition init_rr_peer :: "rr_peers list \<Rightarrow> peer_conn \<Rightarrow> (rr_data \<times> peer_conn) option" where
  "init_rr_peer gs pc =
     (case gs of
        [] \<Rightarrow> None
      | g # rest \<Rightarrow>
          (let n = (case rest of
                      [] \<Rightarrow> number g
                    | b # _ \<Rightarrow> if number b > number g then number b else number g)
           in Some (\<lparr>group = 0, current = 0, tried = replicate (tried_words n) 0\<rparr>,
                    pc\<lparr>tries := of_nat (number g)\<rparr>)))"

section \<open>The weighted choice\<close>

text \<open>The comparison of two peers with positive current weights,
  \<open>cw n * 1000 / cw i > w n * 1000 / w i\<close> in signed 64-bit arithmetic: undefined when a
  product overflows or a divisor is 0.\<close>

definition ratio_greater :: "rr_peer \<Rightarrow> rr_peer \<Rightarrow> bool option" where
  "ratio_greater n i =
     (if int64_ok (current_weight n * 1000) \<and> int64_ok (weight n * 1000)
         \<and> current_weight i \<noteq> 0 \<and> weight i \<noteq> 0
      then Some ((current_weight n * 1000) sdiv current_weight i
                 > (weight n * 1000) sdiv weight i)
      else None)"

text \<open>The inner loop: \<open>n\<close> is the last candidate, \<open>i\<close> the last peer looked at.\<close>

function next_candidate :: "rr_peer list \<Rightarrow> nat \<Rightarrow> nat \<Rightarrow> nat option" where
  "next_candidate ps n i =
     (if i < length ps - 1
      then (if current_weight (ps ! Suc i) \<le> 0 then next_candidate ps n (Suc i)
            else (case ratio_greater (ps ! n) (ps ! Suc i) of
                    None \<Rightarrow> None
                  | Some gt \<Rightarrow> if gt then Some n else next_candidate ps (Suc i) (Suc i)))
      else Some (if current_weight (ps ! i) > 0 then i else n))"
  by pat_completeness auto
termination by (relation "measure (\<lambda>(ps, n, i). length ps - i)") auto

declare next_candidate.simps [simp del]

text \<open>The outer loop over one round: no peer with a positive weight is \<open>Some None\<close>.\<close>

function first_candidate :: "rr_peer list \<Rightarrow> nat \<Rightarrow> nat option option" where
  "first_candidate ps i =
     (if i < length ps
      then (if current_weight (ps ! i) \<le> 0 then first_candidate ps (Suc i)
            else map_option Some (next_candidate ps i i))
      else Some None)"
  by pat_completeness auto
termination by (relation "measure (\<lambda>(ps, i). length ps - i)") auto

declare first_candidate.simps [simp del]

definition reset_weights :: "rr_peer list \<Rightarrow> rr_peer list" where
  "reset_weights ps = map (\<lambda>p. p\<lparr>current_weight := weight p\<rparr>) ps"

definition rr_get_peer :: "rr_peer list \<Rightarrow> (nat \<times> rr_peer list) option" where
  "rr_get_peer ps =
     (case first_candidate ps 0 of
        None \<Rightarrow> None
      | Some (Some n) \<Rightarrow> Some (n, ps)
      | Some None \<Rightarrow>
          (case first_candidate (reset_weights ps) 0 of
             None \<Rightarrow> None
           | Some (Some n) \<Rightarrow> Some (n, reset_weights ps)
           | Some None \<Rightarrow> Some (0, reset_weights ps)))"

section \<open>Getting a peer\<close>

text \<open>A peer may be used when it is not over its failures, or when they are old.\<close>

definition usable :: "int \<Rightarrow> rr_peer \<Rightarrow> bool" where
  "usable now p \<longleftrightarrow>
     \<not> down p \<and> (max_fails p = 0 \<or> fails p < max_fails p \<or> now - accessed p > fail_timeout p)"

definition tried_mask :: "nat \<Rightarrow> u64" where
  "tried_mask k = push_bit (k mod 64) 1"

definition is_tried :: "u64 list \<Rightarrow> nat \<Rightarrow> bool" where
  "is_tried td k \<longleftrightarrow> td ! (k div 64) AND tried_mask k \<noteq> 0"

definition mark_tried :: "u64 list \<Rightarrow> nat \<Rightarrow> u64 list" where
  "mark_tried td k = td[k div 64 := td ! (k div 64) OR tried_mask k]"

text \<open>The body both loops of \<open>get\<close> share, on the peer \<open>k\<close>: the peer is taken (\<open>True\<close>), or
  it is passed over.  A peer marked \<open>down\<close> is entered in the bitmap, a failed one is not; both
  cost one of the tries.\<close>

definition consider_peer ::
  "int \<Rightarrow> nat \<Rightarrow> rr_peer list \<Rightarrow> u64 list \<Rightarrow> u64 \<Rightarrow> (bool \<times> rr_peer list \<times> u64 list \<times> u64) option"
where
  "consider_peer now k ps td tr =
     (if k div 64 \<ge> length td then None
      else if is_tried td k then Some (False, ps, td, tr)
      else if k \<ge> length ps then None
      else let p = ps ! k in
        if \<not> down p
        then (if max_fails p = 0 \<or> fails p < max_fails p then Some (True, ps, td, tr)
              else if now - accessed p > fail_timeout p
              then Some (True, ps[k := p\<lparr>fails := 0\<rparr>], td, tr)
              else Some (False, ps[k := p\<lparr>current_weight := 0\<rparr>], td, tr - 1))
        else Some (False, ps, mark_tried td k, tr - 1))"

text \<open>The loop of a first try: every round asks \<open>rr_get_peer\<close>.\<close>

function first_try ::
  "int \<Rightarrow> rr_peer list \<Rightarrow> u64 list \<Rightarrow> u64 \<Rightarrow> u64
     \<Rightarrow> (bool \<times> nat \<times> rr_peer list \<times> u64 list \<times> u64) option" where
  "first_try now ps td tr i =
     (case rr_get_peer ps of
        None \<Rightarrow> None
      | Some (k, ps') \<Rightarrow>
          (case consider_peer now k ps' td tr of
             None \<Rightarrow> None
           | Some (taken, ps'', td', tr') \<Rightarrow>
               if taken then Some (True, k, ps'', td', tr')
               else if tr' = 0 then Some (False, k, ps'', td', tr')
               else if i - 1 = 0 then Some (False, k, ps'', td', tr')
               else first_try now ps'' td' tr' (i - 1)))"
  by pat_completeness auto
termination
proof (relation "measure (\<lambda>(now, ps, td, tr, i). unat (i - 1))", goal_cases)
  case (2 now ps td tr i)
  then show ?case using measure_unat[of "i - 1"] by simp
qed simp

declare first_try.simps [simp del]

text \<open>The loop of the later tries: it goes on from the current peer in the order of the
  array.\<close>

definition advance :: "nat \<Rightarrow> nat \<Rightarrow> nat" where
  "advance n k = (if Suc k \<ge> n then 0 else Suc k)"

function later_try ::
  "int \<Rightarrow> nat \<Rightarrow> rr_peer list \<Rightarrow> u64 list \<Rightarrow> u64 \<Rightarrow> u64
     \<Rightarrow> (bool \<times> nat \<times> rr_peer list \<times> u64 list \<times> u64) option" where
  "later_try now k ps td tr i =
     (case consider_peer now k ps td tr of
        None \<Rightarrow> None
      | Some (taken, ps', td', tr') \<Rightarrow>
          if taken then Some (True, k, ps', td', tr')
          else let k' = advance (length ps) k in
            if tr' = 0 then Some (False, k', ps', td', tr')
            else if i - 1 = 0 then Some (False, k', ps', td', tr')
            else later_try now k' ps' td' tr' (i - 1))"
  by pat_completeness auto
termination
proof (relation "measure (\<lambda>(now, k, ps, td, tr, i). unat (i - 1))", goal_cases)
  case (2 now k ps td tr i)
  then show ?case using measure_unat[of "i - 1"] by simp
qed simp

declare later_try.simps [simp del]

text \<open>Clearing the bitmap for a group of \<open>n\<close> peers: \<open>n / 64 + 1\<close> words.\<close>

fun clear_words :: "u64 list \<Rightarrow> nat \<Rightarrow> nat \<Rightarrow> u64 list option" where
  "clear_words td i 0 = Some td"
| "clear_words td i (Suc m) =
     (if i < length td then clear_words (td[i := 0]) (Suc i) m else None)"

definition clear_tried :: "nat \<Rightarrow> u64 list \<Rightarrow> u64 list option" where
  "clear_tried n td = clear_words td 0 (n div 64 + 1)"

type_synonym rr_state = "rr_peers list \<times> rr_data \<times> peer_conn"

text \<open>After the choice: \<open>current_weight--\<close>, and the peer is entered in the bitmap.\<close>

definition take_peer :: "nat \<Rightarrow> rr_peer list \<Rightarrow> rr_peer list" where
  "take_peer k ps = ps[k := (ps ! k)\<lparr>current_weight := current_weight (ps ! k) - 1\<rparr>]"

definition set_group :: "nat \<Rightarrow> rr_peer list \<Rightarrow> rr_peers list \<Rightarrow> rr_peers list" where
  "set_group g ps gs = gs[g := (gs ! g)\<lparr>peer := ps\<rparr>]"

text \<open>The end of a successful \<open>get\<close>: the address of the peer, and on the last try of a group
  the tries of the next group are added and the bitmap is cleared for it.\<close>

definition hand_out :: "rr_peer \<Rightarrow> rr_peers list \<Rightarrow> rr_data \<Rightarrow> peer_conn \<Rightarrow> (ngx_rc \<times> rr_state) option" where
  "hand_out p gs d pc =
     (let pc1 = pc\<lparr>pc_sockaddr := sockaddr p, pc_name := peer_name p\<rparr>
      in if tries pc1 = 1 \<and> Suc (group d) < length gs
         then map_option
                (\<lambda>td. (NGX_OK, gs, d\<lparr>tried := td\<rparr>,
                       pc1\<lparr>tries := tries pc1 + of_nat (number (gs ! Suc (group d)))\<rparr>))
                (clear_tried (number (gs ! Suc (group d))) (tried d))
         else Some (NGX_OK, gs, d, pc1))"

text \<open>The choice in a group of several peers.\<close>

definition choose_peer ::
  "int \<Rightarrow> rr_peers \<Rightarrow> rr_data \<Rightarrow> peer_conn
     \<Rightarrow> (bool \<times> nat \<times> rr_peer list \<times> u64 list \<times> u64) option" where
  "choose_peer now g d pc =
     (if tries pc = of_nat (number g)
      then first_try now (peer g) (tried d) (tries pc) (tries pc)
      else later_try now (current d) (peer g) (tried d) (tries pc) (tries pc))"

definition mark_live :: "rr_peers \<Rightarrow> rr_peers" where
  "mark_live g = g\<lparr>peer := map (\<lambda>p. p\<lparr>fails := 0\<rparr>) (peer g)\<rparr>"

text \<open>\<open>ngx_http_upstream_get_round_robin_peer\<close>.\<close>

function get_rr_peer :: "int \<Rightarrow> rr_peers list \<Rightarrow> rr_data \<Rightarrow> peer_conn \<Rightarrow> (ngx_rc \<times> rr_state) option"
where
  "get_rr_peer now gs d pc =
     (if group d \<ge> length gs then None
      else let g = gs ! group d in
        if last_cached g \<noteq> 0
        then (if last_cached g < length (cached_conns g)
              then Some (NGX_OK, gs[group d := g\<lparr>last_cached := last_cached g - 1\<rparr>], d,
                         pc\<lparr>connection := Some (cached_conns g ! last_cached g), is_cached := True\<rparr>)
              else None)
        else
          let pc0 = pc\<lparr>is_cached := False, connection := None\<rparr> in
          if single g
          then (if peer g = [] then None else hand_out (peer g ! 0) gs d pc0)
          else
            (case choose_peer now g d pc0 of
               None \<Rightarrow> None
             | Some (taken, k, ps, td, tr) \<Rightarrow>
                 if taken
                 then hand_out (ps ! k) (set_group (group d) (take_peer k ps) gs)
                        (d\<lparr>current := k, tried := mark_tried td k\<rparr>) (pc0\<lparr>tries := tr\<rparr>)
                 else
                   let gs1 = set_group (group d) ps gs;
                       d1 = d\<lparr>current := k, tried := td\<rparr>;
                       pc1 = pc0\<lparr>tries := tr\<rparr>;
                       busy = (\<lambda>gs2 d2 pc2.
                         Some (NGX_BUSY, gs2[group d := mark_live (gs2 ! group d)], d2,
                               pc2\<lparr>pc_name := group_name (gs2 ! group d)\<rparr>))
                   in if Suc (group d) < length gs
                      then (case clear_tried (number (gs ! Suc (group d))) td of
                              None \<Rightarrow> None
                            | Some td' \<Rightarrow>
                                (case get_rr_peer now gs1
                                        (d1\<lparr>group := Suc (group d), tried := td'\<rparr>)
                                        (pc1\<lparr>tries := of_nat (number (gs ! Suc (group d)))\<rparr>) of
                                   None \<Rightarrow> None
                                 | Some (rc, gs2, d2, pc2) \<Rightarrow>
                                     if rc \<noteq> NGX_BUSY then Some (rc, gs2, d2, pc2)
                                     else busy gs2 d2 pc2))
                      else busy gs1 d1 pc1))"
  by pat_completeness auto
termination
  by (relation "measure (\<lambda>(now, gs, d, pc). length gs - group d)") (auto simp: set_group_def)

declare get_rr_peer.simps [simp del]

section \<open>Giving a peer back\<close>

abbreviation NGX_PEER_KEEPALIVE :: u64 where "NGX_PEER_KEEPALIVE \<equiv> 1"
abbreviation NGX_PEER_NEXT :: u64 where "NGX_PEER_NEXT \<equiv> 2"
abbreviation NGX_PEER_FAILED :: u64 where "NGX_PEER_FAILED \<equiv> 4"

text \<open>The penalty of a failure: \<open>current_weight -= weight / max_fails\<close>, computed in unsigned
  arithmetic as \<open>max_fails\<close> is unsigned, then raised to 0.\<close>

definition fail_peer :: "int \<Rightarrow> rr_peer \<Rightarrow> rr_peer" where
  "fail_peer now p =
     (let cw = (if max_fails p \<noteq> 0
                then sint ((word_of_int (current_weight p) :: u64)
                           - word_of_int (weight p) div max_fails p)
                else current_weight p)
      in p\<lparr>fails := fails p + 1, accessed := now,
           current_weight := (if cw < 0 then 0 else cw)\<rparr>)"

text \<open>\<open>ngx_http_upstream_free_round_robin_peer\<close>.\<close>

definition free_rr_peer :: "int \<Rightarrow> u64 \<Rightarrow> rr_peers list \<Rightarrow> rr_data \<Rightarrow> peer_conn \<Rightarrow> rr_state option" where
  "free_rr_peer now st gs d pc =
     (if st = 0 \<and> tries pc = 0 then Some (gs, d, pc)
      else if group d \<ge> length gs then None
      else let g = gs ! group d in
        if single g then Some (gs, d, pc\<lparr>tries := 0\<rparr>)
        else let
            d' = d\<lparr>current := advance (number g) (current d)\<rparr>;
            pc' = pc\<lparr>tries := (if tries pc \<noteq> 0 then tries pc - 1 else 0)\<rparr>
          in if st AND NGX_PEER_FAILED \<noteq> 0
             then (if current d < number g
                   then Some (set_group (group d)
                                ((peer g)[current d := fail_peer now (peer g ! current d)]) gs,
                              d', pc')
                   else None)
             else Some (gs, d', pc'))"


section \<open>The choice is always defined\<close>

text \<open>Peers whose weights are within the range in which the arithmetic of the choice is
  defined.\<close>

definition weight_limit :: int where "weight_limit = 9223372036854775"

definition peer_ok :: "rr_peer \<Rightarrow> bool" where
  "peer_ok p \<longleftrightarrow> 0 \<le> weight p \<and> weight p \<le> weight_limit \<and> current_weight p \<le> weight p"

lemma ratio_greater_defined:
  assumes "peer_ok p" "peer_ok q" "current_weight p > 0" "current_weight q > 0"
  shows "\<exists>b. ratio_greater p q = Some b"
  using assms by (auto simp: ratio_greater_def peer_ok_def int64_ok_def weight_limit_def)

lemma next_candidate_ok:
  assumes "\<forall>p\<in>set ps. peer_ok p" "n < length ps" "i < length ps" "current_weight (ps ! n) > 0"
  shows "\<exists>m. next_candidate ps n i = Some m \<and> m < length ps \<and> current_weight (ps ! m) > 0"
  using assms
proof (induction ps n i rule: next_candidate.induct)
  case (1 ps n i)
  show ?case
  proof (cases "i < length ps - 1")
    case False
    then show ?thesis
      using "1.prems" by (subst next_candidate.simps) auto
  next
    case i: True
    then have si: "Suc i < length ps" by simp
    show ?thesis
    proof (cases "current_weight (ps ! Suc i) \<le> 0")
      case True
      then show ?thesis using "1.IH"(1)[OF i True] "1.prems" i si
        by (subst next_candidate.simps) auto
    next
      case False
      then obtain b where b: "ratio_greater (ps ! n) (ps ! Suc i) = Some b"
        using ratio_greater_defined[of "ps ! n" "ps ! Suc i"] "1.prems" si by auto
      have step: "next_candidate ps n i = (if b then Some n else next_candidate ps (Suc i) (Suc i))"
        using i False b by (subst next_candidate.simps) simp
      show ?thesis
        using "1.IH"(2)[OF i False b] "1.prems" si False step by (cases b) auto
    qed
  qed
qed

lemma first_candidate_ok:
  assumes "\<forall>p\<in>set ps. peer_ok p"
  shows "(\<exists>m. first_candidate ps i = Some (Some m) \<and> m < length ps \<and> current_weight (ps ! m) > 0)
       \<or> first_candidate ps i = Some None \<and> (\<forall>j. i \<le> j \<longrightarrow> j < length ps \<longrightarrow> current_weight (ps ! j) \<le> 0)"
  using assms
proof (induction ps i rule: first_candidate.induct)
  case (1 ps i)
  show ?case
  proof (cases "i < length ps")
    case i: True
    show ?thesis
    proof (cases "current_weight (ps ! i) \<le> 0")
      case True
      then have "first_candidate ps i = first_candidate ps (Suc i)"
        using i by (subst first_candidate.simps) simp
      then show ?thesis using "1.IH"[OF i True "1.prems"] True
        by (metis Suc_leI le_neq_implies_less)
    next
      case False
      then show ?thesis
        using next_candidate_ok[OF "1.prems" i i] i by (subst first_candidate.simps) auto
    qed
  next
    case False
    then show ?thesis by (subst (2) first_candidate.simps) simp
  qed
qed

lemma peer_ok_reset: "\<forall>p\<in>set ps. peer_ok p \<Longrightarrow> \<forall>p\<in>set (reset_weights ps). peer_ok p"
  by (auto simp: reset_weights_def peer_ok_def)

lemma length_reset_weights [simp]: "length (reset_weights ps) = length ps"
  by (simp add: reset_weights_def)

lemma reset_weights_nth [simp]:
  "i < length ps \<Longrightarrow> reset_weights ps ! i = (ps ! i)\<lparr>current_weight := weight (ps ! i)\<rparr>"
  by (simp add: reset_weights_def)

text \<open>The peer chosen has a positive current weight, after a reset when no peer had one; with no
  positive weight at all it is the first peer.\<close>

lemma rr_get_peer_ok:
  assumes "\<forall>p\<in>set ps. peer_ok p" "ps \<noteq> []"
  obtains m ps' where "rr_get_peer ps = Some (m, ps')" "m < length ps"
    "ps' = ps \<or> ps' = reset_weights ps \<and> (\<forall>p\<in>set ps. current_weight p \<le> 0)"
    "current_weight (ps' ! m) > 0 \<or> (\<forall>p\<in>set ps. weight p = 0)"
proof -
  from first_candidate_ok[OF assms(1), of 0]
  consider (found) m where "first_candidate ps 0 = Some (Some m)" "m < length ps"
      "current_weight (ps ! m) > 0"
    | (none) "first_candidate ps 0 = Some None" "\<forall>p\<in>set ps. current_weight p \<le> 0"
    by (force simp: in_set_conv_nth)
  then show thesis
  proof cases
    case found
    then show thesis using that by (simp add: rr_get_peer_def)
  next
    case none
    from first_candidate_ok[OF peer_ok_reset[OF assms(1)], of 0]
    consider (found) m where "first_candidate (reset_weights ps) 0 = Some (Some m)" "m < length ps"
        "current_weight (reset_weights ps ! m) > 0"
      | (none) "first_candidate (reset_weights ps) 0 = Some None"
          "\<forall>j<length ps. weight (ps ! j) \<le> 0"
      by auto
    then show thesis
    proof cases
      case found
      then show thesis using that none by (simp add: rr_get_peer_def)
    next
      case all: none
      have "\<forall>p\<in>set ps. weight p = 0"
        using all(2) assms(1) by (metis in_set_conv_nth order_antisym peer_ok_def)
      then show thesis using that none all(1) assms(2) by (simp add: rr_get_peer_def)
    qed
  qed
qed

section \<open>The bitmap\<close>

lemma tried_words_enough: "k < n \<Longrightarrow> n \<le> m \<Longrightarrow> k div 64 < tried_words m"
  by (auto simp: tried_words_def less_mult_imp_div_less)

lemma is_tried_fresh [simp]: "k div 64 < n \<Longrightarrow> \<not> is_tried (replicate n 0) k"
  by (simp add: is_tried_def)

lemma tried_mask_bit: "bit (tried_mask k) i \<longleftrightarrow> i = k mod 64"
  by (auto simp: tried_mask_def bit_simps)

lemma is_tried_bit: "is_tried td k \<longleftrightarrow> bit (td ! (k div 64)) (k mod 64)"
proof -
  have "td ! (k div 64) AND tried_mask k = 0 \<longleftrightarrow> \<not> bit (td ! (k div 64)) (k mod 64)"
  proof -
    have "td ! (k div 64) AND tried_mask k = (if bit (td ! (k div 64)) (k mod 64) then tried_mask k else 0)"
      by (rule bit_word_eqI) (auto simp: bit_and_iff tried_mask_bit)
    moreover have "tried_mask k \<noteq> 0" using tried_mask_bit[of k "k mod 64"] by auto
    ultimately show ?thesis by simp
  qed
  then show ?thesis by (simp add: is_tried_def)
qed

lemma is_tried_mark:
  assumes "k div 64 < length td"
  shows "is_tried (mark_tried td k) j \<longleftrightarrow> j = k \<or> is_tried td j"
proof (cases "j div 64 = k div 64")
  case True
  have "j = k \<longleftrightarrow> j mod 64 = k mod 64"
    using True by (metis div_mult_mod_eq)
  then show ?thesis
    using True assms by (auto simp: is_tried_bit mark_tried_def bit_or_iff tried_mask_bit)
next
  case False
  then show ?thesis by (auto simp: is_tried_def mark_tried_def)
qed

lemma length_mark_tried [simp]: "length (mark_tried td k) = length td"
  by (simp add: mark_tried_def)


section \<open>Fairness\<close>

text \<open>One request that is answered by the first peer it is given, and a sequence of such
  requests at the given times: the indices of the peers that answered, and the groups left.\<close>

definition serve_one :: "int \<Rightarrow> rr_peers list \<Rightarrow> peer_conn \<Rightarrow> (nat \<times> rr_peers list) option" where
  "serve_one now gs pc =
     (case init_rr_peer gs pc of
        None \<Rightarrow> None
      | Some (d, pc1) \<Rightarrow>
          (case get_rr_peer now gs d pc1 of
             None \<Rightarrow> None
           | Some (rc, gs1, d1, pc2) \<Rightarrow>
               if rc \<noteq> NGX_OK then None
               else map_option (\<lambda>(gs2, _). (current d1, gs2)) (free_rr_peer now 0 gs1 d1 pc2)))"

fun serve :: "int list \<Rightarrow> rr_peers list \<Rightarrow> peer_conn \<Rightarrow> (nat list \<times> rr_peers list) option" where
  "serve [] gs pc = Some ([], gs)"
| "serve (t # ts) gs pc =
     (case serve_one t gs pc of
        None \<Rightarrow> None
      | Some (k, gs') \<Rightarrow> map_option (\<lambda>(ks, gs''). (k # ks, gs'')) (serve ts gs' pc))"

definition healthy :: "rr_peer \<Rightarrow> bool" where
  "healthy p \<longleftrightarrow> \<not> down p \<and> (max_fails p = 0 \<or> fails p < max_fails p)"

definition serves :: "rr_peer \<Rightarrow> bool" where
  "serves p \<longleftrightarrow> peer_ok p \<and> 0 < weight p \<and> healthy p \<and> 0 \<le> current_weight p"

lemma serves_simps:
  "serves p \<Longrightarrow> serves (p\<lparr>current_weight := 0\<rparr>)"
  "serves p \<Longrightarrow> serves (p\<lparr>current_weight := weight p\<rparr>)"
  "serves p \<Longrightarrow> 0 < current_weight p \<Longrightarrow> serves (p\<lparr>current_weight := current_weight p - 1\<rparr>)"
  by (auto simp: serves_def peer_ok_def healthy_def)

text \<open>A group without failures: several healthy peers with weights in range, their current
  weights not negative.\<close>

definition in_service :: "rr_peers \<Rightarrow> bool" where
  "in_service g \<longleftrightarrow> last_cached g = 0 \<and> \<not> single g \<and> peer g \<noteq> [] \<and>
     (\<forall>p\<in>set (peer g). serves p)"

lemma get_healthy:
  assumes "group d = 0" "last_cached g = 0" "\<not> single g" "tries pc = of_nat (number g)"
    and get: "rr_get_peer (peer g) = Some (m, ps)"
    and m: "m < length ps" "healthy (ps ! m)" "m div 64 < length (tried d)" "\<not> is_tried (tried d) m"
  shows "\<exists>d' pc'. get_rr_peer now [g] d pc = Some (NGX_OK, [g\<lparr>peer := take_peer m ps\<rparr>], d', pc')
           \<and> current d' = m \<and> group d' = 0"
proof -
  have "consider_peer now m ps (tried d) tr = Some (True, ps, tried d, tr)" for tr
    using m by (simp add: consider_peer_def healthy_def Let_def not_le)
  then have "first_try now (peer g) (tried d) tr i = Some (True, m, ps, tried d, tr)" for tr i
    using get by (subst first_try.simps) simp
  then show ?thesis
    using assms by (subst get_rr_peer.simps) (simp add: Let_def choose_peer_def hand_out_def set_group_def)
qed

lemma serve_one_ok:
  assumes g: "in_service g"
  obtains m ps where "serve_one now [g] pc = Some (m, [g\<lparr>peer := take_peer m ps\<rparr>])"
    "rr_get_peer (peer g) = Some (m, ps)" "m < number g" "ps = peer g \<or> ps = reset_weights (peer g) \<and> (\<forall>p\<in>set (peer g). current_weight p = 0)"
    "current_weight (ps ! m) > 0"
proof -
  have ok: "\<forall>p\<in>set (peer g). peer_ok p" and ne: "peer g \<noteq> []" using g by (auto simp: in_service_def serves_def)
  have w: "\<not> (\<forall>p\<in>set (peer g). weight p = 0)"
    using g by (auto simp: in_service_def serves_def neq_Nil_conv)
  obtain m ps where get: "rr_get_peer (peer g) = Some (m, ps)" "m < number g"
      "ps = peer g \<or> ps = reset_weights (peer g) \<and> (\<forall>p\<in>set (peer g). current_weight p \<le> 0)"
      "current_weight (ps ! m) > 0"
    using rr_get_peer_ok[OF ok ne] w by metis
  have len: "length ps = number g" using get(3) by auto
  have zero: "ps = peer g \<or> ps = reset_weights (peer g) \<and> (\<forall>p\<in>set (peer g). current_weight p = 0)"
    using get(3) g unfolding in_service_def serves_def by (metis order_antisym)
  have "healthy (peer g ! m)" using g get(2) by (simp add: in_service_def serves_def)
  then have h: "healthy (ps ! m)" using get(2,3) by (auto simp: healthy_def)
  let ?d = "\<lparr>group = 0, current = 0, tried = replicate (tried_words (number g)) 0\<rparr>"
  let ?pc = "pc\<lparr>tries := of_nat (number g)\<rparr>"
  have init: "init_rr_peer [g] pc = Some (?d, ?pc)" by (simp add: init_rr_peer_def)
  have words: "m div 64 < tried_words (number g)" using get(2) by (rule tried_words_enough) simp
  obtain d' pc' where run: "get_rr_peer now [g] ?d ?pc = Some (NGX_OK, [g\<lparr>peer := take_peer m ps\<rparr>], d', pc')"
      "current d' = m" "group d' = 0"
    using get_healthy[of ?d g ?pc m ps now] g get(1,2) len h words by (auto simp: in_service_def)
  have "\<exists>d'' pc''. free_rr_peer now 0 [g\<lparr>peer := take_peer m ps\<rparr>] d' pc' = Some ([g\<lparr>peer := take_peer m ps\<rparr>], d'', pc'')"
    using run(3) by (simp add: free_rr_peer_def Let_def)
  then have "serve_one now [g] pc = Some (m, [g\<lparr>peer := take_peer m ps\<rparr>])"
    using init run(1,2) by (auto simp: serve_one_def)
  then show thesis using that get(1,2,4) zero by blast
qed

text \<open>What is left of the round: the sum of the current weights.\<close>

definition round_left :: "rr_peer list \<Rightarrow> nat" where
  "round_left ps = sum_list (map (\<lambda>p. nat (current_weight p)) ps)"

lemma length_take_peer [simp]: "length (take_peer m ps) = length ps"
  by (simp add: take_peer_def)

lemma take_peer_nth:
  "i < length ps \<Longrightarrow> take_peer m ps ! i =
     (if i = m then (ps ! i)\<lparr>current_weight := current_weight (ps ! i) - 1\<rparr> else ps ! i)"
  by (auto simp: take_peer_def nth_list_update)

lemma round_left_take:
  assumes "m < length ps" "current_weight (ps ! m) > 0"
  shows "round_left ps = Suc (round_left (take_peer m ps))"
proof -
  let ?f = "\<lambda>p. nat (current_weight p)"
  have "sum_list (map ?f ps) = (\<Sum>i<length ps. ?f (ps ! i))" for ps
    by (simp add: sum_list_sum_nth atLeast0LessThan)
  note conv = this
  have "round_left ps = ?f (ps ! m) + (\<Sum>i\<in>{..<length ps} - {m}. ?f (ps ! i))"
    using assms(1) by (simp add: round_left_def conv sum.remove[of _ m])
  moreover have "round_left (take_peer m ps) = ?f (take_peer m ps ! m) + (\<Sum>i\<in>{..<length ps} - {m}. ?f (take_peer m ps ! i))"
    using assms(1) by (simp add: round_left_def conv sum.remove[of _ m])
  moreover have "(\<Sum>i\<in>{..<length ps} - {m}. ?f (take_peer m ps ! i)) = (\<Sum>i\<in>{..<length ps} - {m}. ?f (ps ! i))"
    by (rule sum.cong) (auto simp: take_peer_nth)
  ultimately show ?thesis using assms by (simp add: take_peer_nth)
qed

lemma in_service_take:
  assumes "in_service g" "m < number g" "current_weight (peer g ! m) > 0"
  shows "in_service (g\<lparr>peer := take_peer m (peer g)\<rparr>)"
proof -
  have "serves p" if p: "p \<in> set (take_peer m (peer g))" for p
  proof -
    obtain i where i: "i < number g" "p = take_peer m (peer g) ! i"
      using p by (metis in_set_conv_nth length_take_peer)
    moreover have "serves (peer g ! i)"
      using assms(1) i(1) by (simp add: in_service_def)
    ultimately show ?thesis
      using assms(3) by (cases "i = m") (simp_all add: take_peer_nth serves_simps)
  qed
  moreover have "take_peer m (peer g) \<noteq> []"
    using assms(1) by (simp add: in_service_def take_peer_def)
  ultimately show ?thesis using assms(1) by (simp add: in_service_def)
qed

lemma in_service_reset: "in_service g \<Longrightarrow> in_service (g\<lparr>peer := reset_weights (peer g)\<rparr>)"
  by (simp add: in_service_def reset_weights_def serves_simps)

definition fresh_round :: "rr_peers \<Rightarrow> rr_peers" where
  "fresh_round g = g\<lparr>peer := reset_weights (peer g)\<rparr>"

lemma round_left_zero: "\<forall>p\<in>set ps. current_weight p = 0 \<Longrightarrow> round_left ps = 0"
  by (induction ps) (simp_all add: round_left_def)

text \<open>A round that is not over serves the peers as often as their current weights say, and then
  is over.\<close>

lemma serve_round:
  assumes "in_service g" "length ts = round_left (peer g)"
  shows "\<exists>ks. serve ts [g] pc = Some (ks, [g\<lparr>peer := map (\<lambda>p. p\<lparr>current_weight := 0\<rparr>) (peer g)\<rparr>])
           \<and> (\<forall>i<number g. count_list ks i = nat (current_weight (peer g ! i)))"
  using assms
proof (induction ts arbitrary: g)
  case Nil
  then have zero: "\<forall>p\<in>set (peer g). current_weight p = 0"
    by (force simp: round_left_def in_service_def serves_def)
  then have "map (\<lambda>p. p\<lparr>current_weight := 0\<rparr>) (peer g) = peer g"
    by (intro map_idI) simp
  then show ?case using zero by simp
next
  case (Cons t ts)
  obtain m ps where one: "serve_one t [g] pc = Some (m, [g\<lparr>peer := take_peer m ps\<rparr>])" "m < number g"
      "ps = peer g \<or> ps = reset_weights (peer g) \<and> (\<forall>p\<in>set (peer g). current_weight p = 0)"
      "current_weight (ps ! m) > 0"
    using serve_one_ok[OF Cons.prems(1)] by blast
  have "\<not> (\<forall>p\<in>set (peer g). current_weight p = 0)"
    using Cons.prems(2) round_left_zero[of "peer g"] by auto
  then have ps: "ps = peer g" using one(3) by blast
  let ?g = "g\<lparr>peer := take_peer m (peer g)\<rparr>"
  have len: "length ts = round_left (peer ?g)"
    using Cons.prems(2) round_left_take[OF one(2)] one(4) ps by simp
  obtain ks where ks: "serve ts [?g] pc = Some (ks, [?g\<lparr>peer := map (\<lambda>p. p\<lparr>current_weight := 0\<rparr>) (peer ?g)\<rparr>])"
      "\<forall>i<number ?g. count_list ks i = nat (current_weight (peer ?g ! i))"
    using Cons.IH[OF in_service_take[OF Cons.prems(1) one(2)] len] one(4) ps by blast
  have zero: "map (\<lambda>p. p\<lparr>current_weight := 0\<rparr>) (take_peer m (peer g)) = map (\<lambda>p. p\<lparr>current_weight := 0\<rparr>) (peer g)"
    by (rule nth_equalityI) (auto simp: take_peer_nth)
  have "count_list (m # ks) i = nat (current_weight (peer g ! i))" if "i < number g" for i
    using ks(2) that one(4) ps by (auto simp: take_peer_nth)
  then show ?case using ks(1) one(1) ps zero by auto
qed

text \<open>A group whose round is over serves as one whose weights have just been reset.\<close>

lemma rr_get_peer_fresh:
  assumes "in_service g" "\<forall>p\<in>set (peer g). current_weight p = 0"
  shows "rr_get_peer (peer g) = rr_get_peer (reset_weights (peer g))"
proof -
  have ok: "\<forall>p\<in>set (peer g). peer_ok p" and w: "\<forall>p\<in>set (peer g). 0 < weight p" and ne: "peer g \<noteq> []"
    using assms(1) by (auto simp: in_service_def serves_def)
  have none: "first_candidate (peer g) 0 = Some None"
    using first_candidate_ok[OF ok, of 0] assms(2) by auto
  have "\<not> (\<forall>j<number g. current_weight (reset_weights (peer g) ! j) \<le> 0)"
    using w ne by (auto simp: not_le intro!: exI[of _ 0])
  then obtain m where "first_candidate (reset_weights (peer g)) 0 = Some (Some m)"
    using first_candidate_ok[OF peer_ok_reset[OF ok], of 0] by auto
  then show ?thesis using none by (simp add: rr_get_peer_def)
qed

lemma serve_fresh:
  assumes "in_service g" "\<forall>p\<in>set (peer g). current_weight p = 0" "ts \<noteq> []"
  shows "serve ts [g] pc = serve ts [fresh_round g] pc"
proof -
  have get: "rr_get_peer (peer g) = rr_get_peer (peer (fresh_round g))"
    using rr_get_peer_fresh[OF assms(1,2)] by (simp add: fresh_round_def)
  have one: "serve_one t [g] pc = serve_one t [fresh_round g] pc" for t
  proof -
    have fresh: "in_service (fresh_round g)"
      using in_service_reset[OF assms(1)] by (simp add: fresh_round_def)
    obtain m ps where "serve_one t [g] pc = Some (m, [g\<lparr>peer := take_peer m ps\<rparr>])"
        "rr_get_peer (peer g) = Some (m, ps)"
      using serve_one_ok[OF assms(1)] by metis
    moreover obtain m' ps' where
        "serve_one t [fresh_round g] pc = Some (m', [(fresh_round g)\<lparr>peer := take_peer m' ps'\<rparr>])"
        "rr_get_peer (peer (fresh_round g)) = Some (m', ps')"
      using serve_one_ok[OF fresh] by metis
    ultimately show ?thesis using get by (simp add: fresh_round_def)
  qed
  show ?thesis using one assms(3) by (cases ts) auto
qed

lemma serve_append:
  "serve (xs @ ys) gs pc =
     (case serve xs gs pc of
        None \<Rightarrow> None
      | Some (ks, gs') \<Rightarrow> map_option (\<lambda>(ks', gs''). (ks @ ks', gs'')) (serve ys gs' pc))"
  by (induction xs arbitrary: gs)
     (auto split: option.splits simp: option.map_comp comp_def case_prod_unfold option.map_ident)

text \<open>The weight of a group: the length of a round.\<close>

definition total_weight :: "rr_peers \<Rightarrow> nat" where
  "total_weight g = sum_list (map (\<lambda>p. nat (weight p)) (peer g))"

lemma round_left_fresh: "round_left (peer (fresh_round g)) = total_weight g"
  by (simp add: round_left_def total_weight_def fresh_round_def reset_weights_def comp_def)

definition spent :: "rr_peers \<Rightarrow> rr_peers" where
  "spent g = g\<lparr>peer := map (\<lambda>p. p\<lparr>current_weight := 0\<rparr>) (peer g)\<rparr>"

lemma spent_simps [simp]:
  "spent (fresh_round g) = spent g" "fresh_round (spent g) = fresh_round g"
  "total_weight (spent g) = total_weight g" "number (spent g) = number g" "spent (spent g) = spent g"
  "\<forall>p\<in>set (peer (spent g)). current_weight p = 0"
  by (simp_all add: spent_def fresh_round_def reset_weights_def total_weight_def comp_def)

lemma in_service_spent:
  assumes "in_service g"
  shows "in_service (spent g)"
proof -
  have "serves p" if "p \<in> set (peer (spent g))" for p
  proof -
    obtain q where "q \<in> set (peer g)" and "p = q\<lparr>current_weight := 0\<rparr>"
      using \<open>p \<in> set (peer (spent g))\<close> unfolding spent_def by fastforce
    moreover have "serves q" using \<open>q \<in> set (peer g)\<close> assms unfolding in_service_def by blast
    ultimately show "serves p" using serves_simps(1)[of q] by simp
  qed
  moreover have "last_cached (spent g) = 0" "\<not> single (spent g)" "peer (spent g) \<noteq> []"
    using assms by (simp_all add: in_service_def spent_def)
  ultimately show ?thesis unfolding in_service_def by blast
qed

lemma serve_rounds_spent:
  assumes "in_service g" "length ts = k * total_weight g"
  shows "\<exists>ks. serve ts [spent g] pc = Some (ks, [spent g])
           \<and> (\<forall>i<number g. count_list ks i = k * nat (weight (peer g ! i)))"
  using assms(2)
proof (induction k arbitrary: ts)
  case (Suc k)
  let ?w = "total_weight g"
  define xs where "xs = take ?w ts"
  define ys where "ys = drop ?w ts"
  have len: "length xs = ?w" "length ys = k * ?w" and ts: "ts = xs @ ys"
    using Suc.prems by (auto simp: xs_def ys_def)
  have "0 < ?w"
    using assms(1) by (cases "peer g") (auto simp: in_service_def serves_def total_weight_def)
  then have xs: "xs \<noteq> []" using len(1) by auto
  have fresh: "in_service (fresh_round g)"
    using in_service_reset[OF assms(1)] by (simp add: fresh_round_def)
  have "serve xs [spent g] pc = serve xs [fresh_round g] pc"
    using serve_fresh[OF in_service_spent[OF assms(1)] _ xs] by simp
  moreover obtain ks where "serve xs [fresh_round g] pc = Some (ks, [spent (fresh_round g)])"
      "\<forall>i<number g. count_list ks i = nat (weight (peer g ! i))"
    using serve_round[OF fresh, of xs pc] len(1)
    unfolding spent_def[symmetric] by (auto simp: round_left_fresh) (auto simp: fresh_round_def)
  moreover obtain ks' where "serve ys [spent g] pc = Some (ks', [spent g])"
      "\<forall>i<number g. count_list ks' i = k * nat (weight (peer g ! i))"
    using Suc.IH[OF len(2)] by blast
  ultimately show ?case using ts by (auto simp: serve_append)
qed simp


lemma serve_single:
  assumes "single g" "last_cached g = 0" "peer g \<noteq> []"
  shows "serve ts [g] pc = Some (replicate (length ts) 0, [g])"
proof -
  have "serve_one t [g] pc = Some (0, [g])" for t
    using assms
    by (simp add: serve_one_def init_rr_peer_def get_rr_peer.simps Let_def hand_out_def free_rr_peer_def)
  then show ?thesis by (induction ts) auto
qed

lemma count_list_replicate_0: "count_list (replicate n 0) (i :: nat) = (if i = 0 then n else 0)"
  by (induction n) auto

text \<open>The group a list of servers is configured to.\<close>

definition configured :: "bytes \<Rightarrow> upstream_server list \<Rightarrow> rr_peers" where
  "configured host servers = hd (init_servers host servers)"

lemma set_ngx_sort [simp]: "weak_order cmp \<Longrightarrow> set (ngx_sort cmp xs) = set xs"
  using ngx_sort_spec(1)[of cmp xs] by (metis set_mset_mset)

lemma weak_order_cmp_servers [simp]: "weak_order cmp_servers"
  by (auto simp: weak_order_def in_order_def cmp_servers_def split: if_splits)

lemma init_no_backup:
  assumes "\<forall>s\<in>set servers. \<not> srv_backup s"
  shows "init_servers host servers = [configured host servers]"
    and "peer (configured host servers)
       = ngx_sort cmp_servers (concat (map (\<lambda>s. map (primary_peer s) (srv_addrs s)) servers))"
    and "single (configured host servers) \<longleftrightarrow> number (configured host servers) = 1"
    and "last_cached (configured host servers) = 0"
proof -
  have "filter (\<lambda>s. \<not> srv_backup s) servers = servers" "filter srv_backup servers = []"
    using assms by (auto intro: filter_True simp: filter_empty_conv)
  note f = this
  show "init_servers host servers = [configured host servers]"
    by (simp add: init_servers_def configured_def f Let_def)
  show "peer (configured host servers)
       = ngx_sort cmp_servers (concat (map (\<lambda>s. map (primary_peer s) (srv_addrs s)) servers))"
    "single (configured host servers) \<longleftrightarrow> number (configured host servers) = 1"
    "last_cached (configured host servers) = 0"
    by (simp_all add: init_servers_def configured_def f Let_def)
qed

lemma configured_serves:
  assumes "\<forall>s\<in>set servers. \<not> srv_backup s \<and> \<not> srv_down s \<and> 0 < srv_weight s \<and> srv_weight s \<le> weight_limit"
    "p \<in> set (peer (configured host servers))"
  shows "serves p \<and> current_weight p = weight p"
proof -
  have nb: "\<forall>s\<in>set servers. \<not> srv_backup s" using assms(1) by blast
  obtain s a where "s \<in> set servers" "p = primary_peer s a"
    using assms(2) unfolding init_no_backup(2)[OF nb] by auto
  moreover from this(1) have "\<not> srv_down s" "0 < srv_weight s" "srv_weight s \<le> weight_limit"
    using assms(1) by auto
  ultimately show ?thesis
    by (auto simp: serves_def primary_peer_def Let_def peer_ok_def healthy_def word_gt_0)
qed

text \<open>C22: weighted round robin is fair.  In an upstream without backup servers, where no server is marked
  \<open>down\<close>, every weight is from 1 to the limit of the arithmetic (\<open>weight_limit\<close>), there is at least one peer, and every request is answered by
  the first peer it is given, any \<open>k\<close> rounds of requests from the start of the balancer, a
  round having as many requests as the weights of the peers add up to, give every peer exactly
  \<open>k\<close> times its weight of them, at whatever times the requests come; so under these conditions no peer
  starves.\<close>

theorem rr_fair:
  assumes "\<forall>s\<in>set servers. \<not> srv_backup s \<and> \<not> srv_down s \<and> 0 < srv_weight s \<and> srv_weight s \<le> weight_limit"
    and "peer (configured host servers) \<noteq> []"
    and "length ts = k * total_weight (configured host servers)"
  shows "\<exists>ks gs. serve ts (init_servers host servers) pc = Some (ks, gs)
           \<and> (\<forall>i<number (configured host servers).
                count_list ks i = k * nat (weight (peer (configured host servers) ! i)))"
proof -
  let ?g = "configured host servers"
  have nb: "\<forall>s\<in>set servers. \<not> srv_backup s" using assms(1) by blast
  note init = init_no_backup[OF nb, of host]
  have fresh: "fresh_round ?g = ?g"
  proof -
    have "reset_weights (peer ?g) = peer ?g"
      unfolding reset_weights_def using configured_serves[OF assms(1)] by (intro map_idI) simp
    then show ?thesis by (simp add: fresh_round_def)
  qed
  show ?thesis
  proof (cases "number ?g = 1")
    case True
    then have "total_weight ?g = nat (weight (peer ?g ! 0))"
      by (cases "peer ?g") (auto simp: total_weight_def)
    then show ?thesis
      using True assms(2,3) init(1,3,4) serve_single[of ?g ts pc] by (simp add: count_list_replicate_0)
  next
    case False
    then have g: "in_service ?g"
      using assms(2) init(3,4) configured_serves[OF assms(1)] by (simp add: in_service_def)
    obtain ks where ks: "serve ts [spent ?g] pc = Some (ks, [spent ?g])"
        "\<forall>i<number ?g. count_list ks i = k * nat (weight (peer ?g ! i))"
      using serve_rounds_spent[OF g assms(3)] by blast
    show ?thesis
    proof (cases "ts = []")
      case True
      then have "ks = []" using ks(1) by simp
      then show ?thesis using True ks(2) init(1) by simp
    next
      case False
      have "serve ts [?g] pc = Some (ks, [spent ?g])"
        using serve_fresh[OF in_service_spent[OF g] _ False, of pc] ks(1) fresh by simp
      then show ?thesis using ks(2) init(1) by auto
    qed
  qed
qed

definition example_server :: "int \<Rightarrow> u64 \<Rightarrow> bool \<Rightarrow> upstream_server" where
  "example_server w mf b = \<lparr>srv_addrs = [([], [])], srv_weight = w, srv_max_fails = mf,
     srv_fail_timeout = 10, srv_down = False, srv_backup = b\<rparr>"

definition idle_conn :: peer_conn where
  "idle_conn = \<lparr>tries = 0, is_cached = False, connection = None, pc_sockaddr = [], pc_name = []\<rparr>"

theorem rr_fair_witness:
  "\<exists>ks gs. serve (replicate 12 100)
      (init_servers [] [example_server 1 1 False, example_server 3 1 False, example_server 2 1 False])
      idle_conn = Some (ks, gs) \<and> count_list ks 0 = 6 \<and> count_list ks 1 = 4 \<and> count_list ks 2 = 2"
proof -
  let ?ss = "[example_server 1 1 False, example_server 3 1 False, example_server 2 1 False]"
  have c: "map weight (peer (configured [] ?ss)) = [3, 2, 1]" by code_simp
  then have len: "number (configured [] ?ss) = 3" by (metis length_map length_Cons list.size(3) numeral_3_eq_3)
  have w: "weight (peer (configured [] ?ss) ! 0) = 3" "weight (peer (configured [] ?ss) ! 1) = 2"
    "weight (peer (configured [] ?ss) ! 2) = 1"
    using c len by (metis nth_map nth_Cons_0 nth_Cons_Suc One_nat_def numeral_2_eq_2 zero_less_numeral
      less_numeral_extra(1) numeral_3_eq_3 lessI less_Suc_eq)+
  have "total_weight (configured [] ?ss) = 6" by code_simp
  then show ?thesis
    using rr_fair[of ?ss "[]" "replicate 12 100" 2 idle_conn] w len
    by (force simp: example_server_def weight_limit_def)
qed

end
