(* ===== verification/HttpRrSafety.thy ===== *)
theory HttpRrSafety
  imports HttpRoundRobin
begin

text \<open>
  The invariant of the round robin balancer and its safety: whatever the interleaving of the
  requests of a worker, every operation of \<^verbatim>\<open>HttpRoundRobin\<close> is defined, keeps the shape of the
  groups and the range of the weights, and hands out only peers that may be used.
\<close>

section \<open>A request never leaves the group, the bitmap or the range of the weights\<close>

text \<open>The current weights may go below 0, by one for each later try; \<open>B\<close> bounds by how much.\<close>

definition peers_ok :: "int \<Rightarrow> rr_peer list \<Rightarrow> bool" where
  "peers_ok B ps \<longleftrightarrow> ps \<noteq> [] \<and> 0 \<le> B \<and> (\<forall>p\<in>set ps. peer_ok p \<and> - B \<le> current_weight p)"

definition bitmap_ok :: "u64 list \<Rightarrow> rr_peer list \<Rightarrow> bool" where
  "bitmap_ok td ps \<longleftrightarrow> (\<forall>k<length ps. k div 64 < length td)"

text \<open>What the two loops of \<open>get\<close> promise on a group \<open>ps\<close> with the bitmap \<open>td\<close>.\<close>

definition choice_ok ::
  "int \<Rightarrow> rr_peer list \<Rightarrow> u64 list \<Rightarrow> bool \<Rightarrow> nat \<Rightarrow> rr_peer list \<Rightarrow> u64 list \<Rightarrow> bool" where
  "choice_ok B ps td taken k ps' td' \<longleftrightarrow>
     peers_ok B ps' \<and> length ps' = length ps \<and> k < length ps \<and> length td' = length td \<and>
     (\<forall>j. is_tried td j \<longrightarrow> is_tried td' j) \<and>
     (taken \<longrightarrow> healthy (ps' ! k) \<and> \<not> is_tried td k)"

lemma peers_ok_update:
  assumes "peers_ok B ps" "peer_ok q" "- B \<le> current_weight q"
  shows "peers_ok B (ps[k := q])"
  using assms set_update_subset_insert[of ps k q] unfolding peers_ok_def
  by (auto dest: subsetD)

lemma peers_ok_reset: "peers_ok B ps \<Longrightarrow> peers_ok B (reset_weights ps)"
  by (auto simp: peers_ok_def reset_weights_def peer_ok_def)

lemma consider_peer_ok:
  assumes "peers_ok B ps" "bitmap_ok td ps" "k < length ps"
  obtains taken ps' td' tr' where "consider_peer now k ps td tr = Some (taken, ps', td', tr')"
    "choice_ok B ps td taken k ps' td'"
proof -
  have td: "k div 64 < length td" using assms(2,3) by (simp add: bitmap_ok_def)
  have p: "peer_ok (ps ! k)" "- B \<le> current_weight (ps ! k)"
    using assms(1,3) by (auto simp: peers_ok_def)
  have B: "0 \<le> B" using assms(1) by (simp add: peers_ok_def)
  have up: "peers_ok B (ps[k := (ps ! k)\<lparr>fails := f\<rparr>])"
    "peers_ok B (ps[k := (ps ! k)\<lparr>current_weight := 0\<rparr>])" for f
    using p B by (auto intro!: peers_ok_update[OF assms(1)] simp: peer_ok_def)
  show thesis
  proof (cases "is_tried td k")
    case True
    then show thesis using that[of False ps td tr] td assms
      by (simp add: consider_peer_def choice_ok_def)
  next
    case untried: False
    consider (down) "down (ps ! k)"
      | (good) "\<not> down (ps ! k)" "max_fails (ps ! k) = 0 \<or> fails (ps ! k) < max_fails (ps ! k)"
      | (old) "\<not> down (ps ! k)" "\<not> (max_fails (ps ! k) = 0 \<or> fails (ps ! k) < max_fails (ps ! k))"
          "now - accessed (ps ! k) > fail_timeout (ps ! k)"
      | (failed) "\<not> down (ps ! k)" "\<not> (max_fails (ps ! k) = 0 \<or> fails (ps ! k) < max_fails (ps ! k))"
          "\<not> now - accessed (ps ! k) > fail_timeout (ps ! k)"
      by blast
    then show thesis
    proof cases
      case down
      then show thesis using that[of False ps "mark_tried td k" "tr - 1"] td untried assms
        by (simp add: consider_peer_def choice_ok_def is_tried_mark)
    next
      case good
      then show thesis using that[of True ps td tr] td untried assms
        by (simp add: consider_peer_def choice_ok_def healthy_def)
    next
      case old
      then show thesis
        using that[of True "ps[k := (ps ! k)\<lparr>fails := 0\<rparr>]" td tr] td untried assms up(1)
        by (simp add: consider_peer_def choice_ok_def healthy_def word_gt_0)
    next
      case failed
      then show thesis
        using that[of False "ps[k := (ps ! k)\<lparr>current_weight := 0\<rparr>]" td "tr - 1"] td untried assms up(2)
        by (simp add: consider_peer_def choice_ok_def Let_def)
    qed
  qed
qed

lemma bitmap_ok_cong: "bitmap_ok td ps \<Longrightarrow> length ps' = length ps \<Longrightarrow> length td' = length td \<Longrightarrow> bitmap_ok td' ps'"
  by (simp add: bitmap_ok_def)

lemma choice_ok_trans:
  "choice_ok B ps td False k ps1 td1 \<Longrightarrow> choice_ok B ps1 td1 taken m ps2 td2 \<Longrightarrow> choice_ok B ps td taken m ps2 td2"
  by (auto simp: choice_ok_def)

lemma choice_ok_reset: "choice_ok B (reset_weights ps) td taken k ps' td' \<Longrightarrow> choice_ok B ps td taken k ps' td'"
  by (simp add: choice_ok_def)

lemma first_try_ok:
  assumes "peers_ok B ps" "bitmap_ok td ps"
  shows "\<exists>taken k ps' td' tr'. first_try now ps td tr i = Some (taken, k, ps', td', tr')
           \<and> choice_ok B ps td taken k ps' td'"
  using assms
proof (induction now ps td tr i rule: first_try.induct)
  case (1 now ps td tr i)
  obtain m ps1 where get: "rr_get_peer ps = Some (m, ps1)" "m < length ps" "ps1 = ps \<or> ps1 = reset_weights ps"
    using rr_get_peer_ok[of ps] "1.prems"(1) unfolding peers_ok_def by metis
  have ps1: "peers_ok B ps1" "length ps1 = length ps"
    using get(3) "1.prems"(1) peers_ok_reset by auto
  obtain t ps2 td2 tr2 where c: "consider_peer now m ps1 td tr = Some (t, ps2, td2, tr2)"
      "choice_ok B ps1 td t m ps2 td2"
    using consider_peer_ok[OF ps1(1) bitmap_ok_cong[OF "1.prems"(2) ps1(2) refl], of m now tr] get(2) ps1(2) by metis
  then have choice: "choice_ok B ps td t m ps2 td2"
    using get(3) choice_ok_reset by auto
  show ?case
  proof (cases "t \<or> tr2 = 0 \<or> i - 1 = 0")
    case True
    then have "first_try now ps td tr i = Some (t, m, ps2, td2, tr2)"
      using get(1) c(1) by (subst first_try.simps) auto
    then show ?thesis using choice by blast
  next
    case False
    then have step: "first_try now ps td tr i = first_try now ps2 td2 tr2 (i - 1)"
      using get(1) c(1) by (subst first_try.simps) auto
    have ps2: "peers_ok B ps2" "bitmap_ok td2 ps2"
      using choice bitmap_ok_cong[OF "1.prems"(2)] by (auto simp: choice_ok_def)
    have t: "\<not> t" "tr2 \<noteq> 0" "i - 1 \<noteq> 0" using False by auto
    obtain t' k ps' td' tr' where rec: "first_try now ps2 td2 tr2 (i - 1) = Some (t', k, ps', td', tr')"
        "choice_ok B ps2 td2 t' k ps' td'"
      using "1.IH"[OF get(1) refl c(1) refl refl refl t ps2] by blast
    have "choice_ok B ps td False m ps2 td2" using choice t(1) by simp
    from choice_ok_trans[OF this rec(2)] show ?thesis using step rec(1) by auto
  qed
qed

lemma later_try_ok:
  assumes "peers_ok B ps" "bitmap_ok td ps" "k < length ps"
  shows "\<exists>taken k' ps' td' tr'. later_try now k ps td tr i = Some (taken, k', ps', td', tr')
           \<and> choice_ok B ps td taken k' ps' td'"
  using assms
proof (induction now k ps td tr i rule: later_try.induct)
  case (1 now k ps td tr i)
  obtain t ps2 td2 tr2 where c: "consider_peer now k ps td tr = Some (t, ps2, td2, tr2)"
      "choice_ok B ps td t k ps2 td2"
    using consider_peer_ok[OF "1.prems", of now tr] by blast
  have adv: "advance (length ps) k < length ps" using "1.prems"(3) by (cases ps) (auto simp: advance_def)
  have choice: "choice_ok B ps td False (advance (length ps) k) ps2 td2" if "\<not> t"
    using c(2) adv that by (simp add: choice_ok_def)
  consider (taken) t | (stop) "\<not> t" "tr2 = 0 \<or> i - 1 = 0" | (go_on) "\<not> t" "tr2 \<noteq> 0" "i - 1 \<noteq> 0"
    by blast
  then show ?case
  proof cases
    case taken
    then show ?thesis using c by (subst later_try.simps) auto
  next
    case stop
    then have "later_try now k ps td tr i = Some (False, advance (length ps) k, ps2, td2, tr2)"
      using c(1) by (subst later_try.simps) (auto simp: Let_def)
    then show ?thesis using choice[OF stop(1)] by blast
  next
    case go_on
    then have step: "later_try now k ps td tr i = later_try now (advance (length ps) k) ps2 td2 tr2 (i - 1)"
      using c(1) by (subst later_try.simps) (auto simp: Let_def)
    have ps2: "peers_ok B ps2" "bitmap_ok td2 ps2" "advance (length ps) k < length ps2"
      using c(2) adv bitmap_ok_cong[OF "1.prems"(2)] by (auto simp: choice_ok_def)
    show ?thesis
      using "1.IH"[OF c(1) refl refl refl go_on(1) refl go_on(2,3) ps2] step choice[OF go_on(1)] choice_ok_trans
      by metis
  qed
qed

text \<open>The request stands in a group of the chain, and the bitmap has room for every group (for a
  later group, as many words as the code clears on the way to it).  A request that is sent on
  to a later group keeps the index it had, which need not be an index of that group until the
  choice is made; \<open>groups_wf\<close> leaves it out.\<close>

definition groups_wf :: "int \<Rightarrow> rr_peers list \<Rightarrow> rr_data \<Rightarrow> bool" where
  "groups_wf B gs d \<longleftrightarrow>
     group d < length gs \<and>
     (\<forall>g\<in>set gs. peers_ok B (peer g) \<and> bitmap_ok (tried d) (peer g) \<and> last_cached g = 0) \<and>
     (\<forall>g\<in>set (tl gs). \<not> single g \<and> number g div 64 < length (tried d))"

definition rr_wf :: "int \<Rightarrow> rr_peers list \<Rightarrow> rr_data \<Rightarrow> bool" where
  "rr_wf B gs d \<longleftrightarrow> groups_wf B gs d \<and> current d < number (gs ! group d)"

lemma clear_words_ok:
  "i + m \<le> length td \<Longrightarrow> \<exists>td'. clear_words td i m = Some td' \<and> length td' = length td"
  by (induction td i m rule: clear_words.induct) auto

lemma clear_tried_ok:
  "n div 64 < length td \<Longrightarrow> \<exists>td'. clear_tried n td = Some td' \<and> length td' = length td"
  using clear_words_ok[of 0 "n div 64 + 1" td] by (simp add: clear_tried_def)

lemma peers_ok_mono: "peers_ok B ps \<Longrightarrow> B \<le> C \<Longrightarrow> peers_ok C ps"
  by (force simp: peers_ok_def)

lemma peers_ok_take:
  assumes "peers_ok B ps" "k < length ps"
  shows "peers_ok (B + 1) (take_peer k ps)"
proof -
  have p: "peer_ok (ps ! k)" "- B \<le> current_weight (ps ! k)"
    using assms by (auto simp: peers_ok_def)
  show ?thesis
    unfolding take_peer_def
    by (rule peers_ok_update[OF peers_ok_mono[OF assms(1)]]) (use p in \<open>auto simp: peer_ok_def\<close>)
qed

lemma peers_ok_mark_live: "peers_ok B (peer g) \<Longrightarrow> peers_ok B (peer (mark_live g))"
  by (auto simp: peers_ok_def mark_live_def peer_ok_def)

lemma mark_live_simps [simp]:
  "number (mark_live g) = number g" "single (mark_live g) = single g" "last_cached (mark_live g) = last_cached g"
  by (simp_all add: mark_live_def)

text \<open>The shape of the groups: no operation changes it.\<close>

definition shape :: "rr_peers list \<Rightarrow> (nat \<times> bool) list" where
  "shape gs = map (\<lambda>g. (number g, single g)) gs"

lemma nth_Suc_in_tl: "Suc i < length xs \<Longrightarrow> xs ! Suc i \<in> set (tl xs)"
  by (cases xs) auto

lemma in_set_tl_nth: "x \<in> set (tl xs) \<Longrightarrow> \<exists>i. Suc i < length xs \<and> x = xs ! Suc i"
  by (cases xs) (auto simp: in_set_conv_nth)

lemma rr_wf_next:
  assumes "groups_wf B gs d" "Suc (group d) < length gs"
  shows "gs ! Suc (group d) \<in> set (tl gs)" "number (gs ! Suc (group d)) div 64 < length (tried d)"
    "0 < number (gs ! Suc (group d))" "\<not> single (gs ! Suc (group d))"
proof -
  show m: "gs ! Suc (group d) \<in> set (tl gs)"
    using assms(2) by (rule nth_Suc_in_tl)
  then show "number (gs ! Suc (group d)) div 64 < length (tried d)" "\<not> single (gs ! Suc (group d))"
    using assms(1) by (simp_all add: groups_wf_def)
  have "gs ! Suc (group d) \<in> set gs" using assms(2) by simp
  then show "0 < number (gs ! Suc (group d))"
    using assms(1) by (auto simp: groups_wf_def peers_ok_def)
qed

lemma rr_wf_change:
  assumes wf: "groups_wf B gs d" and ps: "peers_ok C ps" "B \<le> C" "length ps = number (gs ! group d)"
    and d: "group d' < length gs" "current d' < number (gs ! group d')" "length (tried d') = length (tried d)"
  shows "rr_wf C (set_group (group d) ps gs) d'" "shape (set_group (group d) ps gs) = shape gs"
proof -
  let ?gs = "set_group (group d) ps gs"
  have g: "group d < length gs" using wf by (simp add: groups_wf_def)
  have nth: "?gs ! i = (if i = group d then (gs ! i)\<lparr>peer := ps\<rparr> else gs ! i)" if "i < length gs" for i
    using that by (auto simp: set_group_def nth_list_update)
  have len: "length ?gs = length gs" by (simp add: set_group_def)
  have num: "number (?gs ! i) = number (gs ! i)" if "i < length gs" for i
    using nth[OF that] ps(3) by simp
  show "shape ?gs = shape gs"
    using nth num by (intro nth_equalityI) (auto simp: shape_def len)
  have "peers_ok C (peer g) \<and> bitmap_ok (tried d') (peer g) \<and> last_cached g = 0"
    if "g \<in> set ?gs" for g
  proof -
    obtain i where i: "i < length gs" "g = ?gs ! i"
      using \<open>g \<in> set ?gs\<close> by (metis in_set_conv_nth len)
    have "peers_ok B (peer (gs ! i))" "bitmap_ok (tried d) (peer (gs ! i))" "last_cached (gs ! i) = 0"
      using wf i(1) by (auto simp: groups_wf_def)
    then show ?thesis
      using i nth[OF i(1)] num[OF i(1)] ps d(3) peers_ok_mono[OF _ ps(2)] bitmap_ok_cong
      by (cases "i = group d") auto
  qed
  moreover have "\<not> single g \<and> number g div 64 < length (tried d')" if "g \<in> set (tl ?gs)" for g
  proof -
    obtain i where i: "Suc i < length gs" "g = ?gs ! Suc i"
      using in_set_tl_nth[OF \<open>g \<in> set (tl ?gs)\<close>] len by metis
    then have "gs ! Suc i \<in> set (tl gs)" by (simp add: nth_Suc_in_tl)
    then have "\<not> single (gs ! Suc i)" "number (gs ! Suc i) div 64 < length (tried d)"
      using wf by (simp_all add: groups_wf_def)
    then show ?thesis using d(3) num[OF i(1)] nth[OF i(1)] i(2) by auto
  qed
  ultimately show "rr_wf C ?gs d'"
    using d num[OF d(1)] unfolding rr_wf_def groups_wf_def len by simp
qed


text \<open>What a call of \<open>get\<close> gives: \<open>NGX_BUSY\<close>, or the address of a peer of the group the
  request has come to; in a group of several the peer is not marked \<open>down\<close>, is not over its
  failures and, as long as the request stays in its group, had not been tried.\<close>

definition get_ok ::
  "int \<Rightarrow> rr_peers list \<Rightarrow> rr_data \<Rightarrow> ngx_rc \<Rightarrow> rr_peers list \<Rightarrow> rr_data \<Rightarrow> peer_conn \<Rightarrow> bool" where
  "get_ok B gs d rc gs' d' pc' \<longleftrightarrow>
     rr_wf (B + 1) gs' d' \<and> shape gs' = shape gs \<and> group d \<le> group d' \<and>
     (rc = NGX_BUSY \<or> rc = NGX_OK \<and>
       (if single (gs' ! group d')
        then pc_sockaddr pc' = sockaddr (peer (gs' ! group d') ! 0)
        else pc_sockaddr pc' = sockaddr (peer (gs' ! group d') ! current d') \<and>
             healthy (peer (gs' ! group d') ! current d') \<and>
             (group d' = group d \<longrightarrow> \<not> is_tried (tried d) (current d'))))"

lemma shape_nth:
  assumes "shape gs' = shape gs" "i < length gs"
  shows "number (gs' ! i) = number (gs ! i)" "single (gs' ! i) = single (gs ! i)"
proof -
  have len: "length gs' = length gs" using assms(1) by (metis shape_def length_map)
  have "shape gs' ! i = shape gs ! i" using assms(1) by simp
  then show "number (gs' ! i) = number (gs ! i)" "single (gs' ! i) = single (gs ! i)"
    using assms(2) len by (simp_all add: shape_def)
qed

lemma hand_out_ok:
  assumes "rr_wf B gs d"
  shows "\<exists>d' pc'. hand_out p gs d pc = Some (NGX_OK, gs, d', pc') \<and> rr_wf B gs d'
           \<and> group d' = group d \<and> current d' = current d \<and> pc_sockaddr pc' = sockaddr p"
proof (cases "tries pc = 1 \<and> Suc (group d) < length gs")
  case True
  obtain td where td: "clear_tried (number (gs ! Suc (group d))) (tried d) = Some td" "length td = length (tried d)"
    using clear_tried_ok[OF rr_wf_next(2)[of B gs d]] assms True by (auto simp: rr_wf_def)
  then have "rr_wf B gs (d\<lparr>tried := td\<rparr>)"
    using assms by (simp add: rr_wf_def groups_wf_def bitmap_ok_def)
  then show ?thesis using True td(1) by (simp add: hand_out_def Let_def)
next
  case False
  then show ?thesis using assms by (auto simp: hand_out_def Let_def)
qed

lemma choose_peer_ok:
  assumes "groups_wf B gs d" "current d < number (gs ! group d) \<or> tries pc = of_nat (number (gs ! group d))"
  shows "\<exists>taken k ps' td' tr'. choose_peer now (gs ! group d) d pc = Some (taken, k, ps', td', tr')
           \<and> choice_ok B (peer (gs ! group d)) (tried d) taken k ps' td'"
proof -
  have g: "peers_ok B (peer (gs ! group d))" "bitmap_ok (tried d) (peer (gs ! group d))"
    using assms(1) by (auto simp: groups_wf_def)
  show ?thesis
    using first_try_ok[OF g] later_try_ok[OF g] assms(2) unfolding choose_peer_def
    by (cases "tries pc = of_nat (number (gs ! group d))") simp_all
qed

text \<open>The mark of life for the peers of the group that gave up.\<close>

lemma rr_wf_mark_live:
  assumes "rr_wf B gs d" "g < length gs"
  shows "rr_wf B (gs[g := mark_live (gs ! g)]) d" "shape (gs[g := mark_live (gs ! g)]) = shape gs"
proof -
  let ?gs = "gs[g := mark_live (gs ! g)]"
  have ok: "\<forall>h\<in>set gs. peers_ok B (peer h) \<and> bitmap_ok (tried d) (peer h) \<and> last_cached h = 0"
    using assms(1) by (simp add: rr_wf_def groups_wf_def)
  have "peers_ok B (peer h) \<and> bitmap_ok (tried d) (peer h) \<and> last_cached h = 0" if "h \<in> set ?gs" for h
  proof -
    have "h \<in> set gs \<or> h = mark_live (gs ! g)"
      using that set_update_subset_insert[of gs g] by blast
    moreover have "gs ! g \<in> set gs" using assms(2) by simp
    ultimately show ?thesis using ok peers_ok_mark_live by (auto simp: bitmap_ok_def)
  qed
  moreover have "\<not> single h \<and> number h div 64 < length (tried d)" if h: "h \<in> set (tl ?gs)" for h
  proof -
    obtain i where i: "Suc i < length gs" "h = ?gs ! Suc i" using in_set_tl_nth[OF h] by auto
    then have "number h = number (gs ! Suc i) \<and> single h = single (gs ! Suc i)"
      by (cases "g = Suc i") auto
    then show ?thesis using nth_Suc_in_tl[OF i(1)] assms(1) by (simp add: rr_wf_def groups_wf_def)
  qed
  moreover have "number (?gs ! group d) = number (gs ! group d)"
    using assms by (auto simp: nth_list_update rr_wf_def)
  ultimately show "rr_wf B ?gs d" using assms(1) unfolding rr_wf_def groups_wf_def by simp
  show "shape ?gs = shape gs"
    using assms(2) by (intro nth_equalityI) (auto simp: shape_def nth_list_update)
qed

lemma rr_wf_mono: "rr_wf B gs d \<Longrightarrow> B \<le> C \<Longrightarrow> rr_wf C gs d"
  using peers_ok_mono unfolding rr_wf_def groups_wf_def by blast

lemma set_group_nth: "g < length gs \<Longrightarrow> set_group g ps gs ! g = (gs ! g)\<lparr>peer := ps\<rparr>"
  by (simp add: set_group_def)

lemma length_set_group [simp]: "length (set_group g ps gs) = length gs"
  by (simp add: set_group_def)

lemma get_rr_peer_ok:
  assumes "groups_wf B gs d" "current d < number (gs ! group d) \<or> \<not> single (gs ! group d) \<and> tries pc = of_nat (number (gs ! group d))"
  shows "\<exists>rc gs' d' pc'. get_rr_peer now gs d pc = Some (rc, gs', d', pc') \<and> get_ok B gs d rc gs' d' pc'"
  using assms
proof (induction "length gs - group d" arbitrary: gs d pc)
  case 0
  then show ?case by (simp add: groups_wf_def)
next
  case (Suc n)
  note wf = Suc.prems
  let ?g = "gs ! group d"
  let ?pc = "pc\<lparr>is_cached := False, connection := None\<rparr>"
  have g: "group d < length gs" "last_cached ?g = 0" "peer ?g \<noteq> []"
    using wf(1) by (auto simp: groups_wf_def peers_ok_def)
  show ?case
  proof (cases "single ?g")
    case True
    then have "get_rr_peer now gs d pc = hand_out (peer ?g ! 0) gs d ?pc"
      using g by (subst get_rr_peer.simps) (simp add: Let_def)
    moreover obtain d' pc' where "hand_out (peer ?g ! 0) gs d ?pc = Some (NGX_OK, gs, d', pc')" "rr_wf B gs d'"
        "group d' = group d" "pc_sockaddr pc' = sockaddr (peer ?g ! 0)"
      using hand_out_ok[of B gs d "peer ?g ! 0" ?pc] wf True unfolding rr_wf_def by blast
    ultimately show ?thesis using True rr_wf_mono[of B gs d' "B + 1"] by (auto simp: get_ok_def)
  next
    case several: False
    obtain taken k ps td tr where c: "choose_peer now ?g d ?pc = Some (taken, k, ps, td, tr)"
        "choice_ok B (peer ?g) (tried d) taken k ps td"
      using choose_peer_ok[OF wf(1), of ?pc now] wf(2) by auto
    have ps: "peers_ok B ps" "length ps = number ?g" "k < number ?g" "length td = length (tried d)"
      using c(2) by (auto simp: choice_ok_def)
    show ?thesis
    proof (cases taken)
      case True
      let ?gs = "set_group (group d) (take_peer k ps) gs"
      let ?d = "d\<lparr>current := k, tried := mark_tried td k\<rparr>"
      have "get_rr_peer now gs d pc = hand_out (ps ! k) ?gs ?d (?pc\<lparr>tries := tr\<rparr>)"
        using g several c(1) True by (subst get_rr_peer.simps) (simp add: Let_def)
      moreover have wf1: "rr_wf (B + 1) ?gs ?d" "shape ?gs = shape gs"
        using rr_wf_change[OF wf(1) peers_ok_take[OF ps(1)], of k ?d] ps g(1) by simp_all
      moreover obtain d' pc' where h: "hand_out (ps ! k) ?gs ?d (?pc\<lparr>tries := tr\<rparr>) = Some (NGX_OK, ?gs, d', pc')"
          "rr_wf (B + 1) ?gs d'" "group d' = group d" "current d' = k" "pc_sockaddr pc' = sockaddr (ps ! k)"
        using hand_out_ok[OF wf1(1), of "ps ! k" "?pc\<lparr>tries := tr\<rparr>"] by auto
      moreover have "healthy (take_peer k ps ! k)" "sockaddr (take_peer k ps ! k) = sockaddr (ps ! k)"
          "\<not> is_tried (tried d) k"
        using c(2) True ps by (auto simp: choice_ok_def take_peer_nth healthy_def)
      ultimately show ?thesis using several g(1) by (auto simp: get_ok_def set_group_nth)
    next
      case False
      let ?gs = "set_group (group d) ps gs"
      let ?d = "d\<lparr>current := k, tried := td\<rparr>"
      have wf1: "rr_wf B ?gs ?d" "shape ?gs = shape gs"
        using rr_wf_change[OF wf(1) ps(1) _ ps(2), of ?d] ps g(1) by simp_all
      have busy: "get_ok B gs d NGX_BUSY (gs2[group d := mark_live (gs2 ! group d)]) d2 pc2"
        if "rr_wf (B + 1) gs2 d2" "shape gs2 = shape gs" "group d \<le> group d2" for gs2 d2 pc2
      proof -
        have "length gs2 = length gs" using that(2) by (metis shape_def length_map)
        then show ?thesis
          using rr_wf_mark_live[OF that(1), of "group d"] that g(1) by (simp add: get_ok_def)
      qed
      show ?thesis
      proof (cases "Suc (group d) < length gs")
        case more: True
        obtain td' where td': "clear_tried (number (gs ! Suc (group d))) td = Some td'" "length td' = length (tried d)"
          using clear_tried_ok[of "number (gs ! Suc (group d))" td] rr_wf_next(2)[OF wf(1) more] ps(4) by auto
        let ?d1 = "?d\<lparr>group := Suc (group d), tried := td'\<rparr>"
        let ?pc1 = "?pc\<lparr>tries := of_nat (number (gs ! Suc (group d)))\<rparr>"
        have shape1: "number (?gs ! Suc (group d)) = number (gs ! Suc (group d))"
            "\<not> single (?gs ! Suc (group d))"
          using shape_nth[OF wf1(2) more] rr_wf_next(4)[OF wf(1) more] by simp_all
        have wf2: "groups_wf B ?gs ?d1"
          using wf1(1) more td'(2) ps(4) by (simp add: rr_wf_def groups_wf_def bitmap_ok_def)
        have "n = length ?gs - group ?d1" using Suc.hyps(2) by simp
        then obtain rc gs2 d2 pc2 where rec: "get_rr_peer now ?gs ?d1 ?pc1 = Some (rc, gs2, d2, pc2)"
            "get_ok B ?gs ?d1 rc gs2 d2 pc2"
          using Suc.hyps(1)[of ?gs ?d1 ?pc1] wf2 shape1 by auto
        have step: "get_rr_peer now gs d pc =
            (if rc \<noteq> NGX_BUSY then Some (rc, gs2, d2, pc2)
             else Some (NGX_BUSY, gs2[group d := mark_live (gs2 ! group d)], d2,
                        pc2\<lparr>pc_name := group_name (gs2 ! group d)\<rparr>))"
          using g several c(1) False more td'(1) rec(1) by (subst get_rr_peer.simps) (simp add: Let_def)
        have deeper: "rr_wf (B + 1) gs2 d2" "shape gs2 = shape gs" "Suc (group d) \<le> group d2"
          using rec(2) wf1(2) by (simp_all add: get_ok_def)
        show ?thesis
        proof (cases "rc = NGX_BUSY")
          case True
          then show ?thesis using step busy[OF deeper(1,2)] deeper(3) by auto
        next
          case False
          then have "get_ok B gs d rc gs2 d2 pc2"
            using rec(2) deeper by (auto simp: get_ok_def split: if_splits)
          then show ?thesis using step False by auto
        qed
      next
        case last: False
        then show ?thesis
          using g several c(1) False busy[OF rr_wf_mono[OF wf1(1)] wf1(2)]
          by (subst get_rr_peer.simps) (auto simp: Let_def set_group_nth)
      qed
    qed
  qed
qed

section \<open>Any interleaving of requests is safe\<close>

lemma fail_peer_weight:
  assumes "peer_ok p" "- (2 ^ 62) \<le> current_weight p"
  shows "current_weight (fail_peer now p)
       = max 0 (current_weight p - (if max_fails p = 0 then 0 else weight p div uint (max_fails p)))"
proof (cases "max_fails p = 0")
  case False
  let ?w = "weight p" and ?c = "current_weight p" and ?m = "max_fails p"
  have w: "0 \<le> ?w" "?w < 2 ^ 60" "?c \<le> ?w"
    using assms(1) by (simp_all add: peer_ok_def weight_limit_def)
  have m: "0 < uint ?m" using False by (metis uint_0_iff uint_ge_0 order_le_less)
  have q: "0 \<le> ?w div uint ?m" "?w div uint ?m \<le> ?w"
    using w(1) m zdiv_mono2[of ?w 1 "uint ?m"] by (simp_all add: pos_imp_zdiv_nonneg_iff)
  have "uint (word_of_int ?w :: u64) = ?w" using w by (simp add: unsigned_of_int take_bit_int_eq_self)
  then have div: "(word_of_int ?w :: u64) div ?m = word_of_int (?w div uint ?m)"
    by (metis uint_div word_of_int_uint)
  have fits: "sint (word_of_int x :: u64) = x" if "- (2 ^ 63) \<le> x" "x < 2 ^ 63" for x
    using that by (simp add: signed_of_int signed_take_bit_int_eq_self)
  have "- (2 ^ 63) \<le> ?c - ?w div uint ?m" "?c - ?w div uint ?m < 2 ^ 63"
    using assms(2) w q by simp_all
  note fits[OF this]
  then show ?thesis using False div by (simp add: fail_peer_def Let_def)
qed (simp add: fail_peer_def Let_def)

lemma peers_ok_fail:
  assumes "peers_ok B ps" "B \<le> 2 ^ 62" "k < length ps"
  shows "peers_ok B (ps[k := fail_peer now (ps ! k)])"
proof -
  have p: "peer_ok (ps ! k)" "- B \<le> current_weight (ps ! k)" "0 \<le> B"
    using assms by (auto simp: peers_ok_def)
  have "weight (fail_peer now (ps ! k)) = weight (ps ! k)" by (simp add: fail_peer_def Let_def)
  moreover have "0 \<le> weight (ps ! k)" "current_weight (ps ! k) \<le> weight (ps ! k)"
    using p(1) by (simp_all add: peer_ok_def)
  moreover have "0 \<le> (if max_fails (ps ! k) = 0 then 0 else weight (ps ! k) div uint (max_fails (ps ! k)))"
    using p(1) by (simp add: peer_ok_def pos_imp_zdiv_nonneg_iff uint_ge_0 div_int_pos_iff)
  ultimately have "peer_ok (fail_peer now (ps ! k)) \<and> - B \<le> current_weight (fail_peer now (ps ! k))"
    using fail_peer_weight[of "ps ! k" now] p assms(2) by (auto simp: peer_ok_def)
  then show ?thesis using peers_ok_update[OF assms(1)] by blast
qed

lemma free_rr_peer_ok:
  assumes "rr_wf B gs d" "B \<le> 2 ^ 62"
  shows "\<exists>gs' d' pc'. free_rr_peer now st gs d pc = Some (gs', d', pc')
           \<and> rr_wf B gs' d' \<and> shape gs' = shape gs"
proof -
  let ?g = "gs ! group d"
  let ?d = "d\<lparr>current := advance (number ?g) (current d)\<rparr>"
  have g: "group d < length gs" "current d < number ?g" "peers_ok B (peer ?g)"
    using assms(1) by (auto simp: rr_wf_def groups_wf_def)
  have adv: "advance (number ?g) (current d) < number ?g"
    using g(2) by (cases "peer ?g") (auto simp: advance_def)
  have d: "rr_wf B gs ?d" using assms(1) adv by (simp add: rr_wf_def groups_wf_def)
  have fail: "rr_wf B (set_group (group d) ((peer ?g)[current d := fail_peer now (peer ?g ! current d)]) gs) ?d"
    "shape (set_group (group d) ((peer ?g)[current d := fail_peer now (peer ?g ! current d)]) gs) = shape gs"
    using rr_wf_change[of B gs d B "(peer ?g)[current d := fail_peer now (peer ?g ! current d)]" ?d]
      peers_ok_fail[OF g(3) assms(2) g(2)] assms(1) adv g(1) by (simp_all add: rr_wf_def)
  consider "st = 0 \<and> tries pc = 0" | "\<not> (st = 0 \<and> tries pc = 0)" "single ?g"
    | "\<not> (st = 0 \<and> tries pc = 0)" "\<not> single ?g" "st AND NGX_PEER_FAILED = 0"
    | "\<not> (st = 0 \<and> tries pc = 0)" "\<not> single ?g" "st AND NGX_PEER_FAILED \<noteq> 0" by blast
  then show ?thesis
    by cases (use g(1,2) assms(1) d fail in \<open>auto simp: free_rr_peer_def Let_def\<close>)
qed


text \<open>A worker process: the groups of an upstream, shared by the requests in progress, each with
  its state; \<open>n\<close> counts the calls of \<open>get\<close>.  Requests start, get peers and give them back in
  any order, at any time and with any outcome.\<close>

type_synonym requests = "nat \<Rightarrow> (rr_data \<times> peer_conn) option"

inductive rr_run :: "rr_peers list \<Rightarrow> nat \<Rightarrow> rr_peers list \<Rightarrow> requests \<Rightarrow> bool"
  for gs0 :: "rr_peers list" where
  start: "rr_run gs0 0 gs0 (\<lambda>_. None)"
| init: "rr_run gs0 n gs rs \<Longrightarrow> init_rr_peer gs pc = Some (d, pc')
         \<Longrightarrow> rr_run gs0 n gs (rs(i \<mapsto> (d, pc')))"
| get: "rr_run gs0 n gs rs \<Longrightarrow> rs i = Some (d, pc)
         \<Longrightarrow> get_rr_peer now gs d pc = Some (rc, gs', d', pc')
         \<Longrightarrow> rr_run gs0 (Suc n) gs' (rs(i \<mapsto> (d', pc')))"
| free: "rr_run gs0 n gs rs \<Longrightarrow> rs i = Some (d, pc)
         \<Longrightarrow> free_rr_peer now st gs d pc = Some (gs', d', pc')
         \<Longrightarrow> rr_run gs0 n gs' (rs(i \<mapsto> (d', pc')))"
| finish: "rr_run gs0 n gs rs \<Longrightarrow> rr_run gs0 n gs (rs(i := None))"

text \<open>The groups alone, without a request.\<close>

definition shared_ok :: "int \<Rightarrow> rr_peers list \<Rightarrow> bool" where
  "shared_ok B gs \<longleftrightarrow> (\<forall>g\<in>set gs. peers_ok B (peer g) \<and> last_cached g = 0)"

lemma rr_wf_shared: "rr_wf B gs d \<Longrightarrow> shared_ok B gs"
  by (simp add: rr_wf_def groups_wf_def shared_ok_def)

lemma rr_wf_other:
  assumes wf: "rr_wf B gs d" and gs: "shared_ok C gs'" "shape gs' = shape gs"
  shows "rr_wf C gs' d"
proof -
  have len: "length gs' = length gs" using gs(2) by (metis shape_def length_map)
  have bit: "bitmap_ok (tried d) (peer g)" if "g \<in> set gs'" for g
  proof -
    obtain i where i: "i < length gs" "g = gs' ! i"
      using \<open>g \<in> set gs'\<close> len by (metis in_set_conv_nth)
    then have "bitmap_ok (tried d) (peer (gs ! i))" using wf by (auto simp: rr_wf_def groups_wf_def)
    then show ?thesis using shape_nth(1)[OF gs(2) i(1)] i(2) bitmap_ok_cong by simp
  qed
  have "\<not> single g \<and> number g div 64 < length (tried d)" if "g \<in> set (tl gs')" for g
  proof -
    obtain i where i: "Suc i < length gs" "g = gs' ! Suc i"
      using in_set_tl_nth[OF \<open>g \<in> set (tl gs')\<close>] len by auto
    then show ?thesis
      using wf nth_Suc_in_tl[OF i(1)] shape_nth[OF gs(2) i(1)] by (simp add: rr_wf_def groups_wf_def)
  qed
  then show ?thesis
    using wf bit gs(1) len shape_nth(1)[OF gs(2), of "group d"]
    by (simp add: rr_wf_def groups_wf_def shared_ok_def)
qed

text \<open>The bitmap a request gets has room for the first two groups when the larger of the two is
  not a backup group of a multiple of 64 peers.\<close>

definition bitmap_fits :: "rr_peers list \<Rightarrow> bool" where
  "bitmap_fits gs \<longleftrightarrow>
     (case gs of
        [] \<Rightarrow> False
      | [g] \<Rightarrow> True
      | g # b # rest \<Rightarrow> rest = [] \<and> \<not> single b \<and> number b div 64 < tried_words (max (number g) (number b)))"

lemma bitmap_fits_cong: "shape gs' = shape gs \<Longrightarrow> bitmap_fits gs \<Longrightarrow> bitmap_fits gs'"
  by (auto simp: shape_def bitmap_fits_def split: list.splits)

lemma bitmap_ok_words: "number g \<le> n \<Longrightarrow> bitmap_ok (replicate (tried_words n) w) (peer g)"
  using tried_words_enough by (simp add: bitmap_ok_def)

lemma init_rr_peer_ok:
  assumes "shared_ok B gs" "bitmap_fits gs"
  shows "\<exists>d pc'. init_rr_peer gs pc = Some (d, pc') \<and> rr_wf B gs d"
proof -
  consider g where "gs = [g]" | g b where "gs = [g, b]" "\<not> single b"
      "number b div 64 < tried_words (max (number g) (number b))"
    using assms(2) by (auto simp: bitmap_fits_def split: list.splits)
  then show ?thesis
  proof cases
    case 1
    then show ?thesis
      using assms(1) bitmap_ok_words[of g "number g"]
      by (auto simp: init_rr_peer_def rr_wf_def groups_wf_def shared_ok_def peers_ok_def)
  next
    case 2
    let ?n = "if number b > number g then number b else number g"
    have n: "max (number g) (number b) = ?n" by simp
    show ?thesis
      using 2 assms(1) bitmap_ok_words[of g ?n] bitmap_ok_words[of b ?n]
      unfolding n by (auto simp: init_rr_peer_def rr_wf_def groups_wf_def shared_ok_def peers_ok_def Let_def)
  qed
qed

lemma rr_run_ok:
  assumes "rr_run gs0 n gs rs" "shared_ok 0 gs0" "bitmap_fits gs0"
  shows "int n \<le> 2 ^ 62 \<longrightarrow> shared_ok (int n) gs \<and> shape gs = shape gs0
    \<and> (\<forall>i d pc. rs i = Some (d, pc) \<longrightarrow> rr_wf (int n) gs d)"
  using assms(1)
proof (induction rule: rr_run.induct)
  case start
  then show ?case using assms(2) by simp
next
  case (init n gs rs pc d pc' i)
  show ?case
  proof
    assume n: "int n \<le> 2 ^ 62"
    then have "shared_ok (int n) gs" "bitmap_fits gs"
      using init.IH assms(3) bitmap_fits_cong by metis+
    then have "rr_wf (int n) gs d" using init_rr_peer_ok[of "int n" gs pc] init.hyps(2) by auto
    then show "shared_ok (int n) gs \<and> shape gs = shape gs0
        \<and> (\<forall>j d' pc''. (rs(i \<mapsto> (d, pc'))) j = Some (d', pc'') \<longrightarrow> rr_wf (int n) gs d')"
      using init.IH n by auto
  qed
next
  case (get n gs rs i d pc now rc gs' d' pc')
  show ?case
  proof
    assume n: "int (Suc n) \<le> 2 ^ 62"
    then have IH: "shape gs = shape gs0" "rr_wf (int n) gs d" "\<forall>j d'' pc''. rs j = Some (d'', pc'') \<longrightarrow> rr_wf (int n) gs d''"
      using get.IH get.hyps(2) by auto
    have "get_ok (int n) gs d rc gs' d' pc'"
      using get_rr_peer_ok[of "int n" gs d pc now] IH(2) get.hyps(3) by (auto simp: rr_wf_def)
    then have wf: "rr_wf (int (Suc n)) gs' d'" "shape gs' = shape gs" by (simp_all add: get_ok_def add.commute)
    note shared = rr_wf_shared[OF wf(1)]
    show "shared_ok (int (Suc n)) gs' \<and> shape gs' = shape gs0
        \<and> (\<forall>j d'' pc''. (rs(i \<mapsto> (d', pc'))) j = Some (d'', pc'') \<longrightarrow> rr_wf (int (Suc n)) gs' d'')"
      using IH wf shared rr_wf_other[OF _ shared wf(2)] by auto
  qed
next
  case (free n gs rs i d pc now st gs' d' pc')
  show ?case
  proof
    assume n: "int n \<le> 2 ^ 62"
    then have IH: "shape gs = shape gs0" "rr_wf (int n) gs d" "\<forall>j d'' pc''. rs j = Some (d'', pc'') \<longrightarrow> rr_wf (int n) gs d''"
      using free.IH free.hyps(2) by auto
    have wf: "rr_wf (int n) gs' d'" "shape gs' = shape gs"
      using free_rr_peer_ok[OF IH(2) n, of now st pc] free.hyps(3) by auto
    note shared = rr_wf_shared[OF wf(1)]
    show "shared_ok (int n) gs' \<and> shape gs' = shape gs0
        \<and> (\<forall>j d'' pc''. (rs(i \<mapsto> (d', pc'))) j = Some (d'', pc'') \<longrightarrow> rr_wf (int n) gs' d'')"
      using IH wf shared rr_wf_other[OF _ shared wf(2)] by auto
  qed
next
  case (finish n gs rs i)
  then show ?case by auto
qed

text \<open>The servers the configuration accepts.\<close>

definition servers_ok :: "upstream_server list \<Rightarrow> bool" where
  "servers_ok ss \<longleftrightarrow>
     (\<forall>s\<in>set ss. 0 < srv_weight s \<and> srv_weight s \<le> weight_limit) \<and>
     (\<exists>s\<in>set ss. \<not> srv_backup s \<and> srv_addrs s \<noteq> [])"

lemma configured_peers_ok:
  assumes "servers_ok ss"
  shows "shared_ok 0 (init_servers host ss)"
proof -
  have prim: "peer_ok (primary_peer s a) \<and> 0 \<le> current_weight (primary_peer s a)"
    and bck: "peer_ok (backup_peer s a) \<and> 0 \<le> current_weight (backup_peer s a)" if "s \<in> set ss" for s a
  proof -
    have "0 < srv_weight s" "srv_weight s \<le> weight_limit" using that assms by (auto simp: servers_ok_def)
    then show "peer_ok (primary_peer s a) \<and> 0 \<le> current_weight (primary_peer s a)"
      "peer_ok (backup_peer s a) \<and> 0 \<le> current_weight (backup_peer s a)"
      by (auto simp: primary_peer_def backup_peer_def peer_ok_def Let_def weight_limit_def)
  qed
  let ?p = "concat (map (\<lambda>s. map (primary_peer s) (srv_addrs s)) (filter (\<lambda>s. \<not> srv_backup s) ss))"
  let ?b = "concat (map (\<lambda>s. map (backup_peer s) (srv_addrs s)) (filter srv_backup ss))"
  have "peers_ok 0 (ngx_sort cmp_servers ?p)"
  proof -
    have "?p \<noteq> []" using assms by (auto simp: servers_ok_def)
    then have "ngx_sort cmp_servers ?p \<noteq> []" by (metis length_0_conv length_ngx_sort)
    then show ?thesis using prim by (auto simp: peers_ok_def)
  qed
  moreover have "peers_ok 0 (ngx_sort cmp_servers ?b)" if "?b \<noteq> []"
  proof -
    have "ngx_sort cmp_servers ?b \<noteq> []" using that by (metis length_0_conv length_ngx_sort)
    then show ?thesis using bck by (auto simp: peers_ok_def)
  qed
  ultimately show ?thesis
    by (auto simp: init_servers_def shared_ok_def Let_def)
qed

text \<open>C23: the balancer is safe under any interleaving.  In a worker that starts from a configured
  upstream (weights from 1 to the limit of the arithmetic, a server with an address that is not
  a backup, room in the bitmap for the backup group) and has made less than \<open>2 ^ 62\<close> choices,
  every request in progress can get a peer and can give it back with any outcome at any time,
  without undefined behaviour; \<open>get\<close> answers \<open>NGX_BUSY\<close> or hands out the address of a peer,
  and in a group of several this peer is not marked \<open>down\<close>, is not over its failures, and its bit was not set
  in the bitmap of the peers tried in the group.  (That bitmap is cleared when the last try of the primary
  group is used up, so a peer that was tried before can be handed out again, see \<open>backup_starved\<close>.)\<close>

theorem rr_safe:
  assumes "rr_run (init_servers host servers) n gs rs" "n < 2 ^ 62"
    and "servers_ok servers" "bitmap_fits (init_servers host servers)"
    and "rs i = Some (d, pc)"
  shows "(\<exists>rc gs' d' pc'. get_rr_peer now gs d pc = Some (rc, gs', d', pc')
           \<and> get_ok (int n) gs d rc gs' d' pc')
       \<and> (\<exists>gs' d' pc'. free_rr_peer now st gs d pc = Some (gs', d', pc') \<and> rr_wf (int n) gs' d')"
proof -
  have n: "int n \<le> 2 ^ 62" using assms(2) by simp
  have wf: "rr_wf (int n) gs d"
    using rr_run_ok[OF assms(1) configured_peers_ok[OF assms(3)] assms(4)] n assms(5) by blast
  then have "\<exists>rc gs' d' pc'. get_rr_peer now gs d pc = Some (rc, gs', d', pc') \<and> get_ok (int n) gs d rc gs' d' pc'"
    using get_rr_peer_ok[of "int n" gs d pc now] by (auto simp: rr_wf_def)
  then show ?thesis using free_rr_peer_ok[OF wf n] by blast
qed

theorem rr_safe_witness:
  "\<exists>rs rc gs' d' pc'.
     rr_run (init_servers [] [example_server 2 1 False, example_server 1 1 False, example_server 1 1 True]) 0
       (init_servers [] [example_server 2 1 False, example_server 1 1 False, example_server 1 1 True]) rs
     \<and> rs 7 = Some (\<lparr>group = 0, current = 0, tried = [0]\<rparr>, idle_conn\<lparr>tries := 2\<rparr>)
     \<and> get_rr_peer 100 (init_servers [] [example_server 2 1 False, example_server 1 1 False, example_server 1 1 True])
         \<lparr>group = 0, current = 0, tried = [0]\<rparr> (idle_conn\<lparr>tries := 2\<rparr>) = Some (rc, gs', d', pc')"
proof -
  let ?ss = "[example_server 2 1 False, example_server 1 1 False, example_server 1 1 True]"
  let ?gs = "init_servers [] ?ss"
  let ?d = "\<lparr>group = 0, current = 0, tried = [0]\<rparr>" and ?pc = "idle_conn\<lparr>tries := 2\<rparr>"
  have run: "rr_run ?gs 0 ?gs ((\<lambda>_. None)(7 \<mapsto> (?d, ?pc)))"
    by (rule rr_run.init[OF rr_run.start, of _ idle_conn]) code_simp
  have ok: "servers_ok ?ss" by (simp add: servers_ok_def example_server_def weight_limit_def)
  have fits: "bitmap_fits ?gs" by code_simp
  have at7: "((\<lambda>_. None)(7 \<mapsto> (?d, ?pc))) 7 = Some (?d, ?pc)" by simp
  obtain rc gs' d' pc' where "get_rr_peer 100 ?gs ?d ?pc = Some (rc, gs', d', pc')"
    using rr_safe[OF run _ ok fits at7, of 100 0] by auto
  then show ?thesis using run at7 by blast
qed

end
