(* ===== verification/HttpUpstream.thy ===== *)
theory HttpUpstream
  imports HttpRrSafety
begin

text \<open>
  How a request uses a balancer: \<^verbatim>\<open>ngx_http_upstream_connect\<close> and \<^verbatim>\<open>ngx_http_upstream_next\<close>
  of \<^verbatim>\<open>src/http/ngx_http_upstream.c\<close>, which call the balancer through the pointers
  \<open>peer.get\<close> and \<open>peer.free\<close>, and the second balancer of the program, \<^verbatim>\<open>ip_hash\<close>
  (\<^verbatim>\<open>src/http/modules/ngx_http_upstream_ip_hash_module.c\<close>), which falls back on round robin.

  The pointers are arguments of the model.  What the loop relies on is the locale
  \<open>balancer\<close>, interpreted at the end on round robin.  What happens to a connection (the
  system, the peer and the client) comes from outside: a list with one entry for each attempt.
\<close>

section \<open>The retry loop\<close>

abbreviation FT_ERROR :: u32 where "FT_ERROR \<equiv> 0x00000002"
abbreviation FT_TIMEOUT :: u32 where "FT_TIMEOUT \<equiv> 0x00000004"
abbreviation FT_HTTP_500 :: u32 where "FT_HTTP_500 \<equiv> 0x00000010"
abbreviation FT_HTTP_404 :: u32 where "FT_HTTP_404 \<equiv> 0x00000100"
abbreviation FT_NOLIVE :: u32 where "FT_NOLIVE \<equiv> 0x40000000"

text \<open>What becomes of a connection to the peer \<open>get\<close> chose: the system has no socket
  (\<open>NGX_ERROR\<close>), the peer refuses at once (\<open>NGX_DECLINED\<close>), the exchange fails later for the
  given reason, or the response goes to the client.\<close>

datatype outcome = Sys_error | Refused | Fails u32 | Served

record attempt =
  at_get :: int
  result :: outcome
  at_free :: int
  client_gone :: bool

text \<open>The end of the request: a status, the response, or (when the list of attempts is used up)
  the request still waits.\<close>

datatype ending = Finalized nat | Answered | Waiting

definition next_status :: "bool \<Rightarrow> u32 \<Rightarrow> nat" where
  "next_status cached ft =
     (if cached \<and> ft = FT_ERROR then 0
      else if ft = FT_TIMEOUT then 504
      else if ft = FT_HTTP_500 then 500
      else if ft = FT_HTTP_404 then 404
      else 502)"

text \<open>\<open>ngx_http_upstream_next\<close> up to the call of \<open>ngx_http_upstream_connect\<close>: the request is
  finalized with a status, or goes on with the state of the balancer.  \<open>ftm\<close> is
  \<open>u->conf->next_upstream\<close>.\<close>

definition upstream_next ::
  "(int \<Rightarrow> u64 \<Rightarrow> 's \<Rightarrow> 'd \<Rightarrow> peer_conn \<Rightarrow> ('s \<times> 'd \<times> peer_conn) option) \<Rightarrow> u32 \<Rightarrow> u32 \<Rightarrow> int \<Rightarrow> bool
     \<Rightarrow> 's \<Rightarrow> 'd \<Rightarrow> peer_conn \<Rightarrow> (nat option \<times> 's \<times> 'd \<times> peer_conn) option" where
  "upstream_next free ftm ft now gone s d pc =
     (case (if ft \<noteq> FT_NOLIVE
            then free now (if ft = FT_HTTP_404 then NGX_PEER_NEXT else NGX_PEER_FAILED) s d pc
            else Some (s, d, pc)) of
        None \<Rightarrow> None
      | Some (s', d', pc') \<Rightarrow>
          let status = next_status (is_cached pc') ft in
          if gone then Some (Some 499, s', d', pc')
          else if status \<noteq> 0 \<and> (tries pc' = 0 \<or> ftm AND ft = 0)
          then Some (Some status, s', d', pc')
          else Some (None, s', d', pc'\<lparr>connection := None\<rparr>))"

text \<open>\<open>ngx_http_upstream_connect\<close> and what follows it; \<open>n\<close> counts the peers handed out.\<close>

fun upstream_connect ::
  "(int \<Rightarrow> 's \<Rightarrow> 'd \<Rightarrow> peer_conn \<Rightarrow> (ngx_rc \<times> 's \<times> 'd \<times> peer_conn) option)
     \<Rightarrow> (int \<Rightarrow> u64 \<Rightarrow> 's \<Rightarrow> 'd \<Rightarrow> peer_conn \<Rightarrow> ('s \<times> 'd \<times> peer_conn) option)
     \<Rightarrow> u32 \<Rightarrow> attempt list \<Rightarrow> nat \<Rightarrow> 's \<Rightarrow> 'd \<Rightarrow> peer_conn \<Rightarrow> (ending \<times> nat \<times> 's) option" where
  "upstream_connect get free ftm [] n s d pc = Some (Waiting, n, s)"
| "upstream_connect get free ftm (a # as) n s d pc =
     (case get (at_get a) s d pc of
        None \<Rightarrow> None
      | Some (rc, s1, d1, pc1) \<Rightarrow>
          let retry = (\<lambda>ft n.
            (case upstream_next free ftm ft (at_free a) (client_gone a) s1 d1 pc1 of
               None \<Rightarrow> None
             | Some (Some status, s2, _, _) \<Rightarrow> Some (Finalized status, n, s2)
             | Some (None, s2, d2, pc2) \<Rightarrow> upstream_connect get free ftm as n s2 d2 pc2))
          in if rc = NGX_BUSY then retry FT_NOLIVE n
             else if rc = NGX_DECLINED then retry FT_ERROR n
             else if rc = NGX_OK \<or> rc = NGX_AGAIN
             then (case result a of
                     Sys_error \<Rightarrow> Some (Finalized 500, Suc n, s1)
                   | Refused \<Rightarrow> retry FT_ERROR (Suc n)
                   | Fails ft \<Rightarrow> retry ft (Suc n)
                   | Served \<Rightarrow> Some (Answered, Suc n, s1))
             else Some (Finalized 500, n, s1))"

section \<open>What the loop relies on\<close>

text \<open>\<open>wf B\<close> is the invariant of the balancer, \<open>B\<close> the number of choices made so far.\<close>

locale balancer =
  fixes get :: "int \<Rightarrow> 's \<Rightarrow> 'd \<Rightarrow> peer_conn \<Rightarrow> (ngx_rc \<times> 's \<times> 'd \<times> peer_conn) option"
    and free :: "int \<Rightarrow> u64 \<Rightarrow> 's \<Rightarrow> 'd \<Rightarrow> peer_conn \<Rightarrow> ('s \<times> 'd \<times> peer_conn) option"
    and wf :: "int \<Rightarrow> 's \<Rightarrow> 'd \<Rightarrow> bool"
  assumes get_defined: "wf B s d \<Longrightarrow> tries pc \<noteq> 0 \<Longrightarrow>
      \<exists>rc s' d' pc'. get now s d pc = Some (rc, s', d', pc') \<and> wf (B + 1) s' d'
        \<and> (rc = NGX_OK \<or> rc = NGX_BUSY)"
    and get_tries: "wf B s d \<Longrightarrow> tries pc \<noteq> 0 \<Longrightarrow> get now s d pc = Some (NGX_OK, s', d', pc') \<Longrightarrow>
      tries pc' \<noteq> 0 \<and> tries pc' \<le> tries pc \<and> \<not> is_cached pc'"
    and free_defined: "wf B s d \<Longrightarrow> B \<le> 2 ^ 62 \<Longrightarrow>
      \<exists>s' d' pc'. free now st s d pc = Some (s', d', pc') \<and> wf B s' d'"
    and free_tries: "wf B s d \<Longrightarrow> tries pc \<noteq> 0 \<Longrightarrow> free now st s d pc = Some (s', d', pc') \<Longrightarrow>
      tries pc' < tries pc \<and> is_cached pc' = is_cached pc"
begin

lemma next_after_get:
  assumes "wf B s d" "B \<le> 2 ^ 62" "tries pc \<noteq> 0" "\<not> is_cached pc" "ft \<noteq> FT_NOLIVE"
  shows "\<exists>st s' d' pc'. upstream_next free ftm ft now gone s d pc = Some (st, s', d', pc') \<and> wf B s' d'
           \<and> (st = None \<longrightarrow> tries pc' \<noteq> 0 \<and> tries pc' < tries pc)"
proof -
  obtain s' d' pc' where f: "free now (if ft = FT_HTTP_404 then NGX_PEER_NEXT else NGX_PEER_FAILED) s d pc = Some (s', d', pc')"
      "wf B s' d'"
    using free_defined[OF assms(1,2)] by blast
  have "tries pc' < tries pc" "\<not> is_cached pc'"
    using free_tries[OF assms(1,3) f(1)] assms(4) by auto
  moreover from this have "next_status (is_cached pc') ft \<noteq> 0" by (simp add: next_status_def)
  ultimately show ?thesis using f assms(5) by (auto simp: upstream_next_def Let_def)
qed

lemma busy_ends:
  assumes "ftm AND FT_NOLIVE = 0"
  shows "\<exists>status. upstream_next free ftm FT_NOLIVE now gone s d pc = Some (Some status, s, d, pc)"
  using assms by (simp add: upstream_next_def next_status_def Let_def)

text \<open>A request ends after at most as many attempts as it has tries.\<close>

lemma connect_ends:
  assumes "wf B s d" "tries pc \<noteq> 0" "ftm AND FT_NOLIVE = 0" "B + int (length as) \<le> 2 ^ 62"
    and "\<forall>a\<in>set as. result a \<noteq> Fails FT_NOLIVE"
  shows "\<exists>e m s'. upstream_connect get free ftm as n s d pc = Some (e, m, s')
           \<and> m \<le> n + unat (tries pc) \<and> (unat (tries pc) \<le> length as \<longrightarrow> e \<noteq> Waiting)"
  using assms
proof (induction as arbitrary: B n s d pc)
  case Nil
  then show ?case by (simp add: unat_eq_0)
next
  case (Cons a as)
  have pos: "0 < unat (tries pc)" using Cons.prems(2) by (simp add: unat_gt_0)
  obtain rc s1 d1 pc1 where g: "get (at_get a) s d pc = Some (rc, s1, d1, pc1)" "wf (B + 1) s1 d1"
      "rc = NGX_OK \<or> rc = NGX_BUSY"
    using get_defined[OF Cons.prems(1,2)] by blast
  show ?case
  proof (cases "rc = NGX_BUSY")
    case True
    then show ?thesis
      using g(1) busy_ends[OF Cons.prems(3), of "at_free a" "client_gone a" s1 d1 pc1] by auto
  next
    case False
    then have ok: "rc = NGX_OK" using g(3) by blast
    have t1: "tries pc1 \<noteq> 0" "tries pc1 \<le> tries pc" "\<not> is_cached pc1"
      using get_tries[OF Cons.prems(1,2)] g(1) ok by auto
    have B: "B + 1 \<le> 2 ^ 62" "B + 1 + int (length as) \<le> 2 ^ 62" using Cons.prems(4) by auto
    have retry: "\<exists>e m s'. (case upstream_next free ftm ft (at_free a) (client_gone a) s1 d1 pc1 of
               None \<Rightarrow> None
             | Some (Some status, s2, _, _) \<Rightarrow> Some (Finalized status, Suc n, s2)
             | Some (None, s2, d2, pc2) \<Rightarrow> upstream_connect get free ftm as (Suc n) s2 d2 pc2) = Some (e, m, s')
          \<and> m \<le> n + unat (tries pc) \<and> (unat (tries pc) \<le> Suc (length as) \<longrightarrow> e \<noteq> Waiting)"
      if ft: "ft \<noteq> FT_NOLIVE" for ft
    proof -
      obtain st s2 d2 pc2 where nx: "upstream_next free ftm ft (at_free a) (client_gone a) s1 d1 pc1 = Some (st, s2, d2, pc2)"
          "wf (B + 1) s2 d2" "st = None \<longrightarrow> tries pc2 \<noteq> 0 \<and> tries pc2 < tries pc1"
        using next_after_get[OF g(2) B(1) t1(1,3) ft] by blast
      show ?thesis
      proof (cases st)
        case None
        then have "unat (tries pc2) < unat (tries pc)" "tries pc2 \<noteq> 0"
          using nx(3) t1(2) by (simp_all add: word_less_nat_alt word_le_nat_alt)
        then show ?thesis
          using Cons.IH[OF nx(2) _ Cons.prems(3) B(2), of pc2 "Suc n"] Cons.prems(5) nx(1) None by fastforce
      next
        case (Some status)
        then show ?thesis using nx(1) pos by auto
      qed
    qed
    show ?thesis
    proof (cases "result a")
      case Refused
      then show ?thesis using retry[of FT_ERROR] g(1) ok by (simp add: Let_def)
    next
      case (Fails ft)
      then have "ft \<noteq> FT_NOLIVE" using Cons.prems(5) by auto
      then show ?thesis using retry[of ft] g(1) ok Fails by (simp add: Let_def)
    qed (use g(1) ok pos in auto)
  qed
qed

end

section \<open>Round robin is such a balancer\<close>

text \<open>An upstream without backup servers: one group.\<close>

definition rr_alone :: "int \<Rightarrow> rr_peers list \<Rightarrow> rr_data \<Rightarrow> bool" where
  "rr_alone B gs d \<longleftrightarrow> rr_wf B gs d \<and> length gs = 1"

lemma pred_le: "tr \<noteq> 0 \<Longrightarrow> tr - 1 \<le> (tr :: u64)"
  by (simp add: word_le_nat_alt unat_minus_one)

lemma consider_peer_tries:
  "consider_peer now k ps td tr = Some (taken, ps', td', tr') \<Longrightarrow> tr \<noteq> 0 \<Longrightarrow>
     tr' \<le> tr \<and> (taken \<longrightarrow> tr' = tr)"
  by (auto simp: consider_peer_def Let_def pred_le split: if_splits)

lemma first_try_tries:
  "first_try now ps td tr i = Some (taken, k, ps', td', tr') \<Longrightarrow> tr \<noteq> 0 \<Longrightarrow>
     tr' \<le> tr \<and> (taken \<longrightarrow> tr' \<noteq> 0)"
proof (induction now ps td tr i arbitrary: taken k ps' td' tr' rule: first_try.induct)
  case (1 now ps td tr i)
  obtain m ps1 t ps2 td2 tr2 where c: "rr_get_peer ps = Some (m, ps1)"
      "consider_peer now m ps1 td tr = Some (t, ps2, td2, tr2)"
    using "1.prems"(1) by (subst (asm) first_try.simps) (auto split: option.splits)
  note tr2 = consider_peer_tries[OF c(2) "1.prems"(2)]
  show ?case
  proof (cases "t \<or> tr2 = 0 \<or> i - 1 = 0")
    case True
    then have "tr' = tr2 \<and> (taken \<longrightarrow> t)"
      using "1.prems"(1) c by (subst (asm) first_try.simps) (auto split: if_splits)
    then show ?thesis using tr2 "1.prems"(2) by auto
  next
    case False
    then have t: "\<not> t" "tr2 \<noteq> 0" "i - 1 \<noteq> 0" by auto
    have "first_try now ps2 td2 tr2 (i - 1) = Some (taken, k, ps', td', tr')"
      using "1.prems"(1) c t by (subst (asm) first_try.simps) simp
    then show ?thesis using "1.IH"[OF c(1) refl c(2) refl refl refl t _ t(2)] tr2 by fastforce
  qed
qed

lemma later_try_tries:
  "later_try now k ps td tr i = Some (taken, k', ps', td', tr') \<Longrightarrow> tr \<noteq> 0 \<Longrightarrow>
     tr' \<le> tr \<and> (taken \<longrightarrow> tr' \<noteq> 0)"
proof (induction now k ps td tr i arbitrary: taken k' ps' td' tr' rule: later_try.induct)
  case (1 now k ps td tr i)
  obtain t ps2 td2 tr2 where c: "consider_peer now k ps td tr = Some (t, ps2, td2, tr2)"
    using "1.prems"(1) by (subst (asm) later_try.simps) (auto split: option.splits)
  note tr2 = consider_peer_tries[OF c "1.prems"(2)]
  show ?case
  proof (cases "t \<or> tr2 = 0 \<or> i - 1 = 0")
    case True
    then have "tr' = tr2 \<and> (taken \<longrightarrow> t)"
      using "1.prems"(1) c by (subst (asm) later_try.simps) (auto simp: Let_def split: if_splits)
    then show ?thesis using tr2 "1.prems"(2) by auto
  next
    case False
    then have t: "\<not> t" "tr2 \<noteq> 0" "i - 1 \<noteq> 0" by auto
    have "later_try now (advance (length ps) k) ps2 td2 tr2 (i - 1) = Some (taken, k', ps', td', tr')"
      using "1.prems"(1) c t by (subst (asm) later_try.simps) (simp add: Let_def)
    then show ?thesis using "1.IH"[OF c refl refl refl t(1) refl t(2,3) _ t(2)] tr2 by fastforce
  qed
qed

lemma get_alone_tries:
  assumes "rr_alone B gs d" "tries pc \<noteq> 0" "get_rr_peer now gs d pc = Some (NGX_OK, gs', d', pc')"
  shows "tries pc' \<noteq> 0 \<and> tries pc' \<le> tries pc \<and> \<not> is_cached pc'"
proof -
  obtain g where gs: "gs = [g]" using assms(1) by (cases gs) (auto simp: rr_alone_def)
  have d: "group d = 0" "last_cached g = 0" "peer g \<noteq> []"
    using assms(1) gs by (auto simp: rr_alone_def rr_wf_def groups_wf_def)
  let ?pc = "pc\<lparr>is_cached := False, connection := None\<rparr>"
  show ?thesis
  proof (cases "single g")
    case True
    then show ?thesis
      using assms(2,3) d gs by (subst (asm) get_rr_peer.simps) (auto simp: Let_def hand_out_def)
  next
    case False
    obtain taken k ps td tr where c: "choose_peer now g d ?pc = Some (taken, k, ps, td, tr)"
      using assms(3) d gs False by (subst (asm) get_rr_peer.simps) (auto simp: Let_def split: option.splits)
    have tr: "tr \<le> tries pc \<and> (taken \<longrightarrow> tr \<noteq> 0)"
      using c assms(2) first_try_tries later_try_tries unfolding choose_peer_def
      by (auto split: if_splits)
    have "taken \<and> tries pc' = tr \<and> \<not> is_cached pc'"
      using assms(3) d gs False c
      by (subst (asm) get_rr_peer.simps) (auto simp: Let_def hand_out_def split: if_splits)
    then show ?thesis using tr by simp
  qed
qed

lemma free_alone_tries:
  assumes "rr_alone B gs d" "tries pc \<noteq> 0" "free_rr_peer now st gs d pc = Some (gs', d', pc')"
  shows "tries pc' < tries pc \<and> is_cached pc' = is_cached pc"
proof -
  have "tries pc - 1 < tries pc" "0 < tries pc"
    using assms(2) by (simp_all add: word_less_nat_alt measure_unat unat_gt_0)
  then show ?thesis
    using assms by (auto simp: free_rr_peer_def rr_alone_def Let_def split: if_splits)
qed

lemma shape_length: "shape gs' = shape gs \<Longrightarrow> length gs' = length gs"
  by (metis length_map shape_def)

interpretation rr: balancer get_rr_peer free_rr_peer rr_alone
proof (unfold_locales, goal_cases)
  case (1 B s d pc now)
  then obtain rc s' d' pc' where g: "get_rr_peer now s d pc = Some (rc, s', d', pc')"
      "get_ok B s d rc s' d' pc'"
    using get_rr_peer_ok[of B s d pc now] by (auto simp: rr_alone_def rr_wf_def)
  then have "rr_alone (B + 1) s' d'" "rc = NGX_OK \<or> rc = NGX_BUSY"
    using 1(1) shape_length[of s' s] unfolding rr_alone_def get_ok_def by simp_all blast
  then show ?case using g(1) by blast
next
  case 2
  then show ?case using get_alone_tries by blast
next
  case (3 B s d now st pc)
  then obtain s' d' pc' where "free_rr_peer now st s d pc = Some (s', d', pc')" "rr_wf B s' d'" "shape s' = shape s"
    using free_rr_peer_ok by (metis rr_alone_def)
  then show ?case using 3(1) shape_length[of s' s] unfolding rr_alone_def by auto
next
  case 4
  then show ?case using free_alone_tries by blast
qed


text \<open>A whole request over round robin.\<close>

definition upstream_request ::
  "u32 \<Rightarrow> attempt list \<Rightarrow> rr_peers list \<Rightarrow> peer_conn \<Rightarrow> (ending \<times> nat \<times> rr_peers list) option" where
  "upstream_request ftm as gs pc =
     (case init_rr_peer gs pc of
        None \<Rightarrow> None
      | Some (d, pc') \<Rightarrow> upstream_connect get_rr_peer free_rr_peer ftm as 0 gs d pc')"

lemma init_tries:
  "init_rr_peer [g] pc = Some (d, pc') \<Longrightarrow> tries pc' = of_nat (number g)"
  by (auto simp: init_rr_peer_def)

text \<open>C24: a request ends.  Without backup servers a request makes at most one attempt for each
  peer, whatever the peers, the network, the client and the clock do and whatever the other
  requests of the worker have done before: after so many attempts it has been answered or
  finalized with a status.\<close>

theorem upstream_attempts:
  assumes "servers_ok servers" "\<forall>s\<in>set servers. \<not> srv_backup s"
    and "rr_run (init_servers host servers) n gs rs" "n + length as \<le> 2 ^ 62"
    and "number (configured host servers) < 2 ^ 64"
    and "ftm AND FT_NOLIVE = 0" "\<forall>a\<in>set as. result a \<noteq> Fails FT_NOLIVE"
  shows "\<exists>e m gs'. upstream_request ftm as gs pc = Some (e, m, gs')
           \<and> m \<le> number (configured host servers)
           \<and> (number (configured host servers) \<le> length as \<longrightarrow> e = Answered \<or> (\<exists>status. e = Finalized status))"
proof -
  let ?g = "configured host servers"
  have init: "init_servers host servers = [?g]" using init_no_backup(1)[OF assms(2)] .
  have run: "shared_ok (int n) gs" "shape gs = shape [?g]"
    using rr_run_ok[OF assms(3) configured_peers_ok[OF assms(1)]] assms(4) init
    by (simp_all add: bitmap_fits_def)
  then obtain g where g: "gs = [g]" "number g = number ?g"
    by (cases gs) (auto simp: shape_def)
  obtain d pc' where d: "init_rr_peer gs pc = Some (d, pc')" "rr_wf (int n) gs d"
    using init_rr_peer_ok[OF run(1), of pc] g(1) by (auto simp: bitmap_fits_def)
  have t: "unat (tries pc') = number ?g"
    using init_tries d(1) g assms(5) by (auto simp: unsigned_of_nat take_bit_nat_eq_self)
  have "0 < number ?g" using run(1) g by (auto simp: shared_ok_def peers_ok_def)
  then have "tries pc' \<noteq> 0" using t by auto
  then obtain e m gs' where "upstream_connect get_rr_peer free_rr_peer ftm as 0 gs d pc' = Some (e, m, gs')"
      "m \<le> number ?g" "number ?g \<le> length as \<longrightarrow> e \<noteq> Waiting"
    using rr.connect_ends[of "int n" gs d pc' ftm as 0] d(2) g(1) assms(4,6,7) t
    by (auto simp: rr_alone_def)
  moreover have "e \<noteq> Waiting \<Longrightarrow> e = Answered \<or> (\<exists>status. e = Finalized status)" by (cases e) auto
  ultimately show ?thesis using d(1) by (auto simp: upstream_request_def)
qed

definition example_attempt :: "int \<Rightarrow> outcome \<Rightarrow> attempt" where
  "example_attempt t out = \<lparr>at_get = t, result = out, at_free = t, client_gone = False\<rparr>"

theorem upstream_attempts_witness:
  "\<exists>e m gs'. upstream_request 6 [example_attempt 100 Refused, example_attempt 100 (Fails FT_TIMEOUT)]
       (init_servers [] [example_server 1 1 False, example_server 1 1 False]) idle_conn = Some (e, m, gs')
     \<and> m \<le> 2 \<and> (e = Answered \<or> (\<exists>status. e = Finalized status))"
proof -
  let ?ss = "[example_server 1 1 False, example_server 1 1 False]"
  have "number (configured [] ?ss) = 2" by code_simp
  moreover have "servers_ok ?ss" by (simp add: servers_ok_def example_server_def weight_limit_def)
  moreover have "\<forall>s\<in>set ?ss. \<not> srv_backup s" by (simp add: example_server_def)
  moreover have "rr_run (init_servers [] ?ss) 0 (init_servers [] ?ss) (\<lambda>_. None)" by (rule rr_run.start)
  moreover have "(6 :: u32) AND FT_NOLIVE = 0" by simp
  moreover have "\<forall>a\<in>set [example_attempt 100 Refused, example_attempt 100 (Fails FT_TIMEOUT)]. result a \<noteq> Fails FT_NOLIVE"
    by (simp add: example_attempt_def)
  ultimately show ?thesis
    using upstream_attempts[of ?ss "[]" 0 "init_servers [] ?ss" "\<lambda>_. None"
        "[example_attempt 100 Refused, example_attempt 100 (Fails FT_TIMEOUT)]" 6 idle_conn]
    by auto
qed

section \<open>What the balancer does not promise\<close>

text \<open>The bound needs the absence of backup servers.  On the last try of the primary group
  \<open>get\<close> adds the tries of the backup group and clears the bitmap, but stays in the primary
  group; when the primary server is not limited in its failures (\<open>max_fails=0\<close>) it is taken
  again, and so on: however often it refuses, the backup server never gets the request.\<close>

definition stuck_group :: "int \<Rightarrow> u64 \<Rightarrow> int \<Rightarrow> rr_peers" where
  "stuck_group cw f acc =
     \<lparr>single = False, cached_conns = [], last_cached = 0, group_name = [],
      peer = [\<lparr>sockaddr = [], peer_name = [], current_weight = cw, weight = 1, fails = f,
               accessed = acc, max_fails = 0, fail_timeout = 10, down = False\<rparr>]\<rparr>"

lemma stuck_init:
  "init_servers [] [example_server 1 0 False, example_server 1 1 True]
   = [stuck_group 1 0 0, hd (tl (init_servers [] [example_server 1 0 False, example_server 1 1 True]))]"
  "number (hd (tl (init_servers [] [example_server 1 0 False, example_server 1 1 True]))) = 1"
  by code_simp+

lemma rr_get_single:
  assumes "weight p = 1" "current_weight p = 0 \<or> current_weight p = 1"
  shows "rr_get_peer [p] = Some (0, [p\<lparr>current_weight := 1\<rparr>])"
  using assms
  by (auto simp: rr_get_peer_def reset_weights_def first_candidate.simps next_candidate.simps)

lemma stuck_step:
  assumes "cw = 0 \<or> cw = 1" "number b = 1"
  shows "get_rr_peer now [stuck_group cw f acc, b] \<lparr>group = 0, current = 0, tried = [0]\<rparr> (pc\<lparr>tries := 1\<rparr>)
       = Some (NGX_OK, [stuck_group 0 f acc, b], \<lparr>group = 0, current = 0, tried = [0]\<rparr>,
               pc\<lparr>tries := 2, is_cached := False, connection := None, pc_sockaddr := [], pc_name := []\<rparr>)"
proof -
  let ?p = "\<lparr>sockaddr = [], peer_name = [], current_weight = cw, weight = 1, fails = f,
             accessed = acc, max_fails = 0, fail_timeout = 10, down = False\<rparr>"
  have get: "rr_get_peer [?p] = Some (0, [?p\<lparr>current_weight := 1\<rparr>])"
    using rr_get_single[of ?p] assms(1) by simp
  have "consider_peer now 0 [?p\<lparr>current_weight := 1\<rparr>] [0] 1 = Some (True, [?p\<lparr>current_weight := 1\<rparr>], [0], 1)"
    by (simp add: consider_peer_def is_tried_def)
  then have "first_try now [?p] [0] 1 1 = Some (True, 0, [?p\<lparr>current_weight := 1\<rparr>], [0], 1)"
    using get by (subst first_try.simps) simp
  then show ?thesis
    using assms(2)
    by (subst get_rr_peer.simps)
       (simp add: stuck_group_def choose_peer_def hand_out_def set_group_def take_peer_def
         clear_tried_def mark_tried_def Let_def)
qed

lemma backup_never_used:
  assumes "cw = 0 \<or> cw = 1" "number b = 1"
  shows "\<exists>gs. upstream_connect get_rr_peer free_rr_peer 6 (replicate k (example_attempt t Refused)) n
            [stuck_group cw f acc, b] \<lparr>group = 0, current = 0, tried = [0]\<rparr> (pc\<lparr>tries := 1\<rparr>)
          = Some (Waiting, n + k, gs)"
  using assms(1)
proof (induction k arbitrary: cw f acc n pc)
  case (Suc k)
  let ?d = "\<lparr>group = 0, current = 0, tried = [0]\<rparr>"
  let ?pc = "pc\<lparr>tries := 2, is_cached := False, connection := None, pc_sockaddr := [], pc_name := []\<rparr>"
  have "free_rr_peer t NGX_PEER_FAILED [stuck_group 0 f acc, b] ?d ?pc
      = Some ([stuck_group 0 (f + 1) t, b], ?d, ?pc\<lparr>tries := 1\<rparr>)"
    by (simp add: free_rr_peer_def stuck_group_def set_group_def fail_peer_def advance_def Let_def)
  then have "upstream_next free_rr_peer 6 FT_ERROR t False [stuck_group 0 f acc, b] ?d ?pc
      = Some (None, [stuck_group 0 (f + 1) t, b], ?d, ?pc\<lparr>tries := 1\<rparr>)"
    by (simp add: upstream_next_def next_status_def Let_def)
  then show ?case
    using Suc.IH[where cw = 0 and f = "f + 1" and acc = t and n = "Suc n" and pc = ?pc] Suc.prems stuck_step[OF Suc.prems assms(2), of t f acc pc]
    by (simp add: example_attempt_def)
qed simp

lemma backup_starved:
  "\<exists>gs. upstream_request 6 (replicate k (example_attempt t Refused))
     (init_servers [] [example_server 1 0 False, example_server 1 1 True]) idle_conn = Some (Waiting, k, gs)"
proof -
  let ?b = "hd (tl (init_servers [] [example_server 1 0 False, example_server 1 1 True]))"
  have "init_rr_peer [stuck_group 1 0 0, ?b] idle_conn
      = Some (\<lparr>group = 0, current = 0, tried = [0]\<rparr>, idle_conn\<lparr>tries := 1\<rparr>)"
    using stuck_init(2) by (simp add: init_rr_peer_def stuck_group_def tried_words_def)
  then show ?thesis
    using backup_never_used[of 1 ?b k t 0 0 0 idle_conn] stuck_init
    by (auto simp: upstream_request_def)
qed

text \<open>A failed peer that the first try passes over costs a try and is not entered in the bitmap;
  a later try passes over it again, at the cost of another.  With three servers of which one has
  failed lately, a request can so run out of tries with a live server it never asked.\<close>

definition three_servers :: "rr_peers list" where
  "three_servers = init_servers [] [example_server 1 1 False, example_server 1 1 False, example_server 1 1 False]"

definition after :: "(ending \<times> nat \<times> rr_peers list) option \<Rightarrow> rr_peers list" where
  "after r = (case r of Some (_, _, gs) \<Rightarrow> gs | None \<Rightarrow> [])"

lemma live_peer_skipped:
  "case upstream_request 6 [example_attempt 100 Refused, example_attempt 100 Served] three_servers idle_conn of
     Some (e1, m1, gs1) \<Rightarrow>
      (case upstream_request 6 [example_attempt 100 Served] gs1 idle_conn of
         Some (e2, m2, gs2) \<Rightarrow>
           e1 = Answered \<and> e2 = Answered \<and>
           map healthy (peer (hd gs2)) = [True, True, False] \<and>
           map_option (\<lambda>(e, m, _). (e, m))
             (upstream_request 6 (replicate 3 (example_attempt 101 Refused)) gs2 idle_conn)
           = Some (Finalized 502, 1)
       | None \<Rightarrow> False)
   | None \<Rightarrow> False"
  by code_simp

text \<open>The bitmap is one word for up to 64 peers, but the code clears \<open>n / 64 + 1\<close> words for a
  backup group of \<open>n\<close>: with 64 backup servers it writes past the end.\<close>

lemma bitmap_overrun:
  assumes "length ps = 64"
  shows "clear_tried (length ps) (replicate (tried_words (max 1 (length ps))) 0) = None"
  using assms by (simp add: clear_tried_def tried_words_def numeral_2_eq_2)

text \<open>An upstream of backup servers only has an empty primary group, and the first \<open>get\<close> reads
  a peer that is not there.\<close>

lemma only_backups_crash:
  "upstream_request 6 [example_attempt 100 Served] (init_servers [] [example_server 1 1 True]) idle_conn = None"
  by code_simp


section \<open>The balancer by client address\<close>

text \<open>\<open>ngx_http_upstream_ip_hash_peer_data_t\<close>.  The counter \<open>tries\<close> is an 8-bit integer in the
  code; it never passes 21.\<close>

record ip_data =
  rrp :: rr_data
  ip_hash :: u64
  ip_addr :: bytes
  ip_tries :: nat

text \<open>The client: the address for \<open>AF_INET\<close>, in network order, nothing for another family.\<close>

definition init_ip_hash_peer ::
  "bytes option \<Rightarrow> rr_peers list \<Rightarrow> peer_conn \<Rightarrow> (ip_data \<times> peer_conn) option" where
  "init_ip_hash_peer client gs pc =
     map_option
       (\<lambda>(d, pc'). (\<lparr>rrp = d, ip_hash = 89,
                     ip_addr = (case client of Some a \<Rightarrow> [a ! 0, a ! 1, a ! 2] | None \<Rightarrow> [0, 0, 0]),
                     ip_tries = 0\<rparr>, pc'))
       (init_rr_peer gs pc)"

definition hash_step :: "bytes \<Rightarrow> u64 \<Rightarrow> u64" where
  "hash_step a h =
     (let h0 = (h * 113 + ucast (a ! 0)) mod 6271;
          h1 = (h0 * 113 + ucast (a ! 1)) mod 6271
      in (h1 * 113 + ucast (a ! 2)) mod 6271)"

text \<open>\<open>ngx_http_upstream_get_ip_hash_peer\<close>: the loop goes on from the hash until a usable peer
  comes up or 20 rounds are over, and then leaves the choice to round robin.\<close>

function ip_hash_loop ::
  "int \<Rightarrow> u64 \<Rightarrow> rr_peers list \<Rightarrow> ip_data \<Rightarrow> peer_conn
     \<Rightarrow> (ngx_rc \<times> rr_peers list \<times> ip_data \<times> peer_conn) option" where
  "ip_hash_loop now h gs d pc =
     (let g = gs ! group (rrp d); h' = hash_step (ip_addr d) h in
      if peer g = [] then None
      else let p = unat h' mod number g; td = tried (rrp d) in
      if p div 64 \<ge> length td then None
      else if \<not> is_tried td p \<and> usable now (peer g ! p)
      then let q = peer g ! p;
               q' = (if max_fails q = 0 \<or> fails q < max_fails q then q else q\<lparr>fails := 0\<rparr>)
           in Some (NGX_OK, set_group (group (rrp d)) ((peer g)[p := q']) gs,
                    d\<lparr>rrp := (rrp d)\<lparr>current := p, tried := mark_tried td p\<rparr>, ip_hash := h'\<rparr>,
                    pc\<lparr>pc_sockaddr := sockaddr q, pc_name := peer_name q\<rparr>)
      else
        let d1 = (if is_tried td p then d else d\<lparr>rrp := (rrp d)\<lparr>tried := mark_tried td p\<rparr>\<rparr>);
            pc1 = (if is_tried td p then pc else pc\<lparr>tries := tries pc - 1\<rparr>);
            d2 = d1\<lparr>ip_tries := Suc (ip_tries d)\<rparr>
        in if Suc (ip_tries d) \<ge> 20
           then map_option (\<lambda>(rc, gs', rd, pc'). (rc, gs', d2\<lparr>rrp := rd\<rparr>, pc')) (get_rr_peer now gs (rrp d2) pc1)
           else ip_hash_loop now h' gs d2 pc1)"
  by pat_completeness auto
termination
  by (relation "measure (\<lambda>(now, h, gs, d, pc). 20 - ip_tries d)") (simp_all add: Let_def)

declare ip_hash_loop.simps [simp del]

definition get_ip_hash_peer ::
  "int \<Rightarrow> rr_peers list \<Rightarrow> ip_data \<Rightarrow> peer_conn
     \<Rightarrow> (ngx_rc \<times> rr_peers list \<times> ip_data \<times> peer_conn) option" where
  "get_ip_hash_peer now gs d pc =
     (if group (rrp d) \<ge> length gs then None
      else if ip_tries d > 20 \<or> single (gs ! group (rrp d))
      then map_option (\<lambda>(rc, gs', rd, pc'). (rc, gs', d\<lparr>rrp := rd\<rparr>, pc')) (get_rr_peer now gs (rrp d) pc)
      else ip_hash_loop now (ip_hash d) gs d (pc\<lparr>is_cached := False, connection := None\<rparr>))"

text \<open>Clients of one /24 network get the same peer while it is in service, whatever the weights
  and whatever the other clients have done: the index depends on the three octets only.\<close>

definition home_peer :: "bytes \<Rightarrow> nat \<Rightarrow> nat" where
  "home_peer a n = unat (hash_step a 89) mod n"

lemma ip_hash_sticky:
  assumes init: "init_ip_hash_peer (Some a) [g] pc = Some (d, pc')"
    and g: "\<not> single g" "peer g \<noteq> []" "healthy (peer g ! home_peer a (number g))"
  shows "\<exists>d' pc''. get_ip_hash_peer now [g] d pc' = Some (NGX_OK, [g], d', pc'')
           \<and> current (rrp d') = home_peer a (number g)
           \<and> pc_sockaddr pc'' = sockaddr (peer g ! home_peer a (number g))"
proof -
  let ?p = "home_peer a (number g)"
  have p: "?p < number g" using g(2) by (simp add: home_peer_def)
  have d: "ip_tries d = 0" "ip_hash d = 89" "group (rrp d) = 0"
    "hash_step (ip_addr d) 89 = hash_step a 89" "tried (rrp d) = replicate (tried_words (number g)) 0"
    using init by (auto simp: init_ip_hash_peer_def init_rr_peer_def hash_step_def)
  have u: "usable now (peer g ! ?p)" "max_fails (peer g ! ?p) = 0 \<or> fails (peer g ! ?p) < max_fails (peer g ! ?p)"
    using g(3) by (auto simp: usable_def healthy_def)
  have w: "?p div 64 < tried_words (number g)" using p by (rule tried_words_enough) simp
  have "unat (hash_step a 89) mod number g = ?p" by (simp add: home_peer_def)
  then show ?thesis
    using d g(1,2) u w
    by (simp add: get_ip_hash_peer_def ip_hash_loop.simps Let_def set_group_def list_update_same_conv p)
qed

end
