(* ===== verification/HttpScript.thy ===== *)
theory HttpScript
  imports NgxEscape NgxCString
begin

text \<open>
  The script language of \<^verbatim>\<open>src/http/ngx_http_script.c\<close>: strings of the configuration with
  variables (\<^verbatim>\<open>$name\<close>, \<^verbatim>\<open>${name}\<close>) and captures (\<^verbatim>\<open>$1\<close>) are compiled to two arrays of codes.
  At run time the first array is run to get the length of the result, a buffer of that length is
  allocated, and the second array is run to fill it.  Nothing but the agreement of the two
  arrays keeps the second run within the buffer.

  A code array is a list of instructions; the codes are the functions the array points to, with
  their operands.  What lies outside this file is a parameter: the handlers of the variables
  (which may answer differently at every call, and may change other variables and the captures of the
  request, as those of \<^verbatim>\<open>map\<close> do), the prefixes of the cycle.
\<close>

section \<open>Variables of a request\<close>

record http_var =
  v_data :: bytes
  v_valid :: bool
  v_not_found :: bool
  v_no_cacheable :: bool

text \<open>The fields of a request the scripts use; \<open>ncaptures\<close> is the length of \<open>captures\<close>, and
  \<open>calls\<close> counts the calls of handlers, so that a handler may depend on when it is called.\<close>

record script_req =
  variables :: "http_var list"
  captures :: "int list"
  captures_data :: bytes
  quoted_uri :: bool
  plus_in_uri :: bool
  calls :: nat

text \<open>What a handler does: whether it returns \<^verbatim>\<open>NGX_OK\<close>, what it stores, in its own variable and in others
  (asking for a variable stores it, and a regular expression sets the variables it names), and the
  captures of the last regular expression it has matched.\<close>

record handler_result =
  h_ok :: bool
  h_vars :: "(nat \<times> http_var) list"
  h_captures :: "(int list \<times> bytes) option"

record script_env =
  get_handler :: "nat \<Rightarrow> script_req \<Rightarrow> handler_result"
  var_nocacheable :: "nat \<Rightarrow> bool"
  conf_prefix_dir :: bytes
  prefix_dir :: bytes

definition store_var :: "nat \<Rightarrow> http_var \<Rightarrow> script_req \<Rightarrow> script_req" where
  "store_var i v r = r\<lparr>variables := (variables r)[i := v]\<rparr>"

definition handler_effect :: "handler_result \<Rightarrow> script_req \<Rightarrow> script_req" where
  "handler_effect h r =
     (let r' = fold (\<lambda>(i, v). store_var i v) (h_vars h) (r\<lparr>calls := Suc (calls r)\<rparr>)
      in case h_captures h of None \<Rightarrow> r' | Some (cs, d) \<Rightarrow> r'\<lparr>captures := cs, captures_data := d\<rparr>)"

text \<open>\<open>ngx_http_get_indexed_variable\<close>: a variable that was neither found valid nor not found
  is asked of its handler.  An index past the variables is logged and gives no value.\<close>

definition get_indexed_variable ::
  "script_env \<Rightarrow> nat \<Rightarrow> script_req \<Rightarrow> http_var option \<times> script_req" where
  "get_indexed_variable env i r =
     (if length (variables r) \<le> i then (None, r)
      else let v = variables r ! i in
        if v_not_found v \<or> v_valid v then (Some v, r)
        else
          let h = get_handler env i r; r1 = handler_effect h r; w = variables r1 ! i in
          if h_ok h then
            let w' = (if var_nocacheable env i then w\<lparr>v_no_cacheable := True\<rparr> else w)
            in (Some w', store_var i w' r1)
          else (None, store_var i (w\<lparr>v_valid := False, v_not_found := True\<rparr>) r1))"

definition reset_var :: "http_var \<Rightarrow> http_var" where
  "reset_var v = v\<lparr>v_valid := False, v_not_found := False\<rparr>"

text \<open>\<open>ngx_http_get_flushed_variable\<close>.\<close>

definition get_flushed_variable ::
  "script_env \<Rightarrow> nat \<Rightarrow> script_req \<Rightarrow> http_var option \<times> script_req" where
  "get_flushed_variable env i r =
     (if length (variables r) \<le> i then (None, r)
      else let v = variables r ! i in
        if (v_valid v \<or> v_not_found v) \<and> \<not> v_no_cacheable v then (Some v, r)
        else get_indexed_variable env i
               (if v_valid v \<or> v_not_found v
                then r\<lparr>variables := (variables r)[i := reset_var v]\<rparr> else r))"

section \<open>Codes\<close>

text \<open>The length codes and the copying codes.  The capture codes hold \<open>2 * n\<close>.\<close>

datatype len_code =
    Copy_len nat
  | Var_len nat
  | Mark_args
  | Capture_len nat
  | Full_name_len bool

datatype val_code =
    Copy bytes
  | Copy_var nat
  | Start_args
  | Copy_capture nat
  | Full_name bool

text \<open>The state of a length run (\<open>le\<close> in the code).\<close>

record len_engine =
  le_flushed :: bool
  le_quote :: bool
  le_is_args :: bool

definition script_var :: "script_env \<Rightarrow> bool \<Rightarrow> nat \<Rightarrow> script_req \<Rightarrow> http_var option \<times> script_req" where
  "script_var env fl i r =
     (if fl then get_indexed_variable env i r else get_flushed_variable env i r)"

definition capture_text :: "script_req \<Rightarrow> nat \<Rightarrow> bytes" where
  "capture_text r n =
     take (nat (captures r ! (n + 1) - captures r ! n)) (drop (nat (captures r ! n)) (captures_data r))"

definition escaped_captures :: "bool \<Rightarrow> bool \<Rightarrow> script_req \<Rightarrow> bool" where
  "escaped_captures is_args quote r \<longleftrightarrow> (is_args \<or> quote) \<and> (quoted_uri r \<or> plus_in_uri r)"

definition args_escaped :: "bytes \<Rightarrow> nat option" where
  "args_escaped t = escape_uri_count NGX_ESCAPE_ARGS t (length t)"

definition cycle_prefix :: "script_env \<Rightarrow> bool \<Rightarrow> bytes" where
  "cycle_prefix env cp = (if cp then conf_prefix_dir env else prefix_dir env)"

text \<open>One length code: the length, the engine and the request after it.  \<open>None\<close> is a read past
  the captures (an odd end) or past a capture's text.\<close>

type_synonym len_result = "(nat \<times> len_engine \<times> script_req) option"

definition copy_var_len_code :: "script_env \<Rightarrow> nat \<Rightarrow> len_engine \<Rightarrow> script_req \<Rightarrow> len_result" where
  [simp]: "copy_var_len_code env i le r =
     (let (v, r') = script_var env (le_flushed le) i r in
      Some (case v of Some v' \<Rightarrow> if v_not_found v' then 0 else length (v_data v') | None \<Rightarrow> 0, le, r'))"

definition mark_args_code :: "len_engine \<Rightarrow> script_req \<Rightarrow> len_result" where
  [simp]: "mark_args_code le r = Some (1, le\<lparr>le_is_args := True\<rparr>, r)"

definition copy_capture_len_code :: "nat \<Rightarrow> len_engine \<Rightarrow> script_req \<Rightarrow> len_result" where
  [simp]: "copy_capture_len_code n le r =
     (if n < length (captures r)
      then if n + 1 \<ge> length (captures r) then None
           else let t = capture_text r n in
             if escaped_captures (le_is_args le) (le_quote le) r
             then map_option (\<lambda>k. (length t + 2 * k, le, r)) (args_escaped t)
             else Some (length t, le, r)
      else Some (0, le, r))"

definition full_name_len_code :: "script_env \<Rightarrow> bool \<Rightarrow> len_engine \<Rightarrow> script_req \<Rightarrow> len_result" where
  [simp]: "full_name_len_code env cp le r = Some (length (cycle_prefix env cp), le, r)"

fun run_len :: "script_env \<Rightarrow> len_code \<Rightarrow> len_engine \<Rightarrow> script_req \<Rightarrow> len_result" where
  "run_len env (Copy_len n) le r = Some (n, le, r)"
| "run_len env (Var_len i) le r = copy_var_len_code env i le r"
| "run_len env Mark_args le r = mark_args_code le r"
| "run_len env (Capture_len n) le r = copy_capture_len_code n le r"
| "run_len env (Full_name_len cp) le r = full_name_len_code env cp le r"

fun run_lens :: "script_env \<Rightarrow> len_code list \<Rightarrow> len_engine \<Rightarrow> script_req \<Rightarrow> len_result" where
  "run_lens env [] le r = Some (0, le, r)"
| "run_lens env (c # cs) le r =
     (case run_len env c le r of
        None \<Rightarrow> None
      | Some (n, le', r') \<Rightarrow> map_option (\<lambda>(m, s). (n + m, s)) (run_lens env cs le' r'))"

text \<open>The part of the engine that copies: the bytes written so far to a buffer of \<open>cap\<close> bytes,
  and where the arguments begin.\<close>

record val_engine =
  out :: bytes
  cap :: nat
  args_at :: "nat option"
  flushed :: bool
  skip :: bool
  quote :: bool
  is_args :: bool

text \<open>Writing past the end of the buffer is \<open>None\<close>.\<close>

definition emit :: "bytes \<Rightarrow> val_engine \<Rightarrow> val_engine option" where
  "emit b e = (if length (out e) + length b \<le> cap e then Some (e\<lparr>out := out e @ b\<rparr>) else None)"

text \<open>\<open>ngx_conf_full_name\<close>: a name that does not start with a slash gets the prefix; it is put in
  a buffer of its own.  The code looks at the first byte of the name; it copies as a C string,
  so that after a NUL inside the name the new buffer is not filled.\<close>

definition conf_full_name :: "script_env \<Rightarrow> bool \<Rightarrow> bytes \<Rightarrow> bytes option" where
  "conf_full_name env cp name =
     (case name of
        [] \<Rightarrow> None
      | c # _ \<Rightarrow>
          if c = 0x2f then Some name
          else if 0 \<in> set (butlast name) then None
          else Some (cycle_prefix env cp @ name))"

type_synonym val_result = "(val_engine \<times> script_req) option"

definition copy_code :: "bytes \<Rightarrow> val_engine \<Rightarrow> script_req \<Rightarrow> val_result" where
  [simp]: "copy_code b e r = map_option (\<lambda>e'. (e', r)) (if skip e then Some e else emit b e)"

definition copy_var_code :: "script_env \<Rightarrow> nat \<Rightarrow> val_engine \<Rightarrow> script_req \<Rightarrow> val_result" where
  [simp]: "copy_var_code env i e r =
     (if skip e then Some (e, r)
      else let (v, r') = script_var env (flushed e) i r in
        (case v of
           Some v' \<Rightarrow> if v_not_found v' then Some (e, r') else map_option (\<lambda>e'. (e', r')) (emit (v_data v') e)
         | None \<Rightarrow> Some (e, r')))"

definition start_args_code :: "val_engine \<Rightarrow> script_req \<Rightarrow> val_result" where
  [simp]: "start_args_code e r = Some (e\<lparr>is_args := True, args_at := Some (length (out e))\<rparr>, r)"

definition copy_capture_code :: "nat \<Rightarrow> val_engine \<Rightarrow> script_req \<Rightarrow> val_result" where
  [simp]: "copy_capture_code n e r =
     (if n < length (captures r)
      then if n + 1 \<ge> length (captures r) then None
           else let t = capture_text r n in
             if escaped_captures (is_args e) (quote e) r
             then (case ngx_escape_uri NGX_ESCAPE_ARGS t (length t) of
                     None \<Rightarrow> None
                   | Some b \<Rightarrow> map_option (\<lambda>e'. (e', r)) (emit b e))
             else map_option (\<lambda>e'. (e', r)) (emit t e)
      else Some (e, r))"

definition full_name_code :: "script_env \<Rightarrow> bool \<Rightarrow> val_engine \<Rightarrow> script_req \<Rightarrow> val_result" where
  [simp]: "full_name_code env cp e r =
     (case conf_full_name env cp (out e) of
        None \<Rightarrow> None
      | Some n \<Rightarrow> Some (e\<lparr>out := n, cap := length n\<rparr>, r))"

fun run_val :: "script_env \<Rightarrow> val_code \<Rightarrow> val_engine \<Rightarrow> script_req \<Rightarrow> val_result" where
  "run_val env (Copy b) e r = copy_code b e r"
| "run_val env (Copy_var i) e r = copy_var_code env i e r"
| "run_val env Start_args e r = start_args_code e r"
| "run_val env (Copy_capture n) e r = copy_capture_code n e r"
| "run_val env (Full_name cp) e r = full_name_code env cp e r"

fun run_vals :: "script_env \<Rightarrow> val_code list \<Rightarrow> val_engine \<Rightarrow> script_req \<Rightarrow> val_result" where
  "run_vals env [] e r = Some (e, r)"
| "run_vals env (c # cs) e r =
     (case run_val env c e r of
        None \<Rightarrow> None
      | Some (e', r') \<Rightarrow> run_vals env cs e' r')"

section \<open>The compiler\<close>

text \<open>\<open>ngx_http_get_variable_index\<close>: the names known so far are part of the configuration; a new
  name is added in lower case.  An empty name would be added like any other.\<close>

definition same_name :: "bytes \<Rightarrow> bytes \<Rightarrow> bool" where
  "same_name a b \<longleftrightarrow> length a = length b \<and> map ngx_tolower a = map ngx_tolower b"

fun name_index :: "bytes \<Rightarrow> bytes list \<Rightarrow> nat option" where
  "name_index n [] = None"
| "name_index n (v # vs) = (if same_name n v then Some 0 else map_option Suc (name_index n vs))"

definition get_variable_index :: "bytes \<Rightarrow> bytes list \<Rightarrow> nat \<times> bytes list" where
  "get_variable_index n vs =
     (case name_index n vs of
        Some i \<Rightarrow> (i, vs)
      | None \<Rightarrow> (length vs, vs @ [map ngx_tolower n]))"

text \<open>\<open>ngx_http_script_compile_t\<close>, with the arrays as lists and the names of the
  configuration.  \<open>captures_mask\<close> is the set of its bits.\<close>

record script_compile =
  lengths :: "len_code list"
  vals :: "val_code list"
  flushes :: "nat list"
  names :: "bytes list"
  var_count :: nat
  ncaptures :: nat
  captures_mask :: "nat list"
  lit_size :: nat
  compile_args :: bool
  zero :: bool
  conf_prefix :: bool
  root_prefix :: bool
  dup_capture :: bool
  has_args :: bool

datatype compile_error = Invalid_variable_name | Bracket_missing | Empty_parameter

definition add_copy_code :: "bytes \<Rightarrow> bool \<Rightarrow> script_compile \<Rightarrow> script_compile" where
  "add_copy_code b lst sc =
     (let z = zero sc \<and> lst; t = (if z then b @ [0] else b)
      in sc\<lparr>lengths := lengths sc @ [Copy_len (length t)], vals := vals sc @ [Copy t],
            zero := (if z then False else zero sc)\<rparr>)"

definition add_var_code :: "bytes \<Rightarrow> script_compile \<Rightarrow> script_compile" where
  "add_var_code n sc =
     (let (i, vs) = get_variable_index n (names sc)
      in sc\<lparr>names := vs, flushes := flushes sc @ [i], lengths := lengths sc @ [Var_len i],
            vals := vals sc @ [Copy_var i]\<rparr>)"

definition add_args_code :: "script_compile \<Rightarrow> script_compile" where
  "add_args_code sc = sc\<lparr>lengths := lengths sc @ [Mark_args], vals := vals sc @ [Start_args]\<rparr>"

definition add_capture_code :: "nat \<Rightarrow> script_compile \<Rightarrow> script_compile" where
  "add_capture_code n sc =
     sc\<lparr>lengths := lengths sc @ [Capture_len (2 * n)], vals := vals sc @ [Copy_capture (2 * n)],
        ncaptures := (if ncaptures sc < n then n else ncaptures sc)\<rparr>"

definition add_full_name_code :: "script_compile \<Rightarrow> script_compile" where
  "add_full_name_code sc =
     sc\<lparr>lengths := lengths sc @ [Full_name_len (conf_prefix sc)],
        vals := vals sc @ [Full_name (conf_prefix sc)]\<rparr>"

text \<open>\<open>ngx_http_script_done\<close>; the NULL code that ends an array is the end of the list.\<close>

definition script_done :: "script_compile \<Rightarrow> script_compile" where
  "script_done sc =
     (let sc1 = (if zero sc then add_copy_code [0] False sc else sc)
      in if conf_prefix sc1 \<or> root_prefix sc1 then add_full_name_code sc1 else sc1)"

definition name_char :: "u8 \<Rightarrow> bool" where
  "name_char c \<longleftrightarrow> 0x41 \<le> c \<and> c \<le> 0x5a \<or> 0x61 \<le> c \<and> c \<le> 0x7a \<or> 0x30 \<le> c \<and> c \<le> 0x39 \<or> c = 0x5f"

definition mark_capture :: "nat \<Rightarrow> script_compile \<Rightarrow> script_compile" where
  "mark_capture n sc =
     sc\<lparr>dup_capture := dup_capture sc \<or> n \<in> set (captures_mask sc), captures_mask := n # captures_mask sc\<rparr>"

text \<open>The end of a literal: a dollar, or a question mark while the arguments are compiled.\<close>

definition literal_char :: "bool \<Rightarrow> u8 \<Rightarrow> bool" where
  "literal_char ca c \<longleftrightarrow> c \<noteq> 0x24 \<and> \<not> (c = 0x3f \<and> ca)"

text \<open>The loop of \<open>ngx_http_script_compile\<close>, on the rest of the source.\<close>

function compile_loop :: "bytes \<Rightarrow> script_compile \<Rightarrow> compile_error + script_compile" where
  "compile_loop src sc =
     (case src of
        [] \<Rightarrow> Inr (script_done sc)
      | c # rest \<Rightarrow>
          if c = 0x24 then
            (case rest of
               [] \<Rightarrow> Inl Invalid_variable_name
             | d # rest' \<Rightarrow>
                 if 0x31 \<le> d \<and> d \<le> 0x39
                 then compile_loop rest'
                        (add_capture_code (unat (d - 0x30)) (mark_capture (unat (d - 0x30)) sc))
                 else
                   let bracket = (d = 0x7b); s = (if bracket then rest' else rest) in
                   if bracket \<and> s = [] then Inl Invalid_variable_name
                   else
                     let name = takeWhile name_char s; after = dropWhile name_char s;
                         closed = (after \<noteq> [] \<and> hd after = 0x7d) in
                     if bracket \<and> \<not> closed then Inl Bracket_missing
                     else if name = [] then Inl Invalid_variable_name
                     else compile_loop (if bracket then tl after else after)
                            (add_var_code name (sc\<lparr>var_count := Suc (var_count sc)\<rparr>)))
          else if c = 0x3f \<and> compile_args sc
          then compile_loop rest (add_args_code (sc\<lparr>has_args := True, compile_args := False\<rparr>))
          else
            let lit = takeWhile (literal_char (compile_args sc)) src;
                after = dropWhile (literal_char (compile_args sc)) src;
                sc1 = sc\<lparr>has_args := has_args sc \<or> 0x3f \<in> set lit
                           \<or> (after \<noteq> [] \<and> hd after = 0x3f),
                         lit_size := lit_size sc + length lit\<rparr>
            in compile_loop after (add_copy_code lit (after = []) sc1))"
  by pat_completeness auto

termination
proof (relation "measure (\<lambda>(src, sc). length src)", goal_cases)
  case (3 src sc c rest d rest' bracket s name after closed)
  have "length after \<le> length s" using 3 by (simp add: length_dropWhile_le)
  moreover have "length s \<le> length rest" using 3 by auto
  ultimately show ?case using 3 by (cases after) auto
next
  case (5 src sc c rest lit after sc1)
  then have "after = dropWhile (literal_char (compile_args sc)) rest"
    by (simp add: literal_char_def)
  then show ?case using 5 by (simp add: length_dropWhile_le le_imp_less_Suc)
qed auto

declare compile_loop.simps [simp del]


section \<open>Complex values\<close>

text \<open>\<open>ngx_http_complex_value_t\<close>: a constant, or the two arrays.\<close>

record complex_value =
  cv_value :: bytes
  cv_flushes :: "nat list"
  cv_codes :: "(len_code list \<times> val_code list) option"

definition new_compile :: "bytes list \<Rightarrow> bool \<Rightarrow> bool \<Rightarrow> bool \<Rightarrow> bool \<Rightarrow> script_compile" where
  "new_compile ns ca z cp rp =
     \<lparr>lengths = [], vals = [], flushes = [], names = ns, var_count = 0, ncaptures = 0,
      captures_mask = [], lit_size = 0, compile_args = ca, zero = z, conf_prefix = cp,
      root_prefix = rp, dup_capture = False, has_args = False\<rparr>"

text \<open>\<open>ngx_http_compile_complex_value\<close>: a value without a dollar is a constant; a file name is
  completed now, unless it starts with a variable.\<close>

definition compile_complex_value ::
  "script_env \<Rightarrow> bool \<Rightarrow> bool \<Rightarrow> bool \<Rightarrow> bytes list \<Rightarrow> bytes \<Rightarrow> compile_error + (complex_value \<times> bytes list)"
where
  "compile_complex_value env z cp rp ns v =
     (if v = [] then Inl Empty_parameter
      else
        let full = (hd v \<noteq> 0x24 \<and> (cp \<or> rp));
            v' = (if full \<and> hd v \<noteq> 0x2f then cycle_prefix env cp @ v else v)
        in if 0x24 \<notin> set v then Inr (\<lparr>cv_value = v', cv_flushes = [], cv_codes = None\<rparr>, ns)
           else (case compile_loop v' (new_compile ns False z (cp \<and> \<not> full) (rp \<and> \<not> full)) of
                   Inl err \<Rightarrow> Inl err
                 | Inr sc \<Rightarrow>
                     Inr (\<lparr>cv_value = v', cv_flushes = flushes sc,
                           cv_codes = Some (lengths sc, vals sc)\<rparr>, names sc)))"

text \<open>\<open>ngx_http_script_flush_complex_value\<close>.\<close>

fun flush_vars :: "nat list \<Rightarrow> script_req \<Rightarrow> script_req" where
  "flush_vars [] r = r"
| "flush_vars (i # is) r =
     flush_vars is
       (if i < length (variables r) \<and> v_no_cacheable (variables r ! i)
        then r\<lparr>variables := (variables r)[i := reset_var (variables r ! i)]\<rparr> else r)"

text \<open>\<open>ngx_http_complex_value\<close>.  The value has the length of the length run, so that bytes the
  second run did not write would be read uninitialised: \<open>None\<close>, like a write past the end.\<close>

definition ngx_http_complex_value ::
  "script_env \<Rightarrow> complex_value \<Rightarrow> script_req \<Rightarrow> (bytes \<times> script_req) option" where
  "ngx_http_complex_value env cv r =
     (case cv_codes cv of
        None \<Rightarrow> Some (cv_value cv, r)
      | Some (ls, vs) \<Rightarrow>
          (case run_lens env ls \<lparr>le_flushed = True, le_quote = False, le_is_args = False\<rparr>
                  (flush_vars (cv_flushes cv) r) of
             None \<Rightarrow> None
           | Some (len, _, r1) \<Rightarrow>
               (case run_vals env vs
                       \<lparr>out = [], cap = len, args_at = None, flushed = True, skip = False,
                        quote = False, is_args = False\<rparr> r1 of
                  None \<Rightarrow> None
                | Some (e, r2) \<Rightarrow> if length (out e) = cap e then Some (out e, r2) else None)))"

text \<open>\<open>ngx_http_script_run\<close>: the same for two arrays, with every variable flushed that may not be
  cached, and room for \<open>reserved\<close> bytes more.  The answer is the bytes before the position
  returned.\<close>

definition flush_all :: "script_req \<Rightarrow> script_req" where
  "flush_all r = r\<lparr>variables := map (\<lambda>v. if v_no_cacheable v then reset_var v else v) (variables r)\<rparr>"

definition ngx_http_script_run ::
  "script_env \<Rightarrow> len_code list \<Rightarrow> nat \<Rightarrow> val_code list \<Rightarrow> script_req \<Rightarrow> (bytes \<times> nat \<times> script_req) option" where
  "ngx_http_script_run env ls reserved vs r =
     (case run_lens env ls \<lparr>le_flushed = True, le_quote = False, le_is_args = False\<rparr> (flush_all r) of
        None \<Rightarrow> None
      | Some (n, le, r1) \<Rightarrow>
          map_option (\<lambda>(e, r2). (out e, reserved + n, r2))
            (run_vals env vs
               \<lparr>out = [], cap = reserved + n, args_at = None, flushed = True, skip = False,
                quote = False, is_args = le_is_args le\<rparr> r1))"

text \<open>\<open>ngx_http_test_predicates\<close>: declined when a value is neither empty nor 0.\<close>

fun test_predicates :: "script_env \<Rightarrow> complex_value list \<Rightarrow> script_req \<Rightarrow> (ngx_rc \<times> script_req) option" where
  "test_predicates env [] r = Some (NGX_OK, r)"
| "test_predicates env (cv # cvs) r =
     (case ngx_http_complex_value env cv r of
        None \<Rightarrow> None
      | Some (b, r') \<Rightarrow> if b \<noteq> [] \<and> b \<noteq> [0x30] then Some (NGX_DECLINED, r') else test_predicates env cvs r')"

section \<open>The two runs agree\<close>

text \<open>The codes of the two arrays correspond one to one.\<close>

fun code_match :: "len_code \<Rightarrow> val_code \<Rightarrow> bool" where
  "code_match (Copy_len n) (Copy b) \<longleftrightarrow> n = length b"
| "code_match (Var_len i) (Copy_var j) \<longleftrightarrow> i = j"
| "code_match Mark_args Start_args \<longleftrightarrow> True"
| "code_match (Capture_len n) (Copy_capture m) \<longleftrightarrow> n = m \<and> even n"
| "code_match (Full_name_len p) (Full_name q) \<longleftrightarrow> p = q"
| "code_match _ _ \<longleftrightarrow> False"

definition matched :: "script_compile \<Rightarrow> bool" where
  "matched sc \<longleftrightarrow> list_all2 code_match (lengths sc) (vals sc)"

lemma matched_add:
  "matched sc \<Longrightarrow> matched (add_copy_code b l sc)"
  "matched sc \<Longrightarrow> matched (add_var_code n sc)"
  "matched sc \<Longrightarrow> matched (add_args_code sc)"
  "matched sc \<Longrightarrow> matched (add_capture_code k sc)"
  "matched sc \<Longrightarrow> matched (add_full_name_code sc)"
  by (auto simp: matched_def add_copy_code_def add_var_code_def add_args_code_def
      add_capture_code_def add_full_name_code_def Let_def list_all2_appendI split: prod.splits)

lemma matched_update [simp]:
  "matched (sc\<lparr>var_count := n\<rparr>) = matched sc"
  "matched (sc\<lparr>has_args := b, compile_args := c\<rparr>) = matched sc"
  "matched (sc\<lparr>has_args := b, lit_size := n\<rparr>) = matched sc"
  "matched (mark_capture k sc) = matched sc"
  "matched (new_compile ns ca z cp rp)"
  by (simp_all add: matched_def mark_capture_def new_compile_def)

lemma matched_done: "matched sc \<Longrightarrow> matched (script_done sc)"
  by (simp add: script_done_def Let_def matched_add)

text \<open>The cases of the compiler.\<close>

definition add_literal :: "bytes \<Rightarrow> bytes \<Rightarrow> script_compile \<Rightarrow> script_compile" where
  "add_literal lit after sc =
     add_copy_code lit (after = [])
       (sc\<lparr>has_args := has_args sc \<or> 0x3f \<in> set lit \<or> (after \<noteq> [] \<and> hd after = 0x3f),
           lit_size := lit_size sc + length lit\<rparr>)"

lemma compile_loop_nil: "compile_loop [] sc = Inr (script_done sc)"
  by (simp add: compile_loop.simps)

lemma compile_loop_args:
  "compile_args sc \<Longrightarrow> compile_loop (0x3f # rest) sc
     = compile_loop rest (add_args_code (sc\<lparr>has_args := True, compile_args := False\<rparr>))"
  by (subst compile_loop.simps) simp

lemma compile_loop_literal:
  assumes "src \<noteq> []" "literal_char (compile_args sc) (hd src)"
  shows "compile_loop src sc
       = compile_loop (dropWhile (literal_char (compile_args sc)) src)
           (add_literal (takeWhile (literal_char (compile_args sc)) src)
              (dropWhile (literal_char (compile_args sc)) src) sc)"
proof -
  obtain c rest where "src = c # rest" using assms(1) by (cases src) auto
  moreover from this have "c \<noteq> 0x24" "\<not> (c = 0x3f \<and> compile_args sc)"
    using assms(2) by (auto simp: literal_char_def)
  ultimately show ?thesis
    by (subst compile_loop.simps; cases "compile_args sc"; cases "c = 0x3f")
       (simp_all add: Let_def add_literal_def del: takeWhile.simps dropWhile.simps)
qed

lemma compile_loop_capture:
  "0x31 \<le> d \<Longrightarrow> d \<le> 0x39 \<Longrightarrow> compile_loop (0x24 # d # rest) sc
     = compile_loop rest (add_capture_code (unat (d - 0x30)) (mark_capture (unat (d - 0x30)) sc))"
  by (subst compile_loop.simps) simp

lemma compile_loop_var:
  assumes "\<not> (0x31 \<le> d \<and> d \<le> 0x39)" "d \<noteq> 0x7b" "takeWhile name_char (d # rest) \<noteq> []"
  shows "compile_loop (0x24 # d # rest) sc
       = compile_loop (dropWhile name_char (d # rest))
           (add_var_code (takeWhile name_char (d # rest)) (sc\<lparr>var_count := Suc (var_count sc)\<rparr>))"
  using assms
  by (subst compile_loop.simps; cases "0x31 \<le> d")
     (simp_all add: Let_def del: takeWhile.simps dropWhile.simps)

lemma compile_loop_bracket:
  assumes "rest = n @ 0x7d # after" "n \<noteq> []" "\<forall>c\<in>set n. name_char c"
  shows "compile_loop (0x24 # 0x7b # rest) sc
       = compile_loop after (add_var_code n (sc\<lparr>var_count := Suc (var_count sc)\<rparr>))"
proof -
  have "\<not> name_char 0x7d" by (simp add: name_char_def)
  then have "takeWhile name_char rest = n" "dropWhile name_char rest = 0x7d # after"
    using assms(1,3) by (auto simp: takeWhile_append2 dropWhile_append2)
  then show ?thesis using assms(1,2) by (subst compile_loop.simps) (auto simp: Let_def)
qed

text \<open>Every successful compilation goes through these cases.\<close>

lemma compile_loop_cases:
  assumes "compile_loop src sc = Inr sc'"
  obtains (finish) "src = []" "sc' = script_done sc"
  | (step) src1 sc1 where "length src1 < length src" "compile_loop src1 sc1 = Inr sc'"
      "(\<exists>n. sc1 = add_var_code n (sc\<lparr>var_count := Suc (var_count sc)\<rparr>))
       \<or> (\<exists>k. 1 \<le> k \<and> k \<le> 9 \<and> sc1 = add_capture_code k (mark_capture k sc))
       \<or> compile_args sc \<and> sc1 = add_args_code (sc\<lparr>has_args := True, compile_args := False\<rparr>)
       \<or> (\<exists>lit after. lit \<noteq> [] \<and> sc1 = add_literal lit after sc)"
proof (cases src)
  case Nil
  then show thesis using finish assms by (simp add: compile_loop_nil)
next
  case (Cons c rest)
  consider (dollar) "c = 0x24" | (args) "c \<noteq> 0x24" "c = 0x3f" "compile_args sc"
    | (lit) "c \<noteq> 0x24" "\<not> (c = 0x3f \<and> compile_args sc)" by blast
  then show thesis
  proof cases
    case args
    then show thesis using step[of rest] assms Cons by (simp add: compile_loop_args)
  next
    case lit
    then have l: "literal_char (compile_args sc) (hd src)" using Cons by (simp add: literal_char_def)
    have "takeWhile (literal_char (compile_args sc)) src \<noteq> []" using l Cons by simp
    moreover from this have "length (dropWhile (literal_char (compile_args sc)) src) < length src"
      by (metis length_append length_greater_0_conv less_add_same_cancel2 takeWhile_dropWhile_id)
    ultimately show thesis
      using step assms compile_loop_literal[OF _ l] Cons by (metis list.discI)
  next
    case dollar
    obtain d rest' where rest: "rest = d # rest'"
      using assms Cons dollar by (cases rest) (simp_all add: compile_loop.simps)
    show thesis
    proof (cases "0x31 \<le> d \<and> d \<le> 0x39")
      case True
      then have "unat (d - 0x30) = unat d - 0x30" "0x31 \<le> unat d" "unat d \<le> 0x39"
        by (simp_all add: word_le_nat_alt unat_sub)
      then have "1 \<le> unat (d - 0x30) \<and> unat (d - 0x30) \<le> 9" by presburger
      then show thesis using step[of rest'] assms Cons dollar rest True by (auto simp: compile_loop_capture)
    next
      case False
      define s where "s = (if d = 0x7b then rest' else rest)"
      define after where "after = dropWhile name_char s"
      have ok: "takeWhile name_char s \<noteq> []" "d = 0x7b \<longrightarrow> after \<noteq> []"
        "compile_loop (if d = 0x7b then tl after else after)
           (add_var_code (takeWhile name_char s) (sc\<lparr>var_count := Suc (var_count sc)\<rparr>)) = Inr sc'"
        using assms unfolding Cons dollar rest
        by (subst (asm) compile_loop.simps, use False in \<open>force simp: s_def after_def rest Let_def split: if_splits\<close>)+
      have "length after \<le> length s" by (simp add: after_def length_dropWhile_le)
      moreover have "length s < length src" using Cons rest by (simp add: s_def)
      ultimately have "length after < length src" by simp
      then have "length (if d = 0x7b then tl after else after) < length src" by auto
      then show thesis using step ok(3) by blast
    qed
  qed
qed

lemma compile_matched:
  "matched sc \<Longrightarrow> compile_loop src sc = Inr sc' \<Longrightarrow> matched sc'"
proof (induction "length src" arbitrary: src sc rule: less_induct)
  case less
  from less.prems(2) show ?case
  proof (cases rule: compile_loop_cases)
    case finish
    then show ?thesis using less.prems(1) by (simp add: matched_done)
  next
    case (step src1 sc1)
    then have "matched sc1"
      using less.prems(1) by (auto simp: matched_add add_literal_def)
    then show ?thesis using less.hyps step(1,2) by blast
  qed
qed


definition var_text :: "http_var option \<Rightarrow> bytes" where
  "var_text v = (case v of Some v' \<Rightarrow> if v_not_found v' then [] else v_data v' | None \<Rightarrow> [])"

text \<open>A variable is settled when asking for it again gives the same text and changes nothing.\<close>

definition settled :: "script_req \<Rightarrow> nat \<Rightarrow> bool" where
  "settled r i \<longleftrightarrow> i \<ge> length (variables r) \<or> v_valid (variables r ! i) \<or> v_not_found (variables r ! i)"

text \<open>Handlers that keep to their variable: they leave the captures and the variables that have already been
  answered alone, and one that returns \<^verbatim>\<open>NGX_OK\<close> says whether its variable is found.\<close>

definition env_ok :: "script_env \<Rightarrow> bool" where
  "env_ok env \<longleftrightarrow> (\<forall>i r. \<not> settled r i \<longrightarrow>
     (let h = get_handler env i r; r' = handler_effect h r in
        captures r' = captures r \<and> captures_data r' = captures_data r \<and>
        (\<forall>j < length (variables r). settled r j \<longrightarrow> variables r' ! j = variables r ! j) \<and>
        (h_ok h \<longrightarrow> v_valid (variables r' ! i) \<or> v_not_found (variables r' ! i))))"

lemma store_var_simps [simp]:
  "variables (store_var i v r) = (variables r)[i := v]" "captures (store_var i v r) = captures r"
  "captures_data (store_var i v r) = captures_data r" "quoted_uri (store_var i v r) = quoted_uri r"
  "plus_in_uri (store_var i v r) = plus_in_uri r" "calls (store_var i v r) = calls r"
  by (simp_all add: store_var_def)

lemma handler_effect_length [simp]: "length (variables (handler_effect h r)) = length (variables r)"
proof -
  have "length (variables (fold (\<lambda>(i, v). store_var i v) ws s)) = length (variables s)" for ws s
    by (induction ws arbitrary: s) auto
  then show ?thesis by (simp add: handler_effect_def Let_def split: option.splits)
qed

lemma env_okD:
  assumes "env_ok env" "\<not> settled r i"
  shows "captures (handler_effect (get_handler env i r) r) = captures r"
    "captures_data (handler_effect (get_handler env i r) r) = captures_data r"
    "j < length (variables r) \<Longrightarrow> settled r j \<Longrightarrow> variables (handler_effect (get_handler env i r) r) ! j = variables r ! j"
    "h_ok (get_handler env i r) \<Longrightarrow> v_valid (variables (handler_effect (get_handler env i r) r) ! i)
       \<or> v_not_found (variables (handler_effect (get_handler env i r) r) ! i)"
  using assms(1) [unfolded env_ok_def Let_def, rule_format, OF assms(2)] by blast+

lemma get_indexed_settled:
  assumes "settled r i"
  shows "\<exists>v. get_indexed_variable env i r = (v, r)"
  using assms by (cases "i < length (variables r)") (auto simp: get_indexed_variable_def settled_def Let_def)

text \<open>The cases of \<open>get_indexed_variable\<close>: nothing happens, or the handler is called, and what its variable
  then holds is the answer.\<close>

lemma get_indexed_cases:
  assumes "env_ok env" "get_indexed_variable env i r = (v, r')"
  obtains (same) "settled r i" "r' = r"
  | (stored) w where "i < length (variables r)" "\<not> settled r i" "length (variables r') = length (variables r)"
      "variables r' ! i = w" "v_valid w \<or> v_not_found w" "var_text v = var_text (Some w)"
      "captures r' = captures r" "captures_data r' = captures_data r"
      "\<And>j. j < length (variables r) \<Longrightarrow> settled r j \<Longrightarrow> variables r' ! j = variables r ! j"
proof (cases "settled r i")
  case True
  then show thesis using same assms(2) get_indexed_settled[OF True, of env] by auto
next
  case False
  then have i: "i < length (variables r)" by (simp add: settled_def)
  define h where "h = get_handler env i r"
  define w where "w = variables (handler_effect h r) ! i"
  define w' where "w' = (if h_ok h then if var_nocacheable env i then w\<lparr>v_no_cacheable := True\<rparr> else w
     else w\<lparr>v_valid := False, v_not_found := True\<rparr>)"
  note e = env_okD[OF assms(1) False, folded h_def]
  have r: "v = (if h_ok h then Some w' else None)" "r' = store_var i w' (handler_effect h r)"
    using assms(2) i False
    by (auto simp: get_indexed_variable_def settled_def Let_def w'_def w_def h_def split: if_splits)
  have w': "v_valid w' \<or> v_not_found w'" using e(4) by (auto simp: w'_def w_def)
  have "variables r' ! j = variables r ! j" if "j < length (variables r)" "settled r j" for j
    using that e(3)[OF that] False by (cases "j = i") (simp_all add: r(2))
  moreover have "var_text v = var_text (Some w')" by (simp add: r(1) var_text_def w'_def)
  moreover have "length (variables r') = length (variables r)" "variables r' ! i = w'"
    "captures r' = captures r" "captures_data r' = captures_data r"
    using i e(1,2) by (simp_all add: r(2))
  ultimately show thesis using stored[of w'] i False w' by blast
qed

lemma get_indexed_stored:
  "i < length (variables r) \<Longrightarrow> v_valid (variables r ! i) \<or> v_not_found (variables r ! i) \<Longrightarrow>
   get_indexed_variable env i r = (Some (variables r ! i), r)"
  by (auto simp: get_indexed_variable_def Let_def)

lemma get_indexed_settles:
  assumes "env_ok env" "get_indexed_variable env i r = (v, r')"
  shows "settled r' i" "\<And>j. settled r j \<Longrightarrow> settled r' j"
    "\<exists>v'. get_indexed_variable env i r' = (v', r') \<and> var_text v' = var_text v"
proof -
  have "settled r' i \<and> (\<forall>j. settled r j \<longrightarrow> settled r' j)
      \<and> (\<exists>v'. get_indexed_variable env i r' = (v', r') \<and> var_text v' = var_text v)"
    using assms
  proof (cases rule: get_indexed_cases)
    case same
    then show ?thesis using assms(2) by simp
  next
    case (stored w)
    then have "get_indexed_variable env i r' = (Some w, r')"
      using get_indexed_stored[of i r' env] by simp
    moreover have "settled r' j" if "settled r j" for j
      using stored(3) stored(9)[of j] that by (cases "j < length (variables r)") (simp_all add: settled_def)
    moreover have "settled r' i" using stored by (simp add: settled_def)
    ultimately show ?thesis using stored(6) by auto
  qed
  then show "settled r' i" "\<And>j. settled r j \<Longrightarrow> settled r' j"
    "\<exists>v'. get_indexed_variable env i r' = (v', r') \<and> var_text v' = var_text v" by auto
qed

lemma get_indexed_keeps:
  assumes "env_ok env" "get_indexed_variable env j r = (w, r')" "settled r i" "get_indexed_variable env i r = (v, r)"
  shows "get_indexed_variable env i r' = (v, r')"
  using assms(1,2)
proof (cases rule: get_indexed_cases)
  case same
  then show ?thesis using assms(4) by simp
next
  case (stored w)
  show ?thesis
  proof (cases "i < length (variables r)")
    case True
    then have s: "v_valid (variables r ! i) \<or> v_not_found (variables r ! i)"
      using assms(3) by (simp add: settled_def)
    then have "v = Some (variables r ! i)" using assms(4) get_indexed_stored[OF True, of env] by simp
    then show ?thesis using True s stored(3) stored(9)[OF True assms(3)] get_indexed_stored[of i r' env] by simp
  next
    case False
    then show ?thesis using stored(3) assms(4) by (simp add: get_indexed_variable_def)
  qed
qed

lemma get_indexed_request:
  assumes "env_ok env" "get_indexed_variable env i r = (v, r')"
  shows "captures r' = captures r" "captures_data r' = captures_data r"
proof -
  have "captures r' = captures r \<and> captures_data r' = captures_data r"
    using assms by (cases rule: get_indexed_cases) simp_all
  then show "captures r' = captures r" "captures_data r' = captures_data r" by auto
qed

section \<open>The escapes are counted right\<close>

lemma escape_args_length:
  assumes "n \<le> length t"
  shows "\<exists>b k. ngx_escape_uri ty t n = Some b \<and> escape_uri_count ty t n = Some k \<and> length b = n + 2 * k"
  using assms
proof (induction ty t n rule: ngx_escape_uri.induct)
  case (2 ty c src sz)
  then obtain b k where "ngx_escape_uri ty src sz = Some b" "escape_uri_count ty src sz = Some k"
      "length b = sz + 2 * k" by auto
  then show ?case by auto
qed auto

text \<open>The text a capture contributes, escaped or not.\<close>

definition capture_bytes :: "bool \<Rightarrow> script_req \<Rightarrow> nat \<Rightarrow> bytes" where
  "capture_bytes esc r n =
     (if n < length (captures r)
      then if esc then the (ngx_escape_uri NGX_ESCAPE_ARGS (capture_text r n) (length (capture_text r n)))
           else capture_text r n
      else [])"

text \<open>The captures come in pairs.\<close>

definition captures_ok :: "script_req \<Rightarrow> bool" where
  "captures_ok r \<longleftrightarrow> even (length (captures r))"

lemma captures_ok_pair: "captures_ok r \<Longrightarrow> even n \<Longrightarrow> n < length (captures r) \<Longrightarrow> n + 1 < length (captures r)"
  unfolding captures_ok_def by presburger

lemma run_len_capture:
  assumes "captures_ok r" "even n"
  shows "run_len env (Capture_len n) le r
       = Some (length (capture_bytes (escaped_captures (le_is_args le) (le_quote le) r) r n), le, r)"
  using captures_ok_pair[OF assms] escape_args_length[of "length (capture_text r n)" "capture_text r n" NGX_ESCAPE_ARGS]
  by (auto simp: capture_bytes_def args_escaped_def Let_def not_le)

lemma run_val_capture:
  assumes "captures_ok r" "even n"
  shows "run_val env (Copy_capture n) e r
       = map_option (\<lambda>e'. (e', r)) (emit (capture_bytes (escaped_captures (is_args e) (quote e) r) r n) e)
       \<or> length (out e) > cap e"
  using captures_ok_pair[OF assms] escape_args_length[of "length (capture_text r n)" "capture_text r n" NGX_ESCAPE_ARGS]
  by (auto simp: capture_bytes_def Let_def not_le emit_def)

section \<open>Exactness\<close>

text \<open>What a copying code contributes to the result.\<close>

fun val_bytes :: "script_env \<Rightarrow> val_code \<Rightarrow> script_req \<Rightarrow> bytes \<times> script_req" where
  "val_bytes env (Copy b) r = (b, r)"
| "val_bytes env (Copy_var i) r = (let (v, r') = get_indexed_variable env i r in (var_text v, r'))"
| "val_bytes env (Copy_capture n) r = (capture_bytes False r n, r)"
| "val_bytes env Start_args r = ([], r)"
| "val_bytes env (Full_name cp) r = ([], r)"

fun vals_bytes :: "script_env \<Rightarrow> val_code list \<Rightarrow> script_req \<Rightarrow> bytes \<times> script_req" where
  "vals_bytes env [] r = ([], r)"
| "vals_bytes env (c # cs) r =
     (let (b, r1) = val_bytes env c r; (bs, r2) = vals_bytes env cs r1 in (b @ bs, r2))"

text \<open>The codes of a string without arguments and prefixes.\<close>

fun plain_code :: "val_code \<Rightarrow> bool" where
  "plain_code (Copy b) \<longleftrightarrow> True"
| "plain_code (Copy_var i) \<longleftrightarrow> True"
| "plain_code (Copy_capture n) \<longleftrightarrow> even n"
| "plain_code _ \<longleftrightarrow> False"

lemma val_bytes_request:
  "env_ok env \<Longrightarrow> val_bytes env c r = (b, r') \<Longrightarrow> captures r' = captures r \<and> captures_data r' = captures_data r"
  by (cases c) (auto dest: get_indexed_request split: prod.splits)

lemma val_bytes_var:
  assumes "val_bytes env c r = (b, r')"
  obtains "r' = r" | i v where "get_indexed_variable env i r = (v, r')" "c = Copy_var i" "b = var_text v"
  using assms that by (cases c) (auto split: prod.splits)

lemma val_bytes_settled:
  assumes "env_ok env" "val_bytes env c r = (b, r')"
  shows "\<And>j. settled r j \<Longrightarrow> settled r' j"
    and "\<And>j v. settled r j \<Longrightarrow> get_indexed_variable env j r = (v, r) \<Longrightarrow> get_indexed_variable env j r' = (v, r')"
proof -
  have "(settled r j \<longrightarrow> settled r' j)
      \<and> (settled r j \<longrightarrow> get_indexed_variable env j r = (v, r) \<longrightarrow> get_indexed_variable env j r' = (v, r'))" for j v
    using assms(2)
  proof (cases rule: val_bytes_var)
    case (2 i w)
    then show ?thesis
      using get_indexed_settles(2)[OF assms(1) 2(1)] get_indexed_keeps[OF assms(1) 2(1)] by blast
  qed simp
  then show "\<And>j. settled r j \<Longrightarrow> settled r' j"
    "\<And>j v. settled r j \<Longrightarrow> get_indexed_variable env j r = (v, r) \<Longrightarrow> get_indexed_variable env j r' = (v, r')"
    by blast+
qed

text \<open>A code whose variable is settled contributes the same later on.\<close>

definition code_settled :: "script_req \<Rightarrow> val_code \<Rightarrow> bool" where
  "code_settled r c \<longleftrightarrow> (case c of Copy_var i \<Rightarrow> settled r i | _ \<Rightarrow> True)"

lemma val_bytes_later:
  assumes "env_ok env" "code_settled r c" "val_bytes env c r = (b, r)" "val_bytes env d r = (b', r')"
  shows "code_settled r' c" "val_bytes env c r' = (b, r')"
proof -
  note later = val_bytes_settled[OF assms(1,4)] val_bytes_request[OF assms(1,4)]
  show "code_settled r' c" using assms(2) later(1) by (cases c) (auto simp: code_settled_def)
  show "val_bytes env c r' = (b, r')"
  proof (cases c)
    case (Copy_var i)
    then have i: "settled r i" using assms(2) by (simp add: code_settled_def)
    then obtain v where v: "get_indexed_variable env i r = (v, r)" "settled r i"
      using get_indexed_settled[OF i, of env] by blast
    then show ?thesis using later(2)[OF v(2,1)] assms(3) Copy_var by simp
  next
    case (Copy_capture n)
    then show ?thesis using assms(3) later(3) by (auto simp: capture_bytes_def capture_text_def)
  qed (use assms(3) in auto)
qed

lemma vals_bytes_later:
  assumes "env_ok env" "code_settled r c" "val_bytes env c r = (b, r)" "vals_bytes env cs r = (bs, r')"
  shows "code_settled r' c \<and> val_bytes env c r' = (b, r')"
  using assms(2-4)
proof (induction cs arbitrary: r bs)
  case (Cons d cs)
  obtain b' r1 bs' where d: "val_bytes env d r = (b', r1)" "vals_bytes env cs r1 = (bs', r')"
    using Cons.prems(3) by (auto split: prod.splits)
  show ?case
    using Cons.IH[OF val_bytes_later(1)[OF assms(1) Cons.prems(1,2) d(1)]
        val_bytes_later(2)[OF assms(1) Cons.prems(1,2) d(1)] d(2)] .
qed simp

lemma val_bytes_settles:
  assumes "env_ok env" "val_bytes env c r = (b, r')"
  shows "code_settled r' c" "val_bytes env c r' = (b, r')"
proof -
  have "code_settled r' c \<and> val_bytes env c r' = (b, r')"
  proof (cases c)
    case (Copy_var i)
    then obtain v where v: "get_indexed_variable env i r = (v, r')" "b = var_text v"
      using assms(2) by (auto split: prod.splits)
    then obtain v' where "get_indexed_variable env i r' = (v', r')" "var_text v' = var_text v"
      using get_indexed_settles(3)[OF assms(1)] by blast
    then show ?thesis
      using Copy_var v get_indexed_settles(1)[OF assms(1) v(1)] by (simp add: code_settled_def)
  qed (use assms(2) in \<open>auto simp: code_settled_def\<close>)
  then show "code_settled r' c" "val_bytes env c r' = (b, r')" by auto
qed

text \<open>Running the codes twice: the second time every code contributes what it did the first time,
  and the request does not change.\<close>

lemma vals_bytes_twice:
  assumes "env_ok env" "vals_bytes env cs r = (bs, r')"
  shows "vals_bytes env cs r' = (bs, r')"
  using assms(2)
proof (induction cs arbitrary: r bs)
  case (Cons c cs)
  obtain b r1 bs' where c: "val_bytes env c r = (b, r1)" "vals_bytes env cs r1 = (bs', r')" "bs = b @ bs'"
    using Cons.prems by (auto split: prod.splits)
  have "val_bytes env c r' = (b, r')"
    using vals_bytes_later[OF assms(1) val_bytes_settles[OF assms(1) c(1)] c(2)] by blast
  then show ?case using Cons.IH[OF c(2)] c(3) by simp
qed simp


abbreviation plain_lens :: len_engine where
  "plain_lens \<equiv> \<lparr>le_flushed = True, le_quote = False, le_is_args = False\<rparr>"

lemma run_lens_plain:
  assumes env: "env_ok env"
    and "list_all2 code_match ls vs" "list_all plain_code vs" "captures_ok r" "vals_bytes env vs r = (bs, r')"
  shows "run_lens env ls plain_lens r = Some (length bs, plain_lens, r')"
  using assms(2-)
proof (induction ls vs arbitrary: r bs rule: list_all2_induct)
  case (Cons l ls v vs)
  obtain b r1 bs' where c: "val_bytes env v r = (b, r1)" "vals_bytes env vs r1 = (bs', r')" "bs = b @ bs'"
    using Cons.prems(3) by (auto split: prod.splits)
  have "captures_ok r1" using val_bytes_request[OF env c(1)] Cons.prems(2) by (simp add: captures_ok_def)
  then have rec: "run_lens env ls plain_lens r1 = Some (length bs', plain_lens, r')"
    using Cons.IH c(2) Cons.prems(1) by simp
  have "run_len env l plain_lens r = Some (length b, plain_lens, r1)"
  proof (cases v)
    case (Copy x)
    then show ?thesis using Cons.hyps(1) c(1) by (cases l) auto
  next
    case (Copy_var i)
    then have "l = Var_len i" using Cons.hyps(1) by (cases l) auto
    then show ?thesis
      using c(1) Copy_var by (auto simp: script_var_def var_text_def Let_def split: prod.splits option.splits)
  next
    case (Copy_capture n)
    then have "l = Capture_len n" "even n" using Cons.hyps(1) by (cases l; auto)+
    then show ?thesis
      using run_len_capture[OF Cons.prems(2), of n env plain_lens] c(1) Copy_capture
      by (auto simp: escaped_captures_def simp del: run_len.simps)
  qed (use Cons.prems(1) in auto)
  then show ?case using rec c(3) by simp
qed simp

lemma run_vals_plain:
  assumes env: "env_ok env" and "list_all plain_code vs" "captures_ok r" "vals_bytes env vs r = (bs, r')"
    and "flushed e" "\<not> skip e" "\<not> quote e" "\<not> is_args e" "length (out e) + length bs \<le> cap e"
  shows "run_vals env vs e r = Some (e\<lparr>out := out e @ bs\<rparr>, r')"
  using assms(2-)
proof (induction vs arbitrary: r e bs)
  case (Cons v vs)
  obtain b r1 bs' where c: "val_bytes env v r = (b, r1)" "vals_bytes env vs r1 = (bs', r')" "bs = b @ bs'"
    using Cons.prems(3) by (auto split: prod.splits)
  have ok: "captures_ok r1" using val_bytes_request[OF env c(1)] Cons.prems(2) by (simp add: captures_ok_def)
  have emit: "emit b e = Some (e\<lparr>out := out e @ b\<rparr>)" using Cons.prems(8) c(3) by (simp add: emit_def)
  have "run_val env v e r = Some (e\<lparr>out := out e @ b\<rparr>, r1)"
  proof (cases v)
    case (Copy x)
    then show ?thesis using c(1) emit Cons.prems(5) by simp
  next
    case (Copy_var i)
    then show ?thesis
      using c(1) emit Cons.prems(4,5)
      by (auto simp: script_var_def var_text_def Let_def split: prod.splits option.splits if_splits)
  next
    case (Copy_capture n)
    then have "even n" using Cons.prems(1) by simp
    then show ?thesis
      using run_val_capture[OF Cons.prems(2), of n env e] c(1) Copy_capture emit Cons.prems(6-8)
      by (auto simp: escaped_captures_def)
  qed (use Cons.prems(1) in auto)
  then show ?case
    using Cons.IH[of r1 bs' "e\<lparr>out := out e @ b\<rparr>"] ok c(2,3) Cons.prems by simp
qed simp

lemma vals_bytes_captures: "env_ok env \<Longrightarrow> vals_bytes env cs r1 = (b, r2) \<Longrightarrow> captures r2 = captures r1"
  by (induction cs arbitrary: r1 b) (auto dest!: val_bytes_request split: prod.splits)

text \<open>A value of two matching arrays is what its copying codes contribute, whatever the handlers
  answer; the second run stays within the buffer and fills it.\<close>

lemma complex_value_exact:
  assumes "env_ok env" "captures_ok r" "cv_codes cv = Some (ls, vs)"
    and "list_all2 code_match ls vs" "list_all plain_code vs"
    and "vals_bytes env vs (flush_vars (cv_flushes cv) r) = (bs, r')"
  shows "ngx_http_complex_value env cv r = Some (bs, r')"
proof -
  let ?r = "flush_vars (cv_flushes cv) r"
  have req: "captures (flush_vars is r) = captures r" for "is" r
    by (induction "is" r rule: flush_vars.induct) auto
  have ok: "captures_ok ?r" using assms(2) req by (simp add: captures_ok_def)
  have ok': "captures_ok r'" using ok vals_bytes_captures[OF assms(1,6)] by (simp add: captures_ok_def)
  let ?e = "\<lparr>out = [], cap = length bs, args_at = None, flushed = True, skip = False,
             quote = False, is_args = False\<rparr>"
  have "run_vals env vs ?e r' = Some (?e\<lparr>out := bs\<rparr>, r')"
    using run_vals_plain[OF assms(1,5) ok' vals_bytes_twice[OF assms(1,6)], of ?e] by simp
  then show ?thesis
    using run_lens_plain[OF assms(1,4,5) ok assms(6)] assms(3)
    by (simp add: ngx_http_complex_value_def)
qed

text \<open>The same for \<open>ngx_http_script_run\<close>, which leaves the reserved bytes free.\<close>

lemma script_run_exact:
  assumes "env_ok env" "captures_ok r" "list_all2 code_match ls vs" "list_all plain_code vs"
    and "vals_bytes env vs (flush_all r) = (bs, r')"
  shows "ngx_http_script_run env ls k vs r = Some (bs, k + length bs, r')"
proof -
  have ok: "captures_ok (flush_all r)" using assms(2) by (simp add: captures_ok_def flush_all_def)
  have ok': "captures_ok r'" using ok vals_bytes_captures[OF assms(1,5)] by (simp add: captures_ok_def)
  let ?e = "\<lparr>out = [], cap = k + length bs, args_at = None, flushed = True, skip = False,
             quote = False, is_args = False\<rparr>"
  have "run_vals env vs ?e r' = Some (?e\<lparr>out := bs\<rparr>, r')"
    using run_vals_plain[OF assms(1,4) ok' vals_bytes_twice[OF assms(1,5)], of ?e] by simp
  then show ?thesis
    using run_lens_plain[OF assms(1,3,4) ok assms(5)]
    by (simp add: ngx_http_script_run_def)
qed

section \<open>Templates\<close>

text \<open>The strings the compiler is written for: literals, variables with and without braces, and
  captures.\<close>

datatype part = Lit bytes | Var bool bytes | Cap nat

fun part_text :: "part \<Rightarrow> bytes" where
  "part_text (Lit b) = b"
| "part_text (Var True n) = 0x24 # 0x7b # n @ [0x7d]"
| "part_text (Var False n) = 0x24 # n"
| "part_text (Cap k) = [0x24, 0x30 + of_nat k]"

definition template_text :: "part list \<Rightarrow> bytes" where
  "template_text ps = concat (map part_text ps)"

definition is_lit :: "part \<Rightarrow> bool" where
  "is_lit p \<longleftrightarrow> (case p of Lit _ \<Rightarrow> True | _ \<Rightarrow> False)"

text \<open>A literal has no dollar and is not followed by another literal; a variable without braces
  is followed by a byte that cannot belong to its name, and does not look like a capture.\<close>

fun template :: "part list \<Rightarrow> bool" where
  "template [] \<longleftrightarrow> True"
| "template (Lit b # ps) \<longleftrightarrow> b \<noteq> [] \<and> 0x24 \<notin> set b \<and> (ps = [] \<or> \<not> is_lit (hd ps)) \<and> template ps"
| "template (Var br n # ps) \<longleftrightarrow> n \<noteq> [] \<and> (\<forall>c\<in>set n. name_char c) \<and>
     (\<not> br \<longrightarrow> \<not> (0x31 \<le> hd n \<and> hd n \<le> 0x39) \<and>
       (template_text ps = [] \<or> \<not> name_char (hd (template_text ps)))) \<and> template ps"
| "template (Cap k # ps) \<longleftrightarrow> 1 \<le> k \<and> k \<le> 9 \<and> template ps"

text \<open>What a template means in a request: the text with the values in place of the names, the
  variables asked from left to right.\<close>

fun expand :: "script_env \<Rightarrow> bytes list \<Rightarrow> part list \<Rightarrow> script_req \<Rightarrow> bytes \<times> script_req" where
  "expand env ns [] r = ([], r)"
| "expand env ns (Lit b # ps) r = (let (bs, r') = expand env ns ps r in (b @ bs, r'))"
| "expand env ns (Var br n # ps) r =
     (let (v, r1) = get_indexed_variable env (the (name_index n ns)) r;
          (bs, r') = expand env ns ps r1
      in (var_text v @ bs, r'))"
| "expand env ns (Cap k # ps) r =
     (let (bs, r') = expand env ns ps r
      in ((if 2 * k < length (captures r) then capture_text r (2 * k) else []) @ bs, r'))"

text \<open>The codes of a template, given the names known at the end.\<close>

fun part_code :: "bytes list \<Rightarrow> part \<Rightarrow> val_code" where
  "part_code ns (Lit b) = Copy b"
| "part_code ns (Var br n) = Copy_var (the (name_index n ns))"
| "part_code ns (Cap k) = Copy_capture (2 * k)"

lemma plain_part: "plain_code (part_code ns p)"
  by (cases p) auto

lemma expand_codes: "vals_bytes env (map (part_code ns) ps) r = expand env ns ps r"
proof (induction ps arbitrary: r)
  case (Cons p ps)
  then show ?case
    by (cases p) (auto simp: capture_bytes_def Let_def split: prod.splits)
qed simp

lemma name_index_append:
  "name_index n vs = Some i \<Longrightarrow> name_index n (vs @ ws) = Some i"
  by (induction vs arbitrary: i) (auto split: if_splits)

lemma tolower_tolower: "ngx_tolower (ngx_tolower c) = ngx_tolower c"
proof (cases "0x41 \<le> c \<and> c \<le> 0x5a")
  case True
  have "bit (c OR 0x20) 5" by (simp add: bit_simps)
  then have "\<not> c OR 0x20 \<le> 0x5a \<or> \<not> 0x41 \<le> c OR 0x20 \<or> c OR 0x20 OR 0x20 = c OR 0x20" by simp
  then show ?thesis using True by (auto simp: ngx_tolower_def or.assoc)
next
  case False
  then have "ngx_tolower c = c" by (simp only: ngx_tolower_def if_False)
  then show ?thesis by simp
qed

lemma name_index_new:
  "name_index n vs = None \<Longrightarrow> name_index n (vs @ [map ngx_tolower n]) = Some (length vs)"
  by (induction vs) (auto simp: same_name_def tolower_tolower split: if_splits)

lemma get_variable_index_names:
  assumes "get_variable_index n vs = (i, vs')"
  shows "name_index n vs' = Some i" "\<exists>ws. vs' = vs @ ws"
  using assms name_index_new by (auto simp: get_variable_index_def split: option.splits)

lemma compile_template:
  assumes "template ps" "\<not> compile_args sc" "\<not> zero sc" "\<not> conf_prefix sc" "\<not> root_prefix sc"
  shows "\<exists>sc' ws. compile_loop (template_text ps) sc = Inr sc'
           \<and> vals sc' = vals sc @ map (part_code (names sc')) ps \<and> names sc' = names sc @ ws"
  using assms
proof (induction ps arbitrary: sc rule: template.induct)
  case 1
  then show ?case by (auto simp: template_text_def compile_loop_nil script_done_def)
next
  case (2 b ps)
  have lit: "literal_char False c \<longleftrightarrow> c \<noteq> 0x24" for c by (simp add: literal_char_def)
  have next_part: "template_text ps = [] \<or> hd (template_text ps) = 0x24"
  proof (cases ps)
    case (Cons p ps')
    then have "\<not> is_lit p" using 2(2) by simp
    then show ?thesis unfolding Cons template_text_def by (cases p rule: part_text.cases) (auto simp: is_lit_def)
  qed (simp add: template_text_def)
  have tt: "template_text (Lit b # ps) = b @ template_text ps" by (simp add: template_text_def)
  have b: "b \<noteq> []" "\<forall>c\<in>set b. literal_char False c" using 2(2) lit by auto
  have rest: "takeWhile (literal_char False) (template_text ps) = []"
      "dropWhile (literal_char False) (template_text ps) = template_text ps"
    using next_part lit by (cases "template_text ps"; auto)+
  have tw: "takeWhile (literal_char False) (b @ template_text ps) = b"
    "dropWhile (literal_char False) (b @ template_text ps) = template_text ps"
    using b(2) rest by (simp_all add: takeWhile_append2 dropWhile_append2)
  have hd: "literal_char False (hd (b @ template_text ps))" using b by (cases b) auto
  let ?sc = "add_literal b (template_text ps) sc"
  have step: "compile_loop (template_text (Lit b # ps)) sc = compile_loop (template_text ps) ?sc"
    using compile_loop_literal[of "b @ template_text ps" sc] b(1) hd tw 2(3) tt by simp
  have sc: "\<not> compile_args ?sc" "\<not> zero ?sc" "\<not> conf_prefix ?sc" "\<not> root_prefix ?sc"
    "vals ?sc = vals sc @ [Copy b]" "names ?sc = names sc"
    using 2(3-6) by (simp_all add: add_literal_def add_copy_code_def Let_def)
  show ?case using "2.IH"[OF _ sc(1-4)] 2(2) sc(5,6) step by auto
next
  case (3 br n ps)
  let ?sc = "add_var_code n (sc\<lparr>var_count := Suc (var_count sc)\<rparr>)"
  have step: "compile_loop (template_text (Var br n # ps)) sc = compile_loop (template_text ps) ?sc"
  proof (cases br)
    case True
    then have "template_text (Var br n # ps) = 0x24 # 0x7b # (n @ 0x7d # template_text ps)"
      by (simp add: template_text_def)
    then show ?thesis using compile_loop_bracket[OF refl] 3(2) by simp
  next
    case False
    obtain d n' where n: "n = d # n'" using 3(2) by (cases n) auto
    have tt: "template_text (Var br n # ps) = 0x24 # d # (n' @ template_text ps)"
      using False n by (simp add: template_text_def)
    have rest: "takeWhile name_char (template_text ps) = []" "dropWhile name_char (template_text ps) = template_text ps"
      using 3(2) False by (cases "template_text ps"; auto)+
    have tw: "takeWhile name_char (d # (n' @ template_text ps)) = n"
      "dropWhile name_char (d # (n' @ template_text ps)) = template_text ps"
      using 3(2) n rest by (auto simp: takeWhile_append2 dropWhile_append2)
    have "\<not> (0x31 \<le> d \<and> d \<le> 0x39)" "d \<noteq> 0x7b"
      using 3(2) False n by (auto simp: name_char_def)
    then show ?thesis using compile_loop_var[of d "n' @ template_text ps" sc] tw tt n by simp
  qed
  obtain i vs where g: "get_variable_index n (names sc) = (i, vs)" by fastforce
  note names = get_variable_index_names[OF g]
  have sc: "\<not> compile_args ?sc" "\<not> zero ?sc" "\<not> conf_prefix ?sc" "\<not> root_prefix ?sc"
    "vals ?sc = vals sc @ [Copy_var i]" "names ?sc = vs"
    using 3(3-6) g by (simp_all add: add_var_code_def)
  have t: "template ps" using 3(2) by simp
  obtain sc' ws where rec: "compile_loop (template_text ps) ?sc = Inr sc'"
      "vals sc' = vals ?sc @ map (part_code (names sc')) ps" "names sc' = names ?sc @ ws"
    using "3.IH"[OF t sc(1-4)] by blast
  have "name_index n (names sc') = Some i" using names(1) rec(3) sc(6) name_index_append by simp
  then show ?case using rec step sc(5,6) names(2) by auto
next
  case (4 k ps)
  have k: "unat ((0x30 + of_nat k :: u8) - 0x30) = k" "(0x31 :: u8) \<le> 0x30 + of_nat k" "0x30 + of_nat k \<le> (0x39 :: u8)"
  proof -
    have "k \<in> {1, 2, 3, 4, 5, 6, 7, 8, 9}" using 4(2) by auto
    then show "unat ((0x30 + of_nat k :: u8) - 0x30) = k" "(0x31 :: u8) \<le> 0x30 + of_nat k" "0x30 + of_nat k \<le> (0x39 :: u8)"
      by auto
  qed
  let ?sc = "add_capture_code k (mark_capture k sc)"
  have step: "compile_loop (template_text (Cap k # ps)) sc = compile_loop (template_text ps) ?sc"
    using compile_loop_capture[OF k(2,3), of "template_text ps" sc] k(1) by (simp add: template_text_def)
  have sc: "\<not> compile_args ?sc" "\<not> zero ?sc" "\<not> conf_prefix ?sc" "\<not> root_prefix ?sc"
    "vals ?sc = vals sc @ [Copy_capture (2 * k)]" "names ?sc = names sc"
    using 4(3-6) by (simp_all add: add_capture_code_def mark_capture_def)
  show ?case using "4.IH"[OF _ sc(1-4)] 4(2) sc(5,6) step by auto
qed

lemma template_text_nonempty: "template ps \<Longrightarrow> ps \<noteq> [] \<Longrightarrow> template_text ps \<noteq> []"
  by (cases ps rule: template.cases; cases "hd ps" rule: part_text.cases) (auto simp: template_text_def)

text \<open>C25: variables are interpolated exactly.  A template (literals, variables and captures, at least one part)
  compiles, and evaluating the compiled value in a request, whose captures come in pairs, gives the text of the template with the values of its variables and captures in place of
  their names: no byte is written past the buffer whose length the first run computed, none of
  it is left unwritten, and every variable is asked for at most once.  The handlers may answer differently at
  every call and may set other variables that have not been answered yet; the condition (\<open>env_ok\<close>) is that they
  leave the captures of the request and the variables that have been answered alone.  It is not idle: the
  handler of a \<^verbatim>\<open>map\<close> with a regular expression breaks it, and the buffer is overrun
  (\<open>map_captures_overrun\<close>).\<close>

theorem complex_value_expands:
  assumes "env_ok env" "captures_ok r" "template ps" "ps \<noteq> []"
  shows "\<exists>cv ns'. compile_complex_value env False False False ns (template_text ps) = Inr (cv, ns')
           \<and> ngx_http_complex_value env cv r = Some (expand env ns' ps (flush_vars (cv_flushes cv) r))"
proof -
  have ne: "template_text ps \<noteq> []"
    using assms(3,4) template_text_nonempty by blast
  show ?thesis
  proof (cases "0x24 \<in> set (template_text ps)")
    case False
    have "\<exists>b. ps = [Lit b]"
    proof (cases ps rule: template.cases)
      case (2 b qs)
      then have "qs = []"
      proof (cases qs)
        case (Cons q qs')
        then have "\<not> is_lit q" using 2 assms(3) by simp
        then have "0x24 \<in> set (part_text q)" by (cases q rule: part_text.cases) (auto simp: is_lit_def)
        then show ?thesis using False 2 Cons by (simp add: template_text_def)
      qed
      then show ?thesis using 2 by simp
    next
      case (3 br n qs)
      then show ?thesis using False by (cases br) (auto simp: template_text_def)
    next
      case (4 k qs)
      then show ?thesis using False by (simp add: template_text_def)
    qed (use assms(4) in simp)
    then show ?thesis
      using False ne by (auto simp: compile_complex_value_def ngx_http_complex_value_def template_text_def Let_def)
  next
    case True
    let ?sc = "new_compile ns False False False False"
    obtain sc' ws where sc: "compile_loop (template_text ps) ?sc = Inr sc'"
        "vals sc' = map (part_code (names sc')) ps"
      using compile_template[OF assms(3), of ?sc] by (auto simp: new_compile_def)
    have m: "list_all2 code_match (lengths sc') (vals sc')"
      using compile_matched[OF _ sc(1)] by (simp add: matched_def[symmetric])
    have plain: "list_all plain_code (vals sc')"
      unfolding sc(2) by (simp add: list_all_iff plain_part)
    obtain bs r' where b: "vals_bytes env (vals sc') (flush_vars (flushes sc') r) = (bs, r')" by fastforce
    show ?thesis
      using complex_value_exact[OF assms(1,2) _ m plain, of "\<lparr>cv_value = template_text ps, cv_flushes = flushes sc', cv_codes = Some (lengths sc', vals sc')\<rparr>"]
        b sc True ne expand_codes[of env "names sc'" ps "flush_vars (flushes sc') r"]
      by (auto simp: compile_complex_value_def Let_def)
  qed
qed

definition example_env :: script_env where
  "example_env = \<lparr>get_handler = (\<lambda>i r. \<lparr>h_ok = True, h_vars = [(i, \<lparr>v_data = replicate (calls r + 2) 0x61, v_valid = True,
      v_not_found = False, v_no_cacheable = False\<rparr>)], h_captures = None\<rparr>), var_nocacheable = (\<lambda>i. i = 1),
      conf_prefix_dir = [], prefix_dir = []\<rparr>"

definition example_req :: script_req where
  "example_req = \<lparr>variables = replicate 2 \<lparr>v_data = [], v_valid = False, v_not_found = False,
      v_no_cacheable = False\<rparr>, captures = [0, 3, 1, 3], captures_data = str ''abc'',
      quoted_uri = False, plus_in_uri = False, calls = 0\<rparr>"

text \<open>The template \<^verbatim>\<open>x$1-${a}$B\<close>.\<close>

theorem complex_value_expands_witness:
  "\<exists>cv ns'. compile_complex_value example_env False False False [] (str ''x$1-${a}$B'') = Inr (cv, ns')
     \<and> (\<exists>r'. ngx_http_complex_value example_env cv example_req = Some (str ''xbc-aaaaa'', r'))"
proof -
  let ?ps = "[Lit (str ''x''), Cap 1, Lit (str ''-''), Var True (str ''a''), Var False (str ''B'')]"
  have tt: "template_text ?ps = str ''x$1-${a}$B''" by code_simp
  have t: "template ?ps" by code_simp
  have e: "env_ok example_env"
    by (auto simp: env_ok_def example_env_def handler_effect_def settled_def Let_def nth_list_update)
  have c: "captures_ok example_req" by (simp add: captures_ok_def example_req_def)
  obtain cv ns' where v: "compile_complex_value example_env False False False [] (str ''x$1-${a}$B'') = Inr (cv, ns')"
      "ngx_http_complex_value example_env cv example_req = Some (expand example_env ns' ?ps (flush_vars (cv_flushes cv) example_req))"
    using complex_value_expands[OF e c t, of "[]"] tt by auto
  moreover have "compile_complex_value example_env False False False [] (str ''x$1-${a}$B'')
      = Inr (\<lparr>cv_value = str ''x$1-${a}$B'', cv_flushes = [0, 1],
              cv_codes = Some ([Copy_len 1, Capture_len 2, Copy_len 1, Var_len 0, Var_len 1],
                               [Copy (str ''x''), Copy_capture 2, Copy (str ''-''), Copy_var 0, Copy_var 1])\<rparr>,
             [str ''a'', str ''b''])"
    by code_simp
  moreover have "fst (expand example_env [str ''a'', str ''b''] ?ps (flush_vars [0, 1] example_req)) = str ''xbc-aaaaa''"
    by code_simp
  ultimately show ?thesis by (metis (no_types, lifting) Inr_inject prod.collapse prod.inject select_convs)
qed

text \<open>The handler of a \<^verbatim>\<open>map\<close> whose source matches a regular expression: it sets its variable, and the captures of the
  request are those of the match.  In \<^verbatim>\<open>$1$m\<close> the length of \<^verbatim>\<open>$1\<close> is taken before the handler has run, the text
  after it: the text is written past the buffer.\<close>

definition map_env :: script_env where
  "map_env = example_env\<lparr>get_handler := (\<lambda>i r. \<lparr>h_ok = True, h_vars = [(i, \<lparr>v_data = str ''v'', v_valid = True,
      v_not_found = False, v_no_cacheable = False\<rparr>)], h_captures = Some ([0, 5, 0, 5], str ''agent'')\<rparr>)\<rparr>"

lemma map_captures_overrun:
  "case compile_complex_value map_env False False False [] (str ''$1$m'') of
     Inr (cv, _) \<Rightarrow> ngx_http_complex_value map_env cv example_req = None
   | Inl _ \<Rightarrow> False"
  by code_simp

end
