(* ===== verification/HttpRewrite.thy ===== *)
theory HttpRewrite
  imports HttpScript NgxNumber
begin

text \<open>
  The rewrite module: \<^verbatim>\<open>src/http/modules/ngx_http_rewrite_module.c\<close> compiles the directives
  \<^verbatim>\<open>rewrite\<close>, \<^verbatim>\<open>return\<close>, \<^verbatim>\<open>break\<close>, \<^verbatim>\<open>if\<close> and \<^verbatim>\<open>set\<close> of a block to one code array, and the
  remaining codes of \<^verbatim>\<open>src/http/ngx_http_script.c\<close> run it on a stack of values, with conditional
  jumps, buffers and regular expressions.  The codes take from the stack and put on it without
  any check: the compiler alone keeps them within it.

  An address is an index into the list of instructions; \<open>next\<close> of a code is the distance to its
  target, as in the code (where it is in bytes).  The NULL code is \<open>Stop\<close>, and the address
  \<open>ngx_http_script_exit\<close> is \<open>None\<close>.  Regular expressions, the file system, the setters of
  variables and the sending of a response are parameters.
\<close>

section \<open>Instructions\<close>

datatype file_op = F_plain bool | F_dir bool | F_exists bool | F_exec bool

text \<open>What \<open>ngx_open_cached_file\<close> finds at a path.\<close>

record file_kind =
  is_file :: bool
  is_dir :: bool
  is_link :: bool
  is_exec :: bool

text \<open>\<open>ngx_http_script_regex_code_t\<close>.\<close>

record regex_code =
  rx :: nat
  rx_lengths :: "len_code list option"
  rx_size :: nat
  rx_status :: nat
  rx_next :: nat
  rx_test :: bool
  rx_negative :: bool
  rx_uri :: bool
  rx_add_args :: bool
  rx_redirect :: bool
  rx_break :: bool

record regex_end_code =
  re_uri :: bool
  re_args :: bool
  re_add_args :: bool
  re_redirect :: bool

datatype rw_code =
    Val val_code
  | Regex_start regex_code
  | Regex_end regex_end_code
  | Return nat complex_value
  | Break
  | If_code nat "nat option"
  | Equal
  | Not_equal
  | File file_op
  | Complex "len_code list"
  | Push bytes
  | Set_var nat
  | Set_handler nat
  | Load_var nat
  | Nop
  | Stop

section \<open>The engine\<close>

text \<open>A value on the stack: data of its own, or a buffer of the engine and a length; the buffer
  may be still to be written when the value is pushed.\<close>

datatype stack_value = Data bytes | Buffer nat nat

text \<open>\<open>ngx_http_script_engine_t\<close>.  \<open>ve\<close> holds the current buffer (\<open>buf\<close>, \<open>pos\<close>) and the flags,
  \<open>old\<close> the buffers before it; the number of the current one is the length of \<open>old\<close>.  The head
  of \<open>sp\<close> is the value below the stack pointer.\<close>

record rw_engine =
  ip :: "nat option"
  ve :: val_engine
  old :: "bytes list"
  sp :: "stack_value list"
  status :: int

record rw_req =
  sreq :: script_req
  r_uri :: bytes
  r_args :: bytes
  uri_changed :: bool
  internal :: bool
  valid_unparsed_uri :: bool
  valid_location :: bool
  location :: "bytes option"
  loc_conf :: "nat option"

datatype rx_result = Rx_declined | Rx_error | Rx_match "int list"

record rw_env =
  senv :: script_env
  rx_exec :: "nat \<Rightarrow> bytes \<Rightarrow> rx_result"
  rx_names :: "nat \<Rightarrow> (nat \<times> nat) list"
  file_info :: "bytes \<Rightarrow> file_kind option"
  set_handler :: "nat \<Rightarrow> bytes \<Rightarrow> rw_req \<Rightarrow> rw_req"
  send_response :: "nat \<Rightarrow> bytes \<Rightarrow> int"

datatype fault =
    Stack_underflow
  | Stack_overflow
  | Wild_address
  | Bad_variable
  | Buffer_fault

abbreviation NGX_DECLINED_RC :: int where "NGX_DECLINED_RC \<equiv> -5"

text \<open>Reading a value: a buffer with less than the length written would be read
  uninitialised.\<close>

definition stack_bytes :: "rw_engine \<Rightarrow> stack_value \<Rightarrow> bytes option" where
  "stack_bytes e v =
     (case v of
        Data b \<Rightarrow> Some b
      | Buffer i n \<Rightarrow>
          let b = (if i < length (old e) then old e ! i else out (ve e))
          in if n \<le> length b then Some (take n b) else None)"

definition goto :: "nat \<Rightarrow> rw_engine \<Rightarrow> rw_engine" where
  "goto n e = e\<lparr>ip := map_option (\<lambda>i. i + n) (ip e)\<rparr>"

definition script_exit :: "int \<Rightarrow> rw_engine \<Rightarrow> rw_engine" where
  "script_exit st e = e\<lparr>ip := None, status := st\<rparr>"

definition pop :: "rw_engine \<Rightarrow> fault + (bytes \<times> rw_engine)" where
  "pop e =
     (case sp e of
        [] \<Rightarrow> Inl Stack_underflow
      | v # vs \<Rightarrow> (case stack_bytes e v of
                      None \<Rightarrow> Inl Buffer_fault
                    | Some b \<Rightarrow> Inr (b, e\<lparr>sp := vs\<rparr>)))"

definition push :: "nat \<Rightarrow> stack_value \<Rightarrow> rw_engine \<Rightarrow> fault + rw_engine" where
  "push depth v e = (if length (sp e) < depth then Inr (e\<lparr>sp := v # sp e\<rparr>) else Inl Stack_overflow)"

text \<open>A fresh buffer of \<open>n\<close> bytes becomes the current one.\<close>

definition new_buffer :: "nat \<Rightarrow> rw_engine \<Rightarrow> rw_engine" where
  "new_buffer n e = e\<lparr>old := old e @ [out (ve e)], ve := (ve e)\<lparr>out := [], cap := n\<rparr>\<rparr>"

text \<open>\<open>ngx_http_regex_exec\<close> on a match: the captures, and the variables named in the pattern.\<close>

definition captured :: "bytes \<Rightarrow> int list \<Rightarrow> nat \<Rightarrow> bytes" where
  "captured line caps n =
     (if n + 1 < length caps then take (nat (caps ! (n + 1) - caps ! n)) (drop (nat (caps ! n)) line) else [])"

fun name_captures :: "bytes \<Rightarrow> int list \<Rightarrow> (nat \<times> nat) list \<Rightarrow> http_var list \<Rightarrow> http_var list" where
  "name_captures line caps [] vs = vs"
| "name_captures line caps ((n, i) # ns) vs =
     name_captures line caps ns
       (vs[i := \<lparr>v_data = captured line caps n, v_valid = True, v_not_found = False, v_no_cacheable = False\<rparr>])"

definition regex_matched :: "rw_env \<Rightarrow> nat \<Rightarrow> bytes \<Rightarrow> int list \<Rightarrow> rw_req \<Rightarrow> rw_req" where
  "regex_matched env k line caps r =
     r\<lparr>sreq := (sreq r)\<lparr>captures := caps, captures_data := line,
         variables := name_captures line caps (rx_names env k) (variables (sreq r))\<rparr>\<rparr>"

text \<open>The room a replacement without variables needs.\<close>

fun captures_room :: "int list \<Rightarrow> nat" where
  "captures_room (a # b # cs) = nat (b - a) + captures_room cs"
| "captures_room _ = 0"

definition simple_room :: "regex_code \<Rightarrow> rw_req \<Rightarrow> nat" where
  "simple_room c r =
     rx_size c
     + (if rx_uri c \<and> captures (sreq r) \<noteq> [] \<and> (quoted_uri (sreq r) \<or> plus_in_uri (sreq r))
        then 2 * the (escape_uri_count NGX_ESCAPE_ARGS (r_uri r) (length (r_uri r))) else 0)
     + captures_room (drop 2 (captures (sreq r)))"

definition uri_flags :: "regex_code \<Rightarrow> rw_req \<Rightarrow> rw_req" where
  "uri_flags c r =
     (if rx_uri c
      then (let r1 = r\<lparr>internal := True, valid_unparsed_uri := False\<rparr>
            in if rx_break c then r1\<lparr>valid_location := False, uri_changed := False\<rparr>
               else r1\<lparr>uri_changed := True\<rparr>)
      else r)"

definition add_args_room :: "regex_code \<Rightarrow> rw_req \<Rightarrow> nat" where
  "add_args_room c r = (if rx_add_args c \<and> r_args r \<noteq> [] then length (r_args r) + 1 else 0)"

text \<open>\<open>ngx_http_script_regex_start_code\<close>, from the result of the match on.\<close>

definition after_match ::
  "rw_env \<Rightarrow> nat \<Rightarrow> regex_code \<Rightarrow> rw_engine \<Rightarrow> rw_req \<Rightarrow> fault + (rw_engine \<times> rw_req)" where
  "after_match env depth c e r =
     (if rx_test c
      then map_sum id (\<lambda>e'. (goto 1 e', r)) (push depth (Data (if rx_negative c then [] else [0x31])) e)
      else if rx_status c \<noteq> 0 \<and> \<not> rx_redirect c
      then Inr (script_exit (int (rx_status c)) e, r)
      else
        let e1 = (if rx_status c \<noteq> 0 then e\<lparr>status := int (rx_status c)\<rparr> else e);
            r1 = uri_flags c r
        in case rx_lengths c of
             None \<Rightarrow>
               let n = simple_room c r1 + add_args_room c r1;
                   e2 = new_buffer n e1
               in Inr (goto 1 (e2\<lparr>ve := (ve e2)\<lparr>quote := rx_redirect c\<rparr>\<rparr>), r1)
           | Some ls \<Rightarrow>
               (case run_lens (senv env) ls
                       \<lparr>le_flushed = False, le_quote = rx_redirect c, le_is_args = False\<rparr> (sreq r1) of
                  None \<Rightarrow> Inl Buffer_fault
                | Some (n, le, sr) \<Rightarrow>
                    let r2 = r1\<lparr>sreq := sr\<rparr>;
                        e2 = new_buffer (n + add_args_room c r2) e1
                    in Inr (goto 1 (e2\<lparr>ve := (ve e2)\<lparr>is_args := le_is_args le, quote := rx_redirect c\<rparr>\<rparr>), r2)))"

definition regex_start ::
  "rw_env \<Rightarrow> nat \<Rightarrow> regex_code \<Rightarrow> rw_engine \<Rightarrow> rw_req \<Rightarrow> fault + (rw_engine \<times> rw_req)" where
  "regex_start env depth c e r =
     (case (if rx_uri c then Inr (r_uri r, e) else pop e) of
        Inl f \<Rightarrow> Inl f
      | Inr (line, e1) \<Rightarrow>
          (case rx_exec env (rx c) line of
             Rx_declined \<Rightarrow>
               let r1 = r\<lparr>sreq := (sreq r)\<lparr>captures := []\<rparr>\<rparr>
               in if rx_test c
                  then map_sum id (\<lambda>e2. (goto 1 e2, r1)) (push depth (Data (if rx_negative c then [0x31] else [])) e1)
                  else Inr (goto (rx_next c) e1, r1)
           | Rx_error \<Rightarrow> Inr (script_exit 500 e1, r)
           | Rx_match caps \<Rightarrow> after_match env depth c e1 (regex_matched env (rx c) line caps r)))"

text \<open>\<open>ngx_http_script_regex_end_code\<close>.  Unescaping a redirect works in place and never grows the
  text; what it did not read is moved down behind it.\<close>

definition put_bytes :: "bytes \<Rightarrow> rw_engine \<Rightarrow> fault + rw_engine" where
  "put_bytes b e = (case emit b (ve e) of None \<Rightarrow> Inl Buffer_fault | Some v \<Rightarrow> Inr (e\<lparr>ve := v\<rparr>))"

definition redirect_end :: "regex_end_code \<Rightarrow> rw_engine \<Rightarrow> rw_req \<Rightarrow> fault + (rw_engine \<times> rw_req)" where
  "redirect_end c e r =
     (case ngx_unescape_uri (out (ve e)) (length (out (ve e))) 2 of
        None \<Rightarrow> Inl Buffer_fault
      | Some (d, k) \<Rightarrow>
          let e1 = e\<lparr>ve := (ve e)\<lparr>out := d @ drop k (out (ve e))\<rparr>\<rparr>
          in (case (if re_add_args c \<and> r_args r \<noteq> []
                    then put_bytes ((if re_args c then 0x26 else 0x3f) # r_args r) e1 else Inr e1) of
                Inl f \<Rightarrow> Inl f
              | Inr e2 \<Rightarrow> Inr (goto 1 e2, r\<lparr>location := Some (out (ve e2))\<rparr>)))"

definition set_uri :: "regex_end_code \<Rightarrow> bytes \<Rightarrow> rw_engine \<Rightarrow> rw_req \<Rightarrow> fault + (rw_engine \<times> rw_req)" where
  "set_uri c b e r =
     (if re_uri c
      then (if b = [] then Inr (script_exit 500 e, r\<lparr>r_uri := b\<rparr>) else Inr (goto 1 e, r\<lparr>r_uri := b\<rparr>))
      else Inr (goto 1 e, r))"

definition regex_end :: "regex_end_code \<Rightarrow> rw_engine \<Rightarrow> rw_req \<Rightarrow> fault + (rw_engine \<times> rw_req)" where
  "regex_end c e0 r =
     (let e = e0\<lparr>ve := (ve e0)\<lparr>quote := False\<rparr>\<rparr> in
      if re_redirect c then redirect_end c e r
      else case args_at (ve e) of
             Some a \<Rightarrow>
               (case (if re_add_args c \<and> r_args r \<noteq> [] then put_bytes (0x26 # r_args r) e else Inr e) of
                  Inl f \<Rightarrow> Inl f
                | Inr e1 \<Rightarrow>
                    set_uri c (take a (out (ve e1))) (e1\<lparr>ve := (ve e1)\<lparr>args_at := None\<rparr>\<rparr>)
                      (r\<lparr>r_args := drop a (out (ve e1))\<rparr>))
           | None \<Rightarrow>
               set_uri c (out (ve e)) e (if re_add_args c then r else r\<lparr>r_args := []\<rparr>))"

text \<open>The other codes.\<close>

definition true_value :: bytes where "true_value = [0x31]"

text \<open>\<open>ngx_strncmp\<close> on two strings of one length stops at a NUL byte.\<close>

definition same_text :: "bytes \<Rightarrow> bytes \<Rightarrow> bool" where
  "same_text a b \<longleftrightarrow> length a = length b \<and> takeWhile (\<lambda>c. c \<noteq> 0) a = takeWhile (\<lambda>c. c \<noteq> 0) b"

definition compare_code :: "bool \<Rightarrow> rw_engine \<Rightarrow> rw_req \<Rightarrow> fault + (rw_engine \<times> rw_req)" where
  "compare_code eq e r =
     (case pop e of
        Inl f \<Rightarrow> Inl f
      | Inr (v, e1) \<Rightarrow>
          (case pop e1 of
             Inl f \<Rightarrow> Inl f
           | Inr (res, e2) \<Rightarrow>
               Inr (goto 1 (e2\<lparr>sp := Data (if same_text v res = eq then true_value else []) # sp e2\<rparr>), r)))"

fun file_test :: "file_op \<Rightarrow> file_kind option \<Rightarrow> bool" where
  "file_test (F_plain pos) k = (case k of None \<Rightarrow> \<not> pos | Some f \<Rightarrow> is_file f = pos)"
| "file_test (F_dir pos) k = (case k of None \<Rightarrow> \<not> pos | Some f \<Rightarrow> is_dir f = pos)"
| "file_test (F_exists pos) k = (case k of None \<Rightarrow> \<not> pos | Some f \<Rightarrow> (is_file f \<or> is_dir f \<or> is_link f) = pos)"
| "file_test (F_exec pos) k = (case k of None \<Rightarrow> \<not> pos | Some f \<Rightarrow> is_exec f = pos)"

text \<open>The path of a file test ends in a NUL byte that is not part of it.\<close>

definition file_code :: "rw_env \<Rightarrow> file_op \<Rightarrow> rw_engine \<Rightarrow> rw_req \<Rightarrow> fault + (rw_engine \<times> rw_req)" where
  "file_code env op e r =
     (case pop e of
        Inl f \<Rightarrow> Inl f
      | Inr (v, e1) \<Rightarrow>
          if v = [] then Inl Buffer_fault
          else Inr (goto 1 (e1\<lparr>sp := Data (if file_test op (file_info env (butlast v)) then true_value else []) # sp e1\<rparr>), r))"

definition if_code :: "nat \<Rightarrow> nat option \<Rightarrow> rw_engine \<Rightarrow> rw_req \<Rightarrow> fault + (rw_engine \<times> rw_req)" where
  "if_code nxt loc e r =
     (case pop e of
        Inl f \<Rightarrow> Inl f
      | Inr (v, e1) \<Rightarrow>
          if v \<noteq> [] \<and> v \<noteq> [0x30]
          then Inr (goto 1 e1, case loc of None \<Rightarrow> r | Some l \<Rightarrow> r\<lparr>loc_conf := Some l\<rparr>)
          else Inr (goto nxt e1, r))"

definition complex_code :: "rw_env \<Rightarrow> nat \<Rightarrow> len_code list \<Rightarrow> rw_engine \<Rightarrow> rw_req \<Rightarrow> fault + (rw_engine \<times> rw_req)" where
  "complex_code env depth ls e r =
     (case run_lens (senv env) ls
             \<lparr>le_flushed = False, le_quote = quote (ve e), le_is_args = False\<rparr> (sreq r) of
        None \<Rightarrow> Inl Buffer_fault
      | Some (n, _, sr) \<Rightarrow>
          let e1 = new_buffer n e
          in map_sum id (\<lambda>e2. (goto 1 e2, r\<lparr>sreq := sr\<rparr>)) (push depth (Buffer (length (old e1)) n) e1))"

definition return_code :: "rw_env \<Rightarrow> nat \<Rightarrow> complex_value \<Rightarrow> rw_engine \<Rightarrow> rw_req \<Rightarrow> fault + (rw_engine \<times> rw_req)" where
  "return_code env st cv e r =
     (if st < 400 \<or> cv_value cv \<noteq> [] \<or> cv_codes cv \<noteq> None
      then (case ngx_http_complex_value (senv env) cv (sreq r) of
              None \<Rightarrow> Inl Buffer_fault
            | Some (b, sr) \<Rightarrow> Inr (script_exit (send_response env st b) e, r\<lparr>sreq := sr\<rparr>))
      else Inr (script_exit (int st) e, r))"

definition copy_step :: "rw_env \<Rightarrow> val_code \<Rightarrow> rw_engine \<Rightarrow> rw_req \<Rightarrow> fault + (rw_engine \<times> rw_req)" where
  "copy_step env c e r =
     (case run_val (senv env) c (ve e) (sreq r) of
        None \<Rightarrow> Inl Buffer_fault
      | Some (v, sr) \<Rightarrow> Inr (goto 1 (e\<lparr>ve := v\<rparr>), r\<lparr>sreq := sr\<rparr>))"

definition set_var_code :: "nat \<Rightarrow> rw_engine \<Rightarrow> rw_req \<Rightarrow> fault + (rw_engine \<times> rw_req)" where
  "set_var_code i e r =
     (case pop e of
        Inl f \<Rightarrow> Inl f
      | Inr (b, e1) \<Rightarrow>
          if i < length (variables (sreq r))
          then Inr (goto 1 e1, r\<lparr>sreq := (sreq r)\<lparr>variables := (variables (sreq r))
                 [i := \<lparr>v_data = b, v_valid = True, v_not_found = False, v_no_cacheable = False\<rparr>]\<rparr>\<rparr>)
          else Inl Bad_variable)"

definition load_var_code :: "rw_env \<Rightarrow> nat \<Rightarrow> nat \<Rightarrow> rw_engine \<Rightarrow> rw_req \<Rightarrow> fault + (rw_engine \<times> rw_req)" where
  "load_var_code env depth i e r =
     (let (v, sr) = get_flushed_variable (senv env) i (sreq r)
      in map_sum id (\<lambda>e1. (goto 1 e1, r\<lparr>sreq := sr\<rparr>)) (push depth (Data (var_text v)) e))"

fun rw_step :: "rw_env \<Rightarrow> nat \<Rightarrow> rw_code \<Rightarrow> rw_engine \<Rightarrow> rw_req \<Rightarrow> fault + (rw_engine \<times> rw_req)" where
  "rw_step env depth (Val c) e r = copy_step env c e r"
| "rw_step env depth (Regex_start c) e r = regex_start env depth c e r"
| "rw_step env depth (Regex_end c) e r = regex_end c e r"
| "rw_step env depth (Return st cv) e r = return_code env st cv e r"
| "rw_step env depth Break e r = Inr (e\<lparr>ip := None\<rparr>, r\<lparr>uri_changed := False\<rparr>)"
| "rw_step env depth (If_code nxt loc) e r = if_code nxt loc e r"
| "rw_step env depth Equal e r = compare_code True e r"
| "rw_step env depth Not_equal e r = compare_code False e r"
| "rw_step env depth (File op) e r = file_code env op e r"
| "rw_step env depth (Complex ls) e r = complex_code env depth ls e r"
| "rw_step env depth (Push b) e r = map_sum id (\<lambda>e1. (goto 1 e1, r)) (push depth (Data b) e)"
| "rw_step env depth (Set_var i) e r = set_var_code i e r"
| "rw_step env depth (Set_handler k) e r =
     (case pop e of Inl f \<Rightarrow> Inl f | Inr (b, e1) \<Rightarrow> Inr (goto 1 e1, set_handler env k b r))"
| "rw_step env depth (Load_var i) e r = load_var_code env depth i e r"
| "rw_step env depth Nop e r = Inr (goto 1 e, r)"
| "rw_step env depth Stop e r = Inr (e, r)"

text \<open>The loop of \<open>ngx_http_rewrite_handler\<close>: until the NULL code.  The fuel bounds the number of
  codes run; the theorem below gives one that is always enough.\<close>

datatype rw_result = Done rw_engine rw_req | Fault fault | Out_of_fuel

fun rw_run :: "nat \<Rightarrow> rw_env \<Rightarrow> nat \<Rightarrow> rw_code list \<Rightarrow> rw_engine \<Rightarrow> rw_req \<Rightarrow> rw_result" where
  "rw_run fuel env depth prog e r =
     (case ip e of
        None \<Rightarrow> Done e r
      | Some i \<Rightarrow>
          if i \<ge> length prog then Fault Wild_address
          else if prog ! i = Stop then Done e r
          else (case fuel of
                  0 \<Rightarrow> Out_of_fuel
                | Suc n \<Rightarrow>
                    (case rw_step env depth (prog ! i) e r of
                       Inl f \<Rightarrow> Fault f
                     | Inr (e', r') \<Rightarrow> rw_run n env depth prog e' r')))"

declare rw_run.simps [simp del]

text \<open>The engine the handler starts with.\<close>

definition rw_start :: rw_engine where
  "rw_start = \<lparr>ip = Some 0,
     ve = \<lparr>out = [], cap = 0, args_at = None, flushed = False, skip = False, quote = True, is_args = False\<rparr>,
     old = [], sp = [], status = NGX_DECLINED_RC\<rparr>"

text \<open>\<open>ngx_http_rewrite_handler\<close>: the answer of the phase; \<open>err_status\<close> is that of the request.  The phase of
  the location is skipped in the configuration of the server itself; the engine and its stack are
  allocated.\<close>

record rewrite_phase =
  phase_handler :: nat
  location_rewrite_index :: nat
  server_loc_conf :: "nat option"    \<comment> \<open>\<^verbatim>\<open>cscf->ctx->loc_conf\<close>\<close>
  engine_allocated :: bool
  stack_allocated :: bool

definition rewrite_handler ::
  "rewrite_phase \<Rightarrow> nat \<Rightarrow> rw_env \<Rightarrow> nat \<Rightarrow> rw_code list option \<Rightarrow> int \<Rightarrow> rw_req \<Rightarrow> fault + (int \<times> rw_req) option"
where
  "rewrite_handler ph fuel env depth codes err_status r =
     (if phase_handler ph = location_rewrite_index ph \<and> loc_conf r = server_loc_conf ph
      then Inr (Some (NGX_DECLINED_RC, r))
      else (case codes of
        None \<Rightarrow> Inr (Some (NGX_DECLINED_RC, r))
      | Some prog \<Rightarrow>
          if \<not> engine_allocated ph \<or> \<not> stack_allocated ph then Inr (Some (500, r))
          else (case rw_run fuel env depth prog rw_start r of
             Fault f \<Rightarrow> Inl f
           | Out_of_fuel \<Rightarrow> Inr None
           | Done e r' \<Rightarrow>
               Inr (Some (if status e < 400 then status e
                          else if err_status = 0 then status e else err_status, r')))))"

section \<open>The compiler of the directives\<close>

text \<open>The words of the directives are the values of \<^verbatim>\<open>cf->args\<close> without the name of the
  directive; they hold no NUL byte.  \<open>Reads_before_text\<close> is no message of the code: the check
  for a question mark at the end of an empty replacement reads the byte before it.

  What the configuration provides: regular expressions with the names they capture, which
  variables may be set, and the setters of some of them.\<close>

record rw_conf =
  regex_compile :: "bytes \<Rightarrow> bool \<Rightarrow> (nat \<times> bytes list) option"
  changeable :: "bytes \<Rightarrow> bool"
  setter :: "bytes \<Rightarrow> nat option"
  cenv :: script_env

datatype rw_error =
    Script_error compile_error | Bad_regex | Invalid_parameter | Invalid_return_code
  | Invalid_condition | Unexpected_operator | Invalid_name | Reads_before_text

definition starts :: "string \<Rightarrow> bytes \<Rightarrow> bool" where
  "starts s b \<longleftrightarrow> take (length s) b = str s"

definition redirect_target :: "bytes \<Rightarrow> bool" where
  "redirect_target b \<longleftrightarrow> starts ''http://'' b \<or> starts ''https://'' b \<or> starts ''$scheme'' b"

fun add_names :: "bytes list \<Rightarrow> bytes list \<Rightarrow> bytes list" where
  "add_names [] ns = ns"
| "add_names (n # rest) ns = add_names rest (snd (get_variable_index n ns))"

text \<open>The flag of a \<^verbatim>\<open>rewrite\<close>: the status, whether the URI is redirected, \<open>break_cycle\<close>, \<open>last\<close>.\<close>

definition rewrite_flag :: "bytes \<Rightarrow> nat \<times> bool \<times> bool \<times> bool \<Rightarrow> (nat \<times> bool \<times> bool \<times> bool) option" where
  "rewrite_flag f d =
     (case d of (st, redir, brk, lst) \<Rightarrow>
        if f = str ''last'' then Some (st, redir, brk, True)
        else if f = str ''break'' then Some (st, redir, True, True)
        else if f = str ''redirect'' then Some (302, True, brk, True)
        else if f = str ''permanent'' then Some (301, True, brk, True)
        else None)"

text \<open>\<open>ngx_http_rewrite\<close>, from the flags on.  A question mark at the end of the replacement drops
  the arguments of the request.\<close>

definition rewrite_codes ::
  "nat \<Rightarrow> bool \<Rightarrow> bytes list \<Rightarrow> bytes \<Rightarrow> nat \<times> bool \<times> bool \<times> bool \<Rightarrow> rw_error + (rw_code list \<times> bytes list)"
where
  "rewrite_codes k keep ns repl flags =
     (case flags of (st, redir, brk, lst) \<Rightarrow>
        case compile_loop repl (new_compile ns (\<not> redir) False False False) of
          Inl err \<Rightarrow> Inl (Script_error err)
        | Inr sc \<Rightarrow>
            let tail = map Val (vals sc)
                  @ [Regex_end \<lparr>re_uri = True, re_args = has_args sc, re_add_args = keep, re_redirect = redir\<rparr>]
                  @ (if lst then [Stop] else [])
            in Inr (Regex_start
                      \<lparr>rx = k,
                       rx_lengths = (if var_count sc = 0 \<and> \<not> dup_capture sc then None else Some (lengths sc)),
                       rx_size = lit_size sc, rx_status = st, rx_next = Suc (length tail),
                       rx_test = False, rx_negative = False, rx_uri = True, rx_add_args = keep,
                       rx_redirect = redir, rx_break = brk\<rparr> # tail,
                    names sc))"

definition ngx_http_rewrite :: "rw_conf \<Rightarrow> bytes list \<Rightarrow> bytes \<Rightarrow> bytes \<Rightarrow> bytes option \<Rightarrow> rw_error + (rw_code list \<times> bytes list)"
where
  "ngx_http_rewrite cf ns pat repl flag =
     (case regex_compile cf pat False of
        None \<Rightarrow> Inl Bad_regex
      | Some (k, caps) \<Rightarrow>
          if repl = [] then Inl Reads_before_text
          else
          let ns1 = add_names caps ns;
              drops = (last repl = 0x3f);
              repl1 = (if drops then butlast repl else repl);
              base = (if redirect_target repl then (302, True, False, True) else (0, False, False, False))
          in (case (case flag of None \<Rightarrow> Some base | Some f \<Rightarrow> rewrite_flag f base) of
                None \<Rightarrow> Inl Invalid_parameter
              | Some flags \<Rightarrow> rewrite_codes k (\<not> drops) ns1 repl1 flags))"

text \<open>\<open>ngx_http_rewrite_return\<close>.\<close>

definition no_text :: complex_value where
  "no_text = \<lparr>cv_value = [], cv_flushes = [], cv_codes = None\<rparr>"

definition return_text ::
  "rw_conf \<Rightarrow> bytes list \<Rightarrow> nat \<Rightarrow> bytes \<Rightarrow> rw_error + (rw_code list \<times> bytes list)" where
  "return_text cf ns st v =
     (case compile_complex_value (cenv cf) False False False ns v of
        Inl err \<Rightarrow> Inl (Script_error err)
      | Inr (cv, ns') \<Rightarrow> Inr ([Return st cv], ns'))"

definition return_status :: "bytes \<Rightarrow> nat option" where
  "return_status v =
     (case ngx_atoi v (length v) of
        Some n \<Rightarrow> if n = -1 then None else Some (nat n)
      | None \<Rightarrow> None)"

definition rewrite_return ::
  "rw_conf \<Rightarrow> bytes list \<Rightarrow> bytes \<Rightarrow> bytes option \<Rightarrow> rw_error + (rw_code list \<times> bytes list)" where
  "rewrite_return cf ns v1 v2 =
     (case return_status v1 of
        Some n \<Rightarrow>
          (case v2 of
             None \<Rightarrow> Inr ([Return n no_text], ns)
           | Some v \<Rightarrow> return_text cf ns n v)
      | None \<Rightarrow>
          if v2 = None \<and> redirect_target v1 then return_text cf ns 302 v1 else Inl Invalid_return_code)"

text \<open>\<open>ngx_http_rewrite_value\<close>: a constant, or a complex value.\<close>

definition rewrite_value :: "bytes list \<Rightarrow> bytes \<Rightarrow> rw_error + (rw_code list \<times> bytes list)" where
  "rewrite_value ns v =
     (if 0x24 \<notin> set v then Inr ([Push v], ns)
      else case compile_loop v (new_compile ns False False False False) of
             Inl err \<Rightarrow> Inl (Script_error err)
           | Inr sc \<Rightarrow> Inr (Complex (lengths sc) # map Val (vals sc), names sc))"

text \<open>\<open>ngx_http_rewrite_set\<close>.\<close>

definition rewrite_set :: "rw_conf \<Rightarrow> bytes list \<Rightarrow> bytes \<Rightarrow> bytes \<Rightarrow> rw_error + (rw_code list \<times> bytes list)" where
  "rewrite_set cf ns v1 v2 =
     (if v1 = [] \<or> hd v1 \<noteq> 0x24 \<or> \<not> changeable cf (tl v1) then Inl Invalid_name
      else let (i, ns1) = get_variable_index (tl v1) ns in
        (case rewrite_value ns1 v2 of
           Inl err \<Rightarrow> Inl err
         | Inr (cs, ns2) \<Rightarrow>
             Inr (cs @ [case setter cf (tl v1) of Some k \<Rightarrow> Set_handler k | None \<Rightarrow> Set_var i], ns2)))"

text \<open>\<open>ngx_http_rewrite_if_condition\<close>: the parentheses are taken off the first and the last
  word.\<close>

definition strip_parens :: "bytes list \<Rightarrow> bytes list option" where
  "strip_parens vs =
     (if vs = [] \<or> hd vs = [] \<or> hd (hd vs) \<noteq> 0x28 then None
      else let ws = (if tl (hd vs) = [] then tl vs else tl (hd vs) # tl vs) in
        if ws = [] \<or> last ws = [] \<or> last (last ws) \<noteq> 0x29 then None
        else Some (if butlast (last ws) = [] then butlast ws else butlast ws @ [butlast (last ws)]))"

definition regex_test :: "rw_conf \<Rightarrow> bytes list \<Rightarrow> bytes \<Rightarrow> bytes \<Rightarrow> rw_error + (rw_code list \<times> bytes list)" where
  "regex_test cf ns op pat =
     (case regex_compile cf pat (last op = 0x2a) of
        None \<Rightarrow> Inl Bad_regex
      | Some (k, caps) \<Rightarrow>
          Inr ([Regex_start
                  \<lparr>rx = k, rx_lengths = None, rx_size = 0, rx_status = 0, rx_next = 1, rx_test = True,
                   rx_negative = (hd op = 0x21), rx_uri = False, rx_add_args = False,
                   rx_redirect = False, rx_break = False\<rparr>],
               add_names caps ns))"

definition file_op_of :: "bytes \<Rightarrow> file_op option" where
  "file_op_of p =
     (if p = str ''-f'' then Some (F_plain True) else if p = str ''-d'' then Some (F_dir True)
      else if p = str ''-e'' then Some (F_exists True) else if p = str ''-x'' then Some (F_exec True)
      else if p = str ''!-f'' then Some (F_plain False) else if p = str ''!-d'' then Some (F_dir False)
      else if p = str ''!-e'' then Some (F_exists False) else if p = str ''!-x'' then Some (F_exec False)
      else None)"

definition compare_words ::
  "rw_conf \<Rightarrow> bytes list \<Rightarrow> bytes \<Rightarrow> bytes \<Rightarrow> rw_error + (rw_code list \<times> bytes list)" where
  "compare_words cf ns op v =
     (if op = str ''='' \<or> op = str ''!=''
      then (case rewrite_value ns v of
              Inl err \<Rightarrow> Inl err
            | Inr (cs, ns') \<Rightarrow> Inr (cs @ [if op = str ''='' then Equal else Not_equal], ns'))
      else if op \<in> {str ''~'', str ''~*'', str ''!~'', str ''!~*''} then regex_test cf ns op v
      else Inl Unexpected_operator)"

definition if_condition :: "rw_conf \<Rightarrow> bytes list \<Rightarrow> bytes list \<Rightarrow> rw_error + (rw_code list \<times> bytes list)" where
  "if_condition cf ns vs =
     (case strip_parens vs of
        None \<Rightarrow> Inl Invalid_condition
      | Some [] \<Rightarrow> Inl Invalid_condition
      | Some (p # rest) \<Rightarrow>
          if length p > 1 \<and> hd p = 0x24
          then (if length rest \<noteq> 0 \<and> length rest \<noteq> 2 then Inl Invalid_condition
                else let (i, ns1) = get_variable_index (tl p) ns in
                  if rest = [] then Inr ([Load_var i], ns1)
                  else (case compare_words cf ns1 (rest ! 0) (rest ! 1) of
                          Inl err \<Rightarrow> Inl err
                        | Inr (cs, ns2) \<Rightarrow> Inr (Load_var i # cs, ns2)))
          else if length p = 2 \<and> hd p = 0x2d \<or> length p = 3 \<and> hd p = 0x21 \<and> p ! 1 = 0x2d
          then (if length rest \<noteq> 1 then Inl Invalid_condition
                else (case rewrite_value ns (rest ! 0 @ [0]) of
                        Inl err \<Rightarrow> Inl err
                      | Inr (cs, ns1) \<Rightarrow>
                          (case file_op_of p of
                             None \<Rightarrow> Inl Invalid_condition
                           | Some op \<Rightarrow> Inr (cs @ [File op], ns1))))
          else Inl Invalid_condition)"

text \<open>A block of directives, as the configuration parser reads them; \<open>If_d\<close> has the words of the
  condition, the location configuration of the block (\<open>None\<close> at the level of the server) and
  the directives inside, which are compiled to the same array.\<close>

datatype directive =
    Rewrite_d bytes bytes "bytes option"
  | Return_d bytes "bytes option"
  | Break_d
  | Set_d bytes bytes
  | If_d "bytes list" "nat option" "directive list"

fun compile_directive :: "rw_conf \<Rightarrow> bytes list \<Rightarrow> directive \<Rightarrow> rw_error + (rw_code list \<times> bytes list)"
and compile_directives :: "rw_conf \<Rightarrow> bytes list \<Rightarrow> directive list \<Rightarrow> rw_error + (rw_code list \<times> bytes list)"
where
  "compile_directive cf ns (Rewrite_d pat repl flag) = ngx_http_rewrite cf ns pat repl flag"
| "compile_directive cf ns (Return_d v1 v2) = rewrite_return cf ns v1 v2"
| "compile_directive cf ns Break_d = Inr ([Break], ns)"
| "compile_directive cf ns (Set_d v1 v2) = rewrite_set cf ns v1 v2"
| "compile_directive cf ns (If_d vs loc ds) =
     (case if_condition cf ns vs of
        Inl err \<Rightarrow> Inl err
      | Inr (cs, ns1) \<Rightarrow>
          (case compile_directives cf ns1 ds of
             Inl err \<Rightarrow> Inl err
           | Inr (body, ns2) \<Rightarrow> Inr (cs @ If_code (Suc (length body)) loc # body, ns2)))"
| "compile_directives cf ns [] = Inr ([], ns)"
| "compile_directives cf ns (d # ds) =
     (case compile_directive cf ns d of
        Inl err \<Rightarrow> Inl err
      | Inr (cs, ns1) \<Rightarrow>
          (case compile_directives cf ns1 ds of
             Inl err \<Rightarrow> Inl err
           | Inr (rest, ns2) \<Rightarrow> Inr (cs @ rest, ns2)))"

text \<open>The array of a block: \<open>ngx_http_rewrite_merge_loc_conf\<close> ends it with the NULL code.\<close>

definition compile_block :: "rw_conf \<Rightarrow> bytes list \<Rightarrow> directive list \<Rightarrow> rw_error + (rw_code list \<times> bytes list)" where
  "compile_block cf ns ds = map_sum id (\<lambda>(cs, ns'). (cs @ [Stop], ns')) (compile_directives cf ns ds)"

end
