(* ===== verification/HttpRewriteTypes.thy ===== *)
theory HttpRewriteTypes
  imports HttpRewrite
begin

text \<open>
  The stack discipline of the rewrite module.  The codes of \<^verbatim>\<open>src/http/ngx_http_script.c\<close> pop and
  push without a check, and jump by the distances the compiler wrote into them; a small type
  system gives a stack height to every address, the compiler is shown to produce typed code and
  typed code to run to its end.
\<close>

section \<open>Heights of the stack\<close>

text \<open>What a code takes from the stack, what it leaves, and where else it goes.\<close>

definition need :: "rw_code \<Rightarrow> nat" where
  "need c =
     (case c of
        Regex_start g \<Rightarrow> if rx_uri g then 0 else 1
      | If_code _ _ \<Rightarrow> 1 | Equal \<Rightarrow> 2 | Not_equal \<Rightarrow> 2 | File _ \<Rightarrow> 1
      | Set_var _ \<Rightarrow> 1 | Set_handler _ \<Rightarrow> 1 | _ \<Rightarrow> 0)"

definition gives :: "rw_code \<Rightarrow> nat" where
  "gives c =
     (case c of
        Regex_start g \<Rightarrow> if rx_test g then 1 else 0
      | Equal \<Rightarrow> 1 | Not_equal \<Rightarrow> 1 | File _ \<Rightarrow> 1
      | Complex _ \<Rightarrow> 1 | Push _ \<Rightarrow> 1 | Load_var _ \<Rightarrow> 1 | _ \<Rightarrow> 0)"

definition jump :: "rw_code \<Rightarrow> nat option" where
  "jump c =
     (case c of
        Regex_start g \<Rightarrow> if rx_test g then None else Some (rx_next g)
      | If_code n _ \<Rightarrow> Some n | _ \<Rightarrow> None)"

definition var_ok :: "nat \<Rightarrow> rw_code \<Rightarrow> bool" where
  "var_ok nv c \<longleftrightarrow> (case c of Set_var i \<Rightarrow> i < nv | _ \<Rightarrow> True)"

text \<open>A code array is typed from \<open>a\<close> to \<open>b\<close> when heights of the stack can be given to its addresses,
  \<open>a\<close> to the first and \<open>b\<close> to the one behind it, that every code respects.\<close>

definition code_ok :: "nat \<Rightarrow> (nat \<Rightarrow> nat) \<Rightarrow> nat \<Rightarrow> nat \<Rightarrow> rw_code \<Rightarrow> bool" where
  "code_ok nv h n i c \<longleftrightarrow>
     need c \<le> h i \<and> h (Suc i) = h i - need c + gives c \<and> h (Suc i) \<le> 2 \<and> var_ok nv c
     \<and> (\<forall>d. jump c = Some d \<longrightarrow> 0 < d \<and> i + d \<le> n \<and> h (i + d) = h (Suc i))"

definition typed :: "nat \<Rightarrow> nat \<Rightarrow> rw_code list \<Rightarrow> nat \<Rightarrow> bool" where
  "typed nv a cs b \<longleftrightarrow>
     (\<exists>h. h 0 = a \<and> h (length cs) = b \<and> (\<forall>i<length cs. code_ok nv h (length cs) i (cs ! i)))"

lemma typed_nil [simp]: "typed nv a [] b \<longleftrightarrow> a = b"
  by (auto simp: typed_def intro: exI[of _ "\<lambda>_. b"])

lemma typed_append:
  assumes "typed nv a cs b" "typed nv b ds c"
  shows "typed nv a (cs @ ds) c"
proof -
  obtain h g where h: "h 0 = a" "h (length cs) = b" "\<And>i. i < length cs \<Longrightarrow> code_ok nv h (length cs) i (cs ! i)"
    and g: "g 0 = b" "g (length ds) = c" "\<And>i. i < length ds \<Longrightarrow> code_ok nv g (length ds) i (ds ! i)"
    using assms by (auto simp: typed_def)
  define k where "k i = (if i \<le> length cs then h i else g (i - length cs))" for i
  have k2: "k (length cs + i) = g i" for i using h(2) g(1) by (auto simp: k_def)
  have "code_ok nv k (length cs + length ds) i ((cs @ ds) ! i)" if i: "i < length cs + length ds" for i
  proof (cases "i < length cs")
    case True
    have "code_ok nv h (length cs) i (cs ! i)" using h(3) True .
    then show ?thesis using True by (auto simp: code_ok_def k_def nth_append)
  next
    case False
    then obtain j where j: "i = length cs + j" by (metis le_add_diff_inverse not_less)
    have "code_ok nv g (length ds) j (ds ! j)" using g(3) i j by simp
    moreover have "k (Suc (length cs + j)) = g (Suc j)" "\<And>d. k (length cs + j + d) = g (j + d)"
      using k2[of "Suc j"] k2[of "j + d" for d] by (simp_all add: add.assoc)
    ultimately show ?thesis using j k2 by (auto simp: code_ok_def nth_append add.assoc)
  qed
  then show ?thesis using h(1) g(2) k2[of "length ds"] by (auto simp: typed_def k_def intro!: exI[of _ k])
qed

text \<open>One code, with a jump over the code behind it.\<close>

lemma typed_single:
  assumes "need c \<le> a" "b = a - need c + gives c" "b \<le> 2" "var_ok nv c"
    "\<And>d. jump c = Some d \<Longrightarrow> d = 1"
  shows "typed nv a [c] b"
  unfolding typed_def
  by (rule exI[of _ "\<lambda>i. if i = 0 then a else b"]) (use assms in \<open>auto simp: code_ok_def\<close>)

lemma typed_jump:
  assumes "typed nv b cs b" "need c \<le> a" "b = a - need c + gives c" "b \<le> 2" "var_ok nv c"
    "\<And>d. jump c = Some d \<Longrightarrow> d = Suc (length cs)"
  shows "typed nv a (c # cs) b"
proof -
  obtain h where h: "h 0 = b" "h (length cs) = b" "\<And>i. i < length cs \<Longrightarrow> code_ok nv h (length cs) i (cs ! i)"
    using assms(1) by (auto simp: typed_def)
  define k where "k i = (case i of 0 \<Rightarrow> a | Suc j \<Rightarrow> h j)" for i
  have "code_ok nv k (Suc (length cs)) i ((c # cs) ! i)" if i: "i < Suc (length cs)" for i
  proof (cases i)
    case 0
    then show ?thesis using assms(2-6) h(1,2) by (auto simp: code_ok_def k_def)
  next
    case (Suc j)
    have "code_ok nv h (length cs) j (cs ! j)" using h(3) i Suc by simp
    then show ?thesis using Suc by (auto simp: code_ok_def k_def)
  qed
  then show ?thesis using h(2) by (auto simp: typed_def k_def intro!: exI[of _ k])
qed

lemma var_ok_mono: "var_ok nv c \<Longrightarrow> nv \<le> nv' \<Longrightarrow> var_ok nv' c"
  by (cases c) (auto simp: var_ok_def)

lemma code_ok_mono: "code_ok nv h n i c \<Longrightarrow> nv \<le> nv' \<Longrightarrow> code_ok nv' h n i c"
  using var_ok_mono by (auto simp: code_ok_def)

lemma typed_mono:
  assumes "typed nv a cs b" "nv \<le> nv'"
  shows "typed nv' a cs b"
proof -
  obtain h where "h 0 = a" "h (length cs) = b" "\<forall>i<length cs. code_ok nv h (length cs) i (cs ! i)"
    using assms(1) by (auto simp: typed_def)
  then show ?thesis
    unfolding typed_def using code_ok_mono[OF _ assms(2)] by (intro exI[of _ h]) simp
qed

section \<open>The compiler produces typed code\<close>

lemma get_variable_index_length:
  "get_variable_index n vs = (i, vs') \<Longrightarrow> i < length vs' \<and> length vs \<le> length vs'"
proof -
  have "name_index n vs = Some i \<Longrightarrow> i < length vs" for i
    by (induction vs arbitrary: i) (auto split: if_splits)
  then show "get_variable_index n vs = (i, vs') \<Longrightarrow> ?thesis"
    by (auto simp: get_variable_index_def split: option.splits)
qed

lemma add_names_length: "length ns \<le> length (add_names xs ns)"
proof (induction xs arbitrary: ns)
  case (Cons x xs)
  then show ?case
    using get_variable_index_length[of x ns] order_trans by (cases "get_variable_index x ns") fastforce
qed simp

lemma compile_names_length:
  "compile_loop src sc = Inr sc' \<Longrightarrow> length (names sc) \<le> length (names sc')"
proof (induction "length src" arbitrary: src sc rule: less_induct)
  case less
  from less.prems show ?case
  proof (cases rule: compile_loop_cases)
    case finish
    then show ?thesis
      by (simp add: script_done_def add_copy_code_def add_full_name_code_def Let_def)
  next
    case (step src1 sc1)
    have "length (names sc) \<le> length (names (add_var_code n (sc\<lparr>var_count := k\<rparr>)))" for n k
      using get_variable_index_length by (auto simp: add_var_code_def split: prod.splits)
    then have "length (names sc) \<le> length (names sc1)"
      using step(3)
      by (auto simp: add_capture_code_def mark_capture_def add_args_code_def add_literal_def
          add_copy_code_def Let_def)
    then show ?thesis using less.hyps step(1,2) order_trans by blast
  qed
qed

lemma compile_value_names_length:
  assumes "compile_complex_value env cz cp rp ns v = Inr (cv, ns')"
  shows "length ns \<le> length ns'"
  using assms compile_names_length
  by (fastforce simp: compile_complex_value_def new_compile_def Let_def split: if_splits sum.splits)

lemmas effects = need_def gives_def jump_def var_ok_def

lemma typed_vals: "a \<le> 2 \<Longrightarrow> typed nv a (map Val vs) a"
proof (induction vs)
  case (Cons v vs)
  have "typed nv a [Val v] a" using Cons.prems by (intro typed_single) (simp_all add: effects)
  then show ?case using typed_append[of nv a "[Val v]" a "map Val vs" a] Cons by simp
qed simp

lemma typed_last: "typed nv a cs b \<Longrightarrow> need c \<le> b \<Longrightarrow> b - need c + gives c = d \<Longrightarrow> d \<le> 2 \<Longrightarrow> var_ok nv c
    \<Longrightarrow> jump c = None \<Longrightarrow> typed nv a (cs @ [c]) d"
  by (rule typed_append) (auto intro: typed_single)

lemma rewrite_value_typed:
  assumes "rewrite_value ns v = Inr (cs, ns')" "Suc a \<le> 2"
  shows "typed nv a cs (Suc a)" "length ns \<le> length ns'"
proof -
  have p: "typed nv a [Push v] (Suc a)" "typed nv a [Complex ls] (Suc a)" for ls
    using assms(2) by (auto intro!: typed_single simp: effects)
  show "typed nv a cs (Suc a)"
    using assms p(1) typed_append[OF p(2) typed_vals[OF assms(2)]]
    by (auto simp: rewrite_value_def split: if_splits sum.splits)
  show "length ns \<le> length ns'"
    using assms compile_names_length
    by (fastforce simp: rewrite_value_def new_compile_def split: if_splits sum.splits)
qed

lemma rewrite_codes_typed:
  assumes "rewrite_codes k keep ns repl flags = Inr (cs, ns')"
  shows "typed nv 0 cs 0" "length ns \<le> length ns'"
proof -
  obtain st redir brk lst where f: "flags = (st, redir, brk, lst)" by (cases flags)
  obtain sc where sc: "compile_loop repl (new_compile ns (\<not> redir) False False False) = Inr sc"
    using assms f by (auto simp: rewrite_codes_def split: sum.splits)
  define tail where "tail = map Val (vals sc)
      @ [Regex_end \<lparr>re_uri = True, re_args = has_args sc, re_add_args = keep, re_redirect = redir\<rparr>]
      @ (if lst then [Stop] else [])"
  let ?g = "\<lparr>rx = k, rx_lengths = (if var_count sc = 0 \<and> \<not> dup_capture sc then None else Some (lengths sc)),
      rx_size = lit_size sc, rx_status = st, rx_next = Suc (length tail), rx_test = False,
      rx_negative = False, rx_uri = True, rx_add_args = keep, rx_redirect = redir, rx_break = brk\<rparr>"
  have "rewrite_codes k keep ns repl flags = Inr (Regex_start ?g # tail, names sc)"
    by (simp only: rewrite_codes_def f prod.case sc sum.case Let_def tail_def)
  then have cs: "cs = Regex_start ?g # tail" "ns' = names sc" using assms by simp_all
  have "typed nv 0 [Regex_end e] 0" "typed nv 0 [Stop] 0" for e
    by (auto intro!: typed_single simp: effects)
  then have "typed nv 0 tail 0"
    unfolding tail_def by (intro typed_append[where b = 0] typed_vals) simp_all
  then show "typed nv 0 cs 0"
    unfolding cs(1) by (rule typed_jump) (simp_all add: effects)
  show "length ns \<le> length ns'"
    using compile_names_length[OF sc] cs(2) by (simp add: new_compile_def)
qed

lemma rewrite_typed:
  assumes "ngx_http_rewrite cf ns pat repl flag = Inr (cs, ns')"
  shows "typed nv 0 cs 0 \<and> length ns \<le> length ns'"
proof -
  obtain k keep xs repl1 flags where "rewrite_codes k keep (add_names xs ns) repl1 flags = Inr (cs, ns')"
    using assms by (auto simp: ngx_http_rewrite_def Let_def split: option.splits if_splits)
  then show ?thesis
    using rewrite_codes_typed add_names_length order_trans by blast
qed

lemma rewrite_return_typed:
  assumes "rewrite_return cf ns v1 v2 = Inr (cs, ns')"
  shows "typed nv 0 cs 0 \<and> length ns \<le> length ns'"
proof -
  have t: "return_text cf ns n v = Inr (cs, ns') \<Longrightarrow> (\<exists>st cv. cs = [Return st cv]) \<and> length ns \<le> length ns'" for n v
    using compile_value_names_length by (auto simp: return_text_def split: sum.splits)
  then have "(\<exists>st cv. cs = [Return st cv]) \<and> length ns \<le> length ns'"
    using assms by (auto simp: rewrite_return_def split: option.splits if_splits)
  then show ?thesis by (auto intro!: typed_single simp: effects)
qed

lemma rewrite_set_typed:
  assumes "rewrite_set cf ns v1 v2 = Inr (cs, ns')" "length ns' \<le> nv"
  shows "typed nv 0 cs 0 \<and> length ns \<le> length ns'"
proof -
  obtain i ns1 cs1 where g: "get_variable_index (tl v1) ns = (i, ns1)" "rewrite_value ns1 v2 = Inr (cs1, ns')"
    and cs: "cs = cs1 @ [case setter cf (tl v1) of Some k \<Rightarrow> Set_handler k | None \<Rightarrow> Set_var i]"
    using assms(1) by (auto simp: rewrite_set_def split: if_splits prod.splits sum.splits)
  note l = get_variable_index_length[OF g(1)] rewrite_value_typed(2)[OF g(2), of 0]
  have "typed nv 0 cs1 (Suc 0)" using rewrite_value_typed(1)[OF g(2)] by simp
  then have "typed nv 0 cs 0"
    unfolding cs using l assms(2) by (auto intro!: typed_last simp: effects split: option.splits)
  then show ?thesis using l by simp
qed

lemma regex_test_typed:
  assumes "regex_test cf ns op pat = Inr (cs, ns')"
  shows "typed nv 1 cs 1 \<and> length ns \<le> length ns'"
proof -
  obtain k xs where r: "regex_compile cf pat (last op = 0x2a) = Some (k, xs)"
    using assms by (cases "regex_compile cf pat (last op = 0x2a)") (simp_all add: regex_test_def, force)
  let ?g = "\<lparr>rx = k, rx_lengths = None, rx_size = 0, rx_status = 0, rx_next = 1, rx_test = True,
                   rx_negative = (hd op = 0x21), rx_uri = False, rx_add_args = False,
                   rx_redirect = False, rx_break = False\<rparr>"
  have cs: "cs = [Regex_start ?g]" "ns' = add_names xs ns"
    using assms unfolding regex_test_def r by simp_all
  have "typed nv 1 [Regex_start ?g] 1" by (rule typed_single) (simp_all add: effects)
  then show ?thesis unfolding cs using add_names_length by blast
qed

lemma if_condition_typed:
  assumes "if_condition cf ns vs = Inr (cs, ns')"
  shows "typed nv 0 cs 1 \<and> length ns \<le> length ns'"
proof -
  obtain p rest where s: "strip_parens vs = Some (p # rest)"
    using assms by (auto simp: if_condition_def split: option.splits list.splits)
  have load: "typed nv 0 [Load_var i] 1" for i
    by (auto intro!: typed_single simp: effects)
  consider (var) i where "get_variable_index (tl p) ns = (i, ns')" "cs = [Load_var i]"
    | (cmp) i ns1 cs1 where "get_variable_index (tl p) ns = (i, ns1)" "cs = Load_var i # cs1"
        "compare_words cf ns1 (rest ! 0) (rest ! 1) = Inr (cs1, ns')"
    | (test) cs1 op where "rewrite_value ns (rest ! 0 @ [0]) = Inr (cs1, ns')" "cs = cs1 @ [File op]"
    using assms s
    by (auto simp: if_condition_def split: if_splits prod.splits sum.splits option.splits)
  then show ?thesis
  proof cases
    case var
    then show ?thesis using load get_variable_index_length by simp
  next
    case test
    then show ?thesis
      using rewrite_value_typed[OF test(1), of 0] by (auto intro!: typed_last simp: effects)
  next
    case cmp
    have "typed nv 1 cs1 1 \<and> length ns1 \<le> length ns'"
    proof (cases "rest ! 0 = str ''='' \<or> rest ! 0 = str ''!=''")
      case True
      then have "compare_words cf ns1 (rest ! 0) (rest ! 1) = (case rewrite_value ns1 (rest ! 1) of
          Inl err \<Rightarrow> Inl err
        | Inr (cs, ns') \<Rightarrow> Inr (cs @ [if rest ! 0 = str ''='' then Equal else Not_equal], ns'))"
        by (simp only: compare_words_def if_True)
      then obtain cs2 op where c: "rewrite_value ns1 (rest ! 1) = Inr (cs2, ns')" "cs1 = cs2 @ [op]" "op = Equal \<or> op = Not_equal"
        using cmp(3) by (cases "rewrite_value ns1 (rest ! 1)"; cases "rest ! 0 = str ''=''") auto
      have t: "typed nv 1 cs2 (Suc 1)" "length ns1 \<le> length ns'"
        using rewrite_value_typed[OF c(1), of 1] by simp_all
      have "typed nv 1 cs1 1"
        unfolding c(2) by (rule typed_last[OF t(1)]) (use c(3) in \<open>auto simp: effects\<close>)
      then show ?thesis using t(2) by simp
    next
      case False
      then obtain P where "compare_words cf ns1 (rest ! 0) (rest ! 1)
          = (if P then regex_test cf ns1 (rest ! 0) (rest ! 1) else Inl Unexpected_operator)"
        by (simp only: compare_words_def if_False)
      then have "regex_test cf ns1 (rest ! 0) (rest ! 1) = Inr (cs1, ns')"
        using cmp(3) by (cases P) simp_all
      then show ?thesis using regex_test_typed by blast
    qed
    then have "typed nv 0 ([Load_var i] @ cs1) 1" "length ns \<le> length ns'"
      using typed_append[OF load] get_variable_index_length[OF cmp(1)] by simp_all
    then show ?thesis using cmp(2) by simp
  qed
qed

lemma compile_directives_typed:
  "compile_directive cf ns d = Inr (cs, ns') \<Longrightarrow>
     length ns \<le> length ns' \<and> (length ns' \<le> nv \<longrightarrow> typed nv 0 cs 0)"
  "compile_directives cf ns ds = Inr (cs, ns') \<Longrightarrow>
     length ns \<le> length ns' \<and> (length ns' \<le> nv \<longrightarrow> typed nv 0 cs 0)"
proof (induction cf ns d and cf ns ds arbitrary: cs ns' and cs ns' rule: compile_directive_compile_directives.induct)
  case (1 cf ns pat repl flag)
  then show ?case using rewrite_typed by simp
next
  case (2 cf ns v1 v2)
  then show ?case using rewrite_return_typed by simp
next
  case (3 cf ns)
  then show ?case by (auto intro!: typed_single simp: effects)
next
  case (4 cf ns v1 v2)
  have "rewrite_set cf ns v1 v2 = Inr (cs, ns')" using 4 by simp
  then show ?case using rewrite_set_typed[of cf ns v1 v2 cs ns' "length ns'"] rewrite_set_typed[of cf ns v1 v2 cs ns' nv]
    by simp
next
  case (5 cf ns vs loc ds)
  obtain cs1 ns1 where c: "if_condition cf ns vs = Inr (cs1, ns1)"
    using 5(2) by (auto split: sum.splits)
  obtain body ns2 where b: "compile_directives cf ns1 ds = Inr (body, ns2)"
    using 5(2) c by (auto split: sum.splits)
  have r: "cs = cs1 @ If_code (Suc (length body)) loc # body" "ns' = ns2" using 5(2) c b by auto
  have ih: "length ns1 \<le> length ns2 \<and> (length ns2 \<le> nv \<longrightarrow> typed nv 0 body 0)"
    using "5.IH"[OF c refl b] .
  have "typed nv 0 body 0 \<Longrightarrow> typed nv 1 (If_code (Suc (length body)) loc # body) 0"
    by (rule typed_jump) (auto simp: effects)
  then show ?case
    using ih if_condition_typed[OF c, of nv] typed_append r by fastforce
next
  case (6 cf ns)
  then show ?case by simp
next
  case (7 cf ns d ds)
  obtain cs1 ns1 where c: "compile_directive cf ns d = Inr (cs1, ns1)"
    using 7(3) by (auto split: sum.splits)
  obtain cs2 ns2 where b: "compile_directives cf ns1 ds = Inr (cs2, ns2)"
    using 7(3) c by (auto split: sum.splits)
  have r: "cs = cs1 @ cs2" "ns' = ns2" using 7(3) c b by auto
  show ?case
    using "7.IH"(1)[OF c] "7.IH"(2)[OF c refl b] typed_append r by fastforce
qed

section \<open>Typed code does not go wrong\<close>

text \<open>A setter of a variable leaves the number of variables alone.\<close>

definition setters_ok :: "rw_env \<Rightarrow> bool" where
  "setters_ok env \<longleftrightarrow>
     (\<forall>k b r. length (variables (sreq (set_handler env k b r))) = length (variables (sreq r)))"

abbreviation nvars :: "rw_req \<Rightarrow> nat" where
  "nvars r \<equiv> length (variables (sreq r))"

lemma get_indexed_length: "get_indexed_variable env i r = (v, r') \<Longrightarrow> length (variables r') = length (variables r)"
  by (auto simp: get_indexed_variable_def Let_def split: if_splits)

lemma get_flushed_length: "get_flushed_variable env i r = (v, r') \<Longrightarrow> length (variables r') = length (variables r)"
  by (auto simp: get_flushed_variable_def Let_def dest!: get_indexed_length split: if_splits)

lemma script_var_length: "script_var env fl i r = (v, r') \<Longrightarrow> length (variables r') = length (variables r)"
  by (auto simp: script_var_def dest: get_indexed_length get_flushed_length split: if_splits)

lemma run_len_length: "run_len env c le r = Some (n, le', r') \<Longrightarrow> length (variables r') = length (variables r)"
  by (cases c) (auto simp: Let_def dest: script_var_length split: prod.splits if_splits)

lemma run_lens_length: "run_lens env cs le r = Some (n, le', r') \<Longrightarrow> length (variables r') = length (variables r)"
proof (induction cs arbitrary: le r n)
  case (Cons c cs)
  then show ?case using run_len_length by (fastforce split: option.splits)
qed simp

lemma run_val_length: "run_val env c e r = Some (e', r') \<Longrightarrow> length (variables r') = length (variables r)"
  by (cases c) (auto simp: Let_def dest: script_var_length split: prod.splits if_splits option.splits)

lemma run_vals_length: "run_vals env cs e r = Some (e', r') \<Longrightarrow> length (variables r') = length (variables r)"
proof (induction cs arbitrary: e r)
  case (Cons c cs)
  then show ?case using run_val_length by (fastforce split: option.splits)
qed simp

lemma name_captures_length [simp]: "length (name_captures line caps ns vs) = length vs"
  by (induction line caps ns vs rule: name_captures.induct) simp_all

lemma regex_matched_nvars [simp]: "nvars (regex_matched env k line caps r) = nvars r"
  by (simp add: regex_matched_def)

lemma uri_flags_sreq [simp]: "sreq (uri_flags c r) = sreq r"
  by (simp add: uri_flags_def Let_def)

text \<open>What a step may do: fail on a buffer, leave the script, or go on with a stack of \<open>n\<close> values
  at one of the addresses in \<open>js\<close>.\<close>

definition step_to :: "nat set \<Rightarrow> nat \<Rightarrow> nat \<Rightarrow> fault + (rw_engine \<times> rw_req) \<Rightarrow> bool" where
  "step_to js n nv s \<longleftrightarrow>
     (case s of
        Inl f \<Rightarrow> f = Buffer_fault
      | Inr (e, r) \<Rightarrow> nvars r = nv \<and>
          (case ip e of None \<Rightarrow> True | Some j \<Rightarrow> j \<in> js \<and> length (sp e) = n))"

lemma pop_ok:
  assumes "sp e \<noteq> []"
  shows "pop e = Inl Buffer_fault \<or> (\<exists>b. pop e = Inr (b, e\<lparr>sp := tl (sp e)\<rparr>))"
  using assms by (cases "sp e") (auto simp: pop_def split: option.splits)

lemma push_ok: "length (sp e) < depth \<Longrightarrow> push depth v e = Inr (e\<lparr>sp := v # sp e\<rparr>)"
  by (simp add: push_def)

lemma goto_simps [simp]: "ip (goto n e) = map_option (\<lambda>i. i + n) (ip e)" "sp (goto n e) = sp e"
  "ve (goto n e) = ve e" "old (goto n e) = old e"
  by (simp_all add: goto_def)

lemma exit_simps [simp]: "ip (script_exit st e) = None"
  by (simp add: script_exit_def)

lemma new_buffer_simps [simp]: "ip (new_buffer n e) = ip e" "sp (new_buffer n e) = sp e"
  by (simp_all add: new_buffer_def)

lemma put_bytes_ok: "put_bytes b e = Inr e' \<Longrightarrow> ip e' = ip e \<and> sp e' = sp e" "put_bytes b e = Inl f \<Longrightarrow> f = Buffer_fault"
  by (auto simp: put_bytes_def split: option.splits)

lemma after_match_ok:
  assumes "ip e = Some i" "nvars r = nv" "rx_test c \<Longrightarrow> length (sp e) < depth"
  shows "step_to {Suc i} (length (sp e) + (if rx_test c then 1 else 0)) nv (after_match env depth c e r)"
proof (cases "rx_test c")
  case True
  then show ?thesis
    using assms(3)[OF True] assms(1,2) by (simp add: after_match_def step_to_def push_ok)
next
  case False
  have st: "ip (if P then e\<lparr>status := s\<rparr> else e) = Some i" "sp (if P then e\<lparr>status := s\<rparr> else e) = sp e" for P s
    using assms(1) by simp_all
  show ?thesis
    using False assms(1,2)
    by (auto simp: after_match_def step_to_def Let_def dest!: run_lens_length split: option.splits)
qed

lemma regex_start_ok:
  assumes "ip e = Some i" "nvars r = nv" "need (Regex_start c) \<le> length (sp e)"
    "length (sp e) - need (Regex_start c) + gives (Regex_start c) \<le> depth"
  shows "step_to (insert (Suc i) (case jump (Regex_start c) of None \<Rightarrow> {} | Some d \<Rightarrow> {i + d}))
           (length (sp e) - need (Regex_start c) + gives (Regex_start c)) nv (regex_start env depth c e r)"
proof -
  have go: "step_to (insert (Suc i) (case jump (Regex_start c) of None \<Rightarrow> {} | Some d \<Rightarrow> {i + d}))
           (length (sp e1) + gives (Regex_start c)) nv
           (case rx_exec env (rx c) line of
             Rx_declined \<Rightarrow>
               let r1 = r\<lparr>sreq := (sreq r)\<lparr>captures := []\<rparr>\<rparr>
               in if rx_test c
                  then map_sum id (\<lambda>e2. (goto 1 e2, r1)) (push depth (Data (if rx_negative c then [0x31] else [])) e1)
                  else Inr (goto (rx_next c) e1, r1)
           | Rx_error \<Rightarrow> Inr (script_exit 500 e1, r)
           | Rx_match caps \<Rightarrow> after_match env depth c e1 (regex_matched env (rx c) line caps r))"
    if e1: "ip e1 = Some i" "length (sp e1) + gives (Regex_start c) \<le> depth" for line e1
  proof (cases "rx_exec env (rx c) line")
    case Rx_declined
    then show ?thesis
      using e1 assms(2) by (cases "rx_test c") (simp_all add: step_to_def push_ok effects Let_def)
  next
    case Rx_error
    then show ?thesis using assms(2) by (simp add: step_to_def)
  next
    case (Rx_match caps)
    have "step_to {Suc i} (length (sp e1) + (if rx_test c then 1 else 0)) nv
        (after_match env depth c e1 (regex_matched env (rx c) line caps r))"
      using e1 assms(2) by (intro after_match_ok) (simp_all add: effects)
    then show ?thesis
      using Rx_match by (auto simp: step_to_def effects split: sum.splits option.splits)
  qed
  show ?thesis
  proof (cases "rx_uri c")
    case True
    then show ?thesis
      using go[OF assms(1)] assms(4) by (simp add: regex_start_def effects)
  next
    case False
    then have "sp e \<noteq> []" using assms(3) by (auto simp: effects)
    then consider "pop e = Inl Buffer_fault" | b where "pop e = Inr (b, e\<lparr>sp := tl (sp e)\<rparr>)"
      using pop_ok by blast
    then show ?thesis
    proof cases
      case 1
      then show ?thesis using False by (simp add: regex_start_def step_to_def)
    next
      case 2
      then show ?thesis
        using go[of "e\<lparr>sp := tl (sp e)\<rparr>" b] False assms(1,4) by (simp add: regex_start_def effects)
    qed
  qed
qed

lemma set_uri_ok:
  "ip e = Some i \<Longrightarrow> nvars r = nv \<Longrightarrow> step_to {Suc i} (length (sp e)) nv (set_uri c b e r)"
  by (simp add: set_uri_def step_to_def)

lemma regex_end_ok:
  assumes "ip e = Some i" "nvars r = nv"
  shows "step_to {Suc i} (length (sp e)) nv (regex_end c e r)"
proof -
  have red: "step_to {Suc i} (length (sp e1)) nv (redirect_end c e1 r)" if e1: "ip e1 = Some i" for e1
    using e1 assms(2) put_bytes_ok
    by (auto simp: redirect_end_def step_to_def Let_def split: option.splits sum.splits if_splits; fastforce)
  define e1 where "e1 = e\<lparr>ve := (ve e)\<lparr>quote := False\<rparr>\<rparr>"
  have e1: "ip e1 = Some i" "sp e1 = sp e" using assms(1) by (simp_all add: e1_def)
  show ?thesis
  proof (cases "re_redirect c")
    case True
    then show ?thesis using red[OF e1(1)] e1(2) by (simp add: regex_end_def e1_def)
  next
    case False
    note set = set_uri_ok[of _ i _ nv c]
    show ?thesis
    proof (cases "args_at (ve e1)")
      case None
      then show ?thesis
        using False set[OF e1(1), of r] set[OF e1(1), of "r\<lparr>r_args := []\<rparr>"] assms(2) e1(2)
        by (simp add: regex_end_def e1_def[symmetric] Let_def)
    next
      case (Some a)
      show ?thesis
      proof (cases "if re_add_args c \<and> r_args r \<noteq> [] then put_bytes (0x26 # r_args r) e1 else Inr e1")
        case (Inl f)
        then have "f = Buffer_fault" using put_bytes_ok(2) by (auto split: if_splits)
        then show ?thesis
          using False Some Inl by (simp add: regex_end_def e1_def[symmetric] Let_def step_to_def)
      next
        case (Inr e2)
        then have e2: "ip e2 = Some i" "sp e2 = sp e"
          using e1 put_bytes_ok(1) by (auto split: if_splits)
        show ?thesis
          using False Some Inr assms(2) e2
            set[of "e2\<lparr>ve := (ve e2)\<lparr>args_at := None\<rparr>\<rparr>" "r\<lparr>r_args := drop a (out (ve e2))\<rparr>"]
          by (simp add: regex_end_def e1_def[symmetric] Let_def)
      qed
    qed
  qed
qed

definition targets :: "nat \<Rightarrow> rw_code \<Rightarrow> nat set" where
  "targets i c = insert (Suc i) (case jump c of None \<Rightarrow> {} | Some d \<Rightarrow> {i + d})"

text \<open>A code that takes one value and does not fail after it.\<close>

lemma popping_step:
  assumes "sp e \<noteq> []" "\<And>b. step_to js n nv (k b (e\<lparr>sp := tl (sp e)\<rparr>))"
  shows "step_to js n nv (case pop e of Inl f \<Rightarrow> Inl f | Inr (b, e1) \<Rightarrow> k b e1)"
  using pop_ok[OF assms(1)] assms(2) by (auto simp: step_to_def)

lemma one_value: "Suc 0 \<le> length (sp e) \<Longrightarrow> sp e \<noteq> []"
  by auto

lemma if_code_ok:
  assumes "ip e = Some i" "nvars r = nv" "1 \<le> length (sp e)"
  shows "step_to {Suc i, i + nxt} (length (sp e) - 1) nv (if_code nxt loc e r)"
  unfolding if_code_def
  by (rule popping_step) (use assms in \<open>auto simp: step_to_def split: option.splits\<close>)

lemma file_code_ok:
  assumes "ip e = Some i" "nvars r = nv" "1 \<le> length (sp e)"
  shows "step_to {Suc i} (Suc (length (sp e) - 1)) nv (file_code env op e r)"
  unfolding file_code_def
  by (rule popping_step) (use assms in \<open>auto simp: step_to_def\<close>)

lemma set_var_ok:
  assumes "ip e = Some i" "nvars r = nv" "1 \<le> length (sp e)" "k < nv"
  shows "step_to {Suc i} (length (sp e) - 1) nv (set_var_code k e r)"
  unfolding set_var_code_def
  by (rule popping_step) (use assms in \<open>auto simp: step_to_def\<close>)

lemma compare_ok:
  assumes "ip e = Some i" "nvars r = nv" "2 \<le> length (sp e)"
  shows "step_to {Suc i} (Suc (length (sp e) - 2)) nv (compare_code eq e r)"
proof -
  obtain a b xs where sp: "sp e = a # b # xs"
    using assms(3) by (cases "sp e"; cases "tl (sp e)") auto
  have t: "sp (e\<lparr>sp := tl (sp e)\<rparr>) \<noteq> []" using sp by simp
  show ?thesis
    unfolding compare_code_def
    by (rule popping_step, simp add: sp, rule popping_step[OF t])
      (use assms sp in \<open>auto simp: step_to_def\<close>)
qed

lemma complex_ok:
  assumes "ip e = Some i" "nvars r = nv" "length (sp e) < depth"
  shows "step_to {Suc i} (Suc (length (sp e))) nv (complex_code env depth ls e r)"
  using assms by (auto simp: complex_code_def step_to_def push_ok Let_def dest!: run_lens_length split: option.splits)

lemma return_ok:
  assumes "nvars r = nv"
  shows "step_to {} 0 nv (return_code env st cv e r)"
proof -
  have "nvars (r\<lparr>sreq := sr\<rparr>) = nv" if v: "ngx_http_complex_value (senv env) cv (sreq r) = Some (b, sr)" for b sr
  proof -
    have f: "length (variables (flush_vars fl q)) = length (variables q)" for fl q
      by (induction fl arbitrary: q) (simp_all add: Let_def)
    show ?thesis
    proof (cases "cv_codes cv")
      case None
      then show ?thesis using v assms f by (simp add: ngx_http_complex_value_def)
    next
      case (Some lv)
      obtain ls vs where lv: "lv = (ls, vs)" by fastforce
      obtain n le r1 where l: "run_lens (senv env) ls \<lparr>le_flushed = True, le_quote = False, le_is_args = False\<rparr>
          (flush_vars (cv_flushes cv) (sreq r)) = Some (n, le, r1)"
        using v Some lv by (auto simp: ngx_http_complex_value_def split: option.splits)
      obtain e2 where "run_vals (senv env) vs \<lparr>out = [], cap = n, args_at = None, flushed = True, skip = False,
          quote = False, is_args = False\<rparr> r1 = Some (e2, sr)"
        using v Some lv l by (auto simp: ngx_http_complex_value_def split: option.splits if_splits)
      then show ?thesis using run_vals_length run_lens_length[OF l] f assms by fastforce
    qed
  qed
  then show ?thesis using assms by (auto simp: return_code_def step_to_def split: option.splits)
qed

lemma rw_step_ok:
  assumes "ip e = Some i" "nvars r = nv" "need c \<le> length (sp e)"
    "length (sp e) - need c + gives c \<le> depth" "var_ok nv c" "setters_ok env" "c \<noteq> Stop"
  shows "step_to (targets i c) (length (sp e) - need c + gives c) nv (rw_step env depth c e r)"
proof (cases c)
  case (Val v)
  then show ?thesis
    using assms(1,2)
    by (auto simp: targets_def effects copy_step_def step_to_def dest!: run_val_length split: option.splits)
next
  case (Regex_start g)
  then show ?thesis using regex_start_ok[OF assms(1,2)] assms(3,4) by (simp add: targets_def)
next
  case (Regex_end g)
  then show ?thesis using regex_end_ok[OF assms(1,2)] by (simp add: targets_def effects)
next
  case (Return st cv)
  then show ?thesis
    using return_ok[OF assms(2), of env st cv e] by (simp add: step_to_def split: sum.splits option.splits prod.splits) blast?
next
  case Break
  then show ?thesis using assms(1,2) by (simp add: step_to_def)
next
  case (If_code n l)
  then show ?thesis using if_code_ok[OF assms(1,2)] assms(3) by (simp add: targets_def effects)
next
  case Equal
  then show ?thesis using compare_ok[OF assms(1,2)] assms(3) by (simp add: targets_def effects)
next
  case Not_equal
  then show ?thesis using compare_ok[OF assms(1,2)] assms(3) by (simp add: targets_def effects)
next
  case (File op)
  then show ?thesis using file_code_ok[OF assms(1,2)] assms(3) by (simp add: targets_def effects)
next
  case (Complex ls)
  then show ?thesis using complex_ok[OF assms(1,2)] assms(4) by (simp add: targets_def effects)
next
  case (Push b)
  then show ?thesis using assms(1,2,4) by (simp add: targets_def effects push_ok step_to_def)
next
  case (Set_var k)
  then show ?thesis using set_var_ok[OF assms(1,2)] assms(3,5) by (simp add: targets_def effects)
next
  case (Set_handler k)
  have "step_to {Suc i} (length (sp e) - 1) nv (rw_step env depth (Set_handler k) e r)"
    unfolding rw_step.simps
    by (rule popping_step)
      (use assms(1,2,3,6) Set_handler in \<open>auto simp: step_to_def setters_ok_def effects\<close>)
  then show ?thesis using Set_handler by (simp add: targets_def effects)
next
  case (Load_var k)
  then show ?thesis
    using assms(1,2,4)
    by (auto simp: targets_def effects load_var_code_def push_ok step_to_def Let_def
        dest!: get_flushed_length split: prod.splits)
next
  case Nop
  then show ?thesis using assms(1,2) by (simp add: targets_def effects step_to_def)
qed (use assms(7) in simp)

text \<open>Every code moves the address forward, so that the length of the array is enough fuel.\<close>

lemma typed_run:
  assumes code: "\<And>i. i < length cs \<Longrightarrow> code_ok nv h (length cs) i (cs ! i)"
    and env: "setters_ok env" "2 \<le> depth"
  shows "ip e = Some i \<Longrightarrow> i \<le> length cs \<Longrightarrow> length (sp e) = h i \<Longrightarrow> nvars r = nv \<Longrightarrow> length cs - i \<le> fuel
    \<Longrightarrow> (\<exists>e' r'. rw_run fuel env depth (cs @ [Stop]) e r = Done e' r')
         \<or> rw_run fuel env depth (cs @ [Stop]) e r = Fault Buffer_fault"
proof (induction fuel arbitrary: e i r)
  case 0
  then show ?case by (subst (1 2) rw_run.simps) (simp add: nth_append)
next
  case (Suc fuel)
  show ?case
  proof (cases "i = length cs \<or> cs ! i = Stop")
    case True
    then show ?thesis using Suc.prems by (subst (1 2) rw_run.simps) (auto simp: nth_append)
  next
    case False
    then have i: "i < length cs" "(cs @ [Stop]) ! i = cs ! i" using Suc.prems by (simp_all add: nth_append)
    have ok: "code_ok nv h (length cs) i (cs ! i)" using code i(1) by blast
    have st: "step_to (targets i (cs ! i)) (h (Suc i)) nv (rw_step env depth (cs ! i) e r)"
    proof -
      have o: "need (cs ! i) \<le> length (sp e)" "h (Suc i) = length (sp e) - need (cs ! i) + gives (cs ! i)"
        "h (Suc i) \<le> depth" "var_ok nv (cs ! i)" "cs ! i \<noteq> Stop"
        using ok Suc.prems(3) env(2) False by (auto simp: code_ok_def)
      show ?thesis
        unfolding o(2) by (rule rw_step_ok[OF Suc.prems(1,4) o(1) _ o(4) env(1) o(5)]) (use o(2,3) in simp)
    qed
    have run: "rw_run (Suc fuel) env depth (cs @ [Stop]) e r
        = (case rw_step env depth (cs ! i) e r of
             Inl f \<Rightarrow> Fault f | Inr (e', r') \<Rightarrow> rw_run fuel env depth (cs @ [Stop]) e' r')"
      using Suc.prems(1) i False by (subst rw_run.simps) simp
    show ?thesis
    proof (cases "rw_step env depth (cs ! i) e r")
      case (Inl f)
      then show ?thesis using st run by (simp add: step_to_def)
    next
      case (Inr s)
      obtain e' r' where s: "s = (e', r')" by fastforce
      show ?thesis
      proof (cases "ip e'")
        case None
        then show ?thesis using run Inr s by (subst (asm) rw_run.simps) simp
      next
        case (Some j)
        have j: "j \<in> targets i (cs ! i)" "length (sp e') = h (Suc i)" "nvars r' = nv"
          using st Inr s Some by (simp_all add: step_to_def)
        have "i < j" "j \<le> length cs" "h j = h (Suc i)"
          using j(1) ok i(1) by (auto simp: targets_def code_ok_def split: option.splits)
        then show ?thesis
          using Suc.IH[OF Some, of r'] Suc.prems(5) j(2,3) run Inr s by simp
      qed
    qed
  qed
qed

text \<open>C26: the rewrite module is type safe.  Whatever directives a block has, the array its
  compiler makes never takes from an empty stack, never pushes past two values (the default
  stack has ten), jumps to no address outside the array, sets no variable that does not exist,
  and comes to its end in at most as many steps as it has codes, for every request and every
  behaviour of the regular expressions, handlers and files.  What can still go wrong is a
  buffer.\<close>

theorem rewrite_type_safe:
  assumes "compile_block cf ns ds = Inr (prog, ns')" "length (variables (sreq r)) = length ns'"
    "2 \<le> depth" "setters_ok env"
  shows "(\<exists>e' r'. rw_run (length prog) env depth prog rw_start r = Done e' r')
         \<or> rw_run (length prog) env depth prog rw_start r = Fault Buffer_fault"
proof -
  obtain cs where cs: "compile_directives cf ns ds = Inr (cs, ns')" "prog = cs @ [Stop]"
    using assms(1) by (auto simp: compile_block_def split: sum.splits; cases "compile_directives cf ns ds"; auto)
  obtain h where "h 0 = 0" "\<And>i. i < length cs \<Longrightarrow> code_ok (length ns') h (length cs) i (cs ! i)"
    using compile_directives_typed(2)[OF cs(1), of "length ns'"] by (auto simp: typed_def)
  then show ?thesis
    using typed_run[of cs "length ns'" h env depth rw_start 0 r "length prog"] assms cs(2)
    by (simp add: rw_start_def)
qed

section \<open>Examples\<close>

text \<open>The regular expression \<^verbatim>\<open>^/(.*)$\<close>, and a request.\<close>

definition ex_conf :: rw_conf where
  "ex_conf = \<lparr>regex_compile = (\<lambda>_ _. Some (0, [])), changeable = (\<lambda>_. True), setter = (\<lambda>_. None), cenv = example_env\<rparr>"

definition ex_env :: rw_env where
  "ex_env = \<lparr>senv = example_env, rx_exec = (\<lambda>_ line. Rx_match [0, int (length line), 1, int (length line)]),
     rx_names = (\<lambda>_. []), file_info = (\<lambda>_. None), set_handler = (\<lambda>_ _ r. r), send_response = (\<lambda>st _. int st)\<rparr>"

definition ex_request :: "bytes \<Rightarrow> nat \<Rightarrow> rw_req" where
  "ex_request uri n = \<lparr>sreq = \<lparr>variables = replicate n \<lparr>v_data = [], v_valid = False, v_not_found = False,
      v_no_cacheable = False\<rparr>, captures = [], captures_data = [], quoted_uri = True, plus_in_uri = False, calls = 0\<rparr>,
    r_uri = uri, r_args = [], uri_changed = False, internal = False, valid_unparsed_uri = True,
    valid_location = True, location = None, loc_conf = None\<rparr>"

definition run_block :: "nat \<Rightarrow> directive list \<Rightarrow> bytes \<Rightarrow> rw_result option" where
  "run_block depth ds uri =
     (case compile_block ex_conf [] ds of
        Inl _ \<Rightarrow> None
      | Inr (prog, ns) \<Rightarrow> Some (rw_run (length prog) ex_env depth prog rw_start (ex_request uri (length ns))))"

definition ex_block :: "directive list" where
  "ex_block = [Set_d (str ''$v'') (str ''x$1''),
               If_d [str ''($v'', str ''='', str ''abc)''] None [Set_d (str ''$a'') (str ''1''), Break_d]]"

theorem rewrite_type_safe_witness:
  "\<exists>prog. compile_block ex_conf [] ex_block = Inr (prog, [str ''v'', str ''a''])
     \<and> ((\<exists>e' r'. rw_run (length prog) ex_env 2 prog rw_start (ex_request (str ''/ab'') 2) = Done e' r')
        \<or> rw_run (length prog) ex_env 2 prog rw_start (ex_request (str ''/ab'') 2) = Fault Buffer_fault)"
proof -
  have c: "compile_block ex_conf [] ex_block
      = Inr ([Complex [Copy_len 1, Capture_len 2], Val (Copy [0x78]), Val (Copy_capture 2), Set_var 0,
              Load_var 0, Push [0x61, 0x62, 0x63], Equal, If_code 4 None, Push [0x31], Set_var 1, Break, Stop],
             [str ''v'', str ''a''])"
    by code_simp
  have "setters_ok ex_env" by (simp add: setters_ok_def ex_env_def)
  then show ?thesis
    using rewrite_type_safe[OF c, of "ex_request (str ''/ab'') 2" 2 ex_env] c
    by (auto simp: ex_request_def)
qed

text \<open>What is left, the buffers, is not kept: \<open>regex_start\<close> hands the \<open>is_args\<close> of the whole
  length run to the copying run, so that a capture before the question mark is escaped when it
  was counted unescaped.  The flag also outlives the replacement: a capture in a later
  \<^verbatim>\<open>set\<close> is copied escaped into a buffer of its unescaped length.\<close>

lemma rewrite_overflow:
  "run_block 10 [Rewrite_d (str ''^/(.*)$'') (str ''/$1?u=$1'') None] (str ''/a b'') = Some (Fault Buffer_fault)"
  by code_simp

lemma set_overflow:
  "run_block 10 [Rewrite_d (str ''^/(.*)$'') (str ''/x?u=$1'') None, Set_d (str ''$v'') (str ''x$1'')] (str ''/a b'')
     = Some (Fault Buffer_fault)"
  by code_simp

lemma set_without_arguments:
  "(case run_block 10 [Rewrite_d (str ''^/(.*)$'') (str ''/x'') None, Set_d (str ''$v'') (str ''x$1'')] (str ''/a b'') of
      Some (Done e r) \<Rightarrow> v_data (variables (sreq r) ! 0) = str ''xa b''
    | _ \<Rightarrow> False)"
  by code_simp

end
