(* ===== verification/NgxConf.thy ===== *)
theory NgxConf
  imports NgxPrelude
begin

text \<open>
  The lexer of the configuration, \<^verbatim>\<open>ngx_conf_read_token\<close> of \<^verbatim>\<open>src/core/ngx_conf_file.c\<close>.  It reads
  the file through a buffer of \<^verbatim>\<open>NGX_CONF_BUFFER\<close> bytes that it refills in the middle of a word, by
  moving the part of the word already read to the front.  A parameter of the command line
  (\<^verbatim>\<open>-g\<close>) is a buffer with no file behind it.

  A file is its contents, which do not change while they are read; a read returns all the bytes
  that were asked for.
\<close>

section \<open>The file and the tokens\<close>

definition NGX_CONF_BUFFER :: nat where "NGX_CONF_BUFFER = 4096"

record conf_file =
  contents :: bytes
  has_fd :: bool
  buf :: bytes
  pos :: nat
  offset :: nat
  line :: nat

datatype lex_error =
    End_of_parameter
  | End_of_file
  | Too_long "u8 option"
  | Unexpected u8
  | Over_read

text \<open>What a call returns: an error, the words before a semicolon or an opening brace
  (\<^verbatim>\<open>cf->args\<close>, with NGX_OK or NGX_CONF_BLOCK_START), a closing brace, or the end.\<close>

datatype token =
    Tok_error lex_error
  | Directive bool "bytes list"
  | Block_done
  | File_done

text \<open>The local variables of the function but the two positions.\<close>

record conf_lex =
  need_space :: bool
  last_space :: bool
  sharp_comment :: bool
  variable :: bool
  quoted :: bool
  s_quoted :: bool
  d_quoted :: bool
  args :: "bytes list"

definition lex_start :: conf_lex where
  "lex_start = \<lparr>need_space = False, last_space = True, sharp_comment = False, variable = False,
     quoted = False, s_quoted = False, d_quoted = False, args = []\<rparr>"

text \<open>What becomes of \<^verbatim>\<open>start\<close>: it stays, or points to the current byte or to the next one.\<close>

datatype lex_move = Keep | Here | After

datatype lex_turn = Next conf_lex lex_move | Token token

section \<open>One byte\<close>

definition is_space :: "u8 \<Rightarrow> bool" where
  "is_space c \<longleftrightarrow> c = 0x20 \<or> c = 0x09 \<or> c = CR \<or> c = LF"

text \<open>The word between \<^verbatim>\<open>start\<close> and the byte \<open>t\<close> that ends it, with its escapes undone; the byte
  after a backslash is read even where the word ends.\<close>

definition escape_of :: "u8 \<Rightarrow> u8 option" where
  "escape_of d =
     (if d = 0x22 \<or> d = 0x27 \<or> d = 0x5c then Some d
      else if d = 0x74 then Some 0x09
      else if d = 0x72 then Some CR
      else if d = 0x6e then Some LF
      else None)"

fun word_text :: "u8 \<Rightarrow> bytes \<Rightarrow> bytes" where
  "word_text t [] = []"
| "word_text t [c] = (if c = 0x5c then (case escape_of t of Some e \<Rightarrow> [e] | None \<Rightarrow> [c]) else [c])"
| "word_text t (c # d # r) =
     (if c = 0x5c
      then (case escape_of d of Some e \<Rightarrow> e # word_text t r | None \<Rightarrow> c # word_text t (d # r))
      else c # word_text t (d # r))"

text \<open>The start of a word.\<close>

definition word_start :: "u8 \<Rightarrow> conf_lex \<Rightarrow> lex_turn" where
  "word_start ch l =
     (if is_space ch then Next l Keep
      else if ch = 0x3b \<or> ch = 0x7b
      then (if args l = [] then Token (Tok_error (Unexpected ch)) else Token (Directive (ch = 0x7b) (args l)))
      else if ch = 0x7d
      then (if args l \<noteq> [] then Token (Tok_error (Unexpected ch)) else Token Block_done)
      else if ch = 0x23 then Next (l\<lparr>sharp_comment := True\<rparr>) Here
      else if ch = 0x5c then Next (l\<lparr>quoted := True, last_space := False\<rparr>) Here
      else if ch = 0x22 then Next (l\<lparr>d_quoted := True, last_space := False\<rparr>) After
      else if ch = 0x27 then Next (l\<lparr>s_quoted := True, last_space := False\<rparr>) After
      else Next (l\<lparr>last_space := False\<rparr>) Here)"

definition word_ended :: "u8 \<Rightarrow> conf_lex \<Rightarrow> bool" where
  "word_ended ch l \<longleftrightarrow>
     (if d_quoted l then ch = 0x22
      else if s_quoted l then ch = 0x27
      else is_space ch \<or> ch = 0x3b \<or> ch = 0x7b)"

definition word_done :: "conf_lex \<Rightarrow> conf_lex" where
  "word_done l =
     (if d_quoted l then l\<lparr>d_quoted := False, need_space := True\<rparr>
      else if s_quoted l then l\<lparr>s_quoted := False, need_space := True\<rparr>
      else l\<lparr>last_space := True\<rparr>)"

text \<open>A byte inside a word; \<open>raw\<close> are the bytes from \<^verbatim>\<open>start\<close> up to it.\<close>

definition word_char :: "bytes \<Rightarrow> u8 \<Rightarrow> conf_lex \<Rightarrow> lex_turn" where
  "word_char raw ch l0 =
     (if ch = 0x7b \<and> variable l0 then Next l0 Keep
      else let l = l0\<lparr>variable := False\<rparr> in
        if ch = 0x5c then Next (l\<lparr>quoted := True\<rparr>) Keep
        else if ch = 0x24 then Next (l\<lparr>variable := True\<rparr>) Keep
        else if \<not> word_ended ch l then Next l Keep
        else let a = args l @ [word_text ch raw] in
          if ch = 0x3b then Token (Directive False a)
          else if ch = 0x7b then Token (Directive True a)
          else Next ((word_done l)\<lparr>args := a\<rparr>) Keep)"

definition after_space :: "bytes \<Rightarrow> u8 \<Rightarrow> conf_lex \<Rightarrow> lex_turn" where
  "after_space raw ch l = (if last_space l then word_start ch l else word_char raw ch l)"

definition lex_char :: "bytes \<Rightarrow> u8 \<Rightarrow> conf_lex \<Rightarrow> lex_turn" where
  "lex_char raw ch l0 =
     (let l = (if ch = LF then l0\<lparr>sharp_comment := False\<rparr> else l0) in
      if sharp_comment l then Next l Keep
      else if quoted l then Next (l\<lparr>quoted := False\<rparr>) Keep
      else if need_space l
      then (if is_space ch then Next (l\<lparr>last_space := True, need_space := False\<rparr>) Keep
            else if ch = 0x3b then Token (Directive False (args l))
            else if ch = 0x7b then Token (Directive True (args l))
            else if ch = 0x29 then after_space raw ch (l\<lparr>last_space := True, need_space := False\<rparr>)
            else Token (Tok_error (Unexpected ch)))
      else after_space raw ch l)"

section \<open>The buffer\<close>

definition quote_char :: "conf_lex \<Rightarrow> u8 option" where
  "quote_char l = (if d_quoted l then Some 0x22 else if s_quoted l then Some 0x27 else None)"

text \<open>At the end of the buffer: the end of the file, a word longer than the buffer, or a read
  behind the part of the word that is kept.\<close>

definition refill :: "nat \<Rightarrow> nat \<Rightarrow> conf_lex \<Rightarrow> conf_file \<Rightarrow> token \<times> conf_file + conf_file" where
  "refill start start_line l f =
     (if offset f \<ge> length (contents f)
      then Inl (if args l = [] then File_done
                else Tok_error (if has_fd f then End_of_file else End_of_parameter), f)
      else
        let len = pos f - start in
        if len = NGX_CONF_BUFFER then Inl (Tok_error (Too_long (quote_char l)), f\<lparr>line := start_line\<rparr>)
        else
          let n = min (length (contents f) - offset f) (NGX_CONF_BUFFER - len) in
          Inr (f\<lparr>buf := take len (drop start (buf f)) @ take n (drop (offset f) (contents f)),
                 pos := len, offset := offset f + n\<rparr>))"

definition more_bytes :: "nat \<Rightarrow> nat \<Rightarrow> conf_lex \<Rightarrow> conf_file \<Rightarrow> token \<times> conf_file + conf_file \<times> nat" where
  "more_bytes start start_line l f =
     (if pos f < length (buf f) then Inr (f, start)
      else map_sum id (\<lambda>f'. (f', 0)) (refill start start_line l f))"

definition advance_byte :: "u8 \<Rightarrow> conf_file \<Rightarrow> conf_file" where
  "advance_byte ch f = f\<lparr>pos := Suc (pos f), line := (if ch = LF then Suc (line f) else line f)\<rparr>"

definition unread :: "conf_file \<Rightarrow> nat" where
  "unread f = (length (contents f) - offset f) + (length (buf f) - pos f)"

lemma unread_less:
  assumes "more_bytes start sl l f = Inr (f1, start1)" "rd (buf f1) (pos f1) = Some ch"
  shows "unread (advance_byte ch f1) < unread f"
proof (cases "pos f < length (buf f)")
  case True
  then show ?thesis using assms by (auto simp: more_bytes_def unread_def advance_byte_def)
next
  case False
  define len where "len = pos f - start"
  define n where "n = min (length (contents f) - offset f) (NGX_CONF_BUFFER - len)"
  have f1: "f1 = f\<lparr>buf := take len (drop start (buf f)) @ take n (drop (offset f) (contents f)),
      pos := len, offset := offset f + n\<rparr>" and o: "offset f < length (contents f)"
    using assms(1) False by (auto simp: more_bytes_def refill_def len_def n_def Let_def split: if_splits)
  have "len < length (buf f1)" using assms(2) f1 by (simp add: rd_def split: if_splits)
  moreover have "length (buf f1) \<le> len + n" "n \<le> length (contents f) - offset f"
    by (simp_all add: f1 n_def)
  ultimately show ?thesis using o by (simp add: unread_def advance_byte_def f1)
qed

text \<open>The loop of \<^verbatim>\<open>ngx_conf_read_token\<close>.\<close>

function conf_loop :: "nat \<Rightarrow> nat \<Rightarrow> conf_lex \<Rightarrow> conf_file \<Rightarrow> token \<times> conf_file" where
  "conf_loop start start_line l f =
     (case more_bytes start start_line l f of
        Inl r \<Rightarrow> r
      | Inr (f1, start1) \<Rightarrow>
          (case rd (buf f1) (pos f1) of
             None \<Rightarrow> (Tok_error Over_read, f1)
           | Some ch \<Rightarrow>
               let f2 = advance_byte ch f1 in
               (case lex_char (take (pos f1 - start1) (drop start1 (buf f1))) ch l of
                  Token t \<Rightarrow> (t, f2)
                | Next l' Keep \<Rightarrow> conf_loop start1 start_line l' f2
                | Next l' Here \<Rightarrow> conf_loop (pos f1) (line f2) l' f2
                | Next l' After \<Rightarrow> conf_loop (Suc (pos f1)) (line f2) l' f2)))"
  by pat_completeness auto
termination
  by (relation "measure (\<lambda>(start, start_line, l, f). unread f)") (auto dest: unread_less)

declare conf_loop.simps [simp del]

definition ngx_conf_read_token :: "conf_file \<Rightarrow> token \<times> conf_file" where
  "ngx_conf_read_token f = conf_loop (pos f) (line f) lex_start f"

text \<open>A file that has been opened, and a parameter of the command line.\<close>

definition open_file :: "bytes \<Rightarrow> conf_file" where
  "open_file b = \<lparr>contents = b, has_fd = True, buf = [], pos = 0, offset = 0, line = 1\<rparr>"

definition open_param :: "bytes \<Rightarrow> conf_file" where
  "open_param b = \<lparr>contents = [], has_fd = False, buf = b, pos = 0, offset = 0, line = 0\<rparr>"

section \<open>The buffer is transparent\<close>

text \<open>The lexer on a text, without a buffer: a word may not go on after its first
  \<^verbatim>\<open>NGX_CONF_BUFFER\<close> bytes.\<close>

fun lex_text :: "bool \<Rightarrow> bytes \<Rightarrow> conf_lex \<Rightarrow> bytes \<Rightarrow> token \<times> bytes" where
  "lex_text fd raw l [] =
     (if args l = [] then File_done else Tok_error (if fd then End_of_file else End_of_parameter), [])"
| "lex_text fd raw l (ch # rest) =
     (if fd \<and> length raw = NGX_CONF_BUFFER then (Tok_error (Too_long (quote_char l)), ch # rest)
      else (case lex_char raw ch l of
              Token t \<Rightarrow> (t, rest)
            | Next l' Keep \<Rightarrow> lex_text fd (raw @ [ch]) l' rest
            | Next l' Here \<Rightarrow> lex_text fd [ch] l' rest
            | Next l' After \<Rightarrow> lex_text fd [] l' rest))"

definition read_text :: "bool \<Rightarrow> bytes \<Rightarrow> token \<times> bytes" where
  "read_text fd = lex_text fd [] lex_start"

text \<open>What is left to read.\<close>

definition remaining :: "conf_file \<Rightarrow> bytes" where
  "remaining f = drop (pos f) (buf f) @ drop (offset f) (contents f)"

definition conf_wf :: "conf_file \<Rightarrow> bool" where
  "conf_wf f \<longleftrightarrow> pos f \<le> length (buf f)
     \<and> (if has_fd f then length (buf f) \<le> NGX_CONF_BUFFER else contents f = [])"

lemma open_file_wf [simp]: "conf_wf (open_file b)" "remaining (open_file b) = b" "has_fd (open_file b)"
  by (simp_all add: conf_wf_def remaining_def open_file_def)

lemma open_param_wf [simp]: "conf_wf (open_param b)" "remaining (open_param b) = b" "\<not> has_fd (open_param b)"
  by (simp_all add: conf_wf_def remaining_def open_param_def)

lemma advance_byte_simps [simp]: "buf (advance_byte ch f) = buf f" "pos (advance_byte ch f) = Suc (pos f)"
  "contents (advance_byte ch f) = contents f" "offset (advance_byte ch f) = offset f"
  "has_fd (advance_byte ch f) = has_fd f"
  by (simp_all add: advance_byte_def)

text \<open>Getting more bytes keeps what is left and the part of the word already read.\<close>

lemma more_bytes_ok:
  assumes "conf_wf f" "start \<le> pos f" "raw = take (pos f - start) (drop start (buf f))"
  shows "case more_bytes start sl l f of
      Inl (t, f') \<Rightarrow> conf_wf f' \<and> has_fd f' = has_fd f
        \<and> (t, remaining f') = lex_text (has_fd f) raw l (remaining f)
    | Inr (f1, start1) \<Rightarrow> conf_wf f1 \<and> has_fd f1 = has_fd f \<and> remaining f1 = remaining f
        \<and> pos f1 < length (buf f1) \<and> start1 \<le> pos f1
        \<and> raw = take (pos f1 - start1) (drop start1 (buf f1)) \<and> (has_fd f \<longrightarrow> length raw \<noteq> NGX_CONF_BUFFER)"
proof -
  have wf: "pos f \<le> length (buf f)" using assms(1) by (simp add: conf_wf_def)
  have raw: "length raw = pos f - start" using assms(3) wf by simp
  show ?thesis
  proof (cases "pos f < length (buf f)")
    case True
    then show ?thesis
      using assms raw by (auto simp: more_bytes_def conf_wf_def)
  next
    case False
    then have p: "pos f = length (buf f)" using wf by simp
    then have rem: "remaining f = drop (offset f) (contents f)" by (simp add: remaining_def)
    show ?thesis
    proof (cases "offset f \<ge> length (contents f)")
      case True
      then show ?thesis using assms(1) rem p by (simp add: more_bytes_def refill_def)
    next
      case more: False
      then have fd: "has_fd f" using assms(1) by (auto simp: conf_wf_def split: if_splits)
      obtain c cs where rest: "remaining f = c # cs"
        using more rem by (cases "drop (offset f) (contents f)") simp_all
      show ?thesis
      proof (cases "pos f - start = NGX_CONF_BUFFER")
        case True
        then show ?thesis
          using more False fd raw assms(1) rest
          by (simp add: more_bytes_def refill_def conf_wf_def remaining_def)
      next
        case len: False
        define len where "len = pos f - start"
        define n where "n = min (length (contents f) - offset f) (NGX_CONF_BUFFER - len)"
        have n: "0 < n" "len + n \<le> NGX_CONF_BUFFER" "offset f + n \<le> length (contents f)"
          using len more assms(1) fd p by (auto simp: conf_wf_def len_def n_def)
        have t: "take n (drop (offset f) (contents f)) @ drop (offset f + n) (contents f)
            = drop (offset f) (contents f)"
          by (metis append_take_drop_id drop_drop add.commute)
        define f1 where "f1 = f\<lparr>buf := raw @ take n (drop (offset f) (contents f)), pos := len, offset := offset f + n\<rparr>"
        have m: "more_bytes start sl l f = Inr (f1, 0)"
          using more False len p assms(3)
          by (simp add: more_bytes_def refill_def Let_def f1_def len_def n_def)
        have l: "length raw = len" using raw by (simp add: len_def)
        have "length (take n (drop (offset f) (contents f))) = n" using n(3) by simp
        then show ?thesis
          unfolding m using n fd l t rem len
          by (simp add: f1_def conf_wf_def remaining_def len_def[symmetric])
      qed
    qed
  qed
qed

lemma take_drop_Suc:
  assumes "start \<le> p" "p < length b"
  shows "take (Suc p - start) (drop start b) = take (p - start) (drop start b) @ [b ! p]"
proof -
  have "take (Suc (p - start)) (drop start b) = take (p - start) (drop start b) @ [drop start b ! (p - start)]"
    using assms by (intro take_Suc_conv_app_nth) simp
  then show ?thesis using assms by (simp add: Suc_diff_le)
qed

lemma conf_loop_refines:
  assumes "conf_wf f" "start \<le> pos f" "conf_loop start sl l f = (t, f')"
  shows "conf_wf f' \<and> has_fd f' = has_fd f
    \<and> (t, remaining f') = lex_text (has_fd f) (take (pos f - start) (drop start (buf f))) l (remaining f)"
  using assms
proof (induction start sl l f rule: conf_loop.induct)
  case (1 start sl l f)
  define raw where "raw = take (pos f - start) (drop start (buf f))"
  note bytes = more_bytes_ok[OF "1.prems"(1,2) raw_def, of l sl]
  show ?case
  proof (cases "more_bytes start sl l f")
    case (Inl r)
    then show ?thesis using bytes "1.prems"(3) by (subst (asm) conf_loop.simps) (auto simp: raw_def split: prod.splits)
  next
    case (Inr fs)
    obtain f1 start1 where fs: "fs = (f1, start1)" by fastforce
    have ok: "conf_wf f1" "has_fd f1 = has_fd f" "remaining f1 = remaining f" "pos f1 < length (buf f1)"
      "start1 \<le> pos f1" "raw = take (pos f1 - start1) (drop start1 (buf f1))"
      "has_fd f \<longrightarrow> length raw \<noteq> NGX_CONF_BUFFER"
      using bytes Inr fs by auto
    let ?ch = "buf f1 ! pos f1" and ?f2 = "advance_byte (buf f1 ! pos f1) f1"
    have rem: "remaining f1 = ?ch # remaining ?f2"
      using ok(4) by (simp add: remaining_def Cons_nth_drop_Suc[symmetric])
    have wf2: "conf_wf ?f2" using ok(1,4) by (simp add: conf_wf_def split: if_splits)
    have loop: "conf_loop start sl l f
        = (case lex_char raw ?ch l of
             Token t \<Rightarrow> (t, ?f2)
           | Next l' Keep \<Rightarrow> conf_loop start1 sl l' ?f2
           | Next l' Here \<Rightarrow> conf_loop (pos f1) (line ?f2) l' ?f2
           | Next l' After \<Rightarrow> conf_loop (Suc (pos f1)) (line ?f2) l' ?f2)"
      using Inr fs ok(4,6) by (subst conf_loop.simps) (simp add: Let_def)
    have abs: "lex_text (has_fd f) raw l (remaining f)
        = (case lex_char raw ?ch l of
             Token t \<Rightarrow> (t, remaining ?f2)
           | Next l' Keep \<Rightarrow> lex_text (has_fd f) (raw @ [?ch]) l' (remaining ?f2)
           | Next l' Here \<Rightarrow> lex_text (has_fd f) [?ch] l' (remaining ?f2)
           | Next l' After \<Rightarrow> lex_text (has_fd f) [] l' (remaining ?f2))"
      unfolding rem[unfolded ok(3)] using ok(7) by auto
    note IH = "1.IH"[OF Inr fs[symmetric] rd_in[OF ok(4)] refl]
    show ?thesis
    proof (cases "lex_char raw ?ch l")
      case (Token t')
      then show ?thesis using loop abs "1.prems"(3) wf2 ok(2) raw_def by simp
    next
      case (Next l' mv)
      have n: "lex_char (take (pos f1 - start1) (drop start1 (buf f1))) ?ch l = Next l' mv"
        using Next ok(6) by simp
      show ?thesis
      proof (cases mv)
        case Keep
        then show ?thesis
          using IH(1)[OF n Keep wf2] loop abs "1.prems"(3) Next Keep ok(2,5,6) take_drop_Suc[OF ok(5,4)] raw_def
          by simp
      next
        case Here
        have "take (Suc (pos f1) - pos f1) (drop (pos f1) (buf f1)) = [?ch]"
          using ok(4) by (simp add: take_Suc_conv_app_nth)
        then show ?thesis
          using IH(2)[OF n Here wf2] loop abs "1.prems"(3) Next Here ok(2) raw_def by simp
      next
        case After
        then show ?thesis
          using IH(3)[OF n After wf2] loop abs "1.prems"(3) Next After ok(2) raw_def by simp
      qed
    qed
  qed
qed

lemma lex_text_shorter:
  "lex_text fd raw l body = (t, rest) \<Longrightarrow> length rest \<le> length body
     \<and> ((\<exists>b a. t = Directive b a) \<or> t = Block_done \<longrightarrow> length rest < length body)"
proof (induction fd raw l body rule: lex_text.induct)
  case (2 fd raw l ch body)
  then show ?case by (fastforce split: if_splits lex_turn.splits lex_move.splits)
qed (auto split: if_splits)

text \<open>C27: the buffer of the configuration lexer is transparent.  Reading a token from a file
  through refills of the buffer, wherever they fall, gives the token that the lexer gives on the
  text of the file, and leaves the rest of the text to be read; no byte is read outside the
  buffer.  Only the length of the buffer shows: a word (or a comment, or the space after a word)
  that goes on behind its first 4096 bytes is an error.\<close>

theorem conf_buffer_transparent:
  assumes "conf_wf f" "ngx_conf_read_token f = (t, f')"
  shows "conf_wf f' \<and> has_fd f' = has_fd f \<and> read_text (has_fd f) (remaining f) = (t, remaining f')"
  using conf_loop_refines[OF assms(1) order_refl assms(2)[unfolded ngx_conf_read_token_def]]
  by (simp add: read_text_def)

theorem conf_buffer_transparent_witness:
  "conf_wf (open_file (str ''a b;'')) \<and>
   (\<exists>f'. ngx_conf_read_token (open_file (str ''a b;'')) = (Directive False [str ''a'', str ''b''], f')
     \<and> read_text True (str ''a b;'') = (Directive False [str ''a'', str ''b''], remaining f'))"
proof -
  have r: "read_text True (str ''a b;'') = (Directive False [str ''a'', str ''b''], [])"
    by code_simp
  obtain t f' where t: "ngx_conf_read_token (open_file (str ''a b;'')) = (t, f')" by fastforce
  then show ?thesis
    using conf_buffer_transparent[OF open_file_wf(1) t] r by simp
qed

text \<open>A directive has a word, and nothing is left over before a closing brace.\<close>

lemma lex_char_args:
  "lex_char raw ch l = Token t \<Longrightarrow> \<not> need_space l \<or> args l \<noteq> [] \<Longrightarrow>
     (\<forall>b a. t = Directive b a \<longrightarrow> a \<noteq> [])"
  by (auto simp: lex_char_def after_space_def word_start_def word_char_def Let_def split: if_splits)

lemma lex_char_need:
  "lex_char raw ch l = Next l' mv \<Longrightarrow> need_space l \<longrightarrow> args l \<noteq> [] \<Longrightarrow> need_space l' \<longrightarrow> args l' \<noteq> []"
  by (auto simp: lex_char_def after_space_def word_start_def word_char_def word_done_def Let_def split: if_splits)

lemma lex_text_args:
  "lex_text fd raw l body = (t, rest) \<Longrightarrow> need_space l \<longrightarrow> args l \<noteq> [] \<Longrightarrow> t = Directive b a \<Longrightarrow> a \<noteq> []"
proof (induction fd raw l body rule: lex_text.induct)
  case (2 fd raw l ch body)
  have need: "need_space l' \<longrightarrow> args l' \<noteq> []" if "lex_char raw ch l = Next l' mv" for l' mv
    using lex_char_need[OF that] 2(5) by blast
  show ?case
  proof (cases "lex_char raw ch l")
    case (Token t')
    then show ?thesis using lex_char_args[OF Token] 2(4-6) by (auto split: if_splits)
  next
    case (Next l' mv)
    then show ?thesis
      using 2(1-3)[OF _ Next] need[OF Next] 2(4-6) by (cases mv) (auto split: if_splits)
  qed
qed (auto split: if_splits)

lemma read_token_facts:
  assumes "conf_wf f" "ngx_conf_read_token f = (t, f')"
  shows "length (remaining f') \<le> length (remaining f)"
    "(\<exists>b a. t = Directive b a) \<or> t = Block_done \<Longrightarrow> length (remaining f') < length (remaining f)"
    "t = Directive b a \<Longrightarrow> a \<noteq> []"
  using conf_buffer_transparent[OF assms] lex_text_shorter lex_text_args
  by (fastforce simp: read_text_def lex_start_def)+

text \<open>Three things the lexer does that it should not.  The dollar of a variable is seen inside a
  word only, so that \<^verbatim>\<open>${name}\<close> at the start of a word opens a block; a word that the end of the
  file cuts off is forgotten when it is the first of its directive; and the length of the buffer
  bounds comments.\<close>

lemma variable_opens_block:
  "read_text True (str ''${b};'') = (Directive True [str ''$''], str ''b};'')"
  by code_simp

lemma cut_off_word_forgotten: "read_text True (str ''on'') = (File_done, [])"
  by code_simp

lemma long_comment:
  assumes "sharp_comment l" "LF \<notin> set body" "length raw \<le> NGX_CONF_BUFFER"
    "NGX_CONF_BUFFER < length raw + length body"
  shows "fst (lex_text True raw l body) = Tok_error (Too_long (quote_char l))"
  using assms
proof (induction body arbitrary: raw)
  case (Cons c body)
  then show ?case by (auto simp: lex_char_def)
qed simp

lemma comment_too_long:
  assumes "LF \<notin> set body" "NGX_CONF_BUFFER \<le> length body"
  shows "fst (read_text True (0x23 # body)) = Tok_error (Too_long None)"
proof -
  have "fst (lex_text True [0x23] (lex_start\<lparr>sharp_comment := True\<rparr>) body)
      = Tok_error (Too_long (quote_char (lex_start\<lparr>sharp_comment := True\<rparr>)))"
    by (rule long_comment) (use assms in \<open>simp_all add: NGX_CONF_BUFFER_def\<close>)
  then show ?thesis
    by (simp add: read_text_def lex_char_def after_space_def word_start_def is_space_def lex_start_def
        quote_char_def NGX_CONF_BUFFER_def)
qed

end
