(* ===== verification/NgxConfParse.thy ===== *)
theory NgxConfParse
  imports NgxConf
begin

text \<open>
  The parser of the configuration: \<^verbatim>\<open>ngx_conf_parse\<close> and \<^verbatim>\<open>ngx_conf_handler\<close> of
  \<^verbatim>\<open>src/core/ngx_conf_file.c\<close>.  The parser reads directives and hands each to the command of
  that name that some module declares; the command of a block calls the parser again for what
  is between the braces.  The commands themselves are the modules': a parameter, that changes a
  state \<open>'a\<close> and says whether a block is to be parsed.
\<close>

section \<open>Commands\<close>

abbreviation NGX_CONF_BLOCK :: u32 where "NGX_CONF_BLOCK \<equiv> 0x100"
abbreviation NGX_CONF_FLAG :: u32 where "NGX_CONF_FLAG \<equiv> 0x200"
abbreviation NGX_CONF_ANY :: u32 where "NGX_CONF_ANY \<equiv> 0x400"
abbreviation NGX_CONF_1MORE :: u32 where "NGX_CONF_1MORE \<equiv> 0x800"
abbreviation NGX_CONF_2MORE :: u32 where "NGX_CONF_2MORE \<equiv> 0x1000"
abbreviation NGX_CONF_MULTI :: u32 where "NGX_CONF_MULTI \<equiv> 0x2000"
abbreviation NGX_DIRECT_CONF :: u32 where "NGX_DIRECT_CONF \<equiv> 0x10000"
abbreviation NGX_MAIN_CONF :: u32 where "NGX_MAIN_CONF \<equiv> 0x1000000"
abbreviation NGX_CONF_MODULE :: u32 where "NGX_CONF_MODULE \<equiv> 0x464E4F43"

definition NGX_CONF_MAX_ARGS :: nat where "NGX_CONF_MAX_ARGS = 8"

definition argument_number :: "u32 list" where
  "argument_number = [0x01, 0x02, 0x04, 0x08, 0x10, 0x20, 0x40, 0x80]"

record command =
  c_name :: bytes
  c_type :: u32
  c_conf :: nat

record conf_module =
  m_type :: u32
  commands :: "command list"

text \<open>Where a command finds its configuration: the slot of the module, the address of the slot,
  or a slot of the context at an offset.\<close>

datatype conf_slot = Direct | Main | Slot nat

record 'a conf_ctx =
  cmd_type :: u32
  module_type :: u32
  custom :: "(bytes list \<Rightarrow> 'a \<Rightarrow> 'a option) option"

text \<open>The answer of a command: done, failed, or a block to be parsed in a context.\<close>

datatype 'a answer = Set_ok 'a | Set_failed | Parse_block "'a conf_ctx" 'a

record 'a conf_env =
  modules :: "conf_module list"
  set_cmd :: "nat \<Rightarrow> command \<Rightarrow> conf_slot \<Rightarrow> bytes list \<Rightarrow> 'a \<Rightarrow> 'a answer"
  close_block :: "nat \<Rightarrow> command \<Rightarrow> 'a \<Rightarrow> 'a option"

datatype conf_error =
    Lex_error lex_error
  | Unexpected_close
  | Unexpected_end
  | Block_in_parameter
  | Unknown_directive
  | Not_allowed_here
  | Not_terminated
  | No_opening_brace
  | Invalid_number_of_arguments
  | Command_failed

definition has_flag :: "u32 \<Rightarrow> u32 \<Rightarrow> bool" where
  "has_flag t m \<longleftrightarrow> t AND m \<noteq> 0"

section \<open>Choosing the command\<close>

text \<open>The commands of the modules that are looked at, with the index of the module.\<close>

definition candidates :: "'a conf_env \<Rightarrow> 'a conf_ctx \<Rightarrow> (nat \<times> command) list" where
  "candidates env ctx =
     concat (map (\<lambda>(i, m). if m_type m = NGX_CONF_MODULE \<or> m_type m = module_type ctx
                           then map (Pair i) (commands m) else [])
       (enumerate 0 (modules env)))"

fun find_command ::
  "u32 \<Rightarrow> bytes \<Rightarrow> bool \<Rightarrow> (nat \<times> command) list \<Rightarrow> conf_error + nat \<times> command" where
  "find_command ct name multi [] = Inl (if multi then Not_allowed_here else Unknown_directive)"
| "find_command ct name multi ((i, c) # cs) =
     (if c_name c \<noteq> name then find_command ct name multi cs
      else if \<not> has_flag (c_type c) ct
      then (if has_flag (c_type c) NGX_CONF_MULTI then find_command ct name True cs
            else Inl Not_allowed_here)
      else Inr (i, c))"

text \<open>The number of words, the name included.  The table is indexed by one less: a directive has
  a word.\<close>

definition args_ok :: "u32 \<Rightarrow> nat \<Rightarrow> bool" where
  "args_ok t n =
     (if has_flag t NGX_CONF_ANY then True
      else if has_flag t NGX_CONF_FLAG then n = 2
      else if has_flag t NGX_CONF_1MORE then \<not> n < 2
      else if has_flag t NGX_CONF_2MORE then \<not> n < 3
      else if n > NGX_CONF_MAX_ARGS then False
      else has_flag t (argument_number ! (n - 1)))"

definition ngx_conf_handler ::
  "'a conf_env \<Rightarrow> 'a conf_ctx \<Rightarrow> bytes list \<Rightarrow> bool \<Rightarrow> conf_error + nat \<times> command" where
  "ngx_conf_handler env ctx ws opened =
     (case find_command (cmd_type ctx) (hd ws) False (candidates env ctx) of
        Inl e \<Rightarrow> Inl e
      | Inr (i, c) \<Rightarrow>
          if \<not> has_flag (c_type c) NGX_CONF_BLOCK \<and> opened then Inl Not_terminated
          else if has_flag (c_type c) NGX_CONF_BLOCK \<and> \<not> opened then Inl No_opening_brace
          else if \<not> args_ok (c_type c) (length ws) then Inl Invalid_number_of_arguments
          else Inr (i, c))"

definition slot_of :: "command \<Rightarrow> conf_slot" where
  "slot_of c =
     (if has_flag (c_type c) NGX_DIRECT_CONF then Direct
      else if has_flag (c_type c) NGX_MAIN_CONF then Main
      else Slot (c_conf c))"

section \<open>The parser\<close>

datatype parse_type = Parse_file | Parse_nested | Parse_param

text \<open>The fuel bounds the number of tokens read; the length of what is left is enough.\<close>

fun ngx_conf_parse ::
  "nat \<Rightarrow> 'a conf_env \<Rightarrow> 'a conf_ctx \<Rightarrow> parse_type \<Rightarrow> conf_file \<Rightarrow> 'a \<Rightarrow> (conf_error + 'a \<times> conf_file) option"
where
  "ngx_conf_parse 0 env ctx ty f st = None"
| "ngx_conf_parse (Suc n) env ctx ty f st =
     (let (t, f1) = ngx_conf_read_token f in
      case t of
        Tok_error e \<Rightarrow> Some (Inl (Lex_error e))
      | Block_done \<Rightarrow> Some (if ty \<noteq> Parse_nested then Inl Unexpected_close else Inr (st, f1))
      | File_done \<Rightarrow> Some (if ty = Parse_nested then Inl Unexpected_end else Inr (st, f1))
      | Directive opened ws \<Rightarrow>
          if opened \<and> ty = Parse_param then Some (Inl Block_in_parameter)
          else (case custom ctx of
              Some h \<Rightarrow>
                (case h ws st of
                   None \<Rightarrow> Some (Inl Command_failed)
                 | Some st1 \<Rightarrow> ngx_conf_parse n env ctx ty f1 st1)
            | None \<Rightarrow>
                (case ngx_conf_handler env ctx ws opened of
                   Inl e \<Rightarrow> Some (Inl e)
                 | Inr (i, c) \<Rightarrow>
                     (case set_cmd env i c (slot_of c) ws st of
                        Set_failed \<Rightarrow> Some (Inl Command_failed)
                      | Set_ok st1 \<Rightarrow> ngx_conf_parse n env ctx ty f1 st1
                      | Parse_block ctx1 st1 \<Rightarrow>
                          (case ngx_conf_parse n env ctx1 (if has_fd f1 then Parse_nested else Parse_param) f1 st1 of
                             None \<Rightarrow> None
                           | Some (Inl e) \<Rightarrow> Some (Inl e)
                           | Some (Inr (st2, f2)) \<Rightarrow>
                               (case close_block env i c st2 of
                                  None \<Rightarrow> Some (Inl Command_failed)
                                | Some st3 \<Rightarrow> ngx_conf_parse n env ctx ty f2 st3))))))"

declare ngx_conf_parse.simps(2) [simp del]

text \<open>A file, with the buffer it is read through, and the parameter of \<^verbatim>\<open>-g\<close>.\<close>

definition parse_text :: "'a conf_env \<Rightarrow> 'a conf_ctx \<Rightarrow> bytes \<Rightarrow> 'a \<Rightarrow> (conf_error + 'a) option" where
  "parse_text env ctx b st =
     map_option (map_sum id fst) (ngx_conf_parse (Suc (length b)) env ctx Parse_file (open_file b) st)"

definition ngx_conf_param :: "'a conf_env \<Rightarrow> 'a conf_ctx \<Rightarrow> bytes \<Rightarrow> 'a \<Rightarrow> (conf_error + 'a) option" where
  "ngx_conf_param env ctx b st =
     (if b = [] then Some (Inr st)
      else map_option (map_sum id fst) (ngx_conf_parse (Suc (length b)) env ctx Parse_param (open_param b) st))"

section \<open>The choice of the command\<close>

lemma find_command_decides:
  "find_command ct name multi cs =
     (case dropWhile (\<lambda>(i, c). \<not> has_flag (c_type c) ct \<and> has_flag (c_type c) NGX_CONF_MULTI)
             (filter (\<lambda>(i, c). c_name c = name) cs) of
        [] \<Rightarrow> Inl (if multi \<or> (\<exists>(i, c) \<in> set cs. c_name c = name) then Not_allowed_here else Unknown_directive)
      | (i, c) # _ \<Rightarrow> if has_flag (c_type c) ct then Inr (i, c) else Inl Not_allowed_here)"
  by (induction ct name multi cs rule: find_command.induct) (auto split: list.splits)

text \<open>The flags of the numbers of arguments, bit by bit.\<close>

lemma argument_bit:
  assumes "1 \<le> n" "n \<le> 8"
  shows "has_flag t (argument_number ! (n - 1)) \<longleftrightarrow> bit t (n - 1)"
proof -
  have n: "n \<in> {1, 2, 3, 4, 5, 6, 7, 8}" using assms by auto
  have "argument_number ! (n - 1) = 2 ^ (n - 1)"
    using n by (auto simp: argument_number_def)
  then show ?thesis by (simp add: has_flag_def and_exp_eq_0_iff_not_bit)
qed

definition takes :: "u32 \<Rightarrow> nat \<Rightarrow> bool" where
  "takes t n \<longleftrightarrow>
     bit t 10 \<or> (if bit t 9 then n = 2 else if bit t 11 then n \<ge> 2 else if bit t 12 then n \<ge> 3
                 else n \<le> 8 \<and> bit t (n - 1))"

lemma has_flag_bit: "has_flag t (2 ^ n) \<longleftrightarrow> bit t n"
  by (simp add: has_flag_def and_exp_eq_0_iff_not_bit)

lemmas flag_bits = has_flag_bit[of _ 8, simplified] has_flag_bit[of _ 9, simplified] has_flag_bit[of _ 10, simplified]
  has_flag_bit[of _ 11, simplified] has_flag_bit[of _ 12, simplified] has_flag_bit[of _ 13, simplified]

lemma args_ok_takes: "n \<noteq> 0 \<Longrightarrow> args_ok t n \<longleftrightarrow> takes t n"
  using argument_bit[of n t] by (auto simp: args_ok_def takes_def flag_bits NGX_CONF_MAX_ARGS_def)

text \<open>C29: which error a directive gets.  Of the commands of its name, those that are not allowed
  in the context are passed over as long as they say that others may follow.  The directive is
  unknown exactly when no command has its name, and not allowed when none is left or the first
  one left is not allowed here; the first one that is allowed decides whether a block or a
  semicolon must follow the words, and then, by the bits of its type, how many words there may
  be.  With none of these errors, that command is run.\<close>

theorem conf_handler_errors:
  assumes "ws \<noteq> []"
  shows "ngx_conf_handler env ctx ws opened =
    (let named = filter (\<lambda>(i, c). c_name c = hd ws) (candidates env ctx);
         allowed = (\<lambda>c. has_flag (c_type c) (cmd_type ctx))
     in case dropWhile (\<lambda>(i, c). \<not> allowed c \<and> bit (c_type c) 13) named of
          [] \<Rightarrow> Inl (if named = [] then Unknown_directive else Not_allowed_here)
        | (i, c) # _ \<Rightarrow>
            if \<not> allowed c then Inl Not_allowed_here
            else if opened \<and> \<not> bit (c_type c) 8 then Inl Not_terminated
            else if \<not> opened \<and> bit (c_type c) 8 then Inl No_opening_brace
            else if \<not> takes (c_type c) (length ws) then Inl Invalid_number_of_arguments
            else Inr (i, c))"
proof -
  define named where "named = filter (\<lambda>(i, c). c_name c = hd ws) (candidates env ctx)"
  have n: "(\<exists>(i, c) \<in> set (candidates env ctx). c_name c = hd ws) \<longleftrightarrow> named \<noteq> []"
    by (auto simp: named_def filter_empty_conv)
  have f: "find_command (cmd_type ctx) (hd ws) False (candidates env ctx)
      = (case dropWhile (\<lambda>(i, c). \<not> has_flag (c_type c) (cmd_type ctx) \<and> bit (c_type c) 13) named of
           [] \<Rightarrow> Inl (if named \<noteq> [] then Not_allowed_here else Unknown_directive)
         | (i, c) # _ \<Rightarrow> if has_flag (c_type c) (cmd_type ctx) then Inr (i, c) else Inl Not_allowed_here)"
    unfolding find_command_decides named_def[symmetric] n by (simp add: flag_bits)
  have len: "length ws \<noteq> 0" using assms by simp
  show ?thesis
    unfolding ngx_conf_handler_def f named_def[symmetric] Let_def
    by (cases "dropWhile (\<lambda>(i, c). \<not> has_flag (c_type c) (cmd_type ctx) \<and> bit (c_type c) 13) named")
      (auto simp del: dropWhile_eq_Nil_conv simp: args_ok_takes[OF len] flag_bits)
qed

text \<open>A directive \<^verbatim>\<open>listen\<close> of one argument, in a module for blocks of type 2.\<close>

definition listen_env :: "nat conf_env" where
  "listen_env = \<lparr>modules = [\<lparr>m_type = 7, commands = [\<lparr>c_name = str ''listen'', c_type = 0x2000002, c_conf = 0\<rparr>]\<rparr>],
     set_cmd = (\<lambda>i c slot ws st. Set_ok (Suc st)), close_block = (\<lambda>i c st. Some st)\<rparr>"

definition listen_ctx :: "nat conf_ctx" where
  "listen_ctx = \<lparr>cmd_type = 0x2000000, module_type = 7, custom = None\<rparr>"

theorem conf_handler_errors_witness:
  "ngx_conf_handler listen_env listen_ctx [str ''listen''] False = Inl Invalid_number_of_arguments
   \<and> [str ''listen''] \<noteq> []"
  by (subst conf_handler_errors) code_simp+

end
