(* ===== verification/NgxConfTree.thy ===== *)
theory NgxConfTree
  imports NgxConfParse
begin

text \<open>
  The parser of the configuration ends on every file, and reads back what is written: a tree of
  directives, printed and parsed, runs the commands the tree stands for.  The text goes through
  the lexer of \<^verbatim>\<open>NgxConf\<close>, whose buffer may be refilled anywhere.
\<close>

section \<open>The fuel\<close>

lemma parse_mono: "ngx_conf_parse n env ctx ty f st = Some r \<Longrightarrow> n \<le> m \<Longrightarrow> ngx_conf_parse m env ctx ty f st = Some r"
proof (induction n arbitrary: m ctx ty f st r)
  case (Suc n)
  obtain k where m: "m = Suc k" "n \<le> k" using Suc.prems(2) by (cases m) auto
  obtain t f1 where t: "ngx_conf_read_token f = (t, f1)" by fastforce
  have IH: "ngx_conf_parse n env c y g s = Some q \<Longrightarrow> ngx_conf_parse k env c y g s = Some q" for c y g s q
    using Suc.IH m(2) by blast
  show ?case
    using Suc.prems(1) unfolding m(1) ngx_conf_parse.simps(2) t Let_def prod.case
    by (cases t)
      (auto split: option.splits sum.splits answer.splits if_splits dest!: IH)
qed simp

lemma parse_enough:
  assumes "conf_wf f" "length (remaining f) < n"
  shows "\<exists>r. ngx_conf_parse n env ctx ty f st = Some r
    \<and> (case r of Inr (st', f') \<Rightarrow> conf_wf f' \<and> length (remaining f') \<le> length (remaining f) | Inl e \<Rightarrow> True)"
  using assms
proof (induction n arbitrary: ctx ty f st)
  case (Suc n)
  obtain t f1 where t: "ngx_conf_read_token f = (t, f1)" by fastforce
  note tok = read_token_facts[OF Suc.prems(1) t]
  have wf: "conf_wf f1" using conf_loop_refines[OF Suc.prems(1) order_refl t[unfolded ngx_conf_read_token_def]] by blast
  have IH: "\<exists>r. ngx_conf_parse n env c y g s = Some r
      \<and> (case r of Inr (st', f') \<Rightarrow> conf_wf f' \<and> length (remaining f') \<le> length (remaining f) | Inl e \<Rightarrow> True)"
    if "conf_wf g" "length (remaining g) < length (remaining f)" for c y g s
    using Suc.IH[OF that(1), of c y s] that(2) Suc.prems(2) by (fastforce split: sum.splits)
  show ?case
  proof (cases "\<exists>b a. t = Directive b a")
    case False
    then show ?thesis
      using t tok(1) wf by (cases t) (auto simp: ngx_conf_parse.simps(2))
  next
    case True
    then have less: "length (remaining f1) < length (remaining f)" using tok(2) by blast
    note next_one = IH[OF wf less]
    have inner: "\<exists>r. (case ngx_conf_parse n env c y f1 s of
             None \<Rightarrow> None
           | Some (Inl e) \<Rightarrow> Some (Inl e)
           | Some (Inr (st2, f2)) \<Rightarrow>
               (case close_block env i d st2 of
                  None \<Rightarrow> Some (Inl Command_failed)
                | Some st3 \<Rightarrow> ngx_conf_parse n env ctx ty f2 st3)) = Some r
        \<and> (case r of Inr (st', f') \<Rightarrow> conf_wf f' \<and> length (remaining f') \<le> length (remaining f) | Inl e \<Rightarrow> True)" for c y s i d
    proof -
      have "length (remaining f1) < n" using less Suc.prems(2) by simp
      then obtain r where r: "ngx_conf_parse n env c y f1 s = Some r"
          "case r of Inr (st', f') \<Rightarrow> conf_wf f' \<and> length (remaining f') \<le> length (remaining f1) | Inl e \<Rightarrow> True"
        using Suc.IH[OF wf, of c y s] by blast
      show ?thesis
      proof (cases r)
        case (Inl e)
        then show ?thesis using r(1) by simp
      next
        case (Inr p)
        obtain st2 f2 where p: "p = (st2, f2)" by fastforce
        have "conf_wf f2" "length (remaining f2) < length (remaining f)" using r(2) Inr p less by simp_all
        note IH[OF this, of ctx ty]
        then show ?thesis using r(1) Inr p by (cases "close_block env i d st2") simp_all
      qed
    qed
    obtain b a where d: "t = Directive b a" using True by blast
    show ?thesis
    proof (cases "b \<and> ty = Parse_param")
      case True
      then show ?thesis by (simp add: ngx_conf_parse.simps(2) t d)
    next
      case False
      note step = ngx_conf_parse.simps(2)[of n env ctx ty f st, unfolded t d Let_def prod.case token.case if_not_P[OF False]]
      show ?thesis
      proof (cases "custom ctx")
        case (Some h)
        then show ?thesis unfolding step using next_one by (cases "h a st") simp_all
      next
        case None
        show ?thesis
        proof (cases "ngx_conf_handler env ctx a b")
          case (Inl e)
          then show ?thesis unfolding step using None by simp
        next
          case (Inr p)
          obtain i c where p: "p = (i, c)" by fastforce
          show ?thesis
            unfolding step using None Inr p next_one inner
            by (cases "set_cmd env i c (slot_of c) a st") simp_all
        qed
      qed
    qed
  qed
qed simp

text \<open>The parser ends on every file.\<close>

lemma parse_text_total: "\<exists>r. parse_text env ctx b st = Some r"
  using parse_enough[of "open_file b" "Suc (length b)" env ctx Parse_file st] by (auto simp: parse_text_def)

lemma parse_unique:
  assumes "ngx_conf_parse n env ctx ty f st = Some r" "ngx_conf_parse m env ctx ty f st = Some q"
  shows "r = q"
  using assms parse_mono[of _ env ctx ty f st _ "max n m"] by (metis max.cobounded1 max.cobounded2 option.inject)

section \<open>Trees of directives\<close>

datatype conf_directive = Simple "bytes list" | Block "bytes list" "conf_directive list"

text \<open>What a list of directives means: each goes to its command, in order, the directives inside a
  block to the commands of the context that the command of the block opens.  The value is
  \<open>None\<close> where the braces do not fit what the command does with them.\<close>

definition after_set :: "'a answer \<Rightarrow> (conf_error + 'a) option" where
  "after_set a =
     (case a of Set_ok st \<Rightarrow> Some (Inr st) | Set_failed \<Rightarrow> Some (Inl Command_failed) | Parse_block _ _ \<Rightarrow> None)"

fun run_directive :: "'a conf_env \<Rightarrow> 'a conf_ctx \<Rightarrow> conf_directive \<Rightarrow> 'a \<Rightarrow> (conf_error + 'a) option"
and run_directives :: "'a conf_env \<Rightarrow> 'a conf_ctx \<Rightarrow> conf_directive list \<Rightarrow> 'a \<Rightarrow> (conf_error + 'a) option"
where
  "run_directive env ctx (Simple ws) st =
     (case custom ctx of
        Some h \<Rightarrow> Some (case h ws st of None \<Rightarrow> Inl Command_failed | Some st1 \<Rightarrow> Inr st1)
      | None \<Rightarrow>
          (case ngx_conf_handler env ctx ws False of
             Inl e \<Rightarrow> Some (Inl e)
           | Inr (i, c) \<Rightarrow> after_set (set_cmd env i c (slot_of c) ws st)))"
| "run_directive env ctx (Block ws ds) st =
     (case custom ctx of
        Some h \<Rightarrow> None
      | None \<Rightarrow>
          (case ngx_conf_handler env ctx ws True of
             Inl e \<Rightarrow> Some (Inl e)
           | Inr (i, c) \<Rightarrow>
               (case set_cmd env i c (slot_of c) ws st of
                  Set_ok _ \<Rightarrow> None
                | Set_failed \<Rightarrow> Some (Inl Command_failed)
                | Parse_block ctx1 st1 \<Rightarrow>
                    (case run_directives env ctx1 ds st1 of
                       None \<Rightarrow> None
                     | Some (Inl e) \<Rightarrow> Some (Inl e)
                     | Some (Inr st2) \<Rightarrow>
                         Some (case close_block env i c st2 of None \<Rightarrow> Inl Command_failed | Some st3 \<Rightarrow> Inr st3)))))"
| "run_directives env ctx [] st = Some (Inr st)"
| "run_directives env ctx (d # ds) st =
     (case run_directive env ctx d st of
        None \<Rightarrow> None
      | Some (Inl e) \<Rightarrow> Some (Inl e)
      | Some (Inr st1) \<Rightarrow> run_directives env ctx ds st1)"

text \<open>How they are written: every word in double quotes.\<close>

definition escape_byte :: "u8 \<Rightarrow> bytes" where
  "escape_byte c = (if c = 0x22 \<or> c = 0x5c then [0x5c, c] else [c])"

definition escaped :: "bytes \<Rightarrow> bytes" where
  "escaped w = concat (map escape_byte w)"

definition print_words :: "bytes list \<Rightarrow> bytes" where
  "print_words ws = concat (map (\<lambda>w. 0x22 # escaped w @ [0x22, 0x20]) ws)"

fun print_directive :: "conf_directive \<Rightarrow> bytes" where
  "print_directive (Simple ws) = print_words ws @ [0x3b, LF]"
| "print_directive (Block ws ds) = print_words ws @ [0x7b, LF] @ concat (map print_directive ds) @ [0x7d, LF]"

definition print_directives :: "conf_directive list \<Rightarrow> bytes" where
  "print_directives ds = concat (map print_directive ds)"

text \<open>Every word fits the buffer, and every directive has one.\<close>

definition words_ok :: "bytes list \<Rightarrow> bool" where
  "words_ok ws \<longleftrightarrow> ws \<noteq> [] \<and> (\<forall>w \<in> set ws. length (escaped w) + 2 < NGX_CONF_BUFFER)"

fun directive_ok :: "conf_directive \<Rightarrow> bool" where
  "directive_ok (Simple ws) \<longleftrightarrow> words_ok ws"
| "directive_ok (Block ws ds) \<longleftrightarrow> words_ok ws \<and> list_all directive_ok ds"

section \<open>Lexing the words\<close>

lemma escaped_simps [simp]: "escaped [] = []" "escaped (c # w) = escape_byte c @ escaped w"
  by (simp_all add: escaped_def)

lemma word_text_plain: "c \<noteq> 0x5c \<Longrightarrow> word_text t (c # r) = c # word_text t r"
  by (cases r) simp_all

lemma word_text_escaped: "word_text t (escaped w) = w"
  by (induction w) (auto simp: escape_byte_def escape_of_def word_text_plain)

text \<open>The states inside a quoted word, behind it and between words.\<close>

definition in_word :: "bool \<Rightarrow> bytes list \<Rightarrow> conf_lex" where
  "in_word v a = \<lparr>need_space = False, last_space = False, sharp_comment = False, variable = v,
     quoted = False, s_quoted = False, d_quoted = True, args = a\<rparr>"

definition behind_word :: "bytes list \<Rightarrow> conf_lex" where
  "behind_word a = \<lparr>need_space = True, last_space = False, sharp_comment = False, variable = False,
     quoted = False, s_quoted = False, d_quoted = False, args = a\<rparr>"

definition between_words :: "bytes list \<Rightarrow> conf_lex" where
  "between_words a = lex_start\<lparr>args := a\<rparr>"

lemma in_word_char:
  "c \<noteq> 0x22 \<Longrightarrow> c \<noteq> 0x5c \<Longrightarrow> \<exists>v'. lex_char raw c (in_word v a) = Next (in_word v' a) Keep"
  by (auto simp: in_word_def lex_char_def after_space_def word_char_def word_ended_def Let_def)

lemma in_word_escape:
  "lex_char raw 0x5c (in_word v a) = Next ((in_word False a)\<lparr>quoted := True\<rparr>) Keep"
  "lex_char raw c ((in_word False a)\<lparr>quoted := True\<rparr>) = Next (in_word False a) Keep"
  by (auto simp: in_word_def lex_char_def after_space_def word_char_def Let_def)

lemma in_word_end:
  "lex_char raw 0x22 (in_word v a) = Next (behind_word (a @ [word_text 0x22 raw])) Keep"
  by (simp add: in_word_def behind_word_def lex_char_def after_space_def word_char_def word_ended_def
      word_done_def Let_def)

lemma behind_word_space: "lex_char raw 0x20 (behind_word a) = Next (between_words a) Keep"
  by (simp add: behind_word_def between_words_def lex_start_def lex_char_def is_space_def Let_def)

lemma between_words_char:
  "lex_char raw 0x22 (between_words a) = Next (in_word False a) After"
  "lex_char raw LF (between_words a) = Next (between_words a) Keep"
  "a \<noteq> [] \<Longrightarrow> lex_char raw 0x3b (between_words a) = Token (Directive False a)"
  "a \<noteq> [] \<Longrightarrow> lex_char raw 0x7b (between_words a) = Token (Directive True a)"
  "lex_char raw 0x7d (between_words []) = Token Block_done"
  by (simp_all add: between_words_def in_word_def lex_start_def lex_char_def after_space_def word_start_def
      is_space_def Let_def)

lemma lex_word:
  assumes "length raw + length (escaped w) < NGX_CONF_BUFFER"
  shows "lex_text fd raw (in_word v a) (escaped w @ 0x22 # rest)
    = lex_text fd (raw @ escaped w @ [0x22]) (behind_word (a @ [word_text 0x22 (raw @ escaped w)])) rest"
  using assms
proof (induction w arbitrary: raw v)
  case Nil
  then show ?case by (simp add: in_word_end)
next
  case (Cons c w)
  show ?case
  proof (cases "c = 0x22 \<or> c = 0x5c")
    case True
    then have e: "escape_byte c = [0x5c, c]" by (auto simp: escape_byte_def)
    show ?thesis
      using Cons.prems Cons.IH[of "raw @ [0x5c, c]" False] by (simp add: e in_word_escape)
  next
    case False
    then have e: "escape_byte c = [c]" by (auto simp: escape_byte_def)
    obtain v' where "lex_char raw c (in_word v a) = Next (in_word v' a) Keep"
      using in_word_char False by blast
    then show ?thesis
      using Cons.prems Cons.IH[of "raw @ [c]" v'] by (simp add: e)
  qed
qed

lemma lex_words:
  assumes "\<forall>w \<in> set ws. length (escaped w) + 2 < NGX_CONF_BUFFER" "length raw < NGX_CONF_BUFFER"
    "ch = 0x3b \<or> ch = 0x7b" "a @ ws \<noteq> []"
  shows "lex_text fd raw (between_words a) (print_words ws @ ch # rest) = (Directive (ch = 0x7b) (a @ ws), rest)"
  using assms
proof (induction ws arbitrary: a raw)
  case Nil
  then show ?case by (auto simp: print_words_def between_words_char)
next
  case (Cons w ws)
  have w: "length (escaped w) + 2 < NGX_CONF_BUFFER" using Cons.prems(1) by simp
  have "lex_text fd raw (between_words a) (print_words (w # ws) @ ch # rest)
      = lex_text fd [] (in_word False a) (escaped w @ 0x22 # 0x20 # print_words ws @ ch # rest)"
    using Cons.prems(2) by (simp add: print_words_def between_words_char)
  also have "\<dots> = lex_text fd (escaped w @ [0x22]) (behind_word (a @ [w])) (0x20 # print_words ws @ ch # rest)"
    using lex_word[of "[]" w fd False a] w by (simp add: word_text_escaped)
  also have "\<dots> = lex_text fd (escaped w @ [0x22, 0x20]) (between_words (a @ [w])) (print_words ws @ ch # rest)"
    using w by (simp add: behind_word_space)
  also have "\<dots> = (Directive (ch = 0x7b) (a @ w # ws), rest)"
    using Cons.IH[of "escaped w @ [0x22, 0x20]" "a @ [w]"] Cons.prems(1,3) w by simp
  finally show ?case .
qed

text \<open>The end of a directive leaves a line feed to be skipped.\<close>

definition starts_at :: "bytes \<Rightarrow> bytes \<Rightarrow> bool" where
  "starts_at b body \<longleftrightarrow> b = body \<or> b = LF # body"

lemma read_text_start: "read_text fd = lex_text fd [] (between_words [])"
  by (simp add: read_text_def between_words_def lex_start_def)

lemma lex_skip_LF: "lex_text fd [] (between_words a) (LF # b) = lex_text fd [LF] (between_words a) b"
  by (simp add: between_words_char NGX_CONF_BUFFER_def)

lemma read_words:
  assumes "starts_at b (print_words ws @ ch # rest)" "words_ok ws" "ch = 0x3b \<or> ch = 0x7b"
  shows "read_text fd b = (Directive (ch = 0x7b) ws, rest)"
  using assms lex_words[of ws "[]" ch "[]"] lex_words[of ws "[LF]" ch "[]"]
  by (auto simp: starts_at_def read_text_start lex_skip_LF words_ok_def NGX_CONF_BUFFER_def simp del: lex_text.simps)

lemma read_close: "starts_at b (0x7d # rest) \<Longrightarrow> read_text fd b = (Block_done, rest)"
  by (auto simp: starts_at_def read_text_start between_words_char NGX_CONF_BUFFER_def)

lemma read_end: "starts_at b [] \<Longrightarrow> read_text fd b = (File_done, [])"
  by (auto simp: starts_at_def read_text_start between_words_char NGX_CONF_BUFFER_def)
    (simp_all add: between_words_def lex_start_def)

section \<open>Parsing what was printed\<close>

text \<open>With enough fuel the parser gives a result that satisfies \<open>Q\<close>.\<close>

definition ends :: "'a conf_env \<Rightarrow> 'a conf_ctx \<Rightarrow> parse_type \<Rightarrow> conf_file \<Rightarrow> 'a \<Rightarrow> (conf_error + 'a \<times> conf_file \<Rightarrow> bool) \<Rightarrow> bool" where
  "ends env ctx ty f st Q \<longleftrightarrow> (\<exists>n r. ngx_conf_parse n env ctx ty f st = Some r \<and> Q r)"

definition ready :: "conf_file \<Rightarrow> bytes \<Rightarrow> bool" where
  "ready f b \<longleftrightarrow> conf_wf f \<and> has_fd f \<and> starts_at (remaining f) b"

lemma ready_token:
  assumes "ready f b" "\<And>c fd. starts_at c b \<Longrightarrow> read_text fd c = (t, rest)"
  shows "\<exists>f1. ngx_conf_read_token f = (t, f1) \<and> conf_wf f1 \<and> has_fd f1 \<and> remaining f1 = rest"
proof -
  obtain t1 f1 where r: "ngx_conf_read_token f = (t1, f1)" by fastforce
  have "conf_wf f1 \<and> has_fd f1 = has_fd f \<and> (t1, remaining f1) = read_text (has_fd f) (remaining f)"
    using conf_loop_refines[OF _ order_refl r[unfolded ngx_conf_read_token_def]] assms(1)
    by (simp add: ready_def read_text_def)
  then show ?thesis using assms r by (auto simp: ready_def)
qed

lemma ready_words:
  assumes "ready f (print_words ws @ ch # rest)" "words_ok ws" "ch = 0x3b \<or> ch = 0x7b"
  shows "\<exists>f1. ngx_conf_read_token f = (Directive (ch = 0x7b) ws, f1) \<and> conf_wf f1 \<and> has_fd f1 \<and> remaining f1 = rest"
  by (rule ready_token[OF assms(1)]) (rule read_words[OF _ assms(2,3)])

lemma ready_after: "conf_wf f \<Longrightarrow> has_fd f \<Longrightarrow> remaining f = LF # b \<Longrightarrow> ready f b"
  by (simp add: ready_def starts_at_def)

text \<open>One directive of the parser, as rules.\<close>

lemma ends_here:
  assumes "ngx_conf_read_token f = (t, f1)"
  shows "t = Block_done \<Longrightarrow> ty = Parse_nested \<Longrightarrow> Q (Inr (st, f1)) \<Longrightarrow> ends env ctx ty f st Q"
    "t = File_done \<Longrightarrow> ty \<noteq> Parse_nested \<Longrightarrow> Q (Inr (st, f1)) \<Longrightarrow> ends env ctx ty f st Q"
  using assms by (auto simp: ends_def ngx_conf_parse.simps(2) intro!: exI[of _ "Suc 0"])

lemma ends_directive:
  assumes "ngx_conf_read_token f = (Directive b ws, f1)" "ty \<noteq> Parse_param"
  shows "custom ctx = Some h \<Longrightarrow> h ws st = Some st1 \<Longrightarrow> ends env ctx ty f1 st1 Q \<Longrightarrow> ends env ctx ty f st Q"
    "custom ctx = Some h \<Longrightarrow> h ws st = None \<Longrightarrow> Q (Inl Command_failed) \<Longrightarrow> ends env ctx ty f st Q"
    "custom ctx = None \<Longrightarrow> ngx_conf_handler env ctx ws b = Inl e \<Longrightarrow> Q (Inl e) \<Longrightarrow> ends env ctx ty f st Q"
    "custom ctx = None \<Longrightarrow> ngx_conf_handler env ctx ws b = Inr (i, c) \<Longrightarrow>
       set_cmd env i c (slot_of c) ws st = Set_failed \<Longrightarrow> Q (Inl Command_failed) \<Longrightarrow> ends env ctx ty f st Q"
    "custom ctx = None \<Longrightarrow> ngx_conf_handler env ctx ws b = Inr (i, c) \<Longrightarrow>
       set_cmd env i c (slot_of c) ws st = Set_ok st1 \<Longrightarrow> ends env ctx ty f1 st1 Q \<Longrightarrow> ends env ctx ty f st Q"
proof -
  have s: "\<exists>n r. ngx_conf_parse n env ctx ty f st = Some r \<and> Q r"
    if "ngx_conf_parse (Suc n) env ctx ty f st = Some r" "Q r" for n r
    using that by blast
  note step = ngx_conf_parse.simps(2)[of _ env ctx ty f st, unfolded assms(1) Let_def prod.case token.case]
  show "custom ctx = Some h \<Longrightarrow> h ws st = Some st1 \<Longrightarrow> ends env ctx ty f1 st1 Q \<Longrightarrow> ends env ctx ty f st Q"
    unfolding ends_def using s by (auto simp: step assms(2))
  show "custom ctx = Some h \<Longrightarrow> h ws st = None \<Longrightarrow> Q (Inl Command_failed) \<Longrightarrow> ends env ctx ty f st Q"
    unfolding ends_def using s[of 0] by (simp add: step assms(2))
  show "custom ctx = None \<Longrightarrow> ngx_conf_handler env ctx ws b = Inl e \<Longrightarrow> Q (Inl e) \<Longrightarrow> ends env ctx ty f st Q"
    unfolding ends_def using s[of 0] by (simp add: step assms(2))
  show "custom ctx = None \<Longrightarrow> ngx_conf_handler env ctx ws b = Inr (i, c) \<Longrightarrow>
       set_cmd env i c (slot_of c) ws st = Set_failed \<Longrightarrow> Q (Inl Command_failed) \<Longrightarrow> ends env ctx ty f st Q"
    unfolding ends_def using s[of 0] by (simp add: step assms(2))
  show "custom ctx = None \<Longrightarrow> ngx_conf_handler env ctx ws b = Inr (i, c) \<Longrightarrow>
       set_cmd env i c (slot_of c) ws st = Set_ok st1 \<Longrightarrow> ends env ctx ty f1 st1 Q \<Longrightarrow> ends env ctx ty f st Q"
    unfolding ends_def using s by (auto simp: step assms(2))
qed

lemma ends_block:
  assumes "ngx_conf_read_token f = (Directive True ws, f1)" "ty \<noteq> Parse_param" "has_fd f1"
    and "custom ctx = None" "ngx_conf_handler env ctx ws True = Inr (i, c)"
    and "set_cmd env i c (slot_of c) ws st = Parse_block ctx1 st1"
    and inner: "ends env ctx1 Parse_nested f1 st1 P"
    and after: "\<And>e. P (Inl e) \<Longrightarrow> Q (Inl e)"
      "\<And>st2 f2. P (Inr (st2, f2)) \<Longrightarrow> close_block env i c st2 = None \<Longrightarrow> Q (Inl Command_failed)"
      "\<And>st2 f2 st3. P (Inr (st2, f2)) \<Longrightarrow> close_block env i c st2 = Some st3 \<Longrightarrow> ends env ctx ty f2 st3 Q"
  shows "ends env ctx ty f st Q"
proof -
  obtain n p where n: "ngx_conf_parse n env ctx1 Parse_nested f1 st1 = Some p" "P p"
    using inner unfolding ends_def by blast
  note step = ngx_conf_parse.simps(2)[of _ env ctx ty f st, unfolded assms(1) Let_def prod.case token.case]
  show ?thesis
  proof (cases p)
    case (Inl e)
    then have "ngx_conf_parse (Suc n) env ctx ty f st = Some (Inl e)"
      unfolding step using assms(2-6) n(1) by simp
    then show ?thesis using after(1) n(2) Inl unfolding ends_def by blast
  next
    case (Inr q)
    obtain st2 f2 where q: "q = (st2, f2)" by fastforce
    show ?thesis
    proof (cases "close_block env i c st2")
      case None
      then have "ngx_conf_parse (Suc n) env ctx ty f st = Some (Inl Command_failed)"
        unfolding step using assms(2-6) n(1) Inr q by simp
      then show ?thesis using after(2) n(2) Inr q None unfolding ends_def by blast
    next
      case (Some st3)
      obtain m r where m: "ngx_conf_parse m env ctx ty f2 st3 = Some r" "Q r"
        using after(3) n(2) Inr q Some unfolding ends_def by blast
      have "ngx_conf_parse (Suc (max n m)) env ctx ty f st = Some r"
        unfolding step using assms(2-6) parse_mono[OF n(1), of "max n m"] parse_mono[OF m(1), of "max n m"] Inr q Some
        by simp
      then show ?thesis using m(2) unfolding ends_def by blast
    qed
  qed
qed

lemma parse_printed:
  fixes env :: "'a conf_env"
  shows "run_directive env ctx d st = Some res \<Longrightarrow> directive_ok d \<Longrightarrow> ready f (print_directive d @ tail)
      \<Longrightarrow> ty \<noteq> Parse_param
      \<Longrightarrow> (\<And>st1 f1. res = Inr st1 \<Longrightarrow> ready f1 tail \<Longrightarrow> ends env ctx ty f1 st1 Q)
      \<Longrightarrow> (\<And>e. res = Inl e \<Longrightarrow> Q (Inl e)) \<Longrightarrow> ends env ctx ty f st Q"
  and "run_directives env ctx ds st = Some res \<Longrightarrow> list_all directive_ok ds \<Longrightarrow> ready f (print_directives ds @ tail)
      \<Longrightarrow> ty \<noteq> Parse_param
      \<Longrightarrow> (\<And>st1 f1. res = Inr st1 \<Longrightarrow> ready f1 tail \<Longrightarrow> ends env ctx ty f1 st1 Q)
      \<Longrightarrow> (\<And>e. res = Inl e \<Longrightarrow> Q (Inl e)) \<Longrightarrow> ends env ctx ty f st Q"
proof (induction env ctx d st and env ctx ds st arbitrary: f tail ty Q res and f tail ty Q res
    rule: run_directive_run_directives.induct)
  case (1 env ctx ws st)
  obtain f1 where f1: "ngx_conf_read_token f = (Directive False ws, f1)" "ready f1 tail"
    using ready_words[where f = f and ws = ws and ch = "0x3b" and rest = "LF # tail"] "1.prems"(2,3) ready_after by auto
  note step = ends_directive[OF f1(1) "1.prems"(4)]
  show ?case
  proof (cases "custom ctx")
    case (Some h)
    then show ?thesis using "1.prems"(1,5,6) f1(2) step(1,2)[OF Some] by (cases "h ws st") auto
  next
    case None
    show ?thesis
    proof (cases "ngx_conf_handler env ctx ws False")
      case (Inl e)
      then show ?thesis using "1.prems"(1,6) None step(3)[OF None Inl] by simp
    next
      case (Inr p)
      obtain i c where p: "p = (i, c)" by fastforce
      note h = Inr[unfolded p]
      show ?thesis
        using "1.prems"(1,5,6) None h f1(2) step(4,5)[OF None h]
        by (cases "set_cmd env i c (slot_of c) ws st") (auto simp: after_set_def)
    qed
  qed
next
  case (2 env ctx ws ds st)
  let ?tail = "0x7d # LF # tail"
  obtain f1 where f1: "ngx_conf_read_token f = (Directive True ws, f1)" "ready f1 (print_directives ds @ ?tail)" "has_fd f1"
    using ready_words[where f = f and ws = ws and ch = "0x7b" and rest = "LF # print_directives ds @ ?tail"] "2.prems"(2,3) ready_after
    by (auto simp: print_directives_def)
  note step = ends_directive[OF f1(1) "2.prems"(4)]
  have none: "custom ctx = None" using "2.prems"(1) by (cases "custom ctx") auto
  show ?case
  proof (cases "ngx_conf_handler env ctx ws True")
    case (Inl e)
    then show ?thesis using "2.prems"(1,6) none step(3)[OF none Inl] by simp
  next
    case (Inr p)
    obtain i c where p: "p = (i, c)" by fastforce
    note h = Inr[unfolded p]
    show ?thesis
    proof (cases "set_cmd env i c (slot_of c) ws st")
      case (Set_ok st1)
      then show ?thesis using "2.prems"(1) none h by simp
    next
      case Set_failed
      then show ?thesis using "2.prems"(1,6) none h step(4)[OF none h] by simp
    next
      case (Parse_block ctx1 st1)
      obtain res1 where r1: "run_directives env ctx1 ds st1 = Some res1"
        using "2.prems"(1) none h Parse_block by (cases "run_directives env ctx1 ds st1") auto
      define P where "P r \<longleftrightarrow> (case r of Inl e \<Rightarrow> res1 = Inl e | Inr (st2, f2) \<Rightarrow> res1 = Inr st2 \<and> ready f2 tail)"
        for r :: "conf_error + 'a \<times> conf_file"
      have close: "ends env ctx1 Parse_nested f2 st2 P" if c: "res1 = Inr st2" "ready f2 ?tail" for st2 f2
      proof -
        obtain f3 where f3: "ngx_conf_read_token f2 = (Block_done, f3)" "ready f3 tail"
          using ready_token[OF c(2) read_close] ready_after by blast
        show ?thesis by (rule ends_here(1)[OF f3(1) refl refl]) (simp add: P_def f3(2) c(1))
      qed
      have inner: "ends env ctx1 Parse_nested f1 st1 P"
        by (rule "2.IH"[OF none h refl Parse_block r1 _ f1(2) _ close]) (use "2.prems"(2) in \<open>simp_all add: P_def\<close>)
      show ?thesis
        by (rule ends_block[OF f1(1) "2.prems"(4) f1(3) none h Parse_block inner])
          (use "2.prems"(1,5,6) none h Parse_block r1 in \<open>auto simp: P_def\<close>)
    qed
  qed
next
  case (3 env ctx st)
  then show ?case by (simp add: print_directives_def)
next
  case (4 env ctx d ds st)
  have r: "ready f (print_directive d @ print_directives ds @ tail)"
    using "4.prems"(3) by (simp add: print_directives_def)
  have ok: "directive_ok d" "list_all directive_ok ds" using "4.prems"(2) by simp_all
  obtain res1 where r1: "run_directive env ctx d st = Some res1"
    using "4.prems"(1) by (cases "run_directive env ctx d st") auto
  show ?case
  proof (rule "4.IH"(1)[OF r1 ok(1) r "4.prems"(4)])
    fix st1 f1
    assume s: "res1 = Inr st1" "ready f1 (print_directives ds @ tail)"
    then show "ends env ctx ty f1 st1 Q"
      using "4.IH"(2)[OF r1 s(1) _ ok(2) s(2) "4.prems"(4)] "4.prems"(1,5,6) r1 by simp
  next
    fix e
    assume "res1 = Inl e"
    then show "Q (Inl e)" using "4.prems"(1,6) r1 by simp
  qed
qed


text \<open>C28: a configuration that is written down is read back.  Take a tree of directives, each with at least
  one word and every word so short that it fits into the buffer of 4096 bytes with its quotes and the
  backslashes it needs.  Print it with every word in double quotes, and parse the text as a file, through the
  buffer and its refills: the commands are run for the directives of the tree, in order, with exactly their
  words (whatever bytes they hold), those of a block in the context its command opened, and the parser
  returns what they return, the first error included.\<close>

theorem conf_roundtrip:
  assumes "run_directives env ctx ds st = Some res" "list_all directive_ok ds"
  shows "parse_text env ctx (print_directives ds) st = Some res"
proof -
  let ?f = "open_file (print_directives ds)"
  have f: "ready ?f (print_directives ds @ [])" by (simp add: ready_def starts_at_def)
  have fin: "ends env ctx Parse_file f1 st1 (\<lambda>r. map_sum id fst r = res)"
    if c: "res = Inr st1" "ready f1 []" for st1 f1
  proof -
    obtain f2 where f2: "ngx_conf_read_token f1 = (File_done, f2)"
      using ready_token[OF c(2) read_end] by blast
    show ?thesis by (rule ends_here(2)[OF f2 refl]) (simp_all add: c(1))
  qed
  have "ends env ctx Parse_file ?f st (\<lambda>r. map_sum id fst r = res)"
    by (rule parse_printed(2)[OF assms f _ fin]) simp_all
  then obtain n r where n: "ngx_conf_parse n env ctx Parse_file ?f st = Some r" "map_sum id fst r = res"
    unfolding ends_def by blast
  obtain q where "ngx_conf_parse (Suc (length (print_directives ds))) env ctx Parse_file ?f st = Some q"
    using parse_enough[of ?f "Suc (length (print_directives ds))"] by fastforce
  then show ?thesis using parse_unique[OF n(1)] n(2) by (simp add: parse_text_def)
qed

text \<open>A module with a block, whose command opens a context, and a directive inside it that records
  its words.\<close>

definition log_env :: "bytes list list conf_env" where
  "log_env = \<lparr>modules = [\<lparr>m_type = 7, commands =
       [\<lparr>c_name = str ''http'', c_type = 0x1000101, c_conf = 0\<rparr>, \<lparr>c_name = str ''root'', c_type = 0x2000002, c_conf = 0\<rparr>]\<rparr>],
     set_cmd = (\<lambda>i c slot ws st.
        if has_flag (c_type c) NGX_CONF_BLOCK
        then Parse_block \<lparr>cmd_type = 0x2000000, module_type = 7, custom = None\<rparr> (ws # st) else Set_ok (ws # st)),
     close_block = (\<lambda>i c st. Some st)\<rparr>"

definition main_ctx :: "bytes list list conf_ctx" where
  "main_ctx = \<lparr>cmd_type = 0x1000000, module_type = 7, custom = None\<rparr>"

theorem conf_roundtrip_witness:
  "parse_text log_env main_ctx
     (print_directives [Block [str ''http''] [Simple [str ''root'', str ''a\" ;{'']], Simple [str ''root'', []]]) [] =
   Some (Inl Not_allowed_here)
   \<and> parse_text log_env main_ctx (print_directives [Block [str ''http''] [Simple [str ''root'', str ''a\" ;{'']]]) [] =
   Some (Inr [[str ''root'', str ''a\" ;{''], [str ''http'']])"
proof
  have r: "run_directives log_env main_ctx [Block [str ''http''] [Simple [str ''root'', str ''a\" ;{'']], Simple [str ''root'', []]] []
      = Some (Inl Not_allowed_here)"
    "run_directives log_env main_ctx [Block [str ''http''] [Simple [str ''root'', str ''a\" ;{'']]] []
      = Some (Inr [[str ''root'', str ''a\" ;{''], [str ''http'']])"
    by code_simp+
  have ok: "list_all directive_ok [Block [str ''http''] [Simple [str ''root'', str ''a\" ;{'']], Simple [str ''root'', []]]"
    "list_all directive_ok [Block [str ''http''] [Simple [str ''root'', str ''a\" ;{'']]]"
    by (simp_all add: words_ok_def escape_byte_def NGX_CONF_BUFFER_def str_def)
  show "parse_text log_env main_ctx
     (print_directives [Block [str ''http''] [Simple [str ''root'', str ''a\" ;{'']], Simple [str ''root'', []]]) [] =
   Some (Inl Not_allowed_here)" by (rule conf_roundtrip[OF r(1) ok(1)])
  show "parse_text log_env main_ctx (print_directives [Block [str ''http''] [Simple [str ''root'', str ''a\" ;{'']]]) [] =
   Some (Inr [[str ''root'', str ''a\" ;{''], [str ''http'']])" by (rule conf_roundtrip[OF r(2) ok(2)])
qed

end
