(* ===== verification/HttpLocation.thy ===== *)
theory HttpLocation
  imports NgxQueue "HOL-Library.List_Lexorder" "HOL-Library.Product_Lexorder" "HOL-Library.Sublist"
begin

text \<open>
  The locations of a server.  \<^verbatim>\<open>src/http/ngx_http_core_module.c\<close> reads the \<^verbatim>\<open>location\<close> directives and
  finds the location of a request; \<^verbatim>\<open>src/http/ngx_http.c\<close> sorts the locations of each level, sets the regular
  expressions, the named and the nameless ones apart, and builds the search tree of the others.

  A \<^verbatim>\<open>ngx_http_core_loc_conf_t\<close> is a \<open>conf\<close>: the fields that matter here, the queue of the locations inside
  it, and what the initialisation makes of that queue.  Names are the bytes before the zero byte that the
  lexer of the configuration puts behind each word.  Regular expressions are numbers and their
  execution is an argument.
\<close>

section \<open>Data\<close>

record loc_info =
  loc_name :: bytes
  regex :: "nat option"
  noname :: bool
  named :: bool
  exact_match :: bool
  noregex :: bool
  auto_redirect :: bool

text \<open>\<^verbatim>\<open>ngx_http_location_queue_t\<close>, and the nodes of the tree with their 8-bit length.\<close>

datatype 'c lq =
  LQ (lq_exact: "'c option") (lq_inclusive: "'c option") (lq_name: bytes) (lq_list: "'c lq list")

datatype 'c ltree = Tip
  | Node (left: "'c ltree") (right: "'c ltree") (tree: "'c ltree") (exact: "'c option") (inclusive: "'c option")
      (redirects: bool) (node_len: u8) (node_name: bytes)

datatype conf =
  Conf (info: loc_info) (locations: "conf lq list") (regex_locations: "conf list") (static_locations: "conf ltree")
    (named_locations: "conf list")

definition new_conf :: "loc_info \<Rightarrow> conf" where
  "new_conf i = Conf i [] [] Tip []"

section \<open>The directive\<close>

datatype loc_error = Bad_modifier | Bad_regex | Inside_exact | Inside_named | Named_inside | Outside_parent

text \<open>A byte of a word with its terminating zero.\<close>

definition at :: "bytes \<Rightarrow> nat \<Rightarrow> u8" where
  "at s i = (s @ [0]) ! i"

definition plain_info :: "bytes \<Rightarrow> loc_info" where
  "plain_info n = \<lparr>loc_name = n, regex = None, noname = False, named = False, exact_match = False, noregex = False, auto_redirect = False\<rparr>"

definition regex_location :: "(bytes \<Rightarrow> bool \<Rightarrow> nat option) \<Rightarrow> bytes \<Rightarrow> bool \<Rightarrow> loc_error + loc_info" where
  "regex_location compile name caseless =
     (case compile name caseless of
        None \<Rightarrow> Inl Bad_regex
      | Some r \<Rightarrow> Inr ((plain_info name)\<lparr>regex := Some r\<rparr>))"

text \<open>With a modifier of its own, and with one before the name.\<close>

definition two_words :: "(bytes \<Rightarrow> bool \<Rightarrow> nat option) \<Rightarrow> bytes \<Rightarrow> bytes \<Rightarrow> loc_error + loc_info" where
  "two_words compile md name =
     (if length md = 1 \<and> at md 0 = 0x3d then Inr ((plain_info name)\<lparr>exact_match := True\<rparr>)
      else if length md = 2 \<and> at md 0 = 0x5e \<and> at md 1 = 0x7e then Inr ((plain_info name)\<lparr>noregex := True\<rparr>)
      else if length md = 1 \<and> at md 0 = 0x7e then regex_location compile name False
      else if length md = 2 \<and> at md 0 = 0x7e \<and> at md 1 = 0x2a then regex_location compile name True
      else Inl Bad_modifier)"

definition one_word :: "(bytes \<Rightarrow> bool \<Rightarrow> nat option) \<Rightarrow> bytes \<Rightarrow> loc_error + loc_info" where
  "one_word compile name =
     (if at name 0 = 0x3d then Inr ((plain_info (drop 1 name))\<lparr>exact_match := True\<rparr>)
      else if at name 0 = 0x5e \<and> at name 1 = 0x7e then Inr ((plain_info (drop 2 name))\<lparr>noregex := True\<rparr>)
      else if at name 0 = 0x7e then
        (if at (drop 1 name) 0 = 0x2a then regex_location compile (drop 2 name) True
         else regex_location compile (drop 1 name) False)
      else Inr ((plain_info name)\<lparr>named := (at name 0 = 0x40)\<rparr>))"

text \<open>The checks against the location around it.\<close>

definition nested_check :: "loc_info \<Rightarrow> loc_info \<Rightarrow> loc_error option" where
  "nested_check p c =
     (if loc_name p = [] then None
      else if exact_match p then Some Inside_exact
      else if named p then Some Inside_named
      else if named c then Some Named_inside
      else if regex c = None \<and> c_strncmp (loc_name c @ [0]) (loc_name p @ [0]) (length (loc_name p)) \<noteq> Some 0
      then Some Outside_parent
      else None)"

definition in_use :: "loc_info \<Rightarrow> bool" where
  "in_use i \<longleftrightarrow> exact_match i \<or> regex i \<noteq> None \<or> named i \<or> noname i"

definition ngx_http_add_location :: "conf lq list \<Rightarrow> conf \<Rightarrow> conf lq list" where
  "ngx_http_add_location q c =
     q @ [if in_use (info c) then LQ (Some c) None (loc_name (info c)) []
          else LQ None (Some c) (loc_name (info c)) []]"

definition ngx_http_core_location ::
  "(bytes \<Rightarrow> bool \<Rightarrow> nat option) \<Rightarrow> loc_info \<Rightarrow> bytes list \<Rightarrow> loc_error + loc_info" where
  "ngx_http_core_location compile parent words =
     (case (if length words = 3 then two_words compile (words ! 1) (words ! 2) else one_word compile (words ! 1)) of
        Inl e \<Rightarrow> Inl e
      | Inr c \<Rightarrow> (case nested_check parent c of Some e \<Rightarrow> Inl e | None \<Rightarrow> Inr c))"

section \<open>The order of the locations\<close>

text \<open>\<^verbatim>\<open>strcmp\<close> of two words with their terminating zeros.\<close>

fun c_strcmp :: "bytes \<Rightarrow> bytes \<Rightarrow> int" where
  "c_strcmp [] [] = 0"
| "c_strcmp [] (b # t) = - uint b"
| "c_strcmp (a # s) [] = uint a"
| "c_strcmp (a # s) (b # t) = (if a \<noteq> b then uint a - uint b else if a = 0 then 0 else c_strcmp s t)"

definition lq_conf :: "'c lq \<Rightarrow> 'c option" where
  "lq_conf l = (case lq_exact l of Some c \<Rightarrow> Some c | None \<Rightarrow> lq_inclusive l)"

definition lq_info :: "conf lq \<Rightarrow> loc_info" where
  "lq_info l = info (the (lq_conf l))"

definition cmp_infos :: "loc_info \<Rightarrow> loc_info \<Rightarrow> int" where
  "cmp_infos a b =
     (if noname a \<and> \<not> noname b then 1
      else if \<not> noname a \<and> noname b then -1
      else if noname a \<or> noname b then 0
      else if named a \<and> \<not> named b then 1
      else if \<not> named a \<and> named b then -1
      else if named a \<and> named b then c_strcmp (loc_name a) (loc_name b)
      else if regex a \<noteq> None \<and> regex b = None then 1
      else if regex a = None \<and> regex b \<noteq> None then -1
      else if regex a \<noteq> None \<or> regex b \<noteq> None then 0
      else
        let rc = c_strcmp (loc_name a) (loc_name b) in
        if rc = 0 \<and> \<not> exact_match a \<and> exact_match b then 1 else rc)"

definition ngx_http_cmp_locations :: "conf lq \<Rightarrow> conf lq \<Rightarrow> int" where
  "ngx_http_cmp_locations l m = cmp_infos (lq_info l) (lq_info m)"

section \<open>The tree of a level\<close>

fun ngx_http_join_exact_locations :: "'c lq list \<Rightarrow> 'c lq list option" where
  "ngx_http_join_exact_locations (q # x # qs) =
     (if c_strcmp (lq_name q) (lq_name x) = 0 then
        if lq_exact q \<noteq> None \<and> lq_exact x \<noteq> None \<or> lq_inclusive q \<noteq> None \<and> lq_inclusive x \<noteq> None then None
        else ngx_http_join_exact_locations (LQ (lq_exact q) (lq_inclusive x) (lq_name q) (lq_list q) # qs)
      else map_option (Cons q) (ngx_http_join_exact_locations (x # qs)))"
| "ngx_http_join_exact_locations qs = Some qs"

text \<open>The locations that the loop over \<open>x\<close> passes: those whose names begin with the name of \<open>q\<close>.\<close>

definition below :: "'c lq \<Rightarrow> 'c lq \<Rightarrow> bool" where
  "below q x \<longleftrightarrow> length (lq_name q) \<le> length (lq_name x) \<and>
     c_strncmp (lq_name q @ [0]) (lq_name x @ [0]) (length (lq_name q)) = Some 0"

lemma lq_list_size: "size_list size (lq_list q) < size q"
  by (cases q) simp

lemma size_span: "size_list f (takeWhile P xs) + size_list f (dropWhile P xs) = size_list f xs"
  by (simp flip: size_list_append)

function ngx_http_create_locations_list :: "'c lq list \<Rightarrow> 'c lq list" where
  "ngx_http_create_locations_list [] = []"
| "ngx_http_create_locations_list (q # qs) =
     (if qs = [] then [q]
      else if lq_inclusive q = None then q # ngx_http_create_locations_list qs
      else
        let sub = takeWhile (below q) qs; others = dropWhile (below q) qs in
        if sub = [] then q # ngx_http_create_locations_list others
        else
          LQ (lq_exact q) (lq_inclusive q) (lq_name q) (ngx_http_create_locations_list (lq_list q @ sub))
            # ngx_http_create_locations_list others)"
  by pat_completeness auto
termination
proof (relation "measure (size_list size)", goal_cases)
  case (4 q qs sub others)
  then show ?case using lq_list_size [of q] size_span [of size "below q" qs] by simp
next
  case (5 q qs sub others)
  then show ?case using lq_list_size [of q] size_span [of size "below q" qs] by simp
next
  case (3 q qs sub others)
  then show ?case using lq_list_size [of q] size_span [of size "below q" qs] by simp
qed auto

definition redirecting :: "conf option \<Rightarrow> bool" where
  "redirecting c \<longleftrightarrow> (case c of None \<Rightarrow> False | Some x \<Rightarrow> auto_redirect (info x))"

text \<open>The node is the middle of the queue.  An empty queue has no middle: the function is called with
  queues that are not empty.\<close>

function ngx_http_create_locations_tree :: "nat \<Rightarrow> conf lq list \<Rightarrow> conf ltree" where
  "ngx_http_create_locations_tree pre qs =
     (if qs = [] then Tip
      else
        let i = length qs div 2; q = qs ! i; l = take i qs; r = drop (Suc i) qs;
            len = length (lq_name q) - pre in
        Node (if l = [] then Tip else ngx_http_create_locations_tree pre l)
          (if l = [] \<or> r = [] then Tip else ngx_http_create_locations_tree pre r)
          (if lq_list q = [] then Tip else ngx_http_create_locations_tree (pre + len) (lq_list q))
          (lq_exact q) (lq_inclusive q) (redirecting (lq_exact q) \<or> redirecting (lq_inclusive q))
          (of_nat len) (take len (drop pre (lq_name q))))"
  by pat_completeness auto
termination
proof (relation "measure (\<lambda>(_, xs). size_list size xs)", goal_cases)
  case (2 pre qs i q l r len)
  then have "qs = l @ q # r" by (simp add: id_take_nth_drop)
  then have "size_list size qs = size_list size l + size_list size (q # r)" by (metis size_list_append)
  then show ?case by simp
next
  case (3 pre qs i q l r len)
  then have "qs = l @ q # r" by (simp add: id_take_nth_drop)
  then have "size_list size qs = size_list size l + size_list size (q # r)" by (metis size_list_append)
  then show ?case by simp
next
  case (4 pre qs i q l r len)
  then have "q \<in> set qs" by simp
  then have "size_list size (lq_list q) < size_list size qs" by (rule size_list_estimation) (rule lq_list_size)
  then show ?case by simp
qed auto

declare ngx_http_create_locations_tree.simps [simp del]

section \<open>The initialisation\<close>

text \<open>An array that ends at its first null pointer.\<close>

fun null_terminated :: "'c option list \<Rightarrow> 'c list" where
  "null_terminated (Some c # cs) = c # null_terminated cs"
| "null_terminated _ = []"

definition set_conf :: "'c lq \<Rightarrow> 'c \<Rightarrow> 'c lq" where
  "set_conf l c = (case lq_exact l of Some _ \<Rightarrow> LQ (Some c) (lq_inclusive l) (lq_name l) (lq_list l)
                   | None \<Rightarrow> LQ None (Some c) (lq_name l) (lq_list l))"

lemma set_sort_steps: "set (foldl (sort_step cmp) ps qs) = set ps \<union> set qs"
  by (induction qs arbitrary: ps) (auto simp: set_sort_step)

lemma set_queue_sort: "set (queue_sort cmp xs) = set xs"
  by (cases xs) (simp_all add: queue_sort_def set_sort_steps)

lemma conf_in_queue:
  assumes "l \<in> set q" "lq_conf l = Some c"
  shows "size c < Suc (size_list (size_lq size) q)"
proof -
  have "size c \<le> size_lq size l" using assms(2) by (cases l) (auto simp: lq_conf_def split: option.splits)
  then show ?thesis using assms(1) size_list_estimation' [of l q "size c" "size_lq size"] by simp
qed

text \<open>The initialisation of the queues.  The queue is cut before its first nameless location, and then
  before the first named one and the first regular expression, which go to arrays.  Only the
  locations of a server may be named: inside a location \<open>cscf\<close> is \<open>NULL\<close>, and \<open>None\<close> is the access to it.
  (The first nameless location is initialised as well, but no tree or array leads to it.)\<close>

function ngx_http_init_locations :: "bool \<Rightarrow> conf \<Rightarrow> conf option" where
  "ngx_http_init_locations server (Conf i q rs st nm) =
     (if q = [] then Some (Conf i q rs st nm)
      else do {
        let q = takeWhile (\<lambda>l. \<not> noname (lq_info l)) (queue_sort ngx_http_cmp_locations q);
        q \<leftarrow> those (map (\<lambda>l. case lq_conf l of None \<Rightarrow> None
                             | Some c \<Rightarrow> map_option (set_conf l) (ngx_http_init_locations False c)) q);
        let names = dropWhile (\<lambda>l. regex (lq_info l) \<noteq> None \<or> \<not> named (lq_info l)) q;
        let q = takeWhile (\<lambda>l. regex (lq_info l) \<noteq> None \<or> \<not> named (lq_info l)) q;
        if names \<noteq> [] \<and> \<not> server then None
        else do {
          let regs = dropWhile (\<lambda>l. regex (lq_info l) = None) q;
          let q = takeWhile (\<lambda>l. regex (lq_info l) = None) q;
          Some (Conf i q (if regs = [] then rs else null_terminated (map lq_exact regs)) st
                 (if names = [] then nm else null_terminated (map lq_exact names))) } })"
  by pat_completeness auto
termination
proof (relation "measure (\<lambda>(_, c). size c)", goal_cases)
  case (2 server i q rs st nm q' l c)
  then have "l \<in> set q" by (auto simp: set_queue_sort dest: set_takeWhileD)
  from conf_in_queue [OF this 2(4)] show ?case by simp
qed auto

text \<open>The trees: those inside the locations of the queue first.\<close>

function ngx_http_init_static_location_trees :: "conf \<Rightarrow> conf option" where
  "ngx_http_init_static_location_trees (Conf i q rs st nm) =
     (if q = [] then Some (Conf i q rs st nm)
      else do {
        q \<leftarrow> those (map (\<lambda>l. case lq_conf l of None \<Rightarrow> None
                             | Some c \<Rightarrow> map_option (set_conf l) (ngx_http_init_static_location_trees c)) q);
        q \<leftarrow> ngx_http_join_exact_locations q;
        Some (Conf i q rs (ngx_http_create_locations_tree 0 (ngx_http_create_locations_list q)) nm) })"
  by pat_completeness auto
termination
  by (relation "measure size") (auto dest: conf_in_queue)

section \<open>The search\<close>

text \<open>The names are compared byte by byte, at most as far as the node and the URI go.  The arguments
  are what is left of the URI, the node, and the code and the configuration so far; \<open>None\<close> is a read
  outside a name or a null pointer.\<close>

fun ngx_http_core_find_static_location :: "bytes \<Rightarrow> 'c ltree \<Rightarrow> ngx_rc \<Rightarrow> 'c \<Rightarrow> (ngx_rc \<times> 'c) option" where
  "ngx_http_core_find_static_location uri Tip rv lc = Some (rv, lc)"
| "ngx_http_core_find_static_location uri (Node l r t ex inc red len name) rv lc =
     (let n = (if length uri \<le> unat len then length uri else unat len) in
      case c_memcmp uri name n of
        None \<Rightarrow> None
      | Some rc \<Rightarrow>
          if rc < 0 then ngx_http_core_find_static_location uri l rv lc
          else if rc \<noteq> 0 then ngx_http_core_find_static_location uri r rv lc
          else if unat len < length uri then
            (case inc of
               Some c \<Rightarrow> ngx_http_core_find_static_location (drop n uri) t NGX_AGAIN c
             | None \<Rightarrow> ngx_http_core_find_static_location uri r rv lc)
          else if length uri = unat len then
            (case ex of
               Some c \<Rightarrow> Some (NGX_OK, c)
             | None \<Rightarrow> map_option (Pair NGX_AGAIN) inc)
          else if length uri + 1 = unat len \<and> red then
            (case (case ex of Some c \<Rightarrow> Some c | None \<Rightarrow> inc) of
               None \<Rightarrow> None
             | Some c \<Rightarrow> ngx_http_core_find_static_location uri l NGX_DONE c)
          else ngx_http_core_find_static_location uri l rv lc)"

text \<open>The first regular expression that does not decline.\<close>

fun try_regexes :: "(nat \<Rightarrow> bytes \<Rightarrow> ngx_rc) \<Rightarrow> bytes \<Rightarrow> conf list \<Rightarrow> (ngx_rc \<times> conf) option" where
  "try_regexes exec uri [] = None"
| "try_regexes exec uri (c # cs) =
     (let n = exec (the (regex (info c))) uri in
      if n = NGX_DECLINED then try_regexes exec uri cs else Some (n, c))"

lemma try_regexes_in: "try_regexes exec uri cs = Some (n, c) \<Longrightarrow> c \<in> set cs"
  by (induction cs) (auto simp: Let_def split: if_splits)

lemma find_static_in:
  "ngx_http_core_find_static_location uri t rv lc = Some (NGX_AGAIN, c) \<Longrightarrow> rv = NGX_AGAIN \<and> c = lc \<or> c \<in> set_ltree t"
  by (induction uri t rv lc rule: ngx_http_core_find_static_location.induct)
     (auto simp: Let_def split: option.splits if_splits)

lemma conf_in_tree: "c \<in> set_ltree t \<Longrightarrow> size c \<le> size_ltree size t"
  by (induction t) auto

text \<open>The search in a location, and again in the location found.\<close>

function ngx_http_core_find_location :: "(nat \<Rightarrow> bytes \<Rightarrow> ngx_rc) \<Rightarrow> bytes \<Rightarrow> conf \<Rightarrow> (ngx_rc \<times> conf) option" where
  "ngx_http_core_find_location exec uri pclcf =
     (case ngx_http_core_find_static_location uri (static_locations pclcf) NGX_DECLINED pclcf of
        None \<Rightarrow> None
      | Some (rc, lc) \<Rightarrow>
          (case (if rc = NGX_AGAIN then ngx_http_core_find_location exec uri lc else Some (rc, lc)) of
             None \<Rightarrow> None
           | Some (rc', lc') \<Rightarrow>
               if rc' = NGX_OK \<or> rc' = NGX_DONE then Some (rc', lc')
               else if rc = NGX_AGAIN \<and> noregex (info lc) then Some (rc', lc')
               else
                 (case try_regexes exec uri (regex_locations pclcf) of
                    None \<Rightarrow> Some (rc', lc')
                  | Some (n, c) \<Rightarrow>
                      if n = NGX_OK then
                        map_option (\<lambda>(rc, lc). (if rc = NGX_ERROR then rc else NGX_OK, lc)) (ngx_http_core_find_location exec uri c)
                      else Some (NGX_ERROR, lc'))))"
  by pat_completeness auto
termination
proof (relation "measure (\<lambda>(_, _, c). size c)", goal_cases)
  case (2 exec uri pclcf x rc lc)
  then have "lc \<in> set_ltree (static_locations pclcf)" using find_static_in by fastforce
  then have "size lc \<le> size_ltree size (static_locations pclcf)" by (rule conf_in_tree)
  then show ?case by (cases pclcf) simp
next
  case (3 exec uri pclcf x rc lc y rc' lc' z n c)
  then have "c \<in> set (regex_locations pclcf)" using try_regexes_in by metis
  then have "size c \<le> size_list size (regex_locations pclcf)" by (rule size_list_estimation') simp
  then show ?case by (cases pclcf) simp
qed auto

declare ngx_http_core_find_location.simps [simp del]

end
