(* ===== verification/HttpLocationTree.thy ===== *)
theory HttpLocationTree
  imports HttpLocation
begin

text \<open>
  The search tree of the locations finds what the configuration says.  The queue in order (the order of
  \<^verbatim>\<open>ngx_http_cmp_locations\<close>) is cut to the plain locations, joined, and put into one another: a
  \<open>level\<close>.  A search of the tree of a level has an \<open>outcome\<close> among its entries, by induction on the
  level; over the whole configuration the outcome is the reference \<open>choice\<close>.
\<close>

section \<open>The order of names\<close>

text \<open>Names without zero bytes, in the order of \<^verbatim>\<open>strcmp\<close>, which is that of the lists.\<close>

lemma less_u8_uint: "(a :: u8) < b \<longleftrightarrow> uint a < uint b"
  by (simp add: word_less_def)

lemma c_strcmp_sign:
  assumes "0 \<notin> set s" "0 \<notin> set t"
  shows "(c_strcmp s t = 0 \<longleftrightarrow> s = t) \<and> (c_strcmp s t \<le> 0 \<longleftrightarrow> s \<le> t)"
  using assms
proof (induction s t rule: c_strcmp.induct)
  case (2 b t)
  then have "0 < uint b" by (simp add: word_neq_0_conv less_u8_uint)
  then show ?case by simp
next
  case (3 a s)
  then have "0 < uint a" by (simp add: word_neq_0_conv less_u8_uint)
  then show ?case by simp
next
  case (4 a s b t)
  have "uint a \<le> uint b \<longleftrightarrow> uint a < uint b" if "a \<noteq> b" using that uint_eq_iff_u8 [of a b] by linarith
  then show ?case using 4 by (auto simp: less_u8_uint)
qed simp

lemma prefix_le: "prefix s t \<Longrightarrow> s \<le> (t :: 'a::linorder list)"
proof (induction s arbitrary: t)
  case (Cons a s)
  then show ?case by (cases t) auto
qed simp

lemma prefix_between: "prefix (s :: 'a::linorder list) u \<Longrightarrow> s \<le> t \<Longrightarrow> t \<le> u \<Longrightarrow> prefix s t"
proof (induction s arbitrary: t u)
  case (Cons a s)
  then obtain u' where u: "u = a # u'" "prefix s u'" by (cases u) auto
  then obtain b t' where t: "t = b # t'" using Cons.prems by (cases t) auto
  then have "b = a" "s \<le> t'" "t' \<le> u'" using Cons.prems u by auto
  then show ?case using Cons.IH u t by simp
qed simp

lemma append_less: "p @ s < p @ t \<longleftrightarrow> s < (t :: 'a::linorder list)"
  by (induction p) auto

lemma memcmp_order:
  "\<exists>r. c_memcmp u s (min (length u) (length s)) = Some r \<and> (r < 0 \<longrightarrow> u < s) \<and> (0 < r \<longrightarrow> s < u \<and> \<not> prefix s u) \<and>
     (r = 0 \<longrightarrow> prefix u s \<or> prefix s u)"
proof (induction u arbitrary: s)
  case (Cons a u)
  show ?case
  proof (cases s)
    case (Cons b s')
    then show ?thesis using Cons.IH [of s'] by (auto simp: less_u8_uint)
  qed simp
qed simp

lemma strncmp_prefix:
  assumes "0 \<notin> set s"
  shows "length s \<le> length t \<and> c_strncmp (s @ [0]) (t @ [0]) (length s) = Some 0 \<longleftrightarrow> prefix s t"
  using assms
proof (induction s arbitrary: t)
  case (Cons a s)
  then show ?case by (cases t) auto
qed simp

section \<open>What a level looks like\<close>

text \<open>A level in order: the names grow, and none begins with that of an inclusive one before it.\<close>

definition apart :: "'c lq \<Rightarrow> 'c lq \<Rightarrow> bool" where
  "apart q x \<longleftrightarrow> lq_name q < lq_name x \<and> \<not> (lq_inclusive q \<noteq> None \<and> prefix (lq_name q) (lq_name x))"

fun in_order :: "'c lq \<Rightarrow> bool" where
  "in_order (LQ e i n l) \<longleftrightarrow> length n < 256 \<and> (e \<noteq> None \<or> i \<noteq> None) \<and> (l \<noteq> [] \<longrightarrow> i \<noteq> None) \<and> sorted_wrt apart l \<and>
     (\<forall>x \<in> set l. strict_prefix n (lq_name x) \<and> in_order x)"

definition level :: "bytes \<Rightarrow> 'c lq list \<Rightarrow> bool" where
  "level p qs \<longleftrightarrow> sorted_wrt apart qs \<and> (\<forall>q \<in> set qs. prefix p (lq_name q) \<and> in_order q)"

text \<open>The locations of a queue and of the queues inside it.\<close>

fun flat_lq :: "'c lq \<Rightarrow> 'c lq list" where
  "flat_lq (LQ e i n l) = LQ e i n [] # concat (map flat_lq l)"

definition flat :: "'c lq list \<Rightarrow> 'c lq list" where
  "flat qs = concat (map flat_lq qs)"

lemma flat_simps [simp]: "flat [] = []" "flat (q # qs) = flat_lq q @ flat qs" "flat (qs @ xs) = flat qs @ flat xs"
  by (simp_all add: flat_def)

lemma level_append: "level p (qs @ xs) \<longleftrightarrow> level p qs \<and> level p xs \<and> (\<forall>q \<in> set qs. \<forall>x \<in> set xs. apart q x)"
  by (auto simp: level_def sorted_wrt_append)

lemma level_Cons: "level p (q # qs) \<longleftrightarrow> prefix p (lq_name q) \<and> in_order q \<and> level p qs \<and> (\<forall>x \<in> set qs. apart q x)"
  by (auto simp: level_def)

lemma level_below: "in_order q \<Longrightarrow> level (lq_name q) (lq_list q)"
  by (cases q) (auto simp: level_def strict_prefix_def)

text \<open>Everything in a location that is not the location itself is behind an inclusive one.\<close>

lemma flat_lq_prefix: "in_order q \<Longrightarrow> x \<in> set (flat_lq q) \<Longrightarrow> prefix (lq_name q) (lq_name x)"
proof (induction q arbitrary: x)
  case (LQ e i n l)
  show ?case
  proof (cases "x = LQ e i n []")
    case False
    then obtain y where y: "y \<in> set l" "x \<in> set (flat_lq y)" using LQ.prems by auto
    then have "prefix n (lq_name y)" "prefix (lq_name y) (lq_name x)" using LQ by (auto simp: strict_prefix_def)
    then show ?thesis by simp
  qed simp
qed

definition cand :: "bytes \<Rightarrow> 'c lq \<Rightarrow> bool" where
  "cand u q \<longleftrightarrow> prefix (lq_name q) u \<and> (lq_name q = u \<or> lq_inclusive q \<noteq> None)"

lemma not_cand_flat:
  assumes "in_order q" "\<not> cand u q" "x \<in> set (flat_lq q)"
  shows "\<not> cand u x"
proof
  assume c: "cand u x"
  obtain e i n l where q: "q = LQ e i n l" by (cases q)
  have "prefix n (lq_name x)" using flat_lq_prefix [OF assms(1,3)] q by simp
  then have p: "prefix n u" using c prefix_order.trans unfolding cand_def by blast
  have "x \<noteq> LQ e i n []" using c assms(2) q by (auto simp: cand_def)
  then have "l \<noteq> []" using assms(3) q by auto
  then have "i \<noteq> None" using assms(1) q by simp
  then show False using assms(2) p q by (simp add: cand_def)
qed

section \<open>The search of a level\<close>

definition redirect_to :: "bytes \<Rightarrow> conf lq \<Rightarrow> conf \<Rightarrow> bool" where
  "redirect_to u e c \<longleftrightarrow> (\<exists>x. lq_name e = u @ [x]) \<and> lq_conf e = Some c \<and> (redirecting (lq_exact e) \<or> redirecting (lq_inclusive e))"

text \<open>What may come out of a search for \<open>u\<close> among \<open>es\<close> that starts with \<open>st\<close>.\<close>

inductive outcome :: "bytes \<Rightarrow> conf lq list \<Rightarrow> ngx_rc \<times> conf \<Rightarrow> ngx_rc \<times> conf \<Rightarrow> bool"
  for u es st where
  Exact: "e \<in> set es \<Longrightarrow> lq_name e = u \<Longrightarrow> lq_exact e = Some c \<Longrightarrow> outcome u es st (NGX_OK, c)"
| Inclusive: "\<forall>x \<in> set es. lq_name x = u \<longrightarrow> lq_exact x = None \<Longrightarrow> e \<in> set es \<Longrightarrow> prefix (lq_name e) u \<Longrightarrow>
    lq_inclusive e = Some c \<Longrightarrow>
    \<forall>x \<in> set es. prefix (lq_name x) u \<and> lq_inclusive x \<noteq> None \<longrightarrow> length (lq_name x) \<le> length (lq_name e) \<Longrightarrow>
    outcome u es st (NGX_AGAIN, c)"
| Nothing: "\<forall>x \<in> set es. \<not> cand u x \<Longrightarrow> outcome u es st st"
| Redirect: "e \<in> set es \<Longrightarrow> redirect_to u e c \<Longrightarrow> \<forall>x \<in> set es. lq_name x \<noteq> u \<Longrightarrow> outcome u es st (NGX_DONE, c)"

lemma outcome_widen:
  assumes "outcome u es st res" "set es \<subseteq> set fs" "\<forall>x \<in> set fs - set es. \<not> cand u x"
  shows "outcome u fs st res"
  using assms(1)
proof cases
  case (Exact e c)
  then show ?thesis using assms(2) by (auto intro: outcome.Exact)
next
  case (Inclusive e c)
  have "x \<in> set es" if "x \<in> set fs" "prefix (lq_name x) u" "lq_name x = u \<or> lq_inclusive x \<noteq> None" for x
    using that assms(3) unfolding cand_def by blast
  then show ?thesis using Inclusive assms(2) by (auto intro!: outcome.Inclusive [of fs u e])
next
  case Nothing
  then show ?thesis using assms(3) by (auto intro: outcome.Nothing)
next
  case (Redirect e c)
  have "lq_name x \<noteq> u" if "x \<in> set fs" for x using that assms(3) Redirect(4) unfolding cand_def by auto
  then show ?thesis using Redirect assms(2) by (auto intro: outcome.Redirect)
qed

lemma not_cand_flats:
  "\<forall>y \<in> set ys. in_order y \<and> \<not> cand u y \<Longrightarrow> x \<in> set (flat ys) \<Longrightarrow> \<not> cand u x"
  by (auto simp: flat_def dest: not_cand_flat)

lemma level_in_order: "level p qs \<Longrightarrow> q \<in> set qs \<Longrightarrow> in_order q"
  by (simp add: level_def)

text \<open>Widening to a level from one of its parts.\<close>

lemma part_of_level:
  assumes "level p qs" "outcome u (flat xs) st res" "set xs \<subseteq> set qs" "\<forall>y \<in> set qs - set xs. \<not> cand u y"
  shows "outcome u (flat qs) st res"
proof (rule outcome_widen [OF assms(2)])
  show "set (flat xs) \<subseteq> set (flat qs)" using assms(3) by (auto simp: flat_def)
  show "\<forall>x \<in> set (flat qs) - set (flat xs). \<not> cand u x"
    using assms(3,4) not_cand_flat level_in_order [OF assms(1)] by (fastforce simp: flat_def)
qed

lemma not_prefix_less: "u < s \<Longrightarrow> \<not> prefix s (u :: 'a::linorder list)"
  using prefix_le by fastforce

text \<open>The parts of a level around the location in its middle.\<close>

lemma before_q: "level p (l @ q # r) \<Longrightarrow> y \<in> set l \<Longrightarrow> apart y q"
  by (auto simp: level_append)

lemma behind_q: "level p (l @ q # r) \<Longrightarrow> y \<in> set r \<Longrightarrow> apart q y"
  by (auto simp: level_append level_Cons)

lemma go_left:
  assumes lv: "level p (l @ q # r)" and u: "u < lq_name q" and out: "outcome u (flat l) st res"
  shows "outcome u (flat (l @ q # r)) st res"
proof (rule part_of_level [OF lv out])
  show "\<forall>y \<in> set (l @ q # r) - set l. \<not> cand u y"
    using u behind_q [OF lv] not_prefix_less by (fastforce simp: cand_def apart_def)
qed auto

lemma no_cand_before:
  assumes lv: "level p (l @ q # r)" and as: "lq_name q \<le> u" "y \<in> set l"
  shows "\<not> cand u y"
proof
  assume c: "cand u y"
  have a: "lq_name y < lq_name q" "\<not> (lq_inclusive y \<noteq> None \<and> prefix (lq_name y) (lq_name q))"
    using before_q [OF lv as(2)] by (auto simp: apart_def)
  then have "prefix (lq_name y) (lq_name q)"
    using c as(1) prefix_between [of "lq_name y" u "lq_name q"] by (auto simp: cand_def)
  then have "lq_name y = u" using a c by (auto simp: cand_def)
  then show False using a as(1) by auto
qed

lemma go_right:
  assumes lv: "level p (l @ q # r)" and as: "lq_name q < u" "\<not> cand u q" "outcome u (flat r) st res"
  shows "outcome u (flat (l @ q # r)) st res"
proof (rule part_of_level [OF lv as(3)])
  show "\<forall>y \<in> set (l @ q # r) - set r. \<not> cand u y" using no_cand_before [OF lv] as by auto
qed auto

lemma only_q:
  assumes lv: "level p (l @ q # r)" and as: "prefix (lq_name q) u" "lq_inclusive q \<noteq> None \<or> lq_name q = u"
  shows "\<forall>y \<in> set (l @ q # r) - set [q]. \<not> cand u y"
proof
  fix y
  assume y: "y \<in> set (l @ q # r) - set [q]"
  show "\<not> cand u y"
  proof (cases "y \<in> set l")
    case True
    then show ?thesis using no_cand_before [OF lv] prefix_le [OF as(1)] by blast
  next
    case False
    then have a: "apart q y" using behind_q [OF lv] y by auto
    show ?thesis
    proof
      assume "cand u y"
      then have pu: "prefix (lq_name y) u" by (simp add: cand_def)
      have "lq_name q \<le> lq_name y" using a by (simp add: apart_def less_imp_le)
      then have "prefix (lq_name q) (lq_name y)" using prefix_between [OF as(1)] prefix_le [OF pu] by blast
      then have "lq_name q = u" using a as(2) by (auto simp: apart_def)
      then show False using a prefix_le [OF pu] by (auto simp: apart_def)
    qed
  qed
qed

lemma go_down:
  assumes lv: "level p (l @ q # r)" and as: "prefix (lq_name q) u" "lq_name q \<noteq> u" "lq_inclusive q = Some c"
      "outcome u (flat (lq_list q)) (NGX_AGAIN, c) res"
  shows "outcome u (flat (l @ q # r)) st res"
proof -
  obtain e i n ls where q: "q = LQ e i n ls" by (cases q)
  have f: "flat [q] = LQ e i n [] # flat (lq_list q)" by (simp add: q flat_def)
  have "in_order q" using lv by (auto simp: level_def)
  then have sp: "strict_prefix n (lq_name x)" if "x \<in> set (flat ls)" for x
    using that q flat_lq_prefix by (fastforce simp: flat_def intro: prefix_order.less_le_trans)
  have "outcome u (flat [q]) st res"
    using as(4)
  proof cases
    case (Exact e c)
    then show ?thesis unfolding f Exact(1) by (intro outcome.Exact) auto
  next
    case (Inclusive e' c')
    have "length n \<le> length (lq_name e')" using sp [of e'] Inclusive q by (auto dest: prefix_length_less)
    then show ?thesis using Inclusive(2-) as q unfolding f Inclusive(1) by (intro outcome.Inclusive [of _ _ e']) auto
  next
    case Nothing
    then show ?thesis unfolding f using as q
      by (auto intro!: outcome.Inclusive [of _ _ "LQ e i n []"] simp: cand_def)
  next
    case (Redirect e c)
    then show ?thesis unfolding f Redirect(1) using as q by (intro outcome.Redirect) auto
  qed
  then show ?thesis using part_of_level [OF lv _ _ only_q [OF lv]] as by simp
qed

lemma equal_found:
  assumes lv: "level p (l @ q # r)" and n: "lq_name q = u"
  shows "lq_exact q = Some c \<Longrightarrow> outcome u (flat (l @ q # r)) st (NGX_OK, c)"
    and "lq_exact q = None \<Longrightarrow> lq_inclusive q = Some c \<Longrightarrow> outcome u (flat (l @ q # r)) st (NGX_AGAIN, c)"
proof -
  obtain e i m ls where q: "q = LQ e i m ls" by (cases q)
  have f: "flat [q] = LQ e i m [] # flat ls" by (simp add: q flat_def)
  have part: "outcome u (flat [q]) st res \<Longrightarrow> outcome u (flat (l @ q # r)) st res" for res
    using part_of_level [OF lv _ _ only_q [OF lv]] n by simp
  show "outcome u (flat (l @ q # r)) st (NGX_OK, c)" if "lq_exact q = Some c"
    by (rule part, rule outcome.Exact [of "LQ e i m []"]) (use that n q f in auto)
  have "in_order q" using lv by (auto simp: level_def)
  then have sp: "strict_prefix u (lq_name x)" if "x \<in> set (flat ls)" for x
    using that q n flat_lq_prefix by (fastforce simp: flat_def intro: prefix_order.less_le_trans)
  then have "lq_name x \<noteq> u" if "x \<in> set (flat ls)" for x using that by auto
  then show "outcome u (flat (l @ q # r)) st (NGX_AGAIN, c)" if "lq_exact q = None" "lq_inclusive q = Some c"
    by (intro part outcome.Inclusive [of _ _ "LQ e i m []"]) (use that n q f in \<open>auto dest: prefix_length_le\<close>)
qed

lemma redirect_left:
  assumes lv: "level p (l @ q # r)" and "u < lq_name q" "redirect_to u q c" "outcome u (flat l) (NGX_DONE, c) res"
  shows "outcome u (flat (l @ q # r)) st res"
proof -
  have "outcome u (flat (l @ q # r)) (NGX_DONE, c) res" by (rule go_left [OF assms(1,2,4)])
  then show ?thesis
  proof cases
    case Nothing
    obtain e i n ls where q: "q = LQ e i n ls" by (cases q)
    have "lq_name x \<noteq> u" if "x \<in> set (flat (l @ q # r))" for x
    proof -
      have "\<not> cand u x" using Nothing that by blast
      then show ?thesis by (auto simp: cand_def)
    qed
    moreover have "redirect_to u (LQ e i n []) c" using assms(3) q by (auto simp: redirect_to_def lq_conf_def split: option.splits)
    moreover have "LQ e i n [] \<in> set (flat (l @ q # r))" using q by simp
    ultimately show ?thesis unfolding Nothing(1) by (intro outcome.Redirect) auto
  next
    case (Exact e c)
    show ?thesis unfolding Exact(1) by (rule outcome.Exact) (rule Exact)+
  next
    case (Inclusive e c)
    show ?thesis unfolding Inclusive(1) by (rule outcome.Inclusive) (rule Inclusive)+
  next
    case (Redirect e c)
    show ?thesis unfolding Redirect(1) by (rule outcome.Redirect) (rule Redirect)+
  qed
qed

text \<open>A node, with its name split behind the prefix of the level.\<close>

lemma tree_split:
  assumes "qs \<noteq> []"
  obtains l q r where "qs = l @ q # r" "q \<in> set qs"
    "ngx_http_create_locations_tree k qs =
       Node (ngx_http_create_locations_tree k l) (ngx_http_create_locations_tree k r)
         (ngx_http_create_locations_tree (k + (length (lq_name q) - k)) (lq_list q)) (lq_exact q) (lq_inclusive q)
         (redirecting (lq_exact q) \<or> redirecting (lq_inclusive q)) (of_nat (length (lq_name q) - k)) (drop k (lq_name q))"
    "size_list size l < size_list size qs" "size_list size r < size_list size qs" "size_list size (lq_list q) < size_list size qs"
proof -
  define i where "i = length qs div 2"
  have i: "i < length qs" using assms by (simp add: i_def)
  have tip: "ngx_http_create_locations_tree k [] = Tip" for k by (subst ngx_http_create_locations_tree.simps) simp
  have r: "take i qs = [] \<Longrightarrow> drop (Suc i) qs = []" using assms by (cases qs; cases "tl qs") (auto simp: i_def)
  have qs: "qs = take i qs @ qs ! i # drop (Suc i) qs" using i by (simp add: id_take_nth_drop)
  have sz: "size_list size qs = size_list size (take i qs) + size_list size (qs ! i # drop (Suc i) qs)"
    by (subst qs) (simp only: size_list_append)
  show ?thesis
  proof (rule that [OF qs])
    show "qs ! i \<in> set qs" using i by simp
    show "size_list size (lq_list (qs ! i)) < size_list size qs" using sz lq_list_size [of "qs ! i"] by simp
    show "ngx_http_create_locations_tree k qs =
       Node (ngx_http_create_locations_tree k (take i qs)) (ngx_http_create_locations_tree k (drop (Suc i) qs))
         (ngx_http_create_locations_tree (k + (length (lq_name (qs ! i)) - k)) (lq_list (qs ! i))) (lq_exact (qs ! i)) (lq_inclusive (qs ! i))
         (redirecting (lq_exact (qs ! i)) \<or> redirecting (lq_inclusive (qs ! i))) (of_nat (length (lq_name (qs ! i)) - k)) (drop k (lq_name (qs ! i)))"
      using assms r by (subst ngx_http_create_locations_tree.simps) (simp add: Let_def tip flip: i_def)
  qed (use sz in auto)
qed

text \<open>A tree searched for what is behind \<open>p\<close> gives an outcome of the locations \<open>qs\<close>.\<close>

definition answers :: "conf ltree \<Rightarrow> bytes \<Rightarrow> bytes \<Rightarrow> conf lq list \<Rightarrow> ngx_rc \<Rightarrow> conf \<Rightarrow> bool" where
  "answers t p u qs rv lc \<longleftrightarrow>
     (\<exists>res. ngx_http_core_find_static_location u t rv lc = Some res \<and> outcome (p @ u) (flat qs) (rv, lc) res)"

definition found :: "conf ltree \<Rightarrow> bytes \<Rightarrow> conf lq list \<Rightarrow> bool" where
  "found t p qs \<longleftrightarrow> (\<forall>u rv lc. answers t p u qs rv lc)"

lemma foundE:
  assumes "found t p qs"
  obtains res where "ngx_http_core_find_static_location u t rv lc = Some res" "outcome (p @ u) (flat qs) (rv, lc) res"
  using assms unfolding found_def answers_def by blast

definition node_of :: "conf ltree \<Rightarrow> conf ltree \<Rightarrow> conf ltree \<Rightarrow> conf lq \<Rightarrow> bytes \<Rightarrow> conf ltree" where
  "node_of tL tR t q s = Node tL tR t (lq_exact q) (lq_inclusive q) (redirecting (lq_exact q) \<or> redirecting (lq_inclusive q)) (of_nat (length s)) s"

definition node_parts :: "bytes \<Rightarrow> bytes \<Rightarrow> conf lq list \<Rightarrow> conf lq \<Rightarrow> conf lq list \<Rightarrow> conf ltree \<Rightarrow> conf ltree \<Rightarrow> conf ltree \<Rightarrow> bool" where
  "node_parts p s l q r tL tR t \<longleftrightarrow> level p (l @ q # r) \<and> lq_name q = p @ s \<and> found tL p l \<and> found tR p r
     \<and> found t (lq_name q) (lq_list q)"

lemma node_partsD:
  assumes "node_parts p s l q r tL tR t"
  shows "level p (l @ q # r)" "lq_name q = p @ s" "found tL p l" "found tR p r" "found t (lq_name q) (lq_list q)"
  using assms by (auto simp: node_parts_def)

lemma q_facts:
  assumes np: "node_parts p s l q r tL tR t"
  shows "unat (of_nat (length s) :: u8) = length s" "\<exists>c. lq_conf q = Some c"
proof -
  note lv = node_partsD(1) [OF np] and s = node_partsD(2) [OF np]
  have "in_order q" using lv by (auto simp: level_def)
  then have "length s < 256" "lq_exact q \<noteq> None \<or> lq_inclusive q \<noteq> None" using s by (cases q; auto)+
  then show "unat (of_nat (length s) :: u8) = length s" "\<exists>c. lq_conf q = Some c"
    by (auto simp: unsigned_of_nat take_bit_nat_eq_self lq_conf_def split: option.splits)
qed

text \<open>Where the search goes, by what \<open>memcmp\<close> gives.\<close>

lemma search_left:
  assumes np: "node_parts p s l q r tL tR t" and as: "c_memcmp u s (min (length u) (length s)) = Some m" "p @ u < lq_name q"
      "m < 0 \<or> m = 0 \<and> length u < length s \<and> \<not> (Suc (length u) = length s \<and> (redirecting (lq_exact q) \<or> redirecting (lq_inclusive q)))"
  shows "answers (node_of tL tR t q s) p u (l @ q # r) rv lc"
proof -
  note lv = node_partsD(1) [OF np] and s = node_partsD(2) [OF np] and tL = node_partsD(3) [OF np] and tR = node_partsD(4) [OF np]
    and t = node_partsD(5) [OF np] and q_facts = q_facts [OF np]
  let ?search = "ngx_http_core_find_static_location u (node_of tL tR t q s) rv lc"
  have "?search = ngx_http_core_find_static_location u tL rv lc"
    using as(1,3) unfolding node_of_def by (auto simp: q_facts min_def)
  with go_left [OF lv as(2)] foundE [OF tL, of u rv lc] show ?thesis unfolding answers_def by metis
qed

lemma search_right:
  assumes np: "node_parts p s l q r tL tR t" and as: "c_memcmp u s (min (length u) (length s)) = Some m" "lq_name q < p @ u" "\<not> cand (p @ u) q"
      "0 < m \<or> m = 0 \<and> length s < length u \<and> lq_inclusive q = None"
  shows "answers (node_of tL tR t q s) p u (l @ q # r) rv lc"
proof -
  note lv = node_partsD(1) [OF np] and s = node_partsD(2) [OF np] and tL = node_partsD(3) [OF np] and tR = node_partsD(4) [OF np]
    and t = node_partsD(5) [OF np] and q_facts = q_facts [OF np]
  let ?search = "ngx_http_core_find_static_location u (node_of tL tR t q s) rv lc"
  have "?search = ngx_http_core_find_static_location u tR rv lc"
    using as(1,4) unfolding node_of_def by (auto simp: q_facts min_def)
  with go_right [OF lv as(2,3)] foundE [OF tR, of u rv lc] show ?thesis unfolding answers_def by metis
qed

lemma search_longer:
  assumes np: "node_parts p s l q r tL tR t" and m: "c_memcmp u s (min (length u) (length s)) = Some 0" and u: "u = s @ u'" "u' \<noteq> []"
  shows "answers (node_of tL tR t q s) p u (l @ q # r) rv lc"
proof -
  note lv = node_partsD(1) [OF np] and s = node_partsD(2) [OF np] and tL = node_partsD(3) [OF np] and tR = node_partsD(4) [OF np]
    and t = node_partsD(5) [OF np] and q_facts = q_facts [OF np]
  let ?search = "ngx_http_core_find_static_location u (node_of tL tR t q s) rv lc"
  show ?thesis
  proof (cases "lq_inclusive q")
    case None
    have "p @ s < p @ s @ u'" using u(2) append_less [of "p @ s" "[]" u'] by (cases u') auto
    then have "lq_name q < p @ u" using s u by simp
    moreover have "\<not> cand (p @ u) q" using s u None by (auto simp: cand_def)
    ultimately show ?thesis by (rule search_right [OF np m]) (use u None in simp)
  next
    case (Some c)
    obtain res where res: "ngx_http_core_find_static_location u' t NGX_AGAIN c = Some res"
        "outcome (lq_name q @ u') (flat (lq_list q)) (NGX_AGAIN, c) res"
      using foundE [OF t] .
    have "?search = Some res" using res(1) m Some u unfolding node_of_def by (simp add: q_facts)
    moreover have "outcome (p @ u) (flat (l @ q # r)) (rv, lc) res"
      by (rule go_down [OF lv _ _ Some]) (use res(2) s u in simp_all)
    ultimately show ?thesis unfolding answers_def by blast
  qed
qed

lemma search_equal:
  assumes np: "node_parts p s l q r tL tR t" and m: "c_memcmp u s (min (length u) (length s)) = Some 0" and u: "u = s"
  shows "answers (node_of tL tR t q s) p u (l @ q # r) rv lc"
proof -
  note lv = node_partsD(1) [OF np] and s = node_partsD(2) [OF np] and tL = node_partsD(3) [OF np] and tR = node_partsD(4) [OF np]
    and t = node_partsD(5) [OF np] and q_facts = q_facts [OF np]
  let ?search = "ngx_http_core_find_static_location u (node_of tL tR t q s) rv lc"
  show ?thesis
  proof (cases "lq_exact q")
    case None
    then obtain c where c: "lq_inclusive q = Some c" using q_facts by (auto simp: lq_conf_def)
    have "?search = Some (NGX_AGAIN, c)" using m u None c unfolding node_of_def by (simp add: q_facts)
    with equal_found(2) [OF lv _ None c] show ?thesis unfolding answers_def using s u by blast
  next
    case (Some c)
    have "?search = Some (NGX_OK, c)" using m u Some unfolding node_of_def by (simp add: q_facts)
    with equal_found(1) [OF lv _ Some] show ?thesis unfolding answers_def using s u by blast
  qed
qed

lemma search_shorter:
  assumes np: "node_parts p s l q r tL tR t" and m: "c_memcmp u s (min (length u) (length s)) = Some 0" and x: "s = u @ x" "x \<noteq> []"
  shows "answers (node_of tL tR t q s) p u (l @ q # r) rv lc"
proof -
  note lv = node_partsD(1) [OF np] and s = node_partsD(2) [OF np] and tL = node_partsD(3) [OF np] and tR = node_partsD(4) [OF np]
    and t = node_partsD(5) [OF np] and q_facts = q_facts [OF np]
  let ?search = "ngx_http_core_find_static_location u (node_of tL tR t q s) rv lc"
  have less_q: "p @ u < lq_name q" using s x append_less [of "p @ u" "[]" x] by (cases x) auto
  show ?thesis
  proof (cases "Suc (length u) = length s \<and> (redirecting (lq_exact q) \<or> redirecting (lq_inclusive q))")
    case re: True
    obtain c where c: "lq_conf q = Some c" using q_facts by auto
    obtain res where res: "ngx_http_core_find_static_location u tL NGX_DONE c = Some res" "outcome (p @ u) (flat l) (NGX_DONE, c) res"
      using foundE [OF tL] .
    have c': "(case lq_exact q of Some c \<Rightarrow> Some c | None \<Rightarrow> lq_inclusive q) = Some c" using c by (simp only: lq_conf_def)
    obtain y where "x = [y]" using re x by (cases x) auto
    then have rt: "redirect_to (p @ u) q c" using re c s x by (auto simp: redirect_to_def)
    have "?search = Some res" using res(1) m re c' unfolding node_of_def by (simp add: q_facts)
    with redirect_left [OF lv less_q rt res(2)] show ?thesis unfolding answers_def by blast
  qed (use search_left [OF np m less_q] x in auto)
qed

lemma search_node:
  assumes np: "node_parts p s l q r tL tR t"
  shows "answers (node_of tL tR t q s) p u (l @ q # r) rv lc"
proof -
  note s = node_partsD(2) [OF np]
  obtain m where m: "c_memcmp u s (min (length u) (length s)) = Some m" "m < 0 \<Longrightarrow> u < s" "0 < m \<Longrightarrow> s < u \<and> \<not> prefix s u"
      "m = 0 \<Longrightarrow> prefix u s \<or> prefix s u"
    using memcmp_order [of u s] by blast
  consider (left) "m < 0" | (right) "0 < m" | (equal) "m = 0" "u = s"
      | (longer) u' where "m = 0" "u = s @ u'" "u' \<noteq> []" | (shorter) x where "m = 0" "s = u @ x" "x \<noteq> []"
    using m(4) by (cases m "0 :: int" rule: linorder_cases) (auto simp: prefix_def)
  then show ?thesis
  proof cases
    case left
    then show ?thesis using m s append_less by (intro search_left [OF np m(1)]) auto
  next
    case right
    then show ?thesis using m s append_less by (intro search_right [OF np m(1)]) (auto simp: cand_def)
  next
    case equal
    then show ?thesis using m by (intro search_equal [OF np]) auto
  next
    case longer
    then show ?thesis using m by (intro search_longer [OF np]) auto
  next
    case shorter
    then show ?thesis using m by (intro search_shorter [OF np]) auto
  qed
qed

lemma search_level: "level p qs \<Longrightarrow> found (ngx_http_create_locations_tree (length p) qs) p qs"
proof (induction "size_list size qs" arbitrary: p qs rule: less_induct)
  case less
  show ?case
  proof (cases "qs = []")
    case True
    then show ?thesis by (subst ngx_http_create_locations_tree.simps) (auto simp: found_def answers_def intro: outcome.Nothing)
  next
    case False
    from tree_split [OF False, of "length p"] obtain l q r where qs: "qs = l @ q # r"
      and t: "ngx_http_create_locations_tree (length p) qs =
       Node (ngx_http_create_locations_tree (length p) l) (ngx_http_create_locations_tree (length p) r)
         (ngx_http_create_locations_tree (length p + (length (lq_name q) - length p)) (lq_list q)) (lq_exact q) (lq_inclusive q)
         (redirecting (lq_exact q) \<or> redirecting (lq_inclusive q)) (of_nat (length (lq_name q) - length p)) (drop (length p) (lq_name q))"
      and sz: "size_list size l < size_list size qs" "size_list size r < size_list size qs" "size_list size (lq_list q) < size_list size qs"
      by metis
    note lv = less.prems [unfolded qs]
    have lvs: "level p l" "level p r" "level (lq_name q) (lq_list q)" "prefix p (lq_name q)"
      using lv by (auto simp: level_append level_Cons intro: level_below)
    then obtain s where s: "lq_name q = p @ s" by (auto simp: prefix_def)
    note IH = less.hyps [OF sz(1) lvs(1)] less.hyps [OF sz(2) lvs(2)] less.hyps [OF sz(3) lvs(3)]
    have "ngx_http_create_locations_tree (length p) qs = node_of (ngx_http_create_locations_tree (length p) l)
        (ngx_http_create_locations_tree (length p) r) (ngx_http_create_locations_tree (length (lq_name q)) (lq_list q)) q s"
      unfolding t node_of_def using s by simp
    moreover have "node_parts p s l q r (ngx_http_create_locations_tree (length p) l) (ngx_http_create_locations_tree (length p) r)
        (ngx_http_create_locations_tree (length (lq_name q)) (lq_list q))"
      unfolding node_parts_def using lv s IH by simp
    ultimately show ?thesis unfolding found_def qs by (metis search_node)
  qed
qed

section \<open>The lists\<close>

text \<open>Entries before they are put into one another.\<close>

definition single :: "'c lq \<Rightarrow> bool" where
  "single q \<longleftrightarrow> lq_list q = [] \<and> 0 \<notin> set (lq_name q) \<and> length (lq_name q) < 256 \<and> (lq_exact q \<noteq> None \<or> lq_inclusive q \<noteq> None)"

definition growing :: "'c lq list \<Rightarrow> bool" where
  "growing qs \<longleftrightarrow> sorted_wrt (\<lambda>q x. lq_name q < lq_name x) qs"

lemma growing_simps [simp]:
  "growing []" "growing (q # qs) \<longleftrightarrow> (\<forall>x \<in> set qs. lq_name q < lq_name x) \<and> growing qs"
  "growing (qs @ xs) \<longleftrightarrow> growing qs \<and> growing xs \<and> (\<forall>q \<in> set qs. \<forall>x \<in> set xs. lq_name q < lq_name x)"
  by (auto simp: growing_def sorted_wrt_append)

lemma below_prefix: "0 \<notin> set (lq_name q) \<Longrightarrow> below q x \<longleftrightarrow> prefix (lq_name q) (lq_name x)"
  unfolding below_def by (rule strncmp_prefix)

lemma others_apart:
  assumes "growing (q # qs)" "0 \<notin> set (lq_name q)" "x \<in> set (dropWhile (below q) qs)"
  shows "apart q x"
proof -
  obtain y ys where y: "dropWhile (below q) qs = y # ys" using assms(3) by (cases "dropWhile (below q) qs") auto
  then have "\<not> below q y" using hd_dropWhile [of "below q" qs] by simp
  moreover have "growing (y # ys)" using assms(1) takeWhile_dropWhile_id [of "below q" qs] y by (metis growing_simps(2,3))
  moreover have "x \<in> set qs" "y \<in> set qs" using assms(3) y set_dropWhileD [of _ "below q" qs] by auto
  then have "lq_name q < lq_name x" "lq_name q < lq_name y" using assms(1) by auto
  moreover have "x \<in> set (y # ys)" using assms(3) y by simp
  ultimately have "lq_name q < lq_name x" "lq_name q \<le> lq_name y" "lq_name y \<le> lq_name x" "\<not> prefix (lq_name q) (lq_name y)"
    using assms(2) by (auto simp: below_prefix less_imp_le)
  then show ?thesis using prefix_between [of "lq_name q" "lq_name x" "lq_name y"] by (auto simp: apart_def)
qed

lemma flat_names: "q \<in> set qs \<Longrightarrow> \<exists>x \<in> set (flat qs). lq_name x = lq_name q"
  by (cases q) (force simp: flat_def)

lemma create_list_level:
  assumes "growing qs" "\<forall>q \<in> set qs. single q \<and> prefix p (lq_name q)"
  shows "level p (ngx_http_create_locations_list qs) \<and> flat (ngx_http_create_locations_list qs) = qs"
  using assms
proof (induction qs arbitrary: p rule: ngx_http_create_locations_list.induct)
  case (2 q qs)
  let ?L = ngx_http_create_locations_list
  have q: "single q" "prefix p (lq_name q)" "0 \<notin> set (lq_name q)" "lq_list q = []"
    using 2(6) by (auto simp: single_def)
  have self: "in_order q" "flat_lq q = [q]" using q by (cases q; auto simp: single_def)+
  have set_qs: "\<forall>x \<in> set qs. single x \<and> prefix p (lq_name x)" and gr: "growing qs" using 2(5,6) by auto
  have names: "\<exists>y \<in> set xs. lq_name y = lq_name x" if "flat (?L xs) = xs" "x \<in> set (?L xs)" for x xs
    using flat_names [OF that(2)] that(1) by simp
  define sub where "sub = takeWhile (below q) qs"
  define others where "others = dropWhile (below q) qs"
  have so: "sub @ others = qs" by (simp add: sub_def others_def)
  have go: "growing sub" "growing others" using gr by (auto simp flip: so)
  consider "qs = []" | "qs \<noteq> []" "lq_inclusive q = None" | "qs \<noteq> []" "lq_inclusive q \<noteq> None" "sub = []"
      | "qs \<noteq> []" "lq_inclusive q \<noteq> None" "sub \<noteq> []" by blast
  then show ?case
  proof cases
    case 1
    then show ?thesis using self q by (simp add: level_Cons level_def)
  next
    case 2
    note IH = "2.IH"(1) [OF 2 gr set_qs]
    have "apart q x" if "x \<in> set (?L qs)" for x using names [OF _ that] IH "2.prems"(1) 2 by (auto simp: apart_def)
    then show ?thesis using 2 IH self q by (simp add: level_Cons)
  next
    case 3
    then have o: "others = qs" using so by simp
    note IH = "2.IH"(2) [OF 3(1,2) sub_def others_def 3(3) go(2) set_qs [folded o]]
    have "apart q x" if x: "x \<in> set (?L qs)" for x
    proof -
      obtain y where y: "y \<in> set others" "lq_name y = lq_name x" using names [OF _ x] IH o by auto
      show ?thesis using others_apart [OF "2.prems"(1) q(3), of y] y by (auto simp: apart_def others_def)
    qed
    then show ?thesis using 3 IH self q o by (simp add: level_Cons Let_def flip: sub_def others_def)
  next
    case 4
    have sb: "\<forall>x \<in> set sub. single x \<and> prefix (lq_name q) (lq_name x)"
      using set_qs q(3) set_takeWhileD [of _ "below q" qs] by (auto simp: sub_def below_prefix)
    have ot: "\<forall>x \<in> set others. single x \<and> prefix p (lq_name x)" using set_qs so by auto
    have IH1: "level (lq_name q) (?L sub) \<and> flat (?L sub) = sub"
      using "2.IH"(3) [OF 4(1,2) sub_def others_def 4(3), of "lq_name q"] go(1) sb q(4) by simp
    have IH2: "level p (?L others) \<and> flat (?L others) = others"
      using "2.IH"(4) [OF 4(1,2) sub_def others_def 4(3) go(2) ot] .
    let ?q = "LQ (lq_exact q) (lq_inclusive q) (lq_name q) (?L sub)"
    have r: "?L (q # qs) = ?q # ?L others" proof -
      obtain c where "lq_inclusive q = Some c" using 4(2) by auto
      then show ?thesis using 4(1,3) q(4) by (simp add: Let_def flip: sub_def others_def)
    qed
    have "strict_prefix (lq_name q) (lq_name x)" if x: "x \<in> set (?L sub)" for x
    proof -
      obtain y where "y \<in> set sub" "lq_name y = lq_name x" using names [OF _ x] IH1 by auto
      moreover have "y \<in> set qs" if "y \<in> set sub" for y using that so by auto
      ultimately show ?thesis using sb "2.prems"(1) by (force simp: strict_prefix_def)
    qed
    then have "in_order ?q" using IH1 q(1) 4(2) by (simp add: level_def single_def)
    moreover have "apart ?q x" if x: "x \<in> set (?L others)" for x
    proof -
      obtain y where y: "y \<in> set others" "lq_name y = lq_name x" using names [OF _ x] IH2 by auto
      show ?thesis using others_apart [OF "2.prems"(1) q(3), of y] y by (auto simp: apart_def others_def)
    qed
    moreover have "flat_lq ?q = q # sub" using IH1 q(4) by (cases q) (simp add: flat_def)
    ultimately show ?thesis unfolding r using IH1 IH2 so q(2) by (simp add: level_Cons)
  qed
qed (simp add: level_def)

section \<open>Joining\<close>

text \<open>An exact location before the inclusive one of its name, and the same without duplicates.\<close>

definition exact_first :: "'c lq \<Rightarrow> 'c lq \<Rightarrow> bool" where
  "exact_first a b \<longleftrightarrow> lq_name a < lq_name b \<or> lq_name a = lq_name b \<and> (lq_exact b \<noteq> None \<longrightarrow> lq_exact a \<noteq> None)"

definition has_exact :: "'c lq list \<Rightarrow> bytes \<Rightarrow> 'c \<Rightarrow> bool" where
  "has_exact qs n c \<longleftrightarrow> (\<exists>q \<in> set qs. lq_name q = n \<and> lq_exact q = Some c)"

definition has_inclusive :: "'c lq list \<Rightarrow> bytes \<Rightarrow> 'c \<Rightarrow> bool" where
  "has_inclusive qs n c \<longleftrightarrow> (\<exists>q \<in> set qs. lq_name q = n \<and> lq_inclusive q = Some c)"

lemma strcmp_eq: "single q \<Longrightarrow> single x \<Longrightarrow> c_strcmp (lq_name q) (lq_name x) = 0 \<longleftrightarrow> lq_name q = lq_name x"
  using c_strcmp_sign by (auto simp: single_def)

lemma join_ok:
  assumes "ngx_http_join_exact_locations qs = Some xs" "\<forall>q \<in> set qs. single q" "sorted_wrt exact_first qs"
  shows "growing xs \<and> (\<forall>q \<in> set xs. single q) \<and> (\<forall>n c. has_exact xs n c \<longleftrightarrow> has_exact qs n c)
    \<and> (\<forall>n c. has_inclusive xs n c \<longleftrightarrow> has_inclusive qs n c)"
  using assms
proof (induction qs arbitrary: xs rule: ngx_http_join_exact_locations.induct)
  case (1 q x qs)
  note e = strcmp_eq [of q x]
  show ?case
  proof (cases "lq_name q = lq_name x")
    case True
    let ?m = "LQ (lq_exact q) (lq_inclusive x) (lq_name q) (lq_list q)"
    have nd: "\<not> (lq_exact q \<noteq> None \<and> lq_exact x \<noteq> None)" "\<not> (lq_inclusive q \<noteq> None \<and> lq_inclusive x \<noteq> None)"
      and j: "ngx_http_join_exact_locations (?m # qs) = Some xs"
      using 1(3-) True e by (auto split: if_splits)
    have ex: "lq_exact x = None" "lq_inclusive x \<noteq> None" "lq_inclusive q = None" "lq_exact q \<noteq> None"
      using nd 1(4,5) True by (auto simp: exact_first_def single_def)
    have t: "sorted_wrt exact_first qs" "\<forall>y \<in> set qs. exact_first q y" using 1(5) by auto
    have "\<forall>y \<in> set (?m # qs). single y" using 1(4) ex True by (auto simp: single_def)
    moreover have "sorted_wrt exact_first (?m # qs)" using t by (simp add: exact_first_def [of ?m] exact_first_def [of q])
    ultimately have "\<forall>y \<in> set (?m # qs). single y" "sorted_wrt exact_first (?m # qs)" by blast+
    from "1.IH"(1) [OF _ _ j this(1,2)] have "growing xs \<and> (\<forall>q \<in> set xs. single q) \<and> (\<forall>n c. has_exact xs n c \<longleftrightarrow> has_exact (?m # qs) n c)
        \<and> (\<forall>n c. has_inclusive xs n c \<longleftrightarrow> has_inclusive (?m # qs) n c)"
      using nd e True 1(4) by auto
    then show ?thesis using ex True by (auto simp: has_exact_def has_inclusive_def)
  next
    case False
    then obtain ys where j: "ngx_http_join_exact_locations (x # qs) = Some ys" "xs = q # ys"
      using 1(3,4) e by auto
    have IH: "growing ys \<and> (\<forall>q \<in> set ys. single q) \<and> (\<forall>n c. has_exact ys n c \<longleftrightarrow> has_exact (x # qs) n c)
        \<and> (\<forall>n c. has_inclusive ys n c \<longleftrightarrow> has_inclusive (x # qs) n c)"
      using "1.IH"(2) [OF _ j(1)] False e 1(4,5) by auto
    have "lq_name q < lq_name y" if "y \<in> set (x # qs)" for y
    proof -
      have "lq_name q < lq_name x" using False 1(5) by (auto simp: exact_first_def)
      moreover have "lq_name x \<le> lq_name y" using that 1(5) by (auto simp: exact_first_def)
      ultimately show ?thesis by simp
    qed
    moreover have "\<exists>z \<in> set (x # qs). lq_name z = lq_name y" if y: "y \<in> set ys" for y
    proof -
      have "(\<exists>c. lq_exact y = Some c) \<or> (\<exists>c. lq_inclusive y = Some c)" using IH y by (auto simp: single_def)
      then show ?thesis using IH y unfolding has_exact_def has_inclusive_def by metis
    qed
    ultimately have "growing xs" using IH j(2) by fastforce
    moreover have "has_exact xs n c \<longleftrightarrow> has_exact (q # x # qs) n c" "has_inclusive xs n c \<longleftrightarrow> has_inclusive (q # x # qs) n c" for n c
      using IH j(2) by (auto simp: has_exact_def has_inclusive_def)
    ultimately show ?thesis using IH j(2) 1(4) by auto
  qed
qed (auto simp: has_exact_def has_inclusive_def)

section \<open>The order\<close>

definition rank :: "loc_info \<Rightarrow> nat" where
  "rank i = (if noname i then 3 else if named i then 2 else if regex i \<noteq> None then 1 else 0)"

definition loc_key :: "loc_info \<Rightarrow> nat \<times> bytes \<times> nat" where
  "loc_key i = (rank i, if even (rank i) then takeWhile (\<lambda>c. c \<noteq> 0) (loc_name i) else [],
     if rank i = 0 \<and> \<not> exact_match i then 1 else 0)"

lemma c_strcmp_cut: "c_strcmp s t = c_strcmp (takeWhile (\<lambda>c. c \<noteq> 0) s) (takeWhile (\<lambda>c. c \<noteq> 0) t)"
proof (induction s t rule: c_strcmp.induct)
  case (4 a s b t)
  then show ?case by (cases "a = 0"; cases "b = 0") auto
qed auto

lemma cut_sign:
  "(c_strcmp s t = 0 \<longleftrightarrow> takeWhile (\<lambda>c. c \<noteq> 0) s = takeWhile (\<lambda>c. c \<noteq> 0) t) \<and>
   (c_strcmp s t \<le> 0 \<longleftrightarrow> takeWhile (\<lambda>c. c \<noteq> 0) s \<le> takeWhile (\<lambda>c. c \<noteq> 0) t)"
  by (subst (1 2) c_strcmp_cut) (rule c_strcmp_sign; auto dest: set_takeWhileD)

lemma cmp_infos_key: "cmp_infos a b \<le> 0 \<longleftrightarrow> loc_key a \<le> loc_key b"
  using cut_sign [of "loc_name a" "loc_name b"]
  by (auto simp: cmp_infos_def loc_key_def rank_def less_eq_prod_def Let_def order_le_less)

lemma locations_sorted: "queue_sort ngx_http_cmp_locations q = sort_key (\<lambda>l. loc_key (lq_info l)) q"
  by (rule queue_sort_key) (simp add: ngx_http_cmp_locations_def cmp_infos_key)

section \<open>The initialisation of a level\<close>

lemma those_Some: "those xs = Some ys \<Longrightarrow> xs = map Some ys"
  by (induction xs arbitrary: ys) (auto split: option.splits)

lemma init_info:
  "ngx_http_init_locations server c = Some c' \<Longrightarrow> info c' = info c"
  "ngx_http_init_static_location_trees c = Some c' \<Longrightarrow> info c' = info c"
  by (cases c; auto simp: Let_def split: if_splits bind_splits)+

text \<open>The queue with only the fields of its locations.\<close>

abbreviation infos :: "conf lq list \<Rightarrow> loc_info lq list" where
  "infos \<equiv> map (map_lq info)"

definition lqi :: "loc_info lq \<Rightarrow> loc_info" where
  "lqi l = the (lq_conf l)"

lemma lq_conf_map: "lq_conf (map_lq f l) = map_option f (lq_conf l)"
  by (cases l) (auto simp: lq_conf_def split: option.splits)

lemma lqi_info: "lq_conf l \<noteq> None \<Longrightarrow> lqi (map_lq info l) = lq_info l"
  by (auto simp: lqi_def lq_info_def lq_conf_map)

lemma set_conf_infos: "lq_conf l = Some c \<Longrightarrow> info c' = info c \<Longrightarrow> map_lq info (set_conf l c') = map_lq info l"
  by (cases l) (auto simp: set_conf_def lq_conf_def split: option.splits)

lemma those_infos:
  assumes "those (map (\<lambda>l. case lq_conf l of None \<Rightarrow> None | Some c \<Rightarrow> map_option (set_conf l) (f c)) q) = Some q'"
    and "\<And>c c'. f c = Some c' \<Longrightarrow> info c' = info c"
  shows "infos q' = infos q \<and> (\<forall>l \<in> set q'. lq_conf l \<noteq> None) \<and> (\<forall>l \<in> set q. lq_conf l \<noteq> None)"
  using those_Some [OF assms(1)]
proof (induction q arbitrary: q')
  case (Cons l q)
  obtain l' qs where q': "q' = l' # qs" "map (\<lambda>l. case lq_conf l of None \<Rightarrow> None | Some c \<Rightarrow> map_option (set_conf l) (f c)) q = map Some qs"
    using Cons.prems by (cases q') auto
  obtain c c' where c: "lq_conf l = Some c" "f c = Some c'" "l' = set_conf l c'"
    using Cons.prems q' by (auto split: option.splits)
  have "lq_conf l' = Some c'" using c(3) by (auto simp: set_conf_def lq_conf_def split: option.splits)
  then show ?case using Cons.IH [OF q'(2)] q'(1) c set_conf_infos [OF c(1)] assms(2) [OF c(2)] by auto
qed simp

text \<open>On a queue in order the three cuts leave the plain locations.\<close>

lemma takeWhile_sorted:
  assumes "sorted (map f xs)" "\<And>x. x \<in> set xs \<Longrightarrow> P x \<longleftrightarrow> f x < (k :: 'k::linorder)"
  shows "takeWhile P xs = filter P xs"
  using assms
proof (induction xs)
  case (Cons x xs)
  show ?case
  proof (cases "P x")
    case False
    then have "k \<le> f x" using Cons.prems(2) by (simp add: not_less)
    then have "\<not> P y" if "y \<in> set xs" for y
      using that Cons.prems(1) Cons.prems(2) [of y] by (auto simp: not_less dest: order_trans)
    then show ?thesis using False by (auto simp: filter_empty_conv)
  qed (use Cons in auto)
qed simp

lemma takeWhile_twice: "takeWhile P (takeWhile Q xs) = takeWhile (\<lambda>x. P x \<and> Q x) xs"
  by (induction xs) auto

lemma sorted_rank: "sorted (map (\<lambda>l. loc_key (g l)) xs) \<Longrightarrow> sorted (map (\<lambda>l. rank (g l)) xs)"
  by (induction xs) (auto simp: loc_key_def less_eq_prod_def)

lemma map_lqi: "\<forall>l \<in> set q. lq_conf l \<noteq> None \<Longrightarrow> map (\<lambda>l. f (lq_info l)) q = map (\<lambda>l. f (lqi l)) (infos q)"
  by (simp add: lqi_info)

lemma filter_lqi: "\<forall>l \<in> set q. lq_conf l \<noteq> None \<Longrightarrow> infos (filter (\<lambda>l. P (lq_info l)) q) = filter (\<lambda>l. P (lqi l)) (infos q)"
  by (induction q) (auto simp: lqi_info)

lemma init_level:
  assumes init: "ngx_http_init_locations server (Conf i q [] Tip []) = Some p" and cf: "\<forall>l \<in> set q. lq_conf l \<noteq> None"
  obtains q' rs nm where "p = Conf i q' rs Tip nm"
    "infos q' = filter (\<lambda>l. rank (lqi l) < 1) (infos (queue_sort ngx_http_cmp_locations q))"
proof (cases "q = []")
  case True
  then show ?thesis using init that [of "[]" "[]" "[]"] by (simp add: queue_sort_def)
next
  case False
  let ?s = "queue_sort ngx_http_cmp_locations q"
  define q0 where "q0 = takeWhile (\<lambda>l. \<not> noname (lq_info l)) ?s"
  obtain q1 where q1: "those (map (\<lambda>l. case lq_conf l of None \<Rightarrow> None
      | Some c \<Rightarrow> map_option (set_conf l) (ngx_http_init_locations False c)) q0) = Some q1"
    using init False unfolding q0_def by (auto simp: Let_def split: bind_splits)
  define q2 where "q2 = takeWhile (\<lambda>l. regex (lq_info l) \<noteq> None \<or> \<not> named (lq_info l)) q1"
  define q3 where "q3 = takeWhile (\<lambda>l. regex (lq_info l) = None) q2"
  have p: "\<exists>rs nm. p = Conf i q3 rs Tip nm"
    using init False q1 unfolding q3_def q2_def by (auto simp: Let_def simp flip: q0_def split: if_splits)
  have cs: "\<forall>l \<in> set ?s. lq_conf l \<noteq> None" using cf by (simp add: set_queue_sort)
  have srt: "sorted (map (\<lambda>l. rank (lq_info l)) ?s)" by (rule sorted_rank) (simp add: locations_sorted)
  have q0: "q0 = filter (\<lambda>l. \<not> noname (lq_info l)) ?s"
    unfolding q0_def by (rule takeWhile_sorted [OF srt, of _ 3]) (simp add: rank_def)
  have i1: "infos q1 = infos q0" "\<forall>l \<in> set q1. lq_conf l \<noteq> None" "\<forall>l \<in> set q0. lq_conf l \<noteq> None"
    using those_infos [OF q1 init_info(1)] by auto
  have "sorted (map (\<lambda>l. rank (lq_info l)) q0)" unfolding q0 using srt by (rule sorted_filter)
  then have srt1: "sorted (map (\<lambda>l. rank (lq_info l)) q1)" using i1 by (simp add: map_lqi [of _ rank])
  have nn: "\<not> noname (lq_info l)" if l: "l \<in> set q1" for l
  proof -
    have "noname (lq_info l) \<in> set (map (\<lambda>l. noname (lq_info l)) q1)" using l by simp
    also have "\<dots> = set (map (\<lambda>l. noname (lq_info l)) q0)" using i1 by (simp only: map_lqi [of _ noname])
    finally show ?thesis unfolding q0 by auto
  qed
  have r: "regex i = None \<and> (regex i \<noteq> None \<or> \<not> named i) \<longleftrightarrow> rank i < 1" if "\<not> noname i" for i
    using that by (auto simp: rank_def)
  have "q3 = filter (\<lambda>l. regex (lq_info l) = None \<and> (regex (lq_info l) \<noteq> None \<or> \<not> named (lq_info l))) q1"
    unfolding q3_def q2_def takeWhile_twice by (rule takeWhile_sorted [OF srt1, of _ 1]) (rule r, rule nn)
  also have "\<dots> = filter (\<lambda>l. rank (lq_info l) < 1) q1" by (rule filter_cong) (use r nn in auto)
  finally have q3: "q3 = filter (\<lambda>l. rank (lq_info l) < 1) q1" .
  have "infos q3 = filter (\<lambda>l. rank (lqi l) < 1) (infos q0)"
    unfolding q3 filter_lqi [OF i1(2), of "\<lambda>i. rank i < 1"] i1(1) ..
  also have "infos q0 = filter (\<lambda>l. \<not> noname (lqi l)) (infos ?s)" unfolding q0 by (rule filter_lqi [OF cs])
  also have "filter (\<lambda>l. rank (lqi l) < 1) \<dots> = filter (\<lambda>l. rank (lqi l) < 1) (infos ?s)"
    unfolding filter_filter by (rule filter_cong) (auto simp: rank_def)
  finally show ?thesis using p that by blast
qed

section \<open>What a request should get\<close>

text \<open>The reference: the exact location of the name; otherwise the inclusive one with the longest name that
  begins the URI; otherwise the configuration around.\<close>

definition plain_locations :: "loc_info list \<Rightarrow> loc_info list" where
  "plain_locations js = filter (\<lambda>i. \<not> noname i \<and> \<not> named i \<and> regex i = None) js"

definition exact_choice :: "bytes \<Rightarrow> loc_info list \<Rightarrow> loc_info option" where
  "exact_choice uri js = find (\<lambda>i. exact_match i \<and> loc_name i = uri) js"

definition longer :: "bytes \<Rightarrow> loc_info option \<Rightarrow> loc_info \<Rightarrow> loc_info option" where
  "longer uri b i =
     (if \<not> exact_match i \<and> prefix (loc_name i) uri \<and>
         (case b of None \<Rightarrow> True | Some j \<Rightarrow> length (loc_name j) < length (loc_name i))
      then Some i else b)"

definition prefix_choice :: "bytes \<Rightarrow> loc_info list \<Rightarrow> loc_info option" where
  "prefix_choice uri js = foldl (longer uri) None js"

definition choice :: "bytes \<Rightarrow> loc_info \<Rightarrow> loc_info list \<Rightarrow> ngx_rc \<times> loc_info" where
  "choice uri outer js =
     (case exact_choice uri js of
        Some i \<Rightarrow> (NGX_OK, i)
      | None \<Rightarrow> (case prefix_choice uri js of Some i \<Rightarrow> (NGX_AGAIN, i) | None \<Rightarrow> (NGX_DECLINED, outer)))"

text \<open>The redirection to a location whose name is the URI and one byte more.\<close>

definition redirected :: "bytes \<Rightarrow> loc_info list \<Rightarrow> loc_info \<Rightarrow> bool" where
  "redirected uri js j \<longleftrightarrow> j \<in> set js \<and> loc_name j \<noteq> [] \<and> butlast (loc_name j) = uri \<and>
     (\<exists>k \<in> set js. loc_name k = loc_name j \<and> auto_redirect k) \<and> (\<forall>k \<in> set js. loc_name k \<noteq> uri)"

lemma exact_choice_cases:
  "(exact_choice uri js = None \<longleftrightarrow> (\<forall>i \<in> set js. \<not> (exact_match i \<and> loc_name i = uri))) \<and>
   (\<forall>i. exact_choice uri js = Some i \<longrightarrow> i \<in> set js \<and> exact_match i \<and> loc_name i = uri)"
  by (auto simp: exact_choice_def find_None_iff find_Some_iff)

definition longest_of :: "bytes \<Rightarrow> loc_info set \<Rightarrow> loc_info \<Rightarrow> bool" where
  "longest_of uri S i \<longleftrightarrow> i \<in> S \<and> \<not> exact_match i \<and> prefix (loc_name i) uri \<and>
     (\<forall>j \<in> S. \<not> exact_match j \<and> prefix (loc_name j) uri \<longrightarrow> length (loc_name j) \<le> length (loc_name i))"

lemma prefix_choice_longest:
  "case prefix_choice uri js of
     None \<Rightarrow> \<forall>i \<in> set js. \<not> (\<not> exact_match i \<and> prefix (loc_name i) uri)
   | Some i \<Rightarrow> longest_of uri (set js) i"
proof (induction js rule: rev_induct)
  case (snoc i js)
  then show ?case
    by (cases "prefix_choice uri js") (auto simp: prefix_choice_def longer_def longest_of_def)
qed (simp add: prefix_choice_def)

section \<open>The theorem\<close>

lemma rank_plain: "rank i < 1 \<longleftrightarrow> \<not> noname i \<and> \<not> named i \<and> regex i = None"
  by (auto simp: rank_def)

definition entry :: "conf \<Rightarrow> conf lq" where
  "entry c = (if in_use (info c) then LQ (Some c) None (loc_name (info c)) [] else LQ None (Some c) (loc_name (info c)) [])"

lemma entries: "foldl ngx_http_add_location q cs = q @ map entry cs"
  by (induction cs arbitrary: q) (auto simp: ngx_http_add_location_def entry_def)

lemma entry_facts:
  "lq_conf (entry c) = Some c" "lqi (map_lq info (entry c)) = info c" "lq_list (entry c) = []" "lq_name (entry c) = loc_name (info c)"
  "lq_exact (entry c) = (if in_use (info c) then Some c else None)" "lq_inclusive (entry c) = (if in_use (info c) then None else Some c)"
  by (auto simp: entry_def lq_conf_def lqi_def)

text \<open>What is left in the queue: an entry for each plain location, in order.\<close>

lemma level_queue:
  assumes init: "ngx_http_init_locations server (Conf i (foldl ngx_http_add_location [] cs) [] Tip []) = Some p"
    and ok: "\<forall>j \<in> set (plain_locations (map info cs)). 0 \<notin> set (loc_name j) \<and> length (loc_name j) < 256"
  obtains q rs nm where "p = Conf i q rs Tip nm" "\<forall>l \<in> set (infos q). single l" "sorted_wrt exact_first (infos q)"
    "\<And>n j. has_exact (infos q) n j \<longleftrightarrow> j \<in> set (plain_locations (map info cs)) \<and> exact_match j \<and> loc_name j = n"
    "\<And>n j. has_inclusive (infos q) n j \<longleftrightarrow> j \<in> set (plain_locations (map info cs)) \<and> \<not> exact_match j \<and> loc_name j = n"
proof -
  let ?s = "queue_sort ngx_http_cmp_locations (map entry cs)"
  obtain q rs nm where p: "p = Conf i q rs Tip nm" and q: "infos q = filter (\<lambda>l. rank (lqi l) < 1) (infos ?s)"
    using init_level [OF init] unfolding entries by (auto simp: entry_facts)
  have mem: "l \<in> set (infos q) \<longleftrightarrow> (\<exists>c \<in> set cs. l = map_lq info (entry c) \<and> info c \<in> set (plain_locations (map info cs)))" for l
    unfolding q rank_plain by (auto simp: set_queue_sort entry_facts plain_locations_def)
  have pl: "j \<in> set (plain_locations (map info cs)) \<Longrightarrow> \<exists>c \<in> set cs. j = info c" for j
    by (auto simp: plain_locations_def)
  have plain: "in_use (info c) \<longleftrightarrow> exact_match (info c)" if "info c \<in> set (plain_locations (map info cs))" for c
    using that by (auto simp: plain_locations_def in_use_def)
  have ks: "loc_key (lqi a) \<le> loc_key (lqi b) \<Longrightarrow> exact_first a b" if ab: "a \<in> set (infos q)" "b \<in> set (infos q)" for a b
  proof -
    have z: "takeWhile (\<lambda>c. c \<noteq> 0) n = n" if "(0 :: u8) \<notin> set n" for n using that by (intro takeWhile_eq_all_conv [THEN iffD2]) auto
    obtain c d where c: "a = map_lq info (entry c)" "info c \<in> set (plain_locations (map info cs))"
        "b = map_lq info (entry d)" "info d \<in> set (plain_locations (map info cs))" using ab mem by metis
    then have "rank (info c) = 0" "rank (info d) = 0" by (auto simp: plain_locations_def rank_def)
    then show "exact_first a b" if "loc_key (lqi a) \<le> loc_key (lqi b)"
      using that c ok plain z by (auto simp: exact_first_def loc_key_def entry_facts less_eq_prod_def lq.map_sel split: if_splits)
  qed
  have "sorted (map (\<lambda>l. loc_key (lq_info l)) ?s)" by (simp add: locations_sorted)
  then have "sorted (map (\<lambda>l. loc_key (lqi l)) (infos ?s))"
    using map_lqi [of ?s loc_key] by (simp add: set_queue_sort entry_facts)
  then have "sorted (map (\<lambda>l. loc_key (lqi l)) (infos q))" unfolding q by (rule sorted_filter)
  then have "sorted_wrt exact_first (infos q)"
    unfolding sorted_wrt_map by (rule sorted_wrt_mono_rel [rotated]) (rule ks; simp)
  moreover have "\<forall>l \<in> set (infos q). single l"
    unfolding Ball_def mem using ok by (auto simp: single_def entry_facts lq.map_sel split: if_splits)
  moreover have "has_exact (infos q) n j \<longleftrightarrow> j \<in> set (plain_locations (map info cs)) \<and> exact_match j \<and> loc_name j = n"
      "has_inclusive (infos q) n j \<longleftrightarrow> j \<in> set (plain_locations (map info cs)) \<and> \<not> exact_match j \<and> loc_name j = n" for n j
  proof -
    have "has_exact (infos q) n j \<longleftrightarrow> (\<exists>c \<in> set cs. info c \<in> set (plain_locations (map info cs)) \<and>
          lq_name (map_lq info (entry c)) = n \<and> lq_exact (map_lq info (entry c)) = Some j)"
        "has_inclusive (infos q) n j \<longleftrightarrow> (\<exists>c \<in> set cs. info c \<in> set (plain_locations (map info cs)) \<and>
          lq_name (map_lq info (entry c)) = n \<and> lq_inclusive (map_lq info (entry c)) = Some j)"
      unfolding has_exact_def has_inclusive_def Bex_def mem by blast+
    then show "has_exact (infos q) n j \<longleftrightarrow> j \<in> set (plain_locations (map info cs)) \<and> exact_match j \<and> loc_name j = n"
        "has_inclusive (infos q) n j \<longleftrightarrow> j \<in> set (plain_locations (map info cs)) \<and> \<not> exact_match j \<and> loc_name j = n"
      using plain pl [of j] by (auto simp: entry_facts lq.map_sel split: if_splits)
  qed
  ultimately show ?thesis using that p by blast
qed

lemma infos_single: "(\<forall>l \<in> set (infos q). single l) \<longleftrightarrow> (\<forall>l \<in> set q. single l)"
proof -
  have "single (map_lq info l) \<longleftrightarrow> single l" for l by (cases l) (auto simp: single_def)
  then show ?thesis by auto
qed

lemma infos_first: "sorted_wrt exact_first (infos q) \<longleftrightarrow> sorted_wrt exact_first q"
proof -
  have "exact_first (map_lq info a) (map_lq info b) \<longleftrightarrow> exact_first a b" for a b :: "conf lq"
    by (cases a; cases b) (auto simp: exact_first_def)
  then show ?thesis by (simp add: sorted_wrt_map)
qed

lemma bex_map: "(\<exists>l \<in> A. P l \<and> map_option f (g l) = Some j) \<longleftrightarrow> (\<exists>c. (\<exists>l \<in> A. P l \<and> g l = Some c) \<and> f c = j)"
  unfolding map_option_eq_Some by metis

lemma infos_has:
  "has_exact (infos q) n j \<longleftrightarrow> (\<exists>c. has_exact q n c \<and> info c = j)"
  "has_inclusive (infos q) n j \<longleftrightarrow> (\<exists>c. has_inclusive q n c \<and> info c = j)"
proof -
  have "has_exact (infos q) n j \<longleftrightarrow> (\<exists>l \<in> set q. lq_name l = n \<and> map_option info (lq_exact l) = Some j)"
    by (simp add: has_exact_def lq.map_sel)
  also have "\<dots> \<longleftrightarrow> (\<exists>c. has_exact q n c \<and> info c = j)" unfolding has_exact_def by (rule bex_map)
  finally show "has_exact (infos q) n j \<longleftrightarrow> (\<exists>c. has_exact q n c \<and> info c = j)" .
  have "has_inclusive (infos q) n j \<longleftrightarrow> (\<exists>l \<in> set q. lq_name l = n \<and> map_option info (lq_inclusive l) = Some j)"
    by (simp add: has_inclusive_def lq.map_sel)
  also have "\<dots> \<longleftrightarrow> (\<exists>c. has_inclusive q n c \<and> info c = j)" unfolding has_inclusive_def by (rule bex_map)
  finally show "has_inclusive (infos q) n j \<longleftrightarrow> (\<exists>c. has_inclusive q n c \<and> info c = j)" .
qed

text \<open>Names decide entries.\<close>

lemma growing_unique: "growing xs \<Longrightarrow> x \<in> set xs \<Longrightarrow> y \<in> set xs \<Longrightarrow> lq_name x = lq_name y \<Longrightarrow> x = y"
proof (induction xs)
  case (Cons z zs)
  then show ?case by (metis growing_simps(2) less_irrefl set_ConsD)
qed simp

lemma outcome_choice:
  assumes out: "outcome uri xs (NGX_DECLINED, pc) (rc, c)" and gr: "growing xs"
    and E: "\<And>n j. (\<exists>c. has_exact xs n c \<and> info c = j) \<longleftrightarrow> j \<in> set js \<and> exact_match j \<and> loc_name j = n"
    and I: "\<And>n j. (\<exists>c. has_inclusive xs n c \<and> info c = j) \<longleftrightarrow> j \<in> set js \<and> \<not> exact_match j \<and> loc_name j = n"
    and some: "\<forall>x \<in> set xs. single x"
  shows "(rc, info c) = choice uri (info pc) js \<or> rc = NGX_DONE \<and> redirected uri js (info c)"
  using out
proof cases
  case (Exact e)
  have "has_exact xs uri c" using Exact by (auto simp: has_exact_def)
  then have j: "info c \<in> set js" "exact_match (info c)" "loc_name (info c) = uri" using E by blast+
  then obtain k where k: "exact_choice uri js = Some k" using exact_choice_cases [where uri = uri and js = js] by (cases "exact_choice uri js") auto
  then have "k \<in> set js \<and> exact_match k \<and> loc_name k = uri" using exact_choice_cases by blast
  then obtain d where d: "has_exact xs uri d" "info d = k" using E by blast
  then have "d = c" using \<open>has_exact xs uri c\<close> growing_unique [OF gr] by (force simp: has_exact_def)
  then show ?thesis using Exact k d by (simp add: choice_def)
next
  case (Inclusive e)
  have "has_inclusive xs (lq_name e) c" using Inclusive by (auto simp: has_inclusive_def)
  then have j: "info c \<in> set js" "\<not> exact_match (info c)" "loc_name (info c) = lq_name e" using I by blast+
  have "\<not> (k \<in> set js \<and> exact_match k \<and> loc_name k = uri)" for k
    unfolding E [symmetric] using Inclusive(2) by (auto simp: has_exact_def)
  then have x: "exact_choice uri js = None" using exact_choice_cases by blast
  obtain k where k: "prefix_choice uri js = Some k"
    using prefix_choice_longest [where uri = uri and js = js] j Inclusive(4) by (cases "prefix_choice uri js") auto
  then have l: "longest_of uri (set js) k" using prefix_choice_longest [where uri = uri and js = js] by simp
  then obtain d where d: "has_inclusive xs (loc_name k) d" "info d = k" unfolding longest_of_def using I by blast
  then obtain e' where e': "e' \<in> set xs" "lq_name e' = loc_name k" "lq_inclusive e' = Some d" by (auto simp: has_inclusive_def)
  have "length (lq_name e') \<le> length (lq_name e)" using Inclusive(6) e' l by (auto simp: longest_of_def)
  moreover have "length (lq_name e) \<le> length (lq_name e')" using l j Inclusive(4) e' by (auto simp: longest_of_def)
  ultimately have "lq_name e' = lq_name e"
    using l Inclusive(4) e' prefix_same_cases [of "lq_name e" uri "lq_name e'"]
    by (auto simp: longest_of_def prefix_def)
  then have "d = c" using growing_unique [OF gr e'(1) Inclusive(3)] e'(3) Inclusive(5) by simp
  then show ?thesis using Inclusive(1) x k d by (simp add: choice_def)
next
  case Nothing
  have n: "\<not> cand uri x" if "x \<in> set xs" for x using Nothing that by blast
  have "\<not> (k \<in> set js \<and> exact_match k \<and> loc_name k = uri)" for k
    unfolding E [symmetric] using n by (auto simp: has_exact_def cand_def)
  then have "exact_choice uri js = None" using exact_choice_cases by blast
  moreover have "\<not> (k \<in> set js \<and> \<not> exact_match k \<and> prefix (loc_name k) uri)" for k
  proof
    assume k: "k \<in> set js \<and> \<not> exact_match k \<and> prefix (loc_name k) uri"
    then obtain d where "has_inclusive xs (loc_name k) d" using I by blast
    then show False using n k by (auto simp: has_inclusive_def cand_def)
  qed
  then have "prefix_choice uri js = None"
    using prefix_choice_longest [where uri = uri and js = js] by (cases "prefix_choice uri js") (auto simp: longest_of_def)
  ultimately show ?thesis using Nothing by (simp add: choice_def)
next
  case (Redirect e)
  obtain x where e: "lq_name e = uri @ [x]" "lq_conf e = Some c" "redirecting (lq_exact e) \<or> redirecting (lq_inclusive e)"
    using Redirect(3) by (auto simp: redirect_to_def)
  have sub: "info d \<in> set js \<and> loc_name (info d) = lq_name e" if "lq_exact e = Some d \<or> lq_inclusive e = Some d" for d
  proof -
    have "has_exact xs (lq_name e) d \<or> has_inclusive xs (lq_name e) d"
      using that Redirect(2) by (auto simp: has_exact_def has_inclusive_def)
    then show ?thesis using E I by blast
  qed
  have "info c \<in> set js \<and> loc_name (info c) = lq_name e" using sub [of c] e(2) by (auto simp: lq_conf_def split: option.splits)
  moreover have "\<exists>k \<in> set js. loc_name k = lq_name e \<and> auto_redirect k" using e(3) sub by (auto simp: redirecting_def split: option.splits)
  moreover have "loc_name k \<noteq> uri" if "k \<in> set js" for k
  proof
    assume "loc_name k = uri"
    then have "(\<exists>c. has_exact xs uri c) \<or> (\<exists>c. has_inclusive xs uri c)" using that E I by metis
    then show False using Redirect(4) by (auto simp: has_exact_def has_inclusive_def)
  qed
  ultimately show ?thesis using Redirect(1) e(1) by (auto simp: redirected_def)
qed

text \<open>C30: every request gets its location.  When the locations of a level have been read and the
  initialisation of their queues and trees succeeds, the search of the tree, with any URI, reads only bytes of the
  names and gives what the configuration says, in whatever order it says it: the exact location of that
  name (\<open>NGX_OK\<close>), otherwise the inclusive location with the longest name that begins the URI (\<open>NGX_AGAIN\<close>),
  otherwise none (\<open>NGX_DECLINED\<close>); or else, when no location has the name, \<open>NGX_DONE\<close> with a location whose
  name is the URI and one more byte and that asks for the redirection.  Names are below 256 bytes.\<close>

theorem location_choice:
  assumes "ngx_http_init_locations server (Conf i (foldl ngx_http_add_location [] cs) [] Tip []) = Some p"
    and "ngx_http_init_static_location_trees p = Some p'"
    and "\<forall>j \<in> set (plain_locations (map info cs)). 0 \<notin> set (loc_name j) \<and> length (loc_name j) < 256"
  shows "\<exists>rc c. ngx_http_core_find_static_location uri (static_locations p') NGX_DECLINED p' = Some (rc, c) \<and>
     ((rc, info c) = choice uri i (plain_locations (map info cs)) \<or>
      rc = NGX_DONE \<and> redirected uri (plain_locations (map info cs)) (info c))"
proof -
  let ?js = "plain_locations (map info cs)"
  obtain q rs nm where p: "p = Conf i q rs Tip nm" and q: "\<forall>l \<in> set (infos q). single l" "sorted_wrt exact_first (infos q)"
    and h: "\<And>n j. has_exact (infos q) n j \<longleftrightarrow> j \<in> set ?js \<and> exact_match j \<and> loc_name j = n"
      "\<And>n j. has_inclusive (infos q) n j \<longleftrightarrow> j \<in> set ?js \<and> \<not> exact_match j \<and> loc_name j = n"
    using level_queue [OF assms(1,3)] by metis
  obtain q' xs where q': "infos q' = infos q" and xs: "ngx_http_join_exact_locations q' = Some xs"
      and t: "static_locations p' = ngx_http_create_locations_tree 0 (ngx_http_create_locations_list xs)"
      and ip: "info p' = i"
  proof (cases "q = []")
    case True
    then have "p' = p" using assms(2) p by simp
    then show ?thesis using that [of "[]" "[]"] True p by (simp add: ngx_http_create_locations_tree.simps)
  next
    case False
    then obtain q' where th: "those (map (\<lambda>l. case lq_conf l of None \<Rightarrow> None
        | Some c \<Rightarrow> map_option (set_conf l) (ngx_http_init_static_location_trees c)) q) = Some q'"
      using assms(2) p by (auto split: bind_splits)
    with assms(2) p False obtain xs where "ngx_http_join_exact_locations q' = Some xs"
        "p' = Conf i xs rs (ngx_http_create_locations_tree 0 (ngx_http_create_locations_list xs)) nm"
      by (auto split: bind_splits)
    then show ?thesis using that [of q' xs] those_infos [OF th init_info(2)] by simp
  qed
  have j: "growing xs" "\<forall>x \<in> set xs. single x" "\<And>n c. has_exact xs n c \<longleftrightarrow> has_exact q' n c" "\<And>n c. has_inclusive xs n c \<longleftrightarrow> has_inclusive q' n c"
    using join_ok [OF xs] q q' infos_single [of q'] infos_first [of q'] by auto
  have "level [] (ngx_http_create_locations_list xs)" "flat (ngx_http_create_locations_list xs) = xs"
    using create_list_level [OF j(1), of "[]"] j(2) by auto
  then have f: "found (ngx_http_create_locations_tree 0 (ngx_http_create_locations_list xs)) [] (ngx_http_create_locations_list xs)"
      "flat (ngx_http_create_locations_list xs) = xs" using search_level by fastforce+
  from foundE [OF f(1)] obtain rc c where r: "ngx_http_core_find_static_location uri (static_locations p') NGX_DECLINED p' = Some (rc, c)"
      "outcome uri xs (NGX_DECLINED, p') (rc, c)" unfolding t f(2) by (metis append_Nil surj_pair)
  have "(rc, info c) = choice uri (info p') ?js \<or> rc = NGX_DONE \<and> redirected uri ?js (info c)"
    using r(2) j(1) _ _ j(2)
    by (rule outcome_choice) (use h q' in \<open>simp_all add: j infos_has [symmetric]\<close>)
  then show ?thesis using r(1) ip by blast
qed


lemma location_choice_witness:
  "let q = foldl ngx_http_add_location [] [new_conf (plain_info [0x2f]), new_conf ((plain_info [0x2f, 0x61])\<lparr>exact_match := True\<rparr>)];
       p = the (ngx_http_init_locations True (Conf (plain_info []) q [] Tip []));
       p' = the (ngx_http_init_static_location_trees p) in
   \<exists>c. ngx_http_core_find_static_location [0x2f, 0x62] (static_locations p') NGX_DECLINED p' = Some (NGX_AGAIN, c)
     \<and> info c = plain_info [0x2f]"
proof -
  define cs where "cs = [new_conf (plain_info [0x2f]), new_conf ((plain_info [0x2f, 0x61])\<lparr>exact_match := True\<rparr>)]"
  define p where "p = the (ngx_http_init_locations True (Conf (plain_info []) (foldl ngx_http_add_location [] cs) [] Tip []))"
  define p' where "p' = the (ngx_http_init_static_location_trees p)"
  have "ngx_http_init_locations True (Conf (plain_info []) (foldl ngx_http_add_location [] cs) [] Tip []) \<noteq> None"
    unfolding cs_def by code_simp
  moreover have "ngx_http_init_static_location_trees p \<noteq> None"
    unfolding p_def cs_def by code_simp
  moreover have "\<forall>j \<in> set (plain_locations (map info cs)). 0 \<notin> set (loc_name j) \<and> length (loc_name j) < 256"
    unfolding cs_def by code_simp
  ultimately obtain rc c where r: "ngx_http_core_find_static_location [0x2f, 0x62] (static_locations p') NGX_DECLINED p' = Some (rc, c)"
      "(rc, info c) = choice [0x2f, 0x62] (plain_info []) (plain_locations (map info cs))
        \<or> rc = NGX_DONE \<and> redirected [0x2f, 0x62] (plain_locations (map info cs)) (info c)"
    using location_choice [of True "plain_info []" cs p p' "[0x2f, 0x62]"] unfolding p_def p'_def by auto
  have "choice [0x2f, 0x62] (plain_info []) (plain_locations (map info cs)) = (NGX_AGAIN, plain_info [0x2f])"
    unfolding cs_def by code_simp
  moreover have "\<forall>j \<in> set (plain_locations (map info cs)). \<not> redirected [0x2f, 0x62] (plain_locations (map info cs)) j"
    unfolding cs_def by code_simp
  ultimately have "rc = NGX_AGAIN" "info c = plain_info [0x2f]" using r(2) by (auto simp: redirected_def)
  then show ?thesis using r(1) unfolding Let_def p'_def p_def cs_def by blast
qed

section \<open>Behaviours\<close>

text \<open>The length of a node is one byte: a name of 256 bytes compares as the empty name, and its location
  takes every request.\<close>

lemma long_name_takes_all:
  assumes "length n = 256" "uri \<noteq> []"
  shows "ngx_http_core_find_static_location uri (ngx_http_create_locations_tree 0 [LQ None (Some c) n []]) rv lc = Some (NGX_AGAIN, c)"
  using assms by (simp add: ngx_http_create_locations_tree.simps)

text \<open>A location that asks for the redirection is not found when another name that begins with the URI
  stands above it and sorts before it: the search goes left.  Here \<^verbatim>\<open>/a/\<close> redirects, and the request for
  \<^verbatim>\<open>/a\<close> is declined because of \<^verbatim>\<open>/a.b\<close> (and is redirected without that location).\<close>

definition auto_a :: loc_info where
  "auto_a = (plain_info [0x2f, 0x61, 0x2f])\<lparr>auto_redirect := True\<rparr>"

definition level_search :: "bytes \<Rightarrow> loc_info list \<Rightarrow> (ngx_rc \<times> bytes) option" where
  "level_search uri is = do {
     p \<leftarrow> ngx_http_init_locations True (Conf (plain_info []) (foldl ngx_http_add_location [] (map new_conf is)) [] Tip []);
     p \<leftarrow> ngx_http_init_static_location_trees p;
     (rc, c) \<leftarrow> ngx_http_core_find_static_location uri (static_locations p) NGX_DECLINED p;
     Some (rc, loc_name (info c)) }"

lemma redirect_missed:
  "level_search [0x2f, 0x61] [auto_a, plain_info [0x2f, 0x61, 0x2d], plain_info [0x2f, 0x61, 0x2e, 0x62]] = Some (NGX_DECLINED, [])"
  "level_search [0x2f, 0x61] [auto_a, plain_info [0x2f, 0x61, 0x2d]] = Some (NGX_DONE, [0x2f, 0x61, 0x2f])"
  by code_simp+

text \<open>A location inside one with a regular expression (its name has to begin with the text of the
  expression) is never found: the trees are built only below locations that are in the queue.\<close>

definition inside_regex :: conf where
  "inside_regex = Conf ((plain_info [0x2f])\<lparr>regex := Some 0\<rparr>)
     (ngx_http_add_location [] (new_conf (plain_info [0x2f, 0x61]))) [] Tip []"

lemma inside_regex_not_found:
  "map_option (map_prod id (\<lambda>c. loc_name (info c)))
     (do { p \<leftarrow> ngx_http_init_locations True (Conf (plain_info []) (ngx_http_add_location [] inside_regex) [] Tip []);
           p \<leftarrow> ngx_http_init_static_location_trees p;
           ngx_http_core_find_location (\<lambda>_ _. NGX_OK) [0x2f, 0x61] p }) = Some (NGX_OK, [0x2f])"
  by code_simp

text \<open>The checks of nested locations are skipped when the location around has an empty name, so a named
  location gets inside it, and the initialisation writes through a null pointer.\<close>

lemma named_in_empty_name:
  "ngx_http_core_location (\<lambda>_ _. None) ((plain_info [])\<lparr>exact_match := True\<rparr>) [[0], [0x40, 0x78]] = Inr ((plain_info [0x40, 0x78])\<lparr>named := True\<rparr>)"
  "ngx_http_init_locations False (Conf (plain_info []) (ngx_http_add_location [] (new_conf ((plain_info [0x40])\<lparr>named := True\<rparr>))) [] Tip []) = None"
  by code_simp+

end
