(* ===== verification/MailParse.thy ===== *)
theory MailParse
  imports NgxScan NgxCString
begin

text \<open>
  The command parsers of the mail proxy, \<^verbatim>\<open>src/mail/ngx_mail_parse.c\<close>: POP3, SMTP and IMAP, one
  definition for each state, over the loop of \<^verbatim>\<open>NgxScan\<close>, and the choice of the method of an AUTH
  command.  They are taken up where the last read stopped, as the parsers of HTTP are.  The record has the fields
  of \<^verbatim>\<open>ngx_mail_session_t\<close> that they use; an argument is an offset in the buffer and a length.
  The build has the commands of \<^verbatim>\<open>NGX_MAIL_SSL\<close>.  The only allocation, the growth of the array of
  arguments, is the parameter \<open>room\<close>.
\<close>

section \<open>The session\<close>

datatype mail_command =
    No_command
  | NGX_POP3_USER | NGX_POP3_PASS | NGX_POP3_APOP | NGX_POP3_QUIT | NGX_POP3_CAPA | NGX_POP3_AUTH | NGX_POP3_NOOP | NGX_POP3_STLS
  | NGX_IMAP_NOOP | NGX_IMAP_LOGIN | NGX_IMAP_LOGOUT | NGX_IMAP_STARTTLS | NGX_IMAP_CAPABILITY | NGX_IMAP_AUTHENTICATE
  | NGX_SMTP_HELO | NGX_SMTP_EHLO | NGX_SMTP_QUIT | NGX_SMTP_AUTH | NGX_SMTP_NOOP | NGX_SMTP_MAIL | NGX_SMTP_RSET | NGX_SMTP_RCPT
  | NGX_SMTP_VRFY | NGX_SMTP_EXPN | NGX_SMTP_HELP | NGX_SMTP_STARTTLS

record mail_session =
  m_command :: mail_command
  m_args :: "(nat \<times> u64) list"
  cmd_start :: "nat option"
  arg_start :: "nat option"
  arg_end :: "nat option"
  m_tag :: "nat \<times> nat"
  quoted :: bool
  backslash :: bool
  no_sync_literal :: bool
  literal_len :: u64

datatype mail_rc = Mail_rc ngx_rc | NGX_MAIL_PARSE_INVALID_COMMAND | NGX_IMAP_NEXT

datatype mail_exit = Command_done | Command_invalid | Line_invalid | Push_failed | Next_literal

type_synonym 'st mail_turn = "('st \<times> mail_session, mail_exit) turn"

section \<open>What the parsers share\<close>

text \<open>\<^verbatim>\<open>c[0]\<close>, \<dots>, folded to capital letters as \<^verbatim>\<open>ngx_toupper\<close> does, compared with a word; the other
  comparisons read letter by letter.\<close>

fun spells :: "bytes \<Rightarrow> nat \<Rightarrow> string \<Rightarrow> bool option" where
  "spells m c [] = Some True"
| "spells m c (u # us) =
     (case rd m c of
        None \<Rightarrow> None
      | Some b \<Rightarrow> if b = of_char u \<or> b = of_char u + 0x20 then spells m (Suc c) us else Some False)"

definition four :: "bytes \<Rightarrow> nat \<Rightarrow> bytes option" where
  "four m c = do { c0 \<leftarrow> rd m c; c1 \<leftarrow> rd m (c + 1); c2 \<leftarrow> rd m (c + 2); c3 \<leftarrow> rd m (c + 3);
     Some [ngx_toupper c0, ngx_toupper c1, ngx_toupper c2, ngx_toupper c3] }"

definition is_letter :: "u8 \<Rightarrow> bool" where
  "is_letter ch \<longleftrightarrow> \<not> ((ch < 0x41 \<or> ch > 0x5a) \<and> (ch < 0x61 \<or> ch > 0x7a))"

definition word_end :: "u8 \<Rightarrow> bool" where
  "word_end ch \<longleftrightarrow> ch = 0x20 \<or> ch = CR \<or> ch = LF"

text \<open>The argument from \<^verbatim>\<open>arg_start\<close> to \<open>e\<close> is pushed.\<close>

definition push_arg :: "(nat \<Rightarrow> bool) \<Rightarrow> nat \<Rightarrow> mail_session \<Rightarrow> mail_session option option" where
  "push_arg room e s =
     (case arg_start s of
        None \<Rightarrow> None
      | Some a \<Rightarrow>
          if room (length (m_args s))
          then Some (Some (s\<lparr>m_args := m_args s @ [(a, of_nat e - of_nat a)], arg_start := None\<rparr>))
          else Some None)"

text \<open>The function around the loop, with what follows the labels \<^verbatim>\<open>done\<close> and \<^verbatim>\<open>invalid\<close> as arguments; \<open>Line_invalid\<close>
  only resets the state.  A failed push returns with the state of the call.  Behind an error the position is not
  looked at (the handlers start over at the beginning of the buffer, or close the connection); here it is that of
  the call.\<close>

definition mail_parse ::
  "(bytes \<Rightarrow> nat \<Rightarrow> u8 \<Rightarrow> 'st \<times> mail_session \<Rightarrow> 'st mail_turn option) \<Rightarrow>
   (mail_session \<Rightarrow> ('st \<times> mail_session) option option) \<Rightarrow> (mail_session \<Rightarrow> 'st \<times> mail_session) \<Rightarrow> 'st \<Rightarrow>
   bytes \<Rightarrow> nat \<Rightarrow> nat \<Rightarrow> 'st \<times> mail_session \<Rightarrow> (mail_rc \<times> ('st \<times> mail_session) \<times> nat) option" where
  "mail_parse step finished invalid literal m pos lst s =
     (case scan step m pos (lst - pos) s of
        None \<Rightarrow> None
      | Some (Again s') \<Rightarrow> Some (Mail_rc NGX_AGAIN, s', max pos lst)
      | Some (Stopped p Command_done s') \<Rightarrow>
          (case finished (snd s') of
             None \<Rightarrow> None
           | Some None \<Rightarrow> Some (Mail_rc NGX_ERROR, (fst s, snd s'), p + 1)
           | Some (Some s'') \<Rightarrow> Some (Mail_rc NGX_OK, s'', p + 1))
      | Some (Stopped p Command_invalid s') \<Rightarrow> Some (NGX_MAIL_PARSE_INVALID_COMMAND, invalid (snd s'), pos)
      | Some (Stopped p Line_invalid s') \<Rightarrow> Some (NGX_MAIL_PARSE_INVALID_COMMAND, (fst (invalid (snd s')), snd s'), pos)
      | Some (Stopped p Push_failed s') \<Rightarrow> Some (Mail_rc NGX_ERROR, (fst s, snd s'), pos)
      | Some (Stopped p Next_literal s') \<Rightarrow> Some (NGX_IMAP_NEXT, (literal, snd s'), p + 1))"

section \<open>POP3 and SMTP\<close>

datatype line_state = sw_start | sw_spaces_before_argument | sw_argument | sw_almost_done

definition pop3_word :: "bytes \<Rightarrow> mail_command option" where
  "pop3_word c =
     (if c = str ''USER'' then Some NGX_POP3_USER
      else if c = str ''PASS'' then Some NGX_POP3_PASS
      else if c = str ''APOP'' then Some NGX_POP3_APOP
      else if c = str ''QUIT'' then Some NGX_POP3_QUIT
      else if c = str ''CAPA'' then Some NGX_POP3_CAPA
      else if c = str ''AUTH'' then Some NGX_POP3_AUTH
      else if c = str ''NOOP'' then Some NGX_POP3_NOOP
      else if c = str ''STLS'' then Some NGX_POP3_STLS
      else None)"

definition smtp_word :: "bytes \<Rightarrow> mail_command option" where
  "smtp_word c =
     (if c = str ''HELO'' then Some NGX_SMTP_HELO
      else if c = str ''EHLO'' then Some NGX_SMTP_EHLO
      else if c = str ''QUIT'' then Some NGX_SMTP_QUIT
      else if c = str ''AUTH'' then Some NGX_SMTP_AUTH
      else if c = str ''NOOP'' then Some NGX_SMTP_NOOP
      else if c = str ''MAIL'' then Some NGX_SMTP_MAIL
      else if c = str ''RSET'' then Some NGX_SMTP_RSET
      else if c = str ''RCPT'' then Some NGX_SMTP_RCPT
      else if c = str ''VRFY'' then Some NGX_SMTP_VRFY
      else if c = str ''EXPN'' then Some NGX_SMTP_EXPN
      else if c = str ''HELP'' then Some NGX_SMTP_HELP
      else None)"

text \<open>The byte that ends the command, and that ends an argument.\<close>

definition after_word :: "u8 \<Rightarrow> line_state \<Rightarrow> mail_session \<Rightarrow> line_state mail_turn" where
  "after_word ch st s =
     (if ch = 0x20 then Cont (sw_spaces_before_argument, s)
      else if ch = CR then Cont (sw_almost_done, s)
      else Stop Command_done (st, s))"

definition pop3_start :: "bytes \<Rightarrow> nat \<Rightarrow> u8 \<Rightarrow> mail_session \<Rightarrow> line_state mail_turn option" where
  "pop3_start m p ch s =
     (if word_end ch then
        if p = 4 then do {
          c \<leftarrow> four m 0;
          case pop3_word c of
            None \<Rightarrow> Some (Stop Command_invalid (sw_start, s))
          | Some k \<Rightarrow> Some (after_word ch sw_start (s\<lparr>m_command := k\<rparr>)) }
        else Some (Stop Command_invalid (sw_start, s))
      else if is_letter ch then Some (Cont (sw_start, s))
      else Some (Stop Command_invalid (sw_start, s)))"

definition smtp_start :: "bytes \<Rightarrow> nat \<Rightarrow> u8 \<Rightarrow> mail_session \<Rightarrow> line_state mail_turn option" where
  "smtp_start m p ch s =
     (if word_end ch then
        if p = 4 then do {
          c \<leftarrow> four m 0;
          case smtp_word c of
            None \<Rightarrow> Some (Stop Command_invalid (sw_start, s))
          | Some k \<Rightarrow> Some (after_word ch sw_start (s\<lparr>m_command := k\<rparr>)) }
        else if p = 8 then do {
          b \<leftarrow> spells m 0 ''STARTTLS'';
          if b then Some (after_word ch sw_start (s\<lparr>m_command := NGX_SMTP_STARTTLS\<rparr>))
          else Some (Stop Command_invalid (sw_start, s)) }
        else Some (Stop Command_invalid (sw_start, s))
      else if is_letter ch then Some (Cont (sw_start, s))
      else Some (Stop Command_invalid (sw_start, s)))"

definition line_spaces :: "nat \<Rightarrow> nat \<Rightarrow> u8 \<Rightarrow> mail_session \<Rightarrow> line_state mail_turn" where
  "line_spaces limit p ch s =
     (if ch = 0x20 then Cont (sw_spaces_before_argument, s)
      else if ch = CR then Cont (sw_almost_done, s\<lparr>arg_end := Some p\<rparr>)
      else if ch = LF then Stop Command_done (sw_spaces_before_argument, s\<lparr>arg_end := Some p\<rparr>)
      else if length (m_args s) \<le> limit then Cont (sw_argument, s\<lparr>arg_start := Some p\<rparr>)
      else Stop Command_invalid (sw_spaces_before_argument, s))"

definition end_argument :: "(nat \<Rightarrow> bool) \<Rightarrow> nat \<Rightarrow> u8 \<Rightarrow> mail_session \<Rightarrow> line_state mail_turn option" where
  "end_argument room p ch s =
     (case push_arg room p s of
        None \<Rightarrow> None
      | Some None \<Rightarrow> Some (Stop Push_failed (sw_argument, s))
      | Some (Some s) \<Rightarrow> Some (after_word ch sw_argument s))"

definition pop3_argument :: "(nat \<Rightarrow> bool) \<Rightarrow> nat \<Rightarrow> u8 \<Rightarrow> mail_session \<Rightarrow> line_state mail_turn option" where
  "pop3_argument room p ch s =
     (if ch = 0x20 \<and> (m_command s = NGX_POP3_USER \<or> m_command s = NGX_POP3_PASS) then Some (Cont (sw_argument, s))
      else if word_end ch then end_argument room p ch s
      else Some (Cont (sw_argument, s)))"

definition smtp_argument :: "(nat \<Rightarrow> bool) \<Rightarrow> nat \<Rightarrow> u8 \<Rightarrow> mail_session \<Rightarrow> line_state mail_turn option" where
  "smtp_argument room p ch s =
     (if word_end ch then end_argument room p ch s else Some (Cont (sw_argument, s)))"

definition line_almost_done :: "u8 \<Rightarrow> mail_session \<Rightarrow> line_state mail_turn" where
  "line_almost_done ch s =
     (if ch = LF then Stop Command_done (sw_almost_done, s) else Stop Command_invalid (sw_almost_done, s))"

fun pop3_step :: "(nat \<Rightarrow> bool) \<Rightarrow> bytes \<Rightarrow> nat \<Rightarrow> u8 \<Rightarrow> line_state \<times> mail_session \<Rightarrow> line_state mail_turn option" where
  "pop3_step room m p ch (sw_start, s) = pop3_start m p ch s"
| "pop3_step room m p ch (sw_spaces_before_argument, s) = Some (line_spaces 2 p ch s)"
| "pop3_step room m p ch (sw_argument, s) = pop3_argument room p ch s"
| "pop3_step room m p ch (sw_almost_done, s) = Some (line_almost_done ch s)"

fun smtp_step :: "(nat \<Rightarrow> bool) \<Rightarrow> bytes \<Rightarrow> nat \<Rightarrow> u8 \<Rightarrow> line_state \<times> mail_session \<Rightarrow> line_state mail_turn option" where
  "smtp_step room m p ch (sw_start, s) = smtp_start m p ch s"
| "smtp_step room m p ch (sw_spaces_before_argument, s) = Some (line_spaces 10 p ch s)"
| "smtp_step room m p ch (sw_argument, s) = smtp_argument room p ch s"
| "smtp_step room m p ch (sw_almost_done, s) = Some (line_almost_done ch s)"

text \<open>The label \<^verbatim>\<open>done\<close>: an argument that is still open is pushed up to \<^verbatim>\<open>arg_end\<close>.\<close>

definition push_open :: "(nat \<Rightarrow> bool) \<Rightarrow> mail_session \<Rightarrow> mail_session option option" where
  "push_open room s =
     (if arg_start s = None then Some (Some s)
      else case arg_end s of None \<Rightarrow> None | Some e \<Rightarrow> push_arg room e s)"

definition line_done ::
  "mail_command \<Rightarrow> (nat \<Rightarrow> bool) \<Rightarrow> mail_session \<Rightarrow> (line_state \<times> mail_session) option option" where
  "line_done auth room s =
     (case push_open room s of
        None \<Rightarrow> None
      | Some None \<Rightarrow> Some None
      | Some (Some s) \<Rightarrow> Some (Some (if m_command s \<noteq> auth then sw_start else sw_argument, s)))"

definition line_invalid :: "mail_session \<Rightarrow> line_state \<times> mail_session" where
  "line_invalid s = (sw_start, s\<lparr>arg_start := None\<rparr>)"

definition ngx_mail_pop3_parse_command where
  "ngx_mail_pop3_parse_command room =
     mail_parse (pop3_step room) (line_done NGX_POP3_AUTH room) line_invalid sw_start"

definition ngx_mail_smtp_parse_command where
  "ngx_mail_smtp_parse_command room =
     mail_parse (smtp_step room) (line_done NGX_SMTP_AUTH room) line_invalid sw_start"

text \<open>What \<^verbatim>\<open>ngx_mail_smtp_auth_state\<close> resets before the next line is read into the start of the buffer: the
  arguments, and the start of an argument when the state is not the first one.\<close>

definition smtp_next_line :: "line_state \<times> mail_session \<Rightarrow> line_state \<times> mail_session" where
  "smtp_next_line x = (case x of (st, s) \<Rightarrow>
     let s = s\<lparr>m_args := []\<rparr> in (st, if st \<noteq> sw_start then s\<lparr>arg_start := Some 0\<rparr> else s))"

section \<open>IMAP\<close>

datatype imap_state =
    imap_start | imap_spaces_before_command | imap_command | imap_spaces_before_argument | imap_argument | imap_backslash
  | imap_literal | imap_no_sync_literal_argument | imap_start_literal_argument | imap_literal_argument
  | imap_end_literal_argument | imap_almost_done

type_synonym imap_turn = "imap_state mail_turn"

definition on_imap_start :: "nat \<Rightarrow> u8 \<Rightarrow> mail_session \<Rightarrow> imap_turn" where
  "on_imap_start p ch s =
     (if ch = 0x20 then Cont (imap_spaces_before_command, s\<lparr>m_tag := (0, p + 1)\<rparr>)
      else if ch = CR \<or> ch = LF then Stop Line_invalid (imap_start, s)
      else Cont (imap_start, s))"

definition on_imap_spaces_before_command :: "nat \<Rightarrow> u8 \<Rightarrow> mail_session \<Rightarrow> imap_turn" where
  "on_imap_spaces_before_command p ch s =
     (if ch = 0x20 then Cont (imap_spaces_before_command, s)
      else if ch = CR \<or> ch = LF then Stop Line_invalid (imap_spaces_before_command, s)
      else Cont (imap_command, s\<lparr>cmd_start := Some p\<rparr>))"

definition imap_words :: "(string \<times> mail_command) list" where
  "imap_words = [(''NOOP'', NGX_IMAP_NOOP), (''LOGIN'', NGX_IMAP_LOGIN), (''LOGOUT'', NGX_IMAP_LOGOUT),
     (''STARTTLS'', NGX_IMAP_STARTTLS), (''CAPABILITY'', NGX_IMAP_CAPABILITY), (''AUTHENTICATE'', NGX_IMAP_AUTHENTICATE)]"

definition imap_word :: "bytes \<Rightarrow> nat \<Rightarrow> nat \<Rightarrow> mail_command option option" where
  "imap_word m c n =
     (case find (\<lambda>(w, k). length w = n) imap_words of
        None \<Rightarrow> Some None
      | Some (w, k) \<Rightarrow> map_option (\<lambda>b. if b then Some k else None) (spells m c w))"

definition imap_after :: "u8 \<Rightarrow> imap_state \<Rightarrow> mail_session \<Rightarrow> imap_turn" where
  "imap_after ch st s =
     (if ch = 0x20 \<or> ch = 0x22 then Cont (imap_spaces_before_argument, s)
      else if ch = CR then Cont (imap_almost_done, s)
      else Stop Command_done (st, s))"

definition on_imap_command :: "bytes \<Rightarrow> nat \<Rightarrow> u8 \<Rightarrow> mail_session \<Rightarrow> imap_turn option" where
  "on_imap_command m p ch s =
     (if word_end ch then do {
        c \<leftarrow> cmd_start s;
        w \<leftarrow> imap_word m c (p - c);
        case w of
          None \<Rightarrow> Some (Stop Command_invalid (imap_command, s))
        | Some k \<Rightarrow> Some (imap_after ch imap_command (s\<lparr>m_command := k\<rparr>)) }
      else if is_letter ch then Some (Cont (imap_command, s))
      else Some (Stop Command_invalid (imap_command, s)))"

definition on_imap_spaces_before_argument :: "nat \<Rightarrow> u8 \<Rightarrow> mail_session \<Rightarrow> imap_turn" where
  "on_imap_spaces_before_argument p ch s =
     (if ch = 0x20 then Cont (imap_spaces_before_argument, s)
      else if ch = CR then Cont (imap_almost_done, s\<lparr>arg_end := Some p\<rparr>)
      else if ch = LF then Stop Command_done (imap_spaces_before_argument, s\<lparr>arg_end := Some p\<rparr>)
      else if \<not> length (m_args s) \<le> 2 then Stop Command_invalid (imap_spaces_before_argument, s)
      else if ch = 0x22 then Cont (imap_argument, s\<lparr>quoted := True, arg_start := Some (p + 1)\<rparr>)
      else if ch = 0x7b then Cont (imap_literal, s)
      else Cont (imap_argument, s\<lparr>arg_start := Some p\<rparr>))"

definition on_imap_argument :: "(nat \<Rightarrow> bool) \<Rightarrow> nat \<Rightarrow> u8 \<Rightarrow> mail_session \<Rightarrow> imap_turn option" where
  "on_imap_argument room p ch s =
     (if ch = 0x20 \<and> quoted s then Some (Cont (imap_argument, s))
      else if ch = 0x22 \<and> \<not> quoted s then Some (Cont (imap_argument, s))
      else if ch = 0x22 \<or> word_end ch then
        let s = (if ch = 0x22 then s\<lparr>quoted := False\<rparr> else s) in
        (case push_arg room p s of
           None \<Rightarrow> None
         | Some None \<Rightarrow> Some (Stop Push_failed (imap_argument, s))
         | Some (Some s) \<Rightarrow> Some (imap_after ch imap_argument s))
      else if ch = 0x5c \<and> quoted s then Some (Cont (imap_backslash, s\<lparr>backslash := True\<rparr>))
      else Some (Cont (imap_argument, s)))"

definition on_imap_backslash :: "u8 \<Rightarrow> mail_session \<Rightarrow> imap_turn" where
  "on_imap_backslash ch s =
     (if ch = CR \<or> ch = LF then Stop Command_invalid (imap_backslash, s) else Cont (imap_argument, s))"

definition on_imap_literal :: "u8 \<Rightarrow> mail_session \<Rightarrow> imap_turn" where
  "on_imap_literal ch s =
     (if 0x30 \<le> ch \<and> ch \<le> 0x39 then Cont (imap_literal, s\<lparr>literal_len := literal_len s * 10 + (ucast ch - 0x30)\<rparr>)
      else if ch = 0x7d then Cont (imap_start_literal_argument, s)
      else if ch = 0x2b then Cont (imap_no_sync_literal_argument, s)
      else Stop Command_invalid (imap_literal, s))"

definition on_imap_no_sync :: "u8 \<Rightarrow> mail_session \<Rightarrow> imap_turn" where
  "on_imap_no_sync ch s =
     (if ch = 0x7d then Cont (imap_start_literal_argument, s\<lparr>no_sync_literal := True\<rparr>)
      else Stop Command_invalid (imap_no_sync_literal_argument, s))"

definition on_imap_start_literal :: "nat \<Rightarrow> u8 \<Rightarrow> mail_session \<Rightarrow> imap_turn" where
  "on_imap_start_literal p ch s =
     (if ch = CR then Cont (imap_start_literal_argument, s)
      else if ch = LF then
        let s = s\<lparr>arg_start := Some (p + 1)\<rparr> in
        if no_sync_literal s then Cont (imap_literal_argument, s\<lparr>no_sync_literal := False\<rparr>)
        else Stop Next_literal (imap_start_literal_argument, s)
      else Stop Command_invalid (imap_start_literal_argument, s))"

text \<open>The countdown leaves \<^verbatim>\<open>literal_len\<close> at zero; a literal of length zero takes a byte all the same.\<close>

definition on_imap_literal_argument :: "(nat \<Rightarrow> bool) \<Rightarrow> nat \<Rightarrow> mail_session \<Rightarrow> imap_turn option" where
  "on_imap_literal_argument room p s =
     (let n = literal_len s; s = (if n = 0 then s else s\<lparr>literal_len := n - 1\<rparr>) in
      if n \<noteq> 0 \<and> n - 1 \<noteq> 0 then Some (Cont (imap_literal_argument, s))
      else
        (case push_arg room (p + 1) s of
           None \<Rightarrow> None
         | Some None \<Rightarrow> Some (Stop Push_failed (imap_literal_argument, s))
         | Some (Some s) \<Rightarrow> Some (Cont (imap_end_literal_argument, s))))"

definition on_imap_end_literal :: "u8 \<Rightarrow> mail_session \<Rightarrow> imap_turn" where
  "on_imap_end_literal ch s =
     (if ch = 0x7b then
        (if length (m_args s) \<le> 2 then Cont (imap_literal, s) else Stop Command_invalid (imap_end_literal_argument, s))
      else if ch = CR then Cont (imap_almost_done, s)
      else if ch = LF then Stop Command_done (imap_end_literal_argument, s)
      else Cont (imap_spaces_before_argument, s))"

definition on_imap_almost_done :: "u8 \<Rightarrow> mail_session \<Rightarrow> imap_turn" where
  "on_imap_almost_done ch s =
     (if ch = LF then Stop Command_done (imap_almost_done, s) else Stop Command_invalid (imap_almost_done, s))"

fun imap_step :: "(nat \<Rightarrow> bool) \<Rightarrow> bytes \<Rightarrow> nat \<Rightarrow> u8 \<Rightarrow> imap_state \<times> mail_session \<Rightarrow> imap_turn option" where
  "imap_step room m p ch (imap_start, s) = Some (on_imap_start p ch s)"
| "imap_step room m p ch (imap_spaces_before_command, s) = Some (on_imap_spaces_before_command p ch s)"
| "imap_step room m p ch (imap_command, s) = on_imap_command m p ch s"
| "imap_step room m p ch (imap_spaces_before_argument, s) = Some (on_imap_spaces_before_argument p ch s)"
| "imap_step room m p ch (imap_argument, s) = on_imap_argument room p ch s"
| "imap_step room m p ch (imap_backslash, s) = Some (on_imap_backslash ch s)"
| "imap_step room m p ch (imap_literal, s) = Some (on_imap_literal ch s)"
| "imap_step room m p ch (imap_no_sync_literal_argument, s) = Some (on_imap_no_sync ch s)"
| "imap_step room m p ch (imap_start_literal_argument, s) = Some (on_imap_start_literal p ch s)"
| "imap_step room m p ch (imap_literal_argument, s) = on_imap_literal_argument room p s"
| "imap_step room m p ch (imap_end_literal_argument, s) = Some (on_imap_end_literal ch s)"
| "imap_step room m p ch (imap_almost_done, s) = Some (on_imap_almost_done ch s)"

definition imap_done :: "(nat \<Rightarrow> bool) \<Rightarrow> mail_session \<Rightarrow> (imap_state \<times> mail_session) option option" where
  "imap_done room s =
     (case push_open room s of
        None \<Rightarrow> None
      | Some None \<Rightarrow> Some None
      | Some (Some t) \<Rightarrow>
          let t = (if arg_start s = None then t
                   else t\<lparr>cmd_start := None, quoted := False, no_sync_literal := False, literal_len := 0\<rparr>) in
          Some (Some (if m_command t \<noteq> NGX_IMAP_AUTHENTICATE then imap_start else imap_argument, t)))"

definition imap_invalid :: "mail_session \<Rightarrow> imap_state \<times> mail_session" where
  "imap_invalid s = (imap_start, s\<lparr>quoted := False, no_sync_literal := False, literal_len := 0\<rparr>)"

definition ngx_mail_imap_parse_command where
  "ngx_mail_imap_parse_command room =
     mail_parse (imap_step room) (imap_done room) imap_invalid imap_literal_argument"

section \<open>The method of an AUTH command\<close>

datatype auth_method =
    NGX_MAIL_AUTH_PLAIN | NGX_MAIL_AUTH_LOGIN | NGX_MAIL_AUTH_LOGIN_USERNAME | NGX_MAIL_AUTH_CRAM_MD5
  | Auth_plain_now | Auth_invalid

text \<open>The arguments as texts; \<open>Auth_plain_now\<close> is the call of \<^verbatim>\<open>ngx_mail_auth_plain\<close> on the second one.  Without arguments
  \<^verbatim>\<open>arg[0]\<close> is read from an array of none: \<open>None\<close> (the callers look at the number of arguments before).\<close>

definition same_word :: "bytes \<Rightarrow> string \<Rightarrow> bool" where
  "same_word a w \<longleftrightarrow> ngx_strncasecmp a (str w) (length w) = Some 0"

definition ngx_mail_auth_parse :: "bool \<Rightarrow> bytes list \<Rightarrow> auth_method option" where
  "ngx_mail_auth_parse starttls_only words =
     (if starttls_only then Some Auth_invalid
      else case words of
        [] \<Rightarrow> None
      | a # rest \<Rightarrow>
          if length a = 5 then
            (if same_word a ''LOGIN'' then
               (if length words = 1 then Some NGX_MAIL_AUTH_LOGIN
                else if length words = 2 then Some NGX_MAIL_AUTH_LOGIN_USERNAME
                else Some Auth_invalid)
             else if same_word a ''PLAIN'' then
               (if length words = 1 then Some NGX_MAIL_AUTH_PLAIN
                else if length words = 2 then Some Auth_plain_now
                else Some Auth_invalid)
             else Some Auth_invalid)
          else if length a = 8 then
            (if length words \<noteq> 1 then Some Auth_invalid
             else if same_word a ''CRAM-MD5'' then Some NGX_MAIL_AUTH_CRAM_MD5
             else Some Auth_invalid)
          else Some Auth_invalid)"

end
