(* ===== verification/MailCommands.thy ===== *)
theory MailCommands
  imports MailParse
begin

text \<open>
  The command parsers of the mail proxy: a line may come in any pieces (locale \<open>mail_parser\<close>), the
  arguments stay in the buffer (the invariants of \<^verbatim>\<open>NgxScan\<close>, one for each protocol), and an SMTP line is taken
  apart as it was written.  At the end, the behaviours of the IMAP parser that differ from what it means to do.
\<close>

section \<open>Reads that come in pieces\<close>

text \<open>What the handlers look at: nothing but the code when the connection is closed, and not the position of an
  invalid command.\<close>

definition mail_observed :: "mail_rc \<times> 's \<times> nat \<Rightarrow> mail_rc \<times> 's option \<times> nat option" where
  "mail_observed x = (case x of (rc, s, pos) \<Rightarrow>
     (rc, if rc = Mail_rc NGX_ERROR then None else Some s,
      if rc = Mail_rc NGX_ERROR \<or> rc = NGX_MAIL_PARSE_INVALID_COMMAND then None else Some pos))"

locale mail_parser = step_parser step
  for step :: "bytes \<Rightarrow> nat \<Rightarrow> u8 \<Rightarrow> 'st \<times> mail_session \<Rightarrow> 'st mail_turn option" +
  fixes finished :: "mail_session \<Rightarrow> ('st \<times> mail_session) option option"
    and invalid :: "mail_session \<Rightarrow> 'st \<times> mail_session" and literal :: 'st
begin

lemma resume:
  assumes l: "pos \<le> l1" "l1 \<le> l2" "length m1 = length m" "take l1 m1 = take l1 m"
  shows "map_option mail_observed (mail_parse step finished invalid literal m pos l2 s) =
     (case mail_parse step finished invalid literal m1 pos l1 s of
        Some (Mail_rc NGX_AGAIN, s', pos') \<Rightarrow> map_option mail_observed (mail_parse step finished invalid literal m pos' l2 s')
      | x \<Rightarrow> map_option mail_observed x)"
proof (cases "scan step m1 pos (l1 - pos) s")
  case None
  then show ?thesis using scan_resume [OF l, of s] by (simp add: mail_parse_def)
next
  case (Some x)
  note r = scan_resume [OF l, of s]
  show ?thesis
  proof (cases x)
    case (Again s')
    have "map_option mail_observed (mail_parse step finished invalid literal m pos l2 s) = map_option mail_observed (mail_parse step finished invalid literal m l1 l2 s')"
      using r Some Again l by (auto simp: mail_parse_def mail_observed_def split: option.splits scanned.splits mail_exit.splits)
    then show ?thesis using Some Again l by (simp add: mail_parse_def)
  next
    case (Stopped p e s')
    then have "scan step m pos (l2 - pos) s = Some (Stopped p e s')" using r Some by simp
    then show ?thesis using Some Stopped
      by (auto simp: mail_parse_def mail_observed_def split: option.splits mail_exit.splits)
  qed
qed

end

lemma four_local: "take 5 m = take 5 m' \<Longrightarrow> four m 0 = four m' 0"
proof -
  assume t: "take 5 m = take 5 m'"
  have "rd m i = rd m' i" if "i < 5" for i using that t rd_take [of i 5 m] rd_take [of i 5 m'] by simp
  then show ?thesis by (simp add: four_def)
qed

lemma spells_local: "take n m = take n m' \<Longrightarrow> c + length w \<le> n \<Longrightarrow> spells m c w = spells m' c w"
proof (induction w arbitrary: c)
  case (Cons u us)
  have "rd m c = rd m' c" using Cons.prems rd_take [of c n m] rd_take [of c n m'] by simp
  then show ?case using Cons by (auto split: option.splits)
qed simp

lemma find_SomeD: "find P xs = Some x \<Longrightarrow> P x \<and> x \<in> set xs"
  by (induction xs) (auto split: if_splits)

lemma imap_word_local: "take n m = take n m' \<Longrightarrow> c + k \<le> n \<Longrightarrow> imap_word m c k = imap_word m' c k"
proof (cases "find (\<lambda>(w, x). length w = k) imap_words")
  case (Some a)
  then have "length (fst a) = k" by (auto dest!: find_SomeD)
  moreover assume "take n m = take n m'" "c + k \<le> n"
  ultimately show ?thesis using Some spells_local [of n m m' c "fst a"] by (auto simp: imap_word_def split: prod.splits)
qed (simp add: imap_word_def)

lemma imap_word_beyond: "p < c \<Longrightarrow> imap_word m c (p - c) = Some None"
  by (simp add: imap_word_def imap_words_def)

lemma mail_steps_local:
  assumes "length m = length m'" "take (Suc p) m = take (Suc p) m'" "p < length m"
  shows "pop3_step room m p ch s = pop3_step room m' p ch s" "smtp_step room m p ch s = smtp_step room m' p ch s"
    "imap_step room m p ch t = imap_step room m' p ch t"
proof -
  have f: "four m 0 = four m' 0" if "p = 4" using that assms(2) by (intro four_local) (simp add: eval_nat_numeral)
  have w: "spells m 0 ''STARTTLS'' = spells m' 0 ''STARTTLS''" if "p = 8" using that by (intro spells_local [OF assms(2)]) simp
  have i: "imap_word m c (p - c) = imap_word m' c (p - c)" for c
    by (cases "p < c") (use imap_word_beyond imap_word_local [OF assms(2), of c "p - c"] in auto)
  show "pop3_step room m p ch s = pop3_step room m' p ch s"
    by (cases s; cases "fst s") (auto simp: pop3_start_def f)
  show "smtp_step room m p ch s = smtp_step room m' p ch s"
    by (cases s; cases "fst s") (auto simp: smtp_start_def f w simp del: spells.simps)
  show "imap_step room m p ch t = imap_step room m' p ch t"
    by (cases t; cases "fst t") (auto simp: on_imap_command_def i)
qed

interpretation pop3: mail_parser "pop3_step room" "line_done NGX_POP3_AUTH room" line_invalid sw_start for room
  by unfold_locales (rule mail_steps_local)

interpretation smtp: mail_parser "smtp_step room" "line_done NGX_SMTP_AUTH room" line_invalid sw_start for room
  by unfold_locales (rule mail_steps_local)

interpretation imap: mail_parser "imap_step room" "imap_done room" imap_invalid imap_literal_argument for room
  by unfold_locales (rule mail_steps_local)

section \<open>Arguments in their bounds\<close>

definition args_in :: "nat \<Rightarrow> nat \<Rightarrow> mail_session \<Rightarrow> bool" where
  "args_in k p s \<longleftrightarrow> length (m_args s) \<le> k \<and> (\<forall>x \<in> set (m_args s). fst x + unat (snd x) \<le> p)"

definition arg_open :: "nat \<Rightarrow> nat \<Rightarrow> mail_session \<Rightarrow> bool" where
  "arg_open k p s \<longleftrightarrow> (\<exists>a. arg_start s = Some a \<and> a \<le> p) \<and> length (m_args s) < k"

lemma args_in_mono: "args_in k p s \<Longrightarrow> p \<le> p' \<Longrightarrow> args_in k p' s"
  by (auto simp: args_in_def dest: le_trans)

lemma unat_diff_le: "a \<le> e \<Longrightarrow> a + unat (of_nat e - of_nat a :: u64) \<le> e"
proof -
  assume "a \<le> e"
  then have "(of_nat e - of_nat a :: u64) = of_nat (e - a)" by (simp add: of_nat_diff)
  then have "unat (of_nat e - of_nat a :: u64) \<le> e - a" by (simp add: unsigned_of_nat)
  then show ?thesis using \<open>a \<le> e\<close> by simp
qed

lemma push_arg_in:
  assumes "arg_open k p s" "args_in k p s" "p \<le> e"
  shows "push_arg room e s = Some None \<or>
    (\<exists>t. push_arg room e s = Some (Some t) \<and> args_in k e t \<and> arg_start t = None \<and> cmd_start t = cmd_start s)"
proof -
  obtain a where a: "arg_start s = Some a" "a \<le> e" "length (m_args s) < k" using assms by (auto simp: arg_open_def)
  then show ?thesis using assms(2,3) unat_diff_le [of a e]
    by (auto simp: push_arg_def args_in_def dest: le_trans)
qed

definition line_inv :: "nat \<Rightarrow> bytes \<Rightarrow> nat \<Rightarrow> line_state \<times> mail_session \<Rightarrow> bool" where
  "line_inv k m p x \<longleftrightarrow> args_in k p (snd x) \<and>
     (if fst x = sw_argument then arg_open k p (snd x) else arg_start (snd x) = None)"

definition line_post :: "nat \<Rightarrow> bytes \<Rightarrow> nat \<Rightarrow> mail_exit \<Rightarrow> line_state \<times> mail_session \<Rightarrow> bool" where
  "line_post k m p e x \<longleftrightarrow> args_in k p (snd x) \<and> (e = Command_done \<longrightarrow> arg_start (snd x) = None) \<and> e \<noteq> Next_literal \<and> e \<noteq> Line_invalid"

text \<open>What a turn may do, by the state.\<close>

definition turn_ok :: "('s \<Rightarrow> bool) \<Rightarrow> ('e \<Rightarrow> 's \<Rightarrow> bool) \<Rightarrow> ('s, 'e) turn option \<Rightarrow> bool" where
  "turn_ok P Q t \<longleftrightarrow> (case t of None \<Rightarrow> False | Some (Cont s) \<Rightarrow> P s | Some (Stop e s) \<Rightarrow> Q e s)"

lemma after_word_ok:
  "args_in k p s \<Longrightarrow> arg_start s = None \<Longrightarrow>
   turn_ok (line_inv k m (Suc p)) (line_post k m p) (Some (after_word ch st s))"
  by (auto simp: turn_ok_def after_word_def line_inv_def line_post_def dest: args_in_mono [of _ _ _ "Suc p"])

lemma end_argument_ok:
  assumes "arg_open k p s" "args_in k p s"
  shows "turn_ok (line_inv k m (Suc p)) (line_post k m p) (end_argument room p ch s)"
  using push_arg_in [OF assms le_refl, of room]
proof
  assume "push_arg room p s = Some None"
  then show ?thesis using assms by (simp add: end_argument_def turn_ok_def line_post_def)
next
  assume "\<exists>t. push_arg room p s = Some (Some t) \<and> args_in k p t \<and> arg_start t = None \<and> cmd_start t = cmd_start s"
  then show ?thesis using after_word_ok by (auto simp: end_argument_def)
qed

lemma four_ok: "p = 4 \<Longrightarrow> p < length m \<Longrightarrow> \<exists>c. four m 0 = Some c"
proof -
  assume "p = 4" "p < length m"
  then have "rd m 0 = Some (m ! 0)" "rd m (0 + 1) = Some (m ! 1)" "rd m (0 + 2) = Some (m ! 2)" "rd m (0 + 3) = Some (m ! 3)"
    by (auto simp: rd_def numeral_2_eq_2)
  then show ?thesis unfolding four_def by simp
qed

lemma spells_ok: "c + length w \<le> length m \<Longrightarrow> \<exists>b. spells m c w = Some b"
  by (induction w arbitrary: c) (auto split: option.splits)

lemma args_in_update [simp]:
  "args_in k p (s\<lparr>m_command := x\<rparr>) = args_in k p s" "args_in k p (s\<lparr>arg_start := y\<rparr>) = args_in k p s"
  "args_in k p (s\<lparr>arg_end := y\<rparr>) = args_in k p s" "args_in k p (s\<lparr>cmd_start := y\<rparr>) = args_in k p s"
  "args_in k p (s\<lparr>m_tag := z\<rparr>) = args_in k p s" "args_in k p (s\<lparr>quoted := b\<rparr>) = args_in k p s"
  "args_in k p (s\<lparr>backslash := b\<rparr>) = args_in k p s" "args_in k p (s\<lparr>no_sync_literal := b\<rparr>) = args_in k p s"
  "args_in k p (s\<lparr>literal_len := n\<rparr>) = args_in k p s"
  by (simp_all add: args_in_def)

lemma line_spaces_ok:
  assumes "args_in k p s" "arg_start s = None" "k = Suc limit"
  shows "turn_ok (line_inv k m (Suc p)) (line_post k m p) (Some (line_spaces limit p ch s))"
  using assms args_in_mono [OF assms(1), of "Suc p"]
  by (auto simp: turn_ok_def line_spaces_def line_inv_def line_post_def arg_open_def)

lemma line_stay: "line_inv k m p (st, s) \<Longrightarrow> line_inv k m (Suc p) (st, s)"
  by (auto simp: line_inv_def arg_open_def dest: args_in_mono [of _ _ _ "Suc p"])

lemma line_turns:
  assumes "p < length m"
  shows "line_inv 3 m p (st, s) \<Longrightarrow> turn_ok (line_inv 3 m (Suc p)) (line_post 3 m p) (pop3_step room m p ch (st, s))"
    and "line_inv 11 m p (st, s) \<Longrightarrow> turn_ok (line_inv 11 m (Suc p)) (line_post 11 m p) (smtp_step room m p ch (st, s))"
proof -
  have stop: "line_inv k m p (st, s) \<Longrightarrow> turn_ok P (line_post k m p) (Some (Stop Command_invalid (st', s)))" for k P st'
    by (auto simp: turn_ok_def line_inv_def line_post_def)
  have stay: "line_inv k m p (st, s) \<Longrightarrow> turn_ok (line_inv k m (Suc p)) Q (Some (Cont (st, s)))" for k and Q :: "mail_exit \<Rightarrow> line_state \<times> mail_session \<Rightarrow> bool"
    using line_stay by (simp add: turn_ok_def)
  show "turn_ok (line_inv 3 m (Suc p)) (line_post 3 m p) (pop3_step room m p ch (st, s))" if i: "line_inv 3 m p (st, s)"
  proof (cases st)
    case sw_start
    have a: "args_in 3 p s" "arg_start s = None" using i sw_start by (auto simp: line_inv_def)
    have ns: "turn_ok (line_inv 3 m (Suc p)) (line_post 3 m p) (Some (Stop Command_invalid (sw_start, s)))" using stop [OF i] .
    have ct: "turn_ok (line_inv 3 m (Suc p)) (line_post 3 m p) (Some (Cont (sw_start, s)))" using stay [OF i] sw_start by simp
    consider "word_end ch" "p = 4" | "word_end ch" "p \<noteq> 4" | "\<not> word_end ch" by blast
    then show ?thesis
    proof cases
      case 1
      then obtain c where "four m 0 = Some c" using four_ok [OF _ assms] by auto
      then show ?thesis using 1 ns after_word_ok [of 3 p "s\<lparr>m_command := the (pop3_word c)\<rparr>"] a sw_start
        by (cases "pop3_word c") (simp_all add: pop3_start_def)
    qed (use ns ct sw_start in \<open>simp_all add: pop3_start_def\<close>)
  next
    case sw_spaces_before_argument
    show ?thesis unfolding sw_spaces_before_argument pop3_step.simps
      by (rule line_spaces_ok) (use i sw_spaces_before_argument in \<open>simp_all add: line_inv_def\<close>)
  next
    case sw_argument
    have a: "arg_open 3 p s" "args_in 3 p s" using i sw_argument by (auto simp: line_inv_def)
    show ?thesis using stay [OF i] end_argument_ok [OF a] sw_argument by (simp add: pop3_argument_def)
  next
    case sw_almost_done
    then show ?thesis using i stop [OF i] by (auto simp: line_almost_done_def turn_ok_def line_inv_def line_post_def)
  qed
  show "turn_ok (line_inv 11 m (Suc p)) (line_post 11 m p) (smtp_step room m p ch (st, s))" if i: "line_inv 11 m p (st, s)"
  proof (cases st)
    case sw_start
    have a: "args_in 11 p s" "arg_start s = None" using i sw_start by (auto simp: line_inv_def)
    have ns: "turn_ok (line_inv 11 m (Suc p)) (line_post 11 m p) (Some (Stop Command_invalid (sw_start, s)))" using stop [OF i] .
    have ct: "turn_ok (line_inv 11 m (Suc p)) (line_post 11 m p) (Some (Cont (sw_start, s)))" using stay [OF i] sw_start by simp
    have w: "p = 8 \<Longrightarrow> \<exists>b. spells m 0 ''STARTTLS'' = Some b" using assms by (intro spells_ok) simp
    consider "word_end ch" "p = 4" | "word_end ch" "p = 8" | "word_end ch" "p \<noteq> 4" "p \<noteq> 8" | "\<not> word_end ch" by blast
    then show ?thesis
    proof cases
      case 1
      then obtain c where "four m 0 = Some c" using four_ok [OF _ assms] by auto
      then show ?thesis using 1 ns after_word_ok [of 11 p "s\<lparr>m_command := the (smtp_word c)\<rparr>"] a sw_start
        by (cases "smtp_word c") (simp_all add: smtp_start_def)
    next
      case 2
      then obtain b where "spells m 0 ''STARTTLS'' = Some b" using w by auto
      then show ?thesis using 2 ns after_word_ok [of 11 p "s\<lparr>m_command := NGX_SMTP_STARTTLS\<rparr>"] a sw_start
        by (simp add: smtp_start_def del: spells.simps)
    qed (use ns ct sw_start in \<open>simp_all add: smtp_start_def\<close>)
  next
    case sw_spaces_before_argument
    show ?thesis unfolding sw_spaces_before_argument smtp_step.simps
      by (rule line_spaces_ok) (use i sw_spaces_before_argument in \<open>simp_all add: line_inv_def\<close>)
  next
    case sw_argument
    have a: "arg_open 11 p s" "args_in 11 p s" using i sw_argument by (auto simp: line_inv_def)
    show ?thesis using stay [OF i] end_argument_ok [OF a] sw_argument by (simp add: smtp_argument_def)
  next
    case sw_almost_done
    then show ?thesis using i stop [OF i] by (auto simp: line_almost_done_def turn_ok_def line_inv_def line_post_def)
  qed
qed

lemma turn_okD:
  assumes "turn_ok P Q t"
  shows "t = Some (Cont s) \<Longrightarrow> P s" "t = Some (Stop e s) \<Longrightarrow> Q e s" "t \<noteq> None"
  using assms by (auto simp: turn_ok_def split: option.splits)

lemma turn_ok_mono: "turn_ok P Q t \<Longrightarrow> (\<And>s. P s \<Longrightarrow> P' s) \<Longrightarrow> (\<And>e s. Q e s \<Longrightarrow> Q' e s) \<Longrightarrow> turn_ok P' Q' t"
  by (auto simp: turn_ok_def split: option.splits turn.splits)

text \<open>The states of IMAP with an open argument, and those in which one more argument is due.\<close>

definition imap_open :: "imap_state \<Rightarrow> bool" where
  "imap_open st \<longleftrightarrow> st = imap_argument \<or> st = imap_backslash \<or> st = imap_literal_argument"

definition imap_due :: "imap_state \<Rightarrow> bool" where
  "imap_due st \<longleftrightarrow> st = imap_literal \<or> st = imap_no_sync_literal_argument \<or> st = imap_start_literal_argument"

definition imap_ok :: "nat \<Rightarrow> imap_state \<times> mail_session \<Rightarrow> bool" where
  "imap_ok p x \<longleftrightarrow> args_in 3 p (snd x) \<and>
     (if imap_open (fst x) then arg_open 3 p (snd x) else arg_start (snd x) = None) \<and>
     (imap_due (fst x) \<longrightarrow> length (m_args (snd x)) < 3) \<and>
     (fst x = imap_command \<longrightarrow> (\<exists>c. cmd_start (snd x) = Some c \<and> c \<le> p))"

definition imap_post :: "nat \<Rightarrow> mail_exit \<Rightarrow> imap_state \<times> mail_session \<Rightarrow> bool" where
  "imap_post p e x \<longleftrightarrow> args_in 3 p (snd x) \<and> (e = Command_done \<longrightarrow> arg_start (snd x) = None) \<and>
     (e = Next_literal \<longrightarrow> arg_open 3 (Suc p) (snd x))"

lemma imap_word_ok: "c \<le> p \<Longrightarrow> p < length m \<Longrightarrow> \<exists>w. imap_word m c (p - c) = Some w"
proof (cases "find (\<lambda>(w, x). length w = p - c) imap_words")
  case (Some a)
  assume "c \<le> p" "p < length m"
  moreover have "length (fst a) = p - c" using Some by (auto dest!: find_SomeD)
  ultimately show ?thesis using Some spells_ok [of c "fst a" m] by (auto simp: imap_word_def split: prod.splits)
qed (simp add: imap_word_def)

lemma imap_after_ok:
  "args_in 3 p s \<Longrightarrow> arg_start s = None \<Longrightarrow> turn_ok (imap_ok (Suc p)) (imap_post p) (Some (imap_after ch st s))"
  by (auto simp: turn_ok_def imap_after_def imap_ok_def imap_post_def imap_open_def imap_due_def dest: args_in_mono [of _ _ _ "Suc p"])

lemma imap_push_ok:
  assumes "arg_open 3 p s" "args_in 3 p s" "p \<le> e" "e \<le> Suc p"
    and "\<And>t. args_in 3 e t \<Longrightarrow> arg_start t = None \<Longrightarrow> turn_ok (imap_ok (Suc p)) (imap_post p) (f t)"
  shows "turn_ok (imap_ok (Suc p)) (imap_post p)
    (case push_arg room e s of None \<Rightarrow> None | Some None \<Rightarrow> Some (Stop Push_failed (st, s)) | Some (Some t) \<Rightarrow> f t)"
  using push_arg_in [OF assms(1-3), of room] assms(2,5) by (auto simp: turn_ok_def imap_post_def)

lemma imap_turn:
  assumes "imap_ok p (st, s)" "p < length m"
  shows "turn_ok (imap_ok (Suc p)) (imap_post p) (imap_step room m p ch (st, s))"
proof -
  note d = turn_ok_def imap_ok_def imap_post_def imap_open_def imap_due_def
  have a: "args_in 3 p s" "args_in 3 (Suc p) s" using assms(1) args_in_mono [of 3 p s "Suc p"] by (auto simp: imap_ok_def)
  have o: "arg_open 3 p s" "arg_open 3 (Suc p) s" if "imap_open st" using assms(1) that by (auto simp: imap_ok_def arg_open_def)
  have n: "arg_start s = None" if "\<not> imap_open st" using assms(1) that by (auto simp: imap_ok_def)
  show ?thesis
  proof (cases st)
    case imap_start
    then show ?thesis using a n by (auto simp: d on_imap_start_def)
  next
    case imap_spaces_before_command
    then show ?thesis using a n by (auto simp: d on_imap_spaces_before_command_def)
  next
    case imap_command
    then obtain c where c: "cmd_start s = Some c" "c \<le> p" using assms(1) by (auto simp: imap_ok_def)
    obtain w where w: "imap_word m c (p - c) = Some w" using imap_word_ok [OF c(2) assms(2)] by blast
    have i: "args_in 3 p (s\<lparr>m_command := k\<rparr>)" "arg_start (s\<lparr>m_command := k\<rparr>) = None" for k using a n imap_command by (auto simp: imap_open_def)
    have x: "turn_ok (imap_ok (Suc p)) (imap_post p) (Some (Stop Command_invalid (imap_command, s)))"
        "turn_ok (imap_ok (Suc p)) (imap_post p) (Some (Cont (imap_command, s)))"
      using a n c imap_command by (auto simp: d)
    show ?thesis using x imap_after_ok [OF i, of ch imap_command] c w
      by (cases w) (simp_all add: on_imap_command_def imap_command)
  next
    case imap_spaces_before_argument
    then show ?thesis using a n by (auto simp: d on_imap_spaces_before_argument_def arg_open_def)
  next
    case imap_argument
    have ao: "arg_open 3 p s" "arg_open 3 (Suc p) s" using o imap_argument by (auto simp: imap_open_def)
    have stay: "turn_ok (imap_ok (Suc p)) (imap_post p) (Some (Cont (imap_argument, s)))" "turn_ok (imap_ok (Suc p)) (imap_post p) (Some (Cont (imap_backslash, s\<lparr>backslash := True\<rparr>)))"
      using a ao by (auto simp: d arg_open_def)
    have push: "turn_ok (imap_ok (Suc p)) (imap_post p)
        (case push_arg room p s' of None \<Rightarrow> None | Some None \<Rightarrow> Some (Stop Push_failed (imap_argument, s'))
           | Some (Some t) \<Rightarrow> Some (imap_after ch imap_argument t))" if "s' = s \<or> s' = s\<lparr>quoted := False\<rparr>" for s'
      by (rule imap_push_ok) (use that ao a imap_after_ok in \<open>auto simp: arg_open_def\<close>)
    show ?thesis unfolding imap_argument imap_step.simps on_imap_argument_def Let_def
      using stay push [of s] push [of "s\<lparr>quoted := False\<rparr>"] by simp
  next
    case imap_backslash
    then show ?thesis using a o by (auto simp: d on_imap_backslash_def)
  next
    case imap_literal
    then show ?thesis using a n assms(1) by (auto simp: d on_imap_literal_def)
  next
    case imap_no_sync_literal_argument
    then show ?thesis using a n assms(1) by (auto simp: d on_imap_no_sync_def)
  next
    case imap_start_literal_argument
    then show ?thesis using a n assms(1) by (auto simp: d on_imap_start_literal_def arg_open_def Let_def)
  next
    case imap_literal_argument
    have ao: "arg_open 3 p s" "arg_open 3 (Suc p) s" using o imap_literal_argument by (auto simp: imap_open_def)
    have stay: "turn_ok (imap_ok (Suc p)) (imap_post p) (Some (Cont (imap_literal_argument, s\<lparr>literal_len := k\<rparr>)))" for k
      using a ao by (auto simp: d arg_open_def)
    have push: "turn_ok (imap_ok (Suc p)) (imap_post p)
        (case push_arg room (p + 1) s' of None \<Rightarrow> None | Some None \<Rightarrow> Some (Stop Push_failed (imap_literal_argument, s'))
           | Some (Some t) \<Rightarrow> Some (Cont (imap_end_literal_argument, t)))" if "s' = s \<or> (\<exists>k. s' = s\<lparr>literal_len := k\<rparr>)" for s'
      by (rule imap_push_ok) (use that ao a in \<open>auto simp: arg_open_def d\<close>)
    show ?thesis unfolding imap_literal_argument imap_step.simps on_imap_literal_argument_def Let_def
      using stay push [OF disjI1 [OF refl]] push [OF disjI2 [OF exI [of _ "literal_len s - 1", OF refl]]]
      by (cases "literal_len s = 0"; cases "literal_len s - 1 = 0") (simp_all only: simp_thms if_True if_False)
  next
    case imap_end_literal_argument
    then show ?thesis using a n assms(1) by (auto simp: d on_imap_end_literal_def)
  next
    case imap_almost_done
    then show ?thesis using a n by (auto simp: d on_imap_almost_done_def)
  qed
qed

text \<open>The turns keep the invariants.\<close>

interpretation pop3_inv: invariant_parser "pop3_step room" "line_inv 3" "line_post 3" 0 for room
proof
  fix m m' p s s' e
  show "take p m = take p m' \<Longrightarrow> line_inv 3 m p s \<Longrightarrow> line_inv 3 m' p s" by (simp add: line_inv_def)
  assume a: "line_inv 3 m p s"
  have t: "p < length m \<Longrightarrow> turn_ok (line_inv 3 m (Suc p)) (line_post 3 m p) (pop3_step room m p (m ! p) s)"
    using line_turns(1) [of p m "fst s" "snd s"] a by simp
  show "p < length m \<Longrightarrow> pop3_step room m p (m ! p) s = Some (Cont s') \<Longrightarrow> line_inv 3 m (Suc p) s'"
    "p < length m \<Longrightarrow> pop3_step room m p (m ! p) s = Some (Stop e s') \<Longrightarrow> line_post 3 m p e s'"
    "p + 0 < length m \<Longrightarrow> pop3_step room m p (m ! p) s \<noteq> None"
    using turn_okD [OF t] by auto
qed

interpretation smtp_inv: invariant_parser "smtp_step room" "line_inv 11" "line_post 11" 0 for room
proof
  fix m m' p s s' e
  show "take p m = take p m' \<Longrightarrow> line_inv 11 m p s \<Longrightarrow> line_inv 11 m' p s" by (simp add: line_inv_def)
  assume a: "line_inv 11 m p s"
  have t: "p < length m \<Longrightarrow> turn_ok (line_inv 11 m (Suc p)) (line_post 11 m p) (smtp_step room m p (m ! p) s)"
    using line_turns(2) [of p m "fst s" "snd s"] a by simp
  show "p < length m \<Longrightarrow> smtp_step room m p (m ! p) s = Some (Cont s') \<Longrightarrow> line_inv 11 m (Suc p) s'"
    "p < length m \<Longrightarrow> smtp_step room m p (m ! p) s = Some (Stop e s') \<Longrightarrow> line_post 11 m p e s'"
    "p + 0 < length m \<Longrightarrow> smtp_step room m p (m ! p) s \<noteq> None"
    using turn_okD [OF t] by auto
qed

interpretation imap_inv: invariant_parser "imap_step room" "\<lambda>_. imap_ok" "\<lambda>_. imap_post" 0 for room
proof
  fix m m' :: bytes and p s s' e
  show "imap_ok p s \<Longrightarrow> imap_ok p s" .
  assume a: "imap_ok p s"
  have t: "p < length m \<Longrightarrow> turn_ok (imap_ok (Suc p)) (imap_post p) (imap_step room m p (m ! p) s)"
    using imap_turn [of p "fst s" "snd s"] a by simp
  show "p < length m \<Longrightarrow> imap_step room m p (m ! p) s = Some (Cont s') \<Longrightarrow> imap_ok (Suc p) s'"
    "p < length m \<Longrightarrow> imap_step room m p (m ! p) s = Some (Stop e s') \<Longrightarrow> imap_post p e s'"
    "p + 0 < length m \<Longrightarrow> imap_step room m p (m ! p) s \<noteq> None"
    using turn_okD [OF t] by auto
qed

text \<open>Around the loop: what a parser whose invariant holds returns.\<close>

lemma parse_in_bounds:
  assumes i: "invariant_parser step iv post 0" "iv m pos s" and l: "pos \<le> lst" "lst \<le> length m"
    and p: "\<And>p s. post m p Command_done s \<Longrightarrow> arg_start (snd s) = None \<and> args_in k p (snd s)"
    and f: "\<And>t. arg_start t = None \<Longrightarrow> \<exists>st'. fin t = Some (Some (st', t))"
  shows "\<exists>rc s' pos'. mail_parse step fin inval lit m pos lst s = Some (rc, s', pos') \<and>
    (rc = Mail_rc NGX_AGAIN \<longrightarrow> pos' = lst \<and> iv m lst s') \<and>
    (rc = Mail_rc NGX_OK \<longrightarrow> pos < pos' \<and> pos' \<le> lst \<and> args_in k (pos' - 1) (snd s')) \<and>
    (rc = NGX_IMAP_NEXT \<longrightarrow> pos < pos' \<and> pos' \<le> lst \<and> (\<exists>st t. post m (pos' - 1) Next_literal (st, t) \<and> s' = (lit, t)))"
proof -
  obtain x where x: "scan step m pos (lst - pos) s = Some x"
    using invariant_parser.scan_no_fault [OF i, of "lst - pos"] l by auto
  show ?thesis
  proof (cases x)
    case (Again s')
    then have "iv m lst s'" using x invariant_parser.scan_inv [OF i, of "lst - pos" s'] l by simp
    then show ?thesis using x Again l by (simp add: mail_parse_def)
  next
    case (Stopped q e s')
    have q: "pos \<le> q" "q < lst" and po: "post m q e s'"
      using scan_stopped_less [of step m pos "lst - pos" s q e s'] invariant_parser.scan_post [OF i] x Stopped l by auto
    show ?thesis
    proof (cases e)
      case Command_done
      obtain st' where "fin (snd s') = Some (Some (st', snd s'))" using p f po Command_done by blast
      then show ?thesis using x Stopped Command_done q p po by (simp add: mail_parse_def)
    next
      case Next_literal
      have "\<exists>st t. post m q Next_literal (st, t) \<and> (lit, snd s') = (lit, t)" using po Next_literal by (metis prod.collapse)
      then show ?thesis using x Stopped Next_literal q by (simp add: mail_parse_def)
    qed (use x Stopped in \<open>simp_all add: mail_parse_def\<close>)
  qed
qed

text \<open>C31: the arguments of IMAP stay in the buffer.  From a session in order, whatever the bytes of the client,
  \<open>ngx_mail_imap_parse_command\<close> reads only the bytes it is given and follows no null pointer; when a command is
  complete, at most three arguments have been collected, and each lies in the bytes of the command; and when it wants
  more bytes (also those of a literal), the session is in order for the next call.\<close>

theorem imap_arguments_safe:
  assumes "imap_ok pos s" and "pos \<le> lst" and "lst \<le> length m"
  shows "\<exists>rc s' pos'. ngx_mail_imap_parse_command room m pos lst s = Some (rc, s', pos') \<and>
     (rc = Mail_rc NGX_OK \<longrightarrow> pos < pos' \<and> pos' \<le> lst \<and> length (m_args (snd s')) \<le> 3 \<and>
        (\<forall>x \<in> set (m_args (snd s')). fst x + unat (snd x) < pos')) \<and>
     (rc = Mail_rc NGX_AGAIN \<or> rc = NGX_IMAP_NEXT \<longrightarrow> pos' \<le> lst \<and> imap_ok pos' s')"
proof -
  have f: "arg_start t = None \<Longrightarrow> \<exists>st'. imap_done room t = Some (Some (st', t))" for t
    by (simp add: imap_done_def push_open_def)
  have "\<exists>rc s' pos'. ngx_mail_imap_parse_command room m pos lst s = Some (rc, s', pos') \<and>
    (rc = Mail_rc NGX_AGAIN \<longrightarrow> pos' = lst \<and> imap_ok lst s') \<and>
    (rc = Mail_rc NGX_OK \<longrightarrow> pos < pos' \<and> pos' \<le> lst \<and> args_in 3 (pos' - 1) (snd s')) \<and>
    (rc = NGX_IMAP_NEXT \<longrightarrow> pos < pos' \<and> pos' \<le> lst \<and>
       (\<exists>st t. imap_post (pos' - 1) Next_literal (st, t) \<and> s' = (imap_literal_argument, t)))"
    unfolding ngx_mail_imap_parse_command_def
    by (rule parse_in_bounds [OF imap_inv.invariant_parser_axioms assms]) (use f in \<open>auto simp: imap_post_def\<close>)
  then obtain rc s' pos' where r: "ngx_mail_imap_parse_command room m pos lst s = Some (rc, s', pos')"
    "rc = Mail_rc NGX_AGAIN \<Longrightarrow> pos' = lst \<and> imap_ok lst s'"
    "rc = Mail_rc NGX_OK \<Longrightarrow> pos < pos' \<and> pos' \<le> lst \<and> args_in 3 (pos' - 1) (snd s')"
    "rc = NGX_IMAP_NEXT \<Longrightarrow> pos < pos' \<and> pos' \<le> lst \<and>
       (\<exists>st t. imap_post (pos' - 1) Next_literal (st, t) \<and> s' = (imap_literal_argument, t))"
    by blast
  have "imap_ok pos' s'" if "rc = NGX_IMAP_NEXT"
    using r(4) [OF that] args_in_mono [of 3 "pos' - 1" _ pos']
    by (auto simp: imap_ok_def imap_post_def imap_open_def imap_due_def)
  then show ?thesis using r by (fastforce simp: args_in_def)
qed

section \<open>A command line\<close>


definition words_text :: "bytes list \<Rightarrow> bytes" where
  "words_text ws = concat (map (\<lambda>w. 0x20 # w) ws)"

lemma words_text_simps [simp]: "words_text [] = []" "words_text (w # ws) = 0x20 # w @ words_text ws"
  by (simp_all add: words_text_def)

















definition fresh_session :: mail_session where
  "fresh_session = \<lparr>m_command = No_command, m_args = [], cmd_start = None, arg_start = None, arg_end = None, m_tag = (0, 0),
     quoted = False, backslash = False, no_sync_literal = False, literal_len = 0\<rparr>"

lemma imap_arguments_safe_witness:
  "\<exists>rc s' pos'. ngx_mail_imap_parse_command (\<lambda>_. True) [0x61, 0x20, LF] 0 3 (imap_start, fresh_session) = Some (rc, s', pos')"
proof -
  have "imap_ok 0 (imap_start, fresh_session)" by (simp add: imap_ok_def args_in_def imap_open_def imap_due_def fresh_session_def)
  with imap_arguments_safe [of 0 "(imap_start, fresh_session)" 3 "[0x61, 0x20, LF]"] show ?thesis by fastforce
qed


section \<open>Behaviours\<close>

text \<open>A session after a call.\<close>

definition imap_reads :: "bytes \<Rightarrow> imap_state \<times> mail_session \<Rightarrow> (mail_rc \<times> imap_state \<times> mail_session) option" where
  "imap_reads m s = map_option (\<lambda>(rc, s, pos). (rc, s)) (ngx_mail_imap_parse_command (\<lambda>_. True) m 0 (length m) s)"

text \<open>A quote that is open at the end of the line: the command is accepted, and the session stays in quotes, so that the
  spaces of the next command do not separate its arguments.\<close>

lemma imap_open_quote:
  "map_option (\<lambda>(rc, st, s). (rc, m_args s, quoted s))
     (imap_reads (str ''a LOGIN '' @ [0x22] @ str ''x'' @ [CR, LF]) (imap_start, fresh_session))
   = Some (Mail_rc NGX_OK, [(9, 1)], True)"
  "map_option (\<lambda>(rc, st, s). (rc, m_args s))
     (imap_reads (str ''a LOGIN u p'' @ [CR, LF]) (imap_start, fresh_session\<lparr>quoted := True\<rparr>))
   = Some (Mail_rc NGX_OK, [(8, 3)])"
  by code_simp+

text \<open>A literal of length zero takes the byte behind it.\<close>

lemma imap_empty_literal:
  "map_option (\<lambda>(rc, st, s). (rc, st, m_args s)) (imap_reads (str ''a LOGIN {0+}'' @ [CR, LF] @ str ''x'') (imap_start, fresh_session))
   = Some (Mail_rc NGX_AGAIN, imap_end_literal_argument, [(14, 1)])"
  by code_simp

text \<open>The length of a literal wraps around.\<close>

lemma imap_literal_wraps:
  "map_option (\<lambda>(rc, st, s). literal_len s) (imap_reads (str ''a LOGIN {18446744073709551617'') (imap_start, fresh_session)) = Some 1"
  by code_simp

text \<open>An invalid command leaves \<^verbatim>\<open>arg_start\<close> behind; the next command without arguments then gets one, from
  there to an \<^verbatim>\<open>arg_end\<close> that may be null.\<close>

lemma imap_stale_argument:
  "map_option (\<lambda>(rc, st, s). (rc, st, arg_start s))
     (imap_reads (str ''a LOGIN '' @ [0x22, 0x5c, CR]) (imap_start, fresh_session))
   = Some (NGX_MAIL_PARSE_INVALID_COMMAND, imap_start, Some 9)"
  "imap_reads (str ''b NOOP'' @ [CR, LF]) (imap_start, fresh_session\<lparr>arg_start := Some 9\<rparr>) = None"
  "map_option (\<lambda>(rc, st, s). m_args s)
     (imap_reads (str ''b NOOP'' @ [CR, LF]) (imap_start, fresh_session\<lparr>arg_start := Some 9, arg_end := Some 4\<rparr>))
   = Some [(9, - 5)]"
  by code_simp+

end
