(* ===== verification/HttpRange.thy ===== *)
theory HttpRange
  imports NgxCString NgxSprintf HttpTime
begin

text \<open>
  Byte ranges, \<^verbatim>\<open>src/http/modules/ngx_http_range_filter_module.c\<close>: the parser of the \<^verbatim>\<open>Range\<close> header, what the
  header filter does with its result, and the texts of the part headers.  \<^verbatim>\<open>off_t\<close> is a 64-bit word that is
  compared as a signed number; it wraps around as the compiled code does.
\<close>

section \<open>The parser\<close>

type_synonym off = "64 word"

datatype range_rc = Range_ok "(off \<times> off) list" | Range_declined | Not_satisfiable | Range_error

text \<open>The pointer is the list of the bytes from it on.  \<open>None\<close> is a read behind the terminating zero.\<close>

fun skip_sp :: "bytes \<Rightarrow> bytes option" where
  "skip_sp [] = None"
| "skip_sp (c # p) = (if c = 0x20 then skip_sp p else Some (c # p))"

fun range_digits :: "off \<Rightarrow> bytes \<Rightarrow> (off \<times> bytes) option" where
  "range_digits n [] = None"
| "range_digits n (c # p) =
     (if is_digit c then range_digits (n * 10 + ucast c - 0x30) p else Some (n, c # p))"

text \<open>One turn of the loop: refused, or a range and the pointer behind it.\<close>

datatype turn_result = Refused | Found off off bytes

definition range_end :: "off \<Rightarrow> bool \<Rightarrow> off \<Rightarrow> bytes \<Rightarrow> turn_result option" where
  "range_end len suffix start p =
     (case p of
        [] \<Rightarrow> None
      | c # _ \<Rightarrow>
          if \<not> is_digit c then Some Refused
          else do {
            (en, p) \<leftarrow> range_digits 0 p;
            p \<leftarrow> skip_sp p;
            c \<leftarrow> rd p 0;
            if c \<noteq> 0x2c \<and> c \<noteq> 0 then Some Refused
            else
              let (start, en) = (if suffix then (len - en, len - 1) else (start, en)) in
              Some (Found start (if sint len \<le> sint en then len else en + 1) p) })"

definition range_turn :: "off \<Rightarrow> bytes \<Rightarrow> turn_result option" where
  "range_turn len p = do {
     p \<leftarrow> skip_sp p;
     c \<leftarrow> rd p 0;
     if c = 0x2d then range_end len True 0 (drop 1 p)
     else if \<not> is_digit c then Some Refused
     else do {
       (start, p) \<leftarrow> range_digits 0 p;
       p \<leftarrow> skip_sp p;
       c \<leftarrow> rd p 0;
       if c \<noteq> 0x2d then Some Refused
       else do {
         p \<leftarrow> skip_sp (drop 1 p);
         c \<leftarrow> rd p 0;
         if c = 0x2c \<or> c = 0 then Some (Found start len p)
         else range_end len False start p } } }"

lemma skip_sp_length: "skip_sp p = Some q \<Longrightarrow> length q \<le> length p"
  by (induction p) (auto split: if_splits)

lemma range_digits_length: "range_digits n p = Some (m, q) \<Longrightarrow> length q \<le> length p"
  by (induction n p rule: range_digits.induct) (auto split: if_splits)

lemma range_end_length: "range_end len suffix start p = Some (Found s e q) \<Longrightarrow> length q \<le> length p"
  by (fastforce simp: range_end_def Let_def split: list.splits if_splits bind_splits dest!: skip_sp_length range_digits_length)

lemma range_turn_length:
  assumes "range_turn len p = Some (Found s e q)"
  shows "length q \<le> length p"
proof -
  obtain p1 c where p1: "skip_sp p = Some p1" "rd p1 0 = Some c" using assms by (auto simp: range_turn_def split: bind_splits)
  note l1 = skip_sp_length [OF p1(1)]
  consider "c = 0x2d" | "c \<noteq> 0x2d" "is_digit c" using assms p1 by (auto simp: range_turn_def split: if_splits)
  then show ?thesis
  proof cases
    case 1
    then have "range_end len True 0 (drop 1 p1) = Some (Found s e q)" using assms p1 by (simp add: range_turn_def)
    from range_end_length [OF this] show ?thesis using l1 by simp
  next
    case 2
    obtain n p2 p3 where p2: "range_digits 0 p1 = Some (n, p2)" "skip_sp p2 = Some p3" "rd p3 0 = Some 0x2d"
      using assms p1 2 by (auto simp: range_turn_def split: bind_splits if_splits)
    then obtain p4 d where p4: "skip_sp (drop 1 p3) = Some p4" "rd p4 0 = Some d"
      using assms p1 2 by (auto simp: range_turn_def split: bind_splits if_splits)
    have "length p4 \<le> length p1"
      using range_digits_length [OF p2(1)] skip_sp_length [OF p2(2)] skip_sp_length [OF p4(1)] by simp
    moreover have "length q \<le> length p4"
      using assms p1 p2 p4 2 range_end_length by (auto simp: range_turn_def split: if_splits)
    ultimately show ?thesis using l1 by simp
  qed
qed

text \<open>The loop: the ranges so far, their size, and the ranges that are still allowed (the test is before
  the decrement).  \<open>room\<close> is the growth of the array.\<close>

function range_loop :: "(nat \<Rightarrow> bool) \<Rightarrow> off \<Rightarrow> (off \<times> off) list \<Rightarrow> off \<Rightarrow> u64 \<Rightarrow> bytes \<Rightarrow> range_rc option" where
  "range_loop room len rs sz ranges p =
     (case range_turn len p of
        None \<Rightarrow> None
      | Some Refused \<Rightarrow> Some Not_satisfiable
      | Some (Found s e q) \<Rightarrow>
          if sint s < sint e \<and> \<not> room (length rs) then Some Range_error
          else if sint s < sint e \<and> ranges = 0 then Some Range_declined
          else
            let rs' = (if sint s < sint e then rs @ [(s, e)] else rs);
                sz' = (if sint s < sint e then sz + (e - s) else sz);
                ranges' = (if sint s < sint e then ranges - 1 else ranges) in
            (case q of
               [] \<Rightarrow> None
             | c # q' \<Rightarrow>
                 if c = 0x2c then range_loop room len rs' sz' ranges' q'
                 else Some (if rs' = [] then Not_satisfiable
                            else if sint len < sint sz' then Range_declined
                            else Range_ok rs')))"
  by pat_completeness auto
termination
  by (relation "measure (\<lambda>(_, _, _, _, _, p). length p)") (auto dest!: range_turn_length)

declare range_loop.simps [simp del]

definition ngx_http_range_parse :: "(nat \<Rightarrow> bool) \<Rightarrow> off \<Rightarrow> u64 \<Rightarrow> bytes \<Rightarrow> range_rc option" where
  "ngx_http_range_parse room len ranges val = range_loop room len [] 0 ranges (drop 6 val)"


section \<open>What the parser accepts\<close>

text \<open>
  A range specification with its spaces, its text, and the range that it stands for in a response of
  \<open>len\<close> bytes.
\<close>

fun spaces :: "nat \<Rightarrow> bytes" where "spaces n = replicate n 0x20"

datatype range_spec =
    From nat bytes nat nat
  | From_to nat bytes nat nat bytes nat
  | Suffix nat bytes nat

fun spec_text :: "range_spec \<Rightarrow> bytes" where
  "spec_text (From a ds b c) = spaces a @ ds @ spaces b @ 0x2d # spaces c"
| "spec_text (From_to a ds b c es d) = spaces a @ ds @ spaces b @ 0x2d # spaces c @ es @ spaces d"
| "spec_text (Suffix a es d) = spaces a @ 0x2d # es @ spaces d"

fun spec_texts :: "range_spec list \<Rightarrow> bytes" where
  "spec_texts [] = []"
| "spec_texts [r] = spec_text r"
| "spec_texts (r # rs) = spec_text r @ 0x2c # spec_texts rs"

definition digit_text :: "bytes \<Rightarrow> bool" where
  "digit_text ds \<longleftrightarrow> ds \<noteq> [] \<and> all_digits ds"

fun spec_ok :: "nat \<Rightarrow> range_spec \<Rightarrow> bool" where
  "spec_ok m (From a ds b c) \<longleftrightarrow> digit_text ds \<and> dec_val 0 ds < m"
| "spec_ok m (From_to a ds b c es d) \<longleftrightarrow> digit_text ds \<and> digit_text es \<and> dec_val 0 ds < m \<and> dec_val 0 es < m"
| "spec_ok m (Suffix a es d) \<longleftrightarrow> digit_text es \<and> dec_val 0 es < m"

fun spec_range :: "nat \<Rightarrow> range_spec \<Rightarrow> int \<times> int" where
  "spec_range len (From a ds b c) = (int (dec_val 0 ds), int len)"
| "spec_range len (From_to a ds b c es d) = (int (dec_val 0 ds), min (int len) (int (dec_val 0 es) + 1))"
| "spec_range len (Suffix a es d) = (int len - int (dec_val 0 es), int len)"

definition ranges_of :: "nat \<Rightarrow> range_spec list \<Rightarrow> (int \<times> int) list" where
  "ranges_of len specs = filter (\<lambda>(s, e). s < e) (map (spec_range len) specs)"

lemma skip_sp_spaces: "q \<noteq> [] \<Longrightarrow> hd q \<noteq> 0x20 \<Longrightarrow> skip_sp (spaces n @ q) = Some q"
  by (induction n) (cases q; simp)+

lemma range_digits_append:
  assumes "all_digits ds" "q \<noteq> []" "\<not> is_digit (hd q)"
  shows "range_digits (of_nat n) (ds @ q) = Some (of_nat (dec_val n ds), q)"
  using assms(1)
proof (induction ds arbitrary: n)
  case Nil
  show ?case using assms(2,3) by (cases q) auto
next
  case (Cons c ds)
  have c: "48 \<le> unat c" "is_digit c" using Cons.prems by (auto simp: is_digit_unat)
  have eq: "(of_nat n * 10 + ucast c - 0x30 :: off) = of_nat (n * 10 + (unat c - 48))"
    using c(1) by (simp add: of_nat_diff)
  have "range_digits (of_nat n) ((c # ds) @ q) = range_digits (of_nat n * 10 + ucast c - 0x30) (ds @ q)"
    using c(2) by simp
  then show ?case using Cons.IH [of "n * 10 + (unat c - 48)"] Cons.prems by (simp only: eq) simp
qed

lemma range_digits_number:
  assumes "digit_text ds" "q \<noteq> []" "\<not> is_digit (hd q)"
  shows "range_digits 0 (ds @ q) = Some (of_nat (dec_val 0 ds), q)"
  using range_digits_append [of ds q 0] assms by (simp add: digit_text_def )

lemma digits_hd: "digit_text ds \<Longrightarrow> \<exists>c ds'. ds = c # ds' \<and> is_digit c \<and> c \<noteq> 0x20 \<and> c \<noteq> 0x2d \<and> c \<noteq> 0x2c \<and> c \<noteq> 0"
  by (cases ds) (auto simp: digit_text_def is_digit_def)

lemma no_digit [simp]: "\<not> is_digit 0x20" "\<not> is_digit 0x2c" "\<not> is_digit 0" "\<not> is_digit 0x2d"
  by (simp_all add: is_digit_def)

lemma hd_spaces: "hd (spaces n @ q) = (if n = 0 then hd q else 0x20)"
  by (cases n) auto

text \<open>The end of a specification: a comma or the terminating zero.\<close>

definition stop :: "bytes \<Rightarrow> bool" where
  "stop q \<longleftrightarrow> q \<noteq> [] \<and> (hd q = 0x2c \<or> hd q = 0)"

lemma stopD: "stop q \<Longrightarrow> q \<noteq> [] \<and> \<not> is_digit (hd q) \<and> hd q \<noteq> 0x20 \<and> (hd q = 0x2c \<or> hd q = 0)"
  by (auto simp: stop_def)

lemma rd_hd: "q \<noteq> [] \<Longrightarrow> rd q 0 = Some (hd q)"
  by (simp add: hd_conv_nth)

lemma range_end_text:
  assumes "digit_text es" "stop q"
  shows "range_end len suffix start (es @ spaces d @ q) =
    (let (start, en) = (if suffix then (len - of_nat (dec_val 0 es), len - 1) else (start, of_nat (dec_val 0 es))) in
     Some (Found start (if sint len \<le> sint en then len else en + 1) q))"
proof -
  obtain c ds' where c: "es = c # ds'" "is_digit c" using digits_hd [OF assms(1)] by auto
  note q = stopD [OF assms(2)]
  have "range_digits 0 (es @ spaces d @ q) = Some (of_nat (dec_val 0 es), spaces d @ q)"
    using q by (intro range_digits_number assms(1)) (auto simp: hd_spaces simp del: spaces.simps)
  moreover have "skip_sp (spaces d @ q) = Some q" using q by (intro skip_sp_spaces) auto
  ultimately show ?thesis
    using c q by (cases q) (auto simp: range_end_def Let_def simp del: range_digits.simps)
qed

text \<open>The range of a specification over words, before the comparison.\<close>

fun spec_words :: "off \<Rightarrow> range_spec \<Rightarrow> off \<times> off" where
  "spec_words len (From a ds b c) = (of_nat (dec_val 0 ds), len)"
| "spec_words len (From_to a ds b c es d) =
     (of_nat (dec_val 0 ds), if sint len \<le> sint (of_nat (dec_val 0 es) :: off) then len else of_nat (dec_val 0 es) + 1)"
| "spec_words len (Suffix a es d) =
     (len - of_nat (dec_val 0 es), if sint len \<le> sint (len - 1) then len else len - 1 + 1)"

lemma range_turn_from:
  assumes "digit_text ds" "stop q"
  shows "range_turn len (spaces a @ ds @ spaces b @ 0x2d # spaces c @ q) = Some (Found (of_nat (dec_val 0 ds)) len q)"
proof -
  obtain x ds' where x: "ds = x # ds'" "is_digit x" "x \<noteq> 0x20" "x \<noteq> 0x2d" using digits_hd [OF assms(1)] by auto
  note q = stopD [OF assms(2)]
  have "skip_sp (spaces a @ ds @ spaces b @ 0x2d # spaces c @ q) = Some (ds @ spaces b @ 0x2d # spaces c @ q)"
    using x by (intro skip_sp_spaces) auto
  moreover have "range_digits 0 (ds @ spaces b @ 0x2d # spaces c @ q) = Some (of_nat (dec_val 0 ds), spaces b @ 0x2d # spaces c @ q)"
    by (intro range_digits_number assms(1)) (auto simp: hd_spaces simp del: spaces.simps)
  moreover have "skip_sp (spaces b @ 0x2d # spaces c @ q) = Some (0x2d # spaces c @ q)"
    by (intro skip_sp_spaces) auto
  moreover have "skip_sp (spaces c @ q) = Some q" using q by (intro skip_sp_spaces) auto
  moreover have "rd (ds @ r) 0 = Some x" for r using x by simp
  ultimately show ?thesis
    using x q by (auto simp: range_turn_def hd_conv_nth simp del: spaces.simps range_digits.simps) 
qed

lemma range_turn_from_to:
  assumes "digit_text ds" "digit_text es" "stop q"
  shows "range_turn len (spaces a @ ds @ spaces b @ 0x2d # spaces c @ es @ spaces d @ q) =
    Some (Found (of_nat (dec_val 0 ds))
       (if sint len \<le> sint (of_nat (dec_val 0 es) :: off) then len else of_nat (dec_val 0 es) + 1) q)"
proof -
  obtain x ds' where x: "ds = x # ds'" "is_digit x" "x \<noteq> 0x20" "x \<noteq> 0x2d" using digits_hd [OF assms(1)] by auto
  obtain y es' where y: "es = y # es'" "is_digit y" "y \<noteq> 0x20" "y \<noteq> 0x2c" "y \<noteq> 0" using digits_hd [OF assms(2)] by auto
  have "skip_sp (spaces a @ ds @ spaces b @ 0x2d # spaces c @ es @ spaces d @ q) = Some (ds @ spaces b @ 0x2d # spaces c @ es @ spaces d @ q)"
    using x by (intro skip_sp_spaces) auto
  moreover have "range_digits 0 (ds @ spaces b @ 0x2d # spaces c @ es @ spaces d @ q) =
      Some (of_nat (dec_val 0 ds), spaces b @ 0x2d # spaces c @ es @ spaces d @ q)"
    by (intro range_digits_number assms(1)) (auto simp: hd_spaces simp del: spaces.simps)
  moreover have "skip_sp (spaces b @ 0x2d # spaces c @ es @ spaces d @ q) = Some (0x2d # spaces c @ es @ spaces d @ q)"
    by (intro skip_sp_spaces) auto
  moreover have "skip_sp (spaces c @ es @ spaces d @ q) = Some (es @ spaces d @ q)" using y by (intro skip_sp_spaces) auto
  moreover have "rd (ds @ r) 0 = Some x" "rd (es @ r) 0 = Some y" for r using x y by simp_all
  ultimately show ?thesis
    using x y range_end_text [OF assms(2,3), of len False "of_nat (dec_val 0 ds)" d]
    by (simp add: range_turn_def del: spaces.simps range_digits.simps)
qed

lemma range_turn_suffix:
  assumes "digit_text es" "stop q"
  shows "range_turn len (spaces a @ 0x2d # es @ spaces d @ q) =
    Some (Found (len - of_nat (dec_val 0 es)) (if sint len \<le> sint (len - 1) then len else len - 1 + 1) q)"
proof -
  have "skip_sp (spaces a @ 0x2d # es @ spaces d @ q) = Some (0x2d # es @ spaces d @ q)"
    by (intro skip_sp_spaces) auto
  then show ?thesis
    using range_end_text [OF assms, of len True 0 d] by (simp add: range_turn_def del: spaces.simps)
qed

lemma range_turn_spec:
  assumes "spec_ok m r" "stop q"
  shows "range_turn len (spec_text r @ q) = Some (Found (fst (spec_words len r)) (snd (spec_words len r)) q)"
  using assms by (cases r) (simp_all add: range_turn_from range_turn_from_to range_turn_suffix del: spaces.simps)


lemma sint_of_int_small: "- (2 ^ 63) \<le> i \<Longrightarrow> i < 2 ^ 63 \<Longrightarrow> sint (of_int i :: off) = i"
  by (simp add: signed_of_int signed_take_bit_int_eq_self)

lemma spec_words_range:
  assumes "spec_ok m r" "len < m" "m < 2 ^ 63"
  shows "spec_words (of_nat len) r = (of_int (fst (spec_range len r)), of_int (snd (spec_range len r)))"
    and "fst (spec_range len r) < int m" "snd (spec_range len r) \<le> int len"
    and "- int m < fst (spec_range len r)" "0 \<le> snd (spec_range len r)"
    and "snd (spec_range len r) - fst (spec_range len r) \<le> int m"
proof -
  have m: "int m < 2 ^ 63" using assms(3) by simp
  have s: "sint (of_nat n :: off) = int n" if n: "n < m" for n
    using sint_of_int_small [of "int n"] n m by simp
  have l: "sint (of_nat len - 1 :: off) = int len - 1"
    using sint_of_int_small [of "int len - 1"] assms m by simp
  have e: "of_nat n + 1 = (of_nat len :: off)" if "int len \<le> int n + 1" "\<not> len \<le> n" for n
  proof -
    have "len = Suc n" using that by linarith
    then show ?thesis by simp
  qed
  show "spec_words (of_nat len) r = (of_int (fst (spec_range len r)), of_int (snd (spec_range len r)))"
    using assms by (cases r) (auto simp: s l min_def e)
qed (use assms in \<open>cases r; auto\<close>)+


definition range_size :: "(int \<times> int) list \<Rightarrow> int" where
  "range_size rs = sum_list (map (\<lambda>(s, e). e - s) rs)"

definition words :: "(int \<times> int) list \<Rightarrow> (off \<times> off) list" where
  "words rs = map (\<lambda>(s, e). (of_int s, of_int e)) rs"

lemma range_size_simps [simp]: "range_size [] = 0" "range_size ((s, e) # rs) = e - s + range_size rs"
  by (simp_all add: range_size_def)

lemma words_simps [simp]: "words [] = []" "words ((s, e) # rs) = (of_int s, of_int e) # words rs"
  by (simp_all add: words_def)

lemma range_size_append: "range_size (rs @ qs) = range_size rs + range_size qs"
  by (simp add: range_size_def)

lemma words_append [simp]: "words (rs @ qs) = words rs @ words qs"
  by (simp add: words_def)

lemma words_eq_Nil [simp]: "words rs = [] \<longleftrightarrow> rs = []"
  by (simp add: words_def)

lemma ranges_of_Nil [simp]: "ranges_of len [] = []"
  by (simp add: ranges_of_def)

lemma ranges_of_Cons:
  "ranges_of len (r # specs) =
     (if fst (spec_range len r) < snd (spec_range len r) then [spec_range len r] else []) @ ranges_of len specs"
  by (auto simp: ranges_of_def split: prod.splits)

text \<open>What the parser returns when \<open>rs\<close> are the ranges it keeps and \<open>lim\<close> of them are allowed.\<close>

definition verdict :: "nat \<Rightarrow> nat \<Rightarrow> (int \<times> int) list \<Rightarrow> range_rc" where
  "verdict len lim rs =
     (if lim < length rs then Range_declined
      else if rs = [] then Not_satisfiable
      else if int len < range_size rs then Range_declined
      else Range_ok (words rs))"

lemma range_loop_specs:
  assumes "specs \<noteq> []" "list_all (spec_ok m) specs" "len < m" "m < 2 ^ 63" "\<forall>n. room n"
     and "0 \<le> range_size rs" "range_size rs + int m * int (length specs) < 2 ^ 63" "stop (0 # rest)"
  shows "range_loop room (of_nat len) (words rs) (of_int (range_size rs)) lim (spec_texts specs @ 0 # rest) =
    Some (verdict len (length rs + unat lim) (rs @ ranges_of len specs))"
  using assms(1,2,6,7)
proof (induction specs arbitrary: rs lim)
  case Nil
  then show ?case by simp
next
  case (Cons r specs)
  obtain s e where se: "spec_range len r = (s, e)" by (cases "spec_range len r")
  define q where "q = (if specs = [] then 0 # rest else 0x2c # spec_texts specs @ 0 # rest)"
  have tx: "spec_texts (r # specs) @ 0 # rest = spec_text r @ q" by (cases specs) (auto simp: q_def)
  have q: "stop q" by (auto simp: q_def stop_def)
  have r: "spec_ok m r" using Cons.prems by simp
  note w = spec_words_range [OF r assms(3,4), unfolded se fst_conv snd_conv]
  have m: "int m < 2 ^ 63" using assms(4) by simp
  have ss: "sint (of_int s :: off) = s" "sint (of_int e :: off) = e"
    using w m assms(3) by (auto intro!: sint_of_int_small)
  have turn: "range_turn (of_nat len) (spec_text r @ q) = Some (Found (of_int s) (of_int e) q)"
    using range_turn_spec [OF r q] w(1) by simp
  have len: "sint (of_nat len :: off) = int len" using sint_of_int_small [of "int len"] assms(3) m by simp
  have pos: "0 \<le> int m * int (length specs)" by simp
  let ?rs = "rs @ (if s < e then [(s, e)] else [])"
  have size: "range_size ?rs = range_size rs + (if s < e then e - s else 0)" by (simp add: range_size_def)
  have bound: "0 \<le> range_size ?rs" "range_size ?rs + int m * int (length specs) < 2 ^ 63"
    using Cons.prems w(6) unfolding size by (auto simp: algebra_simps)
  have sz: "sint (of_int (range_size ?rs) :: off) = range_size ?rs"
    using bound pos by (intro sint_of_int_small) linarith+
  show ?case
  proof (cases "s < e \<and> lim = 0")
    case True
    then show ?thesis
      unfolding tx by (subst range_loop.simps) (simp add: turn ss assms(5) se ranges_of_Cons verdict_def)
  next
    case False
    let ?lim = "if s < e then lim - 1 else lim"
    have lim: "length ?rs + unat ?lim = length rs + unat lim"
      using False by (auto simp: unat_minus_one word_greater_zero_iff unat_gt_0)
    have step: "range_loop room (of_nat len) (words rs) (of_int (range_size rs)) lim (spec_text r @ q) =
       (if specs = [] then Some (if words ?rs = [] then Not_satisfiable
                            else if int len < range_size ?rs then Range_declined else Range_ok (words ?rs))
        else range_loop room (of_nat len) (words ?rs) (of_int (range_size ?rs)) ?lim (spec_texts specs @ 0 # rest))"
    proof -
      obtain t where t: "t = spec_text r @ q" by simp
      note turn' = turn [folded t]
      have "range_loop room (of_nat len) (words rs) (of_int (range_size rs)) lim t =
        (case q of [] \<Rightarrow> None
           | c # q' \<Rightarrow>
               if c = 0x2c then range_loop room (of_nat len) (words ?rs) (of_int (range_size ?rs)) ?lim q'
               else Some (if words ?rs = [] then Not_satisfiable
                          else if sint (of_nat len :: off) < sint (of_int (range_size ?rs) :: off) then Range_declined
                          else Range_ok (words ?rs)))"
        using False by (cases q; cases "s < e"; subst range_loop.simps) (simp_all add: turn' ss assms(5) range_size_append Let_def)
      then show ?thesis using q by (cases "specs = []") (simp_all add: q_def t sz len del: words_append)
    qed
    show ?thesis
    proof (cases "specs = []")
      case True
      show ?thesis unfolding tx step using True False lim
        by (auto simp: verdict_def ranges_of_Cons se)
    next
      case specs: False
      have "range_loop room (of_nat len) (words ?rs) (of_int (range_size ?rs)) ?lim (spec_texts specs @ 0 # rest) =
        Some (verdict len (length ?rs + unat ?lim) (?rs @ ranges_of len specs))"
        using Cons.prems specs bound by (intro Cons.IH) auto
      then show ?thesis unfolding tx step lim using specs by (simp add: ranges_of_Cons se)
    qed
  qed
qed


lemma ranges_of_bounds:
  assumes "list_all (spec_ok m) specs" "range_size (ranges_of len specs) \<le> int len"
  shows "\<forall>(s, e) \<in> set (ranges_of len specs). 0 \<le> s \<and> s < e \<and> e \<le> int len"
proof -
  have ord: "\<forall>(s, e) \<in> set (ranges_of len specs). s < e" by (auto simp: ranges_of_def)
  have le: "e - s \<le> range_size rs" if "(s, e) \<in> set rs" "\<forall>(s, e) \<in> set rs. s < e" for s e rs
    unfolding range_size_def using that by (intro member_le_sum_list) auto
  have up: "e \<le> int len" and neg: "s < 0 \<Longrightarrow> e = int len" if "(s, e) \<in> set (ranges_of len specs)" for s e
  proof -
    obtain r where "spec_range len r = (s, e)" using \<open>(s, e) \<in> set (ranges_of len specs)\<close> by (auto simp: ranges_of_def)
    then show "e \<le> int len" "s < 0 \<Longrightarrow> e = int len" by (cases r; auto)+
  qed
  show ?thesis
  proof clarify
    fix s e assume se: "(s, e) \<in> set (ranges_of len specs)"
    have "e - s \<le> int len" using le [OF se ord] assms(2) by simp
    then show "0 \<le> s \<and> s < e \<and> e \<le> int len" using se ord up [OF se] neg [OF se] by fastforce
  qed
qed

text \<open>C33: The parser of the \<^verbatim>\<open>Range\<close> header on any list of specifications in their usual forms (\<^verbatim>\<open>a-\<close>, \<^verbatim>\<open>a-b\<close> and
  \<^verbatim>\<open>-n\<close>, with any spaces the code allows), for numbers and a length of the response that are all below a bound \<open>m\<close> for
  which \<open>m\<close> times the number of specifications is below \<open>2 ^ 63\<close> (so that not even the sum of the sizes can
  wrap around; that each number fits is not enough, see \<open>suffix_range_wraps\<close>), and when no allocation
  fails: the ranges that are not empty
  are kept in order, cut at the end of the response; too many of them, or ranges that are longer together
  than the response, are declined, and none at all is not satisfiable.  Every range that is accepted lies
  within the response.\<close>

theorem range_parse_correct:
  assumes "specs \<noteq> []" "list_all (spec_ok m) specs" "len < m" "m * length specs < 2 ^ 63" "\<forall>n. room n"
  shows "ngx_http_range_parse room (of_nat len) lim (str ''bytes='' @ spec_texts specs @ 0 # rest) =
           Some (verdict len (unat lim) (ranges_of len specs)) \<and>
         (\<forall>rs. verdict len (unat lim) (ranges_of len specs) = Range_ok rs \<longrightarrow>
            (\<forall>(s, e) \<in> set rs. 0 \<le> sint s \<and> sint s < sint e \<and> sint e \<le> int len))"
proof -
  have "m \<le> m * length specs" using assms(1) by (cases specs) auto
  then have m: "m < 2 ^ 63" using assms(4) by linarith
  have sp: "int m * int (length specs) < 2 ^ 63" using assms(4) by (metis of_nat_less_iff of_nat_mult of_nat_numeral of_nat_power)
  have d: "drop 6 (str ''bytes='' @ x) = x" for x by (simp add: str_def)
  have "ngx_http_range_parse room (of_nat len) lim (str ''bytes='' @ spec_texts specs @ 0 # rest) =
           Some (verdict len (unat lim) (ranges_of len specs))"
    using range_loop_specs [OF assms(1-3) m assms(5), of "[]" rest lim] sp
    unfolding ngx_http_range_parse_def d by (simp add: stop_def)
  moreover have "0 \<le> sint s \<and> sint s < sint e \<and> sint e \<le> int len"
    if ok: "verdict len (unat lim) (ranges_of len specs) = Range_ok rs" and mem: "(s, e) \<in> set rs" for rs s e
  proof -
    have rs: "rs = words (ranges_of len specs)" "range_size (ranges_of len specs) \<le> int len"
      using ok by (auto simp: verdict_def split: if_splits)
    obtain a b where ab: "(a, b) \<in> set (ranges_of len specs)" "s = of_int a" "e = of_int b"
      using mem rs(1) by (auto simp: words_def)
    have "0 \<le> a \<and> a < b \<and> b \<le> int len" using ranges_of_bounds [OF assms(2) rs(2)] ab(1) by fastforce
    moreover have "int len < 2 ^ 63" using m assms(3) by simp
    ultimately show ?thesis using sint_of_int_small [of a] sint_of_int_small [of b] ab(2,3) by simp
  qed
  ultimately show ?thesis by blast
qed

theorem range_parse_correct_witness:
  "let specs = [From_to 0 (str ''0'') 0 0 (str ''9'') 0, Suffix 1 (str ''5'') 0, From 0 (str ''100'') 0 2] in
   ngx_http_range_parse (\<lambda>_. True) (of_nat 100) 8 (str ''bytes='' @ spec_texts specs @ 0 # []) =
     Some (Range_ok [(0, 10), (95, 100)])"
proof -
  let ?specs = "[From_to 0 (str ''0'') 0 0 (str ''9'') 0, Suffix 1 (str ''5'') 0, From 0 (str ''100'') 0 2]"
  have "ngx_http_range_parse (\<lambda>_. True) (of_nat 100) 8 (str ''bytes='' @ spec_texts ?specs @ 0 # []) =
     Some (verdict 100 (unat (8 :: u64)) (ranges_of 100 ?specs))"
    using range_parse_correct [of ?specs 1000 100 "\<lambda>_. True" 8 "[]"]
    by (simp add: digit_text_def  str_def is_digit_def)
  moreover have "verdict 100 (unat (8 :: u64)) (ranges_of 100 ?specs) = Range_ok [(0, 10), (95, 100)]"
    by (simp add: verdict_def ranges_of_def  str_def)
  ultimately show ?thesis by (simp only: Let_def)
qed

text \<open>Without the bound on the numbers an accepted range can start before the response: a suffix that is
  longer than the response gives a negative start, and a second one makes the sum of the sizes wrap
  around, so that it does not exceed the length of the response.\<close>

lemma suffix_range_wraps:
  "ngx_http_range_parse (\<lambda>_. True) 100 8 (str ''bytes=-200,-9223372036854775608'' @ [0]) =
     Some (Range_ok [(- 100, 100), (- 9223372036854775508, 100)])"
  by code_simp


section \<open>The header filter\<close>

text \<open>
  What the filters read and set of the request.  A header of the client is its bytes from
  \<^verbatim>\<open>value.data\<close> on and \<^verbatim>\<open>value.len\<close>; a date that is not there is \<^verbatim>\<open>-1\<close>.
\<close>

record range_req =
  http_version :: u64
  main_request :: bool
  allow_ranges :: bool
  max_ranges :: u64
  in_range :: "(bytes \<times> nat) option"
  in_if_range :: "(bytes \<times> nat) option"
  status :: nat
  status_line_len :: nat
  content_length_n :: off
  content_length :: bool
  last_modified_time :: u64
  content_type :: bytes
  content_type_len :: nat
  content_type_lowcase :: bool
  charset :: bytes
  out_headers :: "(bytes \<times> bytes) list"

text \<open>\<^verbatim>\<open>ngx_http_range_filter_ctx_t\<close>; a range has its start, its end and the text of its part header.\<close>

record range_ctx =
  ctx_offset :: int
  boundary_header :: bytes
  ctx_ranges :: "(off \<times> off \<times> bytes) list"

text \<open>The calls of the pool allocator; a call gives an address or fails.\<close>

datatype range_site = S_ctx | S_array | S_push nat | S_header | S_value | S_boundary | S_type | S_text nat

type_synonym range_pool = "range_site \<Rightarrow> u64 option"

datatype header_result =
    Next_header range_req "range_ctx option"     \<comment> \<open>the next filter is called\<close>
  | Header_416 range_req
  | Header_error

definition ngx_http_range_singlepart_header ::
  "'d fp_ops \<Rightarrow> range_pool \<Rightarrow> range_req \<Rightarrow> range_ctx \<Rightarrow> header_result option" where
  "ngx_http_range_singlepart_header fp pool r ctx =
     (case (pool S_header, pool S_value, ctx_ranges ctx) of
        (None, _, _) \<Rightarrow> Some Header_error
      | (_, None, _) \<Rightarrow> Some Header_error
      | (_, _, []) \<Rightarrow> None
      | (Some _, Some at, (start, en, _) # _) \<Rightarrow> do {
          v \<leftarrow> ngx_sprintf fp at (str ''bytes %O-%O/%O'' @ [0]) [Va64 start, Va64 (en - 1), Va64 (content_length_n r)];
          Some (Next_header
            (r\<lparr>out_headers := out_headers r @ [(str ''Content-Range'', v)],
               content_length_n := en - start, content_length := False\<rparr>) (Some ctx)) })"

definition ngx_http_range_not_satisfiable ::
  "'d fp_ops \<Rightarrow> range_pool \<Rightarrow> range_req \<Rightarrow> header_result option" where
  "ngx_http_range_not_satisfiable fp pool r =
     (case (pool S_header, pool S_value) of
        (Some _, Some at) \<Rightarrow> do {
          v \<leftarrow> ngx_sprintf fp at (str ''bytes */%O'' @ [0]) [Va64 (content_length_n r)];
          Some (Header_416
            (r\<lparr>status := 416, out_headers := out_headers r @ [(str ''Content-Range'', v)],
               content_length_n := - 1, content_length := False\<rparr>)) }
      | _ \<Rightarrow> Some Header_error)"

text \<open>The header of a part up to its range: the boundary is a number of twenty digits.\<close>

definition boundary_text :: "'d fp_ops \<Rightarrow> u64 \<Rightarrow> u64 \<Rightarrow> bytes \<Rightarrow> bytes \<Rightarrow> bytes option" where
  "boundary_text fp at boundary ctype cset =
     (if cset \<noteq> [] then
        ngx_sprintf fp at
          ([CR, LF] @ str ''--%0muA'' @ [CR, LF] @ str ''Content-Type: %V; charset=%V'' @ [CR, LF] @
           str ''Content-Range: bytes '' @ [0]) [Va64 boundary, VaStr ctype, VaStr cset]
      else if ctype \<noteq> [] then
        ngx_sprintf fp at
          ([CR, LF] @ str ''--%0muA'' @ [CR, LF] @ str ''Content-Type: %V'' @ [CR, LF] @
           str ''Content-Range: bytes '' @ [0]) [Va64 boundary, VaStr ctype]
      else
        ngx_sprintf fp at
          ([CR, LF] @ str ''--%0muA'' @ [CR, LF] @ str ''Content-Range: bytes '' @ [0]) [Va64 boundary])"

text \<open>The loop over the ranges: their texts, and the length of the response so far.  \<open>None\<close> inside is a
  failed allocation.\<close>

fun range_texts ::
  "'d fp_ops \<Rightarrow> range_pool \<Rightarrow> off \<Rightarrow> u64 \<Rightarrow> nat \<Rightarrow> u64 \<Rightarrow> (off \<times> off \<times> bytes) list \<Rightarrow>
     ((off \<times> off \<times> bytes) list \<times> u64) option option" where
  "range_texts fp pool tot hdr i len [] = Some (Some ([], len))"
| "range_texts fp pool tot hdr i len ((start, en, t) # rs) =
     (case pool (S_text i) of
        None \<Rightarrow> Some None
      | Some at \<Rightarrow> do {
          t \<leftarrow> ngx_sprintf fp at (str ''%O-%O/%O'' @ [CR, LF, CR, LF, 0]) [Va64 start, Va64 (en - 1), Va64 tot];
          res \<leftarrow> range_texts fp pool tot hdr (Suc i) (len + (hdr + of_nat (length t) + (en - start))) rs;
          Some (map_option (\<lambda>(rs, len). ((start, en, t) # rs, len)) res) })"

definition ngx_http_range_multipart_header ::
  "'d fp_ops \<Rightarrow> range_pool \<Rightarrow> u64 \<Rightarrow> range_req \<Rightarrow> range_ctx \<Rightarrow> header_result option" where
  "ngx_http_range_multipart_header fp pool boundary r ctx =
     (case pool S_boundary of
        None \<Rightarrow> Some Header_error
      | Some at \<Rightarrow> do {
          b \<leftarrow> boundary_text fp at boundary (content_type r) (charset r);
          (case pool S_type of
             None \<Rightarrow> Some Header_error
           | Some at \<Rightarrow> do {
               ct \<leftarrow> ngx_sprintf fp at (str ''multipart/byteranges; boundary=%0muA'' @ [0]) [Va64 boundary];
               res \<leftarrow> range_texts fp pool (content_length_n r) (of_nat (length b)) 0 (4 + 20 + 4) (ctx_ranges ctx);
               (case res of
                  None \<Rightarrow> Some Header_error
                | Some (rs, len) \<Rightarrow>
                    Some (Next_header
                      (r\<lparr>charset := [], content_type := ct, content_type_len := length ct,
                         content_type_lowcase := False, content_length_n := len, content_length := False\<rparr>)
                      (Some (ctx\<lparr>boundary_header := b, ctx_ranges := rs\<rparr>)))) }) })"

definition accept_ranges :: "range_pool \<Rightarrow> range_req \<Rightarrow> header_result" where
  "accept_ranges pool r =
     (case pool S_header of
        None \<Rightarrow> Header_error
      | Some _ \<Rightarrow> Next_header (r\<lparr>out_headers := out_headers r @ [(str ''Accept-Ranges'', str ''bytes'')]\<rparr>) None)"

definition ngx_http_range_header_filter ::
  "'d fp_ops \<Rightarrow> range_pool \<Rightarrow> u64 \<Rightarrow> range_req \<Rightarrow> header_result option" where
  "ngx_http_range_header_filter fp pool boundary r =
     (if http_version r < 1000 \<or> status r \<noteq> 200 \<or> \<not> main_request r \<or> content_length_n r = - 1
         \<or> \<not> allow_ranges r
      then Some (Next_header r None)
      else if max_ranges r = 0 then Some (Next_header r None)
      else
        case in_range r of
          None \<Rightarrow> Some (accept_ranges pool r)
        | Some (val, vlen) \<Rightarrow>
            if vlen < 7 then Some (accept_ranges pool r)
            else do {
              cmp \<leftarrow> ngx_strncasecmp val (str ''bytes='' @ [0]) 6;
              if cmp \<noteq> 0 then Some (accept_ranges pool r)
              else if (case in_if_range r of
                         None \<Rightarrow> False
                       | Some (d, dlen) \<Rightarrow>
                           last_modified_time r \<noteq> - 1 \<and>
                           (case ngx_http_parse_time d dlen of None \<Rightarrow> - 1 | Some t \<Rightarrow> t) \<noteq> last_modified_time r)
              then Some (accept_ranges pool r)
              else if pool S_ctx = None \<or> pool S_array = None then Some Header_error
              else do {
                rc \<leftarrow> ngx_http_range_parse (\<lambda>n. pool (S_push n) \<noteq> None) (content_length_n r) (max_ranges r) val;
                case rc of
                  Range_ok rs \<Rightarrow>
                    let ctx = \<lparr>ctx_offset = 0, boundary_header = [], ctx_ranges = map (\<lambda>(s, e). (s, e, [])) rs\<rparr>;
                        r = r\<lparr>status := 206, status_line_len := 0\<rparr> in
                    if length rs = 1 then ngx_http_range_singlepart_header fp pool r ctx
                    else ngx_http_range_multipart_header fp pool boundary r ctx
                | Not_satisfiable \<Rightarrow> ngx_http_range_not_satisfiable fp pool r
                | Range_error \<Rightarrow> Some Header_error
                | Range_declined \<Rightarrow> Some (accept_ranges pool r) } })"

section \<open>The texts are printed\<close>

text \<open>The directives of the filters.\<close>

lemma prints_A: "prints fp fmt args \<Longrightarrow> prints fp (0x25 # 0x30 # 0x6d # 0x75 # 0x41 # fmt) (Va64 n # args)"
  by (rule prints_directive) (simp_all add: spf_directive_def spf_conv_def spf_int64_def)

lemma prints_O: "prints fp fmt args \<Longrightarrow> prints fp (0x25 # 0x4f # fmt) (Va64 n # args)"
  by (rule prints_directive) (simp_all add: spf_directive_def spf_conv_def spf_int64_def)

lemma prints_V: "prints fp fmt args \<Longrightarrow> prints fp (0x25 # 0x56 # fmt) (VaStr v # args)"
  by (rule prints_directive) (simp_all add: spf_directive_def spf_conv_def)

lemmas range_formats = prints_A prints_O prints_V prints_end prints_literal

lemma boundary_text_Some: "\<exists>b. boundary_text fp at n ctype cset = Some b"
proof -
  have "prints fp ([CR, LF] @ str ''--%0muA'' @ [CR, LF] @ str ''Content-Type: %V; charset=%V'' @ [CR, LF] @
           str ''Content-Range: bytes '' @ [0]) [Va64 n, VaStr ctype, VaStr cset]"
    "prints fp ([CR, LF] @ str ''--%0muA'' @ [CR, LF] @ str ''Content-Type: %V'' @ [CR, LF] @
           str ''Content-Range: bytes '' @ [0]) [Va64 n, VaStr ctype]"
    "prints fp ([CR, LF] @ str ''--%0muA'' @ [CR, LF] @ str ''Content-Range: bytes '' @ [0]) [Va64 n]"
    by (simp_all add: str_def range_formats)
  then show ?thesis using sprintf_prints unfolding boundary_text_def by metis
qed

lemma range_texts_Some:
  assumes "\<forall>x. pool x \<noteq> None"
  shows "\<exists>res. range_texts fp pool tot hdr i len rs = Some (Some res)"
proof (induction rs arbitrary: i len)
  case (Cons r rs)
  obtain s e t where r: "r = (s, e, t)" by (cases r)
  obtain at where at: "pool (S_text i) = Some at" using assms by blast
  have "prints fp (str ''%O-%O/%O'' @ [CR, LF, CR, LF, 0]) [Va64 s, Va64 (e - 1), Va64 tot]"
    by (simp add: str_def range_formats)
  from sprintf_prints [OF this, of at]
  obtain t' where "ngx_sprintf fp at (str ''%O-%O/%O'' @ [CR, LF, CR, LF, 0]) [Va64 s, Va64 (e - 1), Va64 tot] = Some t'" by blast
  moreover obtain q where "range_texts fp pool tot hdr (Suc i) (len + (hdr + of_nat (length t') + (e - s))) rs = Some (Some q)"
    using Cons.IH by blast
  ultimately show ?case by (cases q) (simp add: r at)
qed simp

lemma multipart_header_Some:
  assumes "\<forall>x. pool x \<noteq> None"
  shows "\<exists>r' ctx'. ngx_http_range_multipart_header fp pool n r ctx = Some (Next_header r' (Some ctx'))"
proof -
  obtain a1 a2 where at: "pool S_boundary = Some a1" "pool S_type = Some a2" using assms by blast
  obtain b where b: "boundary_text fp a1 n (content_type r) (charset r) = Some b" using boundary_text_Some by blast
  have "prints fp (str ''multipart/byteranges; boundary=%0muA'' @ [0]) [Va64 n]" by (simp add: str_def range_formats)
  from sprintf_prints [OF this, of a2] obtain ct
    where ct: "ngx_sprintf fp a2 (str ''multipart/byteranges; boundary=%0muA'' @ [0]) [Va64 n] = Some ct" by blast
  obtain q where "range_texts fp pool (content_length_n r) (of_nat (length b)) 0 (4 + 20 + 4) (ctx_ranges ctx) = Some (Some q)"
    using range_texts_Some [OF assms] by blast
  then show ?thesis
    by (cases q) (simp add: ngx_http_range_multipart_header_def at b ct)
qed

end
