(* ===== verification/HttpRangeBody.thy ===== *)
theory HttpRangeBody
  imports HttpRange
begin

text \<open>
  The body filters of \<^verbatim>\<open>src/http/modules/ngx_http_range_filter_module.c\<close>: the buffers of the response,
  the filter for one range, which cuts the buffers of any sequence of chains, and the filter for
  several, which sends a part for each range out of one buffer.  Offsets of the body are integers.
\<close>

section \<open>The body filters\<close>

text \<open>
  \<^verbatim>\<open>ngx_buf_t\<close>: the fields the filters use.  \<^verbatim>\<open>pos\<close> and \<^verbatim>\<open>last\<close> are addresses, \<^verbatim>\<open>file_pos\<close> and
  \<^verbatim>\<open>file_last\<close> offsets in the file.
\<close>

record ngx_buf =
  buf_pos :: int
  buf_end :: int
  file_pos :: int
  file_last :: int
  temporary :: bool
  memory :: bool
  mmap :: bool
  in_file :: bool
  flush :: bool
  sync :: bool
  last_buf :: bool

definition ngx_buf_in_memory :: "ngx_buf \<Rightarrow> bool" where
  "ngx_buf_in_memory b \<longleftrightarrow> temporary b \<or> memory b \<or> mmap b"

definition ngx_buf_special :: "ngx_buf \<Rightarrow> bool" where
  "ngx_buf_special b \<longleftrightarrow> (flush b \<or> last_buf b \<or> sync b) \<and> \<not> ngx_buf_in_memory b \<and> \<not> in_file b"

definition ngx_buf_size :: "ngx_buf \<Rightarrow> int" where
  "ngx_buf_size b = (if ngx_buf_in_memory b then buf_end b - buf_pos b else file_last b - file_pos b)"

text \<open>What a filter passes on: a buffer of the module itself, with its bytes and \<^verbatim>\<open>last_buf\<close>, or a
  buffer that points into the response.\<close>

datatype out_buf = Text bytes bool | Data ngx_buf

datatype body_result = Body_error | Body_ok | Next_body "out_buf list"

text \<open>
  The loop of the single range.  \<open>out\<close> is the chain so far and \<open>skipped\<close> what was skipped behind its last
  link: the link still points there, until \<^verbatim>\<open>*ll = cl\<close> sets it.
\<close>

definition cut_front :: "int \<Rightarrow> ngx_buf \<Rightarrow> ngx_buf" where
  "cut_front n b =
     (let b = (if in_file b then b\<lparr>file_pos := file_pos b + n\<rparr> else b) in
      if ngx_buf_in_memory b then b\<lparr>buf_pos := buf_pos b + n\<rparr> else b)"

definition cut_back :: "int \<Rightarrow> ngx_buf \<Rightarrow> ngx_buf" where
  "cut_back n b =
     (let b = (if in_file b then b\<lparr>file_last := file_last b - n\<rparr> else b) in
      if ngx_buf_in_memory b then b\<lparr>buf_end := buf_end b - n\<rparr> else b)"

definition skip_buf :: "ngx_buf \<Rightarrow> ngx_buf" where
  "skip_buf b =
     (let b = (if in_file b then b\<lparr>file_pos := file_last b\<rparr> else b) in b\<lparr>buf_pos := buf_end b, sync := True\<rparr>)"

fun single_loop :: "int \<Rightarrow> int \<Rightarrow> int \<Rightarrow> ngx_buf list \<Rightarrow> ngx_buf list \<Rightarrow> ngx_buf list \<Rightarrow> int \<times> ngx_buf list" where
  "single_loop rs re off out skipped [] = (off, if out = [] then [] else out @ skipped)"
| "single_loop rs re off out skipped (b # bs) =
     (let lst = off + ngx_buf_size b in
      if ngx_buf_special b then single_loop rs re lst (out @ [b]) [] bs
      else if re \<le> off \<or> lst \<le> rs then single_loop rs re lst out (skipped @ [skip_buf b]) bs
      else
        let b = (if off < rs then cut_front (rs - off) b else b) in
        if re \<le> lst then (lst, out @ [(cut_back (lst - re) b)\<lparr>last_buf := True\<rparr>])
        else single_loop rs re lst (out @ [b]) [] bs)"

definition ngx_http_range_singlepart_body :: "range_ctx \<Rightarrow> ngx_buf list \<Rightarrow> (range_ctx \<times> body_result) option" where
  "ngx_http_range_singlepart_body ctx bs =
     (case ctx_ranges ctx of
        [] \<Rightarrow> None
      | (s, e, _) # _ \<Rightarrow>
          let (off, out) = single_loop (sint s) (sint e) (ctx_offset ctx) [] [] bs in
          Some (ctx\<lparr>ctx_offset := off\<rparr>, if out = [] then Body_ok else Next_body (map Data out)))"

definition ngx_http_range_test_overlapped :: "range_ctx \<Rightarrow> ngx_buf \<Rightarrow> range_ctx option" where
  "ngx_http_range_test_overlapped ctx b =
     (if ctx_offset ctx \<noteq> 0 then None
      else if \<not> last_buf b \<and>
              (\<exists>(s, e, _) \<in> set (ctx_ranges ctx). sint s < ctx_offset ctx \<or> ctx_offset ctx + ngx_buf_size b < sint e)
      then None
      else Some (ctx\<lparr>ctx_offset := ngx_buf_size b\<rparr>))"

text \<open>The allocations of the body: three buffers and three links for a range, and those of the last
  boundary.\<close>

datatype body_site = B_range nat nat | B_last nat

definition data_buf :: "ngx_buf \<Rightarrow> off \<Rightarrow> off \<Rightarrow> ngx_buf" where
  "data_buf b s e =
     \<lparr>buf_pos = (if ngx_buf_in_memory b then buf_pos b + sint s else 0),
      buf_end = (if ngx_buf_in_memory b then buf_pos b + sint e else 0),
      file_pos = (if in_file b then file_pos b + sint s else 0),
      file_last = (if in_file b then file_pos b + sint e else 0),
      temporary = temporary b, memory = memory b, mmap = mmap b, in_file = in_file b,
      flush = False, sync = False, last_buf = False\<rparr>"

fun multipart_parts ::
  "(body_site \<Rightarrow> bool) \<Rightarrow> bytes \<Rightarrow> ngx_buf \<Rightarrow> nat \<Rightarrow> (off \<times> off \<times> bytes) list \<Rightarrow> out_buf list option" where
  "multipart_parts pool hdr b i [] = Some []"
| "multipart_parts pool hdr b i ((s, e, t) # rs) =
     (if \<forall>k \<in> {0, 1, 2, 3, 4, 5}. pool (B_range i k)
      then map_option (\<lambda>out. Text hdr False # Text t False # Data (data_buf b s e) # out)
             (multipart_parts pool hdr b (Suc i) rs)
      else None)"

text \<open>\<^verbatim>\<open>sizeof(CRLF "--") - 1 + NGX_ATOMIC_T_LEN\<close> is 24.\<close>

definition ngx_http_range_multipart_body ::
  "(body_site \<Rightarrow> bool) \<Rightarrow> range_ctx \<Rightarrow> ngx_buf \<Rightarrow> body_result option" where
  "ngx_http_range_multipart_body pool ctx b =
     (case multipart_parts pool (boundary_header ctx) b 0 (ctx_ranges ctx) of
        None \<Rightarrow> Some Body_error
      | Some out \<Rightarrow>
          if \<not> (\<forall>k \<in> {0, 1, 2}. pool (B_last k)) then Some Body_error
          else if length (boundary_header ctx) < 24 then None
          else Some (Next_body
                 (out @ [Text (take 24 (boundary_header ctx) @ [0x2d, 0x2d, CR, LF]) True])))"

definition ngx_http_range_body_filter ::
  "(body_site \<Rightarrow> bool) \<Rightarrow> range_ctx option \<Rightarrow> ngx_buf list \<Rightarrow> (range_ctx option \<times> body_result) option" where
  "ngx_http_range_body_filter pool c bs =
     (case (bs, c) of
        ([], _) \<Rightarrow> Some (c, Next_body [])
      | (_, None) \<Rightarrow> Some (c, Next_body (map Data bs))
      | (b # _, Some ctx) \<Rightarrow>
          if length (ctx_ranges ctx) = 1
          then map_option (\<lambda>(ctx, out). (Some ctx, out)) (ngx_http_range_singlepart_body ctx bs)
          else if ngx_buf_special b then Some (c, Next_body (map Data bs))
          else case ngx_http_range_test_overlapped ctx b of
                 None \<Rightarrow> Some (c, Body_error)
               | Some ctx \<Rightarrow> map_option (\<lambda>out. (Some ctx, out)) (ngx_http_range_multipart_body pool ctx b))"


section \<open>The single range of a response\<close>

text \<open>The bytes of a buffer: from memory or, when it is in a file only or \<open>m\<close> is off, from the file.\<close>

definition buf_bytes :: "bool \<Rightarrow> (int \<Rightarrow> u8) \<Rightarrow> (int \<Rightarrow> u8) \<Rightarrow> ngx_buf \<Rightarrow> bytes" where
  "buf_bytes m store fil b =
     (if ngx_buf_in_memory b \<and> (m \<or> \<not> in_file b) then map store [buf_pos b..buf_end b - 1]
      else if in_file b then map fil [file_pos b..file_last b - 1]
      else [])"

text \<open>A buffer of a response: its positions are in order, and a buffer that is in memory and in a file
  has the same bytes twice.\<close>

definition buf_ok :: "ngx_buf \<Rightarrow> bool" where
  "buf_ok b \<longleftrightarrow>
     (ngx_buf_in_memory b \<longrightarrow> buf_pos b \<le> buf_end b) \<and>
     (in_file b \<longrightarrow> file_pos b \<le> file_last b) \<and>
     (ngx_buf_in_memory b \<and> in_file b \<longrightarrow> buf_end b - buf_pos b = file_last b - file_pos b) \<and>
     (\<not> ngx_buf_in_memory b \<and> \<not> in_file b \<longrightarrow> file_pos b = file_last b)"

definition chain_bytes :: "bool \<Rightarrow> (int \<Rightarrow> u8) \<Rightarrow> (int \<Rightarrow> u8) \<Rightarrow> ngx_buf list \<Rightarrow> bytes" where
  "chain_bytes m store fil bs = concat (map (buf_bytes m store fil) bs)"

lemma chain_bytes_simps [simp]:
  "chain_bytes m store fil [] = []" "chain_bytes m store fil (b # bs) = buf_bytes m store fil b @ chain_bytes m store fil bs"
  "chain_bytes m store fil (bs @ cs) = chain_bytes m store fil bs @ chain_bytes m store fil cs"
  by (simp_all add: chain_bytes_def)

definition window :: "int \<Rightarrow> int \<Rightarrow> int \<Rightarrow> bytes \<Rightarrow> bytes" where
  "window s e off xs = drop (nat (s - off)) (take (nat (e - off)) xs)"

lemma window_append: "window s e off (xs @ ys) = window s e off xs @ window s e (off + int (length xs)) ys"
proof -
  have "nat (e - off) - length xs = nat (e - (off + int (length xs)))"
    "nat (s - off) - length xs = nat (s - (off + int (length xs)))" by arith+
  then show ?thesis
    unfolding window_def take_append drop_append
    by (cases "nat (e - off) \<le> length xs") (simp_all add: min_def)
qed

lemma window_Nil [simp]: "window s e off [] = []"
  by (simp add: window_def)

lemma window_before: "e \<le> off \<Longrightarrow> window s e off xs = []"
  by (simp add: window_def)

lemma window_behind: "off + int (length xs) \<le> s \<Longrightarrow> window s e off xs = []"
  by (auto simp: window_def)

lemma buf_bytes_length: "buf_ok b \<Longrightarrow> int (length (buf_bytes m store fil b)) = ngx_buf_size b"
  by (auto simp: buf_ok_def buf_bytes_def ngx_buf_size_def)

lemma buf_size_pos: "buf_ok b \<Longrightarrow> 0 \<le> ngx_buf_size b"
  by (auto simp: buf_ok_def ngx_buf_size_def)

lemma special_bytes: "ngx_buf_special b \<Longrightarrow> buf_bytes m store fil b = []"
  by (simp add: ngx_buf_special_def buf_bytes_def)

lemma special_size: "buf_ok b \<Longrightarrow> ngx_buf_special b \<Longrightarrow> ngx_buf_size b = 0"
  by (auto simp: ngx_buf_special_def buf_ok_def ngx_buf_size_def)

lemma skip_bytes: "buf_bytes m store fil (skip_buf b) = []"
  by (auto simp: buf_bytes_def skip_buf_def ngx_buf_in_memory_def)

lemma upto_take: "take n [i..j] = [i..min j (i + int n - 1)]"
proof (induction n arbitrary: i)
  case 0
  then show ?case by simp
next
  case (Suc n)
  then show ?case by (cases "i \<le> j") (auto simp: upto_rec1 min_def)
qed

lemma upto_drop: "drop n [i..j] = [i + int n..j]"
proof (induction n arbitrary: i)
  case 0
  then show ?case by simp
next
  case (Suc n)
  show ?case
  proof (cases "i \<le> j")
    case True
    then show ?thesis using Suc [of "i + 1"] by (simp add: upto_rec1 algebra_simps)
  qed simp
qed

lemma cut_front_bytes:
  "0 \<le> n \<Longrightarrow> buf_bytes m store fil (cut_front n b) = drop (nat n) (buf_bytes m store fil b)"
  by (auto simp: buf_bytes_def cut_front_def ngx_buf_in_memory_def Let_def drop_map upto_drop)

lemma cut_back_upto: "0 \<le> n \<Longrightarrow> n \<le> j - i \<Longrightarrow> take (nat (j - i - n)) [i..j - 1] = [i..j - n - 1]"
  by (cases "n = 0") (simp_all add: upto_take min_def)

lemma cut_in_memory [simp]:
  "ngx_buf_in_memory (cut_back n b) = ngx_buf_in_memory b" "ngx_buf_in_memory (cut_front n b) = ngx_buf_in_memory b"
  by (simp_all add: cut_back_def cut_front_def ngx_buf_in_memory_def Let_def)

lemma cut_back_bytes:
  assumes "0 \<le> n" "n \<le> ngx_buf_size b" "buf_ok b"
  shows "buf_bytes m store fil (cut_back n b) = take (nat (ngx_buf_size b - n)) (buf_bytes m store fil b)"
proof -
  consider "ngx_buf_in_memory b" "m \<or> \<not> in_file b" | "in_file b" "\<not> ngx_buf_in_memory b \<or> \<not> m"
    | "\<not> in_file b" "\<not> ngx_buf_in_memory b" by blast
  then show ?thesis
  proof cases
    case 1
    have "buf_end (cut_back n b) = buf_end b - n" "buf_pos (cut_back n b) = buf_pos b" "in_file (cut_back n b) = in_file b"
      using 1 by (auto simp: cut_back_def Let_def ngx_buf_in_memory_def)
    then show ?thesis using 1 assms cut_back_upto [of n "buf_end b" "buf_pos b"]
      by (simp add: buf_bytes_def ngx_buf_size_def take_map)
  next
    case 2
    have "file_last (cut_back n b) = file_last b - n" "file_pos (cut_back n b) = file_pos b" "in_file (cut_back n b)"
      using 2 by (simp_all add: cut_back_def Let_def ngx_buf_in_memory_def)
    moreover have "ngx_buf_size b = file_last b - file_pos b"
      using assms(3) 2 by (auto simp: ngx_buf_size_def buf_ok_def)
    ultimately show ?thesis using 2 assms(1,2) cut_back_upto [of n "file_last b" "file_pos b"]
      by (auto simp: buf_bytes_def take_map)
  next
    case 3
    then show ?thesis by (simp add: buf_bytes_def cut_back_def Let_def)
  qed
qed

lemma cut_front_ok:
  assumes "0 \<le> n" "n < ngx_buf_size b" "buf_ok b"
  shows "buf_ok (cut_front n b)" "ngx_buf_size (cut_front n b) = ngx_buf_size b - n"
  using assms
  by (cases "ngx_buf_in_memory b"; cases "in_file b";
      simp add: buf_ok_def cut_front_def ngx_buf_in_memory_def ngx_buf_size_def)+

lemma last_buf_bytes [simp]: "buf_bytes m store fil (b\<lparr>last_buf := l\<rparr>) = buf_bytes m store fil b"
  by (simp add: buf_bytes_def ngx_buf_in_memory_def)


lemma window_middle:
  assumes "s < e" "buf_ok b" "\<not> (e \<le> off \<or> off + ngx_buf_size b \<le> s)"
  defines "b1 \<equiv> (if off < s then cut_front (s - off) b else b)"
  shows "e \<le> off + ngx_buf_size b \<Longrightarrow>
      buf_bytes m store fil (cut_back (off + ngx_buf_size b - e) b1) = window s e off (buf_bytes m store fil b)"
    and "off + ngx_buf_size b < e \<Longrightarrow> buf_bytes m store fil b1 = window s e off (buf_bytes m store fil b)"
proof -
  let ?B = "buf_bytes m store fil"
  have len: "int (length (?B b)) = ngx_buf_size b" by (rule buf_bytes_length [OF assms(2)])
  have b1: "?B b1 = drop (nat (s - off)) (?B b)" "buf_ok b1" "ngx_buf_size b1 = ngx_buf_size b - max 0 (s - off)"
    using assms(2,3) cut_front_bytes [of "s - off" m store fil b] cut_front_ok [of "s - off" b] by (auto simp: b1_def)
  show "?B (cut_back (off + ngx_buf_size b - e) b1) = window s e off (?B b)" if e: "e \<le> off + ngx_buf_size b"
  proof -
    have "nat (ngx_buf_size b1 - (off + ngx_buf_size b - e)) = nat (e - off) - nat (s - off)"
      using assms(1,3) by (simp add: b1(3) max_def) arith
    then show ?thesis
      using cut_back_bytes [of "off + ngx_buf_size b - e" b1 m store fil] b1 e assms(1,3)
      by (simp add: window_def drop_take max_def split: if_splits)
  qed
  show "?B b1 = window s e off (?B b)" if "off + ngx_buf_size b < e"
    using len that b1(1) by (simp add: window_def)
qed

lemma single_loop_window:
  assumes "single_loop s e off out skipped bs = (off', out')" "s < e" "list_all buf_ok bs"
    "chain_bytes m store fil skipped = []"
  shows "chain_bytes m store fil out' =
           chain_bytes m store fil out @ window s e off (chain_bytes m store fil bs) \<and>
         (off' = off + int (length (chain_bytes m store fil bs)) \<or>
          e \<le> off' \<and> e \<le> off + int (length (chain_bytes m store fil bs)))"
  using assms
proof (induction s e off out skipped bs arbitrary: off' out' rule: single_loop.induct)
  case (1 rs re off out skipped)
  then show ?case by (auto split: if_splits)
next
  case (2 s e off out skipped b bs)
  let ?B = "buf_bytes m store fil" and ?C = "chain_bytes m store fil"
  let ?lst = "off + ngx_buf_size b"
  have b: "buf_ok b" and bs: "list_all buf_ok bs"
    using "2.prems"(3) by simp_all
  have len: "int (length (?B b)) = ngx_buf_size b" by (rule buf_bytes_length [OF b])
  have win: "window s e off (?C (b # bs)) = window s e off (?B b) @ window s e ?lst (?C bs)"
    using len by (simp add: window_append)
  have tot: "off + int (length (?C (b # bs))) = ?lst + int (length (?C bs))"
    using len by simp
  consider (special) "ngx_buf_special b" | (skip) "\<not> ngx_buf_special b" "e \<le> off \<or> ?lst \<le> s"
    | (stop) "\<not> ngx_buf_special b" "\<not> (e \<le> off \<or> ?lst \<le> s)" "e \<le> ?lst"
    | (link) "\<not> ngx_buf_special b" "\<not> (e \<le> off \<or> ?lst \<le> s)" "\<not> e \<le> ?lst" by blast
  then show ?case
  proof cases
    case special
    have r: "single_loop s e ?lst (out @ [b]) [] bs = (off', out')" using special "2.prems"(1) by (simp add: Let_def)
    show ?thesis unfolding win tot using "2.IH"(1) [OF refl special r "2.prems"(2) bs] special_bytes [OF special, of m store fil]
      by (simp add: Let_def)
  next
    case skip
    have r: "single_loop s e ?lst out (skipped @ [skip_buf b]) bs = (off', out')" using skip "2.prems"(1) by (simp add: Let_def)
    have "window s e off (?B b) = []" using skip(2) len window_before window_behind by metis
    then show ?thesis unfolding win tot using "2.IH"(2) [OF refl skip r "2.prems"(2) bs] "2.prems"(4)
      by (simp add: Let_def skip_bytes)
  next
    case stop
    have out': "out' = out @ [(cut_back (?lst - e) (if off < s then cut_front (s - off) b else b))\<lparr>last_buf := True\<rparr>]"
      "off' = ?lst" using stop "2.prems"(1) by (auto simp: Let_def split: if_splits)
    have "window s e ?lst (?C bs) = []" using stop(3) by (rule window_before)
    then show ?thesis unfolding win tot using out' window_middle(1) [OF "2.prems"(2) b stop(2,3), of m store fil] stop(3)
      by (simp add: Let_def)
  next
    case link
    let ?b = "if off < s then cut_front (s - off) b else b"
    have r: "single_loop s e ?lst (out @ [?b]) [] bs = (off', out')"
      using link "2.prems"(1) by (simp add: Let_def split: if_splits)
    show ?thesis unfolding win tot
      using "2.IH"(3) [OF refl link(1,2) refl link(3) r "2.prems"(2) bs] window_middle(2) [OF "2.prems"(2) b link(2), of m store fil] link(3)
      by (simp add: Let_def)
  qed
qed


lemma single_loop_last:
  assumes "single_loop s e off out skipped bs = (off', out')" "s < e" "list_all buf_ok bs" "off < e"
    "e \<le> off + int (length (chain_bytes m store fil bs))"
  shows "\<exists>o' b. out' = o' @ [b] \<and> last_buf b"
  using assms
proof (induction s e off out skipped bs arbitrary: off' out' rule: single_loop.induct)
  case (1 rs re off out skipped)
  then show ?case by simp
next
  case (2 s e off out skipped b bs)
  let ?lst = "off + ngx_buf_size b"
  have b: "buf_ok b" and bs: "list_all buf_ok bs" using "2.prems"(3) by simp_all
  have len: "e \<le> ?lst + int (length (chain_bytes m store fil bs))"
    using "2.prems"(5) buf_bytes_length [OF b, of m store fil] by simp
  consider (special) "ngx_buf_special b" | (skip) "\<not> ngx_buf_special b" "e \<le> off \<or> ?lst \<le> s"
    | (stop) "\<not> ngx_buf_special b" "\<not> (e \<le> off \<or> ?lst \<le> s)" "e \<le> ?lst"
    | (link) "\<not> ngx_buf_special b" "\<not> (e \<le> off \<or> ?lst \<le> s)" "\<not> e \<le> ?lst" by blast
  then show ?case
  proof cases
    case special
    have "single_loop s e ?lst (out @ [b]) [] bs = (off', out')" using special "2.prems"(1) by (simp add: Let_def)
    from "2.IH"(1) [OF refl special this "2.prems"(2) bs _ len] show ?thesis
      using special_size [OF b special] "2.prems"(4) by simp
  next
    case skip
    have "single_loop s e ?lst out (skipped @ [skip_buf b]) bs = (off', out')" using skip "2.prems"(1) by (simp add: Let_def)
    from "2.IH"(2) [OF refl skip this "2.prems"(2) bs _ len] show ?thesis
      using skip(2) "2.prems"(2,4) by simp
  next
    case stop
    then show ?thesis using "2.prems"(1) by (auto simp: Let_def split: if_splits)
  next
    case link
    let ?b = "if off < s then cut_front (s - off) b else b"
    have "single_loop s e ?lst (out @ [?b]) [] bs = (off', out')"
      using link "2.prems"(1) by (simp add: Let_def split: if_splits)
    from "2.IH"(3) [OF refl link(1,2) refl link(3) this "2.prems"(2) bs _ len] show ?thesis using link(3) by simp
  qed
qed

fun body_calls ::
  "(body_site \<Rightarrow> bool) \<Rightarrow> range_ctx option \<Rightarrow> ngx_buf list list \<Rightarrow> body_result list option" where
  "body_calls pool c [] = Some []"
| "body_calls pool c (bs # bodies) = do {
     (c, r) \<leftarrow> ngx_http_range_body_filter pool c bs;
     rs \<leftarrow> body_calls pool c bodies;
     Some (r # rs) }"

fun out_bytes :: "bool \<Rightarrow> (int \<Rightarrow> u8) \<Rightarrow> (int \<Rightarrow> u8) \<Rightarrow> out_buf \<Rightarrow> bytes" where
  "out_bytes m store fil (Text t l) = t"
| "out_bytes m store fil (Data b) = buf_bytes m store fil b"

fun sent_bytes :: "bool \<Rightarrow> (int \<Rightarrow> u8) \<Rightarrow> (int \<Rightarrow> u8) \<Rightarrow> body_result \<Rightarrow> bytes" where
  "sent_bytes m store fil (Next_body out) = concat (map (out_bytes m store fil) out)"
| "sent_bytes m store fil r = []"

definition has_end :: "body_result list \<Rightarrow> bool" where
  "has_end rs \<longleftrightarrow> (\<exists>out b. Next_body (out @ [Data b]) \<in> set rs \<and> last_buf b)"

lemma has_end_Cons: "has_end (r # rs) \<longleftrightarrow> (\<exists>out b. r = Next_body (out @ [Data b]) \<and> last_buf b) \<or> has_end rs"
  by (auto simp: has_end_def)

lemma data_bytes: "concat (map (out_bytes m store fil) (map Data bs)) = chain_bytes m store fil bs"
  by (induction bs) auto

lemma single_calls_window:
  assumes "sint s < sint e" "\<forall>bs \<in> set bodies. list_all buf_ok bs"
  shows "\<exists>rs. body_calls pool (Some \<lparr>ctx_offset = off, boundary_header = h, ctx_ranges = [(s, e, t)]\<rparr>) bodies = Some rs \<and>
    concat (map (sent_bytes m store fil) rs) =
      window (sint s) (sint e) off (chain_bytes m store fil (concat bodies)) \<and>
    (off < sint e \<and> sint e \<le> off + int (length (chain_bytes m store fil (concat bodies))) \<longrightarrow> has_end rs)"
  using assms(2)
proof (induction bodies arbitrary: off)
  case Nil
  then show ?case by auto
next
  case (Cons bs bodies)
  let ?C = "chain_bytes m store fil"
  let ?ctx = "\<lambda>off. Some \<lparr>ctx_offset = off, boundary_header = h, ctx_ranges = [(s, e, t)]\<rparr>"
  obtain off' out where loop: "single_loop (sint s) (sint e) off [] [] bs = (off', out)"
    by (cases "single_loop (sint s) (sint e) off [] [] bs")
  have ok: "list_all buf_ok bs" using Cons.prems by simp
  obtain r where r: "ngx_http_range_body_filter pool (?ctx off) bs = Some (?ctx off', r)"
    "sent_bytes m store fil r = ?C out" "out \<noteq> [] \<longrightarrow> r = Next_body (map Data out)"
  proof (cases bs)
    case Nil
    then show ?thesis using that loop by (simp add: ngx_http_range_body_filter_def)
  next
    case Cons
    let ?r = "if out = [] then Body_ok else Next_body (map Data out)"
    show ?thesis
    proof (rule that [of ?r])
      show "ngx_http_range_body_filter pool (?ctx off) bs = Some (?ctx off', ?r)"
        using Cons loop
        by (simp add: ngx_http_range_body_filter_def ngx_http_range_singlepart_body_def del: single_loop.simps)
      show "sent_bytes m store fil ?r = ?C out" "out \<noteq> [] \<longrightarrow> ?r = Next_body (map Data out)"
        by (simp_all add: data_bytes del: map_map)
    qed
  qed
  have win: "?C out = window (sint s) (sint e) off (?C bs)"
    and off': "off' = off + int (length (?C bs)) \<or> sint e \<le> off' \<and> sint e \<le> off + int (length (?C bs))"
    using single_loop_window [OF loop assms(1) ok, of m store fil] by auto
  obtain rs where rs: "body_calls pool (?ctx off') bodies = Some rs"
    "concat (map (sent_bytes m store fil) rs) = window (sint s) (sint e) off' (?C (concat bodies))"
    "off' < sint e \<and> sint e \<le> off' + int (length (?C (concat bodies))) \<longrightarrow> has_end rs"
    using Cons.IH [of off'] Cons.prems by auto
  have same: "window (sint s) (sint e) off' xs = window (sint s) (sint e) (off + int (length (?C bs))) xs" for xs
    using off' window_before by metis
  have fin: "has_end (r # rs)" if lo: "off < sint e" and hi: "sint e \<le> off + int (length (?C bs)) + int (length (?C (concat bodies)))"
  proof (cases "sint e \<le> off + int (length (?C bs))")
    case True
    then obtain o' b where "out = o' @ [b]" "last_buf b"
      using single_loop_last [OF loop assms(1) ok lo] by blast
    then show ?thesis using r(3) by (simp add: has_end_Cons)
  next
    case False
    then show ?thesis using rs(3) off' hi by (auto simp: has_end_Cons)
  qed
  have "body_calls pool (?ctx off) (bs # bodies) = Some (r # rs)" using r(1) rs(1) by simp
  moreover have "concat (map (sent_bytes m store fil) (r # rs)) = window (sint s) (sint e) off (?C (concat (bs # bodies)))"
    using r(2) rs(2) win by (simp add: window_append same)
  ultimately show ?case using fin by (intro exI [of _ "r # rs"]) (simp add: algebra_simps)
qed

text \<open>C34: One range \<open>[s, e)\<close> with \<open>0 \<le> s < e\<close>: whatever chains the body filter is called with, one after the other,
  however the response is cut into buffers (in memory, in a file, in both, with special buffers between
  them), what it passes on in all the calls together is exactly the bytes from \<open>s\<close> to \<open>e\<close> of the response,
  read from memory or from the file; and when the response reaches \<open>e\<close>, some call ends its chain with a
  buffer that is marked as the last.\<close>

theorem single_range_body:
  assumes "0 \<le> sint s" "sint s < sint e" "\<forall>bs \<in> set bodies. list_all buf_ok bs"
  shows "\<exists>rs. body_calls pool (Some \<lparr>ctx_offset = 0, boundary_header = h, ctx_ranges = [(s, e, t)]\<rparr>) bodies = Some rs \<and>
    concat (map (sent_bytes m store fil) rs) =
      drop (nat (sint s)) (take (nat (sint e)) (chain_bytes m store fil (concat bodies))) \<and>
    (sint e \<le> int (length (chain_bytes m store fil (concat bodies))) \<longrightarrow> has_end rs)"
  using single_calls_window [OF assms(2,3), of pool 0 h t m store fil] assms(1,2)
  by (simp add: window_def)


section \<open>Several ranges\<close>

lemma boundary_head:
  assumes "24 \<le> room"
    "ngx_vslprintf fp room (CR # LF # 0x2d # 0x2d # 0x25 # 0x30 # 0x6d # 0x75 # 0x41 # fmt) (Va64 n # args) = Some b"
  shows "24 \<le> length b"
proof -
  have d: "spf_directive fp r (0x30 # 0x6d # 0x75 # 0x41 # fmt) (Va64 n # args) =
      Some (ngx_sprintf_num r n 0x30 0 20, fmt, args)" for r
    by (simp add: spf_directive_def spf_conv_def spf_int64_def spf_number_def)
  have "20 \<le> length (ngx_sprintf_num r n 0x30 0 20)" if "20 \<le> r" for r
    using that by (auto simp: ngx_sprintf_num_def Let_def dec_digits_branches spf_pad_eq)
  then show ?thesis
    using assms by (auto simp: d intro!: trans_le_add1)
qed

lemma boundary_text_length:
  assumes "boundary_text fp at n ctype cset = Some b" "unat at < 2 ^ 63"
  shows "24 \<le> length b"
proof -
  have room: "24 \<le> unat (- 1 :: u64) - unat at" using assms(2) by (simp add: unsigned_minus_1_eq_mask mask_eq_exp_minus_1)
  have fmt: "[CR, LF] @ str ''--%0muA'' @ q = CR # LF # 0x2d # 0x2d # 0x25 # 0x30 # 0x6d # 0x75 # 0x41 # q" for q
    by (simp add: str_def)
  show ?thesis
    using assms(1) boundary_head [OF room] unfolding boundary_text_def ngx_sprintf_def fmt by (simp split: if_splits)
qed

text \<open>The sizes of the parts, as words, and what the parts send.\<close>

fun parts_size :: "nat \<Rightarrow> (off \<times> off \<times> bytes) list \<Rightarrow> off" where
  "parts_size hdr [] = 0"
| "parts_size hdr ((s, e, t) # rs) = of_nat hdr + of_nat (length t) + (e - s) + parts_size hdr rs"

definition part_bytes :: "bytes \<Rightarrow> bytes \<Rightarrow> off \<times> off \<times> bytes \<Rightarrow> bytes" where
  "part_bytes hdr body = (\<lambda>(s, e, t). hdr @ t @ drop (nat (sint s)) (take (nat (sint e)) body))"

definition same_ranges :: "(off \<times> off \<times> bytes) list \<Rightarrow> (off \<times> off \<times> bytes) list \<Rightarrow> bool" where
  "same_ranges rs qs \<longleftrightarrow> map (\<lambda>(s, e, t). (s, e)) rs = map (\<lambda>(s, e, t). (s, e)) qs"

lemma range_texts_size:
  assumes "range_texts fp pool tot (of_nat hdr) i len rs = Some (Some (rs', len'))"
  shows "same_ranges rs' rs \<and> len' = len + parts_size hdr rs'"
  using assms
proof (induction rs arbitrary: i len rs' len')
  case Nil
  then show ?case by (simp add: same_ranges_def)
next
  case (Cons r rs)
  obtain s e t where r: "r = (s, e, t)" by (cases r)
  obtain at t' rs1 where *: "pool (S_text i) = Some at"
    "range_texts fp pool tot (of_nat hdr) (Suc i) (len + (of_nat hdr + of_nat (length t') + (e - s))) rs = Some (Some (rs1, len'))"
    "rs' = (s, e, t') # rs1"
    using Cons.prems by (auto simp: r split: option.splits bind_splits)
  show ?case using Cons.IH [OF *(2)] *(3) by (simp add: r same_ranges_def algebra_simps)
qed

lemma data_buf_bytes:
  assumes "buf_ok b" "0 \<le> sint s" "sint s \<le> sint e" "sint e \<le> ngx_buf_size b"
  shows "buf_bytes m store fil (data_buf b s e) = drop (nat (sint s)) (take (nat (sint e)) (buf_bytes m store fil b))"
proof -
  have cut: "drop (nat (sint s)) (take (nat (sint e)) [i..j - 1]) = [i + sint s..i + sint e - 1]" if "sint e \<le> j - i" for i j
    using that assms(2,3) by (simp add: upto_take upto_drop min_absorb2)
  have mem: "ngx_buf_in_memory (data_buf b s e) = ngx_buf_in_memory b" "in_file (data_buf b s e) = in_file b"
    by (simp_all add: data_buf_def ngx_buf_in_memory_def)
  have fields: "ngx_buf_in_memory b \<Longrightarrow> buf_pos (data_buf b s e) = buf_pos b + sint s"
    "ngx_buf_in_memory b \<Longrightarrow> buf_end (data_buf b s e) = buf_pos b + sint e"
    "in_file b \<Longrightarrow> file_pos (data_buf b s e) = file_pos b + sint s"
    "in_file b \<Longrightarrow> file_last (data_buf b s e) = file_pos b + sint e"
    by (simp_all add: data_buf_def)
  have size: "ngx_buf_in_memory b \<Longrightarrow> sint e \<le> buf_end b - buf_pos b" "in_file b \<Longrightarrow> sint e \<le> file_last b - file_pos b"
    using assms(1,4) by (auto simp: ngx_buf_size_def buf_ok_def split: if_splits)
  show ?thesis
    using cut size unfolding buf_bytes_def mem by (simp add: fields take_map drop_map)
qed

lemma multipart_parts_bytes:
  assumes "\<forall>x. pool x" "buf_ok b" "\<forall>(s, e, t) \<in> set rs. 0 \<le> sint s \<and> sint s < sint e \<and> sint e \<le> ngx_buf_size b"
  shows "\<exists>out. multipart_parts pool hdr b i rs = Some out \<and>
    concat (map (out_bytes m store fil) out) = concat (map (part_bytes hdr (buf_bytes m store fil b)) rs) \<and>
    of_nat (length (concat (map (out_bytes m store fil) out))) = parts_size (length hdr) rs"
  using assms(3)
proof (induction rs arbitrary: i)
  case Nil
  then show ?case by simp
next
  case (Cons r rs)
  obtain s e t where r: "r = (s, e, t)" by (cases r)
  have se: "0 \<le> sint s" "sint s < sint e" "sint e \<le> ngx_buf_size b" using Cons.prems by (simp_all add: r)
  obtain out where out: "multipart_parts pool hdr b (Suc i) rs = Some out"
    "concat (map (out_bytes m store fil) out) = concat (map (part_bytes hdr (buf_bytes m store fil b)) rs)"
    "of_nat (length (concat (map (out_bytes m store fil) out))) = parts_size (length hdr) rs"
    using Cons.IH [of "Suc i"] Cons.prems by auto
  let ?d = "buf_bytes m store fil (data_buf b s e)"
  have d: "?d = drop (nat (sint s)) (take (nat (sint e)) (buf_bytes m store fil b))"
    using se by (intro data_buf_bytes assms(2)) auto
  have "int (length ?d) = sint e - sint s"
    using se buf_bytes_length [OF assms(2), of m store fil] by (simp add: d)
  then have "(of_int (int (length ?d)) :: off) = e - s" by (simp only: of_int_diff of_int_sint scast_id)
  then have len: "(of_nat (length ?d) :: off) = e - s" by simp
  let ?out = "Text hdr False # Text t False # Data (data_buf b s e) # out"
  have "multipart_parts pool hdr b i (r # rs) = Some ?out" using out(1) assms(1) by (simp add: r)
  moreover have "concat (map (out_bytes m store fil) ?out) = concat (map (part_bytes hdr (buf_bytes m store fil b)) (r # rs))"
    using out(2) by (simp add: r part_bytes_def d)
  moreover have "of_nat (length (concat (map (out_bytes m store fil) ?out))) = parts_size (length hdr) (r # rs)"
    using out(3) len by (simp add: r)
  ultimately show ?case by blast
qed

lemma same_ranges_bounds:
  assumes "same_ranges rs qs" "\<forall>(s, e, t) \<in> set qs. P s e"
  shows "length rs = length qs" "\<forall>(s, e, t) \<in> set rs. P s e"
proof -
  show "length rs = length qs" using assms(1) unfolding same_ranges_def by (metis length_map)
  have "\<forall>(s, e) \<in> set (map (\<lambda>(s, e, t). (s, e)) rs). P s e"
    using assms unfolding same_ranges_def by auto
  then show "\<forall>(s, e, t) \<in> set rs. P s e" by fastforce
qed

text \<open>C35: The header filter and the body filter together, for several ranges within a response of one buffer:
  the body filter sends for each range, in order, the part header, the text of the range and exactly its
  bytes, then the last boundary; and the \<^verbatim>\<open>Content-Length\<close> that the header filter has set is the number
  of bytes that the body filter sends.\<close>

theorem multipart_response:
  assumes "ngx_http_range_multipart_header fp pool boundary r ctx = Some (Next_header r' (Some ctx'))"
    "\<And>x at. pool x = Some at \<Longrightarrow> unat at < 2 ^ 63" "\<forall>x. bpool x"
    "ctx_offset ctx = 0" "length (ctx_ranges ctx) \<noteq> 1"
    "\<forall>(s, e, t) \<in> set (ctx_ranges ctx). 0 \<le> sint s \<and> sint s < sint e \<and> sint e \<le> ngx_buf_size b"
    "buf_ok b" "\<not> ngx_buf_special b"
  shows "\<exists>ctx'' out. ngx_http_range_body_filter bpool (Some ctx') [b] = Some (Some ctx'', Next_body out) \<and>
    same_ranges (ctx_ranges ctx') (ctx_ranges ctx) \<and>
    concat (map (out_bytes m store fil) out) =
      concat (map (part_bytes (boundary_header ctx') (buf_bytes m store fil b)) (ctx_ranges ctx')) @
      take 24 (boundary_header ctx') @ [0x2d, 0x2d, CR, LF] \<and>
    content_length_n r' = of_nat (length (concat (map (out_bytes m store fil) out)))"
proof -
  obtain at hdr ct rs len where *: "pool S_boundary = Some at"
    "boundary_text fp at boundary (content_type r) (charset r) = Some hdr"
    "range_texts fp pool (content_length_n r) (of_nat (length hdr)) 0 (4 + 20 + 4) (ctx_ranges ctx) = Some (Some (rs, len))"
    "ctx' = ctx\<lparr>boundary_header := hdr, ctx_ranges := rs\<rparr>" "content_length_n r' = len"
    using assms(1) by (auto simp: ngx_http_range_multipart_header_def split: option.splits bind_splits)
  have hdr: "24 \<le> length hdr" using boundary_text_length [OF *(2) assms(2) [OF *(1)]] .
  have same: "same_ranges rs (ctx_ranges ctx)" and len: "len = 28 + parts_size (length hdr) rs"
    using range_texts_size [OF *(3)] by auto
  note rs = same_ranges_bounds [OF same assms(6)]
  obtain out where out: "multipart_parts bpool hdr b 0 rs = Some out"
    "concat (map (out_bytes m store fil) out) = concat (map (part_bytes hdr (buf_bytes m store fil b)) rs)"
    "of_nat (length (concat (map (out_bytes m store fil) out))) = parts_size (length hdr) rs"
    using multipart_parts_bytes [OF assms(3,7) rs(2), of hdr 0 m store fil] by blast
  let ?out = "out @ [Text (take 24 hdr @ [0x2d, 0x2d, CR, LF]) True]"
  have over: "ngx_http_range_test_overlapped ctx' b = Some (ctx'\<lparr>ctx_offset := ngx_buf_size b\<rparr>)"
    using rs(2) assms(4) by (auto simp: ngx_http_range_test_overlapped_def *(4))
  have "ngx_http_range_body_filter bpool (Some ctx') [b] = Some (Some (ctx'\<lparr>ctx_offset := ngx_buf_size b\<rparr>), Next_body ?out)"
    using over rs(1) assms(3,5,8) out(1) hdr
    by (simp add: ngx_http_range_body_filter_def ngx_http_range_multipart_body_def *(4))
  moreover have "concat (map (out_bytes m store fil) ?out) =
      concat (map (part_bytes hdr (buf_bytes m store fil b)) rs) @ take 24 hdr @ [0x2d, 0x2d, CR, LF]"
    using out(2) by simp
  moreover have "content_length_n r' = of_nat (length (concat (map (out_bytes m store fil) ?out)))"
    using out(3) hdr by (simp add: *(5) len add.commute)
  ultimately show ?thesis using same by (simp add: *(4))
qed

definition wit_fp :: "unit fp_ops" where
  "wit_fp = \<lparr>fp_negative = (\<lambda>_. False), fp_minus = (\<lambda>d. d), fp_trunc = (\<lambda>_. 0), fp_scaled = (\<lambda>_ _ _. 0)\<rparr>"

definition wit_req :: range_req where
  "wit_req = \<lparr>http_version = 1001, main_request = True, allow_ranges = True, max_ranges = 8,
     in_range = None, in_if_range = None, status = 206, status_line_len = 0, content_length_n = 10,
     content_length = True, last_modified_time = 0, content_type = str ''a'', content_type_len = 1,
     content_type_lowcase = False, charset = [], out_headers = []\<rparr>"

definition wit_buf :: ngx_buf where
  "wit_buf = \<lparr>buf_pos = 5, buf_end = 15, file_pos = 0, file_last = 0, temporary = True, memory = False,
     mmap = False, in_file = False, flush = False, sync = False, last_buf = True\<rparr>"

theorem single_range_body_witness:
  "\<exists>rs. body_calls (\<lambda>_. True)
     (Some \<lparr>ctx_offset = 0, boundary_header = [], ctx_ranges = [(2, 12, [])]\<rparr>) [[wit_buf], [wit_buf]] = Some rs \<and>
   concat (map (sent_bytes True (\<lambda>a. of_int a) (\<lambda>_. 0)) rs) = [7, 8, 9, 10, 11, 12, 13, 14, 5, 6] \<and> has_end rs"
proof -
  have "chain_bytes True (\<lambda>a. of_int a) (\<lambda>_. 0) (concat [[wit_buf], [wit_buf]]) =
      [5, 6, 7, 8, 9, 10, 11, 12, 13, 14, 5, 6, 7, 8, 9, 10, 11, 12, 13, 14]"
    by (simp add: buf_bytes_def wit_buf_def ngx_buf_in_memory_def upto_rec1)
  then show ?thesis
    using single_range_body [of 2 12 "[[wit_buf], [wit_buf]]" "\<lambda>_. True" "[]" "[]" True "\<lambda>a. of_int a" "\<lambda>_. 0"]
    by (simp add: buf_ok_def wit_buf_def ngx_buf_in_memory_def)
qed

theorem multipart_response_witness:
  "\<exists>r' ctx' ctx'' out.
     ngx_http_range_multipart_header wit_fp (\<lambda>_. Some 0x1000) 7 wit_req
       \<lparr>ctx_offset = 0, boundary_header = [], ctx_ranges = [(0, 2, []), (5, 10, [])]\<rparr> = Some (Next_header r' (Some ctx')) \<and>
     ngx_http_range_body_filter (\<lambda>_. True) (Some ctx') [wit_buf] = Some (Some ctx'', Next_body out) \<and>
     content_length_n r' = of_nat (length (concat (map (out_bytes True (\<lambda>a. of_int a) (\<lambda>_. 0)) out)))"
proof -
  obtain r' ctx' where *: "ngx_http_range_multipart_header wit_fp (\<lambda>_. Some 0x1000) 7 wit_req
       \<lparr>ctx_offset = 0, boundary_header = [], ctx_ranges = [(0, 2, []), (5, 10, [])]\<rparr> = Some (Next_header r' (Some ctx'))"
    using multipart_header_Some [of "\<lambda>_. Some 0x1000" wit_fp 7 wit_req
        "\<lparr>ctx_offset = 0, boundary_header = [], ctx_ranges = [(0, 2, []), (5, 10, [])]\<rparr>"] by auto
  show ?thesis
    using * multipart_response [OF *, of "\<lambda>_. True" wit_buf True "\<lambda>a. of_int a" "\<lambda>_. 0"]
    by (auto simp: buf_ok_def wit_buf_def ngx_buf_in_memory_def ngx_buf_special_def ngx_buf_size_def)
qed

text \<open>
  The ranges of \<open>suffix_range_wraps\<close> in a body of one buffer that is the last: the part for the first of
  them starts a hundred bytes before the buffer, and the test for overlapping lets it pass.
\<close>

lemma range_before_buffer:
  "\<exists>ctx'' out.
     ngx_http_range_body_filter (\<lambda>_. True)
       (Some \<lparr>ctx_offset = 0, boundary_header = replicate 24 0, ctx_ranges = [(- 100, 100, []), (- 9223372036854775508, 100, [])]\<rparr>)
       [wit_buf\<lparr>buf_pos := 1000, buf_end := 1100\<rparr>] = Some (Some ctx'', Next_body out) \<and>
     (case out ! 2 of Data d \<Rightarrow> buf_pos d = 900 \<and> buf_end d = 1100 | Text _ _ \<Rightarrow> False)"
  by (simp add: ngx_http_range_body_filter_def ngx_buf_special_def ngx_buf_in_memory_def wit_buf_def
      ngx_http_range_test_overlapped_def ngx_http_range_multipart_body_def data_buf_def ngx_buf_size_def)

end
