(* ===== verification/Spec2Isabelle.thy ===== *)
theory Spec2Isabelle
  imports NgxCString NgxNumber NgxSprintf NgxBase64 NgxEscape NgxUtf8 HttpRequestLine HttpHeaderLine HttpComplexUri HttpStatusLine HttpArgs HttpTime NgxTimeCache NgxCrc NgxQueue NgxRadix NgxInet HttpGeo NgxSort HttpRoundRobin HttpRrSafety HttpUpstream HttpScript HttpRewrite HttpRewriteTypes NgxConf NgxConfParse NgxConfTree HttpLocation HttpLocationTree MailParse MailCommands HttpRange HttpRangeBody
begin

text \<open>
  A verification library of nginx 1.0.15, the C sources under \<^verbatim>\<open>src/nginx_1015/src\<close>.  File names
  below are relative to that directory.  The repository holds a second copy of the same sources
  under \<^verbatim>\<open>src/ngx_data\<close>.

  \<^bold>\<open>The program.\<close>  nginx is an event-driven web server and proxy.  At start-up it reads its
  configuration (\<^verbatim>\<open>core/ngx_conf_file.c\<close>): a lexer cuts the file into directives, and each directive
  runs the function of a module's command, which fills the structures of its context: addresses
  (\<^verbatim>\<open>core/ngx_inet.c\<close>), networks (\<^verbatim>\<open>http/modules/ngx_http_geo_module.c\<close> over the radix tree of
  \<^verbatim>\<open>core/ngx_radix_tree.c\<close>), strings with variables (\<^verbatim>\<open>http/ngx_http_script.c\<close>), rewrite rules
  (\<^verbatim>\<open>http/modules/ngx_http_rewrite_module.c\<close>), the trees of locations, groups of servers
  (\<^verbatim>\<open>http/ngx_http_upstream_round_robin.c\<close>).  At run time a worker reads the
  bytes of a request as they come, and the parsers of \<^verbatim>\<open>http/ngx_http_parse.c\<close> take them up where the
  last read stopped; the path is decoded and normalised, the rewrite rules run on a small
  stack machine, and a proxied request asks a balancer for peers until one answers
  (\<^verbatim>\<open>http/ngx_http_upstream.c\<close>), whose answer is parsed in turn.  Underneath are the string, number, time,
  checksum and queue routines of \<^verbatim>\<open>core\<close>.

  \<^bold>\<open>Conventions\<close> (\<^verbatim>\<open>NgxPrelude\<close>).  The platform is a build for 64-bit Linux (amd64): pointers, \<^verbatim>\<open>size_t\<close>,
  \<^verbatim>\<open>ngx_int_t\<close> and \<^verbatim>\<open>off_t\<close> have 64 bits, and the constants that \<^verbatim>\<open>configure\<close> derives from these sizes are those of such a
  build.  (The generated \<^verbatim>\<open>objs/ngx_auto_config.h\<close> in the repository, in both copies, is of a 32-bit build and is not
  what is modelled.)
  \<^verbatim>\<open>u_char\<close>, \<^verbatim>\<open>uint32_t\<close>, \<^verbatim>\<open>ngx_int_t\<close> and the like are words of their width, with the
  wrap-around that the code has; lengths and positions in a buffer are natural numbers.  A buffer is
  the list of its bytes and a read is \<open>rd\<close>, an option: \<open>None\<close> is a read outside the bytes, so that
  a result \<open>Some\<close> says that no such read happened.  Where the code writes into a buffer
  whose length was computed before, the model has the length as well and a branch for a write past it.
  Errors are values: the return codes of the code (\<open>ngx_rc\<close>), a sum, or an option.  Loops are
  structural recursion, functions with a measure, or \<open>partial_function (option)\<close> where the code has
  nothing that bounds them.  Code that is not in the repository (regular expressions, the C
  library's local time, floating-point arithmetic) and the outside world (clients, peers, clock, handlers of
  variables) are arguments of the definitions.

  \<^bold>\<open>The theories.\<close>

  \<^item> \<^verbatim>\<open>NgxCString\<close>, \<^verbatim>\<open>NgxNumber\<close>, \<^verbatim>\<open>NgxSprintf\<close>, \<^verbatim>\<open>NgxBase64\<close>, \<^verbatim>\<open>NgxEscape\<close>, \<^verbatim>\<open>NgxUtf8\<close>, \<^verbatim>\<open>NgxSort\<close>:
    \<^verbatim>\<open>core/ngx_string.c\<close> and \<^verbatim>\<open>core/ngx_parse.c\<close>, function by function.  The lemmas are the bounds of the
    printer and of the parsers, with the overflows that go unnoticed; exact counts of the two passes of the
    escapers; round trips of the codecs (locale \<open>codec\<close>, interpreted for base 64).
  \<^item> \<^verbatim>\<open>NgxScan\<close>: the loop over the bytes of a read that the incremental parsers share.  The
    locale \<open>incremental_parser\<close>, whose laws say that a step looks only at the bytes up to its own and what a call
    that fails leaves of its entry, gives that a read may be cut anywhere, with the exact result; \<open>invariant_parser\<close> carries an invariant through the loop.
    \<^verbatim>\<open>HttpRequestLine\<close>, \<^verbatim>\<open>HttpHeaderLine\<close> and \<^verbatim>\<open>HttpStatusLine\<close> interpret both for the three state machines
    of \<^verbatim>\<open>http/ngx_http_parse.c\<close>, one definition for each \<^verbatim>\<open>case\<close> of the code, and add what a line
    that is accepted looks like.
  \<^item> \<^verbatim>\<open>HttpComplexUri\<close>, \<^verbatim>\<open>HttpArgs\<close>: the decoder and normaliser of paths, the check of URIs, arguments and
    parameters in headers, from the same file.
  \<^item> \<^verbatim>\<open>NgxTimes\<close>, \<^verbatim>\<open>NgxCalendar\<close>, \<^verbatim>\<open>NgxTimeCache\<close>, \<^verbatim>\<open>HttpTime\<close>: \<^verbatim>\<open>core/ngx_times.c\<close> with the Gregorian calendar as
    the specification, the cached time as a step relation (\<open>inductive\<close>) with updates, signal handlers and
    lock holders in any order, and the parser of dates.
  \<^item> \<^verbatim>\<open>NgxCrc\<close>: the checksums against division bit by bit.
  \<^item> \<^verbatim>\<open>NgxQueue\<close>, \<^verbatim>\<open>NgxRadix\<close>: the linked structures of \<^verbatim>\<open>core\<close> on a store from addresses to nodes, with
    the lists and tables they refine.
  \<^item> \<^verbatim>\<open>NgxInet\<close>, \<^verbatim>\<open>HttpGeo\<close>: addresses as text, and the geo module over the radix tree (locale
    \<open>network_table\<close>, interpreted on the tree) and over arrays of ranges, up to the values that
    the two variables read through their pointers.
  \<^item> \<^verbatim>\<open>HttpRoundRobin\<close>, \<^verbatim>\<open>HttpRrSafety\<close>, \<^verbatim>\<open>HttpUpstream\<close>: the weighted round robin, fair on its own, safe under
    any interleaving of requests (a step relation with its invariant), and the retries of a request over
    any \<open>balancer\<close> (a locale, interpreted on the round robin), with the balancer by address.
  \<^item> \<^verbatim>\<open>HttpScript\<close>: the compiler and the evaluation of strings with variables, whose handlers may change the
    variables and captures of the request.
    \<^verbatim>\<open>HttpRewrite\<close>: the compiler of the rewrite module and its stack machine.  \<^verbatim>\<open>HttpRewriteTypes\<close>: every code
    has a height of the stack at its address, and compiled code never goes wrong.
  \<^item> \<^verbatim>\<open>NgxConf\<close>: the lexer of the configuration with its 4096-byte buffer, refined to a lexer on
    the text.  \<^verbatim>\<open>NgxConfParse\<close>: the parser and the choice of a command.  \<^verbatim>\<open>NgxConfTree\<close>:
    the parser ends on every file and reads back what is printed.
  \<^item> \<^verbatim>\<open>HttpLocation\<close>: the \<^verbatim>\<open>location\<close> directive, the queues and the search trees of the locations
    (\<^verbatim>\<open>http/ngx_http.c\<close>) and the search itself (\<^verbatim>\<open>http/ngx_http_core_module.c\<close>).  \<^verbatim>\<open>HttpLocationTree\<close>: the
    search finds the location that a reference choice over the configuration gives.
  \<^item> \<^verbatim>\<open>MailParse\<close>, \<^verbatim>\<open>MailCommands\<close>: the command parsers of the mail proxy (\<^verbatim>\<open>mail/ngx_mail_parse.c\<close>) on the loop of
    \<^verbatim>\<open>NgxScan\<close>: reads in pieces (locale \<open>mail_parser\<close>), arguments inside the buffer, and a line of SMTP taken apart.
  \<^item> \<^verbatim>\<open>HttpRange\<close>, \<^verbatim>\<open>HttpRangeBody\<close>: byte ranges (\<^verbatim>\<open>http/modules/ngx_http_range_filter_module.c\<close>).  The parser against
    a list of specifications, the header filter with its texts on \<^verbatim>\<open>ngx_sprintf\<close>, and the body filters: one range
    is a window of the response however it is cut into buffers, several are parts whose length is announced.

  \<^bold>\<open>Fuel and bounds.\<close>  The parser of the configuration counts tokens: a token takes at least one byte, and
  \<open>parse_enough\<close> shows that the length of the text is enough.  The stack machine counts codes: they
  only jump forward, and the length of the array is enough (\<open>rewrite_type_safe\<close>).  The loops that are
  \<open>partial_function\<close>s (of the queue, the radix tree
  and the ranges of the geo module) have lemmas that their value is \<open>Some\<close> on the structures the program builds.  Numeric
  bounds in hypotheses are those beyond which the C code wraps around (\<open>2 ^ 55\<close> seconds, \<open>2 ^ 62\<close> choices of
  a peer, weights below the limit of the sums).

  \<^bold>\<open>Not modelled.\<close>  The event loop and the system calls under it, sockets, files, shared memory, processes and
  signals, the allocators (an allocation may fail in the models that treat failure): their behaviour is
  that of the operating system.  The life of a request between the events, the other
  filters, the gateways and the file cache, which are driven by the event loop.  The resolver, the sessions of the mail
  proxy, the hash table builder and the red-black tree, the modules at the edge (logs, access rules,
  files, images, media).  Third-party interfaces (PCRE, OpenSSL, zlib, Perl).  Examples and notes
  of the repository.
\<close>

end
